(* ===== verification/Prelude.thy ===== *)
theory Prelude
  imports Main "HOL-Library.Word"
begin

text \<open>
  Shared vocabulary of the development: the error values of the Rust code, byte
  strings, named collections of facts, and generic lemmas on lists and sums that several
  components use.
\<close>

unbundle bit_operations_syntax

named_theorems circuit_simps "facts that unfold a constraint system into its meaning"
named_theorems size_simps "lengths of the lists the circuits build"

subsection \<open>Errors as values\<close>

text \<open>
  A Rust function that returns \<open>anyhow::Result\<close> or that may panic is modelled by a sum:
  \<open>Inl (Bail msg)\<close> is an \<open>anyhow::bail!\<close> or an \<open>Err\<close>, \<open>Inl (Panic msg)\<close> a failed
  \<open>assert!\<close>, an \<open>expect\<close> or an out-of-range index, \<open>Inr v\<close> the returned value.
\<close>

datatype error = Bail string | Panic string

type_synonym 'a res = "error + 'a"

definition ensure :: "bool \<Rightarrow> error \<Rightarrow> 'a res \<Rightarrow> 'a res" where
  "ensure b e k = (if b then k else Inl e)"

definition bind_res :: "'a res \<Rightarrow> ('a \<Rightarrow> 'b res) \<Rightarrow> 'b res" where
  "bind_res m f = (case m of Inl e \<Rightarrow> Inl e | Inr x \<Rightarrow> f x)"

lemma ensure_Inr_iff [simp]: "ensure b e k = Inr x \<longleftrightarrow> b \<and> k = Inr x"
  by (simp add: ensure_def)

lemma ensure_simps [simp]:
  "ensure True e k = k" "ensure False e k = Inl e"
  by (simp_all add: ensure_def)

lemma bind_res_Inr_iff [simp]: "bind_res m f = Inr y \<longleftrightarrow> (\<exists>x. m = Inr x \<and> f x = Inr y)"
  by (cases m) (simp_all add: bind_res_def)

lemma bind_res_simps [simp]:
  "bind_res (Inr x) f = f x" "bind_res (Inl e) f = Inl e"
  by (simp_all add: bind_res_def)

text \<open>\<open>iter().map(f).collect::<Result<Vec<_>>>()\<close>\<close>

fun map_res :: "('a \<Rightarrow> 'b res) \<Rightarrow> 'a list \<Rightarrow> 'b list res" where
  "map_res f [] = Inr []"
| "map_res f (x # xs) = bind_res (f x) (\<lambda>y. bind_res (map_res f xs) (\<lambda>ys. Inr (y # ys)))"

lemma map_res_Inr_iff: "map_res f xs = Inr ys \<longleftrightarrow> map f xs = map Inr ys"
  by (induction xs arbitrary: ys) (auto simp: Cons_eq_map_conv)

text \<open>\<open>Vec::resize\<close>\<close>

definition resize :: "nat \<Rightarrow> 'a \<Rightarrow> 'a list \<Rightarrow> 'a list" where
  "resize n x xs = take n xs @ replicate (n - length xs) x"

subsection \<open>Bytes\<close>

type_synonym u8 = "8 word"
type_synonym u32 = "32 word"
type_synonym u64 = "64 word"
type_synonym bytes = "u8 list"

definition bytes_of_string :: "string \<Rightarrow> bytes" where
  "bytes_of_string s = map (\<lambda>c. of_nat (of_char c)) s"

lemma length_bytes_of_string [simp, size_simps]: "length (bytes_of_string s) = length s"
  by (simp add: bytes_of_string_def)

lemma unat_u8_less [simp]: "unat (b :: u8) < 256"
  using unsigned_less [of b] by simp

lemma unat_u32_less [simp]: "unat (w :: u32) < 4294967296"
  using unsigned_less [of w] by simp

lemma unat_u64_less [simp]: "unat (w :: u64) < 18446744073709551616"
  using unsigned_less [of w] by simp

subsection \<open>Lists\<close>

lemma foldl_add_sum_list: "foldl (+) (a :: 'a :: comm_monoid_add) xs = a + sum_list xs"
  by (induction xs arbitrary: a) (simp_all add: add.assoc)

lemma foldl_plus_map: "foldl (\<lambda>acc x. acc + f x) (a :: 'a :: comm_monoid_add) xs = a + sum_list (map f xs)"
  by (induction xs arbitrary: a) (simp_all add: add.assoc)

lemma sum_list_delta:
  "i < n \<Longrightarrow> (\<Sum>j\<leftarrow>[0..<n]. if j = i then f j else (0 :: 'a :: comm_monoid_add)) = f i"
proof -
  have *: "(\<Sum>j\<leftarrow>[0..<n]. if j = i then f j else 0) = (if i < n then f i else 0)" for n
    by (induction n) (auto simp: less_Suc_eq)
  then show "i < n \<Longrightarrow> (\<Sum>j\<leftarrow>[0..<n]. if j = i then f j else 0) = f i"
    by simp
qed

lemma nth_take_drop: "m < k \<Longrightarrow> n + m < length xs \<Longrightarrow> take k (drop n xs) ! m = xs ! (n + m)"
  by simp

end
