(* ===== verification/Order_Prime.thy ===== *)
theory Order_Prime
  imports Prelude
begin

text \<open>
  The order \<open>p = 2^64 - 2^32 + 1\<close> of the Goldilocks field is prime.  The argument is
  elementary: \<open>7^((p-1)/2)\<close> is \<open>-1\<close> modulo \<open>p\<close>, so modulo every divisor \<open>d > 2\<close> the
  element \<open>7^(2^32 - 1)\<close> has order exactly \<open>2^32\<close>; hence \<open>d > 2^32\<close>, and two such
  factors already exceed \<open>p\<close>.
\<close>

subsection \<open>Powers modulo the order\<close>

primrec mexp :: "int \<Rightarrow> num \<Rightarrow> int" where
  "mexp a num.One = a mod 18446744069414584321"
| "mexp a (num.Bit0 n) = (mexp a n)\<^sup>2 mod 18446744069414584321"
| "mexp a (num.Bit1 n) = ((mexp a n)\<^sup>2 mod 18446744069414584321) * a mod 18446744069414584321"

lemma mexp_power: "mexp a n = a ^ numeral n mod 18446744069414584321"
proof (induction n)
  case One
  then show ?case by simp
next
  case (Bit0 n)
  have "a ^ numeral (num.Bit0 n) = (a ^ numeral n)\<^sup>2"
    by (simp add: numeral_Bit0 power_add power2_eq_square)
  then show ?case
    by (simp only: mexp.simps Bit0 power_mod)
next
  case (Bit1 n)
  have "a ^ numeral (num.Bit1 n) = (a ^ numeral n)\<^sup>2 * a"
    by (simp only: numeral_Bit1 power_add power_one_right power2_eq_square)
  then show ?case
    by (simp only: mexp.simps Bit1 power_mod mod_mult_left_eq)
qed

lemma generator_power: "(7 ^ 4294967295) ^ 2147483648 mod (18446744069414584321 :: int) = 18446744069414584320"
proof -
  have "(7 ^ 4294967295) ^ 2147483648 = (7 :: int) ^ 9223372034707292160"
    by (simp only: power_mult [symmetric] numeral_times_numeral mult_num_simps num.inject add_num_simps)
  also have "\<dots> mod 18446744069414584321 = 18446744069414584320"
    by (simp only: mexp_power [symmetric]) code_simp
  finally show ?thesis .
qed

subsection \<open>Primality\<close>

lemma odd_part_bound:
  assumes "0 < k" "k < (2::nat) ^ n"
  obtains s m where "k = 2 ^ s * m" "odd m" "s < n"
proof -
  have "\<exists>s m. k = 2 ^ s * m \<and> odd m"
    using assms(1)
  proof (induction k rule: less_induct)
    case (less k)
    show ?case
    proof (cases "odd k")
      case True
      then show ?thesis by (intro exI [of _ 0] exI [of _ k]) simp
    next
      case False
      then obtain k' where k': "k = 2 * k'" by (auto elim: evenE)
      then have "0 < k'" "k' < k" using less.prems by auto
      then obtain s m where "k' = 2 ^ s * m" "odd m"
        using less.IH [of k'] by blast
      then show ?thesis using k' by (intro exI [of _ "Suc s"] exI [of _ m]) simp
    qed
  qed
  then obtain s m where sm: "k = 2 ^ s * m" "odd m" by blast
  have "0 < m" using sm(2) by (cases m) simp_all
  then have "2 ^ s \<le> k" using sm(1) by simp
  then have "(2::nat) ^ s < 2 ^ n" using assms(2) by linarith
  then have "s < n" by simp
  with sm that show ?thesis by blast
qed

lemma two_power_order_distinct:
  fixes b d :: int
  assumes d: "2 < d" and b: "b ^ (2 ^ n) mod d = (- 1) mod d"
    and k: "0 < k" "k < 2 ^ Suc n"
  shows "b ^ k mod d \<noteq> 1"
proof
  assume one: "b ^ k mod d = 1"
  obtain s m where sm: "k = 2 ^ s * m" "odd m" "s < Suc n"
    using odd_part_bound [OF k] by blast
  have "2 ^ n * m = k * 2 ^ (n - s)"
    using sm(1,3) by (simp add: power_add [symmetric] mult_ac)
  then have "b ^ (2 ^ n * m) mod d = (b ^ k) ^ (2 ^ (n - s)) mod d"
    by (simp only: power_mult)
  also have "\<dots> = (b ^ k mod d) ^ (2 ^ (n - s)) mod d"
    by (simp only: power_mod)
  also have "\<dots> = 1"
    using one d by simp
  finally have 1: "b ^ (2 ^ n * m) mod d = 1" .
  have "b ^ (2 ^ n * m) mod d = (b ^ (2 ^ n) mod d) ^ m mod d"
    by (simp only: power_mult power_mod)
  also have "\<dots> = (- 1) ^ m mod d"
    by (simp only: b power_mod)
  also have "\<dots> = (- 1) mod d"
    using sm(2) by simp
  also have "\<dots> = d - 1"
    using d zmod_minus1 [of d] by simp
  finally show False using 1 d by simp
qed

lemma divisor_large:
  fixes d :: int
  assumes "2 < d" "d dvd 18446744069414584321"
  shows "4294967296 < d"
proof -
  define b :: int where "b = 7 ^ 4294967295"
  have b31: "b ^ (2 ^ 31) mod d = (- 1) mod d"
  proof -
    have "b ^ 2147483648 mod 18446744069414584321 = 18446744069414584320"
      unfolding b_def by (rule generator_power)
    moreover have "b ^ 2147483648 mod 18446744069414584321 mod d = b ^ 2147483648 mod d"
      using assms(2) by (rule mod_mod_cancel)
    moreover have "(18446744069414584320 :: int) mod d = (- 1) mod d"
      using assms(2) by (simp add: mod_eq_dvd_iff)
    moreover have "(2::nat) ^ 31 = 2147483648" by simp
    ultimately show ?thesis by metis
  qed
  have coprime: "coprime b d"
  proof -
    have "b ^ (2 ^ 31) mod d = (- 1) mod d" by (rule b31)
    then obtain c where "b ^ (2 ^ 31) - (- 1) = d * c"
      by (auto simp only: mod_eq_dvd_iff dvd_def)
    then have "b * (- (b ^ (2 ^ 31 - 1))) + d * c = 1"
      by (simp add: power_Suc [symmetric] del: power_Suc)
    then show ?thesis
      by (metis coprimeI dvd_add dvd_mult2)
  qed
  have inj: "inj_on (\<lambda>i. b ^ i mod d) {..<2 ^ 32}"
  proof (rule linorder_inj_onI)
    fix i j :: nat
    assume ij: "i < j" "i \<in> {..<2 ^ 32}" "j \<in> {..<2 ^ 32}"
    show "b ^ i mod d \<noteq> b ^ j mod d"
    proof
      assume "b ^ i mod d = b ^ j mod d"
      then have "d dvd b ^ j - b ^ i" by (metis mod_eq_dvd_iff)
      also have "b ^ j - b ^ i = b ^ i * (b ^ (j - i) - 1)"
        using ij(1) by (simp add: algebra_simps power_add [symmetric])
      finally have "d dvd b ^ (j - i) - 1"
        using coprime by (simp add: coprime_commute coprime_dvd_mult_right_iff)
      then have "b ^ (j - i) mod d = 1 mod d" by (simp add: mod_eq_dvd_iff)
      moreover have "b ^ (j - i) mod d \<noteq> 1"
        using two_power_order_distinct [OF assms(1) b31, of "j - i"] ij by simp
      ultimately show False using assms(1) by simp
    qed
  qed auto
  have "(\<lambda>i. b ^ i mod d) ` {..<2 ^ 32} \<subseteq> {1..<d}"
  proof -
    have "b ^ i mod d \<noteq> 0" for i
    proof
      assume "b ^ i mod d = 0"
      then have "d dvd b ^ i" by auto
      moreover have "coprime (b ^ i) d" using coprime by simp
      ultimately have "is_unit d" by (metis coprime_common_divisor dvd_refl)
      then show False using assms(1) by simp
    qed
    moreover have "0 \<le> b ^ i mod d" "b ^ i mod d < d" for i using assms(1) by simp_all
    ultimately have "1 \<le> b ^ i mod d" "b ^ i mod d < d" for i
      by (simp_all add: int_one_le_iff_zero_less order_less_le)
    then show ?thesis by auto
  qed
  then have "card {..<2 ^ 32 :: nat} \<le> card {1..<d}"
    using card_inj_on_le [OF inj] by blast
  then show ?thesis using assms(1) by simp
qed

lemma order_prime:
  fixes d :: int
  assumes "0 < d" "d dvd 18446744069414584321"
  shows "d = 1 \<or> d = 18446744069414584321"
proof (rule ccontr)
  assume nontrivial: "\<not> ?thesis"
  obtain e where e: "18446744069414584321 = d * e" using assms(2) by (auto simp: dvd_def)
  then have "0 < e" using assms(1) by (metis zero_less_mult_pos zero_less_numeral)
  have "odd (d * e)" using e by (metis even_numeral odd_numeral)
  then have "odd d" "odd e" by auto
  moreover have "d \<noteq> 1" "e \<noteq> 1" using nontrivial e by auto
  ultimately have "2 < d" "2 < e" using assms(1) \<open>0 < e\<close> by (presburger, presburger)
  then have "4294967296 < d" "4294967296 < e"
    using divisor_large [of d] divisor_large [of e] e by (simp_all add: dvd_def)
  then have "4294967297 * 4294967297 \<le> d * e"
    by (intro mult_mono) auto
  then show False using e by simp
qed

lemma coprime_order:
  fixes a :: int
  assumes "0 < a" "a < 18446744069414584321"
  shows "coprime a 18446744069414584321"
proof -
  have "gcd a 18446744069414584321 = 1 \<or> gcd a 18446744069414584321 = 18446744069414584321"
    by (rule order_prime) simp_all
  moreover have "gcd a 18446744069414584321 \<le> a" using assms by (simp add: gcd_le1_int)
  ultimately show ?thesis using assms by (auto simp: coprime_iff_gcd_eq_1)
qed

end
