(* ===== verification/Goldilocks.thy ===== *)
theory Goldilocks
  imports Order_Prime
begin

text \<open>
  The Goldilocks field as a type \<open>gf\<close> of canonical representatives below
  \<open>p = 2^64 - 2^32 + 1\<close>, the value a \<open>GoldilocksField\<close> of
  \<open>plonky2/field/src/goldilocks_field.rs\<close> denotes.  The type is an instance of the
  library's \<open>field\<close>, so that \<open>algebra_simps\<close> and the ring normaliser apply to circuit
  equations.  \<open>canon\<close> is \<open>to_canonical_u64\<close>.
\<close>

abbreviation goldilocks_order :: nat where
  "goldilocks_order \<equiv> 18446744069414584321"

typedef gf = "{0..<18446744069414584321 :: int}"
  morphisms rep_gf abs_gf
  by (rule exI [of _ 0]) simp

setup_lifting type_definition_gf

instantiation gf :: comm_ring_1
begin

lift_definition zero_gf :: gf is 0 by simp
lift_definition one_gf :: gf is 1 by simp
lift_definition plus_gf :: "gf \<Rightarrow> gf \<Rightarrow> gf" is "\<lambda>x y. (x + y) mod 18446744069414584321" by simp
lift_definition minus_gf :: "gf \<Rightarrow> gf \<Rightarrow> gf" is "\<lambda>x y. (x - y) mod 18446744069414584321" by simp
lift_definition uminus_gf :: "gf \<Rightarrow> gf" is "\<lambda>x. (- x) mod 18446744069414584321" by simp
lift_definition times_gf :: "gf \<Rightarrow> gf \<Rightarrow> gf" is "\<lambda>x y. (x * y) mod 18446744069414584321" by simp

instance
  by standard (transfer; simp add: mod_simps algebra_simps)+

end

instantiation gf :: equal
begin

lift_definition equal_gf :: "gf \<Rightarrow> gf \<Rightarrow> bool" is "(=)" .

instance
  by standard (transfer; simp)

end

lemma rep_gf_bounds: "0 \<le> rep_gf x" "rep_gf x < 18446744069414584321"
  using rep_gf [of x] by auto

lemma rep_of_nat: "rep_gf (of_nat n) = int n mod 18446744069414584321"
  by (induction n) (simp_all add: zero_gf.rep_eq plus_gf.rep_eq one_gf.rep_eq mod_simps)

lemma rep_of_int: "rep_gf (of_int n) = n mod 18446744069414584321"
  by (cases n rule: int_cases2)
    (simp_all add: rep_of_nat uminus_gf.rep_eq mod_simps)

lemma rep_power: "rep_gf (x ^ n) = rep_gf x ^ n mod 18446744069414584321"
  by (induction n) (simp_all add: one_gf.rep_eq times_gf.rep_eq mod_simps)

subsection \<open>No zero divisors, Fermat's theorem, inverses\<close>

lemma gf_mult_eq_0:
  fixes a b :: gf
  assumes "a * b = 0" "a \<noteq> 0"
  shows "b = 0"
proof -
  have "18446744069414584321 dvd rep_gf a * rep_gf b"
    using assms(1) by (transfer) auto
  moreover have "coprime (rep_gf a) 18446744069414584321"
  proof (rule coprime_order)
    show "0 < rep_gf a"
      using assms(2) rep_gf_bounds(1) [of a] by (metis order_less_le rep_gf_inject zero_gf.rep_eq)
  qed (rule rep_gf_bounds)
  ultimately have "18446744069414584321 dvd rep_gf b"
    by (simp add: coprime_commute coprime_dvd_mult_right_iff)
  then show ?thesis
    using rep_gf_bounds [of b] by (metis rep_gf_inject zdvd_not_zless order_less_le zero_gf.rep_eq)
qed

instance gf :: idom
  by standard (use gf_mult_eq_0 in blast)

lemma UNIV_gf: "(UNIV :: gf set) = abs_gf ` {0..<18446744069414584321}"
  using type_definition.Abs_image [OF type_definition_gf] by simp

instance gf :: finite
  by standard (simp add: UNIV_gf)

lemma card_gf: "card (UNIV :: gf set) = goldilocks_order"
  using type_definition.card [OF type_definition_gf] by simp

lemma gf_fermat:
  fixes a :: gf
  assumes "a \<noteq> 0"
  shows "a ^ (goldilocks_order - 1) = 1"
proof -
  let ?U = "UNIV - {0 :: gf}"
  have bij: "bij_betw ((*) a) ?U ?U"
  proof (rule bij_betw_imageI)
    show inj: "inj_on ((*) a) ?U" by (simp add: inj_on_def assms)
    show "(*) a ` ?U = ?U"
      by (rule endo_inj_surj [OF _ _ inj]) (auto simp: assms)
  qed
  have "(\<Prod>x\<in>?U. a * x) = \<Prod>?U"
    using prod.reindex_bij_betw [OF bij, of "\<lambda>x. x"] by simp
  moreover have "(\<Prod>x\<in>?U. a * x) = a ^ card ?U * \<Prod>?U"
    by (simp add: prod.distrib)
  moreover have "\<Prod>?U \<noteq> 0"
    by simp
  ultimately have "a ^ card ?U = 1"
    by (metis mult_cancel_right2)
  then show ?thesis
    by (simp add: card_Diff_subset card_gf)
qed

instantiation gf :: field
begin

lift_definition inverse_gf :: "gf \<Rightarrow> gf" is "\<lambda>x. mexp x (num_of_nat 18446744069414584319)"
  by (simp add: mexp_power)

definition divide_gf :: "gf \<Rightarrow> gf \<Rightarrow> gf" where
  "divide_gf x y = x * inverse y"

lemma inverse_gf_power: "inverse x = (x :: gf) ^ (goldilocks_order - 2)"
  by (simp add: rep_gf_inject [symmetric] rep_power inverse_gf.rep_eq mexp_power numeral_num_of_nat)

instance
proof
  fix a b :: gf
  show "a \<noteq> 0 \<Longrightarrow> inverse a * a = 1"
    using gf_fermat [of a] by (simp add: inverse_gf_power flip: power_Suc2)
  show "inverse (0 :: gf) = 0"
    by (simp add: inverse_gf_power)
  show "a div b = a * inverse b"
    by (rule divide_gf_def)
qed

end

subsection \<open>Canonical representatives\<close>

definition canon :: "gf \<Rightarrow> nat" where
  "canon x = nat (rep_gf x)"

lemma canon_less [simp]: "canon x < 18446744069414584321"
  using rep_gf_bounds [of x] by (simp add: canon_def)

lemma canon_of_nat [simp]: "canon (of_nat n) = n mod 18446744069414584321"
  by (simp add: canon_def rep_of_nat nat_mod_distrib)

lemma canon_0 [simp]: "canon 0 = 0" and canon_1 [simp]: "canon 1 = 1"
  by (simp_all add: canon_def zero_gf.rep_eq one_gf.rep_eq)

lemma canon_numeral [simp]: "canon (numeral n) = numeral n mod 18446744069414584321"
  using canon_of_nat [of "numeral n"] by simp

lemma of_nat_canon [simp]: "of_nat (canon x) = x"
  using rep_gf_bounds [of x] by (simp add: rep_gf_inject [symmetric] rep_of_nat rep_of_int canon_def)

lemma canon_inject: "canon x = canon y \<longleftrightarrow> x = y"
  by (metis of_nat_canon)

lemma canon_add: "canon (x + y) = (canon x + canon y) mod 18446744069414584321"
  using canon_of_nat [of "canon x + canon y"] by simp

lemma canon_mult: "canon (x * y) = (canon x * canon y) mod 18446744069414584321"
  using canon_of_nat [of "canon x * canon y"] by simp

lemma of_nat_gf_eq_iff: "(of_nat m :: gf) = of_nat n \<longleftrightarrow> m mod goldilocks_order = n mod goldilocks_order"
  by (metis canon_inject canon_of_nat)

lemma of_nat_gf_inject: "m < goldilocks_order \<Longrightarrow> n < goldilocks_order \<Longrightarrow> (of_nat m :: gf) = of_nat n \<longleftrightarrow> m = n"
  by (simp add: of_nat_gf_eq_iff)

lemma canon_eq_iff: "n < goldilocks_order \<Longrightarrow> canon x = n \<longleftrightarrow> x = of_nat n"
  by (metis canon_of_nat mod_less of_nat_canon)

lemma gf_cases: obtains n where "(x :: gf) = of_nat n" "n < goldilocks_order"
  using of_nat_canon [of x] canon_less [of x] by metis

text \<open>Evaluation of closed terms.\<close>

lemma gf_numeral_eq [simp]:
  "(numeral m :: gf) = numeral n \<longleftrightarrow> (numeral m :: nat) mod goldilocks_order = numeral n mod goldilocks_order"
  "(numeral m :: gf) = 0 \<longleftrightarrow> (numeral m :: nat) mod goldilocks_order = 0"
  "(numeral m :: gf) = 1 \<longleftrightarrow> (numeral m :: nat) mod goldilocks_order = 1"
  "(0 :: gf) = numeral m \<longleftrightarrow> (numeral m :: nat) mod goldilocks_order = 0"
  "(1 :: gf) = numeral m \<longleftrightarrow> (numeral m :: nat) mod goldilocks_order = 1"
  by (metis canon_inject canon_numeral canon_0 canon_1)+

lemma gf_boolean: "x * x = x \<longleftrightarrow> x = 0 \<or> x = (1 :: gf)"
proof
  assume "x * x = x"
  then have "x * (x - 1) = 0" by (simp add: algebra_simps)
  then show "x = 0 \<or> x = 1" by simp
qed auto

end
