(* ===== verification/Builder.thy ===== *)
theory Builder
  imports Goldilocks
begin

text \<open>
  The arithmetic layer of \<open>CircuitBuilder\<close> (\<open>plonky2/src/gadgets/arithmetic.rs\<close>,
  \<open>select.rs\<close>).  Targets are expressions over wires; \<open>eval\<close> gives the value a target takes
  in a satisfying assignment, where the output wire of an \<open>ArithmeticGate\<close> slot is forced to
  \<open>c0 * x * y + c1 * z\<close>.  The lemmas show that the builder's constant folding never changes
  that value, which is why the circuits of the other theories are written with field
  expressions for the targets the builder computes.
\<close>

datatype target = TConst gf | TWire nat | TArith gf gf target target target

primrec eval :: "(nat \<Rightarrow> gf) \<Rightarrow> target \<Rightarrow> gf" where
  "eval \<sigma> (TConst c) = c"
| "eval \<sigma> (TWire i) = \<sigma> i"
| "eval \<sigma> (TArith c0 c1 x y z) = c0 * eval \<sigma> x * eval \<sigma> y + c1 * eval \<sigma> z"

fun target_as_constant :: "target \<Rightarrow> gf option" where
  "target_as_constant (TConst c) = Some c"
| "target_as_constant _ = None"

definition first_term_const :: "gf \<Rightarrow> target \<Rightarrow> target \<Rightarrow> gf option" where
  "first_term_const c0 x y =
     (if c0 = 0 \<or> x = TConst 0 \<or> y = TConst 0 then Some 0
      else case (target_as_constant x, target_as_constant y) of
        (Some a, Some b) \<Rightarrow> Some (a * b * c0)
      | _ \<Rightarrow> None)"

definition second_term_const :: "gf \<Rightarrow> target \<Rightarrow> gf option" where
  "second_term_const c1 z =
     (if c1 = 0 \<or> z = TConst 0 then Some 0
      else map_option (\<lambda>a. a * c1) (target_as_constant z))"

definition arithmetic_special_cases ::
    "gf \<Rightarrow> gf \<Rightarrow> target \<Rightarrow> target \<Rightarrow> target \<Rightarrow> target option" where
  "arithmetic_special_cases c0 c1 x y z =
     (let first_term_zero = (c0 = 0 \<or> x = TConst 0 \<or> y = TConst 0);
          second_term_zero = (c1 = 0 \<or> z = TConst 0)
      in case (first_term_const c0 x y, second_term_const c1 z) of
           (Some a, Some b) \<Rightarrow> Some (TConst (a + b))
         | _ \<Rightarrow>
           if first_term_zero \<and> c1 = 1 then Some z
           else if second_term_zero \<and> (\<exists>a \<in> set_option (target_as_constant x). a * c0 = 1) then Some y
           else if second_term_zero \<and> (\<exists>b \<in> set_option (target_as_constant y). b * c0 = 1) then Some x
           else None)"

definition arithmetic :: "gf \<Rightarrow> gf \<Rightarrow> target \<Rightarrow> target \<Rightarrow> target \<Rightarrow> target" where
  "arithmetic c0 c1 x y z =
     (case arithmetic_special_cases c0 c1 x y z of
        Some result \<Rightarrow> result
      | None \<Rightarrow> TArith c0 c1 x y z)"

definition mul_add_t :: "target \<Rightarrow> target \<Rightarrow> target \<Rightarrow> target" where
  "mul_add_t x y z = arithmetic 1 1 x y z"

definition mul_sub_t :: "target \<Rightarrow> target \<Rightarrow> target \<Rightarrow> target" where
  "mul_sub_t x y z = arithmetic 1 (- 1) x y z"

definition add_t :: "target \<Rightarrow> target \<Rightarrow> target" where
  "add_t x y = arithmetic 1 1 x (TConst 1) y"

definition sub_t :: "target \<Rightarrow> target \<Rightarrow> target" where
  "sub_t x y = arithmetic 1 (- 1) x (TConst 1) y"

definition mul_t :: "target \<Rightarrow> target \<Rightarrow> target" where
  "mul_t x y = arithmetic 1 0 x y x"

definition add_const_t :: "target \<Rightarrow> gf \<Rightarrow> target" where
  "add_const_t x c = add_t x (TConst c)"

definition mul_const_t :: "gf \<Rightarrow> target \<Rightarrow> target" where
  "mul_const_t c x = mul_t (TConst c) x"

definition mul_const_add_t :: "gf \<Rightarrow> target \<Rightarrow> target \<Rightarrow> target" where
  "mul_const_add_t c x y = mul_add_t (TConst c) x y"

definition add_many_t :: "target list \<Rightarrow> target" where
  "add_many_t terms = foldl add_t (TConst 0) terms"

definition mul_many_t :: "target list \<Rightarrow> target" where
  "mul_many_t terms = foldl mul_t (TConst 1) terms"

definition not_t :: "target \<Rightarrow> target" where
  "not_t b = sub_t (TConst 1) b"

definition and_t :: "target \<Rightarrow> target \<Rightarrow> target" where
  "and_t b1 b2 = mul_t b1 b2"

definition or_t :: "target \<Rightarrow> target \<Rightarrow> target" where
  "or_t b1 b2 = add_t (arithmetic (- 1) 1 b1 b2 b1) b2"

definition if_t :: "target \<Rightarrow> target \<Rightarrow> target \<Rightarrow> target" where
  "if_t b x y = mul_add_t (not_t b) y (mul_t b x)"

definition select_t :: "target \<Rightarrow> target \<Rightarrow> target \<Rightarrow> target" where
  "select_t b x y = mul_sub_t b x (mul_sub_t b y y)"

subsection \<open>The folding keeps the value\<close>

lemma target_as_constant_Some: "target_as_constant t = Some c \<longleftrightarrow> t = TConst c"
  by (cases t) auto

lemma first_term_const_eval:
  "first_term_const c0 x y = Some a \<Longrightarrow> c0 * eval \<sigma> x * eval \<sigma> y = a"
  by (auto simp: first_term_const_def target_as_constant_Some split: if_splits option.splits)

lemma second_term_const_eval: "second_term_const c1 z = Some b \<Longrightarrow> c1 * eval \<sigma> z = b"
  by (auto simp: second_term_const_def target_as_constant_Some split: if_splits)

lemma special_cases_eval:
  assumes "arithmetic_special_cases c0 c1 x y z = Some r"
  shows "eval \<sigma> r = c0 * eval \<sigma> x * eval \<sigma> y + c1 * eval \<sigma> z"
proof (cases "\<exists>a b. first_term_const c0 x y = Some a \<and> second_term_const c1 z = Some b")
  case True
  then show ?thesis
    using assms first_term_const_eval second_term_const_eval
    by (auto simp: arithmetic_special_cases_def)
next
  case False
  then have *: "(if (c0 = 0 \<or> x = TConst 0 \<or> y = TConst 0) \<and> c1 = 1 then Some z
           else if (c1 = 0 \<or> z = TConst 0) \<and> (\<exists>a \<in> set_option (target_as_constant x). a * c0 = 1) then Some y
           else if (c1 = 0 \<or> z = TConst 0) \<and> (\<exists>b \<in> set_option (target_as_constant y). b * c0 = 1) then Some x
           else None) = Some r"
    using assms False unfolding arithmetic_special_cases_def Let_def
    by (cases "first_term_const c0 x y"; cases "second_term_const c1 z";
        simp only: prod.case option.case) auto
  have unit: "k * c0 = 1 \<Longrightarrow> c0 * k * v = v" "k * c0 = 1 \<Longrightarrow> c0 * v * k = v" for k v
    by (metis mult.commute mult_1 mult.assoc)+
  from * show ?thesis
    by (auto simp: target_as_constant_Some unit split: if_splits)
qed

lemma eval_arithmetic: "eval \<sigma> (arithmetic c0 c1 x y z) = c0 * eval \<sigma> x * eval \<sigma> y + c1 * eval \<sigma> z"
  by (auto simp: arithmetic_def special_cases_eval split: option.split)

lemma eval_ops [simp]:
  "eval \<sigma> (mul_add_t x y z) = eval \<sigma> x * eval \<sigma> y + eval \<sigma> z"
  "eval \<sigma> (mul_sub_t x y z) = eval \<sigma> x * eval \<sigma> y - eval \<sigma> z"
  "eval \<sigma> (add_t x y) = eval \<sigma> x + eval \<sigma> y"
  "eval \<sigma> (sub_t x y) = eval \<sigma> x - eval \<sigma> y"
  "eval \<sigma> (mul_t x y) = eval \<sigma> x * eval \<sigma> y"
  by (simp_all add: mul_add_t_def mul_sub_t_def add_t_def sub_t_def mul_t_def eval_arithmetic)

lemma eval_const_ops [simp]:
  "eval \<sigma> (add_const_t x c) = eval \<sigma> x + c"
  "eval \<sigma> (mul_const_t c x) = c * eval \<sigma> x"
  "eval \<sigma> (mul_const_add_t c x y) = c * eval \<sigma> x + eval \<sigma> y"
  by (simp_all add: add_const_t_def mul_const_t_def mul_const_add_t_def)

lemma eval_add_many: "eval \<sigma> (add_many_t ts) = sum_list (map (eval \<sigma>) ts)"
proof -
  have "eval \<sigma> (foldl add_t a ts) = eval \<sigma> a + sum_list (map (eval \<sigma>) ts)" for a
    by (induction ts arbitrary: a) (simp_all add: add.assoc)
  then show ?thesis by (simp add: add_many_t_def)
qed

lemma eval_mul_many: "eval \<sigma> (mul_many_t ts) = prod_list (map (eval \<sigma>) ts)"
proof -
  have "eval \<sigma> (foldl mul_t a ts) = eval \<sigma> a * prod_list (map (eval \<sigma>) ts)" for a
    by (induction ts arbitrary: a) (simp_all add: mult.assoc)
  then show ?thesis by (simp add: mul_many_t_def)
qed

lemma eval_bool_ops:
  "eval \<sigma> (not_t b) = 1 - eval \<sigma> b"
  "eval \<sigma> (and_t b c) = eval \<sigma> b * eval \<sigma> c"
  "eval \<sigma> (or_t b c) = eval \<sigma> b + eval \<sigma> c - eval \<sigma> b * eval \<sigma> c"
  "eval \<sigma> (if_t b x y) = eval \<sigma> b * eval \<sigma> x + (1 - eval \<sigma> b) * eval \<sigma> y"
  "eval \<sigma> (select_t b x y) = eval \<sigma> b * eval \<sigma> x - (eval \<sigma> b * eval \<sigma> y - eval \<sigma> y)"
  by (simp_all add: not_t_def and_t_def or_t_def if_t_def select_t_def eval_arithmetic)

text \<open>The value of \<open>select\<close>, written on field values for the circuits of the pipeline.\<close>

definition select :: "gf \<Rightarrow> gf \<Rightarrow> gf \<Rightarrow> gf" where
  "select b x y = b * x - (b * y - y)"

lemma select_of_bool [simp]: "select (of_bool c) x y = (if c then x else y)"
  by (simp add: select_def)

lemma select_01 [simp]: "select 0 x y = y" "select 1 x y = x"
  by (simp_all add: select_def)

subsection \<open>Equality test\<close>

definition is_equal_circuit :: "gf \<Rightarrow> gf \<Rightarrow> gf \<Rightarrow> gf \<Rightarrow> bool" where
  "is_equal_circuit x y equal iv \<longleftrightarrow>
     (let not_equal = 1 - equal;
          diff = x - y;
          not_equal_check = equal * diff;
          diff_normalized = diff * iv;
          equal_check = diff_normalized - not_equal
      in not_equal_check = 0 \<and> equal_check = 0)"

definition equality_generator :: "gf \<Rightarrow> gf \<Rightarrow> gf \<times> gf" where
  "equality_generator x y = (of_bool (x = y), if x \<noteq> y then inverse (x - y) else 0)"

definition is_equal :: "gf \<Rightarrow> gf \<Rightarrow> gf" where
  "is_equal x y = of_bool (x = y)"

lemma is_equal_sound: "is_equal_circuit x y equal iv \<Longrightarrow> equal = is_equal x y"
  by (auto simp: is_equal_circuit_def is_equal_def Let_def)

lemma is_equal_complete:
  "case_prod (is_equal_circuit x y) (equality_generator x y)"
  by (simp add: is_equal_circuit_def equality_generator_def Let_def)

end
