(* ===== verification/Gates.thy ===== *)
theory Gates
  imports Builder
begin

text \<open>
  The gates behind the range checks, bit decompositions and table lookups of the pipeline:
  \<open>BaseSumGate\<close> (\<open>plonky2/src/gates/base_sum.rs\<close>) with \<open>split_le\<close>, \<open>le_sum\<close> and
  \<open>split_low_high\<close>, and \<open>RandomAccessGate\<close> with \<open>random_access\<close>.  A gate is the set of its
  polynomial constraints over the wires of one row.  For each of them the theory states the
  relation the gate is meant to enforce and proves that some assignment of the private wires
  satisfies the constraints exactly when the relation holds.
\<close>

subsection \<open>Boolean wires and binary sums\<close>

definition reduce_with_powers :: "gf list \<Rightarrow> gf \<Rightarrow> gf" where
  "reduce_with_powers terms alpha = foldr (\<lambda>term acc. acc * alpha + term) terms 0"

lemma reduce_with_powers_simps [simp]:
  "reduce_with_powers [] a = 0"
  "reduce_with_powers (x # xs) a = x + a * reduce_with_powers xs a"
  by (simp_all add: reduce_with_powers_def mult.commute add.commute)

lemma reduce_with_powers_append:
  "reduce_with_powers (xs @ ys) a = reduce_with_powers xs a + a ^ length xs * reduce_with_powers ys a"
  by (induction xs) (simp_all add: algebra_simps)

lemma reduce_with_powers_zeros: "\<forall>x \<in> set xs. x = 0 \<Longrightarrow> reduce_with_powers xs a = 0"
  by (induction xs) auto

definition bits_val :: "bool list \<Rightarrow> nat" where
  "bits_val bs = horner_sum of_bool 2 bs"

lemma bits_val_simps [simp]: "bits_val [] = 0" "bits_val (b # bs) = of_bool b + 2 * bits_val bs"
  by (simp_all add: bits_val_def)

lemma bits_val_less: "bits_val bs < 2 ^ length bs"
  by (induction bs) (auto simp: of_bool_def)

definition bits_of :: "nat \<Rightarrow> nat \<Rightarrow> bool list" where
  "bits_of n v = map (bit v) [0..<n]"

lemma length_bits_of [simp, size_simps]: "length (bits_of n v) = n"
  by (simp add: bits_of_def)

lemma nth_bits_of [simp]: "i < n \<Longrightarrow> bits_of n v ! i = bit v i"
  by (simp add: bits_of_def)

lemma bits_of_Suc: "bits_of (Suc n) v = odd v # bits_of n (v div 2)"
proof -
  have "[0..<Suc n] = 0 # map Suc [0..<n]" by (simp add: upt_conv_Cons map_Suc_upt del: upt_Suc)
  then show ?thesis by (simp add: bits_of_def bit_Suc bit_0 del: upt_Suc)
qed

lemma bits_val_bits_of: "v < 2 ^ n \<Longrightarrow> bits_val (bits_of n v) = v"
proof (induction n arbitrary: v)
  case 0
  then show ?case by (simp add: bits_of_def)
next
  case (Suc n)
  then have "v div 2 < 2 ^ n" by auto
  then show ?case using Suc.IH [of "v div 2"] by (simp add: bits_of_Suc)
qed

lemma bits_of_bits_val: "bits_of (length bs) (bits_val bs) = bs"
proof (induction bs)
  case Nil
  show ?case by (simp add: bits_of_def)
next
  case (Cons b bs)
  then show ?case by (simp add: bits_of_Suc)
qed

lemma bits_of_unique: "length bs = n \<Longrightarrow> bits_val bs = v \<Longrightarrow> bs = bits_of n v"
  using bits_of_bits_val by metis

lemma boolean_wires:
  assumes "\<forall>b \<in> set xs. b = 0 \<or> b = (1 :: gf)"
  obtains bs where "xs = map of_bool bs" "length bs = length xs"
proof -
  have "xs = map of_bool (map (\<lambda>x. x = 1) xs)"
    using assms by (auto simp: list_eq_iff_nth_eq)
  then show ?thesis using that [of "map (\<lambda>x. x = 1) xs"] by simp
qed

lemma reduce_of_bools: "reduce_with_powers (map of_bool bs) 2 = of_nat (bits_val bs)"
  by (induction bs) simp_all

lemma foldl_double: "foldl (\<lambda>acc b. acc + acc + b) 0 (rev xs) = reduce_with_powers xs 2"
  by (induction xs) (simp_all add: algebra_simps)

subsection \<open>BaseSumGate, split_le and range_check\<close>

text \<open>\<open>eval_unfiltered_base_packed\<close>: all constraints of the row vanish.\<close>

definition base_sum_gate :: "nat \<Rightarrow> gf \<Rightarrow> gf list \<Rightarrow> bool" where
  "base_sum_gate B s limbs \<longleftrightarrow>
     (let computed_sum = reduce_with_powers limbs (of_nat B)
      in computed_sum - s = 0
       \<and> (\<forall>limb \<in> set limbs. prod_list (map (\<lambda>i. limb - of_nat i) [0..<B]) = 0))"

lemma base_sum_gate_2:
  "base_sum_gate 2 s limbs \<longleftrightarrow>
     reduce_with_powers limbs 2 = s \<and> (\<forall>limb \<in> set limbs. limb = 0 \<or> limb = 1)"
  by (auto simp: base_sum_gate_def Let_def upt_rec)

text \<open>
  \<open>split_le\<close>: one gate per \<open>num_limbs\<close> bits, the wires past \<open>num_bits\<close> asserted zero, the
  partial sums combined from the last gate down.  A row is given by its sum wire and its limb
  wires.
\<close>

definition div_ceil :: "nat \<Rightarrow> nat \<Rightarrow> nat" where
  "div_ceil a b = (a + b - 1) div b"

definition split_le_circuit ::
    "nat \<Rightarrow> gf \<Rightarrow> nat \<Rightarrow> (gf \<times> gf list) list \<Rightarrow> gf list \<Rightarrow> bool" where
  "split_le_circuit num_limbs integer num_bits gates bits \<longleftrightarrow>
     (if num_bits = 0 then bits = []
      else let k = div_ceil num_bits num_limbs;
               all_bits = concat (map snd gates);
               acc = foldl (\<lambda>acc gate. 2 ^ num_limbs * acc + fst gate) 0 (rev gates)
           in length gates = k
            \<and> (\<forall>gate \<in> set gates. length (snd gate) = num_limbs \<and> base_sum_gate 2 (fst gate) (snd gate))
            \<and> bits = take num_bits all_bits
            \<and> (\<forall>b \<in> set (drop num_bits all_bits). b = 0)
            \<and> acc = integer)"

text \<open>What \<open>split_le\<close> and \<open>range_check\<close> are used for.\<close>

definition split_le :: "gf \<Rightarrow> nat \<Rightarrow> gf list \<Rightarrow> bool" where
  "split_le integer num_bits bits \<longleftrightarrow>
     canon integer < 2 ^ num_bits \<and> bits = map of_bool (bits_of num_bits (canon integer))"

definition range_check :: "gf \<Rightarrow> nat \<Rightarrow> bool" where
  "range_check x n_log \<longleftrightarrow> canon x < 2 ^ n_log"

lemma split_le_circuit_single:
  assumes "0 < n" "n \<le> l"
  shows "split_le_circuit l x n gates bits \<longleftrightarrow>
    (\<exists>limbs. gates = [(x, limbs)] \<and> length limbs = l \<and> base_sum_gate 2 x limbs \<and>
       bits = take n limbs \<and> (\<forall>b \<in> set (drop n limbs). b = 0))"
proof -
  have "div_ceil n l = 1"
    using assms by (simp add: div_ceil_def div_nat_eqI)
  then show ?thesis
    using assms by (auto simp: split_le_circuit_def Let_def length_Suc_conv)
qed

lemma split_le_value:
  assumes l: "l \<le> 63" and n: "n \<le> l" and len: "length limbs = l"
    and g: "base_sum_gate 2 x limbs" and z: "\<forall>b \<in> set (drop n limbs). b = 0"
  shows "split_le x n (take n limbs)"
proof -
  have "\<forall>b \<in> set (take n limbs). b = 0 \<or> b = 1"
    using g by (auto simp: base_sum_gate_2 dest: in_set_takeD)
  then obtain bs where bs: "take n limbs = map of_bool bs" "length bs = n"
    using boolean_wires [of "take n limbs"] n len by (metis length_take min.absorb2)
  have "x = reduce_with_powers (take n limbs @ drop n limbs) 2"
    using g by (simp add: base_sum_gate_2)
  also have "\<dots> = of_nat (bits_val bs)"
    using z by (simp only: reduce_with_powers_append reduce_with_powers_zeros bs(1) reduce_of_bools) simp
  finally have x: "x = of_nat (bits_val bs)" .
  have less: "bits_val bs < 2 ^ n" using bits_val_less [of bs] bs by simp
  also have "(2::nat) ^ n \<le> 2 ^ 63" using l n by (intro power_increasing) simp_all
  finally have "canon x = bits_val bs" by (simp add: x)
  then show ?thesis
    using less bits_of_unique [OF bs(2) refl] by (simp add: split_le_def bs(1))
qed

lemma split_le_wires:
  assumes n: "n \<le> l" and s: "split_le x n bits"
  shows "base_sum_gate 2 x (bits @ replicate (l - n) 0)"
proof -
  have "reduce_with_powers (bits @ replicate (l - n) 0) 2 = of_nat (canon x)"
    using s by (simp only: split_le_def reduce_with_powers_append reduce_of_bools)
      (simp add: reduce_with_powers_zeros bits_val_bits_of)
  then show ?thesis
    using s by (auto simp: base_sum_gate_2 split_le_def)
qed

lemma length_split_le: "split_le x n bits \<Longrightarrow> length bits = n"
  by (simp add: split_le_def)

lemma split_le_circuit_iff:
  assumes "0 < n" "n \<le> l" "l \<le> 63"
  shows "(\<exists>gates. split_le_circuit l x n gates bits) \<longleftrightarrow> split_le x n bits"
proof
  assume "\<exists>gates. split_le_circuit l x n gates bits"
  then show "split_le x n bits"
    using split_le_value [OF assms(3,2)] by (auto simp: split_le_circuit_single [OF assms(1,2)])
next
  assume s: "split_le x n bits"
  let ?limbs = "bits @ replicate (l - n) 0"
  have "split_le_circuit l x n [(x, ?limbs)] bits"
    using split_le_wires [OF assms(2) s] length_split_le [OF s] assms
    by (auto simp: split_le_circuit_single)
  then show "\<exists>gates. split_le_circuit l x n gates bits" by blast
qed

lemma range_check_iff_split: "range_check x n \<longleftrightarrow> (\<exists>bits. split_le x n bits)"
  by (auto simp: range_check_def split_le_def)

lemma range_check_of_nat: "v < 2 ^ n \<Longrightarrow> v < goldilocks_order \<Longrightarrow> range_check (of_nat v) n"
  by (simp add: range_check_def)

subsection \<open>le_sum and split_low_high\<close>

definition num_base_arithmetic_ops_per_gate :: nat where
  "num_base_arithmetic_ops_per_gate = 20"

text \<open>
  \<open>le_sum\<close> (\<open>split_base.rs\<close>): up to 21 bits by multiplications, without any constraint on
  the bits; more bits by one \<open>BaseSumGate\<close> row, which also forces them to be boolean.
\<close>

definition le_sum_circuit :: "nat \<Rightarrow> gf list \<Rightarrow> gf list \<Rightarrow> gf \<Rightarrow> bool" where
  "le_sum_circuit num_limbs bits limbs s \<longleftrightarrow>
     length bits \<le> 63
   \<and> (if bits = [] then s = 0
      else if length bits - 1 \<le> num_base_arithmetic_ops_per_gate
      then s = foldl (\<lambda>acc b. 2 * acc + b) (last bits) (rev (butlast bits))
      else length limbs = num_limbs \<and> base_sum_gate 2 s limbs
         \<and> take (length bits) limbs = bits \<and> (\<forall>l \<in> set (drop (length bits) limbs). l = 0))"

definition split_low_high :: "gf \<Rightarrow> nat \<Rightarrow> nat \<Rightarrow> gf \<Rightarrow> gf \<Rightarrow> bool" where
  "split_low_high x n_log num_bits low high \<longleftrightarrow>
     range_check low n_log \<and> range_check high (num_bits - n_log) \<and> high * 2 ^ n_log + low = x"

lemma horner_foldl: "foldl (\<lambda>s b. 2 * s + b) a (rev xs) = reduce_with_powers xs 2 + 2 ^ length xs * a"
  by (induction xs) (simp_all add: algebra_simps)

lemma le_sum_value:
  assumes "le_sum_circuit l bits limbs s" "bits = map of_bool bs" "length bits \<le> l"
  shows "s = of_nat (bits_val bs)"
proof -
  consider "bits = []" | "bits \<noteq> []" "length bits - 1 \<le> num_base_arithmetic_ops_per_gate"
    | "bits \<noteq> []" "\<not> length bits - 1 \<le> num_base_arithmetic_ops_per_gate" by blast
  then show ?thesis
  proof cases
    case 1
    then show ?thesis using assms by (simp add: le_sum_circuit_def)
  next
    case 2
    then have "s = reduce_with_powers (butlast bits) 2 + 2 ^ length (butlast bits) * last bits"
      using assms(1) by (simp only: le_sum_circuit_def horner_foldl if_False if_True)
    also have "\<dots> = reduce_with_powers (butlast bits @ [last bits]) 2"
      by (simp add: reduce_with_powers_append)
    finally show ?thesis using 2 assms(2) by (simp add: reduce_of_bools)
  next
    case 3
    then have g: "base_sum_gate 2 s limbs" "take (length bits) limbs = bits"
        "\<forall>l \<in> set (drop (length bits) limbs). l = 0"
      using assms(1) by (simp_all add: le_sum_circuit_def)
    have "s = reduce_with_powers (bits @ drop (length bits) limbs) 2"
      using g(1,2) by (metis append_take_drop_id base_sum_gate_2)
    also have "\<dots> = reduce_with_powers bits 2"
      using g(3) by (simp only: reduce_with_powers_append reduce_with_powers_zeros) simp
    finally show ?thesis
      by (simp only: assms(2) reduce_of_bools)
  qed
qed

lemma le_sum_boolean:
  assumes "le_sum_circuit l bits limbs s" "21 < length bits"
  shows "\<forall>b \<in> set bits. b = 0 \<or> b = 1"
  using assms by (auto simp: le_sum_circuit_def num_base_arithmetic_ops_per_gate_def base_sum_gate_2
      dest: in_set_takeD split: if_splits) (metis in_set_takeD)

lemma split_low_high_unique:
  assumes c: "split_low_high x n m low high" and n: "n \<le> m" "m \<le> 63"
  shows "canon low = canon x mod 2 ^ n" "canon high = canon x div 2 ^ n" "canon x < 2 ^ m"
proof -
  have lo: "canon low < 2 ^ n" and hi: "canon high < 2 ^ (m - n)"
    and x: "high * 2 ^ n + low = x"
    using c by (simp_all add: split_low_high_def range_check_def)
  let ?v = "canon high * 2 ^ n + canon low"
  have "canon high + 1 \<le> 2 ^ (m - n)" using hi by simp
  then have "(canon high + 1) * 2 ^ n \<le> 2 ^ (m - n) * 2 ^ n" by (rule mult_le_mono1)
  then have v: "?v < 2 ^ m" using lo n by (simp add: power_add [symmetric])
  also have "(2::nat) ^ m \<le> 2 ^ 63" using n(2) by (intro power_increasing) simp_all
  finally have small: "?v < goldilocks_order" by simp
  have "x = of_nat ?v" using x by simp
  then have "canon x = ?v" using small by (simp only: canon_of_nat mod_less)
  then show "canon low = canon x mod 2 ^ n" "canon high = canon x div 2 ^ n" "canon x < 2 ^ m"
    using lo v by simp_all
qed

lemma split_low_high_iff:
  assumes "n \<le> m" "m \<le> 63" "w < 2 ^ m"
  shows "split_low_high (of_nat w) n m low high \<longleftrightarrow>
    low = of_nat (w mod 2 ^ n) \<and> high = of_nat (w div 2 ^ n)"
proof
  have "(2::nat) ^ m \<le> 2 ^ 63" using assms(2) by (intro power_increasing) simp_all
  then have w: "w < goldilocks_order" using assms(3) by simp
  assume "split_low_high (of_nat w) n m low high"
  from split_low_high_unique [OF this assms(1,2)] w
  have "canon low = w mod 2 ^ n" "canon high = w div 2 ^ n" by simp_all
  then show "low = of_nat (w mod 2 ^ n) \<and> high = of_nat (w div 2 ^ n)"
    by (metis of_nat_canon)
next
  have p: "(2::nat) ^ m \<le> 2 ^ 63" using assms(2) by (intro power_increasing) simp_all
  then have w: "w < goldilocks_order" using assms(3) by simp
  assume *: "low = of_nat (w mod 2 ^ n) \<and> high = of_nat (w div 2 ^ n)"
  have "w div 2 ^ n < 2 ^ (m - n)"
    using assms(1,3) by (simp add: div_less_iff_less_mult power_add [symmetric])
  then have "range_check low n" "range_check high (m - n)"
    using * w by (auto intro!: range_check_of_nat intro: le_less_trans [OF div_le_dividend] le_less_trans [OF mod_less_eq_dividend])
  moreover have "high * 2 ^ n + low = of_nat w"
  proof -
    have "high * 2 ^ n + low = of_nat (w div 2 ^ n * 2 ^ n + w mod 2 ^ n)"
      using * by (simp only: of_nat_add of_nat_mult of_nat_power of_nat_numeral)
    then show ?thesis by (simp only: div_mult_mod_eq)
  qed
  ultimately show "split_low_high (of_nat w) n m low high"
    by (simp add: split_low_high_def)
qed

subsection \<open>RandomAccessGate and random_access\<close>

fun pair_fold :: "gf \<Rightarrow> gf list \<Rightarrow> gf list" where
  "pair_fold b (x # y # rest) = (x + b * (y - x)) # pair_fold b rest"
| "pair_fold b _ = []"

definition random_access_gate :: "gf \<Rightarrow> gf list \<Rightarrow> gf \<Rightarrow> gf list \<Rightarrow> bool" where
  "random_access_gate access_index list_items claimed_element bits \<longleftrightarrow>
     (\<forall>b \<in> set bits. b * (b - 1) = 0)
   \<and> foldl (\<lambda>acc b. acc + acc + b) 0 (rev bits) - access_index = 0
   \<and> hd (foldl (\<lambda>items b. pair_fold b items) list_items bits) - claimed_element = 0"

lemma pair_fold_nth:
  "length xs = 2 * n \<Longrightarrow>
     length (pair_fold b xs) = n \<and> (\<forall>i < n. pair_fold b xs ! i = xs ! (2 * i) + b * (xs ! (2 * i + 1) - xs ! (2 * i)))"
proof (induction n arbitrary: xs)
  case 0
  then show ?case by simp
next
  case (Suc n)
  then obtain x y r where "xs = x # y # r" "length r = 2 * n"
    by (metis Suc_length_conv mult_Suc_right add_2_eq_Suc)
  then show ?case using Suc.IH [of r] by (auto simp: nth_Cons split: nat.splits)
qed

lemma pair_fold_bool:
  assumes "length xs = 2 * n"
  shows "pair_fold (of_bool c) xs = map (\<lambda>i. xs ! (2 * i + of_bool c)) [0..<n]"
  using pair_fold_nth [OF assms] by (auto simp: list_eq_iff_nth_eq)

lemma random_access_fold:
  "length xs = 2 ^ length bs \<Longrightarrow>
     foldl (\<lambda>items b. pair_fold b items) xs (map of_bool bs) = [xs ! bits_val bs]"
proof (induction bs arbitrary: xs)
  case Nil
  then show ?case by (cases xs) simp_all
next
  case (Cons b bs)
  then have len: "length xs = 2 * 2 ^ length bs" by simp
  have "foldl (\<lambda>items b. pair_fold b items) (pair_fold (of_bool b) xs) (map of_bool bs)
      = [pair_fold (of_bool b) xs ! bits_val bs]"
    by (rule Cons.IH) (simp add: pair_fold_bool [OF len])
  then show ?case
    using bits_val_less [of bs] by (simp add: pair_fold_bool [OF len] add.commute)
qed

lemma random_access_gate_iff:
  assumes "length items = 2 ^ n" "n \<le> 63"
  shows "(\<exists>bits. length bits = n \<and> random_access_gate idx items claimed bits)
    \<longleftrightarrow> canon idx < 2 ^ n \<and> claimed = items ! canon idx"
proof
  assume "\<exists>bits. length bits = n \<and> random_access_gate idx items claimed bits"
  then obtain bits where b: "length bits = n" "random_access_gate idx items claimed bits" by blast
  then have "\<forall>b \<in> set bits. b = 0 \<or> b = 1" by (auto simp: random_access_gate_def)
  then obtain bs where bs: "bits = map of_bool bs" "length bs = n"
    using boolean_wires [of bits] b(1) by metis
  have "idx = of_nat (bits_val bs)"
    using b(2) foldl_double [of bits] by (simp add: random_access_gate_def bs(1) reduce_of_bools del: mult_2)
  moreover have less: "bits_val bs < 2 ^ n" using bits_val_less [of bs] bs by simp
  moreover have "(2::nat) ^ n \<le> 2 ^ 63" using assms(2) by (intro power_increasing) simp_all
  ultimately have "canon idx = bits_val bs" by simp
  then show "canon idx < 2 ^ n \<and> claimed = items ! canon idx"
    using b(2) less random_access_fold [of items bs] assms(1)
    by (simp add: random_access_gate_def bs)
next
  assume *: "canon idx < 2 ^ n \<and> claimed = items ! canon idx"
  let ?bs = "bits_of n (canon idx)"
  have "random_access_gate idx items claimed (map of_bool ?bs)"
    using * random_access_fold [of items ?bs] assms(1)
    by (auto simp: random_access_gate_def horner_foldl reduce_of_bools bits_val_bits_of)
  then show "\<exists>bits. length bits = n \<and> random_access_gate idx items claimed bits"
    by (intro exI [of _ "map of_bool ?bs"]) simp
qed

fun next_power_of_two :: "nat \<Rightarrow> nat" where
  "next_power_of_two n = (if n \<le> 1 then 1 else 2 * next_power_of_two ((n + 1) div 2))"

declare next_power_of_two.simps [simp del]

lemma next_power_of_two_ge: "n \<le> next_power_of_two n"
proof (induction n rule: next_power_of_two.induct)
  case (1 n)
  then show ?case by (subst next_power_of_two.simps) (cases "n \<le> 1"; simp)
qed

lemma next_power_of_two_power: "\<exists>k. next_power_of_two n = 2 ^ k"
proof (induction n rule: next_power_of_two.induct)
  case (1 n)
  show ?case
  proof (cases "n \<le> 1")
    case True
    then show ?thesis by (subst next_power_of_two.simps) (auto intro: exI [of _ 0])
  next
    case False
    then obtain k where "next_power_of_two ((n + 1) div 2) = 2 ^ k" using 1 by blast
    then show ?thesis using False
      by (subst next_power_of_two.simps) (auto intro: exI [of _ "Suc k"])
  qed
qed

text \<open>
  \<open>random_access\<close>: the list is padded with its last element to a power of two; a
  one-element list is returned without any constraint on the index.
\<close>

definition random_access :: "gf \<Rightarrow> gf list \<Rightarrow> gf \<Rightarrow> bool" where
  "random_access access_index v claimed_element \<longleftrightarrow>
     (let v = v @ replicate (next_power_of_two (length v) - length v) (last v)
      in 0 < length v
       \<and> (if length v = 1 then claimed_element = v ! 0
          else canon access_index < length v \<and> claimed_element = v ! canon access_index))"

lemma random_access_fills:
  "canon i < length v \<Longrightarrow> random_access i v (v ! canon i)"
  using next_power_of_two_ge [of "length v"]
  by (cases "length v \<le> 1") (auto simp: random_access_def Let_def nth_append not_less le_Suc_eq
      next_power_of_two.simps [of "Suc 0"])

lemma random_access_power_of_two:
  assumes "random_access i v y" "next_power_of_two (length v) = length v" "1 < length v"
  shows "canon i < length v \<and> y = v ! canon i"
  using assms by (auto simp: random_access_def Let_def)

end
