(* ===== verification/Gadgets.thy ===== *)
theory Gadgets
  imports Gates
begin

text \<open>
  The shared helper circuits of \<open>src/circuits/gadgets/mod.rs\<close> and the byte packing of
  \<open>json_parse.rs\<close>.  A \<open>...Targets\<close> struct becomes a record of the field values its targets
  take in an assignment; a \<open>make_...\<close> function becomes the predicate that an assignment
  satisfies every constraint the function adds (build-time \<open>assert!\<close>s included), and targets
  computed by the builder become field expressions.  The lemmas give the meaning of each
  predicate: the satisfying assignments are exactly the intended ones.
\<close>

subsection \<open>Folds over indexed targets\<close>

text \<open>The loop \<open>for (k, x) in xs.iter().enumerate() { acc = acc + x * f(k) }\<close>.\<close>

definition enum_dot :: "gf list \<Rightarrow> (nat \<Rightarrow> gf) \<Rightarrow> gf" where
  "enum_dot xs f = foldl (\<lambda>acc (k, x). acc + x * f k) 0 (enumerate 0 xs)"

definition unit_vec :: "nat \<Rightarrow> nat \<Rightarrow> gf list" where
  "unit_vec n i = map (\<lambda>k. of_bool (k = i)) [0..<n]"

lemma length_unit_vec [simp, size_simps]: "length (unit_vec n i) = n"
  by (simp add: unit_vec_def)

lemma nth_unit_vec [simp]: "k < n \<Longrightarrow> unit_vec n i ! k = of_bool (k = i)"
  by (simp add: unit_vec_def)

lemma enum_dot_sum: "enum_dot xs f = (\<Sum>k\<leftarrow>[0..<length xs]. xs ! k * f k)"
proof -
  have "(\<lambda>acc (k, x). acc + x * f k) = (\<lambda>acc p. acc + snd p * f (fst p))"
    by (auto simp: fun_eq_iff)
  then have "enum_dot xs f = (\<Sum>p\<leftarrow>enumerate 0 xs. snd p * f (fst p))"
    by (simp only: enum_dot_def foldl_plus_map add_0_left)
  also have "enumerate 0 xs = map (\<lambda>k. (k, xs ! k)) [0..<length xs]"
    by (rule nth_equalityI) (simp_all add: nth_enumerate_eq)
  finally show ?thesis by (simp add: comp_def)
qed

lemma enum_dot_unit_vec [simp]: "i < n \<Longrightarrow> enum_dot (unit_vec n i) f = f i"
proof -
  assume i: "i < n"
  have "enum_dot (unit_vec n i) f = (\<Sum>k\<leftarrow>[0..<n]. if k = i then f k else 0)"
    unfolding enum_dot_sum by (rule arg_cong [of _ _ sum_list]) simp
  then show ?thesis using i by (simp add: sum_list_delta)
qed

subsection \<open>One-hot indicators\<close>

record one_hot =
  indicator :: "gf list"
  oh_value :: gf

definition make_one_hot_indicator :: "nat \<Rightarrow> nat \<Rightarrow> one_hot \<Rightarrow> bool" where
  "make_one_hot_indicator sz offset t \<longleftrightarrow>
     0 < sz
   \<and> length (indicator t) = sz
   \<and> (\<forall>ind \<in> set (indicator t). ind = ind * ind)
   \<and> foldl (\<lambda>s ind. s + ind) 0 (indicator t) = 1
   \<and> enum_dot (indicator t) (\<lambda>i. of_nat (i + offset)) = oh_value t"

definition one_hot_at :: "nat \<Rightarrow> nat \<Rightarrow> nat \<Rightarrow> one_hot" where
  "one_hot_at sz offset i = \<lparr>indicator = unit_vec sz i, oh_value = of_nat (i + offset)\<rparr>"

lemma indicator_one_hot_at [simp]: "indicator (one_hot_at n off i) = unit_vec n i"
  and oh_value_one_hot_at [simp]: "oh_value (one_hot_at n off i) = of_nat (i + off)"
  by (simp_all add: one_hot_at_def)

lemma boolean_sum_one:
  assumes "\<forall>x \<in> set xs. x = 0 \<or> x = (1 :: gf)" "sum_list xs = 1" "length xs < goldilocks_order"
  obtains i where "i < length xs" "xs = unit_vec (length xs) i"
proof -
  obtain bs where bs: "xs = map of_bool bs" using boolean_wires [OF assms(1)] by blast
  let ?I = "{i. i < length bs \<and> bs ! i}"
  have "sum_list xs = of_nat (card ?I)"
    by (simp add: bs sum_list_sum_nth atLeast0LessThan sum_of_bool_eq Collect_conj_eq lessThan_def)
  moreover have "card ?I \<le> length bs"
    using card_mono [of "{..<length bs}" ?I] by auto
  ultimately have "card ?I = 1"
    using assms(2,3) of_nat_gf_inject [of "card ?I" 1] by (simp add: bs)
  then obtain i where i: "?I = {i}" by (auto simp: card_1_singleton_iff)
  then have "i < length xs" by (auto simp: bs)
  moreover have "xs = unit_vec (length xs) i"
    using i by (auto simp: list_eq_iff_nth_eq bs)
  ultimately show ?thesis by (rule that)
qed

lemma sum_unit_vec [simp]: "i < n \<Longrightarrow> sum_list (unit_vec n i) = 1"
  using enum_dot_unit_vec [of i n "\<lambda>_. 1"]
  by (simp add: enum_dot_sum sum_list_sum_nth atLeast0LessThan)

lemma make_one_hot_indicator_iff [circuit_simps]:
  assumes "sz < goldilocks_order"
  shows "make_one_hot_indicator sz offset t \<longleftrightarrow> (\<exists>i < sz. t = one_hot_at sz offset i)"
proof
  assume m: "make_one_hot_indicator sz offset t"
  then have "\<forall>x \<in> set (indicator t). x = 0 \<or> x = 1"
    by (simp add: make_one_hot_indicator_def)
  moreover have "sum_list (indicator t) = 1" "length (indicator t) = sz"
    using m by (simp_all add: make_one_hot_indicator_def foldl_add_sum_list)
  ultimately obtain i where i: "i < sz" "indicator t = unit_vec sz i"
    using boolean_sum_one [of "indicator t"] assms by metis
  then have "oh_value t = of_nat (i + offset)"
    using m by (simp add: make_one_hot_indicator_def)
  then show "\<exists>i < sz. t = one_hot_at sz offset i"
    using i by (auto simp: one_hot_at_def intro: one_hot.equality)
next
  assume "\<exists>i < sz. t = one_hot_at sz offset i"
  then show "make_one_hot_indicator sz offset t"
    by (auto simp: make_one_hot_indicator_def foldl_add_sum_list unit_vec_def)
      (auto simp: unit_vec_def [symmetric])
qed

subsection \<open>Packing four bytes into a word\<close>

definition pack_4_bytes_be :: "gf \<Rightarrow> gf \<Rightarrow> gf \<Rightarrow> gf \<Rightarrow> gf" where
  "pack_4_bytes_be b0 b1 b2 b3 =
     (let c256 = of_nat (2 ^ 8); c65536 = of_nat (2 ^ 16); c16m = of_nat (2 ^ 24);
          word = b3;
          word = b2 * c256 + word;
          word = b1 * c65536 + word
      in b0 * c16m + word)"

text \<open>The value of a byte, and \<open>u32::from_be_bytes\<close>.\<close>

definition byte_gf :: "u8 \<Rightarrow> gf" where
  "byte_gf b = of_nat (unat b)"

definition from_be_bytes :: "u8 \<Rightarrow> u8 \<Rightarrow> u8 \<Rightarrow> u8 \<Rightarrow> nat" where
  "from_be_bytes b0 b1 b2 b3 = unat b0 * 2 ^ 24 + unat b1 * 2 ^ 16 + unat b2 * 2 ^ 8 + unat b3"

lemma canon_byte_gf [simp]: "canon (byte_gf b) = unat b"
  using unat_u8_less [of b]
  by (simp only: byte_gf_def canon_of_nat) (rule mod_less, linarith)

lemma byte_gf_inject [simp]: "byte_gf a = byte_gf b \<longleftrightarrow> a = b"
  by (metis canon_byte_gf unsigned_word_eqI)

lemma byte_gf_0 [simp]: "byte_gf 0 = 0"
  by (simp add: byte_gf_def)

lemma byte_gf_eq_of_nat: "n < 256 \<Longrightarrow> byte_gf b = of_nat n \<longleftrightarrow> unat b = n"
  using canon_eq_iff [of n "byte_gf b"] by simp

lemma range_check_byte: "range_check x 8 \<longleftrightarrow> (\<exists>b. x = byte_gf b)"
proof
  assume "range_check x 8"
  then have "canon x < 256" by (simp add: range_check_def)
  then have "x = byte_gf (of_nat (canon x))"
    by (simp add: byte_gf_def unat_of_nat)
  then show "\<exists>b. x = byte_gf b" by blast
qed (auto simp: range_check_def unat_u8_less [simplified])

lemma range_check_bytes: "(\<forall>x \<in> set xs. range_check x 8) \<longleftrightarrow> (\<exists>bs. xs = map byte_gf bs)"
  by (induction xs) (auto simp: range_check_byte Cons_eq_map_conv)

lemma from_be_bytes_less: "from_be_bytes a b c d < 2 ^ 32"
  using unat_u8_less [of a] unat_u8_less [of b] unat_u8_less [of c] unat_u8_less [of d]
  by (simp add: from_be_bytes_def del: unat_u8_less)

lemma from_be_bytes_inject:
  "from_be_bytes a b c d = from_be_bytes a' b' c' d' \<longleftrightarrow> a = a' \<and> b = b' \<and> c = c' \<and> d = d'"
proof
  assume e: "from_be_bytes a b c d = from_be_bytes a' b' c' d'"
  have split: "m < 256 \<Longrightarrow> n < 256 \<Longrightarrow> x * 256 + m = y * 256 + n \<Longrightarrow> x = y \<and> m = n"
    for x y m n :: nat
  proof -
    assume "m < 256" "n < 256" "x * 256 + m = y * 256 + n"
    moreover have "(x * 256 + m) div 256 = x" "(y * 256 + n) div 256 = y"
      using \<open>m < 256\<close> \<open>n < 256\<close> by simp_all
    ultimately show "x = y \<and> m = n" by (metis add_left_cancel)
  qed
  have norm: "from_be_bytes w x y z = ((unat w * 256 + unat x) * 256 + unat y) * 256 + unat z"
    for w x y z by (simp add: from_be_bytes_def add_mult_distrib mult.assoc del: of_nat_unat)
  have "unat a = unat a' \<and> unat b = unat b' \<and> unat c = unat c' \<and> unat d = unat d'"
  proof -
    note 1 = split [OF unat_u8_less unat_u8_less e [unfolded norm]]
    note 2 = split [OF unat_u8_less unat_u8_less 1 [THEN conjunct1]]
    note 3 = split [OF unat_u8_less unat_u8_less 2 [THEN conjunct1]]
    show ?thesis using 1 2 3 by blast
  qed
  then show "a = a' \<and> b = b' \<and> c = c' \<and> d = d'" by (simp add: word_unat_eq_iff)
qed simp

lemma pack_4_bytes_be_bytes:
  "pack_4_bytes_be (byte_gf a) (byte_gf b) (byte_gf c) (byte_gf d) = of_nat (from_be_bytes a b c d)"
  by (simp add: pack_4_bytes_be_def from_be_bytes_def byte_gf_def)

lemma of_nat_from_be_bytes_inject:
  "(of_nat (from_be_bytes a b c d) :: gf) = of_nat (from_be_bytes a' b' c' d')
     \<longleftrightarrow> a = a' \<and> b = b' \<and> c = c' \<and> d = d'"
  using from_be_bytes_less [of a b c d] from_be_bytes_less [of a' b' c' d']
  by (simp add: of_nat_gf_inject from_be_bytes_inject)

text \<open>The words of a byte string whose length is a multiple of four.\<close>

fun pack_be :: "bytes \<Rightarrow> gf list" where
  "pack_be (b0 # b1 # b2 # b3 # rest) = of_nat (from_be_bytes b0 b1 b2 b3) # pack_be rest"
| "pack_be _ = []"

lemma four_Suc_cases:
  assumes "length bs = 4 + 4 * n"
  obtains a b c d r where "bs = a # b # c # d # r" "length r = 4 * n"
  using assms by (auto simp: length_Suc_conv numeral_eq_Suc)

lemma length_pack_be: "length bs = 4 * n \<Longrightarrow> length (pack_be bs) = n"
  by (induction n arbitrary: bs) (auto elim!: four_Suc_cases)

lemma nth_pack_be:
  "length bs = 4 * n \<Longrightarrow> i < n \<Longrightarrow>
     pack_be bs ! i = of_nat (from_be_bytes (bs ! (4 * i)) (bs ! (4 * i + 1)) (bs ! (4 * i + 2)) (bs ! (4 * i + 3)))"
  by (induction n arbitrary: bs i)
    (auto elim!: four_Suc_cases simp: nth_Cons' less_Suc_eq_0_disj add.commute)

lemma pack_be_append:
  "length xs = 4 * n \<Longrightarrow> pack_be (xs @ ys) = pack_be xs @ pack_be ys"
  by (induction n arbitrary: xs) (auto elim!: four_Suc_cases)

lemma pack_be_inject:
  "length xs = 4 * n \<Longrightarrow> length ys = 4 * n \<Longrightarrow> pack_be xs = pack_be ys \<longleftrightarrow> xs = ys"
  by (induction n arbitrary: xs ys) (auto elim!: four_Suc_cases simp: of_nat_from_be_bytes_inject)

subsection \<open>Unpacking words into bytes\<close>

definition unpack_words_to_bytes :: "gf list \<Rightarrow> gf list \<Rightarrow> bool" where
  "unpack_words_to_bytes words bytes \<longleftrightarrow>
     length bytes = length words * 4
   \<and> list_all (\<lambda>word_idx.
        let base = word_idx * 4 in
        words ! word_idx = pack_4_bytes_be (bytes ! base) (bytes ! (base + 1)) (bytes ! (base + 2)) (bytes ! (base + 3)))
      [0..<length words]
   \<and> (\<forall>b \<in> set bytes. range_check b 8)"

lemma unpack_words_to_bytes_iff [circuit_simps]:
  "unpack_words_to_bytes words bytes \<longleftrightarrow>
     (\<exists>bs. length bs = 4 * length words \<and> bytes = map byte_gf bs \<and> words = pack_be bs)"
proof -
  have pack: "list_all (\<lambda>i. words ! i = pack_4_bytes_be (bytes ! (i * 4)) (bytes ! (i * 4 + 1)) (bytes ! (i * 4 + 2)) (bytes ! (i * 4 + 3)))
          [0..<length words] \<longleftrightarrow> words = pack_be bs"
    if len: "length bs = 4 * length words" and bytes: "bytes = map byte_gf bs" for bs
  proof -
    have "pack_4_bytes_be (bytes ! (i * 4)) (bytes ! (i * 4 + 1)) (bytes ! (i * 4 + 2)) (bytes ! (i * 4 + 3))
        = pack_be bs ! i" if "i < length words" for i
    proof -
      have "i * 4 + 3 < length bs" using that len by simp
      then show ?thesis
        by (simp only: bytes nth_map pack_4_bytes_be_bytes nth_pack_be [OF len that] add_lessD1
            mult.commute [of 4])
    qed
    then have "list_all (\<lambda>i. words ! i = pack_4_bytes_be (bytes ! (i * 4)) (bytes ! (i * 4 + 1)) (bytes ! (i * 4 + 2)) (bytes ! (i * 4 + 3)))
          [0..<length words] \<longleftrightarrow> (\<forall>i < length words. words ! i = pack_be bs ! i)"
      by (simp only: list_all_iff set_upt atLeastLessThan_iff Ball_def le0 simp_thms cong: imp_cong)
    also have "\<dots> \<longleftrightarrow> words = pack_be bs"
      using length_pack_be [OF len] by (metis nth_equalityI)
    finally show ?thesis .
  qed
  show ?thesis
  proof
    assume u: "unpack_words_to_bytes words bytes"
    then obtain bs where bs: "bytes = map byte_gf bs"
      using range_check_bytes [of bytes] unfolding unpack_words_to_bytes_def by blast
    moreover have "length bs = 4 * length words"
      using u bs by (simp add: unpack_words_to_bytes_def)
    ultimately show "\<exists>bs. length bs = 4 * length words \<and> bytes = map byte_gf bs \<and> words = pack_be bs"
      using u pack unfolding unpack_words_to_bytes_def Let_def by blast
  next
    assume "\<exists>bs. length bs = 4 * length words \<and> bytes = map byte_gf bs \<and> words = pack_be bs"
    then obtain bs where bs: "length bs = 4 * length words" "bytes = map byte_gf bs" "words = pack_be bs"
      by blast
    then show "unpack_words_to_bytes words bytes"
      using pack [OF bs(1,2)] range_check_bytes [of bytes]
      unfolding unpack_words_to_bytes_def Let_def by auto
  qed
qed

lemma unpack_words_unique:
  assumes "length bs = 4 * n" "unpack_words_to_bytes (pack_be bs) bytes"
  shows "bytes = map byte_gf bs"
  using assms by (auto simp: unpack_words_to_bytes_iff length_pack_be pack_be_inject)

subsection \<open>Selecting bytes at a one-hot offset\<close>

definition select_bytes_by_offset :: "gf list \<Rightarrow> gf list \<Rightarrow> nat \<Rightarrow> gf list" where
  "select_bytes_by_offset bytes_with_padding offset_indicator count =
     map (\<lambda>j. enum_dot offset_indicator (\<lambda>k. bytes_with_padding ! (k + j))) [0..<count]"

lemma length_select_bytes [simp, size_simps]: "length (select_bytes_by_offset bs ind n) = n"
  by (simp add: select_bytes_by_offset_def)

lemma select_bytes_unit_vec:
  assumes "i < n" "i + count \<le> length bs"
  shows "select_bytes_by_offset bs (unit_vec n i) count = take count (drop i bs)"
  using assms by (auto simp: select_bytes_by_offset_def list_eq_iff_nth_eq)

end
