(* ===== verification/Array_Slice.thy ===== *)
theory Array_Slice
  imports Gadgets
begin

text \<open>
  The slicing circuits of \<open>src/circuits/gadgets/array_slice.rs\<close>: a slice of fixed length at a
  prover-chosen start, on bytes and on packed big-endian words, with the witness filling of
  both.  The lemmas show that the constraints have exactly the intended solutions and that
  filling a witness succeeds exactly for in-range starts and then satisfies the circuit.
\<close>

subsection \<open>Byte-level slicing\<close>

record array_slice =
  as_array :: "gf list"
  as_start_idx :: gf
  as_output :: "gf list"
  as_indicator :: "gf list"

definition make_array_slice_circuit :: "nat \<Rightarrow> nat \<Rightarrow> array_slice \<Rightarrow> bool" where
  "make_array_slice_circuit max_array_len max_slice_len t \<longleftrightarrow>
     max_slice_len \<le> max_array_len \<and> 0 < max_array_len \<and> 0 < max_slice_len
   \<and> (let valid_starts = max_array_len - max_slice_len + 1 in
        length (as_array t) = max_array_len
      \<and> length (as_output t) = max_slice_len
      \<and> make_one_hot_indicator valid_starts 0 \<lparr>indicator = as_indicator t, oh_value = as_start_idx t\<rparr>
      \<and> as_output t = map (\<lambda>j. enum_dot (as_indicator t) (\<lambda>i. as_array t ! (i + j))) [0..<max_slice_len])"

definition fill_array_slice_witness :: "nat \<Rightarrow> nat \<Rightarrow> bytes \<Rightarrow> nat \<Rightarrow> array_slice res" where
  "fill_array_slice_witness max_array_len max_slice_len array start =
     (let valid_starts = max_array_len - max_slice_len + 1 in
      ensure (length array = max_array_len) (Bail ''array length mismatch'')
     (ensure (start < valid_starts) (Bail ''start index out of range'')
       (Inr \<lparr>as_array = map byte_gf array,
             as_start_idx = of_nat start,
             as_output = map (\<lambda>j. byte_gf (array ! (start + j))) [0..<max_slice_len],
             as_indicator = map (\<lambda>i. if i = start then 1 else 0) [0..<valid_starts]\<rparr>)))"

lemma one_hot_at_eq:
  "\<lparr>indicator = xs, oh_value = v\<rparr> = one_hot_at n off i \<longleftrightarrow> xs = unit_vec n i \<and> v = of_nat (i + off)"
  by (simp add: one_hot_at_def)

lemma enum_dot_slice:
  assumes "i < n" "i + m \<le> length xs"
  shows "map (\<lambda>j. enum_dot (unit_vec n i) (\<lambda>k. xs ! (k + j))) [0..<m] = take m (drop i xs)"
  using assms by (auto simp: list_eq_iff_nth_eq)

lemma make_array_slice_circuit_iff:
  assumes "max_array_len < goldilocks_order"
  shows "make_array_slice_circuit max_array_len max_slice_len t \<longleftrightarrow>
    0 < max_slice_len \<and> length (as_array t) = max_array_len \<and>
    (\<exists>i. i + max_slice_len \<le> max_array_len \<and> as_start_idx t = of_nat i
       \<and> as_output t = take max_slice_len (drop i (as_array t))
       \<and> as_indicator t = unit_vec (max_array_len - max_slice_len + 1) i)"
proof (cases "0 < max_slice_len \<and> max_slice_len \<le> max_array_len \<and> length (as_array t) = max_array_len")
  case True
  let ?n = "max_array_len - max_slice_len + 1"
  have n: "?n < goldilocks_order" and pos: "0 < max_array_len" using True assms by linarith+
  have "make_array_slice_circuit max_array_len max_slice_len t \<longleftrightarrow>
     (\<exists>i < ?n. as_indicator t = unit_vec ?n i \<and> as_start_idx t = of_nat i
       \<and> as_output t = map (\<lambda>j. enum_dot (as_indicator t) (\<lambda>i. as_array t ! (i + j))) [0..<max_slice_len])"
    using True pos unfolding make_array_slice_circuit_def Let_def make_one_hot_indicator_iff [OF n]
    by (auto simp: one_hot_at_eq)
  also have "\<dots> \<longleftrightarrow> (\<exists>i < ?n. as_indicator t = unit_vec ?n i \<and> as_start_idx t = of_nat i
       \<and> as_output t = take max_slice_len (drop i (as_array t)))"
    using True enum_dot_slice [of _ ?n max_slice_len "as_array t"] by (auto simp: less_Suc_eq_le)
  also have "\<dots> \<longleftrightarrow> (\<exists>i. i + max_slice_len \<le> max_array_len \<and> as_indicator t = unit_vec ?n i \<and> as_start_idx t = of_nat i
       \<and> as_output t = take max_slice_len (drop i (as_array t)))"
  proof -
    have "i < ?n \<longleftrightarrow> i + max_slice_len \<le> max_array_len" for i using True by auto
    then show ?thesis by presburger
  qed
  finally show ?thesis using True by blast
qed (auto simp: make_array_slice_circuit_def)

lemma fill_array_slice_Inr_iff:
  assumes "0 < m" "m \<le> n"
  shows "(\<exists>t. fill_array_slice_witness n m array start = Inr t) \<longleftrightarrow> length array = n \<and> start + m \<le> n"
  using assms by (auto simp: fill_array_slice_witness_def Let_def)

lemma fill_array_slice_satisfies:
  assumes "fill_array_slice_witness n m array start = Inr t" "0 < m" "m \<le> n" "n < goldilocks_order"
  shows "make_array_slice_circuit n m t \<and> as_array t = map byte_gf array
    \<and> as_output t = map byte_gf (take m (drop start array))"
proof -
  have t: "length array = n" "start + m \<le> n"
    "as_array t = map byte_gf array" "as_start_idx t = of_nat start"
    "as_output t = map byte_gf (take m (drop start array))"
    "as_indicator t = unit_vec (n - m + 1) start"
    using assms
    by (auto simp: fill_array_slice_witness_def Let_def unit_vec_def list_eq_iff_nth_eq of_bool_def)
  then show ?thesis
    using assms(2) by (auto simp: make_array_slice_circuit_iff [OF assms(4)] take_map drop_map)
qed

subsection \<open>Slicing packed words\<close>

record packed_array_slice =
  packed_array :: "gf list"
  start_idx_bytes :: gf
  output_packed :: "gf list"
  ps_indicator :: "gf list"
  start_idx_words :: gf

definition make_array_slice_circuit_packed_u32 :: "nat \<Rightarrow> nat \<Rightarrow> packed_array_slice \<Rightarrow> bool" where
  "make_array_slice_circuit_packed_u32 max_array_len_bytes max_slice_len_bytes t \<longleftrightarrow>
     max_array_len_bytes mod 4 = 0 \<and> max_slice_len_bytes mod 4 = 0
   \<and> max_slice_len_bytes \<le> max_array_len_bytes
   \<and> 0 < max_array_len_bytes \<and> 0 < max_slice_len_bytes
   \<and> (let max_array_len_words = max_array_len_bytes div 4;
          max_slice_len_words = max_slice_len_bytes div 4;
          valid_starts_words = max_array_len_words - max_slice_len_words + 1 in
        length (packed_array t) = max_array_len_words
      \<and> start_idx_bytes t = start_idx_words t * 4
      \<and> length (output_packed t) = max_slice_len_words
      \<and> make_one_hot_indicator valid_starts_words 0 \<lparr>indicator = ps_indicator t, oh_value = start_idx_words t\<rparr>
      \<and> output_packed t = map (\<lambda>j. enum_dot (ps_indicator t) (\<lambda>i. packed_array t ! (i + j))) [0..<max_slice_len_words])"

text \<open>\<open>u32::from_be_bytes\<close> of the four bytes at an index, as the fill function reads them.\<close>

definition word_at :: "bytes \<Rightarrow> nat \<Rightarrow> gf" where
  "word_at bs i = of_nat (from_be_bytes (bs ! i) (bs ! (i + 1)) (bs ! (i + 2)) (bs ! (i + 3)))"

definition fill_array_slice_witness_packed_u32 ::
    "nat \<Rightarrow> nat \<Rightarrow> bytes \<Rightarrow> nat \<Rightarrow> packed_array_slice res" where
  "fill_array_slice_witness_packed_u32 max_array_len_words max_slice_len_words bs start_bytes =
     ensure (length bs = max_array_len_words * 4) (Bail ''byte array length mismatch'')
     (let start_bytes_aligned = (start_bytes div 4) * 4;
          start_words = start_bytes_aligned div 4;
          valid_starts_words = max_array_len_words - max_slice_len_words + 1 in
      ensure (start_words < valid_starts_words) (Bail ''start index out of range'')
       (Inr \<lparr>packed_array = map (\<lambda>word_idx. word_at bs (word_idx * 4)) [0..<max_array_len_words],
             start_idx_bytes = of_nat start_bytes_aligned,
             output_packed = map (\<lambda>j. word_at bs ((start_words + j) * 4)) [0..<max_slice_len_words],
             ps_indicator = map (\<lambda>i. if i = start_words then 1 else 0) [0..<valid_starts_words],
             start_idx_words = of_nat start_words\<rparr>))"

lemma word_at_pack_be:
  assumes "length bs = 4 * n" "i < n"
  shows "word_at bs (i * 4) = pack_be bs ! i"
  using assms by (simp add: word_at_def nth_pack_be mult.commute)

lemma drop_pack_be: "length bs = 4 * n \<Longrightarrow> i \<le> n \<Longrightarrow> drop i (pack_be bs) = pack_be (drop (4 * i) bs)"
proof -
  assume *: "length bs = 4 * n" "i \<le> n"
  then have "length (take (4 * i) bs) = 4 * i" by simp
  then have "pack_be (take (4 * i) bs @ drop (4 * i) bs) = pack_be (take (4 * i) bs) @ pack_be (drop (4 * i) bs)"
    "length (pack_be (take (4 * i) bs)) = i"
    by (simp_all only: pack_be_append length_pack_be)
  then show ?thesis by simp
qed

lemma take_pack_be: "length bs = 4 * n \<Longrightarrow> i \<le> n \<Longrightarrow> take i (pack_be bs) = pack_be (take (4 * i) bs)"
proof -
  assume *: "length bs = 4 * n" "i \<le> n"
  then have "length (take (4 * i) bs) = 4 * i" by simp
  then have "pack_be (take (4 * i) bs @ drop (4 * i) bs) = pack_be (take (4 * i) bs) @ pack_be (drop (4 * i) bs)"
    "length (pack_be (take (4 * i) bs)) = i"
    by (simp_all only: pack_be_append length_pack_be)
  then show ?thesis by simp
qed

lemma make_array_slice_packed_iff:
  assumes "n < goldilocks_order"
  shows "make_array_slice_circuit_packed_u32 (4 * n) (4 * m) t \<longleftrightarrow>
    0 < m \<and> length (packed_array t) = n \<and>
    (\<exists>i. i + m \<le> n \<and> start_idx_words t = of_nat i \<and> start_idx_bytes t = of_nat (4 * i)
       \<and> output_packed t = take m (drop i (packed_array t))
       \<and> ps_indicator t = unit_vec (n - m + 1) i)"
proof (cases "0 < m \<and> m \<le> n \<and> length (packed_array t) = n")
  case True
  let ?n = "n - m + 1"
  have n: "?n < goldilocks_order" and pos: "0 < n" using True assms by linarith+
  have "make_array_slice_circuit_packed_u32 (4 * n) (4 * m) t \<longleftrightarrow>
     (\<exists>i < ?n. ps_indicator t = unit_vec ?n i \<and> start_idx_words t = of_nat i \<and> start_idx_bytes t = start_idx_words t * 4
       \<and> output_packed t = map (\<lambda>j. enum_dot (ps_indicator t) (\<lambda>i. packed_array t ! (i + j))) [0..<m])"
    using True pos unfolding make_array_slice_circuit_packed_u32_def Let_def
    by (simp add: make_one_hot_indicator_iff [OF n, simplified]) (auto simp: one_hot_at_eq)
  also have "\<dots> \<longleftrightarrow> (\<exists>i < ?n. ps_indicator t = unit_vec ?n i \<and> start_idx_words t = of_nat i
       \<and> start_idx_bytes t = of_nat (4 * i)
       \<and> output_packed t = take m (drop i (packed_array t)))"
    using True enum_dot_slice [of _ ?n m "packed_array t"] by (auto simp: less_Suc_eq_le)
  also have "\<dots> \<longleftrightarrow> (\<exists>i. i + m \<le> n \<and> ps_indicator t = unit_vec ?n i \<and> start_idx_words t = of_nat i
       \<and> start_idx_bytes t = of_nat (4 * i)
       \<and> output_packed t = take m (drop i (packed_array t)))"
  proof -
    have "i < ?n \<longleftrightarrow> i + m \<le> n" for i using True by auto
    then show ?thesis by presburger
  qed
  finally show ?thesis using True by blast
qed (auto simp: make_array_slice_circuit_packed_u32_def)

text \<open>On a packed byte string the output is the packed slice that starts at a word boundary.\<close>

lemma make_array_slice_packed_bytes:
  assumes "make_array_slice_circuit_packed_u32 (4 * n) (4 * m) t" "n < goldilocks_order"
    and "length bs = 4 * n" "packed_array t = pack_be bs"
  obtains i where "i + m \<le> n" "start_idx_bytes t = of_nat (4 * i)"
    "output_packed t = pack_be (take (4 * m) (drop (4 * i) bs))"
proof -
  obtain i where i: "i + m \<le> n" "start_idx_bytes t = of_nat (4 * i)"
    "output_packed t = take m (drop i (packed_array t))"
    using assms(1) unfolding make_array_slice_packed_iff [OF assms(2)] by blast
  have "length (drop (4 * i) bs) = 4 * (n - i)" using assms(3) by simp
  then have "output_packed t = pack_be (take (4 * m) (drop (4 * i) bs))"
    using i(1) assms(3) by (simp add: i(3) assms(4) drop_pack_be take_pack_be)
  with i(1,2) show ?thesis by (rule that)
qed

lemma fill_packed_Inr_iff:
  assumes "m \<le> n"
  shows "(\<exists>t. fill_array_slice_witness_packed_u32 n m bs start = Inr t)
    \<longleftrightarrow> length bs = 4 * n \<and> start div 4 + m \<le> n"
  using assms by (auto simp: fill_array_slice_witness_packed_u32_def Let_def)

lemma fill_packed_values:
  assumes "fill_array_slice_witness_packed_u32 n m bs start = Inr t" "m \<le> n"
  shows "length bs = 4 * n" "start div 4 + m \<le> n"
    "packed_array t = pack_be bs"
    "output_packed t = pack_be (take (4 * m) (drop (4 * (start div 4)) bs))"
    "start_idx_words t = of_nat (start div 4)" "start_idx_bytes t = of_nat (4 * (start div 4))"
    "ps_indicator t = unit_vec (n - m + 1) (start div 4)"
proof -
  let ?i = "start div 4"
  show len: "length bs = 4 * n" and i: "?i + m \<le> n"
    using assms by (auto simp: fill_array_slice_witness_packed_u32_def Let_def)
  have t: "packed_array t = map (\<lambda>word_idx. word_at bs (word_idx * 4)) [0..<n]"
    "output_packed t = map (\<lambda>j. word_at bs ((?i + j) * 4)) [0..<m]"
    using assms by (auto simp: fill_array_slice_witness_packed_u32_def Let_def)
  show arr: "packed_array t = pack_be bs"
    unfolding t by (rule nth_equalityI) (simp_all add: length_pack_be [OF len] word_at_pack_be [OF len])
  have "output_packed t = take m (drop ?i (pack_be bs))"
  proof -
    have "word_at bs ((?i + j) * 4) = pack_be bs ! (?i + j)" if "j < m" for j
      by (rule word_at_pack_be [OF len]) (use that i in simp)
    then show ?thesis
      unfolding t using i by (intro nth_equalityI) (simp_all add: length_pack_be [OF len])
  qed
  also have "\<dots> = pack_be (take (4 * m) (drop (4 * ?i) bs))"
  proof -
    have "length (drop (4 * ?i) bs) = 4 * (n - ?i)" using len i by simp
    then show ?thesis
      using i len by (simp add: drop_pack_be take_pack_be)
  qed
  finally show "output_packed t = pack_be (take (4 * m) (drop (4 * ?i) bs))" .
  show "start_idx_words t = of_nat ?i" "start_idx_bytes t = of_nat (4 * ?i)"
    "ps_indicator t = unit_vec (n - m + 1) ?i"
    using assms by (auto simp: fill_array_slice_witness_packed_u32_def Let_def unit_vec_def mult.commute)
qed

lemma fill_packed_satisfies:
  assumes "fill_array_slice_witness_packed_u32 n m bs start = Inr t" "0 < m" "m \<le> n" "n < goldilocks_order"
  shows "make_array_slice_circuit_packed_u32 (4 * n) (4 * m) t"
proof -
  note v = fill_packed_values [OF assms(1,3)]
  have "length (drop (4 * (start div 4)) bs) = 4 * (n - start div 4)" using v(1,2) by simp
  then have "output_packed t = take m (drop (start div 4) (packed_array t))"
    using v(1,2) by (simp add: v(3,4) drop_pack_be take_pack_be)
  then show ?thesis
    using v assms(2) unfolding make_array_slice_packed_iff [OF assms(4)]
    by (auto simp: length_pack_be)
qed

end
