(* ===== verification/Attribute.thy ===== *)
theory Attribute
  imports Gadgets
begin

text \<open>
  Credential attributes (\<open>src/credential/attribute.rs\<close>): fixed-width byte vectors, their u32
  limbs, the empty marker, and their hex (de)serialisation.  The \<open>hex\<close> crate is the locale
  \<open>hex_codec\<close>, interpreted by lower-case base 16.
\<close>

datatype attribute = Attribute (as_bytes: bytes)

definition ATTRIBUTE_LEN_BYTES :: nat where
  "ATTRIBUTE_LEN_BYTES = 32"

definition empty_attribute_bytes :: "nat \<Rightarrow> bytes res" where
  "empty_attribute_bytes attribute_len_bytes =
     (let bs = replicate attribute_len_bytes 0 in
      ensure (0 < length bs) (Panic ''index out of bounds'') (Inr (bs[0 := 1])))"

definition ensure_valid_attribute_len_bytes :: "nat \<Rightarrow> unit res" where
  "ensure_valid_attribute_len_bytes attribute_len_bytes =
     (if attribute_len_bytes = 0 \<or> attribute_len_bytes mod 4 \<noteq> 0
      then Inl (Bail ''attribute byte-length must be a non-zero multiple of 4'') else Inr ())"

definition attribute_new :: "bytes \<Rightarrow> attribute res" where
  "attribute_new bs =
     ensure (0 < length bs \<and> length bs mod 4 = 0) (Panic ''attribute byte-length'') (Inr (Attribute bs))"

definition attribute_from_vec :: "bytes \<Rightarrow> attribute res" where
  "attribute_from_vec bs = bind_res (ensure_valid_attribute_len_bytes (length bs)) (\<lambda>_. Inr (Attribute bs))"

definition empty_marker :: "nat \<Rightarrow> attribute res" where
  "empty_marker attribute_len_bytes = bind_res (empty_attribute_bytes attribute_len_bytes) (\<lambda>bs. Inr (Attribute bs))"

definition len_bytes :: "attribute \<Rightarrow> nat" where
  "len_bytes a = length (as_bytes a)"

definition to_u32_limbs_le :: "attribute \<Rightarrow> nat list" where
  "to_u32_limbs_le a =
     (let bs = as_bytes a in
      map (\<lambda>i. let start = length bs - (i + 1) * 4 in
               from_be_bytes (bs ! start) (bs ! (start + 1)) (bs ! (start + 2)) (bs ! (start + 3)))
        [0..<length bs div 4])"

definition is_empty :: "attribute \<Rightarrow> bool res" where
  "is_empty a = bind_res (empty_attribute_bytes (len_bytes a)) (\<lambda>e. Inr (as_bytes a = e))"

text \<open>The invariant \<open>from_vec\<close> and the deserialiser establish.\<close>

definition valid_attribute :: "attribute \<Rightarrow> bool" where
  "valid_attribute a \<longleftrightarrow> 0 < len_bytes a \<and> len_bytes a mod 4 = 0"

lemma empty_attribute_bytes_Inr:
  "0 < n \<Longrightarrow> empty_attribute_bytes n = Inr (1 # replicate (n - 1) 0)"
  by (cases n) (simp_all add: empty_attribute_bytes_def)

lemma empty_marker_Inr: "0 < n \<Longrightarrow> empty_marker n = Inr (Attribute (1 # replicate (n - 1) 0))"
  by (simp add: empty_marker_def empty_attribute_bytes_Inr)

lemma is_empty_Inr:
  "0 < len_bytes a \<Longrightarrow> is_empty a = Inr (as_bytes a = 1 # replicate (len_bytes a - 1) 0)"
  by (simp add: is_empty_def empty_attribute_bytes_Inr)

lemma is_empty_marker: "empty_marker n = Inr a \<Longrightarrow> is_empty a = Inr True \<and> len_bytes a = n"
  by (cases n) (auto simp: empty_marker_def empty_attribute_bytes_def is_empty_def len_bytes_def)

lemma attribute_from_vec_iff:
  "attribute_from_vec bs = Inr a \<longleftrightarrow> a = Attribute bs \<and> valid_attribute a"
  by (auto simp: attribute_from_vec_def ensure_valid_attribute_len_bytes_def valid_attribute_def len_bytes_def)

lemma attribute_new_valid: "attribute_new bs = Inr a \<Longrightarrow> valid_attribute a \<and> as_bytes a = bs"
  by (auto simp: attribute_new_def valid_attribute_def len_bytes_def)

subsection \<open>Limbs\<close>

lemma length_to_u32_limbs [simp, size_simps]: "length (to_u32_limbs_le a) = len_bytes a div 4"
  by (simp add: to_u32_limbs_le_def Let_def len_bytes_def)

lemma to_u32_limbs_less: "l \<in> set (to_u32_limbs_le a) \<Longrightarrow> l < 2 ^ 32"
  using from_be_bytes_less by (auto simp: to_u32_limbs_le_def Let_def simp del: power_numeral)

lemma limbs_pack_be:
  assumes "len_bytes a mod 4 = 0"
  shows "map of_nat (to_u32_limbs_le a) = rev (pack_be (as_bytes a))"
proof -
  obtain n where n: "length (as_bytes a) = 4 * n"
    using assms unfolding len_bytes_def by (metis mult_div_mod_eq add_0_right)
  show ?thesis
  proof (rule nth_equalityI)
    show len: "length (map of_nat (to_u32_limbs_le a) :: gf list) = length (rev (pack_be (as_bytes a)))"
      by (simp add: length_pack_be [OF n] len_bytes_def n)
    fix i assume "i < length (map of_nat (to_u32_limbs_le a) :: gf list)"
    then have i: "i < n" by (simp add: len_bytes_def n)
    then have start: "4 * n - (i + 1) * 4 = 4 * (n - Suc i)" by simp
    have "n - Suc i < n" using i by simp
    then show "map of_nat (to_u32_limbs_le a) ! i = rev (pack_be (as_bytes a)) ! i"
      using i by (simp only: rev_nth length_pack_be [OF n] nth_pack_be [OF n])
        (simp add: to_u32_limbs_le_def Let_def n start [simplified])
  qed
qed

lemma of_nat_limbs_inject:
  assumes "(map of_nat (to_u32_limbs_le a) :: gf list) = map of_nat (to_u32_limbs_le b)"
    "valid_attribute a" "valid_attribute b"
  shows "a = b"
proof -
  have mod: "len_bytes a mod 4 = 0" "len_bytes b mod 4 = 0"
    using assms(2,3) by (simp_all add: valid_attribute_def)
  obtain n where n: "length (as_bytes a) = 4 * n"
    using mod(1) unfolding len_bytes_def by (metis mult_div_mod_eq add_0_right)
  obtain m where m: "length (as_bytes b) = 4 * m"
    using mod(2) unfolding len_bytes_def by (metis mult_div_mod_eq add_0_right)
  have eq: "pack_be (as_bytes a) = pack_be (as_bytes b)"
    using assms(1) by (simp add: limbs_pack_be mod)
  then have "n = m" using length_pack_be [OF n] length_pack_be [OF m] by simp
  then have "as_bytes a = as_bytes b" using eq pack_be_inject [OF n] m by simp
  then show ?thesis by (simp add: attribute.expand)
qed

subsection \<open>Hex serialisation\<close>

locale hex_codec =
  fixes hex_encode :: "bytes \<Rightarrow> bytes" and hex_decode :: "bytes \<Rightarrow> bytes option"
  assumes hex_decode_encode: "hex_decode (hex_encode bs) = Some bs"
    and hex_encode_length: "length (hex_encode bs) = 2 * length bs"

definition serialize_attribute :: "(bytes \<Rightarrow> bytes) \<Rightarrow> attribute \<Rightarrow> bytes" where
  "serialize_attribute hex_encode a = hex_encode (as_bytes a)"

definition deserialize_attribute :: "(bytes \<Rightarrow> bytes option) \<Rightarrow> bytes \<Rightarrow> attribute res" where
  "deserialize_attribute hex_decode s =
     ensure (length s mod 2 = 0) (Bail ''attribute hex length must be even'')
       (case hex_decode s of
          None \<Rightarrow> Inl (Bail ''hex'')
        | Some bs \<Rightarrow> bind_res (ensure_valid_attribute_len_bytes (length bs)) (\<lambda>_. Inr (Attribute bs)))"

context hex_codec
begin

lemma deserialize_serialize:
  "valid_attribute a \<Longrightarrow> deserialize_attribute hex_decode (serialize_attribute hex_encode a) = Inr a"
  by (cases a)
    (simp add: deserialize_attribute_def serialize_attribute_def hex_decode_encode hex_encode_length
      valid_attribute_def len_bytes_def ensure_valid_attribute_len_bytes_def)

lemma deserialize_valid: "deserialize_attribute hex_decode s = Inr a \<Longrightarrow> valid_attribute a"
  by (auto simp: deserialize_attribute_def ensure_valid_attribute_len_bytes_def valid_attribute_def len_bytes_def
      split: option.splits if_splits)

end

definition hex_digit :: "nat \<Rightarrow> u8" where
  "hex_digit d = of_nat (if d < 10 then 48 + d else 87 + d)"

definition hex_value :: "u8 \<Rightarrow> nat option" where
  "hex_value c =
     (if 48 \<le> c \<and> c \<le> 57 then Some (unat c - 48)
      else if 97 \<le> c \<and> c \<le> 102 then Some (unat c - 87)
      else if 65 \<le> c \<and> c \<le> 70 then Some (unat c - 55)
      else None)"

fun hex16_encode :: "bytes \<Rightarrow> bytes" where
  "hex16_encode [] = []"
| "hex16_encode (b # bs) = hex_digit (unat b div 16) # hex_digit (unat b mod 16) # hex16_encode bs"

fun hex16_decode :: "bytes \<Rightarrow> bytes option" where
  "hex16_decode [] = Some []"
| "hex16_decode [_] = None"
| "hex16_decode (h # l # cs) =
     (case (hex_value h, hex_value l, hex16_decode cs) of
        (Some a, Some b, Some bs) \<Rightarrow> Some (of_nat (16 * a + b) # bs)
      | _ \<Rightarrow> None)"

lemma hex_value_digit: "d < 16 \<Longrightarrow> hex_value (hex_digit d) = Some d"
proof -
  have "list_all (\<lambda>d. hex_value (hex_digit d) = Some d) [0..<16]" by code_simp
  then show "d < 16 \<Longrightarrow> hex_value (hex_digit d) = Some d" by (simp add: list_all_iff)
qed

lemma hex16_roundtrip: "hex16_decode (hex16_encode bs) = Some bs"
proof (induction bs)
  case (Cons b bs)
  have "unat b div 16 < 16" using unat_u8_less [of b] by (simp add: div_less_iff_less_mult)
  then show ?case using Cons by (simp add: hex_value_digit)
qed simp

interpretation hex16: hex_codec hex16_encode hex16_decode
proof
  show "length (hex16_encode bs) = 2 * length bs" for bs by (induction bs) simp_all
qed (rule hex16_roundtrip)

end
