(* ===== verification/Utf8.thy ===== *)
theory Utf8
  imports Prelude
begin

text \<open>
  The validity check of \<open>std::str::from_utf8\<close>, which the JWT code and the base64 helpers call
  on bytes they were given.  Only validity matters: a Rust \<open>String\<close> is its bytes.
\<close>

definition utf8_cont :: "u8 \<Rightarrow> bool" where
  "utf8_cont b \<longleftrightarrow> 0x80 \<le> b \<and> b \<le> 0xBF"

fun utf8_valid :: "bytes \<Rightarrow> bool" where
  "utf8_valid [] = True"
| "utf8_valid (a # r) =
     (if a < 0x80 then utf8_valid r
      else if 0xC2 \<le> a \<and> a \<le> 0xDF then
        (case r of b # r' \<Rightarrow> utf8_cont b \<and> utf8_valid r' | _ \<Rightarrow> False)
      else if 0xE0 \<le> a \<and> a \<le> 0xEF then
        (case r of b # c # r' \<Rightarrow>
           utf8_cont b \<and> (a = 0xE0 \<longrightarrow> 0xA0 \<le> b) \<and> (a = 0xED \<longrightarrow> b \<le> 0x9F)
           \<and> utf8_cont c \<and> utf8_valid r'
         | _ \<Rightarrow> False)
      else if 0xF0 \<le> a \<and> a \<le> 0xF4 then
        (case r of b # c # d # r' \<Rightarrow>
           utf8_cont b \<and> (a = 0xF0 \<longrightarrow> 0x90 \<le> b) \<and> (a = 0xF4 \<longrightarrow> b \<le> 0x8F)
           \<and> utf8_cont c \<and> utf8_cont d \<and> utf8_valid r'
         | _ \<Rightarrow> False)
      else False)"

lemma utf8_valid_ascii: "\<forall>b \<in> set bs. b < 0x80 \<Longrightarrow> utf8_valid bs"
  by (induction bs) simp_all

text \<open>An ASCII byte of a valid string ends a character.\<close>

lemma utf8_valid_hd: "utf8_valid (b # bs) \<Longrightarrow> \<not> utf8_cont b"
  by (auto simp: utf8_cont_def split: if_splits) (auto simp: word_le_nat_alt word_less_nat_alt)

lemma utf8_cont_ge: "utf8_cont b \<Longrightarrow> \<not> b < 0x80"
  by (auto simp: utf8_cont_def)

lemma utf8_valid_drop_ascii:
  "utf8_valid s \<Longrightarrow> i < length s \<Longrightarrow> s ! i < 0x80 \<Longrightarrow> utf8_valid (drop (Suc i) s)"
proof (induction s arbitrary: i rule: utf8_valid.induct)
  case (2 a r)
  show ?case
  proof (cases i)
    case 0
    then show ?thesis using 2 by simp
  next
    case (Suc j)
    then show ?thesis
      using 2 by (auto split: if_splits list.splits simp: nth_Cons utf8_cont_ge split: nat.splits)
  qed
qed simp

end
