(* ===== verification/Json_Parse.thy ===== *)
theory Json_Parse
  imports Array_Slice Attribute Utf8
begin

text \<open>
  \<open>src/circuits/gadgets/json_parse.rs\<close>: the circuit that extracts one string claim with a
  known key from the decoded payload, its witness filling, and the off-circuit search for the
  claim.  The meaning of the circuit is the relation \<open>claim_at\<close>: at a position of the payload
  stands an opening brace or comma, the quoted key, a colon, and a quoted non-empty value
  without quotes.
\<close>

subsection \<open>The claim relation\<close>

definition claim_text :: "bytes \<Rightarrow> bytes \<Rightarrow> bytes" where
  "claim_text key value = [0x22] @ key @ [0x22, 0x3A, 0x22] @ value @ [0x22]"

definition claim_at :: "bytes \<Rightarrow> nat \<Rightarrow> bytes \<Rightarrow> bytes \<Rightarrow> bool" where
  "claim_at json s key value \<longleftrightarrow>
     s < length json \<and> (json ! s = 0x7B \<or> json ! s = 0x2C)
   \<and> take (length (claim_text key value)) (drop (s + 1) json) = claim_text key value
   \<and> value \<noteq> [] \<and> 0x22 \<notin> set value"

text \<open>The attribute a claim stands for: key and value, each padded with zeros to its maximum.\<close>

definition padded_attribute :: "nat \<Rightarrow> nat \<Rightarrow> bytes \<Rightarrow> bytes \<Rightarrow> attribute" where
  "padded_attribute max_key_len max_value_len key value =
     Attribute (key @ replicate (max_key_len - length key) 0 @ value @ replicate (max_value_len - length value) 0)"

lemma length_claim_text [simp, size_simps]: "length (claim_text key value) = length key + length value + 5"
  by (simp add: claim_text_def)

lemma claim_at_length: "claim_at json s key value \<Longrightarrow> s + length key + length value + 6 \<le> length json"
  by (auto simp: claim_at_def dest!: arg_cong [of _ _ length])

lemma claim_at_same_start:
  assumes "claim_at json s key v" "claim_at json s key w"
  shows "v = w"
proof -
  let ?rest = "drop (s + 1 + length key + 4) json"
  have pre: "take (length x + 1) ?rest = x @ [0x22]" if "claim_at json s key x" for x
  proof -
    have "take (length (claim_text key x)) (drop (s + 1) json) = claim_text key x"
      using that by (simp add: claim_at_def)
    also have "claim_text key x = ([0x22] @ key @ [0x22, 0x3A, 0x22]) @ x @ [0x22]"
      by (simp add: claim_text_def)
    finally have "drop (length ([0x22] @ key @ [0x22, 0x3A, 0x22])) (take (length (claim_text key x)) (drop (s + 1) json)) = x @ [0x22]"
      by (metis append_eq_conv_conj)
    then have "drop (length key + 4) (take (length (claim_text key x)) (drop (s + 1) json)) = x @ [0x22]"
      by (simp add: numeral_eq_Suc)
    moreover have "drop (length key + 4) (take (length (claim_text key x)) (drop (s + 1) json))
        = take (length x + 1) ?rest"
      by (simp add: drop_take add.commute add.left_commute)
    ultimately show ?thesis by simp
  qed
  have quote: "0x22 \<notin> set x" if "claim_at json s key x" for x using that by (simp add: claim_at_def)
  have tw: "takeWhile (\<lambda>b. b \<noteq> 0x22) ?rest = x" if "claim_at json s key x" for x
  proof -
    have "?rest = (x @ [0x22]) @ drop (length x + 1) ?rest"
      using pre [OF that] by (metis append_take_drop_id)
    then have "takeWhile (\<lambda>b. b \<noteq> 0x22) ?rest = takeWhile (\<lambda>b. b \<noteq> 0x22) (x @ 0x22 # drop (length x + 1) ?rest)"
      by simp
    also have "\<dots> = x" using quote [OF that] by (subst takeWhile_append2) auto
    finally show ?thesis .
  qed
  show ?thesis using tw [OF assms(1)] tw [OF assms(2)] by simp
qed

subsection \<open>The circuit\<close>

record json_claim =
  slice_targets :: packed_array_slice
  attribute_u32_words :: "gf list"
  attribute_len_bytes :: nat
  value_len :: gf
  value_len_indicator :: "gf list"
  byte_offset :: gf
  byte_offset_indicator :: "gf list"
  substring_bytes_with_padding :: "gf list"
  value_quote_inv :: "gf list"

definition per_claim_substring_len :: "nat \<Rightarrow> nat \<Rightarrow> nat" where
  "per_claim_substring_len key_len max_value_len =
     (let min_substring_len = key_len + max_value_len + 7 in div_ceil min_substring_len 4 * 4)"

text \<open>The running sums from the right: entry \<open>j\<close> is the sum of the indicators from \<open>j\<close> on.\<close>

definition prefix_sum_from_right :: "gf list \<Rightarrow> gf list" where
  "prefix_sum_from_right ind = foldr (\<lambda>x acc. (hd acc + x) # acc) ind [0]"

definition char_at_close :: "gf list \<Rightarrow> gf list \<Rightarrow> nat \<Rightarrow> gf" where
  "char_at_close ind substring_bytes value_start =
     foldl (\<lambda>acc (v, x). let close_pos = value_start + (v + 1) in
              if close_pos < length substring_bytes then acc + x * substring_bytes ! close_pos else acc)
       0 (enumerate 0 ind)"

definition extracted_value_bytes :: "gf list \<Rightarrow> gf list \<Rightarrow> nat \<Rightarrow> nat \<Rightarrow> gf list" where
  "extracted_value_bytes psum substring_bytes value_start max_value_len =
     map (\<lambda>j. let raw_idx = value_start + j in
              if raw_idx < length substring_bytes then substring_bytes ! raw_idx * psum ! j else 0)
       [0..<max_value_len]"

text \<open>Packing attribute bytes into limbs, last four bytes first.\<close>

definition pack_attribute_limbs :: "gf list \<Rightarrow> gf list" where
  "pack_attribute_limbs attribute_bytes =
     (let attribute_len_bytes = length attribute_bytes in
      map (\<lambda>limb_idx.
             let start = attribute_len_bytes - (limb_idx + 1) * 4 in
             pack_4_bytes_be (attribute_bytes ! start) (attribute_bytes ! (start + 1))
               (attribute_bytes ! (start + 2)) (attribute_bytes ! (start + 3)))
        [0..<attribute_len_bytes div 4])"

text \<open>The structural constraints on the aligned substring.\<close>

definition json_structure_constraints :: "gf list \<Rightarrow> bytes \<Rightarrow> bool" where
  "json_structure_constraints substring_bytes key \<longleftrightarrow>
     (let key_len = length key; quote = of_nat 0x22; colon = of_nat 0x3A;
          left_brace = of_nat 0x7B; comma = of_nat 0x2C in
        (substring_bytes ! 0 - left_brace) * (substring_bytes ! 0 - comma) = 0
      \<and> substring_bytes ! 1 = quote
      \<and> list_all (\<lambda>j. substring_bytes ! (2 + j) = byte_gf (key ! j)) [0..<key_len]
      \<and> substring_bytes ! (2 + key_len) = quote
      \<and> substring_bytes ! (3 + key_len) = colon
      \<and> substring_bytes ! (4 + key_len) = quote)"

text \<open>The constraints on the value: closing quote, and no quote inside.\<close>

definition json_value_constraints :: "gf list \<Rightarrow> gf list \<Rightarrow> gf list \<Rightarrow> nat \<Rightarrow> nat \<Rightarrow> bool" where
  "json_value_constraints substring_bytes ind quote_inv value_start max_value_len \<longleftrightarrow>
     (let quote = of_nat 0x22; psum = prefix_sum_from_right ind in
        char_at_close ind substring_bytes value_start = quote
      \<and> length quote_inv = max_value_len
      \<and> list_all (\<lambda>j. let raw_idx = value_start + j in
           raw_idx < length substring_bytes \<longrightarrow> (substring_bytes ! raw_idx - quote) * quote_inv ! j = psum ! j)
         [0..<max_value_len])"

definition make_json_claim_circuit_known_key :: "nat \<Rightarrow> bytes \<Rightarrow> nat \<Rightarrow> nat \<Rightarrow> json_claim \<Rightarrow> bool" where
  "make_json_claim_circuit_known_key json_len_bytes key max_value_len max_key_len t \<longleftrightarrow>
     key \<noteq> [] \<and> 0 < max_value_len \<and> length key \<le> max_key_len
   \<and> json_len_bytes mod 4 = 0 \<and> max_value_len mod 4 = 0 \<and> max_key_len mod 4 = 0
   \<and> attribute_len_bytes t = max_key_len + max_value_len
   \<and> (let key_len = length key;
          L = per_claim_substring_len key_len max_value_len;
          slice_len_with_padding = L + 4;
          substring_words = output_packed (slice_targets t);
          substring_bytes = select_bytes_by_offset (substring_bytes_with_padding t) (byte_offset_indicator t) L;
          value_start = 5 + key_len;
          psum = prefix_sum_from_right (value_len_indicator t);
          value_bytes = extracted_value_bytes psum substring_bytes value_start max_value_len;
          attribute_bytes = map (\<lambda>j. if j < key_len then byte_gf (key ! j) else 0) [0..<max_key_len] @ value_bytes in
        make_array_slice_circuit_packed_u32 json_len_bytes slice_len_with_padding (slice_targets t)
      \<and> unpack_words_to_bytes substring_words (substring_bytes_with_padding t)
      \<and> make_one_hot_indicator 4 0 \<lparr>indicator = byte_offset_indicator t, oh_value = byte_offset t\<rparr>
      \<and> json_structure_constraints substring_bytes key
      \<and> make_one_hot_indicator max_value_len 1 \<lparr>indicator = value_len_indicator t, oh_value = value_len t\<rparr>
      \<and> json_value_constraints substring_bytes (value_len_indicator t) (value_quote_inv t) value_start max_value_len
      \<and> attribute_u32_words t = pack_attribute_limbs attribute_bytes)"

subsection \<open>Computed targets on bytes\<close>

lemma length_prefix_sum [simp, size_simps]: "length (prefix_sum_from_right ind) = length ind + 1"
  by (simp add: prefix_sum_from_right_def, induction ind) simp_all

lemma prefix_sum_Cons:
  "prefix_sum_from_right (x # xs) = (hd (prefix_sum_from_right xs) + x) # prefix_sum_from_right xs"
  by (simp add: prefix_sum_from_right_def)

lemma prefix_sum_nonempty: "prefix_sum_from_right xs \<noteq> []"
  by (metis length_prefix_sum Suc_eq_plus1 length_0_conv nat.distinct(1))

lemma nth_prefix_sum: "j \<le> length ind \<Longrightarrow> prefix_sum_from_right ind ! j = sum_list (drop j ind)"
proof (induction ind arbitrary: j)
  case Nil
  then show ?case by (simp add: prefix_sum_from_right_def)
next
  case (Cons x xs)
  then show ?case
    using Cons.IH [of 0] prefix_sum_nonempty [of xs]
    by (cases j) (simp_all add: prefix_sum_Cons hd_conv_nth add.commute)
qed

lemma prefix_sum_unit_vec:
  assumes "i < m" "j \<le> m"
  shows "prefix_sum_from_right (unit_vec m i) ! j = of_bool (j \<le> i)"
proof -
  have "drop j (unit_vec m i) = (if j \<le> i then unit_vec (m - j) (i - j) else replicate (m - j) 0)"
    using assms by (auto simp: list_eq_iff_nth_eq)
  then show ?thesis
    using assms by (simp add: nth_prefix_sum sum_list_replicate)
qed

lemma char_at_close_enum_dot:
  assumes "value_start + length ind < length sb"
  shows "char_at_close ind sb value_start = enum_dot ind (\<lambda>v. sb ! (value_start + (v + 1)))"
  unfolding char_at_close_def enum_dot_def
proof (rule foldl_cong [OF refl refl])
  fix acc p assume "p \<in> set (enumerate 0 ind)"
  moreover obtain v x where "p = (v, x)" by (cases p)
  ultimately have p: "p = (v, x)" "v < length ind"
    by (auto simp: in_set_enumerate_eq)
  then have "value_start + (v + 1) < length sb" using assms by simp
  then show "(case p of (v, x) \<Rightarrow> let close_pos = value_start + (v + 1) in
      if close_pos < length sb then acc + x * sb ! close_pos else acc)
    = (case p of (k, x) \<Rightarrow> acc + x * sb ! (value_start + (k + 1)))"
    by (simp add: p(1) Let_def)
qed

lemma pack_attribute_limbs_bytes:
  "pack_attribute_limbs (map byte_gf bs) = map of_nat (to_u32_limbs_le (Attribute bs))"
proof -
  have "pack_4_bytes_be (map byte_gf bs ! s) (map byte_gf bs ! (s + 1)) (map byte_gf bs ! (s + 2)) (map byte_gf bs ! (s + 3))
      = of_nat (from_be_bytes (bs ! s) (bs ! (s + 1)) (bs ! (s + 2)) (bs ! (s + 3)))"
    if "s + 3 < length bs" for s
    using that by (simp add: pack_4_bytes_be_bytes)
  moreover have "length bs - (i + 1) * 4 + 3 < length bs" if "i < length bs div 4" for i
  proof -
    have "(i + 1) * 4 \<le> length bs div 4 * 4" using that by (intro mult_le_mono1) simp
    then have "(i + 1) * 4 \<le> length bs" using div_times_less_eq_dividend [of "length bs" 4] by linarith
    then show ?thesis by (cases "length bs") auto
  qed
  ultimately show ?thesis
    by (auto simp: pack_attribute_limbs_def to_u32_limbs_le_def Let_def pack_4_bytes_be_bytes)
qed

lemma structure_on_bytes:
  assumes "length key + 5 \<le> length sub"
  shows "json_structure_constraints (map byte_gf sub) key \<longleftrightarrow>
    (sub ! 0 = 0x7B \<or> sub ! 0 = 0x2C) \<and> sub ! 1 = 0x22 \<and> take (length key) (drop 2 sub) = key
    \<and> sub ! (2 + length key) = 0x22 \<and> sub ! (3 + length key) = 0x3A \<and> sub ! (4 + length key) = 0x22"
proof -
  have lits: "(of_nat 0x22 :: gf) = byte_gf 0x22" "(of_nat 0x3A :: gf) = byte_gf 0x3A"
    "(of_nat 0x7B :: gf) = byte_gf 0x7B" "(of_nat 0x2C :: gf) = byte_gf 0x2C"
    by (simp_all add: byte_gf_def)
  have nth: "map byte_gf sub ! 0 = byte_gf (sub ! 0)" "map byte_gf sub ! 1 = byte_gf (sub ! 1)"
    "map byte_gf sub ! (2 + length key) = byte_gf (sub ! (2 + length key))"
    "map byte_gf sub ! (3 + length key) = byte_gf (sub ! (3 + length key))"
    "map byte_gf sub ! (4 + length key) = byte_gf (sub ! (4 + length key))"
    using assms by (simp_all only: nth_map)
  have key: "list_all (\<lambda>j. map byte_gf sub ! (2 + j) = byte_gf (key ! j)) [0..<length key]
      \<longleftrightarrow> take (length key) (drop 2 sub) = key"
    using assms by (auto simp: list_all_iff list_eq_iff_nth_eq [of _ key])
  show ?thesis
    unfolding json_structure_constraints_def Let_def key lits nth
    by auto
qed

lemma value_on_bytes:
  assumes i: "i < m" and len: "st + m + 1 < length sub"
  shows "json_value_constraints (map byte_gf sub) (unit_vec m i) invs st m \<longleftrightarrow>
    sub ! (st + (i + 1)) = 0x22 \<and> length invs = m
    \<and> (\<forall>j < m. (byte_gf (sub ! (st + j)) - byte_gf 0x22) * invs ! j = of_bool (j \<le> i))"
proof -
  have q: "(of_nat 0x22 :: gf) = byte_gf 0x22" by (simp add: byte_gf_def)
  have close: "char_at_close (unit_vec m i) (map byte_gf sub) st = byte_gf (sub ! (st + (i + 1)))"
    using i len by (subst char_at_close_enum_dot) simp_all
  have each: "(let raw_idx = st + j in raw_idx < length (map byte_gf sub) \<longrightarrow>
        (map byte_gf sub ! raw_idx - byte_gf 0x22) * invs ! j = prefix_sum_from_right (unit_vec m i) ! j)
      \<longleftrightarrow> (byte_gf (sub ! (st + j)) - byte_gf 0x22) * invs ! j = of_bool (j \<le> i)" if "j < m" for j
    using that i len by (simp add: prefix_sum_unit_vec Let_def)
  show ?thesis
    unfolding json_value_constraints_def q close byte_gf_inject Let_def [of "prefix_sum_from_right (unit_vec m i)"]
      Let_def [of "byte_gf 0x22"]
    using each by (auto simp: list_all_iff)
qed

lemma extracted_on_bytes:
  assumes i: "i < m" and len: "st + m \<le> length sub"
  shows "extracted_value_bytes (prefix_sum_from_right (unit_vec m i)) (map byte_gf sub) st m
    = map byte_gf (take (i + 1) (drop st sub) @ replicate (m - (i + 1)) 0)"
proof (rule nth_equalityI)
  show "length (extracted_value_bytes (prefix_sum_from_right (unit_vec m i)) (map byte_gf sub) st m)
      = length (map byte_gf (take (i + 1) (drop st sub) @ replicate (m - (i + 1)) 0))"
    using i len by (simp add: extracted_value_bytes_def)
  fix j assume "j < length (extracted_value_bytes (prefix_sum_from_right (unit_vec m i)) (map byte_gf sub) st m)"
  then have j: "j < m" by (simp add: extracted_value_bytes_def)
  then show "extracted_value_bytes (prefix_sum_from_right (unit_vec m i)) (map byte_gf sub) st m ! j
      = map byte_gf (take (i + 1) (drop st sub) @ replicate (m - (i + 1)) 0) ! j"
    using i len by (auto simp: extracted_value_bytes_def Let_def prefix_sum_unit_vec nth_append min_def)
qed

text \<open>The structural checks and the closing quote are \<open>claim_at\<close> at the start of the substring.\<close>

lemma take_append_iff:
  "length a + length b \<le> length xs \<Longrightarrow>
     take (length a + length b) xs = a @ b \<longleftrightarrow> take (length a) xs = a \<and> take (length b) (drop (length a) xs) = b"
  by (simp add: take_add append_eq_append_conv min_def)

lemma take_drop_Cons_iff:
  "i + 1 + length b \<le> length xs \<Longrightarrow>
     take (1 + length b) (drop i xs) = c # b \<longleftrightarrow> xs ! i = c \<and> take (length b) (drop (Suc i) xs) = b"
proof -
  assume *: "i + 1 + length b \<le> length xs"
  then have "drop i xs = xs ! i # drop (Suc i) xs" by (simp add: Cons_nth_drop_Suc)
  then show ?thesis by simp
qed

lemma take_drop_append_iff:
  "i + length a + length b \<le> length xs \<Longrightarrow>
     take (length a + length b) (drop i xs) = a @ b
       \<longleftrightarrow> take (length a) (drop i xs) = a \<and> take (length b) (drop (i + length a) xs) = b"
  using take_append_iff [of a b "drop i xs"] by (simp add: add.commute)

lemma claim_text_at_iff:
  assumes "s + length key + length v + 6 \<le> length js"
  shows "take (length (claim_text key v)) (drop (s + 1) js) = claim_text key v \<longleftrightarrow>
    js ! (s + 1) = 0x22 \<and> take (length key) (drop (s + 2) js) = key
    \<and> js ! (s + 2 + length key) = 0x22 \<and> js ! (s + 3 + length key) = 0x3A \<and> js ! (s + 4 + length key) = 0x22
    \<and> take (length v) (drop (s + 5 + length key) js) = v \<and> js ! (s + 5 + length key + length v) = 0x22"
proof -
  let ?k = "length key" and ?l = "length v"
  have "length (claim_text key v) = 1 + length (key @ 0x22 # 0x3A # 0x22 # v @ [0x22])" by simp
  then have "take (length (claim_text key v)) (drop (s + 1) js) = claim_text key v \<longleftrightarrow>
      js ! (s + 1) = 0x22 \<and> take (length (key @ 0x22 # 0x3A # 0x22 # v @ [0x22])) (drop (Suc (s + 1)) js) = key @ 0x22 # 0x3A # 0x22 # v @ [0x22]"
    using assms by (simp only: claim_text_def append.simps) (rule take_drop_Cons_iff, simp)
  also have "take (length (key @ 0x22 # 0x3A # 0x22 # v @ [0x22])) (drop (Suc (s + 1)) js) = key @ 0x22 # 0x3A # 0x22 # v @ [0x22]
      \<longleftrightarrow> take ?k (drop (s + 2) js) = key \<and> take (length (0x22 # 0x3A # 0x22 # v @ [0x22])) (drop (s + 2 + ?k) js) = 0x22 # 0x3A # 0x22 # v @ [0x22]"
    using assms take_drop_append_iff [of "s + 2" key "0x22 # 0x3A # 0x22 # v @ [0x22]" js] by simp
  also have "take (length (0x22 # 0x3A # 0x22 # v @ [0x22])) (drop (s + 2 + ?k) js) = 0x22 # 0x3A # 0x22 # v @ [0x22]
      \<longleftrightarrow> js ! (s + 2 + ?k) = 0x22 \<and> take (length (0x3A # 0x22 # v @ [0x22])) (drop (s + 3 + ?k) js) = 0x3A # 0x22 # v @ [0x22]"
    using assms take_drop_Cons_iff [of "s + 2 + ?k" "0x3A # 0x22 # v @ [0x22]" js "0x22"] by (simp add: numeral_eq_Suc)
  also have "take (length (0x3A # 0x22 # v @ [0x22])) (drop (s + 3 + ?k) js) = 0x3A # 0x22 # v @ [0x22]
      \<longleftrightarrow> js ! (s + 3 + ?k) = 0x3A \<and> take (length (0x22 # v @ [0x22])) (drop (s + 4 + ?k) js) = 0x22 # v @ [0x22]"
    using assms take_drop_Cons_iff [of "s + 3 + ?k" "0x22 # v @ [0x22]" js "0x3A"] by (simp add: numeral_eq_Suc)
  also have "take (length (0x22 # v @ [0x22])) (drop (s + 4 + ?k) js) = 0x22 # v @ [0x22]
      \<longleftrightarrow> js ! (s + 4 + ?k) = 0x22 \<and> take (length (v @ [0x22])) (drop (s + 5 + ?k) js) = v @ [0x22]"
    using assms take_drop_Cons_iff [of "s + 4 + ?k" "v @ [0x22]" js "0x22"] by (simp add: numeral_eq_Suc)
  also have "take (length (v @ [0x22])) (drop (s + 5 + ?k) js) = v @ [0x22]
      \<longleftrightarrow> take ?l (drop (s + 5 + ?k) js) = v \<and> take (length [0x22 :: u8]) (drop (s + 5 + ?k + ?l) js) = [0x22]"
    using assms take_drop_append_iff [of "s + 5 + ?k" v "[0x22]" js] by simp
  also have "take (length [0x22 :: u8]) (drop (s + 5 + ?k + ?l) js) = [0x22] \<longleftrightarrow> js ! (s + 5 + ?k + ?l) = 0x22"
    using assms take_drop_Cons_iff [of "s + 5 + ?k + ?l" "[]" js "0x22"] by simp
  finally show ?thesis .
qed

subsection \<open>Soundness\<close>

lemma per_claim_len:
  obtains q where "per_claim_substring_len k mv = 4 * q" "k + mv + 7 \<le> 4 * q"
proof -
  have "k + mv + 7 \<le> div_ceil (k + mv + 7) 4 * 4"
    unfolding div_ceil_def by linarith
  then show ?thesis using that [of "div_ceil (k + mv + 7) 4"]
    by (simp add: per_claim_substring_len_def Let_def mult.commute)
qed

text \<open>The aligned substring is the payload from the position word and byte offset give.\<close>

lemma aligned_substring:
  assumes slice: "make_array_slice_circuit_packed_u32 (4 * n) (4 * q + 4) st" "packed_array st = pack_be js"
    and js: "length js = 4 * n" "n < goldilocks_order"
    and unpack: "unpack_words_to_bytes (output_packed st) pads"
    and off: "make_one_hot_indicator 4 0 \<lparr>indicator = ind, oh_value = ov\<rparr>"
    and c: "c \<le> 4 * q"
  obtains s where "s + 4 * q \<le> 4 * n" "select_bytes_by_offset pads ind c = map byte_gf (take c (drop s js))"
    "start_idx_bytes st + ov = of_nat s"
proof -
  have "make_array_slice_circuit_packed_u32 (4 * n) (4 * (q + 1)) st" using slice(1) by (simp add: add.commute)
  then obtain i where i: "i + (q + 1) \<le> n" "start_idx_bytes st = of_nat (4 * i)"
      "output_packed st = pack_be (take (4 * (q + 1)) (drop (4 * i) js))"
    using make_array_slice_packed_bytes [OF _ js(2,1) slice(2)] by blast
  let ?pad = "take (4 * (q + 1)) (drop (4 * i) js)"
  have len: "length ?pad = 4 * (q + 1)" using i(1) js(1) by simp
  have pads: "pads = map byte_gf ?pad"
    using unpack_words_unique [OF len] unpack i(3) by simp
  obtain b where b: "b < 4" "ind = unit_vec 4 b" "ov = of_nat b"
    using off make_one_hot_indicator_iff [of 4 0] by (auto simp: one_hot_at_eq)
  have "select_bytes_by_offset pads ind c = take c (drop b (map byte_gf ?pad))"
    unfolding b(2) pads using b(1) len c by (intro select_bytes_unit_vec) simp_all
  also have "\<dots> = map byte_gf (take c (drop (4 * i + b) js))"
    using b(1) c by (simp add: take_map drop_map drop_take add.commute min_absorb1)
  finally have "select_bytes_by_offset pads ind c = map byte_gf (take c (drop (4 * i + b) js))" .
  moreover have "4 * i + b + 4 * q \<le> 4 * n" using i(1) b(1) by linarith
  ultimately show ?thesis using that [of "4 * i + b"] i(2) b(3) by simp
qed

lemma byte_differs: "(byte_gf b - byte_gf c) * x = 1 \<Longrightarrow> b \<noteq> c"
  by auto

lemma json_claim_sound:
  assumes make: "make_json_claim_circuit_known_key (4 * n) key mv mk t"
    and js: "packed_array (slice_targets t) = pack_be js" "length js = 4 * n" "n < goldilocks_order" "mv < goldilocks_order"
  obtains s v where "claim_at js s key v" "length v \<le> mv" "value_len t = of_nat (length v)"
    "start_idx_bytes (slice_targets t) + byte_offset t = of_nat s"
    "attribute_u32_words t = map of_nat (to_u32_limbs_le (padded_attribute mk mv key v))"
proof -
  let ?k = "length key"
  obtain q where q: "per_claim_substring_len ?k mv = 4 * q" "?k + mv + 7 \<le> 4 * q"
    by (rule per_claim_len)
  define sb where "sb = select_bytes_by_offset (substring_bytes_with_padding t) (byte_offset_indicator t) (4 * q)"
  have m: "?k \<le> mk"
    "make_array_slice_circuit_packed_u32 (4 * n) (4 * q + 4) (slice_targets t)"
    "unpack_words_to_bytes (output_packed (slice_targets t)) (substring_bytes_with_padding t)"
    "make_one_hot_indicator 4 0 \<lparr>indicator = byte_offset_indicator t, oh_value = byte_offset t\<rparr>"
    "json_structure_constraints sb key"
    "make_one_hot_indicator mv 1 \<lparr>indicator = value_len_indicator t, oh_value = value_len t\<rparr>"
    "json_value_constraints sb (value_len_indicator t) (value_quote_inv t) (5 + ?k) mv"
    "attribute_u32_words t = pack_attribute_limbs (map (\<lambda>j. if j < ?k then byte_gf (key ! j) else 0) [0..<mk]
       @ extracted_value_bytes (prefix_sum_from_right (value_len_indicator t)) sb (5 + ?k) mv)"
    using make unfolding make_json_claim_circuit_known_key_def Let_def q(1) sb_def [symmetric] by blast+
  obtain s where s: "s + 4 * q \<le> 4 * n" "sb = map byte_gf (take (4 * q) (drop s js))"
      "start_idx_bytes (slice_targets t) + byte_offset t = of_nat s"
    using aligned_substring [OF m(2) js(1,2,3) m(3,4) order_refl] unfolding sb_def by blast
  let ?sub = "take (4 * q) (drop s js)"
  have len: "length ?sub = 4 * q" using s(1) js(2) by simp
  have nth: "?sub ! i = js ! (s + i)" if "i < 4 * q" for i using that s(1) js(2) by simp
  obtain i where i: "i < mv" "value_len_indicator t = unit_vec mv i" "value_len t = of_nat (i + 1)"
    using m(6) make_one_hot_indicator_iff [OF js(4)] by (auto simp: one_hot_at_eq)
  have val: "?sub ! (5 + ?k + (i + 1)) = 0x22"
    "\<forall>j < mv. (byte_gf (?sub ! (5 + ?k + j)) - byte_gf 0x22) * value_quote_inv t ! j = of_bool (j \<le> i)"
    using m(7) i(1) q(2) len unfolding s(2) i(2) by (subst (asm) value_on_bytes; simp)+
  have str: "(?sub ! 0 = 0x7B \<or> ?sub ! 0 = 0x2C) \<and> ?sub ! 1 = 0x22 \<and> take ?k (drop 2 ?sub) = key
    \<and> ?sub ! (2 + ?k) = 0x22 \<and> ?sub ! (3 + ?k) = 0x3A \<and> ?sub ! (4 + ?k) = 0x22"
    using m(5) q(2) len unfolding s(2) by (subst (asm) structure_on_bytes) simp_all
  define v where "v = take (i + 1) (drop (s + 5 + ?k) js)"
  have sub_v: "take (i + 1) (drop (5 + ?k) ?sub) = v"
    using i(1) q(2) by (simp add: v_def drop_take add.commute add.left_commute min_def)
  have lv: "length v = i + 1" using i(1) q(2) s(1) js(2) by (simp add: v_def)
  have "0x22 \<notin> set v"
  proof
    assume "0x22 \<in> set v"
    then obtain j where j: "j < i + 1" "v ! j = 0x22" by (metis in_set_conv_nth lv)
    then have "?sub ! (5 + ?k + j) = 0x22"
      unfolding sub_v [symmetric] using i(1) q(2) len by simp
    moreover have "(byte_gf (?sub ! (5 + ?k + j)) - byte_gf 0x22) * value_quote_inv t ! j = 1"
      using val(2) j(1) i(1) by simp
    ultimately show False by simp
  qed
  moreover have "take (length (claim_text key v)) (drop (s + 1) js) = claim_text key v"
  proof -
    have key: "take ?k (drop (s + 2) js) = key"
    proof -
      have "take ?k (drop 2 ?sub) = take ?k (drop (s + 2) js)"
        using q(2) by (simp add: drop_take add.commute min_absorb1)
      then show ?thesis using str by simp
    qed
    have "s + ?k + length v + 6 \<le> length js" using lv i(1) q(2) s(1) js(2) by linarith
    then show ?thesis
      using str val(1) key lv i(1) q(2)
      by (subst claim_text_at_iff) (simp_all add: nth v_def add.assoc add.commute add.left_commute)
  qed
  moreover have "js ! s = 0x7B \<or> js ! s = 0x2C" using str nth [of 0] q(2) by simp
  moreover have "s < length js" using s(1) q(2) js(2) by linarith
  ultimately have claim: "claim_at js s key v" using lv by (auto simp: claim_at_def)
  have "map (\<lambda>j. if j < ?k then byte_gf (key ! j) else 0) [0..<mk] = map byte_gf (key @ replicate (mk - ?k) 0)"
    using m(1) by (auto simp: list_eq_iff_nth_eq nth_append)
  moreover have "extracted_value_bytes (prefix_sum_from_right (value_len_indicator t)) sb (5 + ?k) mv
      = map byte_gf (v @ replicate (mv - length v) 0)"
    unfolding i(2) s(2) using extracted_on_bytes [OF i(1), of "5 + ?k" ?sub] len q(2) by (simp add: sub_v [simplified] lv)
  ultimately have "attribute_u32_words t = map of_nat (to_u32_limbs_le (padded_attribute mk mv key v))"
    unfolding m(8) padded_attribute_def by (simp only: map_append [symmetric] pack_attribute_limbs_bytes append_assoc)
  then show ?thesis using that [OF claim] lv i(1,3) s(3) by simp
qed

subsection \<open>Finding a claim\<close>

record claim_position =
  cp_key :: bytes
  cp_start :: nat
  cp_value :: bytes
  colon_offset :: nat

text \<open>\<open>str::find\<close> and the slice \<open>&s[i..]\<close> with its boundary check.\<close>

fun find_sub :: "bytes \<Rightarrow> bytes \<Rightarrow> nat option" where
  "find_sub pat [] = (if pat = [] then Some 0 else None)"
| "find_sub pat (x # xs) =
     (if take (length pat) (x # xs) = pat then Some 0 else map_option Suc (find_sub pat xs))"

definition str_slice_from :: "bytes \<Rightarrow> nat \<Rightarrow> bytes res" where
  "str_slice_from s i =
     ensure (i = length s \<or> i < length s \<and> \<not> utf8_cont (s ! i)) (Panic ''byte index is not a char boundary'')
       (Inr (drop i s))"

definition find_claim_position :: "bytes \<Rightarrow> bytes \<Rightarrow> claim_position res" where
  "find_claim_position json_payload key =
     ensure (utf8_valid json_payload) (Bail ''utf8'')
       (let search_key = [0x22] @ key @ [0x22, 0x3A] in
        case find_sub search_key json_payload of
          None \<Rightarrow> Inl (Bail ''claim key not found in JSON'')
        | Some key_start \<Rightarrow>
            ensure (key_start \<noteq> 0) (Bail ''claim key cannot start at position 0'')
           (let prefix = json_payload ! (key_start - 1) in
            ensure (prefix = 0x7B \<or> prefix = 0x2C) (Bail ''claim key is not preceded by a delimiter'')
           (let colon_pos = key_start + length key + 2;
                value_start = colon_pos + 2 in
            bind_res (str_slice_from json_payload value_start) (\<lambda>rest.
            case find_sub [0x22] rest of
              None \<Rightarrow> Inl (Bail ''unterminated string value'')
            | Some i \<Rightarrow>
                Inr \<lparr>cp_key = key, cp_start = key_start,
                     cp_value = take i (drop value_start json_payload),
                     colon_offset = colon_pos - key_start\<rparr>))))"

lemma find_sub_Some:
  "find_sub pat xs = Some i \<Longrightarrow>
     i + length pat \<le> length xs \<and> take (length pat) (drop i xs) = pat
     \<and> (\<forall>j < i. take (length pat) (drop j xs) \<noteq> pat)"
proof (induction xs arbitrary: i)
  case Nil
  then show ?case by (simp split: if_splits)
next
  case (Cons x xs)
  show ?case
  proof (cases "take (length pat) (x # xs) = pat")
    case True
    then have "i = 0" using Cons.prems by simp
    moreover have "length pat \<le> length (x # xs)" using True by (metis length_take min.cobounded1)
    ultimately show ?thesis using True by simp
  next
    case False
    then obtain j where "i = Suc j" "find_sub pat xs = Some j" using Cons.prems by auto
    then show ?thesis using Cons.IH [of j] False by (auto simp: All_less_Suc2)
  qed
qed

lemma find_sub_None: "find_sub pat xs = None \<Longrightarrow> j \<le> length xs \<Longrightarrow> take (length pat) (drop j xs) \<noteq> pat"
  by (induction xs arbitrary: j) (auto split: if_splits simp: drop_Cons split: nat.splits)

lemma find_quote: "find_sub [c] xs = Some i \<Longrightarrow> i < length xs \<and> xs ! i = c \<and> c \<notin> set (take i xs)"
proof -
  assume "find_sub [c] xs = Some i"
  then have *: "i < length xs" "take 1 (drop i xs) = [c]" "\<forall>j < i. take 1 (drop j xs) \<noteq> [c]"
    using find_sub_Some [of "[c]" xs i] by simp_all
  have one: "take 1 (drop j xs) = [xs ! j]" if "j < length xs" for j
    using that by (simp add: take_Suc_conv_app_nth)
  have "c \<notin> set (take i xs)"
  proof
    assume "c \<in> set (take i xs)"
    then obtain j where "j < i" "xs ! j = c" using *(1) by (auto simp: in_set_conv_nth)
    then show False using *(1,3) one [of j] by simp
  qed
  then show ?thesis using * one [of i] by simp
qed

text \<open>
  The position found starts a claim of the payload, provided the value is a non-empty JSON
  string: the code skips the byte after the colon without looking at it.
\<close>

lemma find_claim_position_claim_at:
  assumes "find_claim_position js key = Inr c" "cp_value c \<noteq> []" "js ! (cp_start c + length key + 3) = 0x22"
  shows "claim_at js (cp_start c - 1) key (cp_value c) \<and> 0 < cp_start c \<and> cp_key c = key"
proof -
  let ?sk = "[0x22] @ key @ [0x22, 0x3A]"
  obtain i where f: "find_sub ?sk js = Some (cp_start c)" "cp_start c \<noteq> 0"
      "js ! (cp_start c - 1) = 0x7B \<or> js ! (cp_start c - 1) = 0x2C"
      "find_sub [0x22] (drop (cp_start c + length key + 2 + 2) js) = Some i"
      "cp_value c = take i (drop (cp_start c + length key + 2 + 2) js)" "cp_key c = key"
    using assms(1) by (auto simp: find_claim_position_def Let_def str_slice_from_def split: option.splits)
  have "cp_start c + length key + 2 + 2 = cp_start c + length key + 4" by simp
  note f = f [unfolded this]
  let ?s = "cp_start c" and ?v = "cp_value c"
  have sk: "?s + length key + 3 \<le> length js" "take (length ?sk) (drop ?s js) = ?sk"
    using find_sub_Some [OF f(1)] by simp_all
  have q: "i < length (drop (?s + length key + 4) js)" "drop (?s + length key + 4) js ! i = 0x22" "0x22 \<notin> set ?v"
    using find_quote [OF f(4)] f(5) by simp_all
  have lv: "length ?v = i" using q(1) f(5) by simp
  have bound: "?s - 1 + length key + length ?v + 6 \<le> length js" using q(1) lv f(2) by simp
  have key: "js ! ?s = 0x22 \<and> take (length key) (drop (?s + 1) js) = key
      \<and> js ! (?s + 1 + length key) = 0x22 \<and> js ! (?s + 2 + length key) = 0x3A"
  proof -
    have "take (1 + length (key @ [0x22, 0x3A])) (drop ?s js) = 0x22 # key @ [0x22, 0x3A]" using sk(2) by simp
    then have 1: "js ! ?s = 0x22" "take (length key + length [0x22 :: u8, 0x3A]) (drop (?s + 1) js) = key @ [0x22, 0x3A]"
      using sk(1) by (subst (asm) take_drop_Cons_iff; simp)+
    then have 2: "take (length key) (drop (?s + 1) js) = key"
        "take (1 + length [0x3A :: u8]) (drop (?s + 1 + length key) js) = [0x22, 0x3A]"
      using sk(1) by (subst (asm) take_drop_append_iff; simp)+
    then have 3: "js ! (?s + 1 + length key) = 0x22" "take (1 + length ([] :: bytes)) (drop (Suc (?s + 1 + length key)) js) = [0x3A]"
      using sk(1) by (subst (asm) take_drop_Cons_iff; simp)+
    then have "js ! (?s + 2 + length key) = 0x3A"
      using sk(1) by (subst (asm) take_drop_Cons_iff; simp)
    then show ?thesis using 1(1) 2(1) 3(1) by blast
  qed
  have "js ! (?s + 4 + length key + length ?v) = 0x22"
    using q(1,2) lv by (simp add: add.commute add.left_commute)
  moreover have "take (length ?v) (drop (?s + 4 + length key) js) = ?v"
    using lv by (simp add: f(5) add.commute add.left_commute)
  ultimately have "take (length (claim_text key ?v)) (drop (?s - 1 + 1) js) = claim_text key ?v"
    using key assms(3) by (simp only: claim_text_at_iff [OF bound]) (use f(2) in \<open>cases "cp_start c"; simp add: numeral_eq_Suc add.commute add.left_commute\<close>)
  then show ?thesis
    using f(2,3,6) bound q(3) assms(2) by (simp add: claim_at_def)
qed

subsection \<open>Filling the witness\<close>

definition fill_json_claim_witness_known_key ::
    "nat \<Rightarrow> bytes \<Rightarrow> nat \<Rightarrow> nat \<Rightarrow> bytes \<Rightarrow> claim_position \<Rightarrow> json_claim res" where
  "fill_json_claim_witness_known_key json_len_bytes key max_value_len max_key_len json_payload claim =
     ensure (0 < cp_start claim) (Panic ''JSON key cannot start at position 0'')
    (let adjusted_start = cp_start claim - 1;
         key_len = length key;
         L = per_claim_substring_len key_len max_value_len in
     bind_res (fill_array_slice_witness_packed_u32 (json_len_bytes div 4) ((L + 4) div 4) json_payload adjusted_start) (\<lambda>slice.
     let val_len = length (cp_value claim) in
     ensure (val_len \<noteq> 0) (Bail ''claim value length must be at least 1'')
    (let quote_f = of_nat 0x22;
         diff_f = (\<lambda>j. byte_gf (cp_value claim ! j) - quote_f);
         byte_offset_val = adjusted_start mod 4;
         start_aligned = (adjusted_start div 4) * 4;
         len_ind = map (\<lambda>i. if i = val_len - 1 then 1 else 0) [0..<max_value_len];
         off_ind = map (\<lambda>i. if i = byte_offset_val then 1 else 0) [0..<4];
         pads = map (\<lambda>j. let byte_idx = start_aligned + j in
                      byte_gf (if byte_idx < length json_payload then json_payload ! byte_idx else 0)) [0..<L + 4];
         substring_bytes = select_bytes_by_offset pads off_ind L;
         value_bytes = extracted_value_bytes (prefix_sum_from_right len_ind) substring_bytes (5 + key_len) max_value_len;
         attribute_bytes = map (\<lambda>j. if j < key_len then byte_gf (key ! j) else 0) [0..<max_key_len] @ value_bytes in
     ensure (list_all (\<lambda>j. j < val_len \<longrightarrow> diff_f j \<noteq> 0) [0..<max_value_len]) (Panic ''value byte is a quote character'')
    (Inr \<lparr>slice_targets = slice,
          attribute_u32_words = pack_attribute_limbs attribute_bytes,
          attribute_len_bytes = max_key_len + max_value_len,
          value_len = of_nat val_len,
          value_len_indicator = len_ind,
          byte_offset = of_nat byte_offset_val,
          byte_offset_indicator = off_ind,
          substring_bytes_with_padding = pads,
          value_quote_inv = map (\<lambda>j. if j < val_len then inverse (diff_f j) else 0) [0..<max_value_len]\<rparr>))))"

lemma indicator_map: "map (\<lambda>i. if i = k then 1 else 0) [0..<n] = unit_vec n k"
  by (simp add: unit_vec_def of_bool_def)

lemma pads_slice:
  assumes "length js = 4 * n" "i + q + 1 \<le> n"
  shows "map (\<lambda>j. byte_gf (if i * 4 + j < length js then js ! (i * 4 + j) else 0)) [0..<4 * q + 4]
    = map byte_gf (take (4 * (q + 1)) (drop (4 * i) js))"
proof (rule nth_equalityI)
  show "length (map (\<lambda>j. byte_gf (if i * 4 + j < length js then js ! (i * 4 + j) else 0)) [0..<4 * q + 4])
      = length (map byte_gf (take (4 * (q + 1)) (drop (4 * i) js)))"
    using assms by simp
  fix j assume "j < length (map (\<lambda>j. byte_gf (if i * 4 + j < length js then js ! (i * 4 + j) else 0)) [0..<4 * q + 4])"
  then have j: "j < 4 * q + 4" by simp
  then have "i * 4 + j < length js" using assms by linarith
  then show "map (\<lambda>j. byte_gf (if i * 4 + j < length js then js ! (i * 4 + j) else 0)) [0..<4 * q + 4] ! j
      = map byte_gf (take (4 * (q + 1)) (drop (4 * i) js)) ! j"
    using j by (simp add: mult.commute del: upt_Suc)
qed

lemma claim_at_substring:
  assumes "claim_at js a key v" "length key + length v + 6 \<le> L" "a + L \<le> length js"
  shows "take (length v) (drop (5 + length key) (take L (drop a js))) = v"
    "a + length key + length v + 6 \<le> length js"
    "take L (drop a js) ! 0 = 0x7B \<or> take L (drop a js) ! 0 = 0x2C" "take L (drop a js) ! 1 = 0x22"
    "take (length key) (drop 2 (take L (drop a js))) = key"
    "take L (drop a js) ! (2 + length key) = 0x22" "take L (drop a js) ! (3 + length key) = 0x3A"
    "take L (drop a js) ! (4 + length key) = 0x22" "take L (drop a js) ! (5 + length key + length v) = 0x22"
proof -
  let ?k = "length key"
  show bound: "a + ?k + length v + 6 \<le> length js" using assms by linarith
  have body: "js ! (a + 1) = 0x22" "take ?k (drop (a + 2) js) = key"
    "js ! (a + 2 + ?k) = 0x22" "js ! (a + 3 + ?k) = 0x3A" "js ! (a + 4 + ?k) = 0x22"
    "take (length v) (drop (a + 5 + ?k) js) = v" "js ! (a + 5 + ?k + length v) = 0x22"
    using assms(1) claim_text_at_iff [OF bound] unfolding claim_at_def by blast+
  have nth: "take L (drop a js) ! i = js ! (a + i)" if "i < L" for i using that assms(3) by simp
  have sub: "take m (drop d (take L (drop a js))) = take m (drop (a + d) js)" if "d + m \<le> L" for m d
    using that by (simp add: drop_take add.commute min_absorb1)
  show "take (length v) (drop (5 + ?k) (take L (drop a js))) = v"
    using sub [of "5 + ?k" "length v"] assms(2) body(6) by (simp add: add.assoc)
  show "take ?k (drop 2 (take L (drop a js))) = key"
    using sub [of 2 ?k] assms(2) body(2) by simp
  show "take L (drop a js) ! 0 = 0x7B \<or> take L (drop a js) ! 0 = 0x2C"
    using assms(1,2) nth [of 0] by (simp add: claim_at_def)
  show "take L (drop a js) ! 1 = 0x22" "take L (drop a js) ! (2 + ?k) = 0x22" "take L (drop a js) ! (3 + ?k) = 0x3A"
    "take L (drop a js) ! (4 + ?k) = 0x22" "take L (drop a js) ! (5 + ?k + length v) = 0x22"
    using assms(2) body(1,3,4,5,7) by (simp_all only: nth) (simp_all add: nth add.assoc)
qed

text \<open>A claim of the payload that fits the sizes has a witness, and it satisfies the circuit.\<close>

lemma json_claim_complete_words:
  assumes claim: "claim_at js (cp_start c - 1) key (cp_value c)" "0 < cp_start c"
    and sizes: "length (cp_value c) \<le> mv" "length key \<le> mk" "key \<noteq> []" "mv mod 4 = 0" "mk mod 4 = 0"
    and js: "length js = 4 * n" "n < goldilocks_order" "mv < goldilocks_order"
    and room: "(cp_start c - 1) div 4 + per_claim_substring_len (length key) mv div 4 + 1 \<le> n"
  obtains t where "fill_json_claim_witness_known_key (4 * n) key mv mk js c = Inr t"
    "make_json_claim_circuit_known_key (4 * n) key mv mk t" "packed_array (slice_targets t) = pack_be js"
    "attribute_u32_words t = map of_nat (to_u32_limbs_le (padded_attribute mk mv key (cp_value c)))"
proof -
  define a where "a = cp_start c - 1"
  let ?k = "length key" and ?v = "cp_value c" and ?l = "length (cp_value c)"
  obtain q where q: "per_claim_substring_len ?k mv = 4 * q" "?k + mv + 7 \<le> 4 * q"
    by (rule per_claim_len)
  have room': "a div 4 + (q + 1) \<le> n" using room q(1) by (simp add: a_def)
  then obtain st where st: "fill_array_slice_witness_packed_u32 n (q + 1) js a = Inr st"
    using fill_packed_Inr_iff [of "q + 1" n js a] js(1) by auto
  note claim = claim [folded a_def]
  have l: "0 < ?l" "0x22 \<notin> set ?v" using claim(1) by (auto simp: claim_at_def)
  have diff: "byte_gf (?v ! j) - of_nat 0x22 \<noteq> 0" if "j < ?l" for j
  proof -
    have "?v ! j \<noteq> 0x22" using l(2) that by (metis nth_mem)
    moreover have "(of_nat 0x22 :: gf) = byte_gf 0x22" by (simp add: byte_gf_def)
    ultimately show ?thesis by (metis byte_gf_inject right_minus_eq)
  qed
  let ?pad = "take (4 * (q + 1)) (drop (4 * (a div 4)) js)"
  let ?sub = "take (4 * q) (drop a js)"
  have "a div 4 + q + 1 \<le> n" using room' by simp
  note pads = pads_slice [OF js(1) this]
  define invs where "invs = map (\<lambda>j. if j < ?l then inverse (byte_gf (?v ! j) - of_nat 0x22) else 0) [0..<mv]"
  have sel: "select_bytes_by_offset (map byte_gf ?pad) (unit_vec 4 (a mod 4)) (4 * q) = map byte_gf ?sub"
  proof -
    have "length ?pad = 4 * (q + 1)" using room' js(1) by simp
    then have "select_bytes_by_offset (map byte_gf ?pad) (unit_vec 4 (a mod 4)) (4 * q) = take (4 * q) (drop (a mod 4) (map byte_gf ?pad))"
      by (intro select_bytes_unit_vec) simp_all
    also have "\<dots> = map byte_gf (take (4 * q) (drop (4 * (a div 4) + a mod 4) js))"
      by (simp add: take_map drop_map drop_take add.commute min_def)
    finally show ?thesis by simp
  qed
  have fits: "?k + ?l + 6 \<le> 4 * q" "a + 4 * q \<le> length js"
    using q(2) sizes(1) room' js(1) div_mult_mod_eq [of a 4] mod_less_divisor [of 4 a] by linarith+
  note v = claim_at_substring(1) [OF claim(1) fits]
    and body = claim_at_substring(3-) [OF claim(1) fits]
  have len: "length ?sub = 4 * q" using fits(2) by simp
  have struct: "json_structure_constraints (map byte_gf ?sub) key"
    using body len q(2) by (subst structure_on_bytes) simp_all
  have invs: "json_value_constraints (map byte_gf ?sub) (unit_vec mv (?l - 1)) invs (5 + ?k) mv"
  proof (subst value_on_bytes)
    show "?l - 1 < mv" "5 + ?k + mv + 1 < length ?sub" using l(1) sizes(1) len q(2) by linarith+
    have "(byte_gf (?sub ! (5 + ?k + j)) - byte_gf 0x22) * invs ! j = of_bool (j \<le> ?l - 1)" if "j < mv" for j
    proof (cases "j < ?l")
      case True
      have "?sub ! (5 + ?k + j) = take ?l (drop (5 + ?k) ?sub) ! j"
        using True len q(2) sizes(1) by simp
      then have "?sub ! (5 + ?k + j) = ?v ! j" by (simp only: v)
      moreover have "(of_nat 0x22 :: gf) = byte_gf 0x22" by (simp add: byte_gf_def)
      ultimately show ?thesis using True that diff [OF True] by (simp add: invs_def)
    next
      case False
      then have "\<not> j \<le> ?l - 1" using l(1) by linarith
      then show ?thesis using that False by (simp add: invs_def)
    qed
    then show "?sub ! (5 + ?k + (?l - 1 + 1)) = 0x22 \<and> length invs = mv
      \<and> (\<forall>j < mv. (byte_gf (?sub ! (5 + ?k + j)) - byte_gf 0x22) * invs ! j = of_bool (j \<le> ?l - 1))"
      using l(1) body(7) by (simp add: invs_def)
  qed
  define t where "t = \<lparr>slice_targets = st,
          attribute_u32_words = pack_attribute_limbs (map (\<lambda>j. if j < ?k then byte_gf (key ! j) else 0) [0..<mk]
            @ extracted_value_bytes (prefix_sum_from_right (unit_vec mv (?l - 1))) (map byte_gf ?sub) (5 + ?k) mv),
          attribute_len_bytes = mk + mv,
          value_len = of_nat ?l,
          value_len_indicator = unit_vec mv (?l - 1),
          byte_offset = of_nat (a mod 4),
          byte_offset_indicator = unit_vec 4 (a mod 4),
          substring_bytes_with_padding = map byte_gf ?pad,
          value_quote_inv = invs\<rparr>"
  have "list_all (\<lambda>j. j < ?l \<longrightarrow> byte_gf (?v ! j) - of_nat 0x22 \<noteq> 0) [0..<mv]"
    using diff by (auto simp: list_all_iff)
  then have fill: "fill_json_claim_witness_known_key (4 * n) key mv mk js c = Inr t"
    using claim(2) l(1) st room' unfolding fill_json_claim_witness_known_key_def Let_def q(1) indicator_map a_def [symmetric]
    by (simp add: pads [simplified] sel [simplified] t_def invs_def)
  note sv = fill_packed_values [OF st]
  have "make_json_claim_circuit_known_key (4 * n) key mv mk t"
    unfolding make_json_claim_circuit_known_key_def Let_def q(1)
  proof (intro conjI)
    show "make_array_slice_circuit_packed_u32 (4 * n) (4 * q + 4) (slice_targets t)"
      using fill_packed_satisfies [OF st _ _ js(2)] room' by (simp add: t_def add.commute)
    show "unpack_words_to_bytes (output_packed (slice_targets t)) (substring_bytes_with_padding t)"
    proof -
      have "length ?pad = 4 * (q + 1)" using room' js(1) by simp
      then have "length ?pad = 4 * length (pack_be ?pad)" by (metis length_pack_be)
      then show ?thesis
        using sv(4) room' unfolding unpack_words_to_bytes_iff
        by (intro exI [of _ ?pad]) (simp add: t_def)
    qed
    show "make_one_hot_indicator 4 0 \<lparr>indicator = byte_offset_indicator t, oh_value = byte_offset t\<rparr>"
      by (auto simp: make_one_hot_indicator_iff one_hot_at_eq t_def intro!: exI [of _ "a mod 4"])
    show "make_one_hot_indicator mv 1 \<lparr>indicator = value_len_indicator t, oh_value = value_len t\<rparr>"
    proof -
      have "?l - 1 < mv" "?l - 1 + 1 = ?l" using l(1) sizes(1) by linarith+
      then show ?thesis
        unfolding make_one_hot_indicator_iff [OF js(3)]
        by (intro exI [of _ "?l - 1"]) (simp only: one_hot_at_eq t_def json_claim.simps simp_thms)
    qed
    show "0 < mv" using l(1) sizes(1) by linarith
  qed (use sizes struct invs sel in \<open>simp_all add: t_def\<close>)
  moreover have "packed_array (slice_targets t) = pack_be js"
    using sv(3) room' by (simp add: t_def)
  moreover have "attribute_u32_words t = map of_nat (to_u32_limbs_le (padded_attribute mk mv key ?v))"
  proof -
    have "map (\<lambda>j. if j < ?k then byte_gf (key ! j) else 0) [0..<mk] = map byte_gf (key @ replicate (mk - ?k) 0)"
      using sizes(2) by (auto simp: list_eq_iff_nth_eq nth_append)
    moreover have "extracted_value_bytes (prefix_sum_from_right (unit_vec mv (?l - 1))) (map byte_gf ?sub) (5 + ?k) mv
        = map byte_gf (?v @ replicate (mv - ?l) 0)"
    proof -
      have "?l - 1 < mv" "5 + ?k + mv + 1 < length ?sub" "?l - 1 + 1 = ?l" using l(1) sizes(1) len q(2) by linarith+
      then show ?thesis using extracted_on_bytes [of "?l - 1" mv "5 + ?k" ?sub] by (simp only: v)
    qed
    ultimately show ?thesis
      unfolding t_def padded_attribute_def json_claim.simps by (simp only: map_append [symmetric] pack_attribute_limbs_bytes append_assoc)
  qed
  ultimately show ?thesis using that fill by blast
qed

lemma json_claim_complete:
  assumes "claim_at js (cp_start c - 1) key (cp_value c)" "0 < cp_start c"
    and "length (cp_value c) \<le> mv" "length key \<le> mk" "key \<noteq> []" "mv mod 4 = 0" "mk mod 4 = 0"
    and "length js = 4 * n" "n < goldilocks_order" "mv < goldilocks_order"
    and "(cp_start c - 1) div 4 + per_claim_substring_len (length key) mv div 4 + 1 \<le> n"
  obtains t where "fill_json_claim_witness_known_key (4 * n) key mv mk js c = Inr t"
    "make_json_claim_circuit_known_key (4 * n) key mv mk t" "packed_array (slice_targets t) = pack_be js"
  using json_claim_complete_words [OF assms] by blast

end
