(* ===== verification/Base64.thy ===== *)
theory Base64
  imports Gadgets Utf8
begin

text \<open>
  \<open>src/circuits/gadgets/base64.rs\<close>: the Base64url decode circuit, its witness filling, and the
  alphabet.  Off-circuit coding is done by the third-party \<open>base64\<close> crate, which is the
  locale \<open>base64_codec\<close> here; its laws are the documented behaviour of the unpadded URL-safe
  engine.  The functions \<open>rfc_encode\<close> and \<open>rfc_decode\<close> (RFC 4648, section 5, with strict
  trailing bits) are the specification of the circuit and interpret the locale.
\<close>

subsection \<open>The alphabet\<close>

definition BASE64URL_ALPHABET :: bytes where
  "BASE64URL_ALPHABET = bytes_of_string ''ABCDEFGHIJKLMNOPQRSTUVWXYZabcdefghijklmnopqrstuvwxyz0123456789-_''"

definition base64url_char_to_value :: "u8 \<Rightarrow> u8 res" where
  "base64url_char_to_value c =
     (if 65 \<le> c \<and> c \<le> 90 then Inr (c - 65)
      else if 97 \<le> c \<and> c \<le> 122 then Inr (c - 97 + 26)
      else if 48 \<le> c \<and> c \<le> 57 then Inr (c - 48 + 52)
      else if c = 45 then Inr 62
      else if c = 95 then Inr 63
      else Inl (Bail ''invalid Base64url character''))"

lemma length_alphabet [simp, size_simps]: "length BASE64URL_ALPHABET = 64"
  by (simp add: BASE64URL_ALPHABET_def)

lemma alphabet_table:
  "map (\<lambda>c. base64url_char_to_value c) BASE64URL_ALPHABET = map (\<lambda>v. Inr (of_nat v)) [0..<64]"
  by code_simp

lemma alphabet_ranges:
  "BASE64URL_ALPHABET = map of_nat ([65..<91] @ [97..<123] @ [48..<58] @ [45, 95])"
  by code_simp

lemma char_to_value_alphabet:
  assumes "v < 64"
  shows "base64url_char_to_value (BASE64URL_ALPHABET ! v) = Inr (of_nat v)"
proof -
  have "map (\<lambda>c. base64url_char_to_value c) BASE64URL_ALPHABET ! v = map (\<lambda>v. Inr (of_nat v)) [0..<64] ! v"
    by (simp only: alphabet_table)
  then show ?thesis using assms by simp
qed

lemma word_sub_of_nat:
  fixes c a :: u8
  assumes "a \<le> c"
  shows "unat (c - a) = unat c - unat a"
  using assms by (simp add: unat_sub_if' word_le_nat_alt)

lemma char_to_value_inv:
  assumes "base64url_char_to_value c = Inr v"
  shows "unat v < 64" "BASE64URL_ALPHABET ! unat v = c"
proof -
  have nth: "k < 26 \<Longrightarrow> BASE64URL_ALPHABET ! k = of_nat (65 + k)"
    "k < 26 \<Longrightarrow> BASE64URL_ALPHABET ! (k + 26) = of_nat (97 + k)"
    "k < 10 \<Longrightarrow> BASE64URL_ALPHABET ! (k + 52) = of_nat (48 + k)"
    "BASE64URL_ALPHABET ! 62 = 45" "BASE64URL_ALPHABET ! 63 = 95" for k
    unfolding alphabet_ranges by (simp_all add: nth_append del: upt_rec_numeral)
  have ofn: "of_nat (m + (unat c - m)) = c" if "m \<le> unat c" for m
    using that by simp
  consider "65 \<le> c" "c \<le> 90" "v = c - 65" | "97 \<le> c" "c \<le> 122" "v = c - 97 + 26"
    | "48 \<le> c" "c \<le> 57" "v = c - 48 + 52" | "c = 45" "v = 62" | "c = 95" "v = 63"
    using assms by (auto simp: base64url_char_to_value_def split: if_splits)
  then have "unat v < 64 \<and> BASE64URL_ALPHABET ! unat v = c"
  proof cases
    case 1
    then have "unat v = unat c - 65" "unat c - 65 < 26" "65 \<le> unat c"
      by (auto simp: word_sub_of_nat word_le_nat_alt)
    then show ?thesis using nth(1) [of "unat c - 65"] ofn [of 65] by simp
  next
    case 2
    then have k: "unat (c - 97) = unat c - 97" "unat c - 97 < 26" "97 \<le> unat c"
      by (auto simp: word_sub_of_nat word_le_nat_alt)
    moreover have "71 \<le> c" "v = c - 71" using k(3) 2 by (simp_all add: word_le_nat_alt)
    ultimately have "unat v = unat c - 97 + 26" using word_sub_of_nat [of 71 c] by simp
    then show ?thesis using k nth(2) [of "unat c - 97"] ofn [of 97] by simp
  next
    case 3
    then have k: "unat (c - 48) = unat c - 48" "unat c - 48 < 10" "48 \<le> unat c"
      by (auto simp: word_sub_of_nat word_le_nat_alt)
    then have "unat v = unat c - 48 + 52" using 3 by (simp add: unat_word_ariths)
    then show ?thesis using k nth(3) [of "unat c - 48"] ofn [of 48] by simp
  qed (simp_all add: nth)
  then show "unat v < 64" "BASE64URL_ALPHABET ! unat v = c" by blast+
qed

subsection \<open>The coding of RFC 4648\<close>

fun decode_sextets :: "nat list \<Rightarrow> nat list option" where
  "decode_sextets [] = Some []"
| "decode_sextets [v0] = None"
| "decode_sextets [v0, v1] = (if v1 mod 16 = 0 then Some [v0 * 4 + v1 div 16] else None)"
| "decode_sextets [v0, v1, v2] =
     (if v2 mod 4 = 0 then Some [v0 * 4 + v1 div 16, v1 mod 16 * 16 + v2 div 4] else None)"
| "decode_sextets (v0 # v1 # v2 # v3 # vs) =
     map_option (\<lambda>bs. (v0 * 4 + v1 div 16) # (v1 mod 16 * 16 + v2 div 4) # (v2 mod 4 * 64 + v3) # bs)
       (decode_sextets vs)"

fun encode_sextets :: "nat list \<Rightarrow> nat list" where
  "encode_sextets [] = []"
| "encode_sextets [b0] = [b0 div 4, b0 mod 4 * 16]"
| "encode_sextets [b0, b1] = [b0 div 4, b0 mod 4 * 16 + b1 div 16, b1 mod 16 * 4]"
| "encode_sextets (b0 # b1 # b2 # bs) =
     b0 div 4 # (b0 mod 4 * 16 + b1 div 16) # (b1 mod 16 * 4 + b2 div 64) # b2 mod 64 # encode_sextets bs"

fun sextets :: "bytes \<Rightarrow> nat list option" where
  "sextets [] = Some []"
| "sextets (c # cs) =
     (case base64url_char_to_value c of
        Inl _ \<Rightarrow> None
      | Inr v \<Rightarrow> map_option (Cons (unat v)) (sextets cs))"

definition rfc_decode :: "bytes \<Rightarrow> bytes option" where
  "rfc_decode cs = map_option (map of_nat) (Option.bind (sextets cs) decode_sextets)"

definition rfc_encode :: "bytes \<Rightarrow> bytes" where
  "rfc_encode bs = map (\<lambda>v. BASE64URL_ALPHABET ! v) (encode_sextets (map unat bs))"

lemma sextets_Some_iff:
  "sextets cs = Some vs \<longleftrightarrow> (\<forall>v \<in> set vs. v < 64) \<and> cs = map (\<lambda>v. BASE64URL_ALPHABET ! v) vs"
proof (induction cs arbitrary: vs)
  case Nil
  then show ?case by auto
next
  case (Cons c cs)
  show ?case
  proof
    assume "sextets (c # cs) = Some vs"
    then obtain v vs' where v: "base64url_char_to_value c = Inr v" "sextets cs = Some vs'" "vs = unat v # vs'"
      by (auto split: sum.splits)
    then show "(\<forall>v \<in> set vs. v < 64) \<and> c # cs = map (\<lambda>v. BASE64URL_ALPHABET ! v) vs"
      using Cons.IH [of vs'] char_to_value_inv [OF v(1)] by simp
  next
    assume "(\<forall>v \<in> set vs. v < 64) \<and> c # cs = map (\<lambda>v. BASE64URL_ALPHABET ! v) vs"
    then show "sextets (c # cs) = Some vs"
      using Cons.IH by (auto simp: Cons_eq_map_conv char_to_value_alphabet unat_of_nat)
  qed
qed

lemma encode_sextets_less: "\<forall>b \<in> set bs. b < 256 \<Longrightarrow> \<forall>v \<in> set (encode_sextets bs). v < 64"
  by (induction bs rule: encode_sextets.induct) auto

lemma decode_encode_sextets: "\<forall>b \<in> set bs. b < 256 \<Longrightarrow> decode_sextets (encode_sextets bs) = Some bs"
  by (induction bs rule: encode_sextets.induct) (auto simp: div_mult2_eq [symmetric] mult.commute)

lemma decode_sextets_less: "\<forall>v \<in> set vs. v < 64 \<Longrightarrow> decode_sextets vs = Some bs \<Longrightarrow> \<forall>b \<in> set bs. b < 256"
proof (induction vs arbitrary: bs rule: decode_sextets.induct)
  case (5 v0 v1 v2 v3 vs)
  have lt: "v0 < 64" "v1 < 64" "v2 < 64" "v3 < 64" using 5 by auto
  have "v0 * 4 + v1 div 16 < 256" "v1 mod 16 * 16 + v2 div 4 < 256" "v2 mod 4 * 64 + v3 < 256"
    using lt by linarith+
  then show ?case using 5 by auto
qed (auto split: if_splits)

lemma encode_decode_sextets:
  "\<forall>v \<in> set vs. v < 64 \<Longrightarrow> decode_sextets vs = Some bs \<Longrightarrow> encode_sextets bs = vs"
proof (induction vs arbitrary: bs rule: decode_sextets.induct)
  case (5 v0 v1 v2 v3 vs)
  then obtain bs' where bs: "decode_sextets vs = Some bs'"
      "bs = (v0 * 4 + v1 div 16) # (v1 mod 16 * 16 + v2 div 4) # (v2 mod 4 * 64 + v3) # bs'"
    by auto
  have lt: "v0 < 64" "v1 < 64" "v2 < 64" "v3 < 64" using 5 by auto
  have "(v0 * 4 + v1 div 16) div 4 = v0" "(v0 * 4 + v1 div 16) mod 4 = v1 div 16"
    "(v1 mod 16 * 16 + v2 div 4) div 16 = v1 mod 16" "(v1 mod 16 * 16 + v2 div 4) mod 16 = v2 div 4"
    "(v2 mod 4 * 64 + v3) div 64 = v2 mod 4" "(v2 mod 4 * 64 + v3) mod 64 = v3"
    using lt by (auto intro: div_nat_eqI)
  then show ?case using 5 bs by simp
next
  case (3 v0 v1)
  then have "v1 < 64" "bs = [v0 * 4 + v1 div 16]" "v1 mod 16 = 0" by (auto split: if_splits)
  moreover have "(v0 * 4 + v1 div 16) div 4 = v0" "(v0 * 4 + v1 div 16) mod 4 = v1 div 16"
    using \<open>v1 < 64\<close> by (auto intro: div_nat_eqI)
  ultimately show ?case by auto
next
  case (4 v0 v1 v2)
  then have *: "v1 < 64" "v2 < 64" "bs = [v0 * 4 + v1 div 16, v1 mod 16 * 16 + v2 div 4]" "v2 mod 4 = 0"
    by (auto split: if_splits)
  moreover have "(v0 * 4 + v1 div 16) div 4 = v0" "(v0 * 4 + v1 div 16) mod 4 = v1 div 16"
    "(v1 mod 16 * 16 + v2 div 4) div 16 = v1 mod 16" "(v1 mod 16 * 16 + v2 div 4) mod 16 = v2 div 4"
    using *(1,2) by (auto intro: div_nat_eqI)
  ultimately show ?case by auto
qed simp_all

lemma length_encode_sextets: "length (encode_sextets bs) = (length bs * 4 + 2) div 3"
proof (induction bs rule: encode_sextets.induct)
  case (4 b0 b1 b2 bs)
  have "(length (b0 # b1 # b2 # bs) * 4 + 2) div 3 = 4 + (length bs * 4 + 2) div 3"
    by simp
  then show ?case using 4 by simp
qed simp_all

lemma rfc_decode_encode: "rfc_decode (rfc_encode bs) = Some bs"
proof -
  let ?ns = "map unat bs"
  have less: "\<forall>b \<in> set ?ns. b < 256" by auto
  then have "sextets (rfc_encode bs) = Some (encode_sextets ?ns)" "decode_sextets (encode_sextets ?ns) = Some ?ns"
    using encode_sextets_less [OF less] decode_encode_sextets [OF less]
    by (simp_all add: sextets_Some_iff rfc_encode_def)
  then show ?thesis by (simp add: rfc_decode_def comp_def)
qed

lemma rfc_encode_decode: "rfc_decode cs = Some bs \<Longrightarrow> rfc_encode bs = cs"
proof -
  assume "rfc_decode cs = Some bs"
  then obtain vs ns where v: "sextets cs = Some vs" "decode_sextets vs = Some ns" "bs = map of_nat ns"
    by (auto simp: rfc_decode_def bind_eq_Some_conv)
  have lt: "\<forall>v \<in> set vs. v < 64" and cs: "cs = map (\<lambda>v. BASE64URL_ALPHABET ! v) vs"
    using v(1) by (simp_all add: sextets_Some_iff)
  have "\<forall>b \<in> set ns. b < 256" using decode_sextets_less [OF lt v(2)] .
  then have "map unat bs = ns"
    unfolding v(3) by (auto simp: list_eq_iff_nth_eq unat_of_nat)
  then show ?thesis
    using encode_decode_sextets [OF lt v(2)] by (simp add: rfc_encode_def cs)
qed

lemma length_rfc_encode: "length (rfc_encode bs) = div_ceil (4 * length bs) 3"
  by (simp add: rfc_encode_def length_encode_sextets div_ceil_def mult.commute)

lemma set_rfc_encode: "set (rfc_encode bs) \<subseteq> set BASE64URL_ALPHABET"
proof -
  have "\<forall>b \<in> set (map unat bs). b < 256" by auto
  then have "\<forall>v \<in> set (encode_sextets (map unat bs)). v < 64"
    by (rule encode_sextets_less)
  then have "\<forall>v \<in> set (encode_sextets (map unat bs)). BASE64URL_ALPHABET ! v \<in> set BASE64URL_ALPHABET"
    by (metis nth_mem length_alphabet)
  then show ?thesis by (auto simp: rfc_encode_def)
qed

subsection \<open>The base64 crate\<close>

locale base64_codec =
  fixes encode :: "bytes \<Rightarrow> bytes" and decode :: "bytes \<Rightarrow> bytes option"
  assumes decode_encode: "decode (encode bs) = Some bs"
    and encode_decode: "decode cs = Some bs \<Longrightarrow> encode bs = cs"
    and encode_length: "length (encode bs) = div_ceil (4 * length bs) 3"
    and encode_alphabet: "set (encode bs) \<subseteq> set BASE64URL_ALPHABET"
begin

lemma encode_inject: "encode a = encode b \<longleftrightarrow> a = b"
  by (metis decode_encode option.inject)

lemma decode_length: "decode cs = Some bs \<Longrightarrow> length cs = div_ceil (4 * length bs) 3"
  using encode_decode encode_length by metis

end

interpretation rfc: base64_codec rfc_encode rfc_decode
  by unfold_locales (auto simp: rfc_decode_encode rfc_encode_decode length_rfc_encode dest: set_rfc_encode [THEN subsetD])

text \<open>The off-circuit helpers, over the crate's coding.\<close>

definition base64url_decode :: "(bytes \<Rightarrow> bytes option) \<Rightarrow> bytes \<Rightarrow> bytes res" where
  "base64url_decode decode encoded =
     ensure (utf8_valid encoded) (Bail ''utf8'')
       (case decode encoded of None \<Rightarrow> Inl (Bail ''base64url decode'') | Some bs \<Rightarrow> Inr bs)"

definition base64url_encode :: "(bytes \<Rightarrow> bytes) \<Rightarrow> bytes \<Rightarrow> bytes" where
  "base64url_encode encode data = encode data"

lemma alphabet_ascii: "c \<in> set BASE64URL_ALPHABET \<Longrightarrow> c < 0x80"
proof -
  have "\<forall>c \<in> set BASE64URL_ALPHABET. c < 0x80" by code_simp
  then show "c \<in> set BASE64URL_ALPHABET \<Longrightarrow> c < 0x80" by blast
qed

context base64_codec
begin

lemma base64url_roundtrip: "base64url_decode decode (base64url_encode encode data) = Inr data"
proof -
  have "utf8_valid (encode data)"
    using encode_alphabet alphabet_ascii by (auto intro!: utf8_valid_ascii)
  then show ?thesis
    by (simp add: base64url_decode_def base64url_encode_def decode_encode)
qed

end

subsection \<open>The decode circuit\<close>

record group_split =
  v1_hi2 :: gf
  v1_lo4 :: gf
  v2_hi4 :: gf
  v2_lo2 :: gf

record remainder2_split =
  r2_v1_hi2 :: gf
  r2_v1_lo4 :: gf

record base64_decode =
  input_ascii :: "gf list"
  decoded_bytes :: "gf list"
  sixbit_values :: "gf list"
  group_splits :: "group_split list"
  remainder2_splits :: "remainder2_split option"
  remainder3_splits :: "group_split option"

definition base64_decoded_len :: "nat \<Rightarrow> nat res" where
  "base64_decoded_len encoded_len =
     (let full_groups = encoded_len div 4; remainder = encoded_len mod 4 in
      if remainder = 0 then Inr (full_groups * 3 + 0)
      else if remainder = 2 then Inr (full_groups * 3 + 1)
      else if remainder = 3 then Inr (full_groups * 3 + 2)
      else Inl (Panic ''invalid Base64url encoded length''))"

definition base64_table :: "gf list" where
  "base64_table = map byte_gf BASE64URL_ALPHABET"

text \<open>The constraints of one full group of four characters.\<close>

definition full_group_constraints ::
    "gf \<Rightarrow> gf \<Rightarrow> gf \<Rightarrow> gf \<Rightarrow> gf \<Rightarrow> gf \<Rightarrow> gf \<Rightarrow> group_split \<Rightarrow> bool" where
  "full_group_constraints v0 v1 v2 v3 b0 b1 b2 s \<longleftrightarrow>
     v1 = v1_hi2 s * 16 + v1_lo4 s \<and> range_check (v1_hi2 s) 2 \<and> range_check (v1_lo4 s) 4
   \<and> v2 = v2_hi4 s * 4 + v2_lo2 s \<and> range_check (v2_hi4 s) 4 \<and> range_check (v2_lo2 s) 2
   \<and> b0 = v0 * 4 + v1_hi2 s
   \<and> b1 = v1_lo4 s * 16 + v2_hi4 s
   \<and> b2 = v2_lo2 s * 64 + v3"

definition remainder2_constraints :: "gf \<Rightarrow> gf \<Rightarrow> gf \<Rightarrow> remainder2_split \<Rightarrow> bool" where
  "remainder2_constraints v0 v1 b0 s \<longleftrightarrow>
     v1 = r2_v1_hi2 s * 16 + r2_v1_lo4 s \<and> range_check (r2_v1_hi2 s) 2 \<and> range_check (r2_v1_lo4 s) 4
   \<and> b0 = v0 * 4 + r2_v1_hi2 s
   \<and> r2_v1_lo4 s = 0"

definition remainder3_constraints :: "gf \<Rightarrow> gf \<Rightarrow> gf \<Rightarrow> gf \<Rightarrow> gf \<Rightarrow> group_split \<Rightarrow> bool" where
  "remainder3_constraints v0 v1 v2 b0 b1 s \<longleftrightarrow>
     v1 = v1_hi2 s * 16 + v1_lo4 s \<and> range_check (v1_hi2 s) 2 \<and> range_check (v1_lo4 s) 4
   \<and> b0 = v0 * 4 + v1_hi2 s
   \<and> v2 = v2_hi4 s * 4 + v2_lo2 s \<and> range_check (v2_hi4 s) 4 \<and> range_check (v2_lo2 s) 2
   \<and> b1 = v1_lo4 s * 16 + v2_hi4 s
   \<and> v2_lo2 s = 0"

definition make_base64url_decode_circuit :: "nat \<Rightarrow> base64_decode \<Rightarrow> bool" where
  "make_base64url_decode_circuit encoded_len t \<longleftrightarrow>
     0 < encoded_len
   \<and> base64_decoded_len encoded_len = Inr (length (decoded_bytes t))
   \<and> length (input_ascii t) = encoded_len
   \<and> length (sixbit_values t) = encoded_len
   \<and> (let full_groups = encoded_len div 4; remainder = encoded_len mod 4;
          v = (\<lambda>i. sixbit_values t ! i); b = (\<lambda>i. decoded_bytes t ! i) in
        list_all (\<lambda>i. range_check (v i) 6 \<and> random_access (v i) base64_table (input_ascii t ! i)) [0..<encoded_len]
      \<and> length (group_splits t) = full_groups
      \<and> list_all (\<lambda>g. full_group_constraints (v (g * 4)) (v (g * 4 + 1)) (v (g * 4 + 2)) (v (g * 4 + 3))
           (b (g * 3)) (b (g * 3 + 1)) (b (g * 3 + 2)) (group_splits t ! g)) [0..<full_groups]
      \<and> (case remainder2_splits t of
           None \<Rightarrow> remainder \<noteq> 2
         | Some s \<Rightarrow> remainder = 2
             \<and> remainder2_constraints (v (full_groups * 4)) (v (full_groups * 4 + 1)) (b (full_groups * 3)) s)
      \<and> (case remainder3_splits t of
           None \<Rightarrow> remainder \<noteq> 3
         | Some s \<Rightarrow> remainder = 3
             \<and> remainder3_constraints (v (full_groups * 4)) (v (full_groups * 4 + 1)) (v (full_groups * 4 + 2))
                 (b (full_groups * 3)) (b (full_groups * 3 + 1)) s))"

subsection \<open>Filling the witness\<close>

definition fill_base64url_decode_witness :: "nat \<Rightarrow> bytes \<Rightarrow> bytes \<Rightarrow> base64_decode res" where
  "fill_base64url_decode_witness encoded_len encoded_ascii decoded =
     bind_res (base64_decoded_len encoded_len) (\<lambda>decoded_len.
     ensure (length encoded_ascii = encoded_len) (Bail ''encoded length mismatch'')
    (ensure (length decoded = decoded_len) (Bail ''decoded length mismatch'')
    (bind_res (map_res base64url_char_to_value encoded_ascii) (\<lambda>sixbit_vals.
       let full_groups = length encoded_ascii div 4;
           val = (\<lambda>i. unat (sixbit_vals ! i));
           split = (\<lambda>g. \<lparr>v1_hi2 = of_nat (drop_bit 4 (val (g * 4 + 1))), v1_lo4 = of_nat (val (g * 4 + 1) AND 15),
                         v2_hi4 = of_nat (drop_bit 2 (val (g * 4 + 2))), v2_lo2 = of_nat (val (g * 4 + 2) AND 3)\<rparr>)
       in Inr \<lparr>input_ascii = map byte_gf encoded_ascii,
               decoded_bytes = map byte_gf decoded,
               sixbit_values = map byte_gf sixbit_vals,
               group_splits = map split [0..<encoded_len div 4],
               remainder2_splits =
                 (if encoded_len mod 4 = 2
                  then Some \<lparr>r2_v1_hi2 = of_nat (drop_bit 4 (val (full_groups * 4 + 1))),
                             r2_v1_lo4 = of_nat (val (full_groups * 4 + 1) AND 15)\<rparr> else None),
               remainder3_splits =
                 (if encoded_len mod 4 = 3 then Some (split full_groups) else None)\<rparr>))))"

subsection \<open>The satisfying assignments are the filled ones\<close>

definition split_of :: "nat \<Rightarrow> nat \<Rightarrow> group_split" where
  "split_of w1 w2 = \<lparr>v1_hi2 = of_nat (w1 div 16), v1_lo4 = of_nat (w1 mod 16),
                     v2_hi4 = of_nat (w2 div 4), v2_lo2 = of_nat (w2 mod 4)\<rparr>"

definition split2_of :: "nat \<Rightarrow> remainder2_split" where
  "split2_of w1 = \<lparr>r2_v1_hi2 = of_nat (w1 div 16), r2_v1_lo4 = of_nat (w1 mod 16)\<rparr>"

definition base64_assignment :: "nat list \<Rightarrow> nat list \<Rightarrow> base64_decode" where
  "base64_assignment vs ns =
     (let n = length vs; k = n div 4 in
      \<lparr>input_ascii = map (\<lambda>v. byte_gf (BASE64URL_ALPHABET ! v)) vs,
       decoded_bytes = map of_nat ns,
       sixbit_values = map of_nat vs,
       group_splits = map (\<lambda>g. split_of (vs ! (g * 4 + 1)) (vs ! (g * 4 + 2))) [0..<k],
       remainder2_splits = (if n mod 4 = 2 then Some (split2_of (vs ! (k * 4 + 1))) else None),
       remainder3_splits = (if n mod 4 = 3 then Some (split_of (vs ! (k * 4 + 1)) (vs ! (k * 4 + 2))) else None)\<rparr>)"

lemma sextet_split:
  assumes "w < 64"
  shows "of_nat w = h * 16 + l \<and> range_check h 2 \<and> range_check l 4 \<longleftrightarrow> h = of_nat (w div 16) \<and> l = of_nat (w mod 16)"
    and "of_nat w = h * 4 + l \<and> range_check h 4 \<and> range_check l 2 \<longleftrightarrow> h = of_nat (w div 4) \<and> l = of_nat (w mod 4)"
  using split_low_high_iff [of 4 6 w l h] split_low_high_iff [of 2 6 w l h] assms
  by (auto simp: split_low_high_def)

lemma full_group_iff:
  assumes "w1 < 64" "w2 < 64"
  shows "full_group_constraints (of_nat w0) (of_nat w1) (of_nat w2) (of_nat w3) b0 b1 b2 s \<longleftrightarrow>
    s = split_of w1 w2 \<and> b0 = of_nat (w0 * 4 + w1 div 16) \<and> b1 = of_nat (w1 mod 16 * 16 + w2 div 4)
    \<and> b2 = of_nat (w2 mod 4 * 64 + w3)"
proof -
  have "full_group_constraints (of_nat w0) (of_nat w1) (of_nat w2) (of_nat w3) b0 b1 b2 s \<longleftrightarrow>
    (of_nat w1 = v1_hi2 s * 16 + v1_lo4 s \<and> range_check (v1_hi2 s) 2 \<and> range_check (v1_lo4 s) 4)
    \<and> (of_nat w2 = v2_hi4 s * 4 + v2_lo2 s \<and> range_check (v2_hi4 s) 4 \<and> range_check (v2_lo2 s) 2)
    \<and> b0 = of_nat w0 * 4 + v1_hi2 s \<and> b1 = v1_lo4 s * 16 + v2_hi4 s \<and> b2 = v2_lo2 s * 64 + of_nat w3"
    unfolding full_group_constraints_def by blast
  also have "\<dots> \<longleftrightarrow> s = split_of w1 w2 \<and> b0 = of_nat (w0 * 4 + w1 div 16) \<and> b1 = of_nat (w1 mod 16 * 16 + w2 div 4)
    \<and> b2 = of_nat (w2 mod 4 * 64 + w3)"
    unfolding sextet_split(1) [OF assms(1)] sextet_split(2) [OF assms(2)]
    by (cases s) (auto simp: split_of_def)
  finally show ?thesis .
qed

lemma remainder2_iff:
  assumes "w1 < 64"
  shows "remainder2_constraints (of_nat w0) (of_nat w1) b0 s \<longleftrightarrow>
    s = split2_of w1 \<and> b0 = of_nat (w0 * 4 + w1 div 16) \<and> w1 mod 16 = 0"
proof -
  have "remainder2_constraints (of_nat w0) (of_nat w1) b0 s \<longleftrightarrow>
    (of_nat w1 = r2_v1_hi2 s * 16 + r2_v1_lo4 s \<and> range_check (r2_v1_hi2 s) 2 \<and> range_check (r2_v1_lo4 s) 4)
    \<and> b0 = of_nat w0 * 4 + r2_v1_hi2 s \<and> r2_v1_lo4 s = 0"
    unfolding remainder2_constraints_def by blast
  also have "\<dots> \<longleftrightarrow> s = split2_of w1 \<and> b0 = of_nat (w0 * 4 + w1 div 16) \<and> (of_nat (w1 mod 16) :: gf) = of_nat 0"
    unfolding sextet_split(1) [OF assms] by (cases s) (auto simp: split2_of_def)
  also have "(of_nat (w1 mod 16) :: gf) = of_nat 0 \<longleftrightarrow> w1 mod 16 = 0"
    using assms by (subst of_nat_gf_inject) auto
  finally show ?thesis .
qed

lemma remainder3_iff:
  assumes "w1 < 64" "w2 < 64"
  shows "remainder3_constraints (of_nat w0) (of_nat w1) (of_nat w2) b0 b1 s \<longleftrightarrow>
    s = split_of w1 w2 \<and> b0 = of_nat (w0 * 4 + w1 div 16) \<and> b1 = of_nat (w1 mod 16 * 16 + w2 div 4)
    \<and> w2 mod 4 = 0"
proof -
  have "remainder3_constraints (of_nat w0) (of_nat w1) (of_nat w2) b0 b1 s \<longleftrightarrow>
    (of_nat w1 = v1_hi2 s * 16 + v1_lo4 s \<and> range_check (v1_hi2 s) 2 \<and> range_check (v1_lo4 s) 4)
    \<and> (of_nat w2 = v2_hi4 s * 4 + v2_lo2 s \<and> range_check (v2_hi4 s) 4 \<and> range_check (v2_lo2 s) 2)
    \<and> b0 = of_nat w0 * 4 + v1_hi2 s \<and> b1 = v1_lo4 s * 16 + v2_hi4 s \<and> v2_lo2 s = 0"
    unfolding remainder3_constraints_def by blast
  also have "\<dots> \<longleftrightarrow> s = split_of w1 w2 \<and> b0 = of_nat (w0 * 4 + w1 div 16) \<and> b1 = of_nat (w1 mod 16 * 16 + w2 div 4)
    \<and> (of_nat (w2 mod 4) :: gf) = of_nat 0"
    unfolding sextet_split(1) [OF assms(1)] sextet_split(2) [OF assms(2)]
    by (cases s) (auto simp: split_of_def)
  also have "(of_nat (w2 mod 4) :: gf) = of_nat 0 \<longleftrightarrow> w2 mod 4 = 0"
    using assms by (subst of_nat_gf_inject) auto
  finally show ?thesis .
qed

text \<open>The reference decoder by groups and remainder.\<close>

lemma decode_sextets_groups:
  assumes "4 * k \<le> length vs" "3 * k \<le> length ns"
  shows "decode_sextets vs = Some ns \<longleftrightarrow>
    (\<forall>g < k. ns ! (g * 3) = vs ! (g * 4) * 4 + vs ! (g * 4 + 1) div 16
           \<and> ns ! (g * 3 + 1) = vs ! (g * 4 + 1) mod 16 * 16 + vs ! (g * 4 + 2) div 4
           \<and> ns ! (g * 3 + 2) = vs ! (g * 4 + 2) mod 4 * 64 + vs ! (g * 4 + 3))
    \<and> decode_sextets (drop (4 * k) vs) = Some (drop (3 * k) ns)"
  using assms
proof (induction k arbitrary: vs ns)
  case 0
  then show ?case by simp
next
  case (Suc k)
  obtain a b c d vs' where vs: "vs = a # b # c # d # vs'" "4 * k \<le> length vs'"
    using Suc.prems(1) by (auto simp: Suc_le_length_iff numeral_eq_Suc)
  obtain x y z ns' where ns: "ns = x # y # z # ns'" "3 * k \<le> length ns'"
    using Suc.prems(2) by (auto simp: Suc_le_length_iff numeral_eq_Suc)
  have step: "decode_sextets vs = Some ns \<longleftrightarrow>
      x = a * 4 + b div 16 \<and> y = b mod 16 * 16 + c div 4 \<and> z = c mod 4 * 64 + d \<and> decode_sextets vs' = Some ns'"
    unfolding vs(1) ns(1) by auto
  have "drop (4 * Suc k) (a # b # c # d # vs') = drop (4 * k) (drop 4 (a # b # c # d # vs'))"
    by (simp only: drop_drop) (simp add: add.commute)
  then have dv: "drop (4 * Suc k) (a # b # c # d # vs') = drop (4 * k) vs'"
    by simp
  show ?case
    unfolding step Suc.IH [OF vs(2) ns(2)] All_less_Suc2
    by (simp add: vs(1) ns(1) dv [simplified] numeral_2_eq_2 numeral_3_eq_3 conj_assoc)
qed

lemma decode_sextets_decoded_len:
  "decode_sextets vs = Some ns \<Longrightarrow> base64_decoded_len (length vs) = Inr (length ns)"
proof (induction vs arbitrary: ns rule: decode_sextets.induct)
  case (5 v0 v1 v2 v3 vs)
  then obtain ns' where "decode_sextets vs = Some ns'" "length ns = 3 + length ns'" by auto
  moreover have "length (v0 # v1 # v2 # v3 # vs) div 4 = 1 + length vs div 4"
    "length (v0 # v1 # v2 # v3 # vs) mod 4 = length vs mod 4" by simp_all
  ultimately show ?case
    using "5.IH" unfolding base64_decoded_len_def Let_def by (auto split: if_splits)
qed (auto simp: base64_decoded_len_def split: if_splits)

lemma base64_decoded_len_Inr:
  "base64_decoded_len n = Inr m \<longleftrightarrow>
     n mod 4 = 0 \<and> m = n div 4 * 3 \<or> n mod 4 = 2 \<and> m = n div 4 * 3 + 1 \<or> n mod 4 = 3 \<and> m = n div 4 * 3 + 2"
  by (auto simp: base64_decoded_len_def Let_def)

lemma random_access_table:
  "random_access v base64_table x \<longleftrightarrow> canon v < 64 \<and> x = byte_gf (BASE64URL_ALPHABET ! canon v)"
proof -
  have "next_power_of_two 64 = 64"
    by (simp add: next_power_of_two.simps)
  moreover have "length base64_table = 64"
    by (simp add: base64_table_def)
  moreover have "k < 64 \<Longrightarrow> base64_table ! k = byte_gf (BASE64URL_ALPHABET ! k)" for k
    by (simp add: base64_table_def)
  ultimately show ?thesis
    by (auto simp: random_access_def Let_def)
qed

text \<open>The remainder of the reference decoder, for a list whose full groups were dropped.\<close>

lemma decode_sextets_rest:
  assumes "length vs = 4 * k + r" "r < 4" "base64_decoded_len (length vs) = Inr (length ns)"
  shows "decode_sextets (drop (4 * k) vs) = Some (drop (3 * k) ns) \<longleftrightarrow>
    (r = 2 \<longrightarrow> ns ! (3 * k) = vs ! (4 * k) * 4 + vs ! (4 * k + 1) div 16 \<and> vs ! (4 * k + 1) mod 16 = 0)
    \<and> (r = 3 \<longrightarrow> ns ! (3 * k) = vs ! (4 * k) * 4 + vs ! (4 * k + 1) div 16
         \<and> ns ! (3 * k + 1) = vs ! (4 * k + 1) mod 16 * 16 + vs ! (4 * k + 2) div 4
         \<and> vs ! (4 * k + 2) mod 4 = 0)"
proof -
  have k: "length vs div 4 = k" "length vs mod 4 = r" using assms(1,2) by simp_all
  consider "r = 0" "length ns = 3 * k" | "r = 2" "length ns = 3 * k + 1" | "r = 3" "length ns = 3 * k + 2"
    using assms(3) unfolding base64_decoded_len_Inr k by auto
  then show ?thesis
  proof cases
    case 1
    then show ?thesis using assms(1) by simp
  next
    case 2
    then have "drop (4 * k) vs = [vs ! (4 * k), vs ! (4 * k + 1)]" "drop (3 * k) ns = [ns ! (3 * k)]"
      using assms(1) by (auto simp: list_eq_iff_nth_eq nth_Cons less_Suc_eq split: nat.splits)
    then show ?thesis using 2 by auto
  next
    case 3
    then have "drop (4 * k) vs = [vs ! (4 * k), vs ! (4 * k + 1), vs ! (4 * k + 2)]"
        "drop (3 * k) ns = [ns ! (3 * k), ns ! (3 * k + 1)]"
      using assms(1) by (auto simp: list_eq_iff_nth_eq nth_Cons less_Suc_eq numeral_2_eq_2 numeral_3_eq_3 split: nat.splits)
    then show ?thesis using 3 by auto
  qed
qed

lemma of_nat_256_eq: "m < 256 \<Longrightarrow> n < 65536 \<Longrightarrow> (of_nat m :: gf) = of_nat n \<longleftrightarrow> m = n"
  by (rule of_nat_gf_inject) simp_all

lemma base64_assignment_sel [simp]:
  "input_ascii (base64_assignment vs ns) = map (\<lambda>v. byte_gf (BASE64URL_ALPHABET ! v)) vs"
  "decoded_bytes (base64_assignment vs ns) = map of_nat ns"
  "sixbit_values (base64_assignment vs ns) = map of_nat vs"
  by (simp_all add: base64_assignment_def Let_def)

lemma sextet_bounds:
  fixes w0 w1 :: nat
  assumes "w0 < 64" "w1 < 64"
  shows "w0 * 4 + w1 div 16 < 256" "w0 mod 16 * 16 + w1 div 4 < 256" "w0 mod 4 * 64 + w1 < 256"
proof -
  have "w1 div 16 \<le> 3" "w1 div 4 \<le> 15" using assms(2) by simp_all
  moreover have "w0 mod 16 \<le> 15" "w0 mod 4 \<le> 3" by (simp_all add: less_Suc_eq_le [symmetric])
  ultimately show "w0 * 4 + w1 div 16 < 256" "w0 mod 16 * 16 + w1 div 4 < 256" "w0 mod 4 * 64 + w1 < 256"
    using assms by linarith+
qed

text \<open>The constraint system on given sextets and bytes, part by part.\<close>

lemma input_on_values:
  assumes "length vs = n" "length xs = n" "\<forall>v \<in> set vs. v < 64"
  shows "list_all (\<lambda>i. range_check (map of_nat vs ! i) 6 \<and> random_access (map of_nat vs ! i) base64_table (xs ! i)) [0..<n]
    \<longleftrightarrow> xs = map (\<lambda>v. byte_gf (BASE64URL_ALPHABET ! v)) vs"
proof -
  have "range_check (map of_nat vs ! i) 6 \<and> random_access (map of_nat vs ! i) base64_table (xs ! i)
      \<longleftrightarrow> xs ! i = byte_gf (BASE64URL_ALPHABET ! (vs ! i))" if "i < n" for i
    using that assms(1,3) less_trans [of "vs ! i" 64 goldilocks_order]
    by (simp add: range_check_def random_access_table)
  then show ?thesis
    using assms(1,2) by (auto simp: list_all_iff list_eq_iff_nth_eq [of xs])
qed

lemma group_on_values:
  assumes vs: "length vs = n" "\<forall>v \<in> set vs. v < 64" and g: "g < n div 4"
    and ns: "g * 3 + 2 < length ns" "\<forall>b \<in> set ns. b < goldilocks_order"
  shows "full_group_constraints (map of_nat vs ! (g * 4)) (map of_nat vs ! (g * 4 + 1)) (map of_nat vs ! (g * 4 + 2)) (map of_nat vs ! (g * 4 + 3))
      (map of_nat ns ! (g * 3)) (map of_nat ns ! (g * 3 + 1)) (map of_nat ns ! (g * 3 + 2)) s \<longleftrightarrow>
    s = split_of (vs ! (g * 4 + 1)) (vs ! (g * 4 + 2))
    \<and> ns ! (g * 3) = vs ! (g * 4) * 4 + vs ! (g * 4 + 1) div 16
    \<and> ns ! (g * 3 + 1) = vs ! (g * 4 + 1) mod 16 * 16 + vs ! (g * 4 + 2) div 4
    \<and> ns ! (g * 3 + 2) = vs ! (g * 4 + 2) mod 4 * 64 + vs ! (g * 4 + 3)"
proof -
  have idx: "g * 4 + 3 < length vs" using g vs(1) by simp
  have lt: "i < length vs \<Longrightarrow> vs ! i < 64" for i using vs(2) by simp
  have eq: "i < length ns \<Longrightarrow> m < 256 \<Longrightarrow> (of_nat (ns ! i) :: gf) = of_nat m \<longleftrightarrow> ns ! i = m" for i m
    using ns(2) by (intro of_nat_gf_inject) simp_all
  have b: "vs ! (g * 4) < 64" "vs ! (g * 4 + 1) < 64" "vs ! (g * 4 + 2) < 64" "vs ! (g * 4 + 3) < 64"
    using idx by (simp_all add: lt)
  have m: "map of_nat vs ! (g * 4) = of_nat (vs ! (g * 4))" "map of_nat vs ! (g * 4 + 1) = of_nat (vs ! (g * 4 + 1))"
    "map of_nat vs ! (g * 4 + 2) = of_nat (vs ! (g * 4 + 2))" "map of_nat vs ! (g * 4 + 3) = of_nat (vs ! (g * 4 + 3))"
    "map of_nat ns ! (g * 3) = of_nat (ns ! (g * 3))" "map of_nat ns ! (g * 3 + 1) = of_nat (ns ! (g * 3 + 1))"
    "map of_nat ns ! (g * 3 + 2) = of_nat (ns ! (g * 3 + 2))"
    using idx ns(1) by simp_all
  have e: "(of_nat (ns ! (g * 3)) :: gf) = of_nat m \<longleftrightarrow> ns ! (g * 3) = m"
    "(of_nat (ns ! (g * 3 + 1)) :: gf) = of_nat m \<longleftrightarrow> ns ! (g * 3 + 1) = m"
    "(of_nat (ns ! (g * 3 + 2)) :: gf) = of_nat m \<longleftrightarrow> ns ! (g * 3 + 2) = m" if "m < 256" for m
    using ns(1) that by (simp_all only: eq)
  show ?thesis
    unfolding m full_group_iff [OF b(2,3)]
    by (simp only: e sextet_bounds b)
qed

lemma remainder2_on_values:
  assumes vs: "length vs = n" "\<forall>v \<in> set vs. v < 64" and k: "k * 4 + 1 < n"
    and ns: "k * 3 < length ns" "\<forall>b \<in> set ns. b < goldilocks_order"
  shows "remainder2_constraints (map of_nat vs ! (k * 4)) (map of_nat vs ! (k * 4 + 1)) (map of_nat ns ! (k * 3)) s \<longleftrightarrow>
    s = split2_of (vs ! (k * 4 + 1))
    \<and> ns ! (k * 3) = vs ! (k * 4) * 4 + vs ! (k * 4 + 1) div 16 \<and> vs ! (k * 4 + 1) mod 16 = 0"
proof -
  have lt: "i < length vs \<Longrightarrow> vs ! i < 64" for i using vs(2) by simp
  have b: "vs ! (k * 4) < 64" "vs ! (k * 4 + 1) < 64" using k vs(1) by (simp_all add: lt)
  have m: "map of_nat vs ! (k * 4) = of_nat (vs ! (k * 4))" "map of_nat vs ! (k * 4 + 1) = of_nat (vs ! (k * 4 + 1))"
    "map of_nat ns ! (k * 3) = of_nat (ns ! (k * 3))"
    using k vs(1) ns(1) by simp_all
  have e: "(of_nat (ns ! (k * 3)) :: gf) = of_nat m \<longleftrightarrow> ns ! (k * 3) = m" if "m < 256" for m
    using ns that by (intro of_nat_gf_inject) simp_all
  show ?thesis
    unfolding m remainder2_iff [OF b(2)] by (simp only: e sextet_bounds b)
qed

lemma remainder3_on_values:
  assumes vs: "length vs = n" "\<forall>v \<in> set vs. v < 64" and k: "k * 4 + 2 < n"
    and ns: "k * 3 + 1 < length ns" "\<forall>b \<in> set ns. b < goldilocks_order"
  shows "remainder3_constraints (map of_nat vs ! (k * 4)) (map of_nat vs ! (k * 4 + 1)) (map of_nat vs ! (k * 4 + 2))
      (map of_nat ns ! (k * 3)) (map of_nat ns ! (k * 3 + 1)) s \<longleftrightarrow>
    s = split_of (vs ! (k * 4 + 1)) (vs ! (k * 4 + 2))
    \<and> ns ! (k * 3) = vs ! (k * 4) * 4 + vs ! (k * 4 + 1) div 16
    \<and> ns ! (k * 3 + 1) = vs ! (k * 4 + 1) mod 16 * 16 + vs ! (k * 4 + 2) div 4 \<and> vs ! (k * 4 + 2) mod 4 = 0"
proof -
  have lt: "i < length vs \<Longrightarrow> vs ! i < 64" for i using vs(2) by simp
  have b: "vs ! (k * 4) < 64" "vs ! (k * 4 + 1) < 64" "vs ! (k * 4 + 2) < 64"
    using k vs(1) by (simp_all add: lt)
  have m: "map of_nat vs ! (k * 4) = of_nat (vs ! (k * 4))" "map of_nat vs ! (k * 4 + 1) = of_nat (vs ! (k * 4 + 1))"
    "map of_nat vs ! (k * 4 + 2) = of_nat (vs ! (k * 4 + 2))"
    "map of_nat ns ! (k * 3) = of_nat (ns ! (k * 3))" "map of_nat ns ! (k * 3 + 1) = of_nat (ns ! (k * 3 + 1))"
    using k vs(1) ns(1) by simp_all
  have e: "(of_nat (ns ! (k * 3)) :: gf) = of_nat m \<longleftrightarrow> ns ! (k * 3) = m"
    "(of_nat (ns ! (k * 3 + 1)) :: gf) = of_nat m \<longleftrightarrow> ns ! (k * 3 + 1) = m" if "m < 256" for m
    using ns that by (intro of_nat_gf_inject; simp)+
  show ?thesis
    unfolding m remainder3_iff [OF b(2,3)] by (simp only: e sextet_bounds b)
qed

lemma groups_on_values:
  assumes vs: "length vs = n" "\<forall>v \<in> set vs. v < 64"
    and ns: "n div 4 * 3 \<le> length ns" "\<forall>b \<in> set ns. b < goldilocks_order"
    and gs: "length gs = n div 4"
  shows "list_all (\<lambda>g. full_group_constraints (map of_nat vs ! (g * 4)) (map of_nat vs ! (g * 4 + 1)) (map of_nat vs ! (g * 4 + 2)) (map of_nat vs ! (g * 4 + 3))
      (map of_nat ns ! (g * 3)) (map of_nat ns ! (g * 3 + 1)) (map of_nat ns ! (g * 3 + 2)) (gs ! g)) [0..<n div 4] \<longleftrightarrow>
    gs = map (\<lambda>g. split_of (vs ! (g * 4 + 1)) (vs ! (g * 4 + 2))) [0..<n div 4]
    \<and> (\<forall>g < n div 4. ns ! (g * 3) = vs ! (g * 4) * 4 + vs ! (g * 4 + 1) div 16
           \<and> ns ! (g * 3 + 1) = vs ! (g * 4 + 1) mod 16 * 16 + vs ! (g * 4 + 2) div 4
           \<and> ns ! (g * 3 + 2) = vs ! (g * 4 + 2) mod 4 * 64 + vs ! (g * 4 + 3))"
proof -
  have bound: "g * 3 + 2 < length ns" if "g < n div 4" for g using that ns(1) by linarith
  have "gs = map (\<lambda>g. split_of (vs ! (g * 4 + 1)) (vs ! (g * 4 + 2))) [0..<n div 4]
      \<longleftrightarrow> (\<forall>g < n div 4. gs ! g = split_of (vs ! (g * 4 + 1)) (vs ! (g * 4 + 2)))"
    using gs by (auto simp: list_eq_iff_nth_eq [of gs])
  moreover have "list_all P [0..<m] \<longleftrightarrow> (\<forall>g < m. P g)" for P m
    by (auto simp: list_all_iff)
  ultimately show ?thesis
    using group_on_values [OF vs _ bound ns(2)] by auto
qed

lemma circuit_on_values:
  assumes vs: "length vs = n" "\<forall>v \<in> set vs. v < 64"
    and ns: "base64_decoded_len n = Inr (length ns)" "\<forall>b \<in> set ns. b < goldilocks_order"
    and t: "sixbit_values t = map of_nat vs" "decoded_bytes t = map of_nat ns"
  shows "make_base64url_decode_circuit n t \<longleftrightarrow>
    0 < n \<and> decode_sextets vs = Some ns \<and> t = base64_assignment vs ns"
proof (cases "length (input_ascii t) = n \<and> length (group_splits t) = n div 4")
  case True
  let ?k = "n div 4" and ?r = "n mod 4"
  have n: "length vs = 4 * ?k + ?r" "4 * ?k \<le> length vs" using vs(1) by simp_all
  have k: "?k * 3 \<le> length ns" "3 * ?k \<le> length ns"
    using ns(1) by (auto simp: base64_decoded_len_Inr)
  have r2: "?r = 2 \<Longrightarrow> ?k * 4 + 1 < n \<and> ?k * 3 < length ns"
    using ns(1) div_mult_mod_eq [of n 4] unfolding base64_decoded_len_Inr by linarith
  have r3: "?r = 3 \<Longrightarrow> ?k * 4 + 2 < n \<and> ?k * 3 + 1 < length ns"
    using ns(1) div_mult_mod_eq [of n 4] unfolding base64_decoded_len_Inr by linarith
  have rem2: "(case remainder2_splits t of None \<Rightarrow> ?r \<noteq> 2
      | Some s \<Rightarrow> ?r = 2 \<and> remainder2_constraints (map of_nat vs ! (?k * 4)) (map of_nat vs ! (?k * 4 + 1)) (map of_nat ns ! (?k * 3)) s)
    \<longleftrightarrow> remainder2_splits t = (if ?r = 2 then Some (split2_of (vs ! (?k * 4 + 1))) else None)
      \<and> (?r = 2 \<longrightarrow> ns ! (3 * ?k) = vs ! (4 * ?k) * 4 + vs ! (4 * ?k + 1) div 16 \<and> vs ! (4 * ?k + 1) mod 16 = 0)"
    using r2 remainder2_on_values [OF vs _ _ ns(2), of ?k]
    by (cases "remainder2_splits t"; cases "?r = 2") (simp_all add: mult.commute)
  have rem3: "(case remainder3_splits t of None \<Rightarrow> ?r \<noteq> 3
      | Some s \<Rightarrow> ?r = 3 \<and> remainder3_constraints (map of_nat vs ! (?k * 4)) (map of_nat vs ! (?k * 4 + 1)) (map of_nat vs ! (?k * 4 + 2))
          (map of_nat ns ! (?k * 3)) (map of_nat ns ! (?k * 3 + 1)) s)
    \<longleftrightarrow> remainder3_splits t = (if ?r = 3 then Some (split_of (vs ! (?k * 4 + 1)) (vs ! (?k * 4 + 2))) else None)
      \<and> (?r = 3 \<longrightarrow> ns ! (3 * ?k) = vs ! (4 * ?k) * 4 + vs ! (4 * ?k + 1) div 16
           \<and> ns ! (3 * ?k + 1) = vs ! (4 * ?k + 1) mod 16 * 16 + vs ! (4 * ?k + 2) div 4 \<and> vs ! (4 * ?k + 2) mod 4 = 0)"
    using r3 remainder3_on_values [OF vs _ _ ns(2), of ?k]
    by (cases "remainder3_splits t"; cases "?r = 3") (simp_all add: mult.commute)
  have asg: "t = base64_assignment vs ns \<longleftrightarrow>
      input_ascii t = map (\<lambda>v. byte_gf (BASE64URL_ALPHABET ! v)) vs
      \<and> group_splits t = map (\<lambda>g. split_of (vs ! (g * 4 + 1)) (vs ! (g * 4 + 2))) [0..<?k]
      \<and> remainder2_splits t = (if ?r = 2 then Some (split2_of (vs ! (?k * 4 + 1))) else None)
      \<and> remainder3_splits t = (if ?r = 3 then Some (split_of (vs ! (?k * 4 + 1)) (vs ! (?k * 4 + 2))) else None)"
    using t vs(1) by (cases t) (auto simp: base64_assignment_def Let_def)
  have dec: "decode_sextets vs = Some ns \<longleftrightarrow>
    (\<forall>g < ?k. ns ! (g * 3) = vs ! (g * 4) * 4 + vs ! (g * 4 + 1) div 16
           \<and> ns ! (g * 3 + 1) = vs ! (g * 4 + 1) mod 16 * 16 + vs ! (g * 4 + 2) div 4
           \<and> ns ! (g * 3 + 2) = vs ! (g * 4 + 2) mod 4 * 64 + vs ! (g * 4 + 3))
    \<and> (?r = 2 \<longrightarrow> ns ! (3 * ?k) = vs ! (4 * ?k) * 4 + vs ! (4 * ?k + 1) div 16 \<and> vs ! (4 * ?k + 1) mod 16 = 0)
    \<and> (?r = 3 \<longrightarrow> ns ! (3 * ?k) = vs ! (4 * ?k) * 4 + vs ! (4 * ?k + 1) div 16
         \<and> ns ! (3 * ?k + 1) = vs ! (4 * ?k + 1) mod 16 * 16 + vs ! (4 * ?k + 2) div 4
         \<and> vs ! (4 * ?k + 2) mod 4 = 0)"
    unfolding decode_sextets_groups [OF n(2) k(2)]
    by (subst decode_sextets_rest [OF n(1)]) (simp_all add: vs(1) ns(1))
  have lens: "base64_decoded_len n = Inr (length (decoded_bytes t))" "length (sixbit_values t) = n"
    using ns(1) vs(1) t by simp_all
  show ?thesis
    unfolding make_base64url_decode_circuit_def Let_def asg dec
    using True lens input_on_values [OF vs(1) _ vs(2), of "input_ascii t"]
      groups_on_values [OF vs k(1) ns(2), of "group_splits t"]
    unfolding t rem2 rem3 by blast
next
  case False
  then have "\<not> make_base64url_decode_circuit n t"
    by (auto simp: make_base64url_decode_circuit_def Let_def)
  moreover have "t \<noteq> base64_assignment vs ns"
    using False vs(1) by (auto simp: base64_assignment_def Let_def)
  ultimately show ?thesis by blast
qed

lemma circuit_iff_assignment:
  "make_base64url_decode_circuit n t \<longleftrightarrow>
    0 < n \<and> (\<exists>vs ns. length vs = n \<and> (\<forall>v \<in> set vs. v < 64) \<and> decode_sextets vs = Some ns \<and> t = base64_assignment vs ns)"
proof
  assume m: "make_base64url_decode_circuit n t"
  let ?vs = "map canon (sixbit_values t)" and ?ns = "map canon (decoded_bytes t)"
  have len: "length ?vs = n" using m by (simp add: make_base64url_decode_circuit_def)
  moreover have less: "\<forall>v \<in> set ?vs. v < 64"
    using m by (auto simp: make_base64url_decode_circuit_def Let_def list_all_iff in_set_conv_nth range_check_def)
  moreover have "base64_decoded_len n = Inr (length ?ns)" "\<forall>b \<in> set ?ns. b < goldilocks_order"
    using m by (auto simp: make_base64url_decode_circuit_def)
  moreover have "sixbit_values t = map of_nat ?vs" "decoded_bytes t = map of_nat ?ns"
    by (simp_all add: comp_def)
  ultimately show "0 < n \<and> (\<exists>vs ns. length vs = n \<and> (\<forall>v \<in> set vs. v < 64) \<and> decode_sextets vs = Some ns \<and> t = base64_assignment vs ns)"
    using circuit_on_values [of ?vs n ?ns t] m by blast
next
  assume "0 < n \<and> (\<exists>vs ns. length vs = n \<and> (\<forall>v \<in> set vs. v < 64) \<and> decode_sextets vs = Some ns \<and> t = base64_assignment vs ns)"
  then obtain vs ns where v: "0 < n" "length vs = n" "\<forall>v \<in> set vs. v < 64" "decode_sextets vs = Some ns" "t = base64_assignment vs ns"
    by blast
  have "\<forall>b \<in> set ns. b < goldilocks_order"
    using decode_sextets_less [OF v(3,4)] by fastforce
  then show "make_base64url_decode_circuit n t"
    using circuit_on_values [of vs n ns t] decode_sextets_decoded_len [OF v(4)] v by simp
qed

lemma fill_iff_assignment:
  "fill_base64url_decode_witness n cs bs = Inr t \<longleftrightarrow>
    length cs = n \<and> base64_decoded_len n = Inr (length bs) \<and>
    (\<exists>vs. sextets cs = Some vs \<and> t = base64_assignment vs (map unat bs))"
proof (cases "sextets cs")
  case None
  have "map_res base64url_char_to_value cs \<noteq> Inr ws" for ws
    using None by (induction cs arbitrary: ws) (auto split: sum.splits)
  then show ?thesis using None by (auto simp: fill_base64url_decode_witness_def)
next
  case (Some vs)
  then have lt: "\<forall>v \<in> set vs. v < 64" and cs: "cs = map (\<lambda>v. BASE64URL_ALPHABET ! v) vs"
    by (simp_all add: sextets_Some_iff)
  have vals: "map_res base64url_char_to_value cs = Inr (map of_nat vs)"
    using lt by (auto simp: map_res_Inr_iff cs char_to_value_alphabet)
  have nth: "i < length vs \<Longrightarrow> unat (map of_nat vs ! i :: u8) = vs ! i" for i
    using lt nth_mem [of i vs] less_trans [of "vs ! i" 64 256] by (simp add: unat_of_nat)
  have six: "map (\<lambda>v. byte_gf (of_nat v)) vs = map of_nat vs"
    using lt by (auto simp: byte_gf_def unat_of_nat simp del: of_nat_unat)
  have mask: "n AND 15 = n mod 16" "n AND 3 = n mod 4" for n :: nat
    using take_bit_eq_mask [of 4 n] take_bit_eq_mask [of 2 n]
    by (simp_all add: take_bit_eq_mod mask_eq_exp_minus_1)
  have out: "map byte_gf bs = map of_nat (map unat bs)"
    by (simp add: byte_gf_def comp_def del: of_nat_unat)
  show ?thesis
  proof (cases "length cs = n \<and> base64_decoded_len n = Inr (length bs)")
    case True
    let ?k = "n div 4"
    let ?val = "\<lambda>i. unat (map of_nat vs ! i :: u8)"
    let ?split = "\<lambda>g. \<lparr>v1_hi2 = of_nat (drop_bit 4 (?val (g * 4 + 1))), v1_lo4 = of_nat (?val (g * 4 + 1) AND 15),
        v2_hi4 = of_nat (drop_bit 2 (?val (g * 4 + 2))), v2_lo2 = of_nat (?val (g * 4 + 2) AND 3)\<rparr>"
    have len: "length vs = n" using True cs by simp
    have split: "?split g = split_of (vs ! (g * 4 + 1)) (vs ! (g * 4 + 2))" if "g * 4 + 2 < n" for g
    proof -
      have "?val (g * 4 + 1) = vs ! (g * 4 + 1)" "?val (g * 4 + 2) = vs ! (g * 4 + 2)"
        using that len by (simp_all only: nth)
      then show ?thesis
        by (simp only: split_of_def drop_bit_eq_div mask) simp
    qed
    have groups: "map ?split [0..<?k] = map (\<lambda>g. split_of (vs ! (g * 4 + 1)) (vs ! (g * 4 + 2))) [0..<?k]"
    proof (rule map_cong [OF refl])
      fix g assume "g \<in> set [0..<?k]"
      then have "g * 4 + 2 < n" by auto
      then show "?split g = split_of (vs ! (g * 4 + 1)) (vs ! (g * 4 + 2))" by (rule split)
    qed
    have rem3: "n mod 4 = 3 \<Longrightarrow> ?split ?k = split_of (vs ! (?k * 4 + 1)) (vs ! (?k * 4 + 2))"
      using div_mult_mod_eq [of n 4] by (intro split) linarith
    have rem2: "\<lparr>r2_v1_hi2 = of_nat (drop_bit 4 (?val (?k * 4 + 1))), r2_v1_lo4 = of_nat (?val (?k * 4 + 1) AND 15)\<rparr>
        = split2_of (vs ! (?k * 4 + 1))" if "n mod 4 = 2"
    proof -
      have "?k * 4 + 1 < length vs" using that div_mult_mod_eq [of n 4] len by linarith
      then show ?thesis
        by (simp only: split2_of_def drop_bit_eq_div mask nth) simp
    qed
    have "fill_base64url_decode_witness n cs bs = Inr (base64_assignment vs (map unat bs))"
      using True rem2 rem3
      unfolding fill_base64url_decode_witness_def vals bind_res_simps Let_def base64_assignment_def
      by (simp only: bind_res_simps ensure_simps vals len six out groups cs length_map simp_thms map_map comp_def cong: if_cong)
    then show ?thesis using True Some by auto
  next
    case False
    then show ?thesis by (auto simp: fill_base64url_decode_witness_def)
  qed
qed

text \<open>The two characterisations meet: a filled assignment is a satisfying one, and conversely.\<close>

lemma base64_circuit_iff:
  "make_base64url_decode_circuit n t \<longleftrightarrow>
    0 < n \<and> (\<exists>cs bs. length cs = n \<and> rfc_decode cs = Some bs \<and> fill_base64url_decode_witness n cs bs = Inr t)"
proof
  assume "make_base64url_decode_circuit n t"
  then obtain vs ns where v: "0 < n" "length vs = n" "\<forall>v \<in> set vs. v < 64" "decode_sextets vs = Some ns"
      "t = base64_assignment vs ns"
    unfolding circuit_iff_assignment by blast
  let ?cs = "map (\<lambda>v. BASE64URL_ALPHABET ! v) vs" and ?bs = "map of_nat ns :: bytes"
  have six: "sextets ?cs = Some vs" using v(3) by (simp add: sextets_Some_iff)
  have ns: "map unat ?bs = ns"
    using decode_sextets_less [OF v(3,4)] by (auto simp: list_eq_iff_nth_eq unat_of_nat)
  have "rfc_decode ?cs = Some ?bs" using v(4) six by (simp add: rfc_decode_def)
  moreover have "fill_base64url_decode_witness n ?cs ?bs = Inr t"
    using v six ns decode_sextets_decoded_len [OF v(4)] by (simp add: fill_iff_assignment)
  ultimately show "0 < n \<and> (\<exists>cs bs. length cs = n \<and> rfc_decode cs = Some bs \<and> fill_base64url_decode_witness n cs bs = Inr t)"
    using v(1,2) by (metis length_map)
next
  assume "0 < n \<and> (\<exists>cs bs. length cs = n \<and> rfc_decode cs = Some bs \<and> fill_base64url_decode_witness n cs bs = Inr t)"
  then obtain cs bs vs where *: "0 < n" "length cs = n" "rfc_decode cs = Some bs" "sextets cs = Some vs"
      "t = base64_assignment vs (map unat bs)"
    unfolding fill_iff_assignment by blast
  then obtain ns where ns: "decode_sextets vs = Some ns" "bs = map of_nat ns"
    by (auto simp: rfc_decode_def)
  have lt: "\<forall>v \<in> set vs. v < 64" "length vs = n" using *(2,4) by (auto simp: sextets_Some_iff)
  have "map unat bs = ns"
    using decode_sextets_less [OF lt(1) ns(1)] unfolding ns(2) by (auto simp: list_eq_iff_nth_eq unat_of_nat)
  then show "make_base64url_decode_circuit n t"
    unfolding circuit_iff_assignment using * lt ns(1) by blast
qed

lemma base64_circuit_decodes:
  assumes "make_base64url_decode_circuit n t"
  obtains cs bs where "length cs = n" "rfc_decode cs = Some bs"
    "input_ascii t = map byte_gf cs" "decoded_bytes t = map byte_gf bs"
proof -
  obtain cs bs where *: "length cs = n" "rfc_decode cs = Some bs" "fill_base64url_decode_witness n cs bs = Inr t"
    using assms unfolding base64_circuit_iff by blast
  have "input_ascii t = map byte_gf cs" "decoded_bytes t = map byte_gf bs"
    using *(3) by (auto simp: fill_base64url_decode_witness_def Let_def)
  with *(1,2) show ?thesis by (rule that)
qed

lemma base64_fill_succeeds:
  assumes "rfc_decode cs = Some bs" "cs \<noteq> []"
  obtains t where "fill_base64url_decode_witness (length cs) cs bs = Inr t"
    "make_base64url_decode_circuit (length cs) t"
proof -
  obtain vs ns where v: "sextets cs = Some vs" "decode_sextets vs = Some ns" "bs = map of_nat ns"
    using assms(1) by (auto simp: rfc_decode_def bind_eq_Some_conv)
  have "length vs = length cs" using v(1) by (simp add: sextets_Some_iff)
  then have "\<exists>t. fill_base64url_decode_witness (length cs) cs bs = Inr t"
    using v decode_sextets_decoded_len [OF v(2)] by (simp add: fill_iff_assignment)
  then obtain t where t: "fill_base64url_decode_witness (length cs) cs bs = Inr t" by blast
  moreover have "make_base64url_decode_circuit (length cs) t"
    unfolding base64_circuit_iff using assms t by auto
  ultimately show ?thesis by (rule that)
qed

end
