(* ===== verification/Crypto_Utils.thy ===== *)
theory Crypto_Utils
  imports Attribute
begin

text \<open>
  \<open>src/utils/crypto.rs\<close> and the parts of \<open>plonky2_ecdsa\<close>'s P-256 fields it uses: big-endian
  byte strings of big integers, left padding, the conversion of a digest to a scalar, and the
  compressed public key.  A field element is its canonical integer, as
  \<open>to_canonical_biguint\<close> returns it; \<open>BigUint\<close> is \<open>nat\<close>.  The hash function of the
  \<open>sha2\<close> crate and the coding of the \<open>hex\<close> crate are parameters.
\<close>

subsection \<open>Big-endian bytes\<close>

definition from_bytes_be :: "bytes \<Rightarrow> nat" where
  "from_bytes_be bs = foldl (\<lambda>acc b. acc * 256 + unat b) 0 bs"

fun digits_be :: "nat \<Rightarrow> bytes" where
  "digits_be n = (if n = 0 then [] else digits_be (n div 256) @ [of_nat (n mod 256)])"

declare digits_be.simps [simp del]

definition to_bytes_be :: "nat \<Rightarrow> bytes" where
  "to_bytes_be n = (if n = 0 then [0] else digits_be n)"

definition pad_be_bytes :: "bytes \<Rightarrow> nat \<Rightarrow> bytes" where
  "pad_be_bytes bs len = (if length bs < len then replicate (len - length bs) 0 @ bs else bs)"

lemma from_bytes_be_append: "from_bytes_be (xs @ ys) = from_bytes_be xs * 256 ^ length ys + from_bytes_be ys"
proof -
  have *: "foldl (\<lambda>acc b. acc * 256 + unat b) a ys = a * 256 ^ length ys + from_bytes_be ys" for a and ys :: bytes
  proof (induction ys rule: rev_induct)
    case (snoc y ys)
    then show ?case by (simp add: from_bytes_be_def algebra_simps)
  qed (simp add: from_bytes_be_def)
  show ?thesis using * [of "from_bytes_be xs"] by (simp add: from_bytes_be_def)
qed

lemma from_bytes_be_simps [simp]: "from_bytes_be [] = 0" "from_bytes_be [b] = unat b"
  by (simp_all add: from_bytes_be_def)

lemma from_bytes_be_less: "from_bytes_be bs < 256 ^ length bs"
proof (induction bs rule: rev_induct)
  case (snoc b bs)
  have "from_bytes_be bs * 256 + unat b < from_bytes_be bs * 256 + 256" by simp
  also have "\<dots> = (from_bytes_be bs + 1) * 256" by simp
  also have "\<dots> \<le> 256 ^ length bs * 256" using snoc by (intro mult_le_mono1) simp
  finally show ?case by (simp add: from_bytes_be_append)
qed simp

lemma from_bytes_be_digits: "from_bytes_be (digits_be n) = n"
proof (induction n rule: digits_be.induct)
  case (1 n)
  then show ?case
    by (subst digits_be.simps) (simp add: from_bytes_be_append unat_of_nat)
qed

lemma from_to_bytes_be: "from_bytes_be (to_bytes_be n) = n"
  by (simp add: to_bytes_be_def from_bytes_be_digits)

lemma length_digits_be: "n < 256 ^ k \<Longrightarrow> length (digits_be n) \<le> k"
proof (induction n arbitrary: k rule: digits_be.induct)
  case (1 n)
  show ?case
  proof (cases "n = 0")
    case False
    then obtain m where k: "k = Suc m" using 1 by (cases k) auto
    then have "n div 256 < 256 ^ m" using 1 by (simp add: div_less_iff_less_mult)
    then show ?thesis using False 1 k by (subst digits_be.simps) simp
  qed (simp add: digits_be.simps)
qed

lemma from_bytes_be_zeros: "from_bytes_be (replicate k 0 @ bs) = from_bytes_be bs"
proof -
  have "from_bytes_be (replicate k 0) = 0"
  proof (induction k)
    case (Suc k)
    have "from_bytes_be (replicate (Suc k) 0) = from_bytes_be (replicate k 0 @ [0])"
      by (simp only: replicate_append_same replicate.simps)
    then show ?case using Suc by (simp add: from_bytes_be_append)
  qed simp
  then show ?thesis by (simp add: from_bytes_be_append)
qed

lemma from_pad_be_bytes: "from_bytes_be (pad_be_bytes bs len) = from_bytes_be bs"
  by (simp add: pad_be_bytes_def from_bytes_be_zeros)

lemma length_pad_be_bytes: "length bs \<le> len \<Longrightarrow> length (pad_be_bytes bs len) = len"
  by (simp add: pad_be_bytes_def)

lemma pad_to_bytes_be:
  assumes "n < 256 ^ k" "0 < k"
  shows "length (pad_be_bytes (to_bytes_be n) k) = k" "from_bytes_be (pad_be_bytes (to_bytes_be n) k) = n"
  using assms length_digits_be [of n k]
  by (auto simp: length_pad_be_bytes to_bytes_be_def from_pad_be_bytes from_bytes_be_digits)

lemma from_bytes_be_inject:
  "length xs = length ys \<Longrightarrow> from_bytes_be xs = from_bytes_be ys \<longleftrightarrow> xs = ys"
proof (induction xs arbitrary: ys rule: rev_induct)
  case (snoc x xs)
  then obtain y ys' where ys: "ys = ys' @ [y]" "length xs = length ys'"
    by (metis length_append_singleton length_Suc_conv_rev)
  have "from_bytes_be (xs @ [x]) = from_bytes_be (ys' @ [y]) \<longleftrightarrow>
      from_bytes_be xs * 256 + unat x = from_bytes_be ys' * 256 + unat y"
    by (simp add: from_bytes_be_append)
  also have "\<dots> \<longleftrightarrow> from_bytes_be xs = from_bytes_be ys' \<and> unat x = unat y"
  proof
    assume e: "from_bytes_be xs * 256 + unat x = from_bytes_be ys' * 256 + unat y"
    have "(from_bytes_be xs * 256 + unat x) div 256 = from_bytes_be xs"
      "(from_bytes_be ys' * 256 + unat y) div 256 = from_bytes_be ys'" by simp_all
    with e have "from_bytes_be xs = from_bytes_be ys'" by simp
    with e show "from_bytes_be xs = from_bytes_be ys' \<and> unat x = unat y" by simp
  qed simp
  finally show ?case using snoc.IH [OF ys(2)] ys(1) by (simp add: word_unat_eq_iff)
qed simp

subsection \<open>The P-256 fields\<close>

definition P256_BASE_ORDER :: nat where
  "P256_BASE_ORDER = 0xffffffff00000001000000000000000000000000ffffffffffffffffffffffff"

definition P256_SCALAR_ORDER :: nat where
  "P256_SCALAR_ORDER = 0xffffffff00000000ffffffffffffffffbce6faada7179e84f3b9cac2fc632551"

text \<open>
  \<open>from_noncanonical_biguint\<close> keeps the four 64-bit digits (and panics when there are more);
  \<open>to_canonical_biguint\<close> subtracts the order once.  Equality of field elements is equality of
  the canonical integers, so the composition is what a caller sees.
\<close>

definition to_canonical_biguint :: "nat \<Rightarrow> nat \<Rightarrow> nat" where
  "to_canonical_biguint order raw = (if raw \<ge> order then raw - order else raw)"

definition from_noncanonical_biguint :: "nat \<Rightarrow> nat \<Rightarrow> nat res" where
  "from_noncanonical_biguint order val =
     ensure (val < 2 ^ 256) (Panic ''error converting to u64 array'') (Inr (to_canonical_biguint order val))"

lemma to_canonical_mod: "raw < 2 * order \<Longrightarrow> to_canonical_biguint order raw = raw mod order"
  by (simp add: to_canonical_biguint_def le_mod_geq)

lemma P256_orders:
  "P256_BASE_ORDER < 2 ^ 256" "2 ^ 256 < 2 * P256_BASE_ORDER"
  "P256_SCALAR_ORDER < 2 ^ 256" "2 ^ 256 < 2 * P256_SCALAR_ORDER"
  by (simp_all add: P256_BASE_ORDER_def P256_SCALAR_ORDER_def)

lemma from_noncanonical_mod:
  assumes "2 ^ 256 < 2 * order"
  shows "from_noncanonical_biguint order v = Inr w \<longleftrightarrow> v < 2 ^ 256 \<and> w = v mod order"
  using assms to_canonical_mod [of v order]
  by (auto simp: from_noncanonical_biguint_def simp del: power_numeral)

record affine_point =
  pt_x :: nat
  pt_y :: nat
  pt_zero :: bool

text \<open>The scalar of a digest.\<close>

definition byte_array_to_scalar :: "bytes \<Rightarrow> nat res" where
  "byte_array_to_scalar bs =
     ensure (length bs = 32) (Bail ''Expected 32 bytes for P256Scalar'')
       (from_noncanonical_biguint P256_SCALAR_ORDER (from_bytes_be bs))"

definition hash_to_scalar :: "(bytes \<Rightarrow> bytes) \<Rightarrow> bytes \<Rightarrow> nat res" where
  "hash_to_scalar sha256_digest msg = byte_array_to_scalar (sha256_digest msg)"

lemma byte_array_to_scalar_iff:
  "byte_array_to_scalar bs = Inr w \<longleftrightarrow> length bs = 32 \<and> w = from_bytes_be bs mod P256_SCALAR_ORDER"
proof -
  have "length bs = 32 \<Longrightarrow> from_bytes_be bs < 2 ^ 256"
    using from_bytes_be_less [of bs] by simp
  then show ?thesis
    unfolding byte_array_to_scalar_def ensure_Inr_iff from_noncanonical_mod [OF P256_orders(4)] by blast
qed

text \<open>The compressed SEC1 key: parity prefix and the padded x coordinate.\<close>

definition compressed_pubkey :: "affine_point \<Rightarrow> bytes" where
  "compressed_pubkey pk =
     (let x_bytes = pad_be_bytes (to_bytes_be (pt_x pk)) 32;
          prefix = (if pt_y pk mod 2 = 0 then 0x02 else 0x03)
      in prefix # x_bytes)"

definition compressed_pubkey_hex :: "(bytes \<Rightarrow> bytes) \<Rightarrow> affine_point \<Rightarrow> bytes" where
  "compressed_pubkey_hex hex_encode pk = hex_encode (compressed_pubkey pk)"

lemma compressed_pubkey_inject:
  assumes "pt_x p < 2 ^ 256" "pt_x q < 2 ^ 256" "compressed_pubkey p = compressed_pubkey q"
  shows "pt_x p = pt_x q \<and> even (pt_y p) = even (pt_y q)"
proof -
  have "pad_be_bytes (to_bytes_be (pt_x p)) 32 = pad_be_bytes (to_bytes_be (pt_x q)) 32"
    "even (pt_y p) = even (pt_y q)"
    using assms(3) by (auto simp: compressed_pubkey_def Let_def even_iff_mod_2_eq_zero split: if_splits)
  moreover have "pt_x p < 256 ^ 32" "pt_x q < 256 ^ 32" using assms(1,2) by simp_all
  ultimately show ?thesis
    using pad_to_bytes_be(2) [of "pt_x p" 32] pad_to_bytes_be(2) [of "pt_x q" 32] by (metis zero_less_numeral)
qed

context hex_codec
begin

lemma compressed_hex_length:
  "pt_x pk < 2 ^ 256 \<Longrightarrow> length (compressed_pubkey_hex hex_encode pk) = 66"
  using pad_to_bytes_be(1) [of "pt_x pk" 32]
  by (simp add: compressed_pubkey_hex_def compressed_pubkey_def Let_def hex_encode_length)

end

end
