(* ===== verification/Cnf.thy ===== *)
theory Cnf
  imports Json_Parse Base64 Crypto_Utils
begin

text \<open>
  The confirmation claim: \<open>src/credential/cnf.rs\<close> (building, finding and parsing the block off
  the circuit) and \<open>src/circuits/gadgets/cnf_parse.rs\<close> (the extractor circuit).  The coding of
  the \<open>base64\<close> crate is a parameter of the off-circuit functions.  \<open>base64url_coords_to_pk\<close> builds
  its point with \<open>AffinePoint::nonzero\<close>, whose \<open>debug_assert!\<close> that the point is on the curve is
  not modelled: it is absent from release builds.
\<close>

subsection \<open>The block\<close>

definition CNF_PREFIX :: bytes where
  "CNF_PREFIX = bytes_of_string ''\"cnf\":{\"jwk\":{\"kty\":\"EC\",\"crv\":\"P-256\",\"x\":\"''"

definition CNF_XY_SEPARATOR :: bytes where
  "CNF_XY_SEPARATOR = bytes_of_string ''\",\"y\":\"''"

definition CNF_CLOSING :: bytes where
  "CNF_CLOSING = bytes_of_string ''\"}}''"

definition B64URL_COORD_LEN :: nat where
  "B64URL_COORD_LEN = 43"

definition CNF_BLOCK_LEN :: nat where
  "CNF_BLOCK_LEN = length CNF_PREFIX + B64URL_COORD_LEN + length CNF_XY_SEPARATOR + B64URL_COORD_LEN + length CNF_CLOSING"

lemma cnf_lengths [simp, size_simps]:
  "length CNF_PREFIX = 44" "length CNF_XY_SEPARATOR = 7" "length CNF_CLOSING = 3"
  "B64URL_COORD_LEN = 43" "CNF_BLOCK_LEN = 140"
  by (simp_all add: CNF_PREFIX_def CNF_XY_SEPARATOR_def CNF_CLOSING_def B64URL_COORD_LEN_def CNF_BLOCK_LEN_def)

definition build_cnf_block :: "bytes \<Rightarrow> bytes \<Rightarrow> bytes" where
  "build_cnf_block x_b64 y_b64 = CNF_PREFIX @ x_b64 @ CNF_XY_SEPARATOR @ y_b64 @ CNF_CLOSING"

definition pk_coords_to_base64url :: "(bytes \<Rightarrow> bytes) \<Rightarrow> affine_point \<Rightarrow> bytes \<times> bytes" where
  "pk_coords_to_base64url encode pk =
     (let x_bytes = pad_be_bytes (to_bytes_be (pt_x pk)) 32;
          y_bytes = pad_be_bytes (to_bytes_be (pt_y pk)) 32
      in (base64url_encode encode x_bytes, base64url_encode encode y_bytes))"

definition base64url_coords_to_pk :: "(bytes \<Rightarrow> bytes option) \<Rightarrow> bytes \<Rightarrow> bytes \<Rightarrow> affine_point res" where
  "base64url_coords_to_pk decode x_b64 y_b64 =
     bind_res (base64url_decode decode x_b64) (\<lambda>x_bytes.
     bind_res (base64url_decode decode y_b64) (\<lambda>y_bytes.
     bind_res (from_noncanonical_biguint P256_BASE_ORDER (from_bytes_be x_bytes)) (\<lambda>x.
     bind_res (from_noncanonical_biguint P256_BASE_ORDER (from_bytes_be y_bytes)) (\<lambda>y.
     Inr \<lparr>pt_x = x, pt_y = y, pt_zero = False\<rparr>))))"

definition find_cnf_start :: "bytes \<Rightarrow> nat res" where
  "find_cnf_start json_payload =
     ensure (utf8_valid json_payload) (Bail ''utf8'')
       (case find_sub CNF_PREFIX json_payload of
          None \<Rightarrow> Inl (Bail ''cnf block not found in payload'') | Some i \<Rightarrow> Inr i)"

text \<open>\<open>&s[a..b]\<close>: both ends must lie in the string and on character boundaries.\<close>

definition str_slice :: "bytes \<Rightarrow> nat \<Rightarrow> nat \<Rightarrow> bytes res" where
  "str_slice s a b =
     ensure (a \<le> b \<and> b \<le> length s \<and> (a = length s \<or> \<not> utf8_cont (s ! a)) \<and> (b = length s \<or> \<not> utf8_cont (s ! b)))
       (Panic ''byte index is not a char boundary'') (Inr (take (b - a) (drop a s)))"

definition extract_cnf_coords :: "bytes \<Rightarrow> nat \<Rightarrow> (bytes \<times> bytes) res" where
  "extract_cnf_coords json_payload cnf_start =
     ensure (utf8_valid json_payload) (Bail ''utf8'')
    (let x_start = cnf_start + length CNF_PREFIX;
         x_end = x_start + B64URL_COORD_LEN;
         separator_start = x_end;
         separator_end = separator_start + length CNF_XY_SEPARATOR in
     bind_res (str_slice json_payload separator_start separator_end) (\<lambda>sep.
     ensure (sep = CNF_XY_SEPARATOR) (Bail ''cnf block: expected separator'')
    (let y_start = separator_end;
         y_end = y_start + B64URL_COORD_LEN;
         closing_start = y_end;
         closing_end = closing_start + length CNF_CLOSING in
     bind_res (str_slice json_payload closing_start closing_end) (\<lambda>closing.
     ensure (closing = CNF_CLOSING) (Bail ''cnf block: expected closing'')
    (bind_res (str_slice json_payload x_start x_end) (\<lambda>x.
     bind_res (str_slice json_payload y_start y_end) (\<lambda>y.
     Inr (x, y))))))))"

subsection \<open>Coordinates round trip\<close>

context base64_codec
begin

lemma coords_length:
  assumes "pt_x pk < 2 ^ 256" "pt_y pk < 2 ^ 256"
  shows "length (fst (pk_coords_to_base64url encode pk)) = B64URL_COORD_LEN"
    "length (snd (pk_coords_to_base64url encode pk)) = B64URL_COORD_LEN"
proof -
  have "pt_x pk < 256 ^ 32" "pt_y pk < 256 ^ 32" using assms by simp_all
  then have "length (pad_be_bytes (to_bytes_be (pt_x pk)) 32) = 32" "length (pad_be_bytes (to_bytes_be (pt_y pk)) 32) = 32"
    by (simp_all add: pad_to_bytes_be(1))
  then show "length (fst (pk_coords_to_base64url encode pk)) = B64URL_COORD_LEN"
    "length (snd (pk_coords_to_base64url encode pk)) = B64URL_COORD_LEN"
    by (simp_all add: pk_coords_to_base64url_def Let_def base64url_encode_def encode_length div_ceil_def)
qed

lemma coords_roundtrip:
  assumes "pt_x pk < P256_BASE_ORDER" "pt_y pk < P256_BASE_ORDER" "\<not> pt_zero pk"
  shows "(case pk_coords_to_base64url encode pk of (x, y) \<Rightarrow> base64url_coords_to_pk decode x y) = Inr pk"
proof -
  have lt: "pt_x pk < 256 ^ 32" "pt_y pk < 256 ^ 32" "pt_x pk < 2 ^ 256" "pt_y pk < 2 ^ 256"
    using assms(1,2) by (simp_all add: P256_BASE_ORDER_def)
  have "from_noncanonical_biguint P256_BASE_ORDER (pt_x pk) = Inr (pt_x pk)"
    "from_noncanonical_biguint P256_BASE_ORDER (pt_y pk) = Inr (pt_y pk)"
    using assms(1,2) lt unfolding from_noncanonical_mod [OF P256_orders(2)] by simp_all
  then show ?thesis
    using base64url_roundtrip assms(3) pad_to_bytes_be(2) [OF lt(1)] pad_to_bytes_be(2) [OF lt(2)]
    by (cases pk) (simp add: pk_coords_to_base64url_def Let_def base64url_coords_to_pk_def)
qed

end

subsection \<open>Parsing a built block\<close>

text \<open>The block with coordinates \<open>x\<close> and \<open>y\<close> stands at position \<open>s\<close> of the payload.\<close>

definition cnf_at :: "bytes \<Rightarrow> nat \<Rightarrow> bytes \<Rightarrow> bytes \<Rightarrow> bool" where
  "cnf_at json s x_b64 y_b64 \<longleftrightarrow>
     length x_b64 = B64URL_COORD_LEN \<and> length y_b64 = B64URL_COORD_LEN
   \<and> take CNF_BLOCK_LEN (drop s json) = build_cnf_block x_b64 y_b64"

lemma length_build_cnf_block: "length (build_cnf_block x y) = 54 + length x + length y"
  by (simp add: build_cnf_block_def)

lemma cnf_at_parts:
  assumes "s + CNF_BLOCK_LEN \<le> length js" "length x = 43" "length y = 43"
  shows "cnf_at js s x y \<longleftrightarrow>
    take 44 (drop s js) = CNF_PREFIX \<and> take 43 (drop (s + 44) js) = x \<and> take 7 (drop (s + 87) js) = CNF_XY_SEPARATOR
    \<and> take 43 (drop (s + 94) js) = y \<and> take 3 (drop (s + 137) js) = CNF_CLOSING"
proof -
  have "cnf_at js s x y \<longleftrightarrow> take (length CNF_PREFIX + length (x @ CNF_XY_SEPARATOR @ y @ CNF_CLOSING)) (drop s js)
      = CNF_PREFIX @ x @ CNF_XY_SEPARATOR @ y @ CNF_CLOSING"
    using assms by (simp add: cnf_at_def build_cnf_block_def)
  also have "\<dots> \<longleftrightarrow> take 44 (drop s js) = CNF_PREFIX
      \<and> take (length (x @ CNF_XY_SEPARATOR @ y @ CNF_CLOSING)) (drop (s + 44) js) = x @ CNF_XY_SEPARATOR @ y @ CNF_CLOSING"
    using assms by (subst take_drop_append_iff) simp_all
  also have "take (length (x @ CNF_XY_SEPARATOR @ y @ CNF_CLOSING)) (drop (s + 44) js) = x @ CNF_XY_SEPARATOR @ y @ CNF_CLOSING
      \<longleftrightarrow> take 43 (drop (s + 44) js) = x
      \<and> take (length (CNF_XY_SEPARATOR @ y @ CNF_CLOSING)) (drop (s + 87) js) = CNF_XY_SEPARATOR @ y @ CNF_CLOSING"
    using assms take_drop_append_iff [of "s + 44" x "CNF_XY_SEPARATOR @ y @ CNF_CLOSING" js] by (simp add: add.commute)
  also have "take (length (CNF_XY_SEPARATOR @ y @ CNF_CLOSING)) (drop (s + 87) js) = CNF_XY_SEPARATOR @ y @ CNF_CLOSING
      \<longleftrightarrow> take 7 (drop (s + 87) js) = CNF_XY_SEPARATOR \<and> take (length (y @ CNF_CLOSING)) (drop (s + 94) js) = y @ CNF_CLOSING"
    using assms take_drop_append_iff [of "s + 87" CNF_XY_SEPARATOR "y @ CNF_CLOSING" js] by (simp add: add.commute)
  also have "take (length (y @ CNF_CLOSING)) (drop (s + 94) js) = y @ CNF_CLOSING
      \<longleftrightarrow> take 43 (drop (s + 94) js) = y \<and> take 3 (drop (s + 137) js) = CNF_CLOSING"
    using assms take_drop_append_iff [of "s + 94" y CNF_CLOSING js] by (simp add: add.commute)
  finally show ?thesis .
qed

lemma cnf_ascii: "\<forall>b \<in> set (CNF_PREFIX @ CNF_XY_SEPARATOR @ CNF_CLOSING). b < 0x80"
  by code_simp

text \<open>In a valid string with an ASCII byte before position \<open>i\<close>, position \<open>i\<close> is a boundary.\<close>

lemma boundary_after_ascii:
  assumes "utf8_valid s" "i < length s" "s ! i < 0x80"
  shows "Suc i = length s \<or> \<not> utf8_cont (s ! Suc i)"
proof (cases "Suc i < length s")
  case True
  then have "drop (Suc i) s = s ! Suc i # drop (Suc (Suc i)) s" by (simp add: Cons_nth_drop_Suc)
  then show ?thesis using utf8_valid_drop_ascii [OF assms] utf8_valid_hd by metis
qed (use assms(2) in simp)

lemma boundary_at_ascii: "s ! i < 0x80 \<Longrightarrow> \<not> utf8_cont (s ! i)"
  using utf8_cont_ge by blast

lemma slice_nth: "take m (drop d js) = p \<Longrightarrow> d + m \<le> length js \<Longrightarrow> k < m \<Longrightarrow> js ! (d + k) = p ! k"
  by auto

lemma extract_cnf_coords_at:
  assumes v: "utf8_valid js" and at: "cnf_at js s x y"
  shows "extract_cnf_coords js s = Inr (x, y)"
proof -
  have len: "length x = 43" "length y = 43" using at by (simp_all add: cnf_at_def)
  have "length (take 140 (drop s js)) = 140"
    using at by (simp add: cnf_at_def length_build_cnf_block)
  then have bound: "s + CNF_BLOCK_LEN \<le> length js" by (simp add: min_def split: if_splits)
  have parts: "take 44 (drop s js) = CNF_PREFIX" "take 43 (drop (s + 44) js) = x" "take 7 (drop (s + 87) js) = CNF_XY_SEPARATOR"
    "take 43 (drop (s + 94) js) = y" "take 3 (drop (s + 137) js) = CNF_CLOSING"
    using at unfolding cnf_at_parts [OF bound len] by blast+
  have asc: "p \<in> {CNF_PREFIX, CNF_XY_SEPARATOR, CNF_CLOSING} \<Longrightarrow> k < length p \<Longrightarrow> p ! k < 0x80" for p k
    using cnf_ascii by (auto simp del: cnf_lengths)
  have "js ! (s + 43) < 0x80" "js ! (s + 87) < 0x80" "js ! (s + 93) < 0x80" "js ! (s + 137) < 0x80" "js ! (s + 139) < 0x80"
    using slice_nth [OF parts(1), of 43] slice_nth [OF parts(3), of 0] slice_nth [OF parts(3), of 6]
      slice_nth [OF parts(5), of 0] slice_nth [OF parts(5), of 2] bound
    by (simp_all add: asc add.commute)
  then have "\<not> utf8_cont (js ! (s + 44))" "\<not> utf8_cont (js ! (s + 87))" "\<not> utf8_cont (js ! (s + 94))"
    "\<not> utf8_cont (js ! (s + 137))" "s + 140 = length js \<or> \<not> utf8_cont (js ! (s + 140))"
    using boundary_after_ascii [OF v, of "s + 43"] boundary_after_ascii [OF v, of "s + 93"]
      boundary_after_ascii [OF v, of "s + 139"] bound by (simp_all add: boundary_at_ascii eval_nat_numeral)
  then show ?thesis
    using v bound parts by (simp add: extract_cnf_coords_def Let_def str_slice_def add.commute)
qed

lemma find_cnf_start_prefix:
  "find_cnf_start js = Inr s \<Longrightarrow> take 44 (drop s js) = CNF_PREFIX \<and> (\<forall>i < s. take 44 (drop i js) \<noteq> CNF_PREFIX)"
  using find_sub_Some [of CNF_PREFIX js s] by (auto simp: find_cnf_start_def split: option.splits)

lemma extract_cnf_coords_sound:
  assumes "find_cnf_start js = Inr s" "extract_cnf_coords js s = Inr (x, y)"
  shows "cnf_at js s x y"
proof -
  have len: "s + 140 \<le> length js" "take 7 (drop (s + 87) js) = CNF_XY_SEPARATOR" "take 3 (drop (s + 137) js) = CNF_CLOSING"
    "x = take 43 (drop (s + 44) js)" "y = take 43 (drop (s + 94) js)"
    using assms(2)
    unfolding extract_cnf_coords_def Let_def str_slice_def cnf_lengths ensure_Inr_iff bind_res_Inr_iff
    by (elim exE conjE; simp add: add.assoc)+
  have "s + CNF_BLOCK_LEN \<le> length js" "length x = 43" "length y = 43" using len by simp_all
  then show ?thesis
    using len find_cnf_start_prefix [OF assms(1)] by (simp add: cnf_at_parts)
qed

subsection \<open>The extractor circuit\<close>

definition COORD_U32_LIMBS :: nat where
  "COORD_U32_LIMBS = 8"

definition COORD_BYTES :: nat where
  "COORD_BYTES = 32"

definition CNF_SUBSTRING_LEN :: nat where
  "CNF_SUBSTRING_LEN = div_ceil CNF_BLOCK_LEN 4 * 4"

definition CNF_SLICE_LEN_WITH_PADDING :: nat where
  "CNF_SLICE_LEN_WITH_PADDING = CNF_SUBSTRING_LEN + 4"

lemma cnf_slice_lengths [simp, size_simps]: "CNF_SUBSTRING_LEN = 140" "CNF_SLICE_LEN_WITH_PADDING = 144"
  by (simp_all add: CNF_SUBSTRING_LEN_def CNF_SLICE_LEN_WITH_PADDING_def div_ceil_def)

record cnf_extractor =
  cnf_slice_targets :: packed_array_slice
  cnf_byte_offset :: gf
  cnf_byte_offset_indicator :: "gf list"
  x_limbs :: "gf list"
  y_limbs :: "gf list"
  cnf_substring_bytes_with_padding :: "gf list"
  x_b64 :: base64_decode
  y_b64 :: base64_decode

definition pack_coord_limbs :: "gf list \<Rightarrow> gf list" where
  "pack_coord_limbs decoded =
     map (\<lambda>i. let byte_start = (COORD_U32_LIMBS - 1 - i) * 4 in
              pack_4_bytes_be (decoded ! byte_start) (decoded ! (byte_start + 1)) (decoded ! (byte_start + 2)) (decoded ! (byte_start + 3)))
       [0..<COORD_U32_LIMBS]"

text \<open>The bytes from \<open>start\<close> on are connected to constants.\<close>

definition match_constant :: "gf list \<Rightarrow> nat \<Rightarrow> bytes \<Rightarrow> bool" where
  "match_constant substring_bytes start expected \<longleftrightarrow>
     list_all (\<lambda>j. substring_bytes ! (start + j) = byte_gf (expected ! j)) [0..<length expected]"

definition make_cnf_extractor_circuit :: "nat \<Rightarrow> cnf_extractor \<Rightarrow> bool" where
  "make_cnf_extractor_circuit json_len_bytes t \<longleftrightarrow>
     json_len_bytes mod 4 = 0
   \<and> make_array_slice_circuit_packed_u32 json_len_bytes CNF_SLICE_LEN_WITH_PADDING (cnf_slice_targets t)
   \<and> unpack_words_to_bytes (output_packed (cnf_slice_targets t)) (cnf_substring_bytes_with_padding t)
   \<and> make_one_hot_indicator 4 0 \<lparr>indicator = cnf_byte_offset_indicator t, oh_value = cnf_byte_offset t\<rparr>
   \<and> (let substring_bytes = select_bytes_by_offset (cnf_substring_bytes_with_padding t) (cnf_byte_offset_indicator t) CNF_BLOCK_LEN;
          x_start = length CNF_PREFIX;
          x_end = x_start + B64URL_COORD_LEN;
          sep_start = x_end;
          y_start = sep_start + length CNF_XY_SEPARATOR;
          y_end = y_start + B64URL_COORD_LEN;
          closing_start = y_end in
        match_constant substring_bytes 0 CNF_PREFIX
      \<and> match_constant substring_bytes sep_start CNF_XY_SEPARATOR
      \<and> match_constant substring_bytes closing_start CNF_CLOSING
      \<and> make_base64url_decode_circuit B64URL_COORD_LEN (x_b64 t)
      \<and> make_base64url_decode_circuit B64URL_COORD_LEN (y_b64 t)
      \<and> input_ascii (x_b64 t) = take (x_end - x_start) (drop x_start substring_bytes)
      \<and> input_ascii (y_b64 t) = take (y_end - y_start) (drop y_start substring_bytes)
      \<and> x_limbs t = pack_coord_limbs (decoded_bytes (x_b64 t))
      \<and> y_limbs t = pack_coord_limbs (decoded_bytes (y_b64 t)))"

definition fill_cnf_extractor_witness ::
    "(bytes \<Rightarrow> bytes option) \<Rightarrow> nat \<Rightarrow> bytes \<Rightarrow> nat \<Rightarrow> bytes \<Rightarrow> bytes \<Rightarrow> cnf_extractor res" where
  "fill_cnf_extractor_witness decode json_len_bytes padded_payload cnf_start xb yb =
     bind_res (fill_array_slice_witness_packed_u32 (json_len_bytes div 4) (CNF_SLICE_LEN_WITH_PADDING div 4) padded_payload cnf_start) (\<lambda>slice.
     let byte_offset_val = cnf_start mod 4;
         off_ind = map (\<lambda>i. if i = byte_offset_val then 1 else 0) [0..<4];
         start_word = cnf_start div 4;
         pads = map (\<lambda>byte_idx. let abs_byte = start_word * 4 + byte_idx in
                  byte_gf (if abs_byte < length padded_payload then padded_payload ! abs_byte else 0))
                [0..<CNF_SLICE_LEN_WITH_PADDING] in
     bind_res (base64url_decode decode xb) (\<lambda>x_decoded.
     bind_res (base64url_decode decode yb) (\<lambda>y_decoded.
     bind_res (fill_base64url_decode_witness B64URL_COORD_LEN xb x_decoded) (\<lambda>xt.
     bind_res (fill_base64url_decode_witness B64URL_COORD_LEN yb y_decoded) (\<lambda>yt.
     Inr \<lparr>cnf_slice_targets = slice,
          cnf_byte_offset = of_nat byte_offset_val,
          cnf_byte_offset_indicator = off_ind,
          x_limbs = pack_coord_limbs (decoded_bytes xt),
          y_limbs = pack_coord_limbs (decoded_bytes yt),
          cnf_substring_bytes_with_padding = pads,
          x_b64 = xt,
          y_b64 = yt\<rparr>)))))"

lemma pack_coord_limbs_bytes:
  assumes "length bs = 32"
  shows "pack_coord_limbs (map byte_gf bs) = map of_nat (to_u32_limbs_le (Attribute bs))"
proof -
  have "pack_coord_limbs (map byte_gf bs) = pack_attribute_limbs (map byte_gf bs)"
    unfolding pack_coord_limbs_def pack_attribute_limbs_def Let_def
  proof (rule map_cong)
    fix i assume "i \<in> set [0..<length (map byte_gf bs) div 4]"
    then have "(COORD_U32_LIMBS - 1 - i) * 4 = length (map byte_gf bs) - (i + 1) * 4"
      using assms by (simp add: COORD_U32_LIMBS_def diff_mult_distrib)
    then show "pack_4_bytes_be (map byte_gf bs ! ((COORD_U32_LIMBS - 1 - i) * 4)) (map byte_gf bs ! ((COORD_U32_LIMBS - 1 - i) * 4 + 1))
          (map byte_gf bs ! ((COORD_U32_LIMBS - 1 - i) * 4 + 2)) (map byte_gf bs ! ((COORD_U32_LIMBS - 1 - i) * 4 + 3))
        = pack_4_bytes_be (map byte_gf bs ! (length (map byte_gf bs) - (i + 1) * 4)) (map byte_gf bs ! (length (map byte_gf bs) - (i + 1) * 4 + 1))
          (map byte_gf bs ! (length (map byte_gf bs) - (i + 1) * 4 + 2)) (map byte_gf bs ! (length (map byte_gf bs) - (i + 1) * 4 + 3))"
      by (simp only:)
  qed (simp add: assms COORD_U32_LIMBS_def)
  then show ?thesis by (simp only: pack_attribute_limbs_bytes)
qed

lemma match_constant_bytes:
  assumes "start + length p \<le> length bs"
  shows "match_constant (map byte_gf bs) start p \<longleftrightarrow> take (length p) (drop start bs) = p"
  using assms by (auto simp: match_constant_def list_all_iff list_eq_iff_nth_eq [of _ p])

lemma rfc_decode_43: "rfc_decode cs = Some bs \<Longrightarrow> length cs = 43 \<Longrightarrow> length bs = 32"
proof -
  assume "rfc_decode cs = Some bs" "length cs = 43"
  then have "div_ceil (4 * length bs) 3 = 43" using rfc.decode_length by metis
  then show "length bs = 32" unfolding div_ceil_def by presburger
qed

lemma cnf_parts_of_substring:
  assumes "s + 140 \<le> length js"
  defines "sub \<equiv> take 140 (drop s js)"
  shows "take 43 (drop 44 sub) = take 43 (drop (s + 44) js)" "take 43 (drop 94 sub) = take 43 (drop (s + 94) js)"
    "take 44 (drop 0 sub) = take 44 (drop s js)" "take 7 (drop 87 sub) = take 7 (drop (s + 87) js)"
    "take 3 (drop 137 sub) = take 3 (drop (s + 137) js)"
  by (simp_all add: sub_def drop_take add.commute min_def)

lemma cnf_circuit_sound:
  assumes make: "make_cnf_extractor_circuit (4 * n) t"
    and js: "packed_array (cnf_slice_targets t) = pack_be js" "length js = 4 * n" "n < goldilocks_order"
  obtains s xb yb x y where "cnf_at js s xb yb" "rfc_decode xb = Some x" "rfc_decode yb = Some y"
    "x_limbs t = map of_nat (to_u32_limbs_le (Attribute x))" "y_limbs t = map of_nat (to_u32_limbs_le (Attribute y))"
proof -
  define sb where "sb = select_bytes_by_offset (cnf_substring_bytes_with_padding t) (cnf_byte_offset_indicator t) 140"
  have m: "make_array_slice_circuit_packed_u32 (4 * n) (4 * 35 + 4) (cnf_slice_targets t)"
    "unpack_words_to_bytes (output_packed (cnf_slice_targets t)) (cnf_substring_bytes_with_padding t)"
    "make_one_hot_indicator 4 0 \<lparr>indicator = cnf_byte_offset_indicator t, oh_value = cnf_byte_offset t\<rparr>"
    "match_constant sb 0 CNF_PREFIX" "match_constant sb 87 CNF_XY_SEPARATOR" "match_constant sb 137 CNF_CLOSING"
    "make_base64url_decode_circuit 43 (x_b64 t)" "make_base64url_decode_circuit 43 (y_b64 t)"
    "input_ascii (x_b64 t) = take 43 (drop 44 sb)" "input_ascii (y_b64 t) = take 43 (drop 94 sb)"
    "x_limbs t = pack_coord_limbs (decoded_bytes (x_b64 t))" "y_limbs t = pack_coord_limbs (decoded_bytes (y_b64 t))"
    using make unfolding make_cnf_extractor_circuit_def Let_def by (simp_all add: sb_def)
  obtain s where s: "s + 4 * 35 \<le> 4 * n" "sb = map byte_gf (take 140 (drop s js))"
    using aligned_substring [OF m(1) js(1,2,3) m(2,3), of 140] unfolding sb_def by auto
  have bound: "s + 140 \<le> length js" using s(1) js(2) by simp
  let ?sub = "take 140 (drop s js)"
  have len: "length ?sub = 140" using bound by simp
  note sub = cnf_parts_of_substring [OF bound]
  obtain xb x where x: "length xb = 43" "rfc_decode xb = Some x"
      "input_ascii (x_b64 t) = map byte_gf xb" "decoded_bytes (x_b64 t) = map byte_gf x"
    using base64_circuit_decodes [OF m(7)] by blast
  obtain yb y where y: "length yb = 43" "rfc_decode yb = Some y"
      "input_ascii (y_b64 t) = map byte_gf yb" "decoded_bytes (y_b64 t) = map byte_gf y"
    using base64_circuit_decodes [OF m(8)] by blast
  have inj: "map byte_gf a = map byte_gf b \<longleftrightarrow> a = b" for a b
    by (rule inj_map_eq_map) (simp add: inj_def)
  have "xb = take 43 (drop (s + 44) js)" "yb = take 43 (drop (s + 94) js)"
    using m(9,10) unfolding x(3) y(3) s(2) drop_map take_map inj sub by simp_all
  moreover have "take 44 (drop s js) = CNF_PREFIX" "take 7 (drop (s + 87) js) = CNF_XY_SEPARATOR"
    "take 3 (drop (s + 137) js) = CNF_CLOSING"
    using match_constant_bytes [THEN iffD1, OF _ m(4) [unfolded s(2)]] match_constant_bytes [THEN iffD1, OF _ m(5) [unfolded s(2)]]
      match_constant_bytes [THEN iffD1, OF _ m(6) [unfolded s(2)]] len sub
    by simp_all
  ultimately have "cnf_at js s xb yb"
    using bound x(1) y(1) by (simp add: cnf_at_parts)
  moreover have "x_limbs t = map of_nat (to_u32_limbs_le (Attribute x))"
    "y_limbs t = map of_nat (to_u32_limbs_le (Attribute y))"
    using rfc_decode_43 [OF x(2,1)] rfc_decode_43 [OF y(2,1)]
    unfolding m(11,12) x(4) y(4) by (simp_all add: pack_coord_limbs_bytes)
  ultimately show ?thesis using that x(2) y(2) by blast
qed

text \<open>A block of the payload whose coordinates decode has a witness, which satisfies the circuit.\<close>

lemma rfc_base64url_decode: "rfc_decode cs = Some bs \<Longrightarrow> base64url_decode rfc_decode cs = Inr bs"
  using rfc.base64url_roundtrip [of bs] rfc_encode_decode [of cs bs] by (simp add: base64url_encode_def)

lemma cnf_circuit_complete:
  assumes at: "cnf_at js s xb yb" "rfc_decode xb = Some x" "rfc_decode yb = Some y"
    and js: "length js = 4 * n" "n < goldilocks_order" "s div 4 + 36 \<le> n"
  obtains t where "fill_cnf_extractor_witness rfc_decode (4 * n) js s xb yb = Inr t"
    "make_cnf_extractor_circuit (4 * n) t" "packed_array (cnf_slice_targets t) = pack_be js"
proof -
  have l: "length xb = 43" "length yb = 43" using at(1) by (simp_all add: cnf_at_def)
  obtain st where st: "fill_array_slice_witness_packed_u32 n 36 js s = Inr st"
    using fill_packed_Inr_iff [of 36 n js s] js by auto
  obtain xt where xt: "fill_base64url_decode_witness 43 xb x = Inr xt" "make_base64url_decode_circuit 43 xt"
    using base64_fill_succeeds [OF at(2)] l(1) by (metis list.size(3) zero_neq_numeral)
  obtain yt where yt: "fill_base64url_decode_witness 43 yb y = Inr yt" "make_base64url_decode_circuit 43 yt"
    using base64_fill_succeeds [OF at(3)] l(2) by (metis list.size(3) zero_neq_numeral)
  have ascii: "input_ascii xt = map byte_gf xb" "input_ascii yt = map byte_gf yb"
    using xt(1) yt(1) by (auto simp: fill_base64url_decode_witness_def Let_def)
  let ?pad = "take (4 * (35 + 1)) (drop (4 * (s div 4)) js)"
  have "s div 4 + 35 + 1 \<le> n" using js(3) by simp
  note pads = pads_slice [OF js(1) this]
  define t where "t = \<lparr>cnf_slice_targets = st, cnf_byte_offset = of_nat (s mod 4),
     cnf_byte_offset_indicator = unit_vec 4 (s mod 4),
     x_limbs = pack_coord_limbs (decoded_bytes xt), y_limbs = pack_coord_limbs (decoded_bytes yt),
     cnf_substring_bytes_with_padding = map byte_gf ?pad, x_b64 = xt, y_b64 = yt\<rparr>"
  have fill: "fill_cnf_extractor_witness rfc_decode (4 * n) js s xb yb = Inr t"
    unfolding fill_cnf_extractor_witness_def Let_def indicator_map
    using st xt(1) yt(1) at(2,3) pads by (simp add: rfc_base64url_decode t_def)
  note sv = fill_packed_values [OF st]
  have n36: "36 \<le> n" using js(3) by simp
  have len_pad: "length ?pad = 4 * 36" using js by simp
  have bound: "s + 140 \<le> length js"
    using js(1,3) div_mult_mod_eq [of s 4] mod_less_divisor [of 4 s] by linarith
  let ?sub = "take 140 (drop s js)"
  have sel: "select_bytes_by_offset (map byte_gf ?pad) (unit_vec 4 (s mod 4)) 140 = map byte_gf ?sub"
  proof -
    have "select_bytes_by_offset (map byte_gf ?pad) (unit_vec 4 (s mod 4)) 140 = take 140 (drop (s mod 4) (map byte_gf ?pad))"
    proof (rule select_bytes_unit_vec)
      have "s mod 4 < 4" by simp
      then show "s mod 4 < 4" "s mod 4 + 140 \<le> length (map byte_gf ?pad)"
        using len_pad unfolding length_map by linarith+
    qed
    also have "\<dots> = map byte_gf (take 140 (drop (4 * (s div 4) + s mod 4) js))"
    proof -
      have "s mod 4 \<le> 4" by (simp add: less_imp_le)
      then show ?thesis by (simp add: take_map drop_map drop_take add.commute min_absorb1)
    qed
    finally show ?thesis by simp
  qed
  have parts: "take 44 (drop s js) = CNF_PREFIX" "take 43 (drop (s + 44) js) = xb" "take 7 (drop (s + 87) js) = CNF_XY_SEPARATOR"
    "take 43 (drop (s + 94) js) = yb" "take 3 (drop (s + 137) js) = CNF_CLOSING"
    using at(1) bound l by (simp_all add: cnf_at_parts)
  note sub = cnf_parts_of_substring [OF bound]
  have len: "length ?sub = 140" using bound by simp
  have "make_cnf_extractor_circuit (4 * n) t"
    unfolding make_cnf_extractor_circuit_def Let_def
  proof (intro conjI)
    show "make_array_slice_circuit_packed_u32 (4 * n) CNF_SLICE_LEN_WITH_PADDING (cnf_slice_targets t)"
      using fill_packed_satisfies [OF st _ n36 js(2)] by (simp add: t_def)
    show "unpack_words_to_bytes (output_packed (cnf_slice_targets t)) (cnf_substring_bytes_with_padding t)"
    proof -
      have "length ?pad = 4 * length (pack_be ?pad)" using len_pad by (metis length_pack_be)
      then show ?thesis
        using sv(4) n36 unfolding unpack_words_to_bytes_iff by (intro exI [of _ ?pad]) (simp add: t_def)
    qed
    show "make_one_hot_indicator 4 0 \<lparr>indicator = cnf_byte_offset_indicator t, oh_value = cnf_byte_offset t\<rparr>"
      by (auto simp: make_one_hot_indicator_iff one_hot_at_eq t_def intro!: exI [of _ "s mod 4"])
    have sb: "select_bytes_by_offset (cnf_substring_bytes_with_padding t) (cnf_byte_offset_indicator t) CNF_BLOCK_LEN = map byte_gf ?sub"
      using sel by (simp add: t_def)
    show "match_constant (select_bytes_by_offset (cnf_substring_bytes_with_padding t) (cnf_byte_offset_indicator t) CNF_BLOCK_LEN) 0 CNF_PREFIX"
      "match_constant (select_bytes_by_offset (cnf_substring_bytes_with_padding t) (cnf_byte_offset_indicator t) CNF_BLOCK_LEN)
        (length CNF_PREFIX + B64URL_COORD_LEN) CNF_XY_SEPARATOR"
      "match_constant (select_bytes_by_offset (cnf_substring_bytes_with_padding t) (cnf_byte_offset_indicator t) CNF_BLOCK_LEN)
        (length CNF_PREFIX + B64URL_COORD_LEN + length CNF_XY_SEPARATOR + B64URL_COORD_LEN) CNF_CLOSING"
      unfolding sb using parts sub len by (simp_all add: match_constant_bytes)
    show "input_ascii (x_b64 t) = take (length CNF_PREFIX + B64URL_COORD_LEN - length CNF_PREFIX) (drop (length CNF_PREFIX)
        (select_bytes_by_offset (cnf_substring_bytes_with_padding t) (cnf_byte_offset_indicator t) CNF_BLOCK_LEN))"
      "input_ascii (y_b64 t) = take (length CNF_PREFIX + B64URL_COORD_LEN + length CNF_XY_SEPARATOR + B64URL_COORD_LEN
          - (length CNF_PREFIX + B64URL_COORD_LEN + length CNF_XY_SEPARATOR))
        (drop (length CNF_PREFIX + B64URL_COORD_LEN + length CNF_XY_SEPARATOR)
          (select_bytes_by_offset (cnf_substring_bytes_with_padding t) (cnf_byte_offset_indicator t) CNF_BLOCK_LEN))"
      unfolding sb drop_map take_map using parts sub ascii by (simp_all add: t_def)
  qed (use xt(2) yt(2) in \<open>simp_all add: t_def\<close>)
  moreover have "packed_array (cnf_slice_targets t) = pack_be js"
    using sv(3) n36 by (simp add: t_def)
  ultimately show ?thesis using that fill by blast
qed

end
