(* ===== verification/Gadget_Properties.thy ===== *)
theory Gadget_Properties
  imports Cnf
begin

text \<open>
  The properties of the circuit gadgets: bit decomposition, random access, one-hot selection,
  slicing, Base64url, and the extraction of claims and holder keys from the JSON payload, each
  with a witness at a concrete input.
\<close>

subsection \<open>Bit decomposition, random access, one-hot vectors\<close>

text \<open>The base-sum gates of \<open>split_le\<close> have exactly one solution for the bit wires, the binary
  digits of the canonical value of the element, and none when that value needs more bits.\<close>

theorem split_le_exact:
  assumes "0 < n" "n \<le> l" "l \<le> 63"
  shows "(\<exists>gates. split_le_circuit l x n gates bits)
    \<longleftrightarrow> canon x < 2 ^ n \<and> bits = map (\<lambda>i. of_bool (bit (canon x) i)) [0..<n]"
  unfolding split_le_circuit_iff [OF assms] split_le_def
  by (auto simp: bits_of_def)

theorem split_le_exact_witness: "\<exists>gates. split_le_circuit 63 6 4 gates [0, 1, 1, 0]"
  using split_le_exact [of 4 63 6 "[0, 1, 1, 0]"] by (simp add: upt_rec bit_iff_odd)

text \<open>The random-access gate, with some bit wires, accepts an element exactly when the index is
  below the list length and the element is the one at the index.\<close>

theorem random_access_gate_exact:
  assumes "length items = 2 ^ n" "n \<le> 63"
  shows "(\<exists>bits. length bits = n \<and> random_access_gate idx items claimed bits)
    \<longleftrightarrow> canon idx < 2 ^ n \<and> claimed = items ! canon idx"
  by (rule random_access_gate_iff [OF assms])

theorem random_access_gate_exact_witness:
  "\<exists>bits. length bits = 1 \<and> random_access_gate 1 [5, 6] 6 bits"
  using random_access_gate_exact [of "[5, 6]" 1 1 6] by simp

text \<open>The one-hot constraints have exactly the unit vectors as solutions, and the value wire is
  the selected position plus the offset.\<close>

theorem one_hot_exact:
  assumes "sz < goldilocks_order"
  shows "make_one_hot_indicator sz offset t \<longleftrightarrow>
    (\<exists>i < sz. indicator t = map (\<lambda>k. of_bool (k = i)) [0..<sz] \<and> oh_value t = of_nat (i + offset))"
  unfolding make_one_hot_indicator_iff [OF assms] one_hot_at_def unit_vec_def
  by (cases t) simp

theorem one_hot_exact_witness: "make_one_hot_indicator 3 1 \<lparr>indicator = [0, 1, 0], oh_value = 2\<rparr>"
  using one_hot_exact [of 3 1 "\<lparr>indicator = [0, 1, 0], oh_value = 2\<rparr>"]
  by (auto simp: upt_rec intro: exI [of _ 1])

subsection \<open>Slices\<close>

text \<open>Filling the packed slice circuit succeeds exactly for in-range starts, and the filled
  wires satisfy the circuit and hold the words of the slice that begins at the word of the
  start.\<close>

theorem packed_slice_filled:
  assumes "0 < m" "m \<le> n" "n < goldilocks_order" "length bs = 4 * n" "start div 4 + m \<le> n"
  shows "\<exists>t. fill_array_slice_witness_packed_u32 n m bs start = Inr t
    \<and> make_array_slice_circuit_packed_u32 (4 * n) (4 * m) t
    \<and> packed_array t = pack_be bs \<and> output_packed t = pack_be (take (4 * m) (drop (4 * (start div 4)) bs))"
proof -
  obtain t where t: "fill_array_slice_witness_packed_u32 n m bs start = Inr t"
    using fill_packed_Inr_iff [of m n bs start] assms by blast
  show ?thesis
    using t fill_packed_values [OF t assms(2)] fill_packed_satisfies [OF t assms(1-3)] by blast
qed

theorem packed_slice_filled_witness:
  "\<exists>t. fill_array_slice_witness_packed_u32 2 1 [1, 2, 3, 4, 5, 6, 7, 8] 6 = Inr t
    \<and> make_array_slice_circuit_packed_u32 8 4 t \<and> output_packed t = pack_be [5, 6, 7, 8]"
  using packed_slice_filled [of 1 2 "[1, 2, 3, 4, 5, 6, 7, 8]" 6] by auto

text \<open>Whatever wires satisfy the packed slice circuit, its output is a slice of the array at a
  word boundary, and the byte start wire names that boundary.\<close>

theorem packed_slice_exact:
  assumes "n < goldilocks_order"
  shows "make_array_slice_circuit_packed_u32 (4 * n) (4 * m) t \<longleftrightarrow>
    0 < m \<and> length (packed_array t) = n \<and>
    (\<exists>i. i + m \<le> n \<and> start_idx_words t = of_nat i \<and> start_idx_bytes t = of_nat (4 * i)
       \<and> output_packed t = take m (drop i (packed_array t))
       \<and> ps_indicator t = unit_vec (n - m + 1) i)"
  by (rule make_array_slice_packed_iff [OF assms])

theorem packed_slice_exact_witness:
  "make_array_slice_circuit_packed_u32 (4 * 2) (4 * 1)
     \<lparr>packed_array = [8, 9], start_idx_bytes = 4, output_packed = [9], ps_indicator = unit_vec 2 1, start_idx_words = 1\<rparr>"
  by (subst packed_slice_exact) (auto simp: numeral_2_eq_2 intro!: exI [of _ 1])

subsection \<open>Base64url\<close>

text \<open>C40: the solutions of the Base64url circuit are exactly the wires \<open>fill_base64url_decode_witness\<close>
  computes for some encoded input and its decoding: the circuit decodes, rejects every other
  character, length and set of trailing bits, and the prover reaches every solution.\<close>

theorem base64_circuit_exact:
  "make_base64url_decode_circuit n t \<longleftrightarrow>
    0 < n \<and> (\<exists>cs bs. length cs = n \<and> rfc_decode cs = Some bs
       \<and> fill_base64url_decode_witness n cs bs = Inr t
       \<and> input_ascii t = map byte_gf cs \<and> decoded_bytes t = map byte_gf bs)"
proof
  assume "make_base64url_decode_circuit n t"
  then obtain cs bs where "0 < n" "length cs = n" "rfc_decode cs = Some bs" "fill_base64url_decode_witness n cs bs = Inr t"
    unfolding base64_circuit_iff by blast
  moreover from this(4) have "input_ascii t = map byte_gf cs \<and> decoded_bytes t = map byte_gf bs"
    by (auto simp: fill_base64url_decode_witness_def Let_def)
  ultimately show "0 < n \<and> (\<exists>cs bs. length cs = n \<and> rfc_decode cs = Some bs
       \<and> fill_base64url_decode_witness n cs bs = Inr t
       \<and> input_ascii t = map byte_gf cs \<and> decoded_bytes t = map byte_gf bs)"
    by blast
qed (use base64_circuit_iff in blast)

text \<open>Decoding undoes encoding, for the coding the circuit implements.\<close>

theorem base64url_decode_encode:
  "base64url_decode rfc_decode (base64url_encode rfc_encode data) = Inr data"
  by (rule rfc.base64url_roundtrip)

text \<open>A witness exists for every decodable non-empty input.\<close>

theorem base64_provable:
  assumes "base64url_decode rfc_decode cs = Inr bs" "cs \<noteq> []"
  shows "\<exists>t. fill_base64url_decode_witness (length cs) cs bs = Inr t \<and> make_base64url_decode_circuit (length cs) t"
proof -
  have "rfc_decode cs = Some bs"
    using assms(1) by (auto simp: base64url_decode_def split: option.splits)
  then show ?thesis using base64_fill_succeeds assms(2) by blast
qed

theorem base64_provable_witness:
  "\<exists>t. fill_base64url_decode_witness 2 [65, 81] [1] = Inr t \<and> make_base64url_decode_circuit 2 t"
proof -
  have "base64url_decode rfc_decode [65, 81] = Inr [1]" by code_simp
  from base64_provable [OF this] show ?thesis by (simp add: numeral_2_eq_2)
qed

subsection \<open>Claims and holder keys in the payload\<close>

text \<open>C31: whatever satisfies the claim circuit, the payload contains \<open>"key":"value"\<close> after a brace
  or comma, the value non-empty, free of quotes and within the maximum, and the attribute wires
  hold exactly the key and that value, padded.\<close>

theorem json_claim_extracts:
  assumes "make_json_claim_circuit_known_key (4 * n) key mv mk t"
    "packed_array (slice_targets t) = pack_be js" "length js = 4 * n" "n < goldilocks_order" "mv < goldilocks_order"
  shows "\<exists>s v. claim_at js s key v \<and> length v \<le> mv \<and> value_len t = of_nat (length v)
    \<and> start_idx_bytes (slice_targets t) + byte_offset t = of_nat s
    \<and> attribute_u32_words t = map of_nat (to_u32_limbs_le (padded_attribute mk mv key v))"
  by (rule json_claim_sound [OF assms]) blast

definition sample_json :: bytes where
  "sample_json = bytes_of_string ''{\"a\":\"b\"}'' @ replicate 7 0"

definition sample_claim :: claim_position where
  "sample_claim = \<lparr>cp_key = [0x61], cp_start = 1, cp_value = [0x62], colon_offset = 3\<rparr>"

lemma sample_json_claim:
  "claim_at sample_json (cp_start sample_claim - 1) [0x61] (cp_value sample_claim)" "length sample_json = 4 * 4"
  "find_claim_position sample_json [0x61] = Inr sample_claim" "per_claim_substring_len 1 4 = 12"
  by code_simp+

theorem json_claim_extracts_witness:
  "\<exists>t. make_json_claim_circuit_known_key (4 * 4) [0x61] 4 4 t \<and> packed_array (slice_targets t) = pack_be sample_json
    \<and> (\<exists>s v. claim_at sample_json s [0x61] v
         \<and> attribute_u32_words t = map of_nat (to_u32_limbs_le (padded_attribute 4 4 [0x61] v)))"
proof -
  obtain t where t: "make_json_claim_circuit_known_key (4 * 4) [0x61] 4 4 t" "packed_array (slice_targets t) = pack_be sample_json"
    by (rule json_claim_complete [OF sample_json_claim(1), where mv = 4 and mk = 4 and n = 4])
      (use sample_json_claim in \<open>simp_all add: sample_claim_def\<close>)
  show ?thesis using t json_claim_extracts [OF t sample_json_claim(2)] by auto
qed

text \<open>C32: for a claim \<open>find_claim_position\<close> finds, with a non-empty string value that fits and room
  for the fixed-length slice, the prover's witness exists and satisfies the circuit.\<close>

theorem json_claim_provable:
  assumes "find_claim_position js key = Inr c" "cp_value c \<noteq> []" "js ! (cp_start c + length key + 3) = 0x22"
    "length (cp_value c) \<le> mv" "length key \<le> mk" "key \<noteq> []" "mv mod 4 = 0" "mk mod 4 = 0"
    "length js = 4 * n" "n < goldilocks_order" "mv < goldilocks_order"
    "(cp_start c - 1) div 4 + per_claim_substring_len (length key) mv div 4 + 1 \<le> n"
  shows "\<exists>t. fill_json_claim_witness_known_key (4 * n) key mv mk js c = Inr t
    \<and> make_json_claim_circuit_known_key (4 * n) key mv mk t \<and> packed_array (slice_targets t) = pack_be js"
proof -
  have "claim_at js (cp_start c - 1) key (cp_value c)" "0 < cp_start c"
    using find_claim_position_claim_at [OF assms(1-3)] by simp_all
  then show ?thesis using json_claim_complete assms(4-) by metis
qed

theorem json_claim_provable_witness:
  "\<exists>t. fill_json_claim_witness_known_key (4 * 4) [0x61] 4 4 sample_json sample_claim = Inr t
    \<and> make_json_claim_circuit_known_key (4 * 4) [0x61] 4 4 t \<and> packed_array (slice_targets t) = pack_be sample_json"
proof -
  have "sample_json ! (cp_start sample_claim + length [0x61 :: u8] + 3) = 0x22" by code_simp
  then show ?thesis
    using sample_json_claim by (intro json_claim_provable) (simp_all add: sample_claim_def)
qed

text \<open>C38: whatever satisfies the holder-key circuit, the payload contains a \<open>cnf\<close> block of the
  exact shape \<open>build_cnf_block\<close> writes, and the coordinate limbs are those of the decoded
  coordinates.\<close>

theorem cnf_extracts:
  assumes "make_cnf_extractor_circuit (4 * n) t"
    "packed_array (cnf_slice_targets t) = pack_be js" "length js = 4 * n" "n < goldilocks_order"
  shows "\<exists>s xb yb x y. take CNF_BLOCK_LEN (drop s js) = build_cnf_block xb yb
    \<and> base64url_decode rfc_decode xb = Inr x \<and> base64url_decode rfc_decode yb = Inr y
    \<and> length x = COORD_BYTES \<and> length y = COORD_BYTES
    \<and> x_limbs t = map of_nat (to_u32_limbs_le (Attribute x)) \<and> y_limbs t = map of_nat (to_u32_limbs_le (Attribute y))"
proof -
  obtain s xb yb x y where c: "cnf_at js s xb yb" "rfc_decode xb = Some x" "rfc_decode yb = Some y"
    "x_limbs t = map of_nat (to_u32_limbs_le (Attribute x))" "y_limbs t = map of_nat (to_u32_limbs_le (Attribute y))"
    by (rule cnf_circuit_sound [OF assms])
  then have "length x = COORD_BYTES" "length y = COORD_BYTES"
    using rfc_decode_43 by (simp_all add: cnf_at_def COORD_BYTES_def)
  then show ?thesis
    using c rfc_base64url_decode [OF c(2)] rfc_base64url_decode [OF c(3)]
    by (intro exI [of _ s] exI [of _ xb] exI [of _ yb] exI [of _ x] exI [of _ y]) (simp add: cnf_at_def)
qed

definition sample_coord :: bytes where
  "sample_coord = rfc_encode (replicate 32 7)"

definition sample_cnf :: bytes where
  "sample_cnf = build_cnf_block sample_coord sample_coord @ replicate 4 0"

lemma sample_cnf_at:
  "cnf_at sample_cnf 0 sample_coord sample_coord" "length sample_cnf = 4 * 36"
  "find_cnf_start sample_cnf = Inr 0" "extract_cnf_coords sample_cnf 0 = Inr (sample_coord, sample_coord)"
  "rfc_decode sample_coord = Some (replicate 32 7)"
  by code_simp+

theorem cnf_extracts_witness:
  "\<exists>t. make_cnf_extractor_circuit (4 * 36) t \<and> packed_array (cnf_slice_targets t) = pack_be sample_cnf
    \<and> (\<exists>s xb yb x y. take CNF_BLOCK_LEN (drop s sample_cnf) = build_cnf_block xb yb
      \<and> base64url_decode rfc_decode xb = Inr x \<and> x_limbs t = map of_nat (to_u32_limbs_le (Attribute x))
      \<and> y_limbs t = map of_nat (to_u32_limbs_le (Attribute y)))"
proof -
  obtain t where t: "make_cnf_extractor_circuit (4 * 36) t" "packed_array (cnf_slice_targets t) = pack_be sample_cnf"
    by (rule cnf_circuit_complete [OF sample_cnf_at(1,5,5,2)]) simp_all
  have "(36 :: nat) < goldilocks_order" by simp
  from cnf_extracts [OF t sample_cnf_at(2) this] t show ?thesis by blast
qed

text \<open>C39: when the payload is a string in which \<open>find_cnf_start\<close> and \<open>extract_cnf_coords\<close> find
  decodable coordinates and the slice fits, the prover's witness exists and satisfies the
  holder-key circuit.\<close>

theorem cnf_provable:
  assumes "find_cnf_start js = Inr s" "extract_cnf_coords js s = Inr (xb, yb)"
    "base64url_decode rfc_decode xb = Inr x" "base64url_decode rfc_decode yb = Inr y"
    "length js = 4 * n" "n < goldilocks_order" "s div 4 + CNF_SLICE_LEN_WITH_PADDING div 4 \<le> n"
  shows "\<exists>t. fill_cnf_extractor_witness rfc_decode (4 * n) js s xb yb = Inr t
    \<and> make_cnf_extractor_circuit (4 * n) t \<and> packed_array (cnf_slice_targets t) = pack_be js"
proof -
  have dec: "rfc_decode xb = Some x" "rfc_decode yb = Some y"
    using assms(3,4) by (auto simp: base64url_decode_def split: option.splits)
  have "s div 4 + 36 \<le> n" using assms(7) by simp
  from cnf_circuit_complete [OF extract_cnf_coords_sound [OF assms(1,2)] dec assms(5,6) this] show ?thesis
    by blast
qed

theorem cnf_provable_witness:
  "\<exists>t. fill_cnf_extractor_witness rfc_decode (4 * 36) sample_cnf 0 sample_coord sample_coord = Inr t
    \<and> make_cnf_extractor_circuit (4 * 36) t \<and> packed_array (cnf_slice_targets t) = pack_be sample_cnf"
  by (rule cnf_provable [OF sample_cnf_at(3,4) rfc_base64url_decode [OF sample_cnf_at(5)] rfc_base64url_decode [OF sample_cnf_at(5)] sample_cnf_at(2)])
    simp_all

end
