(* ===== verification/Credential_Properties.thy ===== *)
theory Credential_Properties
  imports Cnf
begin

text \<open>
  The properties of the credential's data: attributes and their encodings, scalars and public
  keys, and the holder-key block of the payload.
\<close>

text \<open>The field elements an attribute is committed as determine the attribute.\<close>

theorem attribute_limbs_injective:
  assumes "valid_attribute a" "valid_attribute b"
    "map (of_nat :: nat \<Rightarrow> gf) (to_u32_limbs_le a) = map of_nat (to_u32_limbs_le b)"
  shows "a = b"
  by (rule of_nat_limbs_inject [OF assms(3,1,2)])

theorem attribute_limbs_injective_witness: "Attribute [0, 0, 1, 0] = Attribute [0, 0, 1, 0]"
  by (rule attribute_limbs_injective) (simp_all add: valid_attribute_def len_bytes_def)

text \<open>C36: the deserialiser accepts what the serialiser writes for a valid attribute, and whatever it
  accepts is a valid attribute.\<close>

theorem attribute_serde:
  assumes "valid_attribute a"
  shows "deserialize_attribute hex16_decode (serialize_attribute hex16_encode a) = Inr a
    \<and> (\<forall>s b. deserialize_attribute hex16_decode s = Inr b \<longrightarrow> valid_attribute b)"
  using hex16.deserialize_serialize [OF assms] hex16.deserialize_valid by blast

theorem attribute_serde_witness:
  "deserialize_attribute hex16_decode (serialize_attribute hex16_encode (Attribute [1, 2, 3, 0xFF])) = Inr (Attribute [1, 2, 3, 0xFF])"
  using attribute_serde [of "Attribute [1, 2, 3, 0xFF]"] by (simp add: valid_attribute_def len_bytes_def)

text \<open>A digest becomes a scalar exactly when it has 32 bytes, and the scalar is the big-endian
  value reduced modulo the group order.\<close>

theorem digest_scalar_reduced:
  "byte_array_to_scalar bs = Inr w \<longleftrightarrow> length bs = 32 \<and> w = from_bytes_be bs mod P256_SCALAR_ORDER"
  by (rule byte_array_to_scalar_iff)

text \<open>The compressed form of a public key determines its x coordinate and the parity of y.\<close>

theorem compressed_pubkey_determines:
  assumes "pt_x p < P256_BASE_ORDER" "pt_x q < P256_BASE_ORDER" "compressed_pubkey p = compressed_pubkey q"
  shows "pt_x p = pt_x q \<and> even (pt_y p) = even (pt_y q)"
  using compressed_pubkey_inject [OF _ _ assms(3)] assms(1,2) P256_orders(1) by linarith

theorem compressed_pubkey_determines_witness:
  "even (pt_y \<lparr>pt_x = 3, pt_y = 5, pt_zero = False\<rparr>) = even (pt_y \<lparr>pt_x = 3, pt_y = 5, pt_zero = False\<rparr>)"
  by (rule conjunct2, rule compressed_pubkey_determines) (simp_all add: P256_BASE_ORDER_def)

text \<open>A finite public key survives the encoding of its coordinates in the holder-key block, and
  each coordinate is 43 characters long.\<close>

theorem holder_key_roundtrip:
  assumes "pt_x pk < P256_BASE_ORDER" "pt_y pk < P256_BASE_ORDER" "\<not> pt_zero pk"
  shows "(case pk_coords_to_base64url rfc_encode pk of (x, y) \<Rightarrow>
      length x = B64URL_COORD_LEN \<and> length y = B64URL_COORD_LEN
      \<and> base64url_coords_to_pk rfc_decode x y = Inr pk)"
proof -
  have "pt_x pk < 2 ^ 256" "pt_y pk < 2 ^ 256" using assms(1,2) P256_orders(1) by linarith+
  from rfc.coords_length [OF this] rfc.coords_roundtrip [OF assms] show ?thesis
    by (simp add: case_prod_unfold)
qed

theorem holder_key_roundtrip_witness:
  "case pk_coords_to_base64url rfc_encode \<lparr>pt_x = 3, pt_y = 5, pt_zero = False\<rparr> of (x, y) \<Rightarrow>
      length x = B64URL_COORD_LEN \<and> length y = B64URL_COORD_LEN
      \<and> base64url_coords_to_pk rfc_decode x y = Inr \<lparr>pt_x = 3, pt_y = 5, pt_zero = False\<rparr>"
  by (rule holder_key_roundtrip) (simp_all add: P256_BASE_ORDER_def)

text \<open>The coordinates \<open>extract_cnf_coords\<close> returns are those of a block that stands at the
  position \<open>find_cnf_start\<close> returned, which is the first occurrence of the prefix.\<close>

theorem cnf_coords_found:
  assumes "find_cnf_start js = Inr s" "extract_cnf_coords js s = Inr (x, y)"
  shows "take CNF_BLOCK_LEN (drop s js) = build_cnf_block x y \<and> length x = B64URL_COORD_LEN \<and> length y = B64URL_COORD_LEN
    \<and> (\<forall>i < s. take (length CNF_PREFIX) (drop i js) \<noteq> CNF_PREFIX)"
  using extract_cnf_coords_sound [OF assms] find_cnf_start_prefix [OF assms(1)]
  by (simp add: cnf_at_def)

theorem cnf_coords_found_witness:
  "take CNF_BLOCK_LEN (drop 0 (build_cnf_block (replicate 43 65) (replicate 43 66)))
     = build_cnf_block (replicate 43 65) (replicate 43 66)"
proof -
  let ?b = "build_cnf_block (replicate 43 65) (replicate 43 66)"
  have "find_cnf_start ?b = Inr 0" "extract_cnf_coords ?b 0 = Inr (replicate 43 65, replicate 43 66)"
    by code_simp+
  from cnf_coords_found [OF this] show ?thesis by blast
qed

end
