(* ===== verification/Poseidon_Constants.thy ===== *)
theory Poseidon_Constants
  imports Prelude
begin

text \<open>
  The constants of the Poseidon permutation of width 12 over the Goldilocks field, as the tables
  of \<open>plonky2/src/hash/poseidon.rs\<close> (round constants) and \<open>poseidon_goldilocks.rs\<close> (the MDS matrix
  and the precomputed constants of the fast partial rounds).
\<close>

definition HALF_N_FULL_ROUNDS :: nat where
  "HALF_N_FULL_ROUNDS = 4"

definition N_PARTIAL_ROUNDS :: nat where
  "N_PARTIAL_ROUNDS = 22"

definition ALL_ROUND_CONSTANTS :: "nat list" where
  "ALL_ROUND_CONSTANTS =
    [13080132714287612933, 8594738767457295063, 12896916465481390516, 1109962092811921367,
     16216730422861946898, 10137062673499593713, 15292064466732465823, 17255573294985989181,
     14827154241873003558, 2846171647972703231, 16246264663680317601, 14214208087951879286,
     9667108687426275457, 6470857420712283733, 14103331940138337652, 11854816473550292865,
     3498097497301325516, 7947235692523864220, 11110078701231901946, 16384314112672821048,
     15404405912655775739, 14077880830714445579, 9555554662709218279, 13859595358210603949,
     16859897325061800066, 17685474420222222349, 17858764734618734949, 9410011022665866671,
     12495243629579414666, 12416945298171515742, 5776666812364270983, 6314421662864060481,
     7402742471423223171, 982536713192432718, 17321168865775127905, 2934354895005980211,
     10567510598607410195, 8135543733717919110, 116353493081713692, 8029688163494945618,
     9003846637224807585, 7052445132467233849, 9645665432288852853, 5446430061030868787,
     16770910634346036823, 17708360571433944729, 4661556288322237631, 11977051899316327985,
     4378616569090929672, 3334807502817538491, 8019184735943344966, 2395043908812246395,
     6558421058331732611, 11735894060727326369, 8143540538889204488, 5991753489563751169,
     12235918791502088007, 2880312033702687139, 18224748115308382355, 18070411013125314165,
     8156487614120951180, 10615269510047010719, 12489426404754222075, 5055279340069995710,
     7231927319780248664, 2602078848106763799, 12445944369334781425, 3978905923892496205,
     16711272944329818038, 10439032361227108922, 15110119871725214866, 821141790655890946,
     11073536380651186235, 4866839313097607757, 13118391689513956636, 14527674973762312380,
     7612751959265567999, 6808090907814178161, 6899703779492644997, 3664666286336986826,
     783179505424462608, 8990689241814097697, 9646603555412825679, 7351246026167205041,
     16970959813722173256, 15735726858241466429, 10347018221892268419, 12195545878449322889,
     7423314197114049891, 14908016116973904153, 5840340122527363265, 17740311462440614128,
     815306421953744623, 17456357368219253949, 6982651076559329072, 11970987324614963868,
     8167785008538063246, 9483259819397403968, 954550221664291548, 10339565171024313256,
     8651171084286500102, 16974445528003515956, 15104530047940621190, 103271880867179718,
     14654666245504492663, 12445769555936887967, 11250582358051997490, 6730977207490590241,
     15919951556166196935, 4423540216573360915, 16317664700341473511, 4723997214951767765,
     10098756619006575500, 3223149401237667964, 6870494874300767682, 2902095711130291898,
     7159372652788439733, 11500508372997952671, 13348148181479462670, 12729401155983882093,
     15021242795466053388, 3802990509227527157, 4665459515680145682, 13165553315407675603,
     6496364397926233172, 12800832566287577810, 9737592377590267426, 8687131091302514939,
     1488200421755445892, 11004377668730991641, 13516338734600228410, 2953581820660217936,
     3505040783153922951, 3710332827435113697, 15414874040873320221, 8602547649919482301,
     13971349938398812007, 187239246702636066, 12886019973971254144, 4512274763990493707,
     2986635507805503192, 2315252455709119454, 12537995864054210246, 2039491936479859267,
     1558644089185031256, 4074089203264759305, 2522268501749395707, 3414760436185256196,
     17420887529146466921, 2817020417938125001, 16538346563888261485, 5592270336833998770,
     16876602064684906232, 1793025614521516343, 2178510518148748532, 2726440714374752509,
     6502946837278398021, 15816362857667988792, 12997958454165692924, 5314892854495903792,
     15533907063555687782, 12312015675698548715, 14140016464013350248, 16325589062962838690,
     6796145646370327654, 1168753512742361735, 4100789820704709368, 15947554381540469177,
     8597377839806076919, 9704018824195918000, 12763288618765762688, 17249257732622847695,
     1998710993415069759, 923759906393011543, 1271051229666811593, 17822362132088738077,
     11797234543722669271, 5864538787265942447, 15975583211110506970, 7258516085733671960,
     17999926471875633100, 635992114476018166, 17205047318256576347, 17384900867876315312,
     16484825562915784226, 16694130609036138894, 10575069350371260875, 8330575162062887277,
     6212375704691932880, 15965138197626618226, 14285453069600046939, 10005163510208402517,
     885298637936952595, 541790758138118921, 5985203084790372993, 4685030219775483721,
     1411106851304815020, 11290732479954096478, 208280581124868513, 10979018648467968495,
     8600643745023338215, 3477453626867126061, 6428436309340258604, 5695415667275657934,
     15952065508715623490, 15571300830419767248, 17259785660502616862, 4298425495274316083,
     9023601070579319352, 7353589709321807492, 2988848909076209475, 10439527789422046135,
     6097734044161429459, 1113429873817861476, 1639063372386966591, 7863102812716788759,
     216040220732135364, 14252611488623712688, 9543395466794536974, 2714461051639810934,
     2588317208781407279, 15458529123534594916, 15748417817551040856, 16414455697114422951,
     13378164466674639511, 13894319928411294675, 5032680892090751540, 17201338494743078916,
     4397422800601932505, 11285062031581972327, 7309354640676468207, 10457152817239331848,
     8855911538863247046, 4301853449821814398, 13001502396339103326, 10218424535115580246,
     8628244713920681895, 17410423622514037261, 14080683768439215375, 11453161143447188100,
     16761509772042181939, 6688821660695954082, 12083434295263160416, 8540021431714616589,
     6891616215679974226, 10229217098454812721, 3292165387203778711, 6090113424998243490,
     13431780521962358660, 6061081364215809883, 16792066504222214142, 16134314044798124799,
     17070233710126619765, 6915716851370550800, 9505009849073026581, 6422700465081897153,
     17977653991560529185, 5800870252836247255, 12096124733159345520, 7679273623392321940,
     17835783910585744964, 2478664878205754377, 1720314468413114967, 10376757819003248056,
     10376377187857634245, 13344930747504284997, 11579281865160153596, 10300256980048736962,
     378765236515040565, 11412420941557253424, 12931662470734252786, 43018908376346374,
     3589810689190160071, 4688229274750659741, 13688957436484306091, 11424740943016984272,
     16001900718237913960, 5548469743008097574, 14584404916672178680, 3396622135873576824,
     7861729246871155992, 16112271126908045545, 16988163966860016012, 273641680619529493,
     15222677154027327363, 4070328078309830604, 13520458500363296391, 8235111705801363015,
     5575990058472514138, 2751301609188252989, 6478598528223547074, 386565553848556638,
     9417729078939938713, 15204315939835727483, 14942015033780606261, 18369423901636582012,
     4715338437538604447, 6840590980607806319, 5535471161490539014, 5341328005359029952,
     1475161295215894444, 7999197814297036636, 2984233088665867938, 3097746028144832229,
     8849530863480031517, 7464920943249009773, 3802996844641460514, 6284458522545927646,
     2307388003445002779, 4461479354745457623, 1649739722664588460, 3008391274160432867,
     5142217010456550622, 1775580461722730120, 161694268822794344, 1518963253808031703,
     16475258091652710137, 119575899007375159, 1275863735937973999, 16539412514520642374,
     2303365191438051950, 6435126839960916075, 17794599201026020053, 13847097589277840330,
     16645869274577729720, 8039205965509554440, 4788586935019371140, 15129007200040077746,
     2055561615223771341, 4149731103701412892, 10268130195734144189, 13406631635880074708,
     11429218277824986203, 15773968030812198565, 16050275277550506872, 11858586752031736643,
     8927746344866569756, 11802068403177695792, 157833420806751556, 4698875910749767878,
     1616722774788291698, 3990951895163748090, 16758609224720795472, 3045571693290741477,
     9281634245289836419, 13517688176723875370, 7961395585333219380, 1606574359105691080,
     17564372683613562171, 4664015225343144418, 6133721340680280128, 2667022304383014929,
     12316557761857340230, 10375614850625292317, 8141542666379135068, 9185476451083834432,
     4991072365274649547, 17398204971778820365, 16127888338958422584, 13586792051317758204]"

definition MDS_MATRIX_CIRC :: "nat list" where
  "MDS_MATRIX_CIRC = [17, 15, 41, 16, 2, 28, 13, 13, 39, 18, 34, 20]"

definition MDS_MATRIX_DIAG :: "nat list" where
  "MDS_MATRIX_DIAG = [8, 0, 0, 0, 0, 0, 0, 0, 0, 0, 0, 0]"

definition FAST_PARTIAL_FIRST_ROUND_CONSTANT :: "nat list" where
  "FAST_PARTIAL_FIRST_ROUND_CONSTANT =
    [4378616569090929672, 16831074976302798833, 17474843094576853935, 15154628183104001226,
     14219868664549115443, 10509321604391016962, 17545903601470498427, 3273629310481947241,
     8362887214150162593, 7587761356207546181, 6959023468757315912, 14065947794859331340]"

definition FAST_PARTIAL_ROUND_CONSTANTS :: "nat list" where
  "FAST_PARTIAL_ROUND_CONSTANTS =
    [8415871462856204715, 15156192896528938595, 7115538620563575164, 15396535437187948468,
     13402196712199986140, 16375052485106733288, 1054611198573910171, 14596485233396387590,
     13680159589485875108, 9441690674504273278, 7281057872237841107, 8581622869689923244,
     12649521141086658944, 13316298133620363637, 10757436128916982213, 16047932205709436219,
     17301616663694082334, 11667617191967502297, 9658934864843380542, 3498090033303964622,
     1930488375833774198, 0]"

definition FAST_PARTIAL_ROUND_VS :: "nat list list" where
  "FAST_PARTIAL_ROUND_VS =
    [[10702656082108580291, 14323272843908492221, 15449530374849795087, 839422581341380592, 11044529172588201887, 9218907426627144627,
      16863852725141286670, 12378944184369265821, 4291107264489923137, 18105902022777689401, 4532874245444204412],
     [783331064993138470, 11780280264626300249, 14317347280917240576, 7639896796391275580, 5524721098652169327, 4647621086109661393,
      551557749415629519, 4774730083352601242, 9878226461889807280, 2796688701546052437, 3152254583822593203],
     [5195684422952000615, 16386310079584461432, 8354845848262314988, 6700373425673846218, 14613275276996917774, 15810393896142816349,
      8919907675614209581, 4378937399360000942, 3921314266986613083, 3157453341478075556, 12056705871081879759],
     [12838957912943317144, 11392036161259909092, 5420611346845318460, 11418874531271499277, 14582096517505941837, 877280106856758747,
      11091271673331452926, 9617340340155417663, 9043411348035541157, 16964047224456307403, 10338102439110648229],
     [1277502887239453738, 11492475458589769996, 12115111105137538533, 6007394463725400498, 4633777909023327008, 12045217224929432404,
      5600645681481758769, 13058511211226185597, 10831228388201534917, 10765285645335338967, 12314041551985486068],
     [4032097614937144430, 5682426829072761065, 14144004233890775432, 11476034762570105656, 11441392943423295273, 14245661866930276468,
      11536287954985758398, 6483617259986966714, 10087111781120039554, 13728844829744097141, 14679689325173586623],
     [6304928008866363842, 9855321538770560945, 9435164398075715846, 9404592978128123150, 11002422368171462947, 8486311906590791617,
      18361824531704888434, 2798920999004265189, 17909793464802401204, 5756303597132403312, 5858421860645672190],
     [17305709116193116427, 735829306202841815, 14847743950994388316, 11139080626411756670, 7092455469264931963, 11583767394161657005,
      15774934118411863340, 4416857554682544229, 9159855784268361426, 8216101670692368083, 16367782717227750410],
     [12329937970340684597, 10602297383654186753, 5891764497626072293, 10671154149112267313, 18234822653119242373, 15287378323692558105,
      9967103142034849899, 15861939895842675328, 11730063476303470848, 1586390848658847158, 1015360682565850373],
     [4417656488067463062, 14987770745080868386, 4702825855063868377, 2465246157933796197, 8034369030882576822, 15698764330557579947,
      11839103375501390181, 4595990697051972631, 14148213542088135280, 14849248616009699298, 15807262764748562013],
     [1262098398535043837, 2436065499532941641, 1138970283407778564, 1825502889302643134, 5500855066099563465, 11666892062115297604,
      13463068267332421729, 17516970128403465337, 11088428730628824449, 4615288675764694853, 16220123440754855385],
     [9570691013274316785, 15613851939195720118, 3699802456427549428, 14363933592354809237, 13863573127618181752, 11428524752427198786,
      1512236798846210343, 15492557605200192531, 4471766256042329601, 12055723375080267479, 16720313860519281958],
     [2561042796132833389, 10464014529858294964, 14401165907148431066, 2413453332765052361, 14620959153325857181, 16368665425253279930,
      8913590094823920770, 4357291993877750483, 18315259589408480902, 7040130461852977952, 16913088801316332783],
     [15483762529902925134, 17034733783218795199, 18136305076967260316, 15896912869485945382, 475392759889361288, 1823867867187688822,
      8817375076608676110, 8857453095514132937, 17995601973761478278, 18042919419769033432, 17356815683605755783],
     [853567178463642200, 781481719657018312, 864881582238738022, 776585443674182031, 868289454518583667, 873991676947315745,
      825112067366636056, 904067466148006484, 864277137123579536, 785755357347442049, 861609966041484849],
     [3644417860664408, 3335591043919560, 3691922388548390, 3315658209334511, 3706319247139923, 3730913850857153,
      3522914930316824, 3859199185371348, 3689373458353040, 3354664939836449, 3677753419960785],
     [15551163980504, 14240130616264, 15771333781862, 14149230256207, 15820017123763, 15936503968609,
      15031975505304, 16471548413268, 15760188783376, 14317015483073, 15696239618801],
     [66326084760, 60935297352, 67215299046, 60348857903, 67671686739, 67914356993,
      64112320984, 70469953364, 67111186256, 61118430945, 67182327505],
     [286463800, 257349000, 285544326, 260345679, 286599123, 289630625,
      275722040, 300075668, 285878768, 262796737, 284566993],
     [1177368, 1095368, 1264278, 1101695, 1199363, 1308833,
      1145944, 1256596, 1265600, 1089681, 1214817],
     [4864, 5968, 4430, 4895, 5755, 4977,
      4656, 6188, 4968, 3889, 5577],
     [20, 34, 18, 39, 13, 13,
      28, 2, 16, 41, 15]]"

definition FAST_PARTIAL_ROUND_W_HATS :: "nat list list" where
  "FAST_PARTIAL_ROUND_W_HATS =
    [[4438751076270498736, 9317528645525775657, 2603614750616077704, 9834445229934519080, 11955300617986087719, 13674383287779636394,
      7242667852302110551, 703710881370165964, 5061939192123688976, 14416184509556335938, 304868360577598380],
     [7437226027186543243, 15353050892319980048, 3199984117275729523, 11990763268329609629, 5577680852675862792, 17892201254274048377,
      4681998189446302081, 6822112447852802370, 7318824523402736059, 63486289239724471, 9953444262837494154],
     [2317103059171007623, 16480286982765085951, 13705213611198486247, 10236515677047503770, 6341681382391377123, 6362787076607341484,
      10057473295910894055, 12586789805515730111, 4352300357074435274, 15739906440350539774, 16786966705537008710],
     [14247238213840877673, 4982197628621364471, 1650209613801527344, 16334009413005742380, 320004518447392347, 7777559975827687149,
      1266186313330142639, 12735743610080455214, 9621059894918028247, 4350447204024668858, 11420240845800225374],
     [1701204778899409548, 12463216732586668885, 7392209094895994703, 15680934805691729401, 14004357016008534075, 14936251243935649556,
      1522896783411827638, 13858466054557097275, 3172936841377972450, 1068421630679369146, 14424837255543781072],
     [10714170731680699852, 5765613494791770423, 9663820292401160995, 397172480378586284, 4280709209124899452, 1203358955785565947,
      11202700275482992172, 13685583713509618195, 3469864161577330170, 8734130268423889220, 16917450195693745928],
     [8180410513952497551, 7071292797447000945, 14180677607572215618, 6192821375005245090, 11618722403488968531, 16359132914868028498,
      629739239384523563, 14807849520380455651, 9453790714124186574, 13094671554168529902, 7712187332553607807],
     [17023513964361815961, 4047391151444874101, 4322167285472126322, 5857702128726293638, 5139199894843344198, 1693515656102034708,
      12470471516364544231, 8323866952084077697, 12651873977826689095, 5067670011142229746, 396279522907796927],
     [16390401751368131934, 7418420403566340092, 8653653352406274042, 4118931406823846491, 82975984786450442, 18222397316657226499,
      2002174628128864983, 9634468324007960767, 3259584970126823840, 581370729274350312, 17755967144133734705],
     [9071247654034188589, 6594541173975452315, 17782188089785283344, 3595742487221932055, 9841642201692265487, 1029671011456985627,
      13457875495926821529, 6870405007338730846, 12744130097658441846, 6788288399186088634, 357912856529587295],
     [5607434777391338218, 15814876086124552425, 10566177234457318078, 15354864780205183334, 15216311397122257089, 2674093911898978557,
      16268280753066444837, 3675451000502615243, 701273502091366776, 15854278682598134666, 6924615965242507246],
     [1637471090675303584, 4375318637115686030, 12136810621975340177, 105995675382122926, 5987457663538146171, 15717760330284389791,
      14670439359715404205, 5464349733274908045, 8636933789572244554, 9769580318971544573, 9102363839782539970],
     [13571765139831017037, 818883284762741475, 11800681286871024320, 4228007315495729552, 9681067057645014410, 10160317193366865607,
      7974952474492003064, 311630947502800583, 16977972518193735910, 615971843838204966, 17678304266887460895],
     [12163901532241384359, 5826724299253731684, 17423022063725297026, 18082834829462388363, 10626880031407069622, 1952478840402025861,
      9036125440908740987, 1042941967034175129, 13710136024884221835, 3995229588248274477, 11993482789377134210],
     [12697151891341221277, 13408757364964309332, 14636730641620356003, 2917199062768996165, 11768157571822112934, 15407074889369976729,
      3320959039775894817, 16277817307991958146, 7362033657200491320, 9990801137147894185, 14676096006818979429],
     [17204396082766500862, 14458712079049372979, 17287567422807715153, 13337198174858709409, 7624105753184612060, 17074874386857691157,
      2909991590741947335, 14770785872198722410, 17719065353010659993, 14898159957685527729, 12135206555549668255],
     [15626888021543284549, 12464927884746769804, 1471467344747928256, 11413582290460358915, 9282109700482247280, 17976144115670124039,
      16456828278798000758, 1008181782916845414, 17610348098917415827, 204173067177706516, 15964669298669259045],
     [13932676290161493411, 14699132604785301972, 3744215611852980773, 2709414263278899107, 806263865491310800, 7317365142041602481,
      16776386564962992796, 11652640766067723448, 1016370456237928832, 961864172302955643, 11539305592151691719],
     [5260886902259565990, 16171862215293778203, 771114262717812991, 10575516421403467499, 13137658605724015568, 4324696043571725046,
      17177140657993423090, 11675287481120654357, 215782959819461329, 16817340479494209298, 2305466969888960689],
     [9354449820649144563, 17638200638691477463, 17096907883840532417, 795566415402858691, 12763188014703795610, 2111548358776179736,
      7338420082729848069, 11736253547470159946, 11882449274483722406, 13880779032198735515, 12012886003476663648],
     [9561079619973624339, 3427032003991111411, 16026109245305520857, 842178779993054962, 6620069080479782436, 520632651104976912,
      5977708219320356796, 14677035874152442976, 12438555763140714832, 10308634069667372976, 1889137300031443018],
     [4233023069765094533, 11320301090717319475, 529847152638273925, 11362416581384070759, 3913471784331119128, 5817936720856651185,
      17448019282603275260, 3425091249974323865, 13157846471433414730, 673370378535461536, 846766219905577371]]"

definition FAST_PARTIAL_ROUND_INITIAL_MATRIX :: "nat list list" where
  "FAST_PARTIAL_ROUND_INITIAL_MATRIX =
    [[9256917872013944843, 15893897022228540664, 13949760578536372653, 10441609312974976515, 4189528951266599854, 45832257923618046,
      8607345711887993138, 10398036555777403988, 13806692727776539476, 4187764176355919243, 4771889745340348367],
     [16687757000829461707, 12764541860482007578, 1073506034073544330, 12178624353196374758, 9093834777404014814, 12470775297641857694,
      14365012582629183475, 17322896464470575084, 12929063850085080619, 8008291477586393637, 4187764176355919243],
     [15919568759443364026, 1487496629277845135, 5122203447763166523, 2200314810679404686, 13521131922395904812, 16674096007358536750,
      12650089191056401741, 15914053419498374975, 14774060794419120357, 12929063850085080619, 13806692727776539476],
     [17628276356247382281, 14211060579632108547, 9180588347636943785, 11858291964101661402, 3422342838493228737, 16717315056857949245,
      4874593437852546498, 14575430061120165237, 15914053419498374975, 17322896464470575084, 10398036555777403988],
     [17976887162229714000, 6791692987299703477, 6455531853563710059, 506729933833272474, 12479288794463684010, 12357738834545821552,
      14664271473160014313, 4874593437852546498, 12650089191056401741, 14365012582629183475, 8607345711887993138],
     [9191356322801962495, 5412105005886646653, 7077135177323540712, 13768926573657667599, 14009018616032686342, 8447498431838444578,
      12357738834545821552, 16717315056857949245, 16674096007358536750, 12470775297641857694, 45832257923618046],
     [8244675934684975988, 2125569474183208192, 1761883289931249101, 9202082607097456696, 9665676628089346926, 14009018616032686342,
      12479288794463684010, 3422342838493228737, 13521131922395904812, 9093834777404014814, 4189528951266599854],
     [7268127472833019981, 5600686741053600354, 13703919263985638019, 155673126466762010, 9202082607097456696, 13768926573657667599,
      506729933833272474, 11858291964101661402, 2200314810679404686, 12178624353196374758, 10441609312974976515],
     [9602108300053878928, 15610298188943525805, 13828402413953013890, 13703919263985638019, 1761883289931249101, 7077135177323540712,
      6455531853563710059, 9180588347636943785, 5122203447763166523, 1073506034073544330, 13949760578536372653],
     [1540311261654516052, 10517970165082627573, 15610298188943525805, 5600686741053600354, 2125569474183208192, 5412105005886646653,
      6791692987299703477, 14211060579632108547, 1487496629277845135, 12764541860482007578, 15893897022228540664],
     [15582992301522062240, 1540311261654516052, 9602108300053878928, 7268127472833019981, 8244675934684975988, 9191356322801962495,
      17976887162229714000, 17628276356247382281, 15919568759443364026, 16687757000829461707, 9256917872013944843]]"

end
