(* ===== verification/Hashing.thy ===== *)
theory Hashing
  imports Goldilocks
begin

text \<open>
  The sponge and the two-to-one compression of \<open>plonky2/src/hash/hashing.rs\<close> and
  \<open>plonky2/src/plonk/config.rs\<close>, over the permutation of the \<open>PlonkyPermutation\<close> trait.  The
  in-circuit functions perform the same steps on targets, so on values they are the same
  functions, except \<open>hash_or_noop\<close>, which goes through bytes off the circuit.
\<close>

type_synonym hash_out = "gf list"

definition NUM_HASH_OUT_ELTS :: nat where
  "NUM_HASH_OUT_ELTS = 4"

definition SPONGE_RATE :: nat where
  "SPONGE_RATE = 8"

definition SPONGE_WIDTH :: nat where
  "SPONGE_WIDTH = 12"

text \<open>What the sponge needs of a permutation: it keeps the width.\<close>

locale sponge_permutation =
  fixes perm :: "gf list \<Rightarrow> gf list"
  assumes perm_length: "length xs = SPONGE_WIDTH \<Longrightarrow> length (perm xs) = SPONGE_WIDTH"

definition set_from_slice :: "gf list \<Rightarrow> gf list \<Rightarrow> nat \<Rightarrow> gf list" where
  "set_from_slice state elts start_idx =
     (let n = min (length elts) (SPONGE_WIDTH - start_idx)
      in take start_idx state @ take n elts @ drop (start_idx + n) state)"

definition squeeze :: "gf list \<Rightarrow> gf list" where
  "squeeze state = take SPONGE_RATE state"

fun chunks :: "nat \<Rightarrow> 'a list \<Rightarrow> 'a list list" where
  "chunks n xs = (if n = 0 \<or> xs = [] then [] else take n xs # chunks n (drop n xs))"

declare chunks.simps [simp del]

definition absorb :: "(gf list \<Rightarrow> gf list) \<Rightarrow> gf list \<Rightarrow> gf list" where
  "absorb perm inputs =
     foldl (\<lambda>state input_chunk. perm (set_from_slice state input_chunk 0))
       (replicate SPONGE_WIDTH 0) (chunks SPONGE_RATE inputs)"

text \<open>
  The squeezing loop returns when exactly \<open>num_outputs\<close> elements were pushed, so it never
  returns for \<open>num_outputs = 0\<close>; that is the result \<open>None\<close>.
\<close>

fun squeeze_loop :: "(gf list \<Rightarrow> gf list) \<Rightarrow> gf list \<Rightarrow> nat \<Rightarrow> gf list" where
  "squeeze_loop perm state m =
     (if m \<le> SPONGE_RATE then take m (squeeze state)
      else squeeze state @ (if SPONGE_RATE = 0 then [] else squeeze_loop perm (perm state) (m - SPONGE_RATE)))"

declare squeeze_loop.simps [simp del]

definition hash_n_to_m_no_pad :: "(gf list \<Rightarrow> gf list) \<Rightarrow> gf list \<Rightarrow> nat \<Rightarrow> gf list option" where
  "hash_n_to_m_no_pad perm inputs num_outputs =
     (if num_outputs = 0 then None else Some (squeeze_loop perm (absorb perm inputs) num_outputs))"

definition hash_n_to_hash_no_pad :: "(gf list \<Rightarrow> gf list) \<Rightarrow> gf list \<Rightarrow> hash_out" where
  "hash_n_to_hash_no_pad perm inputs =
     (case hash_n_to_m_no_pad perm inputs NUM_HASH_OUT_ELTS of Some out \<Rightarrow> out | None \<Rightarrow> [])"

definition compress :: "(gf list \<Rightarrow> gf list) \<Rightarrow> hash_out \<Rightarrow> hash_out \<Rightarrow> hash_out" where
  "compress perm x y =
     (let state = replicate SPONGE_WIDTH 0;
          state = set_from_slice state x 0;
          state = set_from_slice state y NUM_HASH_OUT_ELTS
      in take NUM_HASH_OUT_ELTS (squeeze (perm state)))"

text \<open>\<open>hash_or_noop\<close> in the circuit: short inputs are padded with zero targets.\<close>

definition hash_or_noop_circuit :: "(gf list \<Rightarrow> gf list) \<Rightarrow> gf list \<Rightarrow> hash_out" where
  "hash_or_noop_circuit perm inputs =
     (if length inputs \<le> NUM_HASH_OUT_ELTS then inputs @ replicate (NUM_HASH_OUT_ELTS - length inputs) 0
      else hash_n_to_hash_no_pad perm inputs)"

text \<open>
  \<open>hash_or_noop\<close> off the circuit: the canonical values as little-endian bytes, read back as a
  digest.
\<close>

definition HASH_SIZE :: nat where
  "HASH_SIZE = 4 * 8"

definition to_le_bytes :: "nat \<Rightarrow> bytes" where
  "to_le_bytes v = map (\<lambda>i. of_nat (v div 256 ^ i)) [0..<8]"

definition from_le_bytes :: "bytes \<Rightarrow> nat" where
  "from_le_bytes bs = foldr (\<lambda>b acc. unat b + 256 * acc) bs 0"

definition hash_from_bytes :: "bytes \<Rightarrow> hash_out" where
  "hash_from_bytes bs = map (\<lambda>c. of_nat (from_le_bytes c)) (take NUM_HASH_OUT_ELTS (chunks 8 bs))"

definition hash_or_noop :: "(gf list \<Rightarrow> gf list) \<Rightarrow> gf list \<Rightarrow> hash_out" where
  "hash_or_noop perm inputs =
     (if length inputs * 8 \<le> HASH_SIZE
      then hash_from_bytes (foldl (\<lambda>bs i. take (i * 8) bs @ to_le_bytes (canon (inputs ! i)) @ drop ((i + 1) * 8) bs)
             (replicate HASH_SIZE 0) [0..<length inputs])
      else hash_n_to_hash_no_pad perm inputs)"

subsection \<open>Lengths\<close>

lemmas sponge_consts = NUM_HASH_OUT_ELTS_def SPONGE_RATE_def SPONGE_WIDTH_def HASH_SIZE_def

lemma length_set_from_slice: "length s = SPONGE_WIDTH \<Longrightarrow> i \<le> SPONGE_WIDTH \<Longrightarrow> length (set_from_slice s e i) = SPONGE_WIDTH"
  by (auto simp: set_from_slice_def Let_def)

context sponge_permutation
begin

lemma absorb_length: "length (absorb perm inputs) = SPONGE_WIDTH"
proof -
  have "length s = SPONGE_WIDTH \<Longrightarrow>
      length (foldl (\<lambda>state c. perm (set_from_slice state c 0)) s cs) = SPONGE_WIDTH" for s cs
    by (induction cs arbitrary: s) (simp_all add: perm_length length_set_from_slice)
  then show ?thesis by (simp add: absorb_def)
qed

lemma hash_n_to_hash_length: "length (hash_n_to_hash_no_pad perm inputs) = NUM_HASH_OUT_ELTS"
  using absorb_length [of inputs]
  by (simp add: hash_n_to_hash_no_pad_def hash_n_to_m_no_pad_def squeeze_loop.simps squeeze_def sponge_consts)

lemma compress_length: "length (compress perm x y) = NUM_HASH_OUT_ELTS"
proof -
  have "length (perm (set_from_slice (set_from_slice (replicate SPONGE_WIDTH 0) x 0) y NUM_HASH_OUT_ELTS)) = SPONGE_WIDTH"
    by (intro perm_length length_set_from_slice) (simp_all add: sponge_consts)
  then show ?thesis by (simp add: compress_def Let_def squeeze_def sponge_consts)
qed

lemma hash_or_noop_circuit_length: "length (hash_or_noop_circuit perm inputs) = NUM_HASH_OUT_ELTS"
  by (simp add: hash_or_noop_circuit_def hash_n_to_hash_length)

end

subsection \<open>In-circuit and off-circuit hashing agree\<close>

text \<open>Hashing the eight elements of two digests is the compression: one permutation each.\<close>

lemma hash_pair_is_compress:
  assumes "length x = NUM_HASH_OUT_ELTS" "length y = NUM_HASH_OUT_ELTS"
  shows "hash_n_to_hash_no_pad perm (x @ y) = compress perm x y"
proof -
  have "chunks SPONGE_RATE (x @ y) = [x @ y]"
    using assms by (subst chunks.simps) (auto simp: sponge_consts chunks.simps)
  moreover have "set_from_slice (replicate SPONGE_WIDTH 0) (x @ y) 0
      = set_from_slice (set_from_slice (replicate SPONGE_WIDTH 0) x 0) y NUM_HASH_OUT_ELTS"
    using assms by (simp add: set_from_slice_def sponge_consts)
  ultimately show ?thesis
    by (simp add: hash_n_to_hash_no_pad_def hash_n_to_m_no_pad_def squeeze_loop.simps absorb_def compress_def Let_def squeeze_def sponge_consts)
qed

lemma from_to_le_bytes: "v < 2 ^ 64 \<Longrightarrow> from_le_bytes (to_le_bytes v) = v"
proof -
  assume v: "v < 2 ^ 64"
  have "foldr (\<lambda>b acc. unat b + 256 * acc) (map (\<lambda>i. of_nat (v div 256 ^ i) :: u8) [k..<k + n]) 0 = v div 256 ^ k mod 256 ^ n" for k n
  proof (induction n arbitrary: k)
    case 0
    then show ?case by simp
  next
    case (Suc n)
    have "[k..<k + Suc n] = k # [Suc k..<Suc k + n]" by (simp add: upt_conv_Cons del: upt_Suc)
    then have "foldr (\<lambda>b acc. unat b + 256 * acc) (map (\<lambda>i. of_nat (v div 256 ^ i) :: u8) [k..<k + Suc n]) 0
        = (v div 256 ^ k) mod 256 + 256 * (v div 256 ^ Suc k mod 256 ^ n)"
      using Suc.IH [of "Suc k"] by (simp add: unat_of_nat)
    also have "v div 256 ^ Suc k = v div 256 ^ k div 256"
      by (simp add: div_mult2_eq [symmetric] mult.commute)
    also have "(v div 256 ^ k) mod 256 + 256 * (v div 256 ^ k div 256 mod 256 ^ n) = v div 256 ^ k mod (256 * 256 ^ n)"
      by (simp add: mod_mult2_eq)
    finally show ?case by simp
  qed
  from this [of 0 8] show ?thesis
    using v by (simp add: from_le_bytes_def to_le_bytes_def)
qed

lemma length_to_le_bytes [simp]: "length (to_le_bytes v) = 8"
  by (simp add: to_le_bytes_def)

lemma chunks_append: "length x = n \<Longrightarrow> 0 < n \<Longrightarrow> chunks n (x @ y) = x # chunks n y"
  by (subst chunks.simps) auto

lemma hash_or_noop_buffer:
  "k \<le> length inputs \<Longrightarrow> length inputs \<le> 4 \<Longrightarrow>
     foldl (\<lambda>bs i. take (i * 8) bs @ to_le_bytes (canon (inputs ! i)) @ drop ((i + 1) * 8) bs) (replicate 32 0) [0..<k]
     = concat (map (\<lambda>x. to_le_bytes (canon x)) (take k inputs)) @ replicate (32 - 8 * k) 0"
proof (induction k)
  case 0
  then show ?case by simp
next
  case (Suc k)
  let ?c = "concat (map (\<lambda>x. to_le_bytes (canon x)) (take k inputs))"
  have len: "length ?c = k * 8"
    using Suc.prems by (simp add: length_concat comp_def sum_list_triv)
  have "take (Suc k) inputs = take k inputs @ [inputs ! k]"
    using Suc.prems by (simp add: take_Suc_conv_app_nth)
  moreover have "drop ((k + 1) * 8) (?c @ replicate (32 - 8 * k) 0) = replicate (32 - 8 * Suc k) 0"
    using len by (simp add: algebra_simps)
  ultimately show ?case using Suc len by simp
qed

lemma chunks_concat_le:
  "chunks 8 (concat (map (\<lambda>x. to_le_bytes (canon x)) xs) @ zs) = map (\<lambda>x. to_le_bytes (canon x)) xs @ chunks 8 zs"
  by (induction xs) (simp_all add: chunks_append)

lemma chunks_zeros: "chunks 8 (replicate (8 * n) 0) = replicate n (replicate 8 (0 :: u8))"
proof (induction n)
  case (Suc n)
  have "replicate (8 * Suc n) (0 :: u8) = replicate 8 0 @ replicate (8 * n) 0"
    by (simp add: replicate_add [symmetric])
  then show ?case using Suc by (simp only: chunks_append length_replicate) simp
qed (simp add: chunks.simps)

lemma from_le_bytes_zeros: "from_le_bytes (replicate n 0) = 0"
  by (induction n) (simp_all add: from_le_bytes_def)

lemma hash_or_noop_agree: "hash_or_noop perm inputs = hash_or_noop_circuit perm inputs"
proof (cases "length inputs \<le> 4")
  case True
  let ?n = "length inputs"
  have "32 - 8 * ?n = 8 * (4 - ?n)" using True by simp
  then have z: "chunks 8 (replicate (32 - 8 * ?n) (0 :: u8)) = replicate (4 - ?n) (replicate 8 0)"
    by (simp only: chunks_zeros)
  have 1: "hash_or_noop perm inputs
      = map (\<lambda>c. of_nat (from_le_bytes c)) (map (\<lambda>x. to_le_bytes (canon x)) inputs @ replicate (4 - ?n) (replicate 8 0))"
  proof -
    have c: "length inputs * 8 \<le> 32" "HASH_SIZE = 32" using True by (simp_all add: HASH_SIZE_def)
    note b = hash_or_noop_buffer [OF order_refl True, unfolded take_all [OF order_refl]]
    have take4: "take NUM_HASH_OUT_ELTS (map (\<lambda>x. to_le_bytes (canon x)) inputs @ replicate (4 - ?n) (replicate 8 0))
        = map (\<lambda>x. to_le_bytes (canon x)) inputs @ replicate (4 - ?n) (replicate 8 0)"
      using True by (simp add: NUM_HASH_OUT_ELTS_def)
    show ?thesis
      by (simp only: hash_or_noop_def c if_True b hash_from_bytes_def chunks_concat_le z take4)
  qed
  have "canon x < 2 ^ 64" for x by (rule less_trans [OF canon_less]) simp
  then have 2: "map (\<lambda>c. of_nat (from_le_bytes c)) (map (\<lambda>x. to_le_bytes (canon x)) inputs) = inputs"
    by (simp add: comp_def from_to_le_bytes)
  have 3: "(of_nat (from_le_bytes (replicate 8 0)) :: gf) = 0"
    by (subst from_le_bytes_zeros) simp
  show ?thesis
    using True unfolding 1 map_append 2 map_replicate 3
    by (simp add: hash_or_noop_circuit_def sponge_consts)
qed (simp add: hash_or_noop_def hash_or_noop_circuit_def sponge_consts)

end
