(* ===== verification/Poseidon.thy ===== *)
theory Poseidon
  imports Poseidon_Constants Hashing
begin

text \<open>
  The Poseidon permutation of \<open>plonky2/src/hash/poseidon.rs\<close> on field elements: the layers, the
  full and the fast partial rounds, and the naive partial rounds the code keeps for testing.
  The permutation is the one the sponge of \<open>Hashing\<close> is instantiated with.
\<close>

definition mds_row_shf_field :: "nat \<Rightarrow> gf list \<Rightarrow> gf" where
  "mds_row_shf_field r v =
     (let res = foldl (\<lambda>res i. res + v ! ((i + r) mod SPONGE_WIDTH) * of_nat (MDS_MATRIX_CIRC ! i)) 0 [0..<SPONGE_WIDTH]
      in res + v ! r * of_nat (MDS_MATRIX_DIAG ! r))"

definition mds_layer_field :: "gf list \<Rightarrow> gf list" where
  "mds_layer_field state = map (\<lambda>r. mds_row_shf_field r state) [0..<SPONGE_WIDTH]"

definition partial_first_constant_layer :: "gf list \<Rightarrow> gf list" where
  "partial_first_constant_layer state =
     map (\<lambda>i. state ! i + of_nat (FAST_PARTIAL_FIRST_ROUND_CONSTANT ! i)) [0..<SPONGE_WIDTH]"

definition mds_partial_layer_init :: "gf list \<Rightarrow> gf list" where
  "mds_partial_layer_init state =
     state ! 0 # map (\<lambda>c. foldl (\<lambda>res r. res + state ! r * of_nat (FAST_PARTIAL_ROUND_INITIAL_MATRIX ! (r - 1) ! (c - 1))) 0
                            [1..<SPONGE_WIDTH])
                   [1..<SPONGE_WIDTH]"

definition mds_partial_layer_fast_field :: "gf list \<Rightarrow> nat \<Rightarrow> gf list" where
  "mds_partial_layer_fast_field state r =
     (let s0 = state ! 0;
          mds0to0 = MDS_MATRIX_CIRC ! 0 + MDS_MATRIX_DIAG ! 0;
          d = foldl (\<lambda>d i. d + state ! i * of_nat (FAST_PARTIAL_ROUND_W_HATS ! r ! (i - 1))) (s0 * of_nat mds0to0) [1..<SPONGE_WIDTH]
      in d # map (\<lambda>i. s0 * of_nat (FAST_PARTIAL_ROUND_VS ! r ! (i - 1)) + state ! i) [1..<SPONGE_WIDTH])"

definition constant_layer_field :: "gf list \<Rightarrow> nat \<Rightarrow> gf list" where
  "constant_layer_field state round_ctr =
     map (\<lambda>i. state ! i + of_nat (ALL_ROUND_CONSTANTS ! (i + SPONGE_WIDTH * round_ctr))) [0..<SPONGE_WIDTH]"

definition sbox_monomial :: "gf \<Rightarrow> gf" where
  "sbox_monomial x = (let x2 = x * x; x4 = x2 * x2; x3 = x * x2 in x3 * x4)"

definition sbox_layer_field :: "gf list \<Rightarrow> gf list" where
  "sbox_layer_field state = map sbox_monomial state"

definition full_round :: "gf list \<Rightarrow> nat \<Rightarrow> gf list" where
  "full_round state round_ctr = mds_layer_field (sbox_layer_field (constant_layer_field state round_ctr))"

definition full_rounds :: "gf list \<Rightarrow> nat \<Rightarrow> gf list \<times> nat" where
  "full_rounds state round_ctr =
     foldl (\<lambda>(state, round_ctr) _. (full_round state round_ctr, round_ctr + 1)) (state, round_ctr) [0..<HALF_N_FULL_ROUNDS]"

definition partial_round :: "gf list \<Rightarrow> nat \<Rightarrow> gf list" where
  "partial_round state i =
     (let s0 = sbox_monomial (state ! 0) + of_nat (FAST_PARTIAL_ROUND_CONSTANTS ! i)
      in mds_partial_layer_fast_field (state[0 := s0]) i)"

definition partial_rounds :: "gf list \<Rightarrow> nat \<Rightarrow> gf list \<times> nat" where
  "partial_rounds state round_ctr =
     (foldl partial_round (mds_partial_layer_init (partial_first_constant_layer state)) [0..<N_PARTIAL_ROUNDS],
      round_ctr + N_PARTIAL_ROUNDS)"

definition poseidon :: "gf list \<Rightarrow> gf list" where
  "poseidon state =
     (let (state, round_ctr) = full_rounds state 0;
          (state, round_ctr) = partial_rounds state round_ctr;
          (state, round_ctr) = full_rounds state round_ctr
      in state)"

text \<open>The reference: every partial round with its own constants and the full MDS matrix.\<close>

definition partial_round_naive :: "gf list \<Rightarrow> nat \<Rightarrow> gf list" where
  "partial_round_naive state round_ctr =
     (let state = constant_layer_field state round_ctr
      in mds_layer_field (state[0 := sbox_monomial (state ! 0)]))"

definition partial_rounds_naive :: "gf list \<Rightarrow> nat \<Rightarrow> gf list \<times> nat" where
  "partial_rounds_naive state round_ctr =
     foldl (\<lambda>(state, round_ctr) _. (partial_round_naive state round_ctr, round_ctr + 1)) (state, round_ctr) [0..<N_PARTIAL_ROUNDS]"

definition poseidon_naive :: "gf list \<Rightarrow> gf list" where
  "poseidon_naive state =
     (let (state, round_ctr) = full_rounds state 0;
          (state, round_ctr) = partial_rounds_naive state round_ctr;
          (state, round_ctr) = full_rounds state round_ctr
      in state)"

subsection \<open>The permutation keeps the width\<close>

lemma length_full_rounds: "length (fst (full_rounds state c)) = SPONGE_WIDTH"
proof -
  have "[0..<HALF_N_FULL_ROUNDS] = [0, 1, 2, 3]" by (simp add: HALF_N_FULL_ROUNDS_def upt_rec)
  then show ?thesis by (simp add: full_rounds_def full_round_def mds_layer_field_def)
qed

lemma poseidon_length: "length (poseidon state) = SPONGE_WIDTH"
  by (simp add: poseidon_def case_prod_unfold Let_def length_full_rounds)

text \<open>The sponge of the code; what later theories prove of sponges holds for it under this prefix.\<close>

interpretation poseidon_sponge: sponge_permutation poseidon
  by unfold_locales (simp add: poseidon_length)

end
