(* ===== verification/Merkle.thy ===== *)
theory Merkle
  imports Poseidon Attribute
begin

text \<open>
  Merkle trees (\<open>plonky2/src/hash/merkle_tree.rs\<close>, \<open>merkle_proofs.rs\<close>) and the credential
  commitments built on them (\<open>src/utils/merkle.rs\<close>).  The interface \<open>merkle_hash\<close> names the
  two hash functions a tree uses; its lemmas hold for every hasher, and it is interpreted by
  the sponge of \<open>Hashing\<close>.
\<close>

subsection \<open>Trees with the plonky2 digest layout\<close>

function fill_subtree :: "(gf list \<Rightarrow> hash_out) \<Rightarrow> (hash_out \<Rightarrow> hash_out \<Rightarrow> hash_out) \<Rightarrow> gf list list \<Rightarrow> hash_out list \<times> hash_out" where
  "fill_subtree leaf_hash two_to_one leaves =
     (if length leaves \<le> 1 then ([], leaf_hash (leaves ! 0))
      else let h = length leaves div 2;
               (left_digests, left_digest) = fill_subtree leaf_hash two_to_one (take h leaves);
               (right_digests, right_digest) = fill_subtree leaf_hash two_to_one (drop h leaves)
           in (left_digests @ [left_digest] @ [right_digest] @ right_digests, two_to_one left_digest right_digest))"
  by pat_completeness auto
termination
  by (relation "measure (\<lambda>(_, _, leaves). length leaves)") auto

declare fill_subtree.simps [simp del]

record merkle_tree =
  mt_leaves :: "gf list list"
  mt_digests :: "hash_out list"
  mt_cap :: "hash_out list"

definition fill_digests_buf ::
    "(gf list \<Rightarrow> hash_out) \<Rightarrow> (hash_out \<Rightarrow> hash_out \<Rightarrow> hash_out) \<Rightarrow> gf list list \<Rightarrow> nat \<Rightarrow> hash_out list \<times> hash_out list" where
  "fill_digests_buf leaf_hash two_to_one leaves cap_height =
     (let num_digests = 2 * (length leaves - 2 ^ cap_height) in
      if num_digests = 0 then ([], map leaf_hash leaves)
      else let subtree_leaves_len = drop_bit cap_height (length leaves);
               subtrees = map (fill_subtree leaf_hash two_to_one) (chunks subtree_leaves_len leaves)
           in (concat (map fst subtrees), map snd subtrees))"

text \<open>\<open>log2_strict\<close> panics unless its argument is a power of two.\<close>

fun log2 :: "nat \<Rightarrow> nat" where
  "log2 n = (if n \<le> 1 then 0 else Suc (log2 (n div 2)))"

declare log2.simps [simp del]

definition log2_strict :: "nat \<Rightarrow> nat res" where
  "log2_strict n = ensure (n = 2 ^ log2 n) (Panic ''Not a power of two'') (Inr (log2 n))"

definition merkle_tree_new ::
    "(gf list \<Rightarrow> hash_out) \<Rightarrow> (hash_out \<Rightarrow> hash_out \<Rightarrow> hash_out) \<Rightarrow> gf list list \<Rightarrow> nat \<Rightarrow> merkle_tree res" where
  "merkle_tree_new leaf_hash two_to_one leaves cap_height =
     bind_res (log2_strict (length leaves)) (\<lambda>log2_leaves_len.
     ensure (cap_height \<le> log2_leaves_len) (Panic ''cap_height should be at most log2(leaves.len())'')
       (let (digests, cap) = fill_digests_buf leaf_hash two_to_one leaves cap_height
        in Inr \<lparr>mt_leaves = leaves, mt_digests = digests, mt_cap = cap\<rparr>))"

definition sibling_index_at :: "nat \<Rightarrow> nat \<Rightarrow> nat" where
  "sibling_index_at leaf_index i =
     (let pair_index_before = drop_bit i leaf_index;
          parity = pair_index_before mod 2;
          pair_index = pair_index_before div 2;
          siblings_index = push_bit (i + 1) pair_index + 2 ^ i - 1
      in 2 * siblings_index + (1 - parity))"

definition merkle_tree_prove :: "nat \<Rightarrow> nat \<Rightarrow> nat \<Rightarrow> hash_out list \<Rightarrow> hash_out list res" where
  "merkle_tree_prove leaf_index leaves_len cap_height digests =
     bind_res (log2_strict leaves_len) (\<lambda>log_len.
     let num_layers = log_len - cap_height;
         digest_len = 2 * (leaves_len - 2 ^ cap_height) in
     ensure (digest_len = length digests) (Panic ''digest length'')
      (let tree_index = drop_bit num_layers leaf_index;
           tree_len = drop_bit cap_height digest_len in
       ensure (tree_len * (tree_index + 1) \<le> length digests) (Panic ''range end index out of range'')
        (let digest_tree = take tree_len (drop (tree_len * tree_index) digests);
             index = take_bit num_layers leaf_index in
         Inr (map (\<lambda>i. digest_tree ! sibling_index_at index i) [0..<num_layers]))))"

definition merkle_tree_prove_tree :: "merkle_tree \<Rightarrow> nat \<Rightarrow> hash_out list res" where
  "merkle_tree_prove_tree t leaf_index =
     bind_res (log2_strict (length (mt_cap t))) (\<lambda>cap_height.
     merkle_tree_prove leaf_index (length (mt_leaves t)) cap_height (mt_digests t))"

text \<open>
  \<open>verify_merkle_proof_to_cap\<close> is \<open>verify_batch_merkle_proof_to_cap\<close> with a single leaf, whose
  loop never meets a second height.
\<close>

definition merkle_climb :: "(hash_out \<Rightarrow> hash_out \<Rightarrow> hash_out) \<Rightarrow> hash_out \<Rightarrow> nat \<Rightarrow> hash_out list \<Rightarrow> hash_out \<times> nat" where
  "merkle_climb two_to_one digest leaf_index siblings =
     foldl (\<lambda>(current, index) sibling.
              (if index mod 2 = 1 then two_to_one sibling current else two_to_one current sibling, index div 2))
       (digest, leaf_index) siblings"

definition verify_merkle_proof_to_cap ::
    "(gf list \<Rightarrow> hash_out) \<Rightarrow> (hash_out \<Rightarrow> hash_out \<Rightarrow> hash_out) \<Rightarrow> gf list \<Rightarrow> nat \<Rightarrow> hash_out list \<Rightarrow> hash_out list \<Rightarrow> unit res" where
  "verify_merkle_proof_to_cap leaf_hash two_to_one leaf_data leaf_index cap siblings =
     (let (current_digest, index) = merkle_climb two_to_one (leaf_hash leaf_data) leaf_index siblings in
      ensure (index < length cap) (Panic ''index out of bounds'')
     (ensure (current_digest = cap ! index) (Bail ''Invalid Merkle proof.'') (Inr ())))"

definition verify_merkle_proof ::
    "(gf list \<Rightarrow> hash_out) \<Rightarrow> (hash_out \<Rightarrow> hash_out \<Rightarrow> hash_out) \<Rightarrow> gf list \<Rightarrow> nat \<Rightarrow> hash_out \<Rightarrow> hash_out list \<Rightarrow> unit res" where
  "verify_merkle_proof leaf_hash two_to_one leaf_data leaf_index merkle_root siblings =
     verify_merkle_proof_to_cap leaf_hash two_to_one leaf_data leaf_index [merkle_root] siblings"

subsection \<open>Trees of power-of-two size\<close>

lemma log2_power [simp]: "log2 (2 ^ k) = k"
proof (induction k)
  case (Suc k)
  have "\<not> 2 ^ Suc k \<le> (1 :: nat)" by (metis numeral_One one_less_power one_less_numeral_iff semiring_norm(76) not_le zero_less_Suc)
  then show ?case using Suc by (subst log2.simps) simp
qed (simp add: log2.simps)

lemma log2_strict_iff: "log2_strict n = Inr k \<longleftrightarrow> n = 2 ^ k"
  by (auto simp: log2_strict_def)

text \<open>The digest of a subtree and the sibling path of a leaf, by halving.\<close>

fun subtree_root :: "(hash_out \<Rightarrow> hash_out \<Rightarrow> hash_out) \<Rightarrow> nat \<Rightarrow> hash_out list \<Rightarrow> hash_out" where
  "subtree_root two_to_one 0 ds = ds ! 0"
| "subtree_root two_to_one (Suc k) ds =
     two_to_one (subtree_root two_to_one k (take (2 ^ k) ds)) (subtree_root two_to_one k (drop (2 ^ k) ds))"

text \<open>The pairs of digests that are compressed on the way to this root.\<close>

fun tree_inputs :: "(hash_out \<Rightarrow> hash_out \<Rightarrow> hash_out) \<Rightarrow> nat \<Rightarrow> hash_out list \<Rightarrow> (hash_out \<times> hash_out) list" where
  "tree_inputs two_to_one 0 ds = []"
| "tree_inputs two_to_one (Suc k) ds =
     (subtree_root two_to_one k (take (2 ^ k) ds), subtree_root two_to_one k (drop (2 ^ k) ds))
       # tree_inputs two_to_one k (take (2 ^ k) ds) @ tree_inputs two_to_one k (drop (2 ^ k) ds)"

text \<open>
  A collision among given inputs.  Collisions of a compression always exist; what a statement may
  rest on is that none shows up among the pairs that were actually hashed, a finite list.
\<close>

definition collides :: "(hash_out \<Rightarrow> hash_out \<Rightarrow> hash_out) \<Rightarrow> (hash_out \<times> hash_out) list \<Rightarrow> bool" where
  "collides two_to_one inputs \<longleftrightarrow>
     (\<exists>(a, b) \<in> set inputs. \<exists>(c, d) \<in> set inputs. (a, b) \<noteq> (c, d) \<and> two_to_one a b = two_to_one c d)"

lemma collides_mono: "collides tt xs \<Longrightarrow> set xs \<subseteq> set ys \<Longrightarrow> collides tt ys"
  unfolding collides_def by blast

lemma collides_pair:
  assumes "tt a b = tt c d" "(a, b) \<in> set xs" "(c, d) \<in> set xs"
  shows "(a = c \<and> b = d) \<or> collides tt xs"
proof (cases "(a, b) = (c, d)")
  case False
  then show ?thesis unfolding collides_def using assms by (intro disjI2 bexI [of _ "(a, b)"] bexI [of _ "(c, d)"] case_prodI2) simp_all
qed simp

lemma tree_inputs_halves:
  "set (tree_inputs tt k (take (2 ^ k) ds)) \<subseteq> set (tree_inputs tt (Suc k) ds)"
  "set (tree_inputs tt k (drop (2 ^ k) ds)) \<subseteq> set (tree_inputs tt (Suc k) ds)"
  by auto

lemma collides_Nil [simp]: "\<not> collides tt []"
  by (simp add: collides_def)

fun sibling_path :: "(hash_out \<Rightarrow> hash_out \<Rightarrow> hash_out) \<Rightarrow> nat \<Rightarrow> hash_out list \<Rightarrow> nat \<Rightarrow> hash_out list" where
  "sibling_path two_to_one 0 ds i = []"
| "sibling_path two_to_one (Suc k) ds i =
     (if i < 2 ^ k
      then sibling_path two_to_one k (take (2 ^ k) ds) i @ [subtree_root two_to_one k (drop (2 ^ k) ds)]
      else sibling_path two_to_one k (drop (2 ^ k) ds) (i - 2 ^ k) @ [subtree_root two_to_one k (take (2 ^ k) ds)])"

fun subtree_digests :: "(hash_out \<Rightarrow> hash_out \<Rightarrow> hash_out) \<Rightarrow> nat \<Rightarrow> hash_out list \<Rightarrow> hash_out list" where
  "subtree_digests two_to_one 0 ds = []"
| "subtree_digests two_to_one (Suc k) ds =
     subtree_digests two_to_one k (take (2 ^ k) ds)
     @ [subtree_root two_to_one k (take (2 ^ k) ds), subtree_root two_to_one k (drop (2 ^ k) ds)]
     @ subtree_digests two_to_one k (drop (2 ^ k) ds)"

lemma fill_subtree_power:
  "length leaves = 2 ^ k \<Longrightarrow>
     fill_subtree lh tt leaves = (subtree_digests tt k (map lh leaves), subtree_root tt k (map lh leaves))"
proof (induction k arbitrary: leaves)
  case 0
  then show ?case by (simp add: fill_subtree.simps)
next
  case (Suc k)
  have "(1::nat) \<le> 2 ^ k" by simp
  then have h: "length leaves div 2 = 2 ^ k" "\<not> length leaves \<le> 1"
    using Suc.prems unfolding power_Suc by (simp, linarith)
  have l: "length (take (2 ^ k) leaves) = 2 ^ k" "length (drop (2 ^ k) leaves) = 2 ^ k"
    using Suc.prems by simp_all
  show ?case
    using h Suc.IH [OF l(1)] Suc.IH [OF l(2)]
    by (subst fill_subtree.simps) (simp add: take_map drop_map Let_def)
qed

lemma length_subtree_digests: "length ds = 2 ^ k \<Longrightarrow> length (subtree_digests tt k ds) = 2 * (2 ^ k - 1)"
proof (induction k arbitrary: ds)
  case (Suc k)
  obtain p where "(2::nat) ^ k = Suc p" by (metis not0_implies_Suc power_not_zero zero_neq_numeral)
  then show ?case using Suc by simp
qed simp

lemma length_sibling_path: "length (sibling_path tt k ds i) = k"
  by (induction k arbitrary: ds i) auto

lemma chunks_exact: "length xs = n * m \<Longrightarrow> 0 < n \<Longrightarrow> length (chunks n xs) = m \<and> (\<forall>j < m. chunks n xs ! j = take n (drop (n * j) xs))"
proof (induction m arbitrary: xs)
  case 0
  then show ?case by (simp add: chunks.simps)
next
  case (Suc m)
  then have "xs \<noteq> []" "length (drop n xs) = n * m" by auto
  then show ?case
    using Suc.IH [of "drop n xs"] Suc.prems
    by (subst (1 2) chunks.simps) (auto simp: nth_Cons add.commute split: nat.splits)
qed

text \<open>The index arithmetic of \<open>merkle_tree_prove\<close> reads the sibling path off the digest layout.\<close>

lemma sibling_index_eq:
  "sibling_index_at idx i = 2 * (drop_bit i idx div 2 * (2 * 2 ^ i) + (2 ^ i - 1)) + (1 - drop_bit i idx mod 2)"
proof -
  obtain p where "(2::nat) ^ i = Suc p" by (metis not0_implies_Suc power_not_zero zero_neq_numeral)
  then show ?thesis by (simp add: sibling_index_at_def Let_def push_bit_eq_mult)
qed

lemma sibling_index_bound:
  assumes "idx < 2 ^ k" "i < k"
  shows "sibling_index_at idx i < 2 * (2 ^ k - 1)"
proof -
  let ?q = "drop_bit i idx div 2"
  have "?q = drop_bit (i + 1) idx" by (simp add: drop_bit_eq_div div_mult2_eq [symmetric] mult.commute)
  moreover have "drop_bit (i + 1) idx < 2 ^ (k - (i + 1))"
    using assms by (simp add: drop_bit_eq_div div_less_iff_less_mult power_add [symmetric] del: power_Suc)
  ultimately have "?q + 1 \<le> 2 ^ (k - (i + 1))" by simp
  then have "(?q + 1) * 2 ^ (i + 1) \<le> 2 ^ (k - (i + 1)) * 2 ^ (i + 1)" by (rule mult_le_mono1)
  also have "(2::nat) ^ (k - (i + 1)) * 2 ^ (i + 1) = 2 ^ k"
    using assms(2) by (simp only: power_add [symmetric]) simp
  finally have 1: "?q * (2 * 2 ^ i) + 2 * 2 ^ i \<le> 2 ^ k" by (simp add: algebra_simps)
  obtain p where p: "(2::nat) ^ i = Suc p" by (metis not0_implies_Suc power_not_zero zero_neq_numeral)
  obtain r where r: "(2::nat) ^ k = Suc r" by (metis not0_implies_Suc power_not_zero zero_neq_numeral)
  define Q b where "Q = ?q * (2 * Suc p)" and "b = 1 - drop_bit i idx mod 2"
  have "b \<le> 1" "Q + 2 * Suc p \<le> Suc r" using 1 p r by (simp_all add: Q_def b_def)
  then have "2 * (Q + p) + b < 2 * r" by simp
  then show ?thesis unfolding sibling_index_eq p r by (simp add: Q_def b_def)
qed

lemma sibling_index_left:
  assumes "length ds = 2 ^ k" "idx < 2 ^ k"
  shows "map (\<lambda>i. (subtree_digests tt k ds @ rest) ! sibling_index_at idx i) [0..<k]
    = map (\<lambda>i. subtree_digests tt k ds ! sibling_index_at idx i) [0..<k]"
  using sibling_index_bound [OF assms(2)] length_subtree_digests [OF assms(1), of tt] by (auto simp: nth_append)

lemma sibling_index_shift:
  assumes "i < k" "idx < 2 ^ k"
  shows "sibling_index_at (idx + 2 ^ k) i = sibling_index_at idx i + 2 * 2 ^ k"
proof -
  have split: "(2::nat) ^ k = 2 ^ i * (2 * 2 ^ (k - (i + 1)))"
  proof -
    have "k = i + (1 + (k - (i + 1)))" using assms(1) by simp
    then show ?thesis by (metis power_add power_one_right)
  qed
  have d: "drop_bit i (idx + 2 ^ k) = drop_bit i idx + 2 * 2 ^ (k - (i + 1))"
    unfolding drop_bit_eq_div split by simp
  then have "drop_bit i (idx + 2 ^ k) div 2 = drop_bit i idx div 2 + 2 ^ (k - (i + 1))"
    "drop_bit i (idx + 2 ^ k) mod 2 = drop_bit i idx mod 2" by simp_all
  moreover have "(2::nat) ^ (k - (i + 1)) * 2 ^ (i + 1) = 2 ^ k"
    using assms(1) by (simp only: power_add [symmetric]) simp
  ultimately show ?thesis
    by (simp add: sibling_index_eq algebra_simps)
qed

lemma sibling_index_top:
  assumes "idx < 2 ^ Suc k"
  shows "sibling_index_at idx k = 2 * (2 ^ k - 1) + (if idx < 2 ^ k then 1 else 0)"
proof -
  have "drop_bit k idx = (if idx < 2 ^ k then 0 else 1)"
    using assms by (auto simp: drop_bit_eq_div intro: div_nat_eqI)
  then show ?thesis
    by (simp add: sibling_index_at_def Let_def push_bit_eq_mult)
qed

lemma prove_reads_sibling_path:
  "length ds = 2 ^ k \<Longrightarrow> idx < 2 ^ k \<Longrightarrow>
     map (\<lambda>i. subtree_digests tt k ds ! sibling_index_at idx i) [0..<k] = sibling_path tt k ds idx"
proof (induction k arbitrary: ds idx)
  case 0
  then show ?case by simp
next
  case (Suc k)
  let ?l = "take (2 ^ k) ds" and ?r = "drop (2 ^ k) ds"
  let ?mid = "[subtree_root tt k ?l, subtree_root tt k ?r]"
  have len: "length ?l = 2 ^ k" "length ?r = 2 ^ k" using Suc.prems(1) by simp_all
  note ll = length_subtree_digests [OF len(1), of tt]
  have top: "subtree_digests tt (Suc k) ds ! sibling_index_at idx k
      = (if idx < 2 ^ k then subtree_root tt k ?r else subtree_root tt k ?l)"
    using ll unfolding sibling_index_top [OF Suc.prems(2)] by (simp add: nth_append)
  have map_Suc: "map f [0..<Suc k] = map f [0..<k] @ [f k]" for f :: "nat \<Rightarrow> hash_out" by simp
  show ?case
  proof (cases "idx < 2 ^ k")
    case True
    have "map (\<lambda>i. subtree_digests tt (Suc k) ds ! sibling_index_at idx i) [0..<k] = sibling_path tt k ?l idx"
      using sibling_index_left [OF len(1) True, of tt "?mid @ subtree_digests tt k ?r"] Suc.IH [OF len(1) True] by simp
    then show ?thesis using True top by (simp only: map_Suc) simp
  next
    case False
    define j where "j = idx - 2 ^ k"
    have j: "idx = j + 2 ^ k" "j < 2 ^ k" using False Suc.prems(2) by (simp_all add: j_def)
    have "subtree_digests tt (Suc k) ds ! sibling_index_at idx i = subtree_digests tt k ?r ! sibling_index_at j i" if "i < k" for i
    proof -
      obtain p where "(2::nat) ^ k = Suc p" by (metis not0_implies_Suc power_not_zero zero_neq_numeral)
      then have "sibling_index_at idx i = length (subtree_digests tt k ?l @ ?mid) + sibling_index_at j i"
        using ll unfolding j(1) sibling_index_shift [OF that j(2)] by simp
      moreover have "subtree_digests tt (Suc k) ds = (subtree_digests tt k ?l @ ?mid) @ subtree_digests tt k ?r"
        by simp
      ultimately show ?thesis by (simp only: nth_append_length_plus)
    qed
    then have "map (\<lambda>i. subtree_digests tt (Suc k) ds ! sibling_index_at idx i) [0..<k] = sibling_path tt k ?r j"
      using Suc.IH [OF len(2) j(2)] by (metis (mono_tags, lifting) map_cong atLeastLessThan_iff set_upt)
    then show ?thesis using False top by (simp only: map_Suc) (simp add: j_def)
  qed
qed

subsection \<open>Proofs verify\<close>

lemma climb_append:
  "merkle_climb tt d i (xs @ [s]) =
     (let (c, j) = merkle_climb tt d i xs in (if j mod 2 = 1 then tt s c else tt c s, j div 2))"
  by (simp add: merkle_climb_def split: prod.splits)

lemma climb_index: "snd (merkle_climb tt d i xs) = i div 2 ^ length xs"
  by (induction xs rule: rev_induct)
    (simp_all add: climb_append case_prod_unfold Let_def div_mult2_eq [symmetric] mult.commute, simp add: merkle_climb_def)

text \<open>The climb only uses the low bits of the index.\<close>

lemma climb_low_bits: "fst (merkle_climb tt d (i + 2 ^ length xs * m) xs) = fst (merkle_climb tt d i xs)"
proof (induction xs arbitrary: m rule: rev_induct)
  case (snoc s xs)
  have 1: "i + 2 ^ length (xs @ [s]) * m = i + 2 ^ length xs * (2 * m)" by simp
  have "snd (merkle_climb tt d (i + 2 ^ length xs * (2 * m)) xs) mod 2 = snd (merkle_climb tt d i xs) mod 2"
    by (simp add: climb_index)
  then show ?case using snoc [of "2 * m"]
    unfolding 1 climb_append by (simp add: case_prod_unfold Let_def)
qed (simp add: merkle_climb_def)

lemma climb_sibling_path:
  "length ds = 2 ^ k \<Longrightarrow> i < 2 ^ k \<Longrightarrow>
     fst (merkle_climb tt (ds ! i) i (sibling_path tt k ds i)) = subtree_root tt k ds"
proof (induction k arbitrary: ds i)
  case 0
  then show ?case by (simp add: merkle_climb_def)
next
  case (Suc k)
  have len: "length (take (2 ^ k) ds) = 2 ^ k" "length (drop (2 ^ k) ds) = 2 ^ k" using Suc.prems(1) by simp_all
  show ?case
  proof (cases "i < 2 ^ k")
    case True
    have "snd (merkle_climb tt (ds ! i) i (sibling_path tt k (take (2 ^ k) ds) i)) = 0"
      using True by (simp add: climb_index length_sibling_path)
    then show ?thesis using True Suc.IH [OF len(1) True]
      by (simp add: climb_append case_prod_unfold Let_def)
  next
    case False
    define j where "j = i - 2 ^ k"
    have j: "i = j + 2 ^ k" "j < 2 ^ k" using False Suc.prems(2) by (simp_all add: j_def)
    let ?p = "sibling_path tt k (drop (2 ^ k) ds) j"
    have "(j + 2 ^ k) div 2 ^ k = 1" using j(2) by (simp add: div_nat_eqI)
    then have "snd (merkle_climb tt (ds ! i) i ?p) = 1"
      using j by (simp add: climb_index length_sibling_path)
    moreover have "fst (merkle_climb tt (ds ! i) i ?p) = subtree_root tt k (drop (2 ^ k) ds)"
      using climb_low_bits [of tt "ds ! i" j ?p 1] Suc.IH [OF len(2) j(2)] Suc.prems(1) j
      by (simp add: length_sibling_path add.commute)
    ultimately show ?thesis using False
      by (simp add: climb_append case_prod_unfold Let_def j_def)
  qed
qed

lemma concat_blocks:
  "\<forall>xs \<in> set xss. length xs = l \<Longrightarrow> j < length xss \<Longrightarrow> take l (drop (l * j) (concat xss)) = xss ! j"
proof (induction xss arbitrary: j)
  case (Cons xs xss)
  then show ?case by (cases j) simp_all
qed simp

lemma length_concat_blocks: "\<forall>xs \<in> set xss. length xs = l \<Longrightarrow> length (concat xss) = length xss * l"
  by (induction xss) simp_all

lemma merkle_tree_new_Inr:
  assumes "merkle_tree_new lh tt leaves c = Inr t"
  obtains k where "length leaves = 2 ^ k" "c \<le> k" "mt_leaves t = leaves"
    "length (mt_cap t) = 2 ^ c" "length (mt_digests t) = 2 * (2 ^ k - 2 ^ c)"
    "\<forall>j < 2 ^ c. mt_cap t ! j = subtree_root tt (k - c) (map lh (take (2 ^ (k - c)) (drop (2 ^ (k - c) * j) leaves)))"
    "\<forall>j < 2 ^ c. take (2 * (2 ^ (k - c) - 1)) (drop (2 * (2 ^ (k - c) - 1) * j) (mt_digests t))
        = subtree_digests tt (k - c) (map lh (take (2 ^ (k - c)) (drop (2 ^ (k - c) * j) leaves)))"
proof -
  obtain k where k: "length leaves = 2 ^ k" "c \<le> k"
      "t = \<lparr>mt_leaves = leaves, mt_digests = fst (fill_digests_buf lh tt leaves c), mt_cap = snd (fill_digests_buf lh tt leaves c)\<rparr>"
    using assms by (auto simp: merkle_tree_new_def log2_strict_iff case_prod_unfold Let_def)
  let ?m = "2 ^ (k - c) :: nat"
  have pow: "?m * 2 ^ c = 2 ^ k" using k(2) by (simp add: power_add [symmetric])
  let ?sub = "\<lambda>j. map lh (take ?m (drop (?m * j) leaves))"
  have "drop_bit c (2 ^ k) = ?m" using pow by (simp add: drop_bit_eq_div flip: pow)
  define subtrees where "subtrees = map (fill_subtree lh tt) (chunks ?m leaves)"
  have ch: "length (chunks ?m leaves) = 2 ^ c" "\<forall>j < 2 ^ c. chunks ?m leaves ! j = take ?m (drop (?m * j) leaves)"
    using chunks_exact [of leaves ?m "2 ^ c"] k(1) pow by simp_all
  have lenc: "length (take ?m (drop (?m * j) leaves)) = ?m" if "j < 2 ^ c" for j
  proof -
    have "?m * (j + 1) \<le> ?m * 2 ^ c" using that by (intro mult_le_mono2) simp
    then show ?thesis using k(1) pow by (simp add: algebra_simps)
  qed
  have sub: "subtrees ! j = (subtree_digests tt (k - c) (?sub j), subtree_root tt (k - c) (?sub j))" if "j < 2 ^ c" for j
    using that ch fill_subtree_power [OF lenc [OF that]] by (simp add: subtrees_def)
  have len: "length subtrees = 2 ^ c" using ch by (simp add: subtrees_def)
  have lens: "\<forall>xs \<in> set (map fst subtrees). length xs = 2 * (?m - 1)"
    using len lenc by (auto simp: in_set_conv_nth sub length_subtree_digests)
  have digests: "length (concat (map fst subtrees)) = 2 * (2 ^ k - 2 ^ c)"
    unfolding length_concat_blocks [OF lens] using len pow by (simp add: algebra_simps diff_mult_distrib2)
  have blocks: "take (2 * (?m - 1)) (drop (2 * (?m - 1) * j) (concat (map fst subtrees))) = subtree_digests tt (k - c) (?sub j)"
    if "j < 2 ^ c" for j
    using concat_blocks [OF lens, of j] that len sub [OF that] by simp
  have "fill_digests_buf lh tt leaves c = (concat (map fst subtrees), map snd subtrees)"
  proof (cases "k = c")
    case True
    have one: "chunks (Suc 0) xs = map (\<lambda>x. [x]) xs" for xs :: "gf list list"
      by (induction xs) (simp_all add: chunks.simps)
    have "fill_subtree lh tt [x] = ([], lh x)" for x by (simp add: fill_subtree.simps)
    then show ?thesis using True k(1) by (simp add: fill_digests_buf_def subtrees_def one comp_def)
  next
    case False
    then have "(2::nat) ^ c < 2 ^ k" using k(2) by (intro power_strict_increasing) simp_all
    then show ?thesis using k(1) \<open>drop_bit c (2 ^ k) = ?m\<close>
      by (simp add: fill_digests_buf_def Let_def subtrees_def)
  qed
  then show ?thesis
    using that [OF k(1,2)] k(3) len digests blocks sub by simp
qed

lemma merkle_prove_verify:
  assumes t: "merkle_tree_new lh tt leaves c = Inr t" and i: "i < length leaves"
  obtains path where "merkle_tree_prove_tree t i = Inr path"
    "verify_merkle_proof_to_cap lh tt (leaves ! i) i (mt_cap t) path = Inr ()"
proof -
  obtain k where k: "length leaves = 2 ^ k" "c \<le> k" "mt_leaves t = leaves"
    "length (mt_cap t) = 2 ^ c" "length (mt_digests t) = 2 * (2 ^ k - 2 ^ c)"
    "\<forall>j < 2 ^ c. mt_cap t ! j = subtree_root tt (k - c) (map lh (take (2 ^ (k - c)) (drop (2 ^ (k - c) * j) leaves)))"
    "\<forall>j < 2 ^ c. take (2 * (2 ^ (k - c) - 1)) (drop (2 * (2 ^ (k - c) - 1) * j) (mt_digests t))
        = subtree_digests tt (k - c) (map lh (take (2 ^ (k - c)) (drop (2 ^ (k - c) * j) leaves)))"
    by (rule merkle_tree_new_Inr [OF t])
  let ?d = "k - c"
  let ?m = "2 ^ ?d :: nat"
  have pow: "?m * 2 ^ c = 2 ^ k" using k(2) by (simp add: power_add [symmetric])
  define j where "j = i div ?m"
  define r where "r = i mod ?m"
  have ir: "i = r + ?m * j" "r < ?m" by (simp_all add: j_def r_def)
  have j: "j < 2 ^ c" using i k(1) pow by (simp add: j_def div_less_iff_less_mult mult.commute)
  let ?ds = "map lh (take ?m (drop (?m * j) leaves))"
  have "?m * (j + 1) \<le> ?m * 2 ^ c" using j by (intro mult_le_mono2) simp
  then have len: "length ?ds = ?m" using k(1) pow by (simp add: algebra_simps)
  have ds: "?ds ! r = lh (leaves ! i)" using ir len i by (simp add: add.commute)
  define path where "path = sibling_path tt ?d ?ds r"
  have "drop_bit c (2 * (2 ^ k - 2 ^ c)) = 2 * (?m - 1)"
  proof -
    have "2 * (2 ^ k - 2 ^ c) = 2 * (?m - 1) * 2 ^ c" using pow by (simp add: algebra_simps diff_mult_distrib2)
    then show ?thesis by (simp add: drop_bit_eq_div)
  qed
  moreover have "drop_bit ?d i = j" "take_bit ?d i = r"
    by (simp_all add: drop_bit_eq_div take_bit_eq_mod j_def r_def)
  moreover have "2 * (?m - 1) * (j + 1) \<le> 2 * (2 ^ k - 2 ^ c)"
  proof -
    have "2 * (?m - 1) * (j + 1) \<le> 2 * (?m - 1) * 2 ^ c" using j by (intro mult_le_mono2) simp
    also have "\<dots> = 2 * (2 ^ k - 2 ^ c)" using pow by (simp add: algebra_simps diff_mult_distrib2)
    finally show ?thesis .
  qed
  moreover have "log2_strict (2 ^ c) = Inr c" "log2_strict (2 ^ k) = Inr k" by (simp_all add: log2_strict_iff)
  ultimately have "merkle_tree_prove_tree t i = Inr path"
    using k(1,3,4,5) k(7) j prove_reads_sibling_path [OF len ir(2), of tt]
    by (simp add: merkle_tree_prove_tree_def merkle_tree_prove_def Let_def path_def)
  moreover have "verify_merkle_proof_to_cap lh tt (leaves ! i) i (mt_cap t) path = Inr ()"
  proof -
    have "fst (merkle_climb tt (lh (leaves ! i)) i path) = subtree_root tt ?d ?ds"
      using climb_low_bits [of tt "lh (leaves ! i)" r path j] climb_sibling_path [OF len ir(2), of tt] ds ir(1)
      by (simp add: path_def length_sibling_path)
    moreover have "snd (merkle_climb tt (lh (leaves ! i)) i path) = j"
      by (simp add: climb_index path_def length_sibling_path j_def)
    ultimately show ?thesis
      using j k(4,6) by (simp add: verify_merkle_proof_to_cap_def case_prod_unfold Let_def)
  qed
  ultimately show ?thesis by (rule that)
qed

subsection \<open>Verification in the circuit\<close>

text \<open>
  \<open>permute_swapped\<close> of the \<open>PoseidonGate\<close>: the swap wire is constrained boolean, the delta
  wires are \<open>swap * (rhs - lhs)\<close>, and the permutation is applied to the swapped input.
\<close>

definition swapped_inputs :: "gf list \<Rightarrow> gf \<Rightarrow> gf list" where
  "swapped_inputs inputs swap =
     map (\<lambda>i. if i < 4 then inputs ! i + swap * (inputs ! (i + 4) - inputs ! i)
              else if i < 8 then inputs ! i - swap * (inputs ! i - inputs ! (i - 4))
              else inputs ! i) [0..<SPONGE_WIDTH]"

definition permute_swapped :: "(gf list \<Rightarrow> gf list) \<Rightarrow> gf list \<Rightarrow> gf \<Rightarrow> gf list option" where
  "permute_swapped perm inputs swap =
     (if swap * (swap - 1) = 0 then Some (perm (swapped_inputs inputs swap)) else None)"

fun merkle_climb_circuit :: "(gf list \<Rightarrow> gf list) \<Rightarrow> hash_out \<Rightarrow> gf list \<Rightarrow> hash_out list \<Rightarrow> hash_out option" where
  "merkle_climb_circuit perm state (b # leaf_index_bits) (sibling # siblings) =
     (let perm_inputs = replicate SPONGE_WIDTH 0;
          perm_inputs = set_from_slice perm_inputs state 0;
          perm_inputs = set_from_slice perm_inputs sibling NUM_HASH_OUT_ELTS;
          perm_inputs = set_from_slice perm_inputs (replicate (SPONGE_WIDTH - 2 * NUM_HASH_OUT_ELTS) 0) (2 * NUM_HASH_OUT_ELTS)
      in case permute_swapped perm perm_inputs b of
           Some perm_outs \<Rightarrow> merkle_climb_circuit perm (take NUM_HASH_OUT_ELTS (squeeze perm_outs)) leaf_index_bits siblings
         | None \<Rightarrow> None)"
| "merkle_climb_circuit perm state _ _ = Some state"

definition verify_merkle_proof_to_cap_with_cap_index ::
    "(gf list \<Rightarrow> gf list) \<Rightarrow> gf list \<Rightarrow> gf list \<Rightarrow> gf \<Rightarrow> hash_out list \<Rightarrow> hash_out list \<Rightarrow> bool" where
  "verify_merkle_proof_to_cap_with_cap_index perm leaf_data leaf_index_bits cap_index cap siblings \<longleftrightarrow>
     (case merkle_climb_circuit perm (hash_or_noop_circuit perm leaf_data) leaf_index_bits siblings of
        None \<Rightarrow> False
      | Some state \<Rightarrow> list_all (\<lambda>i. random_access cap_index (map (\<lambda>h. h ! i) cap) (state ! i)) [0..<NUM_HASH_OUT_ELTS])"

definition verify_merkle_proof_to_cap_circuit ::
    "(gf list \<Rightarrow> gf list) \<Rightarrow> nat \<Rightarrow> gf list \<Rightarrow> gf list \<Rightarrow> hash_out list \<Rightarrow> hash_out list \<Rightarrow> gf list \<Rightarrow> gf \<Rightarrow> bool" where
  "verify_merkle_proof_to_cap_circuit perm num_limbs leaf_data leaf_index_bits cap siblings limbs cap_index \<longleftrightarrow>
     le_sum_circuit num_limbs (drop (length siblings) leaf_index_bits) limbs cap_index
   \<and> verify_merkle_proof_to_cap_with_cap_index perm leaf_data leaf_index_bits cap_index cap siblings"

lemma permute_swapped_bool:
  assumes "length x = 4" "length y = 4"
  shows "permute_swapped perm (x @ y @ replicate 4 0) (of_bool b)
    = Some (perm ((if b then y @ x else x @ y) @ replicate 4 0))"
proof -
  have "swapped_inputs (x @ y @ replicate 4 0) (of_bool b) = (if b then y @ x else x @ y) @ replicate 4 0"
    using assms by (intro nth_equalityI) (auto simp: swapped_inputs_def nth_append sponge_consts)
  then show ?thesis by (simp add: permute_swapped_def)
qed

lemma permute_swapped_Some: "permute_swapped perm xs b = Some ys \<Longrightarrow> b = 0 \<or> b = 1"
  by (auto simp: permute_swapped_def split: if_splits)

lemma bits_val_drop: "bits_val (drop n bs) = bits_val bs div 2 ^ n"
proof (induction n arbitrary: bs)
  case (Suc n)
  then show ?case by (cases bs) (simp_all add: div_mult2_eq)
qed simp

lemma next_power_of_two_exact: "next_power_of_two (2 ^ k) = 2 ^ k"
proof (induction k)
  case (Suc k)
  have "(2 ^ Suc k + 1) div 2 = (2 :: nat) ^ k" by simp
  moreover have "\<not> 2 ^ Suc k \<le> (1 :: nat)"
    using one_le_power [of "2 :: nat" k] by (simp only: power_Suc) linarith
  ultimately show ?case using Suc by (subst next_power_of_two.simps) simp
qed (simp add: next_power_of_two.simps)

lemma random_access_iff:
  assumes "length v = 2 ^ c" "canon i < 2 ^ c"
  shows "random_access i v y \<longleftrightarrow> y = v ! canon i"
  using assms by (cases "c = 0") (auto simp: random_access_def Let_def next_power_of_two_exact next_power_of_two.simps [of "Suc 0"])

context sponge_permutation
begin

lemma merkle_climb_circuit_bools:
  assumes "length state = 4" "\<forall>s \<in> set siblings. length s = 4" "length siblings \<le> length bs"
  shows "merkle_climb_circuit perm state (map of_bool bs) siblings
    = Some (fst (merkle_climb (compress perm) state (bits_val bs) siblings))"
  using assms
proof (induction siblings arbitrary: state bs)
  case Nil
  then show ?case by (cases bs) (simp_all add: merkle_climb_def)
next
  case (Cons s siblings)
  then obtain b bs' where bs: "bs = b # bs'" by (cases bs) auto
  have inp: "set_from_slice (set_from_slice (set_from_slice (replicate SPONGE_WIDTH 0) x 0) y NUM_HASH_OUT_ELTS)
      (replicate (SPONGE_WIDTH - 2 * NUM_HASH_OUT_ELTS) 0) (2 * NUM_HASH_OUT_ELTS) = x @ y @ replicate 4 0"
    "set_from_slice (set_from_slice (replicate SPONGE_WIDTH 0) x 0) y NUM_HASH_OUT_ELTS = x @ y @ replicate 4 (0 :: gf)"
    if "length x = 4" "length y = 4" for x y :: "gf list"
    using that by (simp_all add: set_from_slice_def sponge_consts)
  have s: "length s = 4" using Cons.prems by simp
  let ?new = "if b then compress perm s state else compress perm state s"
  have new: "take NUM_HASH_OUT_ELTS (squeeze (perm ((if b then s @ state else state @ s) @ replicate 4 0))) = ?new"
    using inp Cons.prems(1) s by (auto simp: compress_def Let_def)
  have "length ?new = 4" using compress_length by (simp add: sponge_consts)
  then have "merkle_climb_circuit perm ?new (map of_bool bs') siblings
      = Some (fst (merkle_climb (compress perm) ?new (bits_val bs') siblings))"
    using Cons bs by simp
  then show ?case
    using inp(1) [OF Cons.prems(1) s] permute_swapped_bool [OF Cons.prems(1) s, of perm b] new
    by (simp add: bs Let_def merkle_climb_def)
qed

lemma merkle_climb_circuit_boolean:
  "merkle_climb_circuit perm state bits siblings = Some out \<Longrightarrow>
     \<forall>b \<in> set (take (length siblings) bits). b = 0 \<or> b = 1"
  by (induction perm state bits siblings rule: merkle_climb_circuit.induct)
    (auto simp: Let_def dest: permute_swapped_Some split: option.splits)

lemma verify_circuit_with_cap_index_iff:
  assumes sib: "\<forall>s \<in> set siblings. length s = 4" and cap: "length cap = 2 ^ c" "\<forall>s \<in> set cap. length s = 4"
    and len: "length bs = length siblings + c" and idx: "canon cap_index = bits_val (drop (length siblings) bs)"
  shows "verify_merkle_proof_to_cap_with_cap_index perm leaf (map of_bool bs) cap_index cap siblings
    \<longleftrightarrow> verify_merkle_proof_to_cap (hash_or_noop perm) (compress perm) leaf (bits_val bs) cap siblings = Inr ()"
proof -
  let ?d = "hash_or_noop perm leaf"
  let ?out = "merkle_climb (compress perm) ?d (bits_val bs) siblings"
  let ?i = "bits_val (drop (length siblings) bs)"
  have d: "length ?d = 4" using hash_or_noop_circuit_length by (simp add: hash_or_noop_agree sponge_consts)
  have out: "merkle_climb_circuit perm (hash_or_noop_circuit perm leaf) (map of_bool bs) siblings = Some (fst ?out)"
    using merkle_climb_circuit_bools [OF d sib] len by (simp add: hash_or_noop_agree)
  have i: "snd ?out = ?i" by (simp add: climb_index bits_val_drop)
  have less: "?i < 2 ^ c" using bits_val_less [of "drop (length siblings) bs"] len by simp
  have leng: "length (fst ?out) = 4"
  proof (cases siblings rule: rev_cases)
    case Nil
    then show ?thesis using d by (simp add: merkle_climb_def)
  next
    case (snoc xs s)
    then show ?thesis using compress_length by (simp add: climb_append case_prod_unfold Let_def sponge_consts)
  qed
  have "verify_merkle_proof_to_cap_with_cap_index perm leaf (map of_bool bs) cap_index cap siblings
      \<longleftrightarrow> (\<forall>j < 4. fst ?out ! j = cap ! ?i ! j)"
    using random_access_iff [of "map (\<lambda>h. h ! j) cap" c cap_index for j] cap(1) idx less
    by (simp add: verify_merkle_proof_to_cap_with_cap_index_def out list_all_iff sponge_consts Ball_def)
  also have "\<dots> \<longleftrightarrow> fst ?out = cap ! ?i"
    using leng cap less by (auto intro!: nth_equalityI)
  also have "\<dots> \<longleftrightarrow> verify_merkle_proof_to_cap (hash_or_noop perm) (compress perm) leaf (bits_val bs) cap siblings = Inr ()"
    using i less cap(1) by (simp add: verify_merkle_proof_to_cap_def case_prod_unfold Let_def)
  finally show ?thesis .
qed

lemma verify_circuit_sound:
  assumes "verify_merkle_proof_to_cap_circuit perm num_limbs leaf (map of_bool bs) cap siblings limbs cap_index"
    and sib: "\<forall>s \<in> set siblings. length s = 4" and cap: "length cap = 2 ^ c" "\<forall>s \<in> set cap. length s = 4"
    and len: "length bs = length siblings + c" and c: "c \<le> num_limbs"
  shows "verify_merkle_proof_to_cap (hash_or_noop perm) (compress perm) leaf (bits_val bs) cap siblings = Inr ()"
proof -
  have le: "le_sum_circuit num_limbs (map of_bool (drop (length siblings) bs)) limbs cap_index"
      and v: "verify_merkle_proof_to_cap_with_cap_index perm leaf (map of_bool bs) cap_index cap siblings"
    using assms(1) by (simp_all add: verify_merkle_proof_to_cap_circuit_def drop_map)
  have c63: "c \<le> 63" using le len by (simp add: le_sum_circuit_def)
  have "cap_index = of_nat (bits_val (drop (length siblings) bs))"
    using le_sum_value [OF le refl] len c by simp
  moreover have "bits_val (drop (length siblings) bs) < goldilocks_order"
  proof -
    have "bits_val (drop (length siblings) bs) < 2 ^ c" using bits_val_less [of "drop (length siblings) bs"] len by simp
    also have "(2::nat) ^ c \<le> 2 ^ 63" using c63 by (intro power_increasing) simp_all
    finally show ?thesis by simp
  qed
  ultimately have "canon cap_index = bits_val (drop (length siblings) bs)" by simp
  then show ?thesis using v verify_circuit_with_cap_index_iff [OF sib cap len] by simp
qed

end

end
