(* ===== verification/Commitment.thy ===== *)
theory Commitment
  imports Merkle
begin

text \<open>
  The credential commitments of \<open>src/utils/merkle.rs\<close>: an attribute list is committed to by the
  Merkle root of its hashed leaves, padded and masked with empty markers.  The interface
  \<open>tree_hasher\<close> says what the in-circuit root needs of the hash functions; every sponge
  provides it.
\<close>

definition attribute_to_field_elements :: "attribute \<Rightarrow> gf list" where
  "attribute_to_field_elements attr = map of_nat (to_u32_limbs_le attr)"

definition attribute_to_hashed_leaf :: "(gf list \<Rightarrow> gf list) \<Rightarrow> attribute \<Rightarrow> hash_out res" where
  "attribute_to_hashed_leaf perm attr =
     bind_res (is_empty attr) (\<lambda>e.
     Inr (if e then replicate NUM_HASH_OUT_ELTS 0 else hash_or_noop perm (attribute_to_field_elements attr)))"

definition is_power_of_two :: "nat \<Rightarrow> bool" where
  "is_power_of_two n \<longleftrightarrow> n = 2 ^ log2 n"

definition attributes_to_leaves :: "(gf list \<Rightarrow> gf list) \<Rightarrow> attribute list \<Rightarrow> hash_out list res" where
  "attributes_to_leaves perm attrs =
     (if attrs = [] \<or> \<not> is_power_of_two (length attrs)
      then Inl (Bail ''attribute count must be a nonzero power of two'')
      else let expected_len = len_bytes (attrs ! 0) in
        if \<exists>attr \<in> set attrs. len_bytes attr \<noteq> expected_len then Inl (Bail ''attribute length mismatch'')
        else map_res (attribute_to_hashed_leaf perm) attrs)"

definition compute_merkle_root :: "(gf list \<Rightarrow> gf list) \<Rightarrow> attribute list \<Rightarrow> hash_out res" where
  "compute_merkle_root perm attrs =
     bind_res (attributes_to_leaves perm attrs) (\<lambda>leaves.
     bind_res (merkle_tree_new (hash_or_noop perm) (compress perm) leaves 0) (\<lambda>tree.
     Inr (mt_cap tree ! 0)))"

definition compute_merkle_proof :: "(gf list \<Rightarrow> gf list) \<Rightarrow> attribute list \<Rightarrow> nat \<Rightarrow> hash_out list res" where
  "compute_merkle_proof perm attrs index =
     bind_res (attributes_to_leaves perm attrs) (\<lambda>leaves.
     bind_res (merkle_tree_new (hash_or_noop perm) (compress perm) leaves 0) (\<lambda>tree.
     merkle_tree_prove_tree tree index))"

definition pad_attributes :: "attribute list \<Rightarrow> nat \<Rightarrow> attribute list res" where
  "pad_attributes attrs num_max_attributes =
     (if attrs = [] then Inl (Bail ''attributes must be non-empty'')
      else if num_max_attributes < length attrs \<or> \<not> is_power_of_two num_max_attributes
      then Inl (Bail ''num_max_attributes must be a power of two'')
      else bind_res (empty_marker (len_bytes (attrs ! 0))) (\<lambda>e.
             Inr (attrs @ replicate (num_max_attributes - length attrs) e)))"

definition mask_attributes :: "attribute list \<Rightarrow> bool list \<Rightarrow> attribute list res" where
  "mask_attributes attrs bitmap =
     (if length attrs \<noteq> length bitmap then Inl (Bail ''bitmap length must match attribute count'')
      else map_res (\<lambda>(attr, keep). if keep then Inr attr else empty_marker (len_bytes attr)) (zip attrs bitmap))"

text \<open>\<open>merkle_root_from_leaves\<close>, the root computed by the circuit level by level.\<close>

fun pair_level :: "(gf list \<Rightarrow> hash_out) \<Rightarrow> hash_out list \<Rightarrow> hash_out list" where
  "pair_level pair_hash (left # right # rest) = pair_hash (left @ right) # pair_level pair_hash rest"
| "pair_level pair_hash _ = []"

lemma length_pair_level [simp]: "length (pair_level pair_hash xs) = length xs div 2"
  by (induction pair_hash xs rule: pair_level.induct) simp_all

function merkle_levels :: "(gf list \<Rightarrow> hash_out) \<Rightarrow> hash_out list \<Rightarrow> hash_out" where
  "merkle_levels pair_hash level =
     (if 1 < length level then merkle_levels pair_hash (pair_level pair_hash level) else level ! 0)"
  by pat_completeness auto
termination
  by (relation "measure (\<lambda>(_, level). length level)") auto

declare merkle_levels.simps [simp del]

definition merkle_root_from_leaves :: "(gf list \<Rightarrow> gf list) \<Rightarrow> gf list list \<Rightarrow> hash_out res" where
  "merkle_root_from_leaves perm leaves =
     ensure (leaves \<noteq> [] \<and> is_power_of_two (length leaves)) (Panic ''leaf count must be a nonzero power of two'')
       (Inr (merkle_levels (hash_n_to_hash_no_pad perm) (map (hash_or_noop_circuit perm) leaves)))"

subsection \<open>The interface of a tree hasher\<close>

locale tree_hasher =
  fixes leaf_hash :: "gf list \<Rightarrow> hash_out"
    and two_to_one :: "hash_out \<Rightarrow> hash_out \<Rightarrow> hash_out"
    and pair_hash :: "gf list \<Rightarrow> hash_out"
  assumes leaf_hash_length: "length (leaf_hash x) = 4"
    and two_to_one_length: "length (two_to_one a b) = 4"
    and pair_hash: "length a = 4 \<Longrightarrow> length b = 4 \<Longrightarrow> pair_hash (a @ b) = two_to_one a b"
    and leaf_noop: "length x = 4 \<Longrightarrow> leaf_hash x = x"
begin

lemma pair_level_lengths: "\<forall>x \<in> set xs. length x = 4 \<Longrightarrow> \<forall>x \<in> set (pair_level pair_hash xs). length x = 4"
  by (induction xs rule: induct_list012) (auto simp: pair_hash two_to_one_length)

lemma pair_level_append:
  "even (length xs) \<Longrightarrow> pair_level pair_hash (xs @ ys) = pair_level pair_hash xs @ pair_level pair_hash ys"
  by (induction pair_hash xs rule: pair_level.induct) simp_all

text \<open>Pairing the leaves once and halving from the top agree.\<close>

lemma subtree_root_pairs:
  "length xs = 2 ^ Suc k \<Longrightarrow> \<forall>x \<in> set xs. length x = 4 \<Longrightarrow>
     subtree_root two_to_one (Suc k) xs = subtree_root two_to_one k (pair_level pair_hash xs)"
proof (induction k arbitrary: xs)
  case 0
  then obtain a b where "xs = [a, b]" by (auto simp: length_Suc_conv numeral_2_eq_2)
  then show ?case using 0 by (simp add: pair_hash)
next
  case (Suc k)
  let ?l = "take (2 ^ Suc k) xs" and ?r = "drop (2 ^ Suc k) xs"
  have len: "length ?l = 2 ^ Suc k" "length ?r = 2 ^ Suc k" using Suc.prems(1) by simp_all
  have el: "\<forall>x \<in> set ?l. length x = 4" "\<forall>x \<in> set ?r. length x = 4"
    using Suc.prems(2) by (auto dest: in_set_takeD in_set_dropD)
  have "pair_level pair_hash xs = pair_level pair_hash ?l @ pair_level pair_hash ?r"
    using pair_level_append [of ?l ?r] len by simp
  moreover have "length (pair_level pair_hash ?l) = 2 ^ k" using len by simp
  ultimately have "subtree_root two_to_one (Suc k) (pair_level pair_hash xs)
      = two_to_one (subtree_root two_to_one k (pair_level pair_hash ?l)) (subtree_root two_to_one k (pair_level pair_hash ?r))"
    by simp
  then show ?case using Suc.IH [OF len(1) el(1)] Suc.IH [OF len(2) el(2)] by (simp only: subtree_root.simps)
qed

lemma merkle_levels_root:
  "length xs = 2 ^ k \<Longrightarrow> \<forall>x \<in> set xs. length x = 4 \<Longrightarrow> merkle_levels pair_hash xs = subtree_root two_to_one k xs"
proof (induction k arbitrary: xs)
  case 0
  then show ?case by (simp add: merkle_levels.simps)
next
  case (Suc k)
  have "(1 :: nat) \<le> 2 ^ k" by simp
  then have "1 < length xs" using Suc.prems(1) by (simp only: power_Suc)
  then have "merkle_levels pair_hash xs = merkle_levels pair_hash (pair_level pair_hash xs)"
    by (subst merkle_levels.simps) simp
  also have "\<dots> = subtree_root two_to_one k (pair_level pair_hash xs)"
    using Suc pair_level_lengths by simp
  finally show ?case using subtree_root_pairs [OF Suc.prems] by simp
qed

lemma tree_cap_0:
  assumes "length leaves = 2 ^ k"
  obtains t where "merkle_tree_new leaf_hash two_to_one leaves 0 = Inr t"
    "mt_cap t = [subtree_root two_to_one k (map leaf_hash leaves)]"
proof -
  have "log2_strict (length leaves) = Inr k" using assms by (simp add: log2_strict_iff)
  then obtain t where t: "merkle_tree_new leaf_hash two_to_one leaves 0 = Inr t"
    by (auto simp: merkle_tree_new_def case_prod_unfold Let_def)
  obtain k' where k': "length leaves = 2 ^ k'" "length (mt_cap t) = 2 ^ 0"
    "\<forall>j < 2 ^ 0. mt_cap t ! j = subtree_root two_to_one (k' - 0) (map leaf_hash (take (2 ^ (k' - 0)) (drop (2 ^ (k' - 0) * j) leaves)))"
    by (rule merkle_tree_new_Inr [OF t]) (rule that)
  have "k' = k" using assms k'(1) by simp
  then have "mt_cap t = [subtree_root two_to_one k (map leaf_hash leaves)]"
    using k' by (cases "mt_cap t") auto
  then show ?thesis using that t by blast
qed

text \<open>Equal roots of trees of the same height have equal leaf digests, or the two trees contain a collision.\<close>

lemma subtree_root_inject:
  "length xs = 2 ^ k \<Longrightarrow> length ys = 2 ^ k \<Longrightarrow> subtree_root two_to_one k xs = subtree_root two_to_one k ys \<Longrightarrow>
     xs = ys \<or> collides two_to_one (tree_inputs two_to_one k xs @ tree_inputs two_to_one k ys)"
proof (induction k arbitrary: xs ys)
  case 0
  then show ?case by (auto simp: length_Suc_conv)
next
  case (Suc k)
  let ?tl = "take (2 ^ k)" and ?tr = "drop (2 ^ k)" and ?r = "subtree_root two_to_one k"
  let ?C = "collides two_to_one (tree_inputs two_to_one (Suc k) xs @ tree_inputs two_to_one (Suc k) ys)"
  have "(?r (?tl xs) = ?r (?tl ys) \<and> ?r (?tr xs) = ?r (?tr ys)) \<or> ?C"
  proof (rule collides_pair)
    show "two_to_one (?r (?tl xs)) (?r (?tr xs)) = two_to_one (?r (?tl ys)) (?r (?tr ys))" using Suc.prems(3) by simp
  qed simp_all
  moreover have "?tl xs = ?tl ys \<or> ?C" if "?r (?tl xs) = ?r (?tl ys)"
    using Suc.IH [of "?tl xs" "?tl ys"] Suc.prems(1,2) that collides_mono [where ys = "tree_inputs two_to_one (Suc k) xs @ tree_inputs two_to_one (Suc k) ys"]
    by (simp del: tree_inputs.simps) (metis (no_types, lifting) tree_inputs_halves(1) Un_mono set_append)
  moreover have "?tr xs = ?tr ys \<or> ?C" if "?r (?tr xs) = ?r (?tr ys)"
    using Suc.IH [of "?tr xs" "?tr ys"] Suc.prems(1,2) that collides_mono [where ys = "tree_inputs two_to_one (Suc k) xs @ tree_inputs two_to_one (Suc k) ys"]
    by (simp del: tree_inputs.simps) (metis (no_types, lifting) tree_inputs_halves(2) Un_mono set_append)
  ultimately show ?case by (metis append_take_drop_id)
qed

end

sublocale sponge_permutation \<subseteq> sponge: tree_hasher "hash_or_noop perm" "compress perm" "hash_n_to_hash_no_pad perm"
  by unfold_locales
    (use hash_or_noop_circuit_length compress_length in
      \<open>simp_all add: hash_or_noop_agree hash_pair_is_compress sponge_consts hash_or_noop_circuit_def\<close>)


subsection \<open>Commitments\<close>

lemma is_power_of_two_iff: "is_power_of_two n \<longleftrightarrow> (\<exists>k. n = 2 ^ k)"
  by (auto simp: is_power_of_two_def)

lemma valid_len_pos: "valid_attribute a \<Longrightarrow> 0 < len_bytes a"
  by (simp add: valid_attribute_def)

text \<open>The pairs the tree over given leaf digests compresses.\<close>

definition compress_inputs :: "(gf list \<Rightarrow> gf list) \<Rightarrow> hash_out list \<Rightarrow> (hash_out \<times> hash_out) list" where
  "compress_inputs perm leaves = tree_inputs (compress perm) (log2 (length leaves)) leaves"

lemma compress_inputs_one: "length leaves = 1 \<Longrightarrow> compress_inputs perm leaves = []"
  using log2_power [of 0] by (simp add: compress_inputs_def)

definition hashed_leaf :: "(gf list \<Rightarrow> gf list) \<Rightarrow> attribute \<Rightarrow> hash_out" where
  "hashed_leaf perm attr =
     (if as_bytes attr = 1 # replicate (len_bytes attr - 1) 0 then replicate NUM_HASH_OUT_ELTS 0
      else hash_or_noop perm (attribute_to_field_elements attr))"

lemma attribute_to_hashed_leaf_Inr:
  "0 < len_bytes attr \<Longrightarrow> attribute_to_hashed_leaf perm attr = Inr (hashed_leaf perm attr)"
  by (simp add: attribute_to_hashed_leaf_def is_empty_Inr hashed_leaf_def)

text \<open>Attribute lists the credential code works with: one positive width, a power of two long.\<close>

definition uniform :: "nat \<Rightarrow> attribute list \<Rightarrow> bool" where
  "uniform w attrs \<longleftrightarrow> 0 < w \<and> (\<forall>a \<in> set attrs. len_bytes a = w)"

lemma attributes_to_leaves_Inr:
  assumes "uniform w attrs" "length attrs = 2 ^ k"
  shows "attributes_to_leaves perm attrs = Inr (map (hashed_leaf perm) attrs)"
proof -
  have "attrs \<noteq> []" using assms(2) by auto
  then have "attrs ! 0 \<in> set attrs" by simp
  then have "\<not> (\<exists>attr \<in> set attrs. len_bytes attr \<noteq> len_bytes (attrs ! 0))"
    using assms(1) by (auto simp: uniform_def)
  moreover have "map_res (attribute_to_hashed_leaf perm) attrs = Inr (map (hashed_leaf perm) attrs)"
    using assms(1) by (auto simp: map_res_Inr_iff uniform_def attribute_to_hashed_leaf_Inr)
  ultimately show ?thesis
    using \<open>attrs \<noteq> []\<close> assms(2) by (simp only: attributes_to_leaves_def Let_def is_power_of_two_def log2_power if_False simp_thms)
qed

lemma attributes_to_leaves_uniform:
  "attributes_to_leaves perm attrs = Inr leaves \<Longrightarrow>
     (\<exists>k. length attrs = 2 ^ k) \<and> uniform (len_bytes (attrs ! 0)) attrs"
  by (cases attrs) (auto simp: attributes_to_leaves_def Let_def is_power_of_two_iff uniform_def
      attribute_to_hashed_leaf_def is_empty_def empty_attribute_bytes_def split: if_splits)

context sponge_permutation
begin

lemma hashed_leaf_length: "length (hashed_leaf perm a) = 4"
  by (simp add: hashed_leaf_def NUM_HASH_OUT_ELTS_def sponge.leaf_hash_length)

lemma hashed_leaf_noop [simp]: "hash_or_noop perm (hashed_leaf perm a) = hashed_leaf perm a"
  by (simp add: sponge.leaf_noop hashed_leaf_length)

lemma compute_merkle_root_Inr:
  assumes "uniform w attrs" "length attrs = 2 ^ k"
  shows "compute_merkle_root perm attrs = Inr (subtree_root (compress perm) k (map (hashed_leaf perm) attrs))"
proof -
  obtain t where "merkle_tree_new (hash_or_noop perm) (compress perm) (map (hashed_leaf perm) attrs) 0 = Inr t"
    "mt_cap t = [subtree_root (compress perm) k (map (hash_or_noop perm) (map (hashed_leaf perm) attrs))]"
    using sponge.tree_cap_0 [of "map (hashed_leaf perm) attrs" k] assms(2) by auto
  then show ?thesis
    using attributes_to_leaves_Inr [OF assms, of perm] by (simp add: compute_merkle_root_def comp_def)
qed

text \<open>The root the circuit computes is the root of the tree built off the circuit.\<close>

lemma circuit_root:
  assumes "length leaves = 2 ^ k" "\<forall>l \<in> set leaves. length l = 4"
  shows "merkle_root_from_leaves perm leaves = Inr (subtree_root (compress perm) k leaves)"
proof -
  have "leaves \<noteq> []" using assms(1) by auto
  moreover have "map (hash_or_noop_circuit perm) leaves = leaves"
    using assms(2) by (auto intro!: map_idI simp: hash_or_noop_circuit_def sponge_consts)
  ultimately show ?thesis
    using assms sponge.merkle_levels_root [OF assms]
    by (auto simp: merkle_root_from_leaves_def is_power_of_two_iff)
qed

lemma circuit_root_of_attributes:
  assumes "attributes_to_leaves perm attrs = Inr leaves"
  shows "merkle_root_from_leaves perm leaves = compute_merkle_root perm attrs"
proof -
  obtain k where k: "length attrs = 2 ^ k" and u: "uniform (len_bytes (attrs ! 0)) attrs"
    using attributes_to_leaves_uniform [OF assms] by blast
  have "leaves = map (hashed_leaf perm) attrs"
    using assms attributes_to_leaves_Inr [OF u k] by simp
  then show ?thesis
    using circuit_root [of leaves k] compute_merkle_root_Inr [OF u k] k by (simp add: hashed_leaf_length)
qed

lemma commitment_binding:
  assumes "compute_merkle_root perm as = Inr r" "compute_merkle_root perm bs = Inr r" "length as = length bs"
  shows "map (hashed_leaf perm) as = map (hashed_leaf perm) bs
    \<or> collides (compress perm) (compress_inputs perm (map (hashed_leaf perm) as) @ compress_inputs perm (map (hashed_leaf perm) bs))"
proof -
  obtain la lb where "attributes_to_leaves perm as = Inr la" "attributes_to_leaves perm bs = Inr lb"
    using assms(1,2) by (auto simp: compute_merkle_root_def)
  then obtain k where u: "uniform (len_bytes (as ! 0)) as" "uniform (len_bytes (bs ! 0)) bs"
      and k: "length as = 2 ^ k" "length bs = 2 ^ k"
    using attributes_to_leaves_uniform assms(3) by metis
  show ?thesis
    using assms(1,2) compute_merkle_root_Inr [OF u(1) k(1)] compute_merkle_root_Inr [OF u(2) k(2)] k
      sponge.subtree_root_inject [of "map (hashed_leaf perm) as" k "map (hashed_leaf perm) bs"]
    by (simp add: compress_inputs_def)
qed

lemma proof_of_attribute:
  assumes "compute_merkle_root perm attrs = Inr r" "i < length attrs"
  obtains path where "compute_merkle_proof perm attrs i = Inr path"
    "verify_merkle_proof (hash_or_noop perm) (compress perm) (hashed_leaf perm (attrs ! i)) i r path = Inr ()"
proof -
  obtain leaves t where l: "attributes_to_leaves perm attrs = Inr leaves"
      and t: "merkle_tree_new (hash_or_noop perm) (compress perm) leaves 0 = Inr t" and r: "r = mt_cap t ! 0"
    using assms(1) by (auto simp: compute_merkle_root_def)
  obtain k where u: "uniform (len_bytes (attrs ! 0)) attrs" and k: "length attrs = 2 ^ k"
    using attributes_to_leaves_uniform [OF l] by blast
  have leaves: "leaves = map (hashed_leaf perm) attrs"
    using l attributes_to_leaves_Inr [OF u k] by simp
  obtain path where p: "merkle_tree_prove_tree t i = Inr path"
      "verify_merkle_proof_to_cap (hash_or_noop perm) (compress perm) (leaves ! i) i (mt_cap t) path = Inr ()"
    by (rule merkle_prove_verify [OF t]) (use assms(2) leaves in auto)
  have "length (mt_cap t) = 1"
    by (rule merkle_tree_new_Inr [OF t]) simp
  then have "mt_cap t = [r]" using r by (cases "mt_cap t") auto
  then show ?thesis
    using that p l t assms(2) leaves by (simp add: compute_merkle_proof_def verify_merkle_proof_def)
qed

end

subsection \<open>Padding and masking\<close>

lemma mask_attributes_Inr_iff:
  "mask_attributes attrs bitmap = Inr out \<longleftrightarrow>
     length attrs = length bitmap \<and> length out = length attrs
   \<and> (\<forall>i < length attrs. if bitmap ! i then out ! i = attrs ! i else empty_marker (len_bytes (attrs ! i)) = Inr (out ! i))"
  by (auto simp: mask_attributes_def map_res_Inr_iff list_eq_iff_nth_eq)

lemma len_bytes_marker: "empty_marker n = Inr a \<Longrightarrow> len_bytes a = n"
  using is_empty_marker by blast

lemma hashed_leaf_marker: "empty_marker n = Inr a \<Longrightarrow> hashed_leaf perm a = replicate 4 0"
  by (cases n) (auto simp: empty_marker_def empty_attribute_bytes_def hashed_leaf_def len_bytes_def NUM_HASH_OUT_ELTS_def)

lemma mask_uniform:
  assumes "mask_attributes attrs bitmap = Inr out" "uniform w attrs"
  shows "uniform w out" "length out = length attrs"
  using assms by (auto simp: mask_attributes_Inr_iff uniform_def in_set_conv_nth Ball_def split: if_splits)
    (metis len_bytes_marker nth_mem)+

lemma mask_leaves:
  assumes "mask_attributes attrs bitmap = Inr out"
  shows "map (hashed_leaf perm) out
    = map2 (\<lambda>l b. if b then l else replicate 4 0) (map (hashed_leaf perm) attrs) bitmap"
  using assms by (intro nth_equalityI) (auto simp: mask_attributes_Inr_iff hashed_leaf_marker)

lemma mask_succeeds: "uniform w attrs \<Longrightarrow> length bitmap = length attrs \<Longrightarrow> \<exists>out. mask_attributes attrs bitmap = Inr out"
proof -
  assume u: "uniform w attrs" and l: "length bitmap = length attrs"
  define out where "out = map2 (\<lambda>a b. if b then a else Attribute (1 # replicate (w - 1) 0)) attrs bitmap"
  have "mask_attributes attrs bitmap = Inr out"
    using u l by (auto simp: mask_attributes_Inr_iff out_def uniform_def empty_marker_Inr)
  then show ?thesis by blast
qed

lemma pad_attributes_length: "pad_attributes attrs m = Inr padded \<Longrightarrow> length padded = m"
  by (auto simp: pad_attributes_def split: if_splits)

lemma pad_attributes_Inr:
  assumes "uniform w attrs" "attrs \<noteq> []" "length attrs \<le> 2 ^ k"
  shows "pad_attributes attrs (2 ^ k) = Inr (attrs @ replicate (2 ^ k - length attrs) (Attribute (1 # replicate (w - 1) 0)))"
proof -
  have "len_bytes (attrs ! 0) = w" "0 < w" using assms(1,2) by (simp_all add: uniform_def)
  then show ?thesis using assms by (auto simp: pad_attributes_def is_power_of_two_iff empty_marker_Inr)
qed

end
