(* ===== verification/Hash_Properties.thy ===== *)
theory Hash_Properties
  imports Commitment
begin

text \<open>
  The properties of hashing, Merkle trees and attribute commitments, with Poseidon as the
  permutation.
\<close>

text \<open>Hashing a leaf in the circuit and off the circuit give the same digest, although the
  former pads field elements and the latter goes through little-endian bytes.\<close>

theorem hash_or_noop_circuit_agrees: "hash_or_noop poseidon inputs = hash_or_noop_circuit poseidon inputs"
  by (rule hash_or_noop_agree)

text \<open>C22: whenever \<open>MerkleTree::new\<close> returns a tree, \<open>prove\<close> returns a path for every leaf and
  \<open>verify_merkle_proof_to_cap\<close> accepts it, for every cap height.\<close>

theorem merkle_proof_verifies:
  assumes "merkle_tree_new (hash_or_noop poseidon) (compress poseidon) leaves cap_height = Inr t" "i < length leaves"
  shows "\<exists>path. merkle_tree_prove_tree t i = Inr path
    \<and> verify_merkle_proof_to_cap (hash_or_noop poseidon) (compress poseidon) (leaves ! i) i (mt_cap t) path = Inr ()"
  using merkle_prove_verify [OF assms] by metis

theorem merkle_proof_verifies_witness:
  "\<exists>t path. merkle_tree_new (hash_or_noop poseidon) (compress poseidon) [[1], [2]] 1 = Inr t
    \<and> merkle_tree_prove_tree t 1 = Inr path
    \<and> verify_merkle_proof_to_cap (hash_or_noop poseidon) (compress poseidon) [2] 1 (mt_cap t) path = Inr ()"
proof -
  have "log2_strict 2 = Inr 1" using log2_strict_iff [of 2 1] by simp
  then obtain t where t: "merkle_tree_new (hash_or_noop poseidon) (compress poseidon) [[1], [2]] 1 = Inr t"
    by (auto simp: merkle_tree_new_def case_prod_unfold Let_def numeral_2_eq_2)
  show ?thesis using merkle_proof_verifies [OF t, of 1] t by auto
qed

text \<open>C24: the root the circuits compute from the leaf digests is the root \<open>compute_merkle_root\<close>
  computes from the attributes.\<close>

theorem circuit_root_is_tree_root:
  assumes "attributes_to_leaves poseidon attrs = Inr leaves"
  shows "merkle_root_from_leaves poseidon leaves = compute_merkle_root poseidon attrs"
  by (rule poseidon_sponge.circuit_root_of_attributes [OF assms])

definition sample_attribute :: attribute where
  "sample_attribute = Attribute [0, 0, 0, 7]"

lemma sample_uniform: "uniform 4 [sample_attribute]"
  by (simp add: uniform_def sample_attribute_def len_bytes_def)

theorem circuit_root_is_tree_root_witness:
  "merkle_root_from_leaves poseidon [hashed_leaf poseidon sample_attribute] = compute_merkle_root poseidon [sample_attribute]"
  by (rule circuit_root_is_tree_root) (use attributes_to_leaves_Inr [OF sample_uniform, of 0] in simp)

text \<open>C20: two attribute lists of the same length with the same commitment have the same hashed
  leaves, unless two different pairs among those the two trees compress have the same digest: a
  second opening of a commitment hands over a collision of the two-to-one compression.\<close>

theorem commitment_is_binding:
  assumes "compute_merkle_root poseidon as = Inr r" "compute_merkle_root poseidon bs = Inr r" "length as = length bs"
  shows "map (hashed_leaf poseidon) as = map (hashed_leaf poseidon) bs
    \<or> collides (compress poseidon)
        (compress_inputs poseidon (map (hashed_leaf poseidon) as) @ compress_inputs poseidon (map (hashed_leaf poseidon) bs))"
  by (rule poseidon_sponge.commitment_binding [OF assms])

definition wide_attribute :: attribute where
  "wide_attribute = Attribute [0, 0, 0, 0, 0, 0, 0, 7]"

lemma wide_uniform: "uniform 8 [wide_attribute]"
  by (simp add: uniform_def wide_attribute_def len_bytes_def)

lemma sample_leaf: "hashed_leaf poseidon sample_attribute = [7, 0, 0, 0]"
proof -
  have "to_u32_limbs_le sample_attribute = [7]"
    by (simp add: to_u32_limbs_le_def sample_attribute_def from_be_bytes_def Let_def)
  then show ?thesis
    by (simp add: hashed_leaf_def hash_or_noop_agree hash_or_noop_circuit_def attribute_to_field_elements_def
        sponge_consts numeral_3_eq_3) (simp add: sample_attribute_def)
qed

lemma wide_leaf: "hashed_leaf poseidon wide_attribute = [7, 0, 0, 0]"
proof -
  have "to_u32_limbs_le wide_attribute = [7, 0]"
    by (simp add: to_u32_limbs_le_def wide_attribute_def from_be_bytes_def Let_def upt_rec)
  then show ?thesis
    by (simp add: hashed_leaf_def hash_or_noop_agree hash_or_noop_circuit_def attribute_to_field_elements_def
        sponge_consts numeral_3_eq_3) (simp add: wide_attribute_def)
qed

text \<open>The witness: a 4-byte and an 8-byte attribute with the same number, each in a tree of its own.\<close>

theorem commitment_is_binding_witness:
  "map (hashed_leaf poseidon) [sample_attribute] = map (hashed_leaf poseidon) [wide_attribute]"
proof -
  have "compute_merkle_root poseidon [sample_attribute] = Inr [7, 0, 0, 0]" "compute_merkle_root poseidon [wide_attribute] = Inr [7, 0, 0, 0]"
    using poseidon_sponge.compute_merkle_root_Inr [OF sample_uniform, of 0] poseidon_sponge.compute_merkle_root_Inr [OF wide_uniform, of 0]
    by (simp_all add: sample_leaf wide_leaf)
  from commitment_is_binding [OF this] show ?thesis by (simp add: compress_inputs_one)
qed

text \<open>C23: for every attribute of a committed list there is a membership proof, and it verifies
  against the commitment.\<close>

theorem attribute_membership_proof:
  assumes "compute_merkle_root poseidon attrs = Inr r" "i < length attrs"
  shows "\<exists>path. compute_merkle_proof poseidon attrs i = Inr path
    \<and> verify_merkle_proof (hash_or_noop poseidon) (compress poseidon) (hashed_leaf poseidon (attrs ! i)) i r path = Inr ()"
  by (rule poseidon_sponge.proof_of_attribute [OF assms]) blast

theorem attribute_membership_proof_witness:
  "\<exists>path. compute_merkle_proof poseidon [sample_attribute] 0 = Inr path
    \<and> verify_merkle_proof (hash_or_noop poseidon) (compress poseidon) (hashed_leaf poseidon sample_attribute) 0
        (hashed_leaf poseidon sample_attribute) path = Inr ()"
  using attribute_membership_proof [of "[sample_attribute]" "hashed_leaf poseidon sample_attribute" 0]
    poseidon_sponge.compute_merkle_root_Inr [OF sample_uniform, of 0] by simp

text \<open>C21: the Merkle verifier circuit, with the cap index it sums from the index bits, accepts only
  what the verifier off the circuit accepts, at the index the bits spell.\<close>

theorem merkle_circuit_sound:
  assumes "verify_merkle_proof_to_cap_circuit poseidon num_limbs leaf (map of_bool bs) cap siblings limbs cap_index"
    "\<forall>s \<in> set siblings. length s = 4" "length cap = 2 ^ c" "\<forall>s \<in> set cap. length s = 4"
    "length bs = length siblings + c" "c \<le> num_limbs"
  shows "verify_merkle_proof_to_cap (hash_or_noop poseidon) (compress poseidon) leaf (bits_val bs) cap siblings = Inr ()"
  by (rule poseidon_sponge.verify_circuit_sound [OF assms])

theorem merkle_circuit_sound_witness:
  "verify_merkle_proof_to_cap (hash_or_noop poseidon) (compress poseidon) [1] 1
     [compress poseidon [2, 0, 0, 0] [1, 0, 0, 0]] [[2, 0, 0, 0]] = Inr ()"
proof -
  let ?cap = "[compress poseidon [2, 0, 0, 0] [1, 0, 0, 0]]"
  have cap: "length ?cap = 2 ^ 0" "\<forall>s \<in> set ?cap. length s = 4"
    by (simp_all add: poseidon_sponge.compress_length NUM_HASH_OUT_ELTS_def)
  have "hash_or_noop poseidon [1] = [1, 0, 0, 0]"
    by (simp add: hash_or_noop_agree hash_or_noop_circuit_def sponge_consts numeral_3_eq_3)
  then have "verify_merkle_proof_to_cap_with_cap_index poseidon [1] (map of_bool [True]) 0 ?cap [[2, 0, 0, 0]]"
    using cap by (subst poseidon_sponge.verify_circuit_with_cap_index_iff [where c = 0])
      (simp_all add: verify_merkle_proof_to_cap_def merkle_climb_def)
  then have "verify_merkle_proof_to_cap_circuit poseidon 1 [1] (map of_bool [True]) ?cap [[2, 0, 0, 0]] [] 0"
    by (simp add: verify_merkle_proof_to_cap_circuit_def le_sum_circuit_def)
  from merkle_circuit_sound [OF this _ cap] show ?thesis by simp
qed

end
