(* ===== verification/Goldilocks_Impl.thy ===== *)
theory Goldilocks_Impl
  imports Goldilocks
begin

text \<open>
  The word-level implementation of the field (\<open>plonky2/field/src/goldilocks_field.rs\<close>): elements
  are arbitrary \<open>u64\<close> values that stand for their residue.  Plain \<open>+\<close>, \<open>-\<close> and \<open>*\<close> of Rust are
  checked operations here, so that an overflow, which the comments of the code exclude, would be
  a \<open>Panic\<close>; \<open>assume\<close>, whose failure is undefined behaviour, likewise.  The lemmas show that
  no operation panics and that each computes in \<open>gf\<close>.
\<close>

subsection \<open>Rust arithmetic on \<open>u64\<close>\<close>

type_synonym u128 = "128 word"

definition overflowing_add :: "u64 \<Rightarrow> u64 \<Rightarrow> u64 \<times> bool" where
  "overflowing_add x y = (x + y, x + y < x)"

definition overflowing_sub :: "u64 \<Rightarrow> u64 \<Rightarrow> u64 \<times> bool" where
  "overflowing_sub x y = (x - y, x < y)"

definition checked_add :: "u64 \<Rightarrow> u64 \<Rightarrow> u64 res" where
  "checked_add x y = ensure (unat x + unat y < 2 ^ 64) (Panic ''attempt to add with overflow'') (Inr (x + y))"

definition checked_sub :: "u64 \<Rightarrow> u64 \<Rightarrow> u64 res" where
  "checked_sub x y = ensure (unat y \<le> unat x) (Panic ''attempt to subtract with overflow'') (Inr (x - y))"

definition checked_mul :: "u64 \<Rightarrow> u64 \<Rightarrow> u64 res" where
  "checked_mul x y = ensure (unat x * unat y < 2 ^ 64) (Panic ''attempt to multiply with overflow'') (Inr (x * y))"

subsection \<open>The operations\<close>

definition EPSILON :: u64 where
  "EPSILON = 4294967295"

definition ORDER :: u64 where
  "ORDER = 18446744069414584321"

definition to_canonical_u64 :: "u64 \<Rightarrow> u64 res" where
  "to_canonical_u64 c = (if c \<ge> ORDER then checked_sub c ORDER else Inr c)"

definition gl_eq :: "u64 \<Rightarrow> u64 \<Rightarrow> bool res" where
  "gl_eq x y = bind_res (to_canonical_u64 x) (\<lambda>a. bind_res (to_canonical_u64 y) (\<lambda>b. Inr (a = b)))"

definition add_canonical_u64 :: "u64 \<Rightarrow> u64 \<Rightarrow> u64 res" where
  "add_canonical_u64 x rhs =
     (let (res_wrapped, carry) = overflowing_add x rhs in
      bind_res (checked_mul EPSILON (of_bool carry)) (\<lambda>e. checked_add res_wrapped e))"

definition sub_canonical_u64 :: "u64 \<Rightarrow> u64 \<Rightarrow> u64 res" where
  "sub_canonical_u64 x rhs =
     (let (res_wrapped, borrow) = overflowing_sub x rhs in
      bind_res (checked_mul EPSILON (of_bool borrow)) (\<lambda>e. checked_sub res_wrapped e))"

definition gl_neg :: "u64 \<Rightarrow> u64 res" where
  "gl_neg x =
     bind_res (gl_eq x 0) (\<lambda>is_zero.
     if is_zero then Inr 0 else bind_res (to_canonical_u64 x) (checked_sub ORDER))"

definition gl_add :: "u64 \<Rightarrow> u64 \<Rightarrow> u64 res" where
  "gl_add x rhs =
     (let (s, over) = overflowing_add x rhs in
      bind_res (checked_mul (of_bool over) EPSILON) (\<lambda>e.
      let (s, over) = overflowing_add s e in
      if over then ensure (x > ORDER \<and> rhs > ORDER) (Panic ''assume'') (checked_add s EPSILON)
      else Inr s))"

definition gl_sub :: "u64 \<Rightarrow> u64 \<Rightarrow> u64 res" where
  "gl_sub x rhs =
     (let (diff, under) = overflowing_sub x rhs in
      bind_res (checked_mul (of_bool under) EPSILON) (\<lambda>e.
      let (diff, under) = overflowing_sub diff e in
      if under then ensure (x < EPSILON - 1 \<and> rhs > ORDER) (Panic ''assume'') (checked_sub diff EPSILON)
      else Inr diff))"

definition add_no_canonicalize_trashing_input :: "u64 \<Rightarrow> u64 \<Rightarrow> u64 res" where
  "add_no_canonicalize_trashing_input x y =
     (let (res_wrapped, carry) = overflowing_add x y in
      bind_res (checked_mul EPSILON (of_bool carry)) (\<lambda>e. checked_add res_wrapped e))"

definition reduce96 :: "u64 \<times> u32 \<Rightarrow> u64 res" where
  "reduce96 x =
     (let (x_lo, x_hi) = x in
      bind_res (checked_mul (ucast x_hi) EPSILON) (\<lambda>t1. add_no_canonicalize_trashing_input x_lo t1))"

definition split128 :: "u128 \<Rightarrow> u64 \<times> u64" where
  "split128 x = (ucast x, ucast (drop_bit 64 x))"

definition reduce128 :: "u128 \<Rightarrow> u64 res" where
  "reduce128 x =
     (let (x_lo, x_hi) = split128 x;
          x_hi_hi = drop_bit 32 x_hi;
          x_hi_lo = x_hi AND EPSILON;
          (t0, borrow) = overflowing_sub x_lo x_hi_hi in
      bind_res (if borrow then checked_sub t0 EPSILON else Inr t0) (\<lambda>t0.
      bind_res (checked_mul x_hi_lo EPSILON) (\<lambda>t1.
      add_no_canonicalize_trashing_input t0 t1)))"

definition reduce160 :: "u128 \<Rightarrow> u32 \<Rightarrow> u64 res" where
  "reduce160 x_lo x_hi =
     bind_res (checked_add (ucast (drop_bit 96 x_lo)) (push_bit 32 (ucast x_hi))) (\<lambda>x_hi.
     let x_mid = (ucast (drop_bit 64 x_lo) :: u32);
         x_lo = (ucast x_lo :: u64);
         (t0, borrow) = overflowing_sub x_lo x_hi in
     bind_res (if borrow then checked_sub t0 EPSILON else Inr t0) (\<lambda>t0.
     bind_res (checked_mul (ucast x_mid) EPSILON) (\<lambda>t1.
     add_no_canonicalize_trashing_input t0 t1)))"

text \<open>The products and sums below are of \<open>u64\<close> values in \<open>u128\<close>, where they cannot overflow.\<close>

definition gl_mul :: "u64 \<Rightarrow> u64 \<Rightarrow> u64 res" where
  "gl_mul x rhs = reduce128 (ucast x * ucast rhs)"

definition multiply_accumulate :: "u64 \<Rightarrow> u64 \<Rightarrow> u64 \<Rightarrow> u64 res" where
  "multiply_accumulate z x y = reduce128 (ucast z + ucast x * ucast y)"

definition gl_square :: "u64 \<Rightarrow> u64 res" where
  "gl_square x = gl_mul x x"

definition exp_power_of_2 :: "u64 \<Rightarrow> nat \<Rightarrow> u64 res" where
  "exp_power_of_2 x power_log = foldl (\<lambda>res _. bind_res res gl_square) (Inr x) [0..<power_log]"

definition exp_acc :: "nat \<Rightarrow> u64 \<Rightarrow> u64 \<Rightarrow> u64 res" where
  "exp_acc n base tail = bind_res (exp_power_of_2 base n) (\<lambda>b. gl_mul b tail)"

definition try_inverse :: "u64 \<Rightarrow> u64 option res" where
  "try_inverse x =
     bind_res (gl_eq x 0) (\<lambda>is_zero.
     if is_zero then Inr None else
     bind_res (gl_square x) (\<lambda>s. bind_res (gl_mul s x) (\<lambda>t2.
     bind_res (gl_square t2) (\<lambda>s. bind_res (gl_mul s x) (\<lambda>t3.
     bind_res (exp_acc 3 t3 t3) (\<lambda>t6.
     bind_res (exp_acc 6 t6 t6) (\<lambda>t12.
     bind_res (exp_acc 12 t12 t12) (\<lambda>t24.
     bind_res (exp_acc 6 t24 t6) (\<lambda>t30.
     bind_res (gl_square t30) (\<lambda>s. bind_res (gl_mul s x) (\<lambda>t31.
     bind_res (exp_acc 32 t31 t31) (\<lambda>t63.
     bind_res (gl_square t63) (\<lambda>s. bind_res (gl_mul s x) (\<lambda>r. Inr (Some r)))))))))))))))"

definition from_noncanonical_i64 :: "64 word \<Rightarrow> u64" where
  "from_noncanonical_i64 n = (if sint n < 0 then ORDER + n else n)"

subsection \<open>Refinement of the field\<close>

text \<open>The element a word stands for, and operations that compute one without panicking.\<close>

definition gf_of :: "u64 \<Rightarrow> gf" where
  "gf_of x = of_nat (unat x)"

definition computes :: "u64 res \<Rightarrow> gf \<Rightarrow> bool" where
  "computes r v \<longleftrightarrow> (\<exists>z. r = Inr z \<and> gf_of z = v)"

lemma add_cases:
  fixes x y :: u64
  obtains s where "overflowing_add x y = (s, False)" "unat s = unat x + unat y"
  | s where "overflowing_add x y = (s, True)" "unat s + 18446744073709551616 = unat x + unat y"
proof (cases "unat x + unat y < 18446744073709551616")
  case True
  then have u: "unat (x + y) = unat x + unat y" by (simp add: unat_plus_if')
  then have "\<not> x + y < x" by (simp add: word_less_nat_alt)
  then show ?thesis using u that(1) by (simp add: overflowing_add_def)
next
  case False
  then have u: "unat (x + y) + 18446744073709551616 = unat x + unat y" by (simp add: unat_plus_if')
  moreover have "unat y < 18446744073709551616" by (rule unat_u64_less)
  ultimately have "x + y < x" unfolding word_less_nat_alt by linarith
  then show ?thesis using u that(2) by (simp add: overflowing_add_def)
qed

lemma sub_cases:
  fixes x y :: u64
  obtains d where "overflowing_sub x y = (d, False)" "unat d + unat y = unat x"
  | d where "overflowing_sub x y = (d, True)" "unat d + unat y = unat x + 18446744073709551616"
proof (cases "x < y")
  case False
  then have "unat y \<le> unat x" by (simp add: word_less_nat_alt)
  then have "unat (x - y) + unat y = unat x" by (simp add: unat_sub_if')
  then show ?thesis using False that(1) by (simp add: overflowing_sub_def)
next
  case True
  then have "\<not> unat y \<le> unat x" by (simp add: word_less_nat_alt)
  then have "unat (x - y) = unat x + 18446744073709551616 - unat y" by (simp add: unat_sub_if')
  then have "unat (x - y) + unat y = unat x + 18446744073709551616" using unat_u64_less [of y] by linarith
  then show ?thesis using True that(2) by (simp add: overflowing_sub_def)
qed

lemma checked_add_Inr: "unat x + unat y < 18446744073709551616 \<Longrightarrow> checked_add x y = Inr (x + y) \<and> unat (x + y) = unat x + unat y"
  by (simp add: checked_add_def unat_plus_if')

lemma checked_sub_Inr: "unat y \<le> unat x \<Longrightarrow> checked_sub x y = Inr (x - y) \<and> unat (x - y) + unat y = unat x"
  by (simp add: checked_sub_def unat_sub_if')

lemma checked_mul_Inr: "unat x * unat y < 18446744073709551616 \<Longrightarrow> checked_mul x y = Inr (x * y) \<and> unat (x * y) = unat x * unat y"
  using unat_mult_lem [of x y] by (simp add: checked_mul_def)

lemma epsilon_mul [simp]:
  "checked_mul EPSILON (of_bool b) = Inr (if b then EPSILON else 0)"
  "checked_mul (of_bool b) EPSILON = Inr (if b then EPSILON else 0)"
  by (simp_all add: checked_mul_def EPSILON_def)

lemma unat_consts [simp]: "unat EPSILON = 4294967295" "unat ORDER = 18446744069414584321"
  by (simp_all add: EPSILON_def ORDER_def)

lemma canon_gf_of: "canon (gf_of x) = unat x mod 18446744069414584321"
  unfolding gf_of_def by (rule canon_of_nat)

text \<open>Values that agree up to multiples of the order stand for the same element.\<close>

lemma gf_of_eqI:
  assumes "int (unat z) = i + k * 18446744069414584321" "of_int i = v"
  shows "gf_of z = v"
proof -
  have "gf_of z = of_int (int (unat z))" unfolding gf_of_def by (rule of_int_of_nat_eq [symmetric])
  also have "\<dots> = of_int i + of_int k * of_int 18446744069414584321" by (simp only: assms(1) of_int_add of_int_mult)
  also have "(of_int 18446744069414584321 :: gf) = 0" by simp
  finally show ?thesis using assms(2) by simp
qed

lemma gl_add_computes: "computes (gl_add x y) (gf_of x + gf_of y)"
proof -
  have v: "of_int (int (unat x) + int (unat y)) = gf_of x + gf_of y" by (simp add: gf_of_def)
  have less: "unat x < 18446744073709551616" "unat y < 18446744073709551616" by simp_all
  show ?thesis
  proof (cases rule: add_cases [of x y])
    case (1 s)
    have "gf_of s = gf_of x + gf_of y" by (rule gf_of_eqI [OF _ v, of _ 0]) (use 1(2) in linarith)
    moreover have "overflowing_add s 0 = (s, False)" by (simp add: overflowing_add_def)
    ultimately show ?thesis using 1(1) by (simp add: gl_add_def computes_def)
  next
    case (2 s)
    show ?thesis
    proof (cases rule: add_cases [of s EPSILON])
      case (1 s')
      have "gf_of s' = gf_of x + gf_of y" by (rule gf_of_eqI [OF _ v, of _ "-1"]) (use 2(2) 1(2) unat_consts in linarith)
      then show ?thesis using 2(1) 1(1) by (simp add: gl_add_def computes_def)
    next
      case o: (2 s')
      have "unat x > 18446744069414584321" "unat y > 18446744069414584321" "unat s' + 4294967295 < 18446744073709551616"
        using 2(2) o(2) less unfolding unat_consts by - linarith+
      then have ok: "x > ORDER \<and> y > ORDER" "checked_add s' EPSILON = Inr (s' + EPSILON)" "unat (s' + EPSILON) = unat s' + 4294967295"
        using checked_add_Inr [of s' EPSILON] by (simp_all add: word_less_nat_alt)
      have "gf_of (s' + EPSILON) = gf_of x + gf_of y"
        by (rule gf_of_eqI [OF _ v, of _ "-2"]) (use 2(2) o(2) ok(3) unat_consts in linarith)
      then show ?thesis using 2(1) o(1) ok(1,2) by (simp add: gl_add_def computes_def)
    qed
  qed
qed

lemma gl_sub_computes: "computes (gl_sub x y) (gf_of x - gf_of y)"
proof -
  have v: "of_int (int (unat x) - int (unat y)) = gf_of x - gf_of y" by (simp add: gf_of_def)
  have less: "unat x < 18446744073709551616" "unat y < 18446744073709551616" by simp_all
  show ?thesis
  proof (cases rule: sub_cases [of x y])
    case (1 d)
    have "gf_of d = gf_of x - gf_of y" by (rule gf_of_eqI [OF _ v, of _ 0]) (use 1(2) in linarith)
    moreover have "overflowing_sub d 0 = (d, False)" by (simp add: overflowing_sub_def)
    ultimately show ?thesis using 1(1) by (simp add: gl_sub_def computes_def)
  next
    case (2 d)
    show ?thesis
    proof (cases rule: sub_cases [of d EPSILON])
      case (1 d')
      have "gf_of d' = gf_of x - gf_of y" by (rule gf_of_eqI [OF _ v, of _ 1]) (use 2(2) 1(2) unat_consts in linarith)
      then show ?thesis using 2(1) 1(1) by (simp add: gl_sub_def computes_def)
    next
      case o: (2 d')
      have "unat x < 4294967294" "unat y > 18446744069414584321" "4294967295 \<le> unat d'"
        using 2(2) o(2) less unat_u64_less [of d'] unfolding unat_consts by - linarith+
      moreover have "unat (EPSILON - 1) = 4294967294" by (simp add: EPSILON_def)
      ultimately have ok: "x < EPSILON - 1 \<and> y > ORDER" "checked_sub d' EPSILON = Inr (d' - EPSILON)"
          "unat (d' - EPSILON) + 4294967295 = unat d'"
        using checked_sub_Inr [of EPSILON d'] by (simp_all add: word_less_nat_alt)
      have "gf_of (d' - EPSILON) = gf_of x - gf_of y"
        by (rule gf_of_eqI [OF _ v, of _ 2]) (use 2(2) o(2) ok(3) unat_consts in linarith)
      then show ?thesis using 2(1) o(1) ok(1,2) by (simp add: gl_sub_def computes_def)
    qed
  qed
qed

text \<open>The four operations below are sound for canonical right operands, as their \<open>unsafe\<close> says.\<close>

lemma add_small_computes:
  assumes "unat x + unat y < 18446744073709551616 + 18446744069414584321"
  shows "computes (add_no_canonicalize_trashing_input x y) (gf_of x + gf_of y)"
proof -
  have v: "of_int (int (unat x) + int (unat y)) = gf_of x + gf_of y" by (simp add: gf_of_def)
  show ?thesis
  proof (cases rule: add_cases [of x y])
    case (1 s)
    have "gf_of s = gf_of x + gf_of y" by (rule gf_of_eqI [OF _ v, of _ 0]) (use 1(2) in linarith)
    moreover have "checked_add s 0 = Inr s" using checked_add_Inr [of s 0] by simp
    ultimately show ?thesis using 1(1) by (simp add: add_no_canonicalize_trashing_input_def computes_def)
  next
    case (2 s)
    have "unat s + 4294967295 < 18446744073709551616" using 2(2) assms by linarith
    then have ok: "checked_add s EPSILON = Inr (s + EPSILON)" "unat (s + EPSILON) = unat s + 4294967295"
      using checked_add_Inr [of s EPSILON] by simp_all
    have "gf_of (s + EPSILON) = gf_of x + gf_of y"
      by (rule gf_of_eqI [OF _ v, of _ "-1"]) (use 2(2) ok(2) in linarith)
    then show ?thesis using 2(1) ok(1) by (simp add: add_no_canonicalize_trashing_input_def computes_def)
  qed
qed

lemma add_canonical_computes:
  assumes "unat rhs < 18446744069414584321"
  shows "computes (add_canonical_u64 x rhs) (gf_of x + gf_of rhs)"
proof -
  have "add_canonical_u64 x rhs = add_no_canonicalize_trashing_input x rhs"
    by (simp add: add_canonical_u64_def add_no_canonicalize_trashing_input_def)
  then show ?thesis using add_small_computes [of x rhs] assms unat_u64_less [of x] by simp
qed

lemma sub_canonical_computes:
  assumes "unat rhs < 18446744069414584321"
  shows "computes (sub_canonical_u64 x rhs) (gf_of x - gf_of rhs)"
proof -
  have v: "of_int (int (unat x) - int (unat rhs)) = gf_of x - gf_of rhs" by (simp add: gf_of_def)
  show ?thesis
  proof (cases rule: sub_cases [of x rhs])
    case (1 d)
    have "gf_of d = gf_of x - gf_of rhs" by (rule gf_of_eqI [OF _ v, of _ 0]) (use 1(2) in linarith)
    moreover have "checked_sub d 0 = Inr d" using checked_sub_Inr [of 0 d] by simp
    ultimately show ?thesis using 1(1) by (simp add: sub_canonical_u64_def computes_def)
  next
    case (2 d)
    have "4294967295 \<le> unat d" using 2(2) assms by linarith
    then have ok: "checked_sub d EPSILON = Inr (d - EPSILON)" "unat (d - EPSILON) + 4294967295 = unat d"
      using checked_sub_Inr [of EPSILON d] by simp_all
    have "gf_of (d - EPSILON) = gf_of x - gf_of rhs"
      by (rule gf_of_eqI [OF _ v, of _ 1]) (use 2(2) ok(2) in linarith)
    then show ?thesis using 2(1) ok(1) by (simp add: sub_canonical_u64_def computes_def)
  qed
qed

lemma to_canonical_Inr: "\<exists>c. to_canonical_u64 x = Inr c \<and> unat c = canon (gf_of x)"
proof (cases "ORDER \<le> x")
  case True
  then have o: "18446744069414584321 \<le> unat x" using unat_consts(2) by (simp only: word_le_nat_alt)
  then have c: "checked_sub x ORDER = Inr (x - ORDER)" "unat (x - ORDER) + 18446744069414584321 = unat x"
    using checked_sub_Inr [of ORDER x] by simp_all
  then have "unat (x - ORDER) < 18446744069414584321" using unat_u64_less [of x] by linarith
  then have "unat x mod 18446744069414584321 = unat (x - ORDER)"
    unfolding c(2) [symmetric] by (simp only: mod_add_self2 mod_less)
  then show ?thesis using True c by (simp add: to_canonical_u64_def canon_gf_of)
next
  case False
  then have "unat x < 18446744069414584321" using unat_consts(2) by (simp only: word_le_nat_alt not_le)
  then show ?thesis using False by (simp add: to_canonical_u64_def canon_gf_of)
qed

lemma gl_eq_Inr: "gl_eq x y = Inr (gf_of x = gf_of y)"
proof -
  obtain a b where "to_canonical_u64 x = Inr a" "unat a = canon (gf_of x)" "to_canonical_u64 y = Inr b" "unat b = canon (gf_of y)"
    using to_canonical_Inr by metis
  moreover have "a = b \<longleftrightarrow> unat a = unat b" by (simp add: word_unat_eq_iff)
  ultimately show ?thesis by (simp add: gl_eq_def canon_inject)
qed

lemma gl_neg_computes: "computes (gl_neg x) (- gf_of x)"
proof (cases "gf_of x = 0")
  case True
  then show ?thesis by (simp add: gl_neg_def gl_eq_Inr computes_def gf_of_def)
next
  case False
  obtain c where c: "to_canonical_u64 x = Inr c" "unat c = canon (gf_of x)" using to_canonical_Inr by blast
  have less: "unat c < 18446744069414584321" using c(2) by simp
  then have d: "checked_sub ORDER c = Inr (ORDER - c)" "unat (ORDER - c) + unat c = 18446744069414584321"
    using checked_sub_Inr [of c ORDER] by simp_all
  have "of_int (- int (unat c)) = - gf_of x"
    unfolding c(2) of_int_minus of_int_of_nat_eq of_nat_canon by (rule refl)
  then have "gf_of (ORDER - c) = - gf_of x"
    by (rule gf_of_eqI [rotated, of _ _ _ 1]) (use d(2) in linarith)
  moreover have "gf_of 0 = 0" by (simp add: gf_of_def)
  ultimately show ?thesis using False c(1) d(1) by (simp add: gl_neg_def gl_eq_Inr computes_def)
qed

subsection \<open>Reductions and products\<close>

lemma gf_pow2: "(2 ^ 64 :: gf) = 4294967295" "(2 ^ 96 :: gf) = -1"
  by (simp_all add: eq_neg_iff_add_eq_0)

text \<open>The common tail: the middle 32 bits times \<open>EPSILON\<close>, added.\<close>

lemma epsilon_tail:
  fixes t0 m :: u64
  assumes "unat m < 4294967296" "gf_of t0 = v"
  shows "\<exists>t1. checked_mul m EPSILON = Inr t1 \<and> computes (add_no_canonicalize_trashing_input t0 t1) (v + 4294967295 * of_nat (unat m))"
proof -
  have b: "unat m * 4294967295 \<le> 18446744065119617025" using assms(1) by linarith
  then have ok: "checked_mul m EPSILON = Inr (m * EPSILON)" "unat (m * EPSILON) = unat m * 4294967295"
    using checked_mul_Inr [of m EPSILON] by simp_all
  have "unat t0 + unat (m * EPSILON) < 18446744073709551616 + 18446744069414584321"
    using ok(2) b unat_u64_less [of t0] by linarith
  moreover have "gf_of (m * EPSILON) = 4294967295 * of_nat (unat m)"
    unfolding gf_of_def ok(2) of_nat_mult by simp
  ultimately show ?thesis using add_small_computes [of t0 "m * EPSILON"] ok(1) assms(2) by auto
qed

lemma unat_ucast_32_64: "unat (ucast x :: u64) = unat x" for x :: u32
  by (simp add: unsigned_ucast_eq take_bit_nat_eq_self_iff less_trans [OF unat_u32_less])

lemma reduce96_computes: "computes (reduce96 (lo, hi)) (of_nat (unat lo + 2 ^ 64 * unat hi))"
proof -
  have "unat (ucast hi :: u64) = unat hi" by (rule unat_ucast_32_64)
  moreover have "(of_nat (unat lo + 2 ^ 64 * unat hi) :: gf) = gf_of lo + 4294967295 * of_nat (unat hi)"
    by (simp only: of_nat_add of_nat_mult of_nat_power of_nat_numeral gf_pow2 gf_of_def)
  moreover obtain t1 where "checked_mul (ucast hi) EPSILON = Inr t1"
      "computes (add_no_canonicalize_trashing_input lo t1) (gf_of lo + 4294967295 * of_nat (unat (ucast hi :: u64)))"
    using epsilon_tail [of "ucast hi :: u64" lo, OF _ refl] calculation(1) by auto
  ultimately show ?thesis unfolding reduce96_def by (simp only: Let_def prod.case bind_res_simps)
qed

text \<open>The common head: the high part subtracted, with the borrow paid by \<open>EPSILON\<close>.\<close>

lemma borrow_head:
  fixes lo h :: u64
  assumes "unat h \<le> 18446744069414584321"
  shows "\<exists>d b. overflowing_sub lo h = (d, b)
    \<and> computes (if b then checked_sub d EPSILON else Inr d) (gf_of lo - of_nat (unat h))"
proof -
  have v: "of_int (int (unat lo) - int (unat h)) = gf_of lo - of_nat (unat h)" by (simp add: gf_of_def)
  show ?thesis
  proof (cases rule: sub_cases [of lo h])
    case (1 d)
    have "gf_of d = gf_of lo - of_nat (unat h)" by (rule gf_of_eqI [OF _ v, of _ 0]) (use 1(2) in linarith)
    then show ?thesis using 1(1) by (intro exI [of _ d] exI [of _ False]) (simp add: computes_def)
  next
    case (2 d)
    have "4294967295 \<le> unat d" using 2(2) assms by linarith
    then have ok: "checked_sub d EPSILON = Inr (d - EPSILON)" "unat (d - EPSILON) + 4294967295 = unat d"
      using checked_sub_Inr [of EPSILON d] by simp_all
    have "gf_of (d - EPSILON) = gf_of lo - of_nat (unat h)"
      by (rule gf_of_eqI [OF _ v, of _ 1]) (use 2(2) ok(2) in linarith)
    then show ?thesis using 2(1) ok(1) by (intro exI [of _ d] exI [of _ True]) (simp add: computes_def)
  qed
qed

lemma unat_epsilon_mask: "unat (x AND EPSILON) = unat x mod 4294967296" for x :: u64
proof -
  have "EPSILON = mask 32" by (simp add: EPSILON_def mask_eq_exp_minus_1)
  then have "x AND EPSILON = take_bit 32 x" by (simp only: take_bit_eq_mask)
  then show ?thesis by (simp only: unsigned_take_bit_eq) (simp add: take_bit_eq_mod)
qed

lemma split_twice: "n = n mod a + a * (n div a mod b) + a * b * (n div a div b)" for n :: nat
  by (metis add.assoc add_mult_distrib2 mod_mult_div_eq mult.assoc)

lemma unat_ucast_drop: "unat (ucast (drop_bit n x :: 'a :: len word) :: 'b :: len word) = unat x div 2 ^ n mod 2 ^ LENGTH('b)"
  by (simp only: unsigned_ucast_eq unat_drop_bit_eq take_bit_nat_def drop_bit_nat_def)

lemma reduce128_computes: "computes (reduce128 x) (of_nat (unat x))"
proof -
  let ?lo = "ucast x :: u64" and ?hi = "ucast (drop_bit 64 x) :: u64"
  let ?hh = "drop_bit 32 ?hi" and ?hl = "?hi AND EPSILON"
  have less: "unat x < 2 ^ 128" using unsigned_less [of x] by simp
  have lo: "unat ?lo = unat x mod 2 ^ 64" by (simp add: unsigned_ucast_eq take_bit_eq_mod)
  have hi: "unat ?hi = unat x div 2 ^ 64" using less by (simp add: unat_ucast_drop less_mult_imp_div_less)
  have hh: "unat ?hh = unat x div 2 ^ 64 div 2 ^ 32" by (simp only: unat_drop_bit_eq drop_bit_nat_def hi)
  have hl: "unat ?hl = unat x div 2 ^ 64 mod 2 ^ 32" using hi by (simp add: unat_epsilon_mask)
  have "unat x = unat ?lo + 2 ^ 64 * unat ?hl + 2 ^ 96 * unat ?hh"
    unfolding lo hh hl using split_twice [of "unat x" "2 ^ 64" "2 ^ 32"] by (simp only: power_add [symmetric]) simp
  then have "(of_nat (unat x) :: gf) = of_nat (unat ?lo) + 2 ^ 64 * of_nat (unat ?hl) + 2 ^ 96 * of_nat (unat ?hh)"
    by (simp only: of_nat_add of_nat_mult of_nat_power of_nat_numeral)
  then have val: "(of_nat (unat x) :: gf) = gf_of ?lo - of_nat (unat ?hh) + 4294967295 * of_nat (unat ?hl)"
    unfolding gf_pow2 gf_of_def by (simp only: mult_minus1 add_ac diff_conv_add_uminus)
  have "unat x div 2 ^ 64 div 2 ^ 32 < 2 ^ 32" using less by (simp add: less_mult_imp_div_less)
  then have "unat ?hh \<le> 18446744069414584321" using hh by simp
  then obtain d b t0 where d: "overflowing_sub ?lo ?hh = (d, b)" "(if b then checked_sub d EPSILON else Inr d) = Inr t0"
      "gf_of t0 = gf_of ?lo - of_nat (unat ?hh)"
    using borrow_head [of ?hh ?lo] unfolding computes_def by blast
  have "unat ?hl < 4294967296" using hl by simp
  then obtain t1 where t1: "checked_mul ?hl EPSILON = Inr t1"
      "computes (add_no_canonicalize_trashing_input t0 t1) (gf_of ?lo - of_nat (unat ?hh) + 4294967295 * of_nat (unat ?hl))"
    using epsilon_tail [OF _ d(3)] by blast
  show ?thesis
    unfolding val by (simp only: reduce128_def split128_def Let_def prod.case d(1,2) t1 bind_res_simps)
qed

text \<open>\<open>reduce160\<close> under its documented bound, which says that the part from bit 96 on is at most the order.\<close>

lemma reduce160_computes:
  assumes "unat x_lo div 2 ^ 96 + 2 ^ 32 * unat x_hi \<le> 18446744069414584321"
  shows "computes (reduce160 x_lo x_hi) (of_nat (unat x_lo + 2 ^ 128 * unat x_hi))"
proof -
  let ?lo = "ucast x_lo :: u64" and ?mid = "ucast (drop_bit 64 x_lo) :: u32" and ?top = "ucast (drop_bit 96 x_lo) :: u64"
  let ?m = "ucast ?mid :: u64" and ?s = "push_bit 32 (ucast x_hi) :: u64"
  have less: "unat x_lo < 2 ^ 128" using unsigned_less [of x_lo] by simp
  have lo: "unat ?lo = unat x_lo mod 2 ^ 64" by (simp add: unsigned_ucast_eq take_bit_eq_mod)
  have mid: "unat ?m = unat x_lo div 2 ^ 64 mod 2 ^ 32"
  proof -
    have "unat ?m = unat ?mid" by (rule unat_ucast_32_64)
    then show ?thesis by (simp only: unat_ucast_drop) simp
  qed
  have top: "unat ?top = unat x_lo div 2 ^ 96" using less by (simp add: unat_ucast_drop less_mult_imp_div_less)
  have s: "unat ?s = 2 ^ 32 * unat x_hi"
  proof -
    have "unat (ucast x_hi :: u64) = unat x_hi" by (rule unat_ucast_32_64)
    moreover have "2 ^ 32 * unat x_hi < 2 ^ 64" using assms by simp
    ultimately show ?thesis
      by (simp add: push_bit_eq_mult unat_word_ariths mult.commute)
  qed
  let ?h = "?top + ?s"
  have h: "checked_add ?top ?s = Inr ?h" "unat ?h = unat x_lo div 2 ^ 96 + 2 ^ 32 * unat x_hi"
    using checked_add_Inr [of ?top ?s] assms top s by simp_all
  have "unat x_lo + 2 ^ 128 * unat x_hi = unat ?lo + 2 ^ 64 * unat ?m + 2 ^ 96 * unat ?h"
    using split_twice [of "unat x_lo" "2 ^ 64" "2 ^ 32"] unfolding lo mid h(2) div_mult2_eq [symmetric] power_add [symmetric]
    by simp
  then have "(of_nat (unat x_lo + 2 ^ 128 * unat x_hi) :: gf) = of_nat (unat ?lo) + 2 ^ 64 * of_nat (unat ?m) + 2 ^ 96 * of_nat (unat ?h)"
    by (simp only: of_nat_add of_nat_mult of_nat_power of_nat_numeral)
  then have val: "(of_nat (unat x_lo + 2 ^ 128 * unat x_hi) :: gf) = gf_of ?lo - of_nat (unat ?h) + 4294967295 * of_nat (unat ?m)"
    unfolding gf_pow2 gf_of_def by (simp only: mult_minus1 add_ac diff_conv_add_uminus)
  obtain d b t0 where d: "overflowing_sub ?lo ?h = (d, b)" "(if b then checked_sub d EPSILON else Inr d) = Inr t0"
      "gf_of t0 = gf_of ?lo - of_nat (unat ?h)"
    using borrow_head [of ?h ?lo] assms h(2) unfolding computes_def by (metis (no_types, lifting))
  have "unat ?m < 4294967296" using mid by simp
  then obtain t1 where t1: "checked_mul ?m EPSILON = Inr t1"
      "computes (add_no_canonicalize_trashing_input t0 t1) (gf_of ?lo - of_nat (unat ?h) + 4294967295 * of_nat (unat ?m))"
    using epsilon_tail [OF _ d(3)] by blast
  show ?thesis
    unfolding val by (simp only: reduce160_def h(1) Let_def prod.case d(1,2) t1 bind_res_simps)
qed

lemma unat_ucast_128 [simp]: "unat (ucast x :: u128) = unat x" for x :: u64
  using less_trans [OF unat_u64_less [of x], of "2 ^ 128"]
  by (simp only: unsigned_ucast_eq take_bit_nat_eq_self_iff) simp

lemma u64_product: "unat x * unat y \<le> 18446744073709551615 * 18446744073709551615" for x y :: u64
  using unat_u64_less [of x] unat_u64_less [of y] by (intro mult_le_mono) linarith+

lemma multiply_accumulate_computes: "computes (multiply_accumulate z x y) (gf_of z + gf_of x * gf_of y)"
proof -
  have "unat z + unat x * unat y < 340282366920938463463374607431768211456"
    using u64_product [of x y] unat_u64_less [of z] by linarith
  moreover from this have "unat (ucast x * ucast y :: u128) = unat x * unat y"
    using unat_mult_lem [of "ucast x :: u128" "ucast y"] by simp
  ultimately have "unat (ucast z + ucast x * ucast y :: u128) = unat z + unat x * unat y"
    using unat_add_lem [of "ucast z :: u128" "ucast x * ucast y"] by simp
  then have "(of_nat (unat (ucast z + ucast x * ucast y :: u128)) :: gf) = gf_of z + gf_of x * gf_of y"
    by (simp only: of_nat_add of_nat_mult gf_of_def)
  then show ?thesis
    using reduce128_computes [of "ucast z + ucast x * ucast y"] by (simp only: multiply_accumulate_def)
qed

lemma gl_mul_computes: "computes (gl_mul x y) (gf_of x * gf_of y)"
  using multiply_accumulate_computes [of 0 x y] by (simp add: gl_mul_def multiply_accumulate_def gf_of_def)

lemma computes_bind:
  assumes "computes r v" "\<And>z. gf_of z = v \<Longrightarrow> computes (f z) w"
  shows "computes (bind_res r f) w"
  using assms by (auto simp: computes_def)

lemma exp_power_computes: "computes (exp_power_of_2 x n) (gf_of x ^ 2 ^ n)"
proof (induction n)
  case 0
  then show ?case by (simp add: exp_power_of_2_def computes_def)
next
  case (Suc n)
  have "exp_power_of_2 x (Suc n) = bind_res (exp_power_of_2 x n) gl_square" by (simp add: exp_power_of_2_def)
  moreover have "computes (bind_res (exp_power_of_2 x n) gl_square) (gf_of x ^ 2 ^ Suc n)"
    by (rule computes_bind [OF Suc]) (metis gl_mul_computes gl_square_def mult_2 power_Suc power_add)
  ultimately show ?case by simp
qed

lemma exp_acc_computes: "computes (exp_acc n x t) (gf_of x ^ 2 ^ n * gf_of t)"
  unfolding exp_acc_def by (rule computes_bind [OF exp_power_computes]) (use gl_mul_computes in metis)

text \<open>The addition chain of \<open>try_inverse\<close> is the exponent \<open>ORDER - 2\<close>.\<close>

lemma square_mul_computes:
  assumes "gf_of z = a ^ m" "gf_of t = a ^ k"
  shows "computes (bind_res (gl_square z) (\<lambda>s. gl_mul s t)) (a ^ (2 * m + k))"
proof (rule computes_bind)
  show "computes (gl_square z) (a ^ (2 * m))"
    using gl_mul_computes [of z z] by (simp add: gl_square_def assms(1) mult_2 power_add)
  show "computes (gl_mul s t) (a ^ (2 * m + k))" if "gf_of s = a ^ (2 * m)" for s
    using gl_mul_computes [of s t] that assms(2) by (simp add: power_add)
qed

lemma exp_acc_power:
  assumes "gf_of z = a ^ m" "gf_of t = a ^ k"
  shows "computes (exp_acc n z t) (a ^ (2 ^ n * m + k))"
  using exp_acc_computes [of n z t] assms by (simp add: power_add power_mult [symmetric] mult.commute)

lemma bind_square_mul:
  assumes "gf_of z = a ^ m" "gf_of t = a ^ k" "\<And>r. gf_of r = a ^ (2 * m + k) \<Longrightarrow> \<exists>y. f r = Inr y \<and> P y"
  shows "\<exists>y. bind_res (gl_square z) (\<lambda>s. bind_res (gl_mul s t) f) = Inr y \<and> P y"
proof -
  obtain s r where "gl_square z = Inr s" "gl_mul s t = Inr r" "gf_of r = a ^ (2 * m + k)"
    using square_mul_computes [OF assms(1,2)] by (auto simp: computes_def)
  then show ?thesis using assms(3) by simp
qed

lemma bind_exp_acc:
  assumes "gf_of z = a ^ m" "gf_of t = a ^ k" "\<And>r. gf_of r = a ^ (2 ^ n * m + k) \<Longrightarrow> \<exists>y. f r = Inr y \<and> P y"
  shows "\<exists>y. bind_res (exp_acc n z t) f = Inr y \<and> P y"
  using exp_acc_power [OF assms(1,2), of n] assms(3) by (auto simp: computes_def)

lemma try_inverse_Inr:
  "\<exists>r. try_inverse x = Inr r \<and> (case r of None \<Rightarrow> gf_of x = 0 | Some y \<Rightarrow> gf_of x \<noteq> 0 \<and> gf_of y = inverse (gf_of x))"
proof (cases "gf_of x = 0")
  case True
  moreover have "gf_of 0 = 0" by (simp add: gf_of_def)
  ultimately show ?thesis by (simp add: try_inverse_def gl_eq_Inr)
next
  case False
  have zero: "gl_eq x 0 = Inr False" using False by (simp add: gl_eq_Inr gf_of_def)
  let ?P = "\<lambda>r. case r of None \<Rightarrow> gf_of x = 0 | Some y \<Rightarrow> gf_of x \<noteq> 0 \<and> gf_of y = inverse (gf_of x)"
  have x: "gf_of x = gf_of x ^ 1" by simp
  show ?thesis
    unfolding try_inverse_def zero bind_res_simps if_False
    apply (rule bind_square_mul [OF x x])
    apply (rule bind_square_mul [OF _ x], assumption)
    apply (rule bind_exp_acc, assumption, assumption)
    apply (rule bind_exp_acc, assumption, assumption)
    apply (rule bind_exp_acc, assumption, assumption)
    apply (rule bind_exp_acc, assumption, assumption)
    apply (rule bind_square_mul [OF _ x], assumption)
    apply (rule bind_exp_acc, assumption, assumption)
    apply (rule bind_square_mul [OF _ x], assumption)
    using False by (simp add: inverse_gf_power)
qed

end
