(* ===== verification/Poseidon_Impl.thy ===== *)
theory Poseidon_Impl
  imports Goldilocks_Impl Poseidon
begin

text \<open>
  The permutation as the prover runs it: on \<open>u64\<close> words, with the frequency-domain product of
  \<open>poseidon_goldilocks.rs\<close> for the MDS layer and 160-bit accumulators in the fast partial
  rounds.  It refines the permutation of \<open>Poseidon\<close> on field elements: no modelled check panics
  and the words it returns stand for the elements of the latter.

  The frequency-domain arithmetic is on \<open>i64\<close>; its \<open>+\<close>, \<open>-\<close> and \<open>*\<close> are modelled as those of the
  64-bit word, which wrap, without the overflow checks of a debug build.  The layer calls it on
  32-bit halves only, where no value leaves the range of \<open>i64\<close>; that this range is kept is not
  proved here.  Casts between \<open>i64\<close> and \<open>u64\<close> keep the word.
\<close>

subsection \<open>The MDS layer\<close>

definition MDS_FREQ_BLOCK_ONE :: "u64 \<times> u64 \<times> u64" where
  "MDS_FREQ_BLOCK_ONE = (16, 32, 16)"

definition MDS_FREQ_BLOCK_TWO :: "(u64 \<times> u64) \<times> (u64 \<times> u64) \<times> (u64 \<times> u64)" where
  "MDS_FREQ_BLOCK_TWO = ((2, -1), (-4, 1), (16, 1))"

definition MDS_FREQ_BLOCK_THREE :: "u64 \<times> u64 \<times> u64" where
  "MDS_FREQ_BLOCK_THREE = (-1, -8, 2)"

definition fft2_real :: "u64 \<times> u64 \<Rightarrow> u64 \<times> u64" where
  "fft2_real x = (fst x + snd x, fst x - snd x)"

definition ifft2_real_unreduced :: "u64 \<times> u64 \<Rightarrow> u64 \<times> u64" where
  "ifft2_real_unreduced y = (fst y + snd y, fst y - snd y)"

definition fft4_real :: "u64 \<times> u64 \<times> u64 \<times> u64 \<Rightarrow> u64 \<times> (u64 \<times> u64) \<times> u64" where
  "fft4_real x =
     (let (x0, x1, x2, x3) = x;
          (z0, z2) = fft2_real (x0, x2);
          (z1, z3) = fft2_real (x1, x3);
          y0 = z0 + z1;
          y1 = (z2, - z3);
          y2 = z0 - z1
      in (y0, y1, y2))"

definition ifft4_real_unreduced :: "u64 \<times> (u64 \<times> u64) \<times> u64 \<Rightarrow> u64 \<times> u64 \<times> u64 \<times> u64" where
  "ifft4_real_unreduced y =
     (let (y0, y1, y2) = y;
          z0 = y0 + y2;
          z1 = y0 - y2;
          z2 = fst y1;
          z3 = - snd y1;
          (x0, x2) = ifft2_real_unreduced (z0, z2);
          (x1, x3) = ifft2_real_unreduced (z1, z3)
      in (x0, x1, x2, x3))"

definition block1 :: "u64 \<times> u64 \<times> u64 \<Rightarrow> u64 \<times> u64 \<times> u64 \<Rightarrow> u64 \<times> u64 \<times> u64" where
  "block1 x y =
     (let (x0, x1, x2) = x; (y0, y1, y2) = y;
          z0 = x0 * y0 + x1 * y2 + x2 * y1;
          z1 = x0 * y1 + x1 * y0 + x2 * y2;
          z2 = x0 * y2 + x1 * y1 + x2 * y0
      in (z0, z1, z2))"

definition block2 ::
    "(u64 \<times> u64) \<times> (u64 \<times> u64) \<times> (u64 \<times> u64) \<Rightarrow> (u64 \<times> u64) \<times> (u64 \<times> u64) \<times> (u64 \<times> u64)
      \<Rightarrow> (u64 \<times> u64) \<times> (u64 \<times> u64) \<times> (u64 \<times> u64)" where
  "block2 x y =
     (let ((x0r, x0i), (x1r, x1i), (x2r, x2i)) = x;
          ((y0r, y0i), (y1r, y1i), (y2r, y2i)) = y;
          x0s = x0r + x0i; x1s = x1r + x1i; x2s = x2r + x2i;
          y0s = y0r + y0i; y1s = y1r + y1i; y2s = y2r + y2i;
          m0 = (x0r * y0r, x0i * y0i);
          m1 = (x1r * y2r, x1i * y2i);
          m2 = (x2r * y1r, x2i * y1i);
          z0r = (fst m0 - snd m0) + (x1s * y2s - fst m1 - snd m1) + (x2s * y1s - fst m2 - snd m2);
          z0i = (x0s * y0s - fst m0 - snd m0) + (- fst m1 + snd m1) + (- fst m2 + snd m2);
          z0 = (z0r, z0i);
          m0 = (x0r * y1r, x0i * y1i);
          m1 = (x1r * y0r, x1i * y0i);
          m2 = (x2r * y2r, x2i * y2i);
          z1r = (fst m0 - snd m0) + (fst m1 - snd m1) + (x2s * y2s - fst m2 - snd m2);
          z1i = (x0s * y1s - fst m0 - snd m0) + (x1s * y0s - fst m1 - snd m1) + (- fst m2 + snd m2);
          z1 = (z1r, z1i);
          m0 = (x0r * y2r, x0i * y2i);
          m1 = (x1r * y1r, x1i * y1i);
          m2 = (x2r * y0r, x2i * y0i);
          z2r = (fst m0 - snd m0) + (fst m1 - snd m1) + (fst m2 - snd m2);
          z2i = (x0s * y2s - fst m0 - snd m0) + (x1s * y1s - fst m1 - snd m1) + (x2s * y0s - fst m2 - snd m2);
          z2 = (z2r, z2i)
      in (z0, z1, z2))"

definition block3 :: "u64 \<times> u64 \<times> u64 \<Rightarrow> u64 \<times> u64 \<times> u64 \<Rightarrow> u64 \<times> u64 \<times> u64" where
  "block3 x y =
     (let (x0, x1, x2) = x; (y0, y1, y2) = y;
          z0 = x0 * y0 - x1 * y2 - x2 * y1;
          z1 = x0 * y1 + x1 * y0 - x2 * y2;
          z2 = x0 * y2 + x1 * y1 + x2 * y0
      in (z0, z1, z2))"

definition mds_multiply_freq :: "u64 list \<Rightarrow> u64 list" where
  "mds_multiply_freq s =
     (let (u0, u1, u2) = fft4_real (s ! 0, s ! 3, s ! 6, s ! 9);
          (u4, u5, u6) = fft4_real (s ! 1, s ! 4, s ! 7, s ! 10);
          (u8, u9, u10) = fft4_real (s ! 2, s ! 5, s ! 8, s ! 11);
          (v0, v4, v8) = block1 (u0, u4, u8) MDS_FREQ_BLOCK_ONE;
          (v1, v5, v9) = block2 (u1, u5, u9) MDS_FREQ_BLOCK_TWO;
          (v2, v6, v10) = block3 (u2, u6, u10) MDS_FREQ_BLOCK_THREE;
          (s0, s3, s6, s9) = ifft4_real_unreduced (v0, v1, v2);
          (s1, s4, s7, s10) = ifft4_real_unreduced (v4, v5, v6);
          (s2, s5, s8, s11) = ifft4_real_unreduced (v8, v9, v10)
      in [s0, s1, s2, s3, s4, s5, s6, s7, s8, s9, s10, s11])"

text \<open>It is the product with the circulant matrix.\<close>

definition circ_row :: "'a :: comm_semiring_1 list \<Rightarrow> nat \<Rightarrow> 'a" where
  "circ_row v r = (\<Sum>i\<leftarrow>[0..<12]. v ! ((i + r) mod 12) * of_nat (MDS_MATRIX_CIRC ! i))"

lemma mds_multiply_freq_circ: "mds_multiply_freq s = map (circ_row s) [0..<12]"
  by (simp add: mds_multiply_freq_def fft4_real_def fft2_real_def ifft4_real_unreduced_def ifft2_real_unreduced_def
      block1_def block2_def block3_def MDS_FREQ_BLOCK_ONE_def MDS_FREQ_BLOCK_TWO_def MDS_FREQ_BLOCK_THREE_def
      circ_row_def MDS_MATRIX_CIRC_def upt_rec Let_def) (simp add: algebra_simps flip: numeral_2_eq_2)

text \<open>A \<open>u128\<close> below \<open>2 ^ 96\<close> goes to \<open>from_noncanonical_u96\<close> in two parts.\<close>

definition from_u96 :: "u128 \<Rightarrow> u64 res" where
  "from_u96 s = reduce96 (ucast s, ucast (drop_bit 64 s))"

definition gl_mds_layer :: "u64 list \<Rightarrow> u64 list res" where
  "gl_mds_layer state =
     (let state_h = map (\<lambda>r. drop_bit 32 (state ! r)) [0..<12];
          state_l = map (\<lambda>r. (ucast (ucast (state ! r) :: u32) :: u64)) [0..<12];
          state_h = mds_multiply_freq state_h;
          state_l = mds_multiply_freq state_l in
      bind_res (map_res (\<lambda>r. from_u96 (ucast (state_l ! r) + push_bit 32 (ucast (state_h ! r)))) [0..<12]) (\<lambda>result.
      let s = of_nat (MDS_MATRIX_DIAG ! 0) * ucast (state ! 0) in
      bind_res (from_u96 s) (\<lambda>d.
      bind_res (gl_add (result ! 0) d) (\<lambda>r0. Inr (result[0 := r0])))))"

lemma from_u96_computes:
  assumes "unat s < 2 ^ 96"
  shows "computes (from_u96 s) (of_nat (unat s))"
proof -
  have lo: "unat (ucast s :: u64) = unat s mod 2 ^ 64" by (simp add: unsigned_ucast_eq take_bit_eq_mod)
  have hi: "unat (ucast (drop_bit 64 s) :: u32) = unat s div 2 ^ 64"
    using assms by (simp add: unat_ucast_drop less_mult_imp_div_less)
  have "unat (ucast s :: u64) + 2 ^ 64 * unat (ucast (drop_bit 64 s) :: u32) = unat s"
    unfolding lo hi by (rule mod_mult_div_eq)
  then show ?thesis using reduce96_computes [of "ucast s :: u64" "ucast (drop_bit 64 s)"] by (simp only: from_u96_def)
qed

lemma circ_sum_list: "circ_row v r \<le> (256 * b :: nat)" if "\<forall>i < 12. v ! i \<le> b"
proof -
  have "circ_row v r \<le> (\<Sum>i\<leftarrow>[0..<12]. b * of_nat (MDS_MATRIX_CIRC ! i))"
    unfolding circ_row_def using that by (intro sum_list_mono mult_right_mono) auto
  also have "\<dots> = 256 * b" by (simp add: MDS_MATRIX_CIRC_def upt_rec)
  finally show ?thesis .
qed

lemma circ_row_of_nat: "length v = 12 \<Longrightarrow> (of_nat (circ_row v r) :: 'a :: comm_semiring_1) = circ_row (map of_nat v) r"
  by (simp add: circ_row_def sum_list_of_nat [symmetric] comp_def cong: map_cong)

lemma unat_circ_row:
  assumes "length s = 12" "\<forall>i < 12. unat (s ! i) < 2 ^ 32"
  shows "unat (circ_row s r :: u64) = circ_row (map unat s) r" "circ_row (map unat s) r < 2 ^ 40"
proof -
  have "map of_nat (map unat s) = s" by (simp add: comp_def)
  then have "circ_row s r = of_nat (circ_row (map unat s) r)" using assms(1) by (subst circ_row_of_nat) simp_all
  moreover have "circ_row (map unat s) r \<le> 256 * 4294967295"
    using assms by (intro circ_sum_list) auto
  ultimately show "unat (circ_row s r) = circ_row (map unat s) r" "circ_row (map unat s) r < 2 ^ 40"
    by (simp_all add: unat_of_nat)
qed

lemma mds_row_shf_field_circ: "mds_row_shf_field r v = circ_row v r + v ! r * of_nat (MDS_MATRIX_DIAG ! r)"
  by (simp add: mds_row_shf_field_def circ_row_def foldl_plus_map SPONGE_WIDTH_def del: upt_Suc)

text \<open>Lists of words that stand for a list of elements.\<close>

definition computes_list :: "u64 list res \<Rightarrow> gf list \<Rightarrow> bool" where
  "computes_list r vs \<longleftrightarrow> (\<exists>zs. r = Inr zs \<and> map gf_of zs = vs)"

lemma map_res_computes:
  "(\<And>x. x \<in> set xs \<Longrightarrow> computes (f x) (g x)) \<Longrightarrow> computes_list (map_res f xs) (map g xs)"
proof (induction xs)
  case (Cons x xs)
  then have "computes (f x) (g x)" "computes_list (map_res f xs) (map g xs)" by simp_all
  then show ?case by (auto simp: computes_def computes_list_def)
qed (simp add: computes_list_def)

lemma computes_list_bind:
  assumes "computes_list r vs" "\<And>zs. map gf_of zs = vs \<Longrightarrow> computes_list (f zs) ws"
  shows "computes_list (bind_res r f) ws"
  using assms by (auto simp: computes_list_def)

lemma circ_row_halves:
  assumes "length h = 12" "length l = 12" "length v = 12" "\<forall>i < 12. v ! i = l ! i + c * h ! i"
  shows "circ_row l r + c * circ_row h r = (circ_row v r :: gf)"
proof -
  have "circ_row v r = (\<Sum>i\<leftarrow>[0..<12]. l ! ((i + r) mod 12) * of_nat (MDS_MATRIX_CIRC ! i)
      + c * (h ! ((i + r) mod 12) * of_nat (MDS_MATRIX_CIRC ! i)))"
    unfolding circ_row_def using assms(4) by (intro arg_cong [where f = sum_list] map_cong) (simp_all add: algebra_simps)
  then show ?thesis by (simp add: circ_row_def sum_list_addf sum_list_const_mult del: upt_Suc)
qed

lemma gl_mds_layer_computes:
  assumes "length state = 12"
  shows "computes_list (gl_mds_layer state) (mds_layer_field (map gf_of state))"
proof -
  define h where "h = map (\<lambda>r. drop_bit 32 (state ! r)) [0..<12]"
  define l where "l = map (\<lambda>r. (ucast (ucast (state ! r) :: u32) :: u64)) [0..<12]"
  have lens: "length h = 12" "length l = 12" by (simp_all add: h_def l_def)
  have vals: "unat (h ! i) = unat (state ! i) div 2 ^ 32" "unat (l ! i) = unat (state ! i) mod 2 ^ 32" if "i < 12" for i
  proof -
    have "h ! i = drop_bit 32 (state ! i)" "l ! i = ucast (ucast (state ! i) :: u32)" using that by (simp_all add: h_def l_def)
    then show "unat (h ! i) = unat (state ! i) div 2 ^ 32" "unat (l ! i) = unat (state ! i) mod 2 ^ 32"
      by (simp_all only: unat_drop_bit_eq drop_bit_nat_def unat_ucast_32_64) (simp add: unsigned_ucast_eq take_bit_nat_def)
  qed
  have small: "\<forall>i < 12. unat (h ! i) < 2 ^ 32" "\<forall>i < 12. unat (l ! i) < 2 ^ 32"
    by (auto simp: vals less_mult_imp_div_less)
  define w where "w r = (ucast (mds_multiply_freq l ! r) + push_bit 32 (ucast (mds_multiply_freq h ! r)) :: u128)" for r
  have w: "computes (from_u96 (w r)) (circ_row (map gf_of state) r)" if "r < 12" for r
  proof -
    note L = unat_circ_row [OF lens(2) small(2), of r] and H = unat_circ_row [OF lens(1) small(1), of r]
    let ?L = "circ_row (map unat l) r" and ?H = "circ_row (map unat h) r"
    have freq: "mds_multiply_freq l ! r = circ_row l r" "mds_multiply_freq h ! r = circ_row h r"
      using that by (simp_all add: mds_multiply_freq_circ)
    have "unat (push_bit 32 (ucast (circ_row h r)) :: u128) = 2 ^ 32 * ?H"
      using H unat_mult_lem [of "2 ^ 32 :: u128" "ucast (circ_row h r)"] by (simp add: push_bit_eq_mult mult.commute)
    then have u: "unat (w r) = ?L + 2 ^ 32 * ?H"
      using L H unat_add_lem [of "ucast (circ_row l r) :: u128" "push_bit 32 (ucast (circ_row h r))"]
      by (simp add: w_def freq)
    have "(of_nat (unat (w r)) :: gf) = circ_row (map of_nat (map unat l)) r + 2 ^ 32 * circ_row (map of_nat (map unat h)) r"
      unfolding u of_nat_add of_nat_mult of_nat_power of_nat_numeral using lens by (simp only: circ_row_of_nat length_map)
    also have "\<dots> = circ_row (map gf_of state) r"
    proof (rule circ_row_halves)
      have "(of_nat (unat (state ! i)) :: gf) = of_nat (unat (state ! i) mod 2 ^ 32) + 2 ^ 32 * of_nat (unat (state ! i) div 2 ^ 32)" for i
        by (metis mod_mult_div_eq of_nat_add of_nat_mult of_nat_numeral of_nat_power)
      then show "\<forall>i < 12. map gf_of state ! i = map of_nat (map unat l) ! i + 2 ^ 32 * map of_nat (map unat h) ! i"
        using assms lens by (simp add: gf_of_def vals del: of_nat_unat)
    qed (simp_all add: lens assms)
    finally show ?thesis using from_u96_computes [of "w r"] u L(2) H(2) by simp
  qed
  have "computes_list (map_res (\<lambda>r. from_u96 (w r)) [0..<12]) (map (circ_row (map gf_of state)) [0..<12])"
    by (rule map_res_computes) (simp add: w)
  then obtain zs where zs: "map_res (\<lambda>r. from_u96 (w r)) [0..<12] = Inr zs" "map gf_of zs = map (circ_row (map gf_of state)) [0..<12]"
    by (auto simp: computes_list_def)
  have len: "length zs = 12" using zs(2) by (metis diff_zero length_map length_upt)
  let ?d = "of_nat (MDS_MATRIX_DIAG ! 0) * ucast (state ! 0) :: u128"
  have "8 * unat (state ! 0) < 340282366920938463463374607431768211456" using unat_u64_less [of "state ! 0"] by linarith
  then have d: "unat ?d = 8 * unat (state ! 0)"
    using unat_mult_lem [of "8 :: u128" "ucast (state ! 0)"] by (simp add: MDS_MATRIX_DIAG_def)
  then have "computes (from_u96 ?d) (8 * gf_of (state ! 0))"
    using from_u96_computes [of ?d] unat_u64_less [of "state ! 0"] by (simp add: gf_of_def)
  then obtain dw where dw: "from_u96 ?d = Inr dw" "gf_of dw = 8 * gf_of (state ! 0)" by (auto simp: computes_def)
  obtain r0 where r0: "gl_add (zs ! 0) dw = Inr r0" "gf_of r0 = gf_of (zs ! 0) + 8 * gf_of (state ! 0)"
    using gl_add_computes [of "zs ! 0" dw] dw(2) by (auto simp: computes_def)
  have "map gf_of (zs[0 := r0]) = mds_layer_field (map gf_of state)"
  proof (rule nth_equalityI)
    fix r assume "r < length (map gf_of (zs[0 := r0]))"
    then have r: "r < 12" using len by simp
    have "gf_of (zs ! k) = circ_row (map gf_of state) k" if "k < 12" for k
      using arg_cong [OF zs(2), of "\<lambda>x. x ! k"] that len by simp
    then show "map gf_of (zs[0 := r0]) ! r = mds_layer_field (map gf_of state) ! r"
      using r r0(2) len assms
      by (cases "r = 0") (simp_all add: mds_layer_field_def SPONGE_WIDTH_def mds_row_shf_field_circ MDS_MATRIX_DIAG_def nth_Cons')
  qed (simp add: len mds_layer_field_def SPONGE_WIDTH_def)
  moreover have "gl_mds_layer state = Inr (zs[0 := r0])"
    using zs(1) dw(1) r0(1) by (simp only: gl_mds_layer_def Let_def h_def [symmetric] l_def [symmetric] w_def [symmetric] bind_res_simps)
  ultimately show ?thesis by (simp add: computes_list_def)
qed

subsection \<open>The other layers\<close>

definition gl_constant_layer :: "u64 list \<Rightarrow> nat \<Rightarrow> u64 list res" where
  "gl_constant_layer state round_ctr =
     map_res (\<lambda>i. add_canonical_u64 (state ! i) (of_nat (ALL_ROUND_CONSTANTS ! (i + SPONGE_WIDTH * round_ctr)))) [0..<SPONGE_WIDTH]"

definition gl_sbox_monomial :: "u64 \<Rightarrow> u64 res" where
  "gl_sbox_monomial x =
     bind_res (gl_square x) (\<lambda>x2. bind_res (gl_square x2) (\<lambda>x4. bind_res (gl_mul x x2) (\<lambda>x3. gl_mul x3 x4)))"

definition gl_sbox_layer :: "u64 list \<Rightarrow> u64 list res" where
  "gl_sbox_layer state = map_res gl_sbox_monomial state"

definition gl_partial_first_constant_layer :: "u64 list \<Rightarrow> u64 list res" where
  "gl_partial_first_constant_layer state =
     map_res (\<lambda>i. gl_add (state ! i) (of_nat (FAST_PARTIAL_FIRST_ROUND_CONSTANT ! i))) [0..<SPONGE_WIDTH]"

definition gl_mds_partial_layer_init :: "u64 list \<Rightarrow> u64 list res" where
  "gl_mds_partial_layer_init state =
     bind_res (map_res (\<lambda>c. foldl (\<lambda>res r. bind_res res (\<lambda>res.
           bind_res (gl_mul (state ! r) (of_nat (FAST_PARTIAL_ROUND_INITIAL_MATRIX ! (r - 1) ! (c - 1)))) (gl_add res)))
         (Inr 0) [1..<SPONGE_WIDTH]) [1..<SPONGE_WIDTH]) (\<lambda>cs. Inr (state ! 0 # cs))"

definition add_u160_u128 :: "u128 \<times> u32 \<Rightarrow> u128 \<Rightarrow> (u128 \<times> u32) res" where
  "add_u160_u128 x y =
     (let (x_lo, x_hi) = x;
          res_lo = x_lo + y;
          over = res_lo < x_lo in
      ensure (unat x_hi + of_bool over < 2 ^ 32) (Panic ''attempt to add with overflow'') (Inr (res_lo, x_hi + of_bool over)))"

definition reduce_u160 :: "u128 \<times> u32 \<Rightarrow> u64 res" where
  "reduce_u160 n =
     (let (n_lo, n_hi) = n;
          n_lo_hi = (ucast (drop_bit 64 n_lo) :: u64);
          n_lo_lo = (ucast n_lo :: u64) in
      bind_res (reduce96 (n_lo_hi, n_hi)) (\<lambda>reduced_hi.
      reduce128 (push_bit 64 (ucast reduced_hi) + ucast n_lo_lo)))"

definition gl_mds_partial_layer_fast :: "u64 list \<Rightarrow> nat \<Rightarrow> u64 list res" where
  "gl_mds_partial_layer_fast state r =
     bind_res (foldl (\<lambda>d_sum i. bind_res d_sum (\<lambda>d_sum.
           add_u160_u128 d_sum (ucast (state ! i) * of_nat (FAST_PARTIAL_ROUND_W_HATS ! r ! (i - 1)))))
         (Inr (0, 0)) [1..<SPONGE_WIDTH]) (\<lambda>d_sum.
     let mds0to0 = MDS_MATRIX_CIRC ! 0 + MDS_MATRIX_DIAG ! 0 in
     bind_res (add_u160_u128 d_sum (ucast (state ! 0) * of_nat mds0to0)) (\<lambda>d_sum.
     bind_res (reduce_u160 d_sum) (\<lambda>d.
     bind_res (map_res (\<lambda>i. multiply_accumulate (state ! i) (state ! 0) (of_nat (FAST_PARTIAL_ROUND_VS ! r ! (i - 1))))
         [1..<SPONGE_WIDTH]) (\<lambda>rest.
     Inr (d # rest)))))"

definition gl_full_round :: "u64 list \<Rightarrow> nat \<Rightarrow> u64 list res" where
  "gl_full_round state round_ctr =
     bind_res (gl_constant_layer state round_ctr) (\<lambda>state. bind_res (gl_sbox_layer state) gl_mds_layer)"

definition gl_full_rounds :: "u64 list \<Rightarrow> nat \<Rightarrow> (u64 list \<times> nat) res" where
  "gl_full_rounds state round_ctr =
     foldl (\<lambda>acc _. bind_res acc (\<lambda>(state, round_ctr). bind_res (gl_full_round state round_ctr) (\<lambda>state. Inr (state, round_ctr + 1))))
       (Inr (state, round_ctr)) [0..<HALF_N_FULL_ROUNDS]"

definition gl_partial_round :: "u64 list \<Rightarrow> nat \<Rightarrow> u64 list res" where
  "gl_partial_round state i =
     bind_res (gl_sbox_monomial (state ! 0)) (\<lambda>s0.
     bind_res (add_canonical_u64 s0 (of_nat (FAST_PARTIAL_ROUND_CONSTANTS ! i))) (\<lambda>s0.
     gl_mds_partial_layer_fast (state[0 := s0]) i))"

definition gl_partial_rounds :: "u64 list \<Rightarrow> nat \<Rightarrow> (u64 list \<times> nat) res" where
  "gl_partial_rounds state round_ctr =
     bind_res (gl_partial_first_constant_layer state) (\<lambda>state.
     bind_res (gl_mds_partial_layer_init state) (\<lambda>state.
     bind_res (foldl (\<lambda>acc i. bind_res acc (\<lambda>state. gl_partial_round state i)) (Inr state) [0..<N_PARTIAL_ROUNDS]) (\<lambda>state.
     Inr (state, round_ctr + N_PARTIAL_ROUNDS))))"

definition gl_poseidon :: "u64 list \<Rightarrow> u64 list res" where
  "gl_poseidon input =
     bind_res (gl_full_rounds input 0) (\<lambda>(state, round_ctr).
     bind_res (gl_partial_rounds state round_ctr) (\<lambda>(state, round_ctr).
     bind_res (gl_full_rounds state round_ctr) (\<lambda>(state, round_ctr).
     Inr state)))"

lemma gf_of_of_nat: "c < 2 ^ 64 \<Longrightarrow> gf_of (of_nat c) = of_nat c \<and> unat (of_nat c :: u64) = c"
proof -
  assume "c < 2 ^ 64"
  then have "unat (of_nat c :: u64) = c" by (simp add: unat_of_nat)
  then show ?thesis by (simp only: gf_of_def)
qed

lemma table_bounds:
  "list_all (\<lambda>c. c < goldilocks_order) ALL_ROUND_CONSTANTS"
  "list_all (\<lambda>c. c < goldilocks_order) FAST_PARTIAL_FIRST_ROUND_CONSTANT"
  "list_all (\<lambda>c. c < goldilocks_order) FAST_PARTIAL_ROUND_CONSTANTS"
  by (simp_all add: ALL_ROUND_CONSTANTS_def FAST_PARTIAL_FIRST_ROUND_CONSTANT_def FAST_PARTIAL_ROUND_CONSTANTS_def)

lemma table_lengths:
  "length ALL_ROUND_CONSTANTS = 360" "length FAST_PARTIAL_FIRST_ROUND_CONSTANT = 12" "length FAST_PARTIAL_ROUND_CONSTANTS = 22"
  by (simp_all add: ALL_ROUND_CONSTANTS_def FAST_PARTIAL_FIRST_ROUND_CONSTANT_def FAST_PARTIAL_ROUND_CONSTANTS_def)

lemma matrix_bounds:
  "list_all (\<lambda>row. list_all (\<lambda>c. c < goldilocks_order) row) FAST_PARTIAL_ROUND_VS"
  "list_all (\<lambda>row. list_all (\<lambda>c. c < goldilocks_order) row) FAST_PARTIAL_ROUND_W_HATS"
  "list_all (\<lambda>row. list_all (\<lambda>c. c < goldilocks_order) row) FAST_PARTIAL_ROUND_INITIAL_MATRIX"
  by (simp_all add: FAST_PARTIAL_ROUND_VS_def FAST_PARTIAL_ROUND_W_HATS_def FAST_PARTIAL_ROUND_INITIAL_MATRIX_def)

lemma matrix_lengths:
  "list_all (\<lambda>row. length row = 11) FAST_PARTIAL_ROUND_VS" "length FAST_PARTIAL_ROUND_VS = 22"
  "list_all (\<lambda>row. length row = 11) FAST_PARTIAL_ROUND_W_HATS" "length FAST_PARTIAL_ROUND_W_HATS = 22"
  "list_all (\<lambda>row. length row = 11) FAST_PARTIAL_ROUND_INITIAL_MATRIX" "length FAST_PARTIAL_ROUND_INITIAL_MATRIX = 11"
  by (simp_all add: FAST_PARTIAL_ROUND_VS_def FAST_PARTIAL_ROUND_W_HATS_def FAST_PARTIAL_ROUND_INITIAL_MATRIX_def)

lemma matrix_entry:
  assumes "list_all (\<lambda>row. list_all (\<lambda>c. c < goldilocks_order) row) m" "list_all (\<lambda>row. length row = 11) m"
    "i < length m" "j < 11"
  shows "m ! i ! j < goldilocks_order"
  using assms by (auto simp: list_all_length)

subsection \<open>Refinement\<close>

lemma foldl_res_rel:
  assumes "\<And>a v x. x \<in> set xs \<Longrightarrow> R a v \<Longrightarrow> \<exists>b. f a x = Inr b \<and> R b (g v x)" "R a v"
  shows "\<exists>b. foldl (\<lambda>acc x. bind_res acc (\<lambda>a. f a x)) (Inr a) xs = Inr b \<and> R b (foldl g v xs)"
  using assms
proof (induction xs arbitrary: a v)
  case (Cons x xs)
  then obtain b where "f a x = Inr b" "R b (g v x)" by (meson list.set_intros(1))
  then show ?case using Cons.IH [of b "g v x"] Cons.prems(1) by simp
qed simp

lemma gl_constant_layer_computes:
  assumes "length state = 12" "c < 30"
  shows "computes_list (gl_constant_layer state c) (constant_layer_field (map gf_of state) c)"
  unfolding gl_constant_layer_def constant_layer_field_def
proof (rule map_res_computes)
  fix i assume "i \<in> set [0..<SPONGE_WIDTH]"
  then have i: "i < 12" "i + SPONGE_WIDTH * c < 360" using assms(2) by (simp_all add: SPONGE_WIDTH_def)
  then have k: "ALL_ROUND_CONSTANTS ! (i + SPONGE_WIDTH * c) < goldilocks_order"
    using table_bounds(1) table_lengths(1) by (simp add: list_all_length)
  then have "gf_of (of_nat (ALL_ROUND_CONSTANTS ! (i + SPONGE_WIDTH * c))) = of_nat (ALL_ROUND_CONSTANTS ! (i + SPONGE_WIDTH * c))
      \<and> unat (of_nat (ALL_ROUND_CONSTANTS ! (i + SPONGE_WIDTH * c)) :: u64) = ALL_ROUND_CONSTANTS ! (i + SPONGE_WIDTH * c)"
    by (intro gf_of_of_nat) simp
  then show "computes (add_canonical_u64 (state ! i) (of_nat (ALL_ROUND_CONSTANTS ! (i + SPONGE_WIDTH * c))))
      (map gf_of state ! i + of_nat (ALL_ROUND_CONSTANTS ! (i + SPONGE_WIDTH * c)))"
    using add_canonical_computes [of "of_nat (ALL_ROUND_CONSTANTS ! (i + SPONGE_WIDTH * c))" "state ! i"] k i assms(1) by simp
qed

lemma gl_sbox_monomial_computes: "computes (gl_sbox_monomial x) (sbox_monomial (gf_of x))"
  unfolding gl_sbox_monomial_def sbox_monomial_def Let_def gl_square_def
  by (rule computes_bind [OF gl_mul_computes], rule computes_bind [OF gl_mul_computes], rule computes_bind [OF gl_mul_computes])
    (use gl_mul_computes in metis)

lemma gl_sbox_layer_computes: "computes_list (gl_sbox_layer state) (sbox_layer_field (map gf_of state))"
  using map_res_computes [of state gl_sbox_monomial "\<lambda>x. sbox_monomial (gf_of x)"] gl_sbox_monomial_computes
  by (simp add: gl_sbox_layer_def sbox_layer_field_def comp_def)

lemma gl_partial_first_computes:
  assumes "length state = 12"
  shows "computes_list (gl_partial_first_constant_layer state) (partial_first_constant_layer (map gf_of state))"
  unfolding gl_partial_first_constant_layer_def partial_first_constant_layer_def
proof (rule map_res_computes)
  fix i assume "i \<in> set [0..<SPONGE_WIDTH]"
  then have i: "i < 12" by (simp add: SPONGE_WIDTH_def)
  then have "FAST_PARTIAL_FIRST_ROUND_CONSTANT ! i < goldilocks_order"
    using table_bounds(2) table_lengths(2) by (simp add: list_all_length)
  then show "computes (gl_add (state ! i) (of_nat (FAST_PARTIAL_FIRST_ROUND_CONSTANT ! i)))
      (map gf_of state ! i + of_nat (FAST_PARTIAL_FIRST_ROUND_CONSTANT ! i))"
    using gl_add_computes [of "state ! i" "of_nat (FAST_PARTIAL_FIRST_ROUND_CONSTANT ! i)"] i assms
      gf_of_of_nat [of "FAST_PARTIAL_FIRST_ROUND_CONSTANT ! i"] by simp
qed

lemma gl_partial_init_computes:
  assumes "length state = 12"
  shows "computes_list (gl_mds_partial_layer_init state) (mds_partial_layer_init (map gf_of state))"
proof -
  have "computes_list (map_res (\<lambda>c. foldl (\<lambda>res r. bind_res res (\<lambda>res.
           bind_res (gl_mul (state ! r) (of_nat (FAST_PARTIAL_ROUND_INITIAL_MATRIX ! (r - 1) ! (c - 1)))) (gl_add res)))
         (Inr 0) [1..<SPONGE_WIDTH]) [1..<SPONGE_WIDTH])
      (map (\<lambda>c. foldl (\<lambda>res r. res + map gf_of state ! r * of_nat (FAST_PARTIAL_ROUND_INITIAL_MATRIX ! (r - 1) ! (c - 1))) 0
         [1..<SPONGE_WIDTH]) [1..<SPONGE_WIDTH])"
  proof (rule map_res_computes)
    fix c assume c: "c \<in> set [1..<SPONGE_WIDTH]"
    have "\<exists>b. bind_res (gl_mul (state ! r) (of_nat (FAST_PARTIAL_ROUND_INITIAL_MATRIX ! (r - 1) ! (c - 1)))) (gl_add a) = Inr b
        \<and> gf_of b = v + map gf_of state ! r * of_nat (FAST_PARTIAL_ROUND_INITIAL_MATRIX ! (r - 1) ! (c - 1))"
      if "r \<in> set [1..<SPONGE_WIDTH]" "gf_of a = v" for a v r
    proof -
      let ?k = "FAST_PARTIAL_ROUND_INITIAL_MATRIX ! (r - 1) ! (c - 1)"
      have "?k < goldilocks_order"
        using that(1) c by (intro matrix_entry [OF matrix_bounds(3) matrix_lengths(5)]) (auto simp: matrix_lengths(6) SPONGE_WIDTH_def)
      then have k: "gf_of (of_nat ?k) = of_nat ?k" using gf_of_of_nat [of ?k] by simp
      have "computes (bind_res (gl_mul (state ! r) (of_nat ?k)) (gl_add a)) (v + gf_of (state ! r) * of_nat ?k)"
        by (rule computes_bind [OF gl_mul_computes]) (metis gl_add_computes k that(2))
      then show ?thesis using that(1) assms by (simp add: computes_def SPONGE_WIDTH_def)
    qed
    from foldl_res_rel [where R = "\<lambda>a v. gf_of a = v" and xs = "[1..<SPONGE_WIDTH]" and a = 0 and v = 0, OF this]
    show "computes (foldl (\<lambda>res r. bind_res res (\<lambda>res.
           bind_res (gl_mul (state ! r) (of_nat (FAST_PARTIAL_ROUND_INITIAL_MATRIX ! (r - 1) ! (c - 1)))) (gl_add res)))
         (Inr 0) [1..<SPONGE_WIDTH])
      (foldl (\<lambda>res r. res + map gf_of state ! r * of_nat (FAST_PARTIAL_ROUND_INITIAL_MATRIX ! (r - 1) ! (c - 1))) 0 [1..<SPONGE_WIDTH])"
      by (simp add: computes_def gf_of_def del: upt_Suc)
  qed
  then show ?thesis
    using assms unfolding gl_mds_partial_layer_init_def mds_partial_layer_init_def computes_list_def by auto
qed

text \<open>The 160-bit accumulator and its reduction.\<close>

definition u160_val :: "u128 \<times> u32 \<Rightarrow> nat" where
  "u160_val x = unat (fst x) + 2 ^ 128 * unat (snd x)"

lemma add_u160_val:
  assumes "unat (snd x) < 4294967295"
  shows "\<exists>z. add_u160_u128 x y = Inr z \<and> u160_val z = u160_val x + unat y \<and> unat (snd z) \<le> unat (snd x) + 1"
proof -
  let ?lo = "fst x" and ?hi = "snd x"
  have ly: "unat y < 2 ^ 128" "unat ?lo < 2 ^ 128" using unsigned_less [of y] unsigned_less [of ?lo] by simp_all
  have s: "unat (?lo + y) = (if unat ?lo + unat y < 2 ^ 128 then unat ?lo + unat y else unat ?lo + unat y - 2 ^ 128)"
    by (simp add: unat_plus_if')
  have c: "?lo + y < ?lo \<longleftrightarrow> \<not> unat ?lo + unat y < 2 ^ 128"
    unfolding word_less_nat_alt s using ly by (auto split: if_splits)
  have h: "unat (?hi + of_bool b) = unat ?hi + of_bool b" for b
  proof (cases b)
    case True
    have "unat ?hi + unat (1 :: u32) < 2 ^ LENGTH(32)" using assms by simp
    then show ?thesis using True unat_add_lem [of ?hi "1 :: u32"] by simp
  qed simp
  have "add_u160_u128 x y = Inr (?lo + y, ?hi + of_bool (?lo + y < ?lo))"
    using assms by (simp add: add_u160_u128_def case_prod_unfold Let_def of_bool_def)
  moreover have "u160_val (?lo + y, ?hi + of_bool (?lo + y < ?lo)) = u160_val x + unat y"
    unfolding u160_val_def fst_conv snd_conv h unfolding c s by (simp add: of_bool_def)
  ultimately show ?thesis using h by (auto simp: of_bool_def)
qed

lemma reduce_u160_computes: "computes (reduce_u160 x) (of_nat (u160_val x))"
proof -
  let ?lo = "fst x" and ?hi = "snd x"
  have less: "unat ?lo < 2 ^ 128" using unsigned_less [of ?lo] by simp
  have lo: "unat (ucast ?lo :: u64) = unat ?lo mod 2 ^ 64" by (simp add: unsigned_ucast_eq take_bit_eq_mod)
  have hi: "unat (ucast (drop_bit 64 ?lo) :: u64) = unat ?lo div 2 ^ 64"
    using less by (simp add: unat_ucast_drop less_mult_imp_div_less)
  obtain r where r: "reduce96 (ucast (drop_bit 64 ?lo), ?hi) = Inr r"
      "gf_of r = of_nat (unat ?lo div 2 ^ 64 + 2 ^ 64 * unat ?hi)"
    using reduce96_computes [of "ucast (drop_bit 64 ?lo)" ?hi] unfolding hi computes_def by blast
  let ?w = "push_bit 64 (ucast r) + ucast (ucast ?lo :: u64) :: u128"
  have "2 ^ 64 * unat r < 2 ^ 128" using unat_u64_less [of r] by simp
  then have p: "unat (push_bit 64 (ucast r) :: u128) = 2 ^ 64 * unat r"
    using unat_mult_lem [of "2 ^ 64 :: u128" "ucast r"] by (simp add: push_bit_eq_mult mult.commute)
  have "18446744073709551616 * unat r + unat (ucast ?lo :: u64) < 340282366920938463463374607431768211456"
    using unat_u64_less [of r] unat_u64_less [of "ucast ?lo :: u64"] by linarith
  then have w: "unat ?w = 2 ^ 64 * unat r + unat ?lo mod 2 ^ 64"
    using unat_add_lem [of "push_bit 64 (ucast r) :: u128" "ucast (ucast ?lo :: u64)"] p lo by simp
  have "(of_nat (unat ?w) :: gf) = 2 ^ 64 * gf_of r + of_nat (unat ?lo mod 2 ^ 64)"
    unfolding w by (simp only: of_nat_add of_nat_mult of_nat_power of_nat_numeral gf_of_def)
  also have "\<dots> = of_nat (2 ^ 64 * (unat ?lo div 2 ^ 64 + 2 ^ 64 * unat ?hi) + unat ?lo mod 2 ^ 64)"
    unfolding r(2) by (simp only: of_nat_add of_nat_mult of_nat_power of_nat_numeral)
  also have "2 ^ 64 * (unat ?lo div 2 ^ 64 + 2 ^ 64 * unat ?hi) + unat ?lo mod 2 ^ 64 = u160_val x"
    using mod_mult_div_eq [of "unat ?lo" "2 ^ 64"] by (simp add: u160_val_def)
  finally show ?thesis
    using reduce128_computes [of ?w] r(1) by (simp only: reduce_u160_def case_prod_unfold Let_def bind_res_simps)
qed

lemma u128_product: "k < 2 ^ 64 \<Longrightarrow> unat (ucast x * of_nat k :: u128) = unat x * k" for x :: u64
proof -
  assume k: "k < 2 ^ 64"
  then have u: "unat (of_nat k :: u128) = k" by (simp add: unat_of_nat)
  have k': "k < 18446744073709551616" using k by simp
  have "unat x * k \<le> 18446744073709551615 * 18446744073709551615"
    using unat_u64_less [of x] k' by (intro mult_le_mono) linarith+
  then have "unat x * k < 340282366920938463463374607431768211456" by linarith
  then show ?thesis using unat_mult_lem [of "ucast x :: u128" "of_nat k"] u by simp
qed

lemma accumulate_u160:
  "(\<And>i. i \<in> set xs \<Longrightarrow> unat (f i) = g i) \<Longrightarrow> length xs < 4294967295 \<Longrightarrow>
    \<exists>b. foldl (\<lambda>d i. bind_res d (\<lambda>d. add_u160_u128 d (f i))) (Inr (0, 0)) xs = Inr b
      \<and> u160_val b = (\<Sum>i\<leftarrow>xs. g i) \<and> unat (snd b) \<le> length xs"
proof (induction xs rule: rev_induct)
  case (snoc i xs)
  then obtain b where b: "foldl (\<lambda>d i. bind_res d (\<lambda>d. add_u160_u128 d (f i))) (Inr (0, 0)) xs = Inr b"
      "u160_val b = (\<Sum>i\<leftarrow>xs. g i)" "unat (snd b) \<le> length xs" by auto
  have "unat (snd b) < 4294967295" using b(3) snoc.prems(2) by simp
  from add_u160_val [OF this] obtain z where "add_u160_u128 b (f i) = Inr z" "u160_val z = u160_val b + unat (f i)"
      "unat (snd z) \<le> unat (snd b) + 1" by blast
  then show ?case using b snoc.prems(1) [of i] by simp
qed (simp add: u160_val_def)

lemma gl_partial_fast_computes:
  assumes st: "length state = 12" and r: "r < 22"
  shows "computes_list (gl_mds_partial_layer_fast state r) (mds_partial_layer_fast_field (map gf_of state) r)"
proof -
  let ?w = "\<lambda>i. FAST_PARTIAL_ROUND_W_HATS ! r ! (i - 1)" and ?v = "\<lambda>i. FAST_PARTIAL_ROUND_VS ! r ! (i - 1)"
  have tab: "?w i < goldilocks_order" "?v i < goldilocks_order" if "i \<in> set [1..<SPONGE_WIDTH]" for i
  proof -
    have i: "i - 1 < 11" using that by (auto simp: SPONGE_WIDTH_def)
    show "?w i < goldilocks_order"
      by (rule matrix_entry [OF matrix_bounds(2) matrix_lengths(3)]) (use r i in \<open>simp_all add: matrix_lengths(4)\<close>)
    show "?v i < goldilocks_order"
      by (rule matrix_entry [OF matrix_bounds(1) matrix_lengths(1)]) (use r i in \<open>simp_all add: matrix_lengths(2)\<close>)
  qed
  have "unat (ucast (state ! i) * of_nat (?w i) :: u128) = unat (state ! i) * ?w i" if "i \<in> set [1..<SPONGE_WIDTH]" for i
    using tab(1) [OF that] by (intro u128_product) simp
  then obtain b where b: "foldl (\<lambda>d i. bind_res d (\<lambda>d. add_u160_u128 d (ucast (state ! i) * of_nat (?w i)))) (Inr (0, 0)) [1..<SPONGE_WIDTH] = Inr b"
      "u160_val b = (\<Sum>i\<leftarrow>[1..<SPONGE_WIDTH]. unat (state ! i) * ?w i)" "unat (snd b) \<le> length [1..<SPONGE_WIDTH]"
    using accumulate_u160 [of "[1..<SPONGE_WIDTH]" "\<lambda>i. ucast (state ! i) * of_nat (?w i)" "\<lambda>i. unat (state ! i) * ?w i"]
    by (auto simp: SPONGE_WIDTH_def simp del: upt_Suc)
  let ?m = "MDS_MATRIX_CIRC ! 0 + MDS_MATRIX_DIAG ! 0"
  have "unat (snd b) < 4294967295" using b(3) by (simp add: SPONGE_WIDTH_def)
  from add_u160_val [OF this] obtain z where z: "add_u160_u128 b (ucast (state ! 0) * of_nat ?m) = Inr z"
      "u160_val z = u160_val b + unat (ucast (state ! 0) * of_nat ?m :: u128)" by blast
  have "unat (ucast (state ! 0) * of_nat ?m :: u128) = unat (state ! 0) * ?m"
    by (rule u128_product) (simp add: MDS_MATRIX_CIRC_def MDS_MATRIX_DIAG_def)
  then have val: "u160_val z = unat (state ! 0) * ?m + (\<Sum>i\<leftarrow>[1..<SPONGE_WIDTH]. unat (state ! i) * ?w i)"
    using z(2) b(2) by simp
  obtain d where d: "reduce_u160 z = Inr d" "gf_of d = of_nat (u160_val z)"
    using reduce_u160_computes [of z] by (auto simp: computes_def)
  have "(of_nat (u160_val z) :: gf) = gf_of (state ! 0) * of_nat ?m + (\<Sum>i\<leftarrow>[1..<SPONGE_WIDTH]. gf_of (state ! i) * of_nat (?w i))"
    unfolding val by (simp only: of_nat_add of_nat_mult sum_list_of_nat [symmetric] map_map comp_def gf_of_def)
  also have "(\<Sum>i\<leftarrow>[1..<SPONGE_WIDTH]. gf_of (state ! i) * of_nat (?w i)) = (\<Sum>i\<leftarrow>[1..<SPONGE_WIDTH]. map gf_of state ! i * of_nat (?w i))"
    using st by (intro arg_cong [where f = sum_list] map_cong) (auto simp: SPONGE_WIDTH_def)
  finally have gd: "gf_of d = foldl (\<lambda>d i. d + map gf_of state ! i * of_nat (?w i)) (map gf_of state ! 0 * of_nat ?m) [1..<SPONGE_WIDTH]"
    using d(2) st by (simp add: foldl_plus_map del: upt_Suc)
  have "computes_list (map_res (\<lambda>i. multiply_accumulate (state ! i) (state ! 0) (of_nat (?v i))) [1..<SPONGE_WIDTH])
      (map (\<lambda>i. map gf_of state ! 0 * of_nat (?v i) + map gf_of state ! i) [1..<SPONGE_WIDTH])"
  proof (rule map_res_computes)
    fix i assume i: "i \<in> set [1..<SPONGE_WIDTH]"
    then have "gf_of (of_nat (?v i)) = of_nat (?v i)" using tab(2) [of i] gf_of_of_nat [of "?v i"] by simp
    then show "computes (multiply_accumulate (state ! i) (state ! 0) (of_nat (?v i)))
        (map gf_of state ! 0 * of_nat (?v i) + map gf_of state ! i)"
      using multiply_accumulate_computes [of "state ! i" "state ! 0" "of_nat (?v i)"] i st
      by (auto simp: SPONGE_WIDTH_def add.commute)
  qed
  then obtain rest where rest: "map_res (\<lambda>i. multiply_accumulate (state ! i) (state ! 0) (of_nat (?v i))) [1..<SPONGE_WIDTH] = Inr rest"
      "map gf_of rest = map (\<lambda>i. map gf_of state ! 0 * of_nat (?v i) + map gf_of state ! i) [1..<SPONGE_WIDTH]"
    by (auto simp: computes_list_def)
  have "gl_mds_partial_layer_fast state r = Inr (d # rest)"
    by (simp only: gl_mds_partial_layer_fast_def b(1) z(1) d(1) rest(1) Let_def bind_res_simps)
  then show ?thesis
    using gd rest(2) by (simp add: computes_list_def mds_partial_layer_fast_field_def Let_def)
qed

subsection \<open>Rounds\<close>

lemma length_of_computes: "computes_list r vs \<Longrightarrow> r = Inr zs \<Longrightarrow> length zs = length vs"
  by (auto simp: computes_list_def)

lemma field_layer_lengths:
  "length (constant_layer_field v c) = 12" "length (mds_layer_field v) = 12" "length (mds_partial_layer_init v) = 12"
  "length (partial_first_constant_layer v) = 12" "length (mds_partial_layer_fast_field v r) = 12"
  "length (sbox_layer_field v) = length v"
  by (simp_all add: constant_layer_field_def mds_layer_field_def mds_partial_layer_init_def partial_first_constant_layer_def
      mds_partial_layer_fast_field_def sbox_layer_field_def SPONGE_WIDTH_def Let_def del: upt_Suc)

lemma map_gf_length: "map gf_of zs = v \<Longrightarrow> length zs = length v"
  by auto

lemma gl_full_round_computes:
  assumes "length state = 12" "c < 30"
  shows "computes_list (gl_full_round state c) (full_round (map gf_of state) c)"
  unfolding gl_full_round_def full_round_def
proof (rule computes_list_bind [OF gl_constant_layer_computes [OF assms]])
  fix zs assume zs: "map gf_of zs = constant_layer_field (map gf_of state) c"
  show "computes_list (bind_res (gl_sbox_layer zs) gl_mds_layer)
      (mds_layer_field (sbox_layer_field (constant_layer_field (map gf_of state) c)))"
  proof (rule computes_list_bind [OF gl_sbox_layer_computes])
    fix ys assume ys: "map gf_of ys = sbox_layer_field (map gf_of zs)"
    have "length ys = 12" using map_gf_length [OF ys] zs by (simp add: field_layer_lengths)
    then show "computes_list (gl_mds_layer ys) (mds_layer_field (sbox_layer_field (constant_layer_field (map gf_of state) c)))"
      using gl_mds_layer_computes [of ys] ys zs by simp
  qed
qed

definition stands_for :: "u64 list \<times> nat \<Rightarrow> gf list \<times> nat \<Rightarrow> bool" where
  "stands_for x y \<longleftrightarrow> map gf_of (fst x) = fst y \<and> snd x = snd y \<and> length (fst x) = 12"

lemma length_full_round: "length (full_round v c) = 12"
  by (simp add: full_round_def field_layer_lengths)

lemma gl_full_rounds_computes:
  assumes "length state = 12" "c < 27"
  shows "\<exists>z. gl_full_rounds state c = Inr z \<and> stands_for z (full_rounds (map gf_of state) c)"
proof -
  have "\<exists>z. foldl (\<lambda>acc _. bind_res acc (\<lambda>(state, c). bind_res (gl_full_round state c) (\<lambda>state. Inr (state, c + 1))))
          (Inr (state, c)) xs = Inr z
      \<and> stands_for z (foldl (\<lambda>(state, c) _. (full_round state c, c + 1)) (map gf_of state, c) xs)"
    if "length state = 12" "c + length xs \<le> 30" for xs :: "nat list" and state c
    using that
  proof (induction xs arbitrary: state c)
    case (Cons x xs)
    have "c < 30" using Cons.prems(2) by simp
    then obtain zs where zs: "gl_full_round state c = Inr zs" "map gf_of zs = full_round (map gf_of state) c"
      using gl_full_round_computes [OF Cons.prems(1)] by (auto simp: computes_list_def)
    have "length zs = 12" using map_gf_length [OF zs(2)] by (simp add: length_full_round)
    then show ?case using Cons.IH [of zs "c + 1"] Cons.prems(2) zs by simp
  qed (simp add: stands_for_def)
  from this [of state c "[0..<HALF_N_FULL_ROUNDS]"] show ?thesis
    using assms by (simp add: gl_full_rounds_def full_rounds_def HALF_N_FULL_ROUNDS_def del: upt_Suc)
qed

lemma gl_partial_round_computes:
  assumes st: "length state = 12" and i: "i < 22"
  shows "computes_list (gl_partial_round state i) (partial_round (map gf_of state) i)"
proof -
  obtain x where x: "gl_sbox_monomial (state ! 0) = Inr x" "gf_of x = sbox_monomial (gf_of (state ! 0))"
    using gl_sbox_monomial_computes [of "state ! 0"] by (auto simp: computes_def)
  let ?k = "FAST_PARTIAL_ROUND_CONSTANTS ! i"
  have k: "?k < goldilocks_order" using i table_bounds(3) table_lengths(3) by (simp add: list_all_length)
  then have "gf_of (of_nat ?k) = of_nat ?k" "unat (of_nat ?k :: u64) < goldilocks_order" using gf_of_of_nat [of ?k] by simp_all
  then obtain y where y: "add_canonical_u64 x (of_nat ?k) = Inr y" "gf_of y = sbox_monomial (gf_of (state ! 0)) + of_nat ?k"
    using add_canonical_computes [of "of_nat ?k" x] x(2) by (auto simp: computes_def)
  have "map gf_of (state[0 := y]) = (map gf_of state)[0 := sbox_monomial (map gf_of state ! 0) + of_nat ?k]"
    using st y(2) by (simp add: map_update)
  then show ?thesis
    using gl_partial_fast_computes [of "state[0 := y]", OF _ i] st x(1) y(1)
    by (simp add: gl_partial_round_def partial_round_def Let_def)
qed

lemma gl_partial_rounds_computes:
  assumes "length state = 12"
  shows "\<exists>z. gl_partial_rounds state c = Inr z \<and> stands_for z (partial_rounds (map gf_of state) c)"
proof -
  obtain s1 where s1: "gl_partial_first_constant_layer state = Inr s1" "map gf_of s1 = partial_first_constant_layer (map gf_of state)"
    using gl_partial_first_computes [OF assms] by (auto simp: computes_list_def)
  then have l1: "length s1 = 12" using map_gf_length [OF s1(2)] by (simp add: field_layer_lengths)
  obtain s2 where s2: "gl_mds_partial_layer_init s1 = Inr s2" "map gf_of s2 = mds_partial_layer_init (map gf_of s1)"
    using gl_partial_init_computes [OF l1] by (auto simp: computes_list_def)
  then have l2: "length s2 = 12" using map_gf_length [OF s2(2)] by (simp add: field_layer_lengths)
  have "\<exists>b. foldl (\<lambda>acc i. bind_res acc (\<lambda>a. gl_partial_round a i)) (Inr s2) [0..<N_PARTIAL_ROUNDS] = Inr b
      \<and> (map gf_of b = foldl partial_round (map gf_of s2) [0..<N_PARTIAL_ROUNDS] \<and> length b = 12)"
  proof (rule foldl_res_rel [where R = "\<lambda>a v. map gf_of a = v \<and> length a = 12"])
    fix a v i assume "i \<in> set [0..<N_PARTIAL_ROUNDS]" and a: "map gf_of a = v \<and> length a = 12"
    then have "i < 22" by (simp add: N_PARTIAL_ROUNDS_def)
    then obtain b where b: "gl_partial_round a i = Inr b" "map gf_of b = partial_round v i"
      using gl_partial_round_computes [of a i] a by (auto simp: computes_list_def)
    have "length b = 12"
      using map_gf_length [OF b(2)] by (simp add: partial_round_def Let_def field_layer_lengths)
    then show "\<exists>b. gl_partial_round a i = Inr b \<and> map gf_of b = partial_round v i \<and> length b = 12" using b by blast
  qed (simp add: l2)
  then obtain b where "foldl (\<lambda>acc i. bind_res acc (\<lambda>a. gl_partial_round a i)) (Inr s2) [0..<N_PARTIAL_ROUNDS] = Inr b"
      "map gf_of b = foldl partial_round (map gf_of s2) [0..<N_PARTIAL_ROUNDS]" "length b = 12" by blast
  then show ?thesis using s1 s2 by (simp add: gl_partial_rounds_def partial_rounds_def stands_for_def)
qed

lemma gl_poseidon_computes:
  assumes "length state = 12"
  shows "computes_list (gl_poseidon state) (poseidon (map gf_of state))"
proof -
  obtain s1 where s1: "gl_full_rounds state 0 = Inr s1" "stands_for s1 (full_rounds (map gf_of state) 0)"
    using gl_full_rounds_computes [OF assms, of 0] by auto
  have count: "snd (full_rounds v c) = c + 4" for v c
    by (simp add: full_rounds_def HALF_N_FULL_ROUNDS_def upt_rec)
  obtain s2 where s2: "gl_partial_rounds (fst s1) 4 = Inr s2" "stands_for s2 (partial_rounds (map gf_of (fst s1)) 4)"
    using gl_partial_rounds_computes [of "fst s1" 4] s1(2) by (auto simp: stands_for_def)
  have c2: "snd s2 = 26" "length (fst s2) = 12" using s2(2) by (simp_all add: stands_for_def partial_rounds_def N_PARTIAL_ROUNDS_def)
  then obtain s3 where s3: "gl_full_rounds (fst s2) 26 = Inr s3" "stands_for s3 (full_rounds (map gf_of (fst s2)) 26)"
    using gl_full_rounds_computes [of "fst s2" 26] by auto
  have "gl_poseidon state = Inr (fst s3)"
    using s1 s2(1) s3(1) c2(1) count [of "map gf_of state" 0]
    by (simp add: gl_poseidon_def case_prod_unfold stands_for_def)
  moreover have "map gf_of (fst s3) = poseidon (map gf_of state)"
    using s1(2) s2(2) s3(2) c2(1) count [of "map gf_of state" 0]
    by (simp add: poseidon_def stands_for_def case_prod_unfold Let_def)
  ultimately show ?thesis by (simp add: computes_list_def)
qed

end
