(* ===== verification/Poseidon_Fast_Tables.thy ===== *)
theory Poseidon_Fast_Tables
  imports Poseidon_Constants
begin

text \<open>
  Tables for the equivalence of the fast and the naive partial rounds: the transposed lower right
  block of the MDS matrix and some of its powers modulo the field order, and the constants that
  the fast rounds defer from one round to the next.
\<close>

definition MDS_BLOCK :: "int list list" where
  "MDS_BLOCK =
    [[17, 20, 34, 18, 39, 13,
      13, 28, 2, 16, 41],
     [15, 17, 20, 34, 18, 39,
      13, 13, 28, 2, 16],
     [41, 15, 17, 20, 34, 18,
      39, 13, 13, 28, 2],
     [16, 41, 15, 17, 20, 34,
      18, 39, 13, 13, 28],
     [2, 16, 41, 15, 17, 20,
      34, 18, 39, 13, 13],
     [28, 2, 16, 41, 15, 17,
      20, 34, 18, 39, 13],
     [13, 28, 2, 16, 41, 15,
      17, 20, 34, 18, 39],
     [13, 13, 28, 2, 16, 41,
      15, 17, 20, 34, 18],
     [39, 13, 13, 28, 2, 16,
      41, 15, 17, 20, 34],
     [18, 39, 13, 13, 28, 2,
      16, 41, 15, 17, 20],
     [34, 18, 39, 13, 13, 28,
      2, 16, 41, 15, 17]]"

definition MDS_BLOCK_2 :: "int list list" where
  "MDS_BLOCK_2 =
    [[5006, 4694, 6276, 4151, 5363, 5781,
      4778, 5102, 5982, 4625, 4361],
     [5012, 3912, 4466, 4947, 4203, 5025,
      4828, 5116, 4476, 4541, 4625],
     [4266, 5288, 5018, 4580, 6338, 4528,
      5110, 5944, 4942, 4476, 5982],
     [5200, 4518, 5796, 5228, 5178, 6520,
      4680, 5554, 5944, 5116, 5102],
     [5662, 4288, 4082, 4740, 4942, 4840,
      5762, 4680, 5110, 4828, 4778],
     [4872, 5780, 5006, 4079, 5663, 5137,
      4840, 6520, 4528, 5025, 5781],
     [4938, 4690, 5988, 4733, 4417, 5663,
      4942, 5178, 6338, 4203, 5363],
     [5196, 3872, 4430, 4701, 4733, 4079,
      4740, 5228, 4580, 4947, 4151],
     [5198, 5364, 4874, 4430, 5988, 5006,
      4082, 5796, 5018, 4466, 6276],
     [4056, 4402, 5364, 3872, 4690, 5780,
      4288, 4518, 5288, 3912, 4694],
     [6146, 4056, 5198, 5196, 4938, 4872,
      5662, 5200, 4266, 5012, 5006]]"

definition MDS_BLOCK_4 :: "int list list" where
  "MDS_BLOCK_4 =
    [[282235216, 262512200, 286610446, 257114743, 291387251, 289457257,
      273698848, 302363636, 286955896, 260725657, 289193489],
     [258285752, 237074008, 264109942, 235238039, 262947499, 266660569,
      249385784, 274294564, 263433136, 238321913, 260725657],
     [287754760, 258744368, 286776120, 261741392, 288415880, 290692048,
      278089464, 300774864, 287698696, 263433136, 286955896],
     [296642752, 274793680, 301535656, 269863068, 304933852, 304990452,
      286678400, 317240928, 300774864, 274294564, 302363636],
     [271739096, 248706720, 277918552, 246789448, 275072448, 280934520,
      261972648, 286678400, 278089464, 249385784, 273698848],
     [290242168, 262157000, 290923062, 263978423, 291813275, 294150169,
      280934520, 304990452, 290692048, 266660569, 289457257],
     [285243280, 263724888, 289640266, 259853957, 293035161, 291813275,
      275072448, 304933852, 288415880, 262947499, 291387251],
     [255387080, 233727656, 261097450, 232686297, 259853957, 263978423,
      246789448, 269863068, 261741392, 235238039, 257114743],
     [288070216, 259401088, 287370636, 261097450, 289640266, 290923062,
      277918552, 301535656, 286776120, 264109942, 286610446],
     [256952416, 237865872, 259401088, 233727656, 263724888, 262157000,
      248706720, 274793680, 258744368, 237074008, 262512200],
     [280233128, 256952416, 288070216, 255387080, 285243280, 290242168,
      271739096, 296642752, 287754760, 258285752, 282235216]]"

definition MDS_BLOCK_5 :: "int list list" where
  "MDS_BLOCK_5 =
    [[66493856232, 60887888488, 67565519238, 60514987367, 67608101659, 68268996425,
      64287425032, 70390517652, 67556674592, 61201538601, 67099354793],
     [60767878680, 55503741512, 61459187510, 55270709015, 61697834843, 62126609305,
      58737012952, 64266219508, 61408962064, 55923951993, 61201538601],
     [66678671056, 61258586208, 67569856848, 60668234480, 68024518560, 68271024016,
      64443715632, 70814324704, 67509861328, 61408962064, 67556674592],
     [69794040064, 63881924704, 70862101656, 63519145292, 70965753532, 71594032948,
      67471015872, 73903604816, 70814324704, 64266219508, 70390517652],
     [63882426352, 58242811232, 64495017248, 58097050280, 64774613720, 65198056152,
      61710932112, 67471015872, 64443715632, 58737012952, 64287425032],
     [67433254936, 61925818248, 68323507830, 61354989815, 68791288251, 69053794489,
      65198056152, 71594032948, 68271024016, 62126609305, 68268996425],
     [67023288056, 61374492088, 68098036626, 60964242773, 68159488945, 68791288251,
      64774613720, 70965753532, 68024518560, 61697834843, 67608101659],
     [60087158120, 54846643256, 60702284330, 54659950937, 60964242773, 61354989815,
      58097050280, 63519145292, 60668234480, 55270709015, 60514987367],
     [66688999040, 61291916496, 67652353236, 60702284330, 68098036626, 68323507830,
      64495017248, 70862101656, 67569856848, 61459187510, 67565519238],
     [60268394528, 55271419264, 61291916496, 54846643256, 61374492088, 61925818248,
      58242811232, 63881924704, 61258586208, 55503741512, 60887888488],
     [66069129360, 60268394528, 66688999040, 60087158120, 67023288056, 67433254936,
      63882426352, 69794040064, 66678671056, 60767878680, 66493856232]]"

definition MDS_BLOCK_10 :: "int list list" where
  "MDS_BLOCK_10 =
    [[9600728207161871144, 9426622158034522351, 4509565598650396036, 524410109660786684, 5217379766584953327, 7504354468046209020,
      12656151614664114493, 17531412005462185582, 8331424141617811712, 6267043999359239523, 6739420069344797361],
     [11082495888823767432, 9335809497942145084, 6628655230828598087, 5607885501951082744, 9316096784829701699, 2428262429921284017,
      4269969079428306837, 14505657170544797595, 13374636631293568227, 3884661414878737153, 6267043999359239523],
     [10100091943452333448, 15555691052957368160, 6767047713753628230, 6091537855652895198, 7976196888215665932, 11374107100829404635,
      8208089744202104285, 8079843368401446577, 10505906484587923688, 13374636631293568227, 8331424141617811712],
     [17201173294128120691, 5974844593603844884, 5884177512970917927, 2386567835897906319, 15672501131816111553, 15129795214494809863,
      16909704747187863244, 14291220448452157957, 8079843368401446577, 14505657170544797595, 17531412005462185582],
     [15856673314298055356, 17336911031758546954, 2967188487866704747, 1428044038646695039, 14049862109370821594, 3212768036401094041,
      11329833101177694477, 16909704747187863244, 8208089744202104285, 4269969079428306837, 12656151614664114493],
     [4301668742895959939, 1954506554803412045, 8009956462530068479, 7909795718272031851, 11292087528080178202, 18262775442830078023,
      3212768036401094041, 15129795214494809863, 11374107100829404635, 2428262429921284017, 7504354468046209020],
     [4687139233975177796, 10625915146964638701, 4408367831807651804, 18117629073654842393, 6542205904004800401, 11292087528080178202,
      14049862109370821594, 15672501131816111553, 7976196888215665932, 9316096784829701699, 5217379766584953327],
     [10047258512865652211, 13556991595077924805, 17438096387659357143, 12692519385313813267, 18117629073654842393, 7909795718272031851,
      1428044038646695039, 2386567835897906319, 6091537855652895198, 5607885501951082744, 524410109660786684],
     [5953245633030853782, 8657132526479866126, 3055169860208750824, 17438096387659357143, 4408367831807651804, 8009956462530068479,
      2967188487866704747, 5884177512970917927, 6767047713753628230, 6628655230828598087, 4509565598650396036],
     [16322602305737220541, 16031682308813496832, 8657132526479866126, 13556991595077924805, 10625915146964638701, 1954506554803412045,
      17336911031758546954, 5974844593603844884, 15555691052957368160, 9335809497942145084, 9426622158034522351],
     [16735396860163859560, 16322602305737220541, 5953245633030853782, 10047258512865652211, 4687139233975177796, 4301668742895959939,
      15856673314298055356, 17201173294128120691, 10100091943452333448, 11082495888823767432, 9600728207161871144]]"

definition MDS_BLOCK_11 :: "int list list" where
  "MDS_BLOCK_11 =
    [[6874660097098112962, 9791626883321781618, 2262879714601032868, 13422199292930179152, 14537538551940754636, 506943524844867196,
      14957977642888578851, 15737229278501044858, 6236625190471851394, 1062943138297464724, 18287149686449894132],
     [17480599195283091496, 5070693478592545671, 17033976493304114978, 1482644181421145322, 4301405566957442215, 17295456453386624282,
      3418467626592781491, 8077619974642843580, 1331162761420000762, 7690361825464131330, 1062943138297464724],
     [9360470459535657428, 8163619153332410930, 15907975569278647232, 8904110852871958508, 14246419026390560602, 14898363389769696897,
      6519365854208330675, 9766252433505465216, 12810755804556562437, 1331162761420000762, 6236625190471851394],
     [1129368611864808136, 12658303188963949563, 179254437667958847, 14868428941150240717, 11143406573898272194, 9878554759235906471,
      693330196880674620, 3918368398138339211, 9766252433505465216, 8077619974642843580, 15737229278501044858],
     [12774248631862647918, 10446479506449335131, 6994567790713307569, 10574983900623980402, 2912856446840440414, 2562592590219969835,
      17507019180753287366, 693330196880674620, 6519365854208330675, 3418467626592781491, 14957977642888578851],
     [6217739934484664492, 6352721907494227506, 13021410116561015613, 4399025201825334353, 1277169671785723121, 7223628998104483465,
      2562592590219969835, 9878554759235906471, 14898363389769696897, 17295456453386624282, 506943524844867196],
     [15465822251124097764, 7477704039719736826, 15110361504458069317, 5301517585556671312, 14044456378527938148, 1277169671785723121,
      2912856446840440414, 11143406573898272194, 14246419026390560602, 4301405566957442215, 14537538551940754636],
     [487011108049220409, 15860053143382676386, 16023515368829616172, 14258592746673950771, 5301517585556671312, 4399025201825334353,
      10574983900623980402, 14868428941150240717, 8904110852871958508, 1482644181421145322, 13422199292930179152],
     [7419816408601137476, 3715949641489800293, 6040250269537876542, 16023515368829616172, 15110361504458069317, 13021410116561015613,
      6994567790713307569, 179254437667958847, 15907975569278647232, 17033976493304114978, 2262879714601032868],
     [18415603717049511667, 9149319337134890214, 3715949641489800293, 15860053143382676386, 7477704039719736826, 6352721907494227506,
      10446479506449335131, 12658303188963949563, 8163619153332410930, 5070693478592545671, 9791626883321781618],
     [15489539360613358982, 18415603717049511667, 7419816408601137476, 487011108049220409, 15465822251124097764, 6217739934484664492,
      12774248631862647918, 1129368611864808136, 9360470459535657428, 17480599195283091496, 6874660097098112962]]"

text \<open>The first row and the first column of the MDS matrix without the corner.\<close>

definition MDS_ROW :: "int list" where
  "MDS_ROW = [15, 41, 16, 2, 28, 13, 13, 39, 18, 34, 20]"

definition MDS_COL :: "int list" where
  "MDS_COL = [20, 34, 18, 39, 13, 13, 28, 2, 16, 41, 15]"

definition DEFERRED_CONSTANTS :: "int list list" where
  "DEFERRED_CONSTANTS =
    [[13496267473485260342, 9455658358633508969, 12759584274291754831, 7661447606217382832, 17220171613078274914, 9402363062581293939,
      15728619890332780393, 14573712492062658907, 4707449322504859042, 7181019422863517878, 14442280851148601496],
     [13891805203427841415, 5121483860224731630, 4089904798766303189, 7373927035710526175, 1426618166786026606, 11625428925094064634,
      13317124423840588318, 5124676894951671208, 10891545620446734974, 1343844911788567451, 323936391685721991],
     [6529499388232185413, 16166369477348592212, 13069154170692802896, 12323432348204926295, 8729269811634759994, 1302662035977119632,
      2400989484918271893, 16109554243918379533, 6070318223840854391, 9352081905341415717, 1184665408309370023],
     [16102842608321180962, 8583174638458892597, 9724617366966127643, 14726561439407272800, 6213967695713185027, 8201693092414418533,
      644809457914436484, 7626442606957833157, 15067188953194586724, 8840459310621869059, 1463959390917038169],
     [9538857496609747205, 12980744243927855067, 16608998822650299070, 9786552150492120194, 14175790553521100199, 3292362438734706385,
      2722160018057696033, 7976430205550324418, 11270060539127828506, 13387544928766800559, 8608203399997608454],
     [16074518842356003077, 7956471172100136847, 1529616386367521655, 13382921904296222515, 11917167250914045463, 2250582470660426416,
      121217500740466278, 12476834481440673152, 10952360692547476084, 13242522194287820151, 7245219773997391473],
     [15800915623295893716, 384423096773250976, 10521898580816430407, 15182316973166302191, 4086722028431668719, 1445613679066606546,
      16407734869744915738, 1896250886097747399, 787445656071682934, 8528625429500703028, 16605330356145831126],
     [9239669402480911331, 11551627132197098265, 14971442609654362040, 16226854323492247730, 2879562491590435354, 6924687902563243790,
      9832020464538402673, 16764684773317159366, 2156358205740987553, 13641196580955204020, 15217722827903303853],
     [6420782609703133605, 15973638303131996607, 15307202452190083280, 1803702512946829397, 8674572401054583378, 908310792419541460,
      14280652887381780687, 11905312366662973894, 2421015249208674262, 3651936579304397899, 6900011464777156537],
     [11811639196800061127, 9168551510834186367, 6312335938394853641, 16725680976115775706, 14235581615859173735, 13210672776808184151,
      16523187472695452619, 7054242318702556710, 14665646748158836449, 9275630279345512592, 2320354901014676406],
     [2465400228852043128, 5812665827329472885, 14430882515754036834, 48667267475935358, 5537627102940831361, 4649418471554384380,
      4325127252232378352, 14639777509011576115, 11252831753104895964, 2756075317429828314, 17450963507780276179],
     [11847349964933557668, 6172228362047234686, 2684565130444934378, 14878273786351466191, 12140493489470564201, 11942737255311127703,
      7789468318508690000, 2402087736015945837, 4264706153031731406, 18120526733432577061, 17664197729466630791],
     [17812210253986066543, 3153621067078155111, 3218888733605005373, 13840477239724503235, 5476916869238086625, 14663658220381268324,
      16439172814451370536, 13393246456853695215, 9097061162570197683, 13843156258119962912, 14753304918744989543],
     [15086779198644383747, 14440997337432572955, 17379805145547127194, 7560119350949233379, 13133016663608845592, 18372546707490981558,
      10700286904834862705, 6079954876386396881, 14596673871602039219, 12228528114541015622, 17198519935605609790],
     [2322613479579855917, 8475536887720702523, 4696837660056174365, 9411965362453147212, 2350703826517735680, 1176043311306116795,
      1804470636798583050, 16154086637975023070, 10272337470545739980, 9406125882616847998, 1528047672006779669],
     [1753111866191681907, 7471158920933147138, 8135056264138067831, 1054054777859752014, 51016681922752737, 11360240970441075261,
      1115887072028778721, 5446090369541330516, 16888759172943009077, 10482521030237164962, 713780202342538516],
     [15616955939031604856, 4347806166555780324, 641371671605699448, 3729345730615818686, 11480524312203155464, 8262919112015827457,
      6113454367448284471, 14156884326432217501, 7858067308474409058, 16817867876143561718, 16602754702796270303],
     [12334606424801989112, 9739160666133738990, 18125941286471870200, 135927049651806326, 11251765632670988149, 10578347983259666068,
      510218999815614036, 5374317502012526505, 290843000078241125, 2177750667920086340, 7179252647168807315],
     [259682628802409064, 10143433223804928301, 4607161177566367501, 2452239039173770945, 16678869922650959930, 8034160836082121606,
      1474851627907327792, 77004960454808070, 13452339895347591155, 7593372086815587835, 2265456959438246825],
     [2741642544367662083, 3941652312885852012, 16493598186375507345, 5029737026757777119, 6643946869797690749, 5855094050413977296,
      13211186734286760965, 13463227774445846890, 1249380749241524455, 9729835450807051836, 13449765933799323732],
     [13433801940106154758, 14868825051283915506, 16516828455592257907, 16778523120624371837, 8197132989461751495, 1931580154606420780,
      3567062256130350809, 11686285862203769845, 14303657842575110762, 16326701670104815656, 11319796182518874053],
     [0, 0, 0, 0, 0, 0,
      0, 0, 0, 0, 0],
     [0, 0, 0, 0, 0, 0,
      0, 0, 0, 0, 0]]"

text \<open>The tables of the code, read as integers; the round constants of each partial round.\<close>

definition int_VS :: "int list list" where
  "int_VS = map (map int) FAST_PARTIAL_ROUND_VS"

definition int_W_HATS :: "int list list" where
  "int_W_HATS = map (map int) FAST_PARTIAL_ROUND_W_HATS"

definition int_INITIAL_MATRIX :: "int list list" where
  "int_INITIAL_MATRIX = map (map int) FAST_PARTIAL_ROUND_INITIAL_MATRIX"

definition int_CONSTANTS :: "int list" where
  "int_CONSTANTS = map int FAST_PARTIAL_ROUND_CONSTANTS"

text \<open>Rounds of twelve constants; the 22 partial rounds follow four full ones.\<close>

fun rows12 :: "'a list \<Rightarrow> 'a list list" where
  "rows12 (a # b # c # d # e # f # g # h # i # j # k # l # xs) = [a, b, c, d, e, f, g, h, i, j, k, l] # rows12 xs"
| "rows12 _ = []"

definition partial_constants :: "int list \<Rightarrow> int list list" where
  "partial_constants L = take 22 (drop 4 (rows12 L)) @ [[0, 0, 0, 0, 0, 0, 0, 0, 0, 0, 0, 0]]"

lemma rows12_nth: "12 * i + j < length xs \<Longrightarrow> length xs mod 12 = 0 \<Longrightarrow> j < 12 \<Longrightarrow> rows12 xs ! i ! j = xs ! (12 * i + j) \<and> i < length (rows12 xs)"
proof (induction xs arbitrary: i rule: rows12.induct)
  case (1 a b c d e f g h i' j' k l xs)
  then show ?case
  proof (cases i)
    case 0
    then have "take 12 (a # b # c # d # e # f # g # h # i' # j' # k # l # xs) ! j = (a # b # c # d # e # f # g # h # i' # j' # k # l # xs) ! j"
      using 1(4) by (intro nth_take) simp
    then show ?thesis using 0 by simp
  next
    case (Suc n)
    have "(a # b # c # d # e # f # g # h # i' # j' # k # l # xs) ! (12 * i + j) = drop 12 (a # b # c # d # e # f # g # h # i' # j' # k # l # xs) ! (12 * n + j)"
      using Suc 1(2) by (subst nth_drop) (simp_all add: algebra_simps)
    then show ?thesis using 1(1) [of n] 1(2-4) Suc by simp
  qed
qed (auto split: nat.splits)

end
