(* ===== verification/Poseidon_Fast.thy ===== *)
theory Poseidon_Fast
  imports Poseidon_Fast_Tables Poseidon
begin

text \<open>
  The fast partial rounds are the naive ones.  With \<open>A\<close> the lower right block of the MDS matrix,
  the fast state of round \<open>i\<close> is the naive state with its tail multiplied by \<open>A ^ (22 - i)\<close> and
  shifted by the constants deferred so far; the precomputed tables are what this invariant needs.
\<close>

subsection \<open>Vectors and matrices of size 11\<close>

definition dot :: "gf list \<Rightarrow> gf list \<Rightarrow> gf" where
  "dot w x = (\<Sum>i<11. w ! i * x ! i)"

definition vadd :: "gf list \<Rightarrow> gf list \<Rightarrow> gf list" where
  "vadd x y = map (\<lambda>i. x ! i + y ! i) [0..<11]"

definition smult :: "gf \<Rightarrow> gf list \<Rightarrow> gf list" where
  "smult c x = map (\<lambda>i. c * x ! i) [0..<11]"

definition vecmat :: "gf list list \<Rightarrow> gf list \<Rightarrow> gf list" where
  "vecmat T x = map (\<lambda>c. \<Sum>r<11. x ! r * T ! r ! c) [0..<11]"

lemma vec_lengths [simp]: "length (vadd x y) = 11" "length (smult c x) = 11" "length (vecmat T x) = 11"
  by (simp_all add: vadd_def smult_def vecmat_def)

lemma vec_nth [simp]:
  "i < 11 \<Longrightarrow> vadd x y ! i = x ! i + y ! i" "i < 11 \<Longrightarrow> smult c x ! i = c * x ! i"
  "i < 11 \<Longrightarrow> vecmat T x ! i = (\<Sum>r<11. x ! r * T ! r ! i)"
  by (simp_all add: vadd_def smult_def vecmat_def del: upt_Suc)

lemma vec_eqI: "length x = 11 \<Longrightarrow> length y = 11 \<Longrightarrow> (\<And>i. i < 11 \<Longrightarrow> x ! i = y ! i) \<Longrightarrow> x = y"
  by (simp add: list_eq_iff_nth_eq)

lemma vecmat_linear:
  "vecmat T (vadd x y) = vadd (vecmat T x) (vecmat T y)" "vecmat T (smult c x) = smult c (vecmat T x)"
  by (intro vec_eqI; simp add: sum.distrib algebra_simps sum_distrib_left)+

lemma vecmat_compose: "vecmat S (vecmat T x) = vecmat (map (vecmat S) T) x" if "length T = 11"
proof (intro vec_eqI vec_lengths)
  fix i :: nat assume i: "i < 11"
  have "vecmat S (vecmat T x) ! i = (\<Sum>r<11. \<Sum>k<11. x ! k * T ! k ! r * S ! r ! i)"
    using i by (simp add: sum_distrib_right)
  also have "\<dots> = (\<Sum>k<11. \<Sum>r<11. x ! k * T ! k ! r * S ! r ! i)" by (rule sum.swap)
  also have "\<dots> = vecmat (map (vecmat S) T) x ! i"
    using i that by (simp add: sum_distrib_left mult.assoc)
  finally show "vecmat S (vecmat T x) ! i = vecmat (map (vecmat S) T) x ! i" .
qed

lemma dot_vecmat: "dot w (vecmat T x) = dot (map (dot w) T) x" if "length T = 11"
proof -
  have "dot w (vecmat T x) = (\<Sum>r<11. \<Sum>k<11. w ! r * (x ! k * T ! k ! r))" by (simp add: dot_def sum_distrib_left)
  also have "\<dots> = (\<Sum>k<11. \<Sum>r<11. w ! r * (x ! k * T ! k ! r))" by (rule sum.swap)
  also have "\<dots> = dot (map (dot w) T) x"
    using that by (simp add: dot_def sum_distrib_left sum_distrib_right algebra_simps)
  finally show ?thesis .
qed

subsection \<open>Evaluation on integers\<close>

definition gfv :: "int list \<Rightarrow> gf list" where
  "gfv = map of_int"

fun int_dot :: "int list \<Rightarrow> int list \<Rightarrow> int" where
  "int_dot (x # xs) (y # ys) = x * y + int_dot xs ys"
| "int_dot _ _ = 0"

fun int_vecmat :: "int list list \<Rightarrow> int list \<Rightarrow> int list" where
  "int_vecmat (row # T) (x # xs) = map2 (+) (map (\<lambda>y. x * y) row) (int_vecmat T xs)"
| "int_vecmat _ _ = [0, 0, 0, 0, 0, 0, 0, 0, 0, 0, 0]"

definition mod_order :: "int list \<Rightarrow> int list" where
  "mod_order = map (\<lambda>v. v mod 18446744069414584321)"

lemma of_int_mod_order: "(of_int (v mod 18446744069414584321) :: gf) = of_int v"
  by (simp add: rep_gf_inject [symmetric] rep_of_int)

lemma gfv_mod_order: "gfv (mod_order v) = gfv v"
  by (simp add: gfv_def mod_order_def of_int_mod_order)

lemma gfv_int_dot: "length x = 11 \<Longrightarrow> length y = 11 \<Longrightarrow> of_int (int_dot x y) = dot (gfv x) (gfv y)"
proof -
  have "length x = length y \<Longrightarrow> (of_int (int_dot x y) :: gf) = (\<Sum>i<length x. of_int (x ! i) * of_int (y ! i))"
    by (induction x y rule: list_induct2) (simp_all add: sum.lessThan_Suc_shift del: sum.lessThan_Suc)
  then show "length x = 11 \<Longrightarrow> length y = 11 \<Longrightarrow> of_int (int_dot x y) = dot (gfv x) (gfv y)"
    by (simp add: dot_def gfv_def)
qed

lemma gfv_int_vecmat:
  assumes "length x = 11" "length T = 11" "\<forall>row \<in> set T. length row = 11"
  shows "gfv (int_vecmat T x) = vecmat (map gfv T) (gfv x)"
proof -
  have "length (int_vecmat T x) = 11 \<and> (\<forall>i < 11. (of_int (int_vecmat T x ! i) :: gf) = (\<Sum>r<length x. of_int (x ! r) * of_int (T ! r ! i)))"
    if "length T = length x" "\<forall>row \<in> set T. length row = 11" for T x
    using that
  proof (induction T x rule: list_induct2)
    case Nil
    have "\<forall>i < 11. [0, 0, 0, 0, 0, 0, 0, 0, 0, 0, 0 :: int] ! i = 0"
      by (simp add: All_less_Suc numeral_eq_Suc)
    then show ?case by simp
  next
    case (Cons row T x xs)
    then show ?case by (simp add: sum.lessThan_Suc_shift del: sum.lessThan_Suc)
  qed
  from this [of T x] assms show ?thesis
    by (intro vec_eqI) (simp_all add: gfv_def)
qed

subsection \<open>The tables\<close>

lemmas int_tables = int_VS_def int_W_HATS_def int_INITIAL_MATRIX_def int_CONSTANTS_def
  FAST_PARTIAL_FIRST_ROUND_CONSTANT_def FAST_PARTIAL_ROUND_CONSTANTS_def FAST_PARTIAL_ROUND_VS_def
  FAST_PARTIAL_ROUND_W_HATS_def FAST_PARTIAL_ROUND_INITIAL_MATRIX_def ALL_ROUND_CONSTANTS_def
  list.map of_nat_numeral of_nat_0 of_nat_1

definition block_product :: "int list list \<Rightarrow> int list list \<Rightarrow> int list list" where
  "block_product S T = map (\<lambda>row. mod_order (int_vecmat S row)) T"

lemma block_2: "block_product MDS_BLOCK MDS_BLOCK = MDS_BLOCK_2" by code_simp

lemma block_4: "block_product MDS_BLOCK_2 MDS_BLOCK_2 = MDS_BLOCK_4" by code_simp

lemma block_5: "block_product MDS_BLOCK_4 MDS_BLOCK = MDS_BLOCK_5" by code_simp

lemma block_10: "block_product MDS_BLOCK_5 MDS_BLOCK_5 = MDS_BLOCK_10" by code_simp

lemma block_11: "block_product MDS_BLOCK_10 MDS_BLOCK = MDS_BLOCK_11" by code_simp

lemma block_22: "block_product MDS_BLOCK_11 MDS_BLOCK_11 = int_INITIAL_MATRIX"
  by (simp only: int_tables) code_simp

lemma VS_table: "block_product MDS_BLOCK (tl int_VS) @ [MDS_COL] = int_VS"
  by (simp only: int_tables) code_simp

lemma W_HATS_table: "map (\<lambda>w. mod_order (map (int_dot w) MDS_BLOCK)) int_W_HATS = tl int_W_HATS @ [MDS_ROW]"
  by (simp only: int_tables) code_simp

lemma first_constants_table:
  "mod_order (map2 (+) (hd (partial_constants (map int ALL_ROUND_CONSTANTS))) (0 # hd DEFERRED_CONSTANTS)) = map int FAST_PARTIAL_FIRST_ROUND_CONSTANT"
  by (simp only: int_tables rows12.simps partial_constants_def) code_simp

lemma round_constants_table:
  "mod_order (map2 (\<lambda>k q. 25 * k + int_dot MDS_ROW q) int_CONSTANTS DEFERRED_CONSTANTS) =
   map hd (tl (partial_constants (map int ALL_ROUND_CONSTANTS)))"
  by (simp only: int_tables rows12.simps partial_constants_def) code_simp

lemma deferred_constants_table:
  "map2 (\<lambda>k q. mod_order (map2 (+) (map (\<lambda>v. k * v) MDS_COL) (int_vecmat MDS_BLOCK q))) int_CONSTANTS DEFERRED_CONSTANTS =
   map2 (\<lambda>c q. mod_order (map2 (+) (tl c) q)) (tl (partial_constants (map int ALL_ROUND_CONSTANTS))) (tl DEFERRED_CONSTANTS)"
  by (simp only: int_tables rows12.simps partial_constants_def) code_simp

end
