(* ===== verification/Poseidon_Equivalence.thy ===== *)
theory Poseidon_Equivalence
  imports Poseidon_Fast
begin

text \<open>
  The permutation with the fast partial rounds is the permutation with the naive ones.
\<close>

subsection \<open>The layers as a row, a column and a block\<close>

abbreviation block :: "gf list \<Rightarrow> gf list" where
  "block \<equiv> vecmat (map gfv MDS_BLOCK)"

definition square11 :: "int list list \<Rightarrow> bool" where
  "square11 T \<longleftrightarrow> length T = 11 \<and> list_all (\<lambda>row. length row = 11) T"

lemma square11_tables: "square11 MDS_BLOCK" "square11 MDS_BLOCK_2" "square11 MDS_BLOCK_4" "square11 MDS_BLOCK_5"
  "square11 MDS_BLOCK_10" "square11 MDS_BLOCK_11"
  by (simp_all add: square11_def MDS_BLOCK_def MDS_BLOCK_2_def MDS_BLOCK_4_def MDS_BLOCK_5_def MDS_BLOCK_10_def MDS_BLOCK_11_def)

lemma block_product_vecmat:
  assumes "square11 S" "square11 R"
  shows "vecmat (map gfv (block_product S R)) = vecmat (map gfv S) \<circ> vecmat (map gfv R)"
proof (intro ext)
  fix x
  have "map gfv (block_product S R) = map (vecmat (map gfv S)) (map gfv R)"
    using assms by (auto simp: block_product_def gfv_mod_order gfv_int_vecmat square11_def list_all_iff)
  then show "vecmat (map gfv (block_product S R)) x = (vecmat (map gfv S) \<circ> vecmat (map gfv R)) x"
    using assms by (simp add: vecmat_compose square11_def)
qed

lemma block_powers: "vecmat (map gfv int_INITIAL_MATRIX) = block ^^ 22"
proof -
  note [simp] = square11_tables
  have 2: "vecmat (map gfv MDS_BLOCK_2) = block ^^ 2"
    using block_product_vecmat [of MDS_BLOCK MDS_BLOCK] by (simp add: block_2 numeral_2_eq_2 comp_def)
  have 4: "vecmat (map gfv MDS_BLOCK_4) = block ^^ 4"
    using block_product_vecmat [of MDS_BLOCK_2 MDS_BLOCK_2] 2 funpow_add [of 2 2 block] by (simp add: block_4)
  have 5: "vecmat (map gfv MDS_BLOCK_5) = block ^^ 5"
    using block_product_vecmat [of MDS_BLOCK_4 MDS_BLOCK] 4 funpow_add [of 4 1 block] by (simp add: block_5)
  have 10: "vecmat (map gfv MDS_BLOCK_10) = block ^^ 10"
    using block_product_vecmat [of MDS_BLOCK_5 MDS_BLOCK_5] 5 funpow_add [of 5 5 block] by (simp add: block_10)
  have 11: "vecmat (map gfv MDS_BLOCK_11) = block ^^ 11"
    using block_product_vecmat [of MDS_BLOCK_10 MDS_BLOCK] 10 funpow_add [of 10 1 block] by (simp add: block_11)
  show ?thesis
    using block_product_vecmat [of MDS_BLOCK_11 MDS_BLOCK_11] 11 funpow_add [of 11 11 block] by (simp only: block_22 square11_tables) simp
qed

lemma mds_layer_block:
  assumes "length x = 11"
  shows "mds_layer_field (s # x) = (25 * s + dot (gfv MDS_ROW) x) # vadd (smult s (gfv MDS_COL)) (block x)"
proof -
  obtain x1 x2 x3 x4 x5 x6 x7 x8 x9 x10 x11 where x: "x = [x1, x2, x3, x4, x5, x6, x7, x8, x9, x10, x11]"
    using assms by (auto simp: length_Suc_conv numeral_eq_Suc)
  show ?thesis
    unfolding x
    by (simp add: mds_layer_field_def mds_row_shf_field_def SPONGE_WIDTH_def upt_rec MDS_MATRIX_CIRC_def MDS_MATRIX_DIAG_def
        dot_def gfv_def MDS_ROW_def vadd_def smult_def vecmat_def MDS_COL_def MDS_BLOCK_def lessThan_nat_numeral lessThan_Suc)
qed

lemma foldl_plus_sum: "foldl (\<lambda>res r. res + f r) a [1..<12] = (a :: gf) + (\<Sum>r<11. f (Suc r))"
proof -
  have "foldl (\<lambda>res r. res + f r) a [m..<n] = a + sum f {m..<n}" for m n
    by (cases "m \<le> n", induction n rule: nat_induct) (auto simp: le_Suc_eq)
  then show ?thesis using sum.shift_bounds_Suc_ivl [of f 0 11] by (simp add: atLeast0LessThan)
qed

subsection \<open>The tables of the fast rounds\<close>

abbreviation fast_V :: "nat \<Rightarrow> gf list" where
  "fast_V i \<equiv> gfv (int_VS ! i)"

abbreviation fast_W :: "nat \<Rightarrow> gf list" where
  "fast_W i \<equiv> gfv (int_W_HATS ! i)"

abbreviation fast_K :: "nat \<Rightarrow> gf" where
  "fast_K i \<equiv> of_int (int_CONSTANTS ! i)"

abbreviation fast_Q :: "nat \<Rightarrow> gf list" where
  "fast_Q i \<equiv> gfv (DEFERRED_CONSTANTS ! i)"

abbreviation naive_C :: "nat \<Rightarrow> int list" where
  "naive_C i \<equiv> partial_constants (map int ALL_ROUND_CONSTANTS) ! i"

lemma table_shapes:
  "length int_VS = 22" "length int_W_HATS = 22" "length int_CONSTANTS = 22" "length DEFERRED_CONSTANTS = 23"
  "list_all (\<lambda>v. length v = 11) int_VS" "list_all (\<lambda>v. length v = 11) int_W_HATS" "list_all (\<lambda>v. length v = 11) DEFERRED_CONSTANTS"
  "length MDS_ROW = 11" "length MDS_COL = 11" "length ALL_ROUND_CONSTANTS = 360"
  by (simp_all add: int_VS_def int_W_HATS_def int_CONSTANTS_def FAST_PARTIAL_ROUND_VS_def FAST_PARTIAL_ROUND_W_HATS_def FAST_PARTIAL_ROUND_CONSTANTS_def DEFERRED_CONSTANTS_def
      MDS_ROW_def MDS_COL_def ALL_ROUND_CONSTANTS_def)

lemma row_lengths:
  "i < 22 \<Longrightarrow> length (int_VS ! i) = 11" "i < 22 \<Longrightarrow> length (int_W_HATS ! i) = 11" "i < 23 \<Longrightarrow> length (DEFERRED_CONSTANTS ! i) = 11"
  using table_shapes by (auto simp: list_all_length)

lemma fast_V_power: "i < 22 \<Longrightarrow> fast_V i = (block ^^ (21 - i)) (gfv MDS_COL)"
proof (induction "21 - i" arbitrary: i)
  case 0
  then have i: "i = 21" by simp
  have "int_VS ! 21 = MDS_COL"
    by (subst VS_table [symmetric]) (simp add: nth_append block_product_def table_shapes)
  then show ?case using i by simp
next
  case (Suc n)
  then have i: "i < 21" by simp
  have "int_VS ! i = mod_order (int_vecmat MDS_BLOCK (int_VS ! Suc i))"
    by (subst VS_table [symmetric]) (use i in \<open>simp add: nth_append block_product_def nth_tl table_shapes\<close>)
  then have "fast_V i = block (fast_V (Suc i))"
    using i square11_tables(1) row_lengths(1) [of "Suc i"]
    by (simp only: gfv_mod_order) (subst gfv_int_vecmat; simp add: square11_def list_all_iff)
  moreover have "21 - i = Suc (21 - Suc i)" using i by simp
  moreover have "fast_V (Suc i) = (block ^^ (21 - Suc i)) (gfv MDS_COL)" using Suc i by simp
  ultimately show ?case by simp
qed

lemma gfv_map: "gfv (map f xs) = map (\<lambda>x. of_int (f x)) xs"
  by (simp add: gfv_def)

lemma fast_W_step:
  assumes "i < 22" "mod_order (map (int_dot (int_W_HATS ! i)) MDS_BLOCK) = w"
  shows "dot (fast_W i) (block x) = dot (gfv w) x"
proof -
  have "gfv w = map (dot (fast_W i)) (map gfv MDS_BLOCK)"
    using assms square11_tables(1) row_lengths(2) [OF assms(1)] gfv_mod_order [of "map (int_dot (int_W_HATS ! i)) MDS_BLOCK"]
    by (auto simp: gfv_int_dot square11_def list_all_iff gfv_map)
  then show ?thesis
    using square11_tables(1) by (simp only: dot_vecmat [of "map gfv MDS_BLOCK"] square11_def length_map)
qed

lemma fast_W_power: "i < 22 \<Longrightarrow> dot (fast_W i) ((block ^^ (22 - i)) x) = dot (gfv MDS_ROW) x"
proof (induction "21 - i" arbitrary: i x)
  case 0
  then have i: "i = 21" by simp
  have "mod_order (map (int_dot (int_W_HATS ! 21)) MDS_BLOCK) = (tl int_W_HATS @ [MDS_ROW]) ! 21"
    by (subst W_HATS_table [symmetric]) (simp add: table_shapes)
  also have "\<dots> = MDS_ROW" by (simp add: nth_append table_shapes)
  finally show ?case using i fast_W_step [of 21] by simp
next
  case (Suc n)
  then have i: "i < 21" by simp
  have "mod_order (map (int_dot (int_W_HATS ! i)) MDS_BLOCK) = (tl int_W_HATS @ [MDS_ROW]) ! i"
    by (subst W_HATS_table [symmetric]) (use i in \<open>simp add: table_shapes\<close>)
  also have "\<dots> = int_W_HATS ! Suc i" using i by (simp add: nth_append table_shapes nth_tl)
  finally have "dot (fast_W i) (block ((block ^^ (21 - i)) x)) = dot (fast_W (Suc i)) ((block ^^ (21 - i)) x)"
    using fast_W_step [of i] i by simp
  moreover have "22 - i = Suc (21 - i)" "22 - Suc i = 21 - i" using i by simp_all
  moreover have "dot (fast_W (Suc i)) ((block ^^ (22 - Suc i)) x) = dot (gfv MDS_ROW) x" using Suc(1) [of "Suc i"] Suc(2) i by simp
  ultimately show ?case by simp
qed

lemma block_power_linear:
  "length x = 11 \<Longrightarrow> length ((block ^^ k) x) = 11"
  "(block ^^ k) (vadd x y) = vadd ((block ^^ k) x) ((block ^^ k) y)"
  "(block ^^ k) (smult c x) = smult c ((block ^^ k) x)"
  by (induction k) (simp_all add: vecmat_linear)

lemma rows12_shape: "length (rows12 xs) = length xs div 12 \<and> list_all (\<lambda>r. length r = 12) (rows12 xs)"
  by (induction xs rule: rows12.induct) auto

lemma partial_constants_shape: "length (partial_constants (map int ALL_ROUND_CONSTANTS)) = 23"
    "i < 23 \<Longrightarrow> length (naive_C i) = 12" "naive_C 22 = [0, 0, 0, 0, 0, 0, 0, 0, 0, 0, 0, 0]"
  using rows12_shape [of "map int ALL_ROUND_CONSTANTS"]
  by (auto simp: partial_constants_def table_shapes nth_append list_all_length less_Suc_eq_0_disj)

lemma naive_C_nth:
  assumes "i < 22" "j < 12"
  shows "of_int (naive_C i ! j) = (of_nat (ALL_ROUND_CONSTANTS ! (j + SPONGE_WIDTH * (4 + i))) :: gf)"
proof -
  have "12 * (4 + i) + j < 360" using assms by simp
  then have "rows12 (map int ALL_ROUND_CONSTANTS) ! (4 + i) ! j = int (ALL_ROUND_CONSTANTS ! (12 * (4 + i) + j))"
    using rows12_nth [of "4 + i" j "map int ALL_ROUND_CONSTANTS"] assms by (simp add: table_shapes)
  moreover have "naive_C i = rows12 (map int ALL_ROUND_CONSTANTS) ! (4 + i)"
    using assms rows12_shape [of "map int ALL_ROUND_CONSTANTS"] by (simp add: partial_constants_def nth_append table_shapes)
  ultimately show ?thesis by (simp add: SPONGE_WIDTH_def add.commute)
qed

lemma gfv_map2: "length x = 11 \<Longrightarrow> length y = 11 \<Longrightarrow> gfv (map2 (+) x y) = vadd (gfv x) (gfv y)" 
  by (intro vec_eqI) (simp_all add: gfv_def)

lemma gfv_scale: "length x = 11 \<Longrightarrow> gfv (map (\<lambda>v. k * v) x) = smult (of_int k) (gfv x)" 
  by (intro vec_eqI) (simp_all add: gfv_def)

lemma fast_constants:
  assumes "i < 22"
  shows "25 * fast_K i + dot (gfv MDS_ROW) (fast_Q i) = of_int (hd (naive_C (Suc i)))"
    "vadd (smult (fast_K i) (gfv MDS_COL)) (block (fast_Q i)) = vadd (gfv (tl (naive_C (Suc i)))) (fast_Q (Suc i))"
proof -
  have "of_int ((25 * int_CONSTANTS ! i + int_dot MDS_ROW (DEFERRED_CONSTANTS ! i)) mod 18446744069414584321) = (of_int (hd (naive_C (Suc i))) :: gf)"
    using arg_cong [OF round_constants_table, of "\<lambda>xs. xs ! i"] assms partial_constants_shape(1)
    by (simp add: mod_order_def table_shapes nth_tl)
  then show "25 * fast_K i + dot (gfv MDS_ROW) (fast_Q i) = of_int (hd (naive_C (Suc i)))"
    using assms by (simp add: of_int_mod_order gfv_int_dot row_lengths table_shapes)
  have "gfv (map2 (+) (map (\<lambda>v. int_CONSTANTS ! i * v) MDS_COL) (int_vecmat MDS_BLOCK (DEFERRED_CONSTANTS ! i))) =
      gfv (map2 (+) (tl (naive_C (Suc i))) (DEFERRED_CONSTANTS ! Suc i))"
    using arg_cong [OF deferred_constants_table, of "\<lambda>xs. gfv (xs ! i)"] assms partial_constants_shape(1)
    by (simp add: gfv_mod_order table_shapes nth_tl)
  moreover have "length (int_vecmat MDS_BLOCK (DEFERRED_CONSTANTS ! i)) = 11" "gfv (int_vecmat MDS_BLOCK (DEFERRED_CONSTANTS ! i)) = block (fast_Q i)"
    using gfv_int_vecmat [of "DEFERRED_CONSTANTS ! i" MDS_BLOCK] square11_tables(1) row_lengths(3) [of i] assms
      vec_lengths(3) [of "map gfv MDS_BLOCK" "fast_Q i"]
    by (auto simp: square11_def list_all_iff gfv_def [THEN fun_cong] dest: arg_cong [of _ _ length])
  ultimately show "vadd (smult (fast_K i) (gfv MDS_COL)) (block (fast_Q i)) = vadd (gfv (tl (naive_C (Suc i)))) (fast_Q (Suc i))"
    using assms by (simp add: gfv_map2 gfv_scale row_lengths table_shapes partial_constants_shape)
qed

subsection \<open>The rounds agree\<close>

lemma list12: "length s = 12 \<Longrightarrow> s = hd s # tl s \<and> length (tl s) = 11 \<and> s ! 0 = hd s \<and> (\<forall>i < 11. s ! Suc i = tl s ! i)"
  by (cases s) auto

lemma upt_1_12: "[1..<12] = map Suc [0..<11]" "[0..<12] = 0 # map Suc [0..<11]"
  by (simp_all add: upt_rec)

lemma map_upt_1_12: "map f [1..<12] = map (\<lambda>i. f (Suc i)) [0..<11]"
  by (simp add: upt_1_12 comp_def del: upt_Suc One_nat_def)

lemma of_nat_gfv: "i < length xs \<Longrightarrow> (of_nat (xs ! i) :: gf) = gfv (map int xs) ! i"
  by (simp add: gfv_def)

lemma constant_layer_block:
  assumes "length s = 12" "i < 22"
  shows "constant_layer_field s (4 + i) = (hd s + of_int (hd (naive_C i))) # vadd (tl s) (gfv (tl (naive_C i)))"
proof -
  note c = naive_C_nth [OF assms(2)]
  have n: "naive_C i = hd (naive_C i) # tl (naive_C i)" "length (tl (naive_C i)) = 11"
    using partial_constants_shape(2) [of i] assms by (cases "naive_C i"; simp)+
  have h: "of_nat (ALL_ROUND_CONSTANTS ! (SPONGE_WIDTH * (4 + i))) = (of_int (hd (naive_C i)) :: gf)"
    using c [of 0] n(1) by (metis add_0 nth_Cons_0 zero_less_numeral)
  have t: "of_nat (ALL_ROUND_CONSTANTS ! (Suc j + SPONGE_WIDTH * (4 + i))) = (gfv (tl (naive_C i)) ! j :: gf)" if "j < 11" for j
    using c [of "Suc j"] n that by (simp add: gfv_def) (metis nth_Cons_Suc)
  show ?thesis
    unfolding constant_layer_field_def vadd_def SPONGE_WIDTH_def [THEN arg_cong, of "\<lambda>n. map f [0..<n]" for f] upt_1_12
    using h t list12 [OF assms(1)] by (simp add: comp_def del: upt_Suc)
qed

lemma fast_layer_block:
  assumes "length x = 11" "i < 22"
  shows "mds_partial_layer_fast_field (s0 # x) i = (25 * s0 + dot (fast_W i) x) # vadd (smult s0 (fast_V i)) x"
proof -
  have l: "length FAST_PARTIAL_ROUND_W_HATS = 22" "length FAST_PARTIAL_ROUND_VS = 22"
    using table_shapes(1,2) by (simp_all add: int_VS_def int_W_HATS_def)
  have ll: "length (FAST_PARTIAL_ROUND_W_HATS ! i) = 11" "length (FAST_PARTIAL_ROUND_VS ! i) = 11"
    using row_lengths(1,2) [OF assms(2)] l assms by (simp_all add: int_VS_def int_W_HATS_def)
  have w: "of_nat (FAST_PARTIAL_ROUND_W_HATS ! i ! j) = fast_W i ! j" "of_nat (FAST_PARTIAL_ROUND_VS ! i ! j) = fast_V i ! j" if "j < 11" for j
    using of_nat_gfv [of j "FAST_PARTIAL_ROUND_W_HATS ! i"] of_nat_gfv [of j "FAST_PARTIAL_ROUND_VS ! i"] that ll l assms
    by (simp_all add: int_VS_def int_W_HATS_def)
  have m: "(of_nat (MDS_MATRIX_CIRC ! 0 + MDS_MATRIX_DIAG ! 0) :: gf) = 25" by (simp add: MDS_MATRIX_CIRC_def MDS_MATRIX_DIAG_def)
  show ?thesis
    unfolding mds_partial_layer_fast_field_def Let_def m SPONGE_WIDTH_def foldl_plus_sum map_upt_1_12
    using w by (simp add: vadd_def dot_def mult.commute del: upt_Suc)
qed

lemma init_layer_block:
  assumes "length x = 11"
  shows "mds_partial_layer_init (s0 # x) = s0 # (block ^^ 22) x"
proof -
  have l: "length FAST_PARTIAL_ROUND_INITIAL_MATRIX = 11" "list_all (\<lambda>r. length r = 11) FAST_PARTIAL_ROUND_INITIAL_MATRIX"
    by (simp_all add: FAST_PARTIAL_ROUND_INITIAL_MATRIX_def)
  then have w: "of_nat (FAST_PARTIAL_ROUND_INITIAL_MATRIX ! r ! j) = map gfv int_INITIAL_MATRIX ! r ! j" if "j < 11" "r < 11" for j r
    using of_nat_gfv [of j "FAST_PARTIAL_ROUND_INITIAL_MATRIX ! r"] that by (simp add: int_INITIAL_MATRIX_def list_all_length)
  show ?thesis
    unfolding mds_partial_layer_init_def SPONGE_WIDTH_def foldl_plus_sum block_powers [symmetric] map_upt_1_12
    using w by (simp add: vecmat_def del: upt_Suc nth_map map_map)
qed

definition rounds_agree :: "nat \<Rightarrow> gf list \<Rightarrow> gf list \<Rightarrow> bool" where
  "rounds_agree i naive fast \<longleftrightarrow> length naive = 12 \<and>
     fast = (hd naive + of_int (hd (naive_C i))) #
       (block ^^ (22 - i)) (vadd (vadd (tl naive) (gfv (tl (naive_C i)))) (fast_Q i))"

lemma vadd_comm_assoc: "vadd x y = vadd y x" "vadd (vadd x y) z = vadd x (vadd y z)" "vadd x (vadd y z) = vadd y (vadd x z)"
  by (intro vec_eqI; simp add: ac_simps)+

lemma smult_add: "smult (a + b) x = vadd (smult a x) (smult b x)"
  by (intro vec_eqI) (simp_all add: algebra_simps)

lemma dot_vadd: "dot w (vadd x y) = dot w x + dot w y"
  by (simp add: dot_def algebra_simps sum.distrib)

lemma rounds_agree_step:
  assumes "rounds_agree i s f" and i: "i < 22"
  shows "rounds_agree (Suc i) (partial_round_naive s (4 + i)) (partial_round f i)"
proof -
  let ?S = "sbox_monomial (hd s + of_int (hd (naive_C i)))" and ?x = "vadd (tl s) (gfv (tl (naive_C i)))"
  let ?B = "block ^^ (21 - i)" and ?k = "fast_K i"
  have len: "length s = 12" and f: "f = (hd s + of_int (hd (naive_C i))) # (block ^^ (22 - i)) (vadd ?x (fast_Q i))"
    using assms by (simp_all add: rounds_agree_def)
  have naive: "partial_round_naive s (4 + i) = (25 * ?S + dot (gfv MDS_ROW) ?x) # vadd (smult ?S (gfv MDS_COL)) (block ?x)"
    unfolding partial_round_naive_def Let_def constant_layer_block [OF len i] by (simp add: mds_layer_block)
  have k: "of_nat (FAST_PARTIAL_ROUND_CONSTANTS ! i) = ?k"
    using i table_shapes(3) by (simp add: int_CONSTANTS_def)
  have "partial_round f i = (25 * (?S + ?k) + dot (fast_W i) ((block ^^ (22 - i)) (vadd ?x (fast_Q i)))) #
      vadd (smult (?S + ?k) (fast_V i)) ((block ^^ (22 - i)) (vadd ?x (fast_Q i)))"
    unfolding partial_round_def Let_def f k using i block_power_linear(1) by (simp add: fast_layer_block)
  also have "25 * (?S + ?k) + dot (fast_W i) ((block ^^ (22 - i)) (vadd ?x (fast_Q i))) =
      25 * ?S + dot (gfv MDS_ROW) ?x + of_int (hd (naive_C (Suc i)))"
    using fast_constants(1) [OF i] fast_W_power [OF i, of "vadd ?x (fast_Q i)"] by (simp only: dot_vadd) (simp add: algebra_simps)
  also have "vadd (smult (?S + ?k) (fast_V i)) ((block ^^ (22 - i)) (vadd ?x (fast_Q i))) =
      ?B (vadd (vadd (smult ?S (gfv MDS_COL)) (block ?x)) (vadd (smult ?k (gfv MDS_COL)) (block (fast_Q i))))"
  proof -
    have "22 - i = Suc (21 - i)" using i by simp
    then have "(block ^^ (22 - i)) y = ?B (block y)" for y by (metis comp_apply funpow_Suc_right)
    then show ?thesis
      using fast_V_power [OF i] by (simp only: smult_add vecmat_linear block_power_linear(2,3)) (simp only: vadd_comm_assoc)
  qed
  also have "vadd (smult ?k (gfv MDS_COL)) (block (fast_Q i)) = vadd (gfv (tl (naive_C (Suc i)))) (fast_Q (Suc i))"
    by (rule fast_constants(2) [OF i])
  finally show ?thesis
    unfolding rounds_agree_def naive by (simp add: vadd_comm_assoc)
qed

lemma rounds_agree_init:
  assumes "length s = 12"
  shows "rounds_agree 0 s (mds_partial_layer_init (partial_first_constant_layer s))"
proof -
  have C: "hd (partial_constants (map int ALL_ROUND_CONSTANTS)) = naive_C 0"
    using partial_constants_shape(1) by (intro hd_conv_nth) auto
  have c: "naive_C 0 = hd (naive_C 0) # tl (naive_C 0)" "length (tl (naive_C 0)) = 11"
    using partial_constants_shape(2) [of 0] by (cases "naive_C 0"; simp)+
  have Q: "hd DEFERRED_CONSTANTS = DEFERRED_CONSTANTS ! 0" "length (DEFERRED_CONSTANTS ! 0) = 11"
    using table_shapes(4) row_lengths(3) [of 0] by (auto intro!: hd_conv_nth)
  have "gfv (map int FAST_PARTIAL_FIRST_ROUND_CONSTANT) =
      gfv (map2 (+) (hd (naive_C 0) # tl (naive_C 0)) (0 # DEFERRED_CONSTANTS ! 0))"
    using arg_cong [OF first_constants_table, of gfv] C Q c(1) by (simp add: gfv_mod_order)
  also have "\<dots> = of_int (hd (naive_C 0)) # vadd (gfv (tl (naive_C 0))) (fast_Q 0)"
    using gfv_map2 [OF c(2) Q(2)] by (simp add: gfv_def)
  finally have first: "gfv (map int FAST_PARTIAL_FIRST_ROUND_CONSTANT) = of_int (hd (naive_C 0)) # vadd (gfv (tl (naive_C 0))) (fast_Q 0)" .
  have l: "length FAST_PARTIAL_FIRST_ROUND_CONSTANT = 12" by (simp add: FAST_PARTIAL_FIRST_ROUND_CONSTANT_def)
  have n: "of_nat (FAST_PARTIAL_FIRST_ROUND_CONSTANT ! j) = (of_int (hd (naive_C 0)) # vadd (gfv (tl (naive_C 0))) (fast_Q 0)) ! j" if "j < 12" for j
    using of_nat_gfv [of j FAST_PARTIAL_FIRST_ROUND_CONSTANT] that l first by simp
  have "partial_first_constant_layer s = (hd s + of_int (hd (naive_C 0))) # vadd (vadd (tl s) (gfv (tl (naive_C 0)))) (fast_Q 0)"
    unfolding partial_first_constant_layer_def SPONGE_WIDTH_def upt_1_12(2)
    using n [of 0] n [of "Suc j" for j] list12 [OF assms]
    by (simp add: comp_def vadd_def [of "vadd x y" for x y] add.assoc del: upt_Suc)
  then show ?thesis using assms by (simp add: rounds_agree_def init_layer_block)
qed

lemma rounds_agree_end: "rounds_agree 22 s f \<Longrightarrow> f = s"
proof -
  assume r: "rounds_agree 22 s f"
  have q: "DEFERRED_CONSTANTS ! 22 = [0, 0, 0, 0, 0, 0, 0, 0, 0, 0, 0]" by (simp add: DEFERRED_CONSTANTS_def)
  have z: "[0 :: gf, 0, 0, 0, 0, 0, 0, 0, 0, 0, 0] ! i = 0" if "i < 11" for i
    using that by (auto simp: less_Suc_eq numeral_eq_Suc)
  have "vadd (vadd (tl s) (gfv (tl (naive_C 22)))) (fast_Q 22) = tl s"
    using r by (intro vec_eqI) (simp_all add: rounds_agree_def partial_constants_shape(3) q gfv_def z)
  then show ?thesis using r list12 [of s] by (simp add: rounds_agree_def partial_constants_shape(3))
qed

lemma partial_rounds_agree:
  assumes "length s = 12"
  shows "partial_rounds_naive s 4 = partial_rounds s 4"
proof -
  let ?n = "\<lambda>k. foldl (\<lambda>(state, round_ctr) _. (partial_round_naive state round_ctr, round_ctr + 1)) (s, 4) [0..<k]"
  let ?f = "\<lambda>k. foldl partial_round (mds_partial_layer_init (partial_first_constant_layer s)) [0..<k]"
  have "k \<le> 22 \<Longrightarrow> snd (?n k) = 4 + k \<and> rounds_agree k (fst (?n k)) (?f k)" for k
  proof (induction k)
    case 0
    then show ?case using rounds_agree_init [OF assms] by simp
  next
    case (Suc k)
    then show ?case using rounds_agree_step [of k] by (auto simp: case_prod_unfold)
  qed
  from this [of 22] have "snd (?n 22) = 26" "fst (?n 22) = ?f 22"
    using rounds_agree_end [of "fst (?n 22)" "?f 22"] by auto
  then show ?thesis
    by (simp only: partial_rounds_def partial_rounds_naive_def N_PARTIAL_ROUNDS_def prod_eq_iff) simp
qed

lemma poseidon_naive_poseidon: "poseidon_naive state = poseidon state"
proof -
  have "snd (full_rounds state 0) = 4" by (simp add: full_rounds_def HALF_N_FULL_ROUNDS_def upt_rec)
  moreover have "length (fst (full_rounds state 0)) = 12" using length_full_rounds by (simp add: SPONGE_WIDTH_def)
  ultimately show ?thesis
    by (simp add: poseidon_naive_def poseidon_def case_prod_unfold partial_rounds_agree)
qed

end
