(* ===== verification/Word_Properties.thy ===== *)
theory Word_Properties
  imports Poseidon_Impl Poseidon_Equivalence
begin

text \<open>
  Properties of the word-level implementation: the 64-bit field operations compute in the field
  and never take one of their panicking branches, and the optimised permutation is the reference.
\<close>

subsection \<open>Field operations on machine words\<close>

text \<open>C25: Refinement.  On every pair of 64-bit words, canonical or not, addition, subtraction,
  negation, multiplication and multiply-accumulate return (the internal checks cannot fail) and
  the word they return stands for the result in the field.\<close>

theorem field_words_compute:
  "computes (gl_add x y) (gf_of x + gf_of y) \<and> computes (gl_sub x y) (gf_of x - gf_of y)
   \<and> computes (gl_neg x) (- gf_of x) \<and> computes (gl_mul x y) (gf_of x * gf_of y)
   \<and> computes (multiply_accumulate z x y) (gf_of z + gf_of x * gf_of y)"
  by (intro conjI gl_add_computes gl_sub_computes gl_neg_computes gl_mul_computes multiply_accumulate_computes)

text \<open>Functional behaviour.  \<open>try_inverse\<close> returns nothing for a word that stands for zero (0
  and the field order) and otherwise a word for the inverse: its addition chain computes the power
  with exponent \<open>ORDER - 2\<close>.  Equality of words is equality of the field elements.\<close>

theorem try_inverse_exact:
  "(\<exists>r. try_inverse x = Inr r
      \<and> (case r of None \<Rightarrow> gf_of x = 0 | Some y \<Rightarrow> gf_of x \<noteq> 0 \<and> gf_of y = inverse (gf_of x)))
   \<and> gl_eq x y = Inr (gf_of x = gf_of y)"
  using try_inverse_Inr [of x] gl_eq_Inr [of x y] by simp

subsection \<open>The permutation\<close>

text \<open>C26: Refinement.  The permutation on 64-bit words (the MDS products by convolution in the
  frequency domain, sums of products in 160 bits with one reduction) returns on every state of
  twelve words, and the words stand for the permutation of the field elements.\<close>

theorem word_permutation_refines:
  assumes "length state = SPONGE_WIDTH"
  shows "\<exists>words. gl_poseidon state = Inr words \<and> length words = SPONGE_WIDTH
    \<and> map gf_of words = poseidon (map gf_of state)"
proof -
  have "computes_list (gl_poseidon state) (poseidon (map gf_of state))"
    using gl_poseidon_computes [of state] assms by (simp add: SPONGE_WIDTH_def)
  then obtain words where w: "gl_poseidon state = Inr words" "map gf_of words = poseidon (map gf_of state)"
    by (auto simp: computes_list_def)
  then have "length words = SPONGE_WIDTH" using poseidon_length [of "map gf_of state"] by (metis length_map)
  then show ?thesis using w by blast
qed

theorem word_permutation_refines_witness:
  "\<exists>words. gl_poseidon [0, 1, 2, 3, 4, 5, 6, 7, 8, 9, 18446744069414584321, 18446744073709551615] = Inr words
    \<and> length words = SPONGE_WIDTH
    \<and> map gf_of words = poseidon (map gf_of [0, 1, 2, 3, 4, 5, 6, 7, 8, 9, 18446744069414584321, 18446744073709551615])"
  by (rule word_permutation_refines) (simp add: SPONGE_WIDTH_def)

text \<open>C27: Equivalence.  The permutation with the optimised partial rounds (one sparse matrix per
  round, constants deferred, an initial dense matrix) is the textbook permutation that adds all
  constants and multiplies by the full MDS matrix in every round: the precomputed tables are right.\<close>

theorem fast_rounds_are_naive: "poseidon_naive state = poseidon state"
  by (rule poseidon_naive_poseidon)

end
