(* ===== verification/Sha256_Spec.thy ===== *)
theory Sha256_Spec
  imports Prelude
begin

text \<open>
  SHA-256 on machine words, as FIPS 180-4 states it: the reference for the circuits of
  \<open>plonky2_sha256\<close>.  Only the two tables are taken from \<open>circuit.rs\<close>.
\<close>

definition H256 :: "u32 list" where
  "H256 = [0x6a09e667, 0xbb67ae85, 0x3c6ef372, 0xa54ff53a, 0x510e527f, 0x9b05688c, 0x1f83d9ab, 0x5be0cd19]"

definition K256 :: "u32 list" where
  "K256 =
    [0x428a2f98, 0x71374491, 0xb5c0fbcf, 0xe9b5dba5, 0x3956c25b, 0x59f111f1, 0x923f82a4, 0xab1c5ed5,
     0xd807aa98, 0x12835b01, 0x243185be, 0x550c7dc3, 0x72be5d74, 0x80deb1fe, 0x9bdc06a7, 0xc19bf174,
     0xe49b69c1, 0xefbe4786, 0x0fc19dc6, 0x240ca1cc, 0x2de92c6f, 0x4a7484aa, 0x5cb0a9dc, 0x76f988da,
     0x983e5152, 0xa831c66d, 0xb00327c8, 0xbf597fc7, 0xc6e00bf3, 0xd5a79147, 0x06ca6351, 0x14292967,
     0x27b70a85, 0x2e1b2138, 0x4d2c6dfc, 0x53380d13, 0x650a7354, 0x766a0abb, 0x81c2c92e, 0x92722c85,
     0xa2bfe8a1, 0xa81a664b, 0xc24b8b70, 0xc76c51a3, 0xd192e819, 0xd6990624, 0xf40e3585, 0x106aa070,
     0x19a4c116, 0x1e376c08, 0x2748774c, 0x34b0bcb5, 0x391c0cb3, 0x4ed8aa4a, 0x5b9cca4f, 0x682e6ff3,
     0x748f82ee, 0x78a5636f, 0x84c87814, 0x8cc70208, 0x90befffa, 0xa4506ceb, 0xbef9a3f7, 0xc67178f2]"

type_synonym 'a sha_vars = "'a \<times> 'a \<times> 'a \<times> 'a \<times> 'a \<times> 'a \<times> 'a \<times> 'a"

definition Sigma0 :: "u32 \<Rightarrow> u32" where
  "Sigma0 x = word_rotr 2 x XOR word_rotr 13 x XOR word_rotr 22 x"

definition Sigma1 :: "u32 \<Rightarrow> u32" where
  "Sigma1 x = word_rotr 6 x XOR word_rotr 11 x XOR word_rotr 25 x"

definition sigma_0 :: "u32 \<Rightarrow> u32" where
  "sigma_0 x = word_rotr 7 x XOR word_rotr 18 x XOR drop_bit 3 x"

definition sigma_1 :: "u32 \<Rightarrow> u32" where
  "sigma_1 x = word_rotr 17 x XOR word_rotr 19 x XOR drop_bit 10 x"

definition Ch :: "u32 \<Rightarrow> u32 \<Rightarrow> u32 \<Rightarrow> u32" where
  "Ch x y z = (x AND y) XOR (NOT x AND z)"

definition Maj :: "u32 \<Rightarrow> u32 \<Rightarrow> u32 \<Rightarrow> u32" where
  "Maj x y z = (x AND y) XOR (x AND z) XOR (y AND z)"

definition extend_schedule :: "u32 list \<Rightarrow> nat \<Rightarrow> u32 list" where
  "extend_schedule w t = w @ [sigma_1 (w ! (t - 2)) + w ! (t - 7) + sigma_0 (w ! (t - 15)) + w ! (t - 16)]"

definition message_schedule :: "u32 list \<Rightarrow> u32 list" where
  "message_schedule block = foldl extend_schedule block [16..<64]"

definition sha_round :: "u32 list \<Rightarrow> u32 sha_vars \<Rightarrow> nat \<Rightarrow> u32 sha_vars" where
  "sha_round w vars t =
     (case vars of (a, b, c, d, e, f, g, h) \<Rightarrow>
        let T1 = h + Sigma1 e + Ch e f g + K256 ! t + w ! t;
            T2 = Sigma0 a + Maj a b c
        in (T1 + T2, a, b, c, d + T1, e, f, g))"

definition vars_of_list :: "'a list \<Rightarrow> 'a sha_vars" where
  "vars_of_list s = (s ! 0, s ! 1, s ! 2, s ! 3, s ! 4, s ! 5, s ! 6, s ! 7)"

definition list_of_vars :: "'a sha_vars \<Rightarrow> 'a list" where
  "list_of_vars vars = (case vars of (a, b, c, d, e, f, g, h) \<Rightarrow> [a, b, c, d, e, f, g, h])"

definition sha_compress :: "u32 list \<Rightarrow> u32 list \<Rightarrow> u32 list" where
  "sha_compress state block =
     map2 (+) state (list_of_vars (foldl (sha_round (message_schedule block)) (vars_of_list state) [0..<64]))"

definition word_of_bits :: "bool list \<Rightarrow> u32" where
  "word_of_bits bs = horner_sum of_bool 2 (rev bs)"

definition block_words :: "bool list \<Rightarrow> u32 list" where
  "block_words bits = map (\<lambda>i. word_of_bits (take 32 (drop (32 * i) bits))) [0..<16]"

definition word_bits :: "u32 \<Rightarrow> bool list" where
  "word_bits w = map (\<lambda>i. bit w (31 - i)) [0..<32]"

text \<open>The chaining value after the first \<open>n\<close> blocks of 512 bits, and the hash of a message.\<close>

definition sha_chain :: "bool list \<Rightarrow> nat \<Rightarrow> u32 list" where
  "sha_chain bits n = foldl (\<lambda>state blk. sha_compress state (block_words (take 512 (drop (512 * blk) bits)))) H256 [0..<n]"

definition byte_bits :: "u8 \<Rightarrow> bool list" where
  "byte_bits b = map (\<lambda>j. bit b (7 - j)) [0..<8]"

definition msg_bits :: "bytes \<Rightarrow> bool list" where
  "msg_bits msg = concat (map byte_bits msg)"

definition sha_blocks :: "nat \<Rightarrow> nat" where
  "sha_blocks msg_len = (8 * msg_len + 65 + 511) div 512"

definition sha_pad :: "bytes \<Rightarrow> bool list" where
  "sha_pad msg =
     msg_bits msg @ [True] @ replicate (512 * sha_blocks (length msg) - 8 * length msg - 65) False
       @ map (\<lambda>i. bit (of_nat (8 * length msg) :: u64) (63 - i)) [0..<64]"

definition sha256_bits :: "bytes \<Rightarrow> bool list" where
  "sha256_bits msg = concat (map word_bits (sha_chain (sha_pad msg) (sha_blocks (length msg))))"

definition byte_of_bits :: "bool list \<Rightarrow> u8" where
  "byte_of_bits bs = horner_sum of_bool 2 (rev bs)"

definition sha256 :: "bytes \<Rightarrow> bytes" where
  "sha256 msg = map (\<lambda>i. byte_of_bits (take 8 (drop (8 * i) (sha256_bits msg)))) [0..<32]"

end
