(* ===== verification/Circuit.thy ===== *)
theory Circuit
  imports Gates
begin

text \<open>
  Circuits with private wires.  The methods of \<open>CircuitBuilder\<close> that add gates allocate fresh
  wires and constrain them; here such a method is a function on the list of the values the prover
  gives to the wires still to be allocated: it takes the values of its own wires from the front,
  checks their constraints and returns the values of its output targets with the list that is
  left.  \<open>None\<close> stands for a violated constraint.  \<open>exactly c v\<close> says that a circuit cannot be
  satisfied with another output than \<open>v\<close> and that some wire values satisfy it.
\<close>

type_synonym 'a circuit = "gf list \<Rightarrow> ('a \<times> gf list) option"

definition ret :: "'a \<Rightarrow> 'a circuit" where
  "ret x = (\<lambda>ws. Some (x, ws))"

definition bindc :: "'a circuit \<Rightarrow> ('a \<Rightarrow> 'b circuit) \<Rightarrow> 'b circuit" where
  "bindc c f = (\<lambda>ws. case c ws of None \<Rightarrow> None | Some (x, rest) \<Rightarrow> f x rest)"

definition wires :: "nat \<Rightarrow> gf list circuit" where
  "wires n = (\<lambda>ws. if n \<le> length ws then Some (take n ws, drop n ws) else None)"

definition wire :: "gf circuit" where
  "wire = bindc (wires 1) (\<lambda>ws. ret (hd ws))"

definition check :: "bool \<Rightarrow> unit circuit" where
  "check b = (\<lambda>ws. if b then Some ((), ws) else None)"

fun mapc :: "('a \<Rightarrow> 'b circuit) \<Rightarrow> 'a list \<Rightarrow> 'b list circuit" where
  "mapc f [] = ret []"
| "mapc f (x # xs) = bindc (f x) (\<lambda>y. bindc (mapc f xs) (\<lambda>ys. ret (y # ys)))"

fun foldc :: "('s \<Rightarrow> 'a \<Rightarrow> 's circuit) \<Rightarrow> 's \<Rightarrow> 'a list \<Rightarrow> 's circuit" where
  "foldc f s [] = ret s"
| "foldc f s (x # xs) = bindc (f s x) (\<lambda>s. foldc f s xs)"

named_theorems exactly_intros "circuits with exactly one possible output"

definition yields :: "'a circuit \<Rightarrow> ('a \<Rightarrow> bool) \<Rightarrow> bool" where
  "yields c P \<longleftrightarrow> (\<forall>ws out rest. c ws = Some (out, rest) \<longrightarrow> P out)"

definition reaches :: "'a circuit \<Rightarrow> 'a \<Rightarrow> bool" where
  "reaches c v \<longleftrightarrow> (\<exists>gen. \<forall>rest. c (gen @ rest) = Some (v, rest))"

definition exactly :: "'a circuit \<Rightarrow> 'a \<Rightarrow> bool" where
  "exactly c v \<longleftrightarrow> yields c (\<lambda>out. out = v) \<and> reaches c v"

subsection \<open>Satisfied circuits\<close>

lemma ret_Some [simp]: "ret x ws = Some (y, rest) \<longleftrightarrow> y = x \<and> rest = ws"
  by (auto simp: ret_def)

lemma bindc_Some:
  "bindc c f ws = Some (y, rest) \<longleftrightarrow> (\<exists>x ws'. c ws = Some (x, ws') \<and> f x ws' = Some (y, rest))"
  by (auto simp: bindc_def split: option.splits)

lemma check_Some [simp]: "check b ws = Some (u, rest) \<longleftrightarrow> b \<and> rest = ws"
  by (auto simp: check_def)

lemma wires_Some [simp]: "wires n ws = Some (xs, rest) \<longleftrightarrow> length xs = n \<and> ws = xs @ rest"
  by (auto simp: wires_def append_eq_conv_conj)

lemma wire_Some [simp]: "wire ws = Some (x, rest) \<longleftrightarrow> ws = x # rest"
  by (auto simp: wire_def bindc_Some length_Suc_conv)

lemma yieldsD: "yields c P \<Longrightarrow> c ws = Some (out, rest) \<Longrightarrow> P out"
  by (auto simp: yields_def)

lemma yields_ret: "P x \<Longrightarrow> yields (ret x) P"
  by (simp add: yields_def)

lemma yields_bindc: "yields c P \<Longrightarrow> (\<And>x. P x \<Longrightarrow> yields (f x) Q) \<Longrightarrow> yields (bindc c f) Q"
  unfolding yields_def bindc_Some by blast

lemma yields_check: "yields (check b) (\<lambda>_. b)"
  by (simp add: yields_def)

lemma yields_mono: "yields c P \<Longrightarrow> (\<And>x. P x \<Longrightarrow> Q x) \<Longrightarrow> yields c Q"
  by (auto simp: yields_def)

lemma yields_wires: "yields (wires n) (\<lambda>xs. length xs = n)"
  by (simp add: yields_def)

lemma yields_True: "yields c (\<lambda>_. True)"
  by (simp add: yields_def)

lemma yields_conj: "yields c P \<Longrightarrow> yields c Q \<Longrightarrow> yields c (\<lambda>x. P x \<and> Q x)"
  by (auto simp: yields_def)

lemma yields_foldc:
  assumes "P s" "\<And>s x. x \<in> set xs \<Longrightarrow> P s \<Longrightarrow> yields (f s x) P"
  shows "yields (foldc f s xs) P"
  using assms by (induction xs arbitrary: s) (auto intro!: yields_ret yields_bindc)

text \<open>Every step of a satisfied fold is satisfied.\<close>

lemma foldc_steps:
  assumes "\<And>s x. x \<in> set xs \<Longrightarrow> yields (f s x) (\<lambda>_. Q x)"
  shows "yields (foldc f s xs) (\<lambda>_. \<forall>x \<in> set xs. Q x)"
  using assms
proof (induction xs arbitrary: s)
  case (Cons x xs)
  show ?case
    unfolding foldc.simps
    by (rule yields_bindc [where P = "\<lambda>_. Q x"]) (use Cons in \<open>auto elim!: yields_mono\<close>)
qed (simp add: yields_ret)

subsection \<open>Circuits that can be satisfied\<close>

lemma reaches_ret: "reaches (ret x) x"
  unfolding reaches_def by (rule exI [of _ "[]"]) simp

lemma reaches_bindc:
  assumes "reaches c v" "reaches (f v) w"
  shows "reaches (bindc c f) w"
proof -
  obtain g h where "\<forall>rest. c (g @ rest) = Some (v, rest)" "\<forall>rest. f v (h @ rest) = Some (w, rest)"
    using assms by (auto simp: reaches_def)
  then have "\<forall>rest. bindc c f ((g @ h) @ rest) = Some (w, rest)" by (auto simp: bindc_Some)
  then show ?thesis unfolding reaches_def by blast
qed

lemma reaches_check: "b \<Longrightarrow> reaches (check b) ()"
  unfolding reaches_def by (rule exI [of _ "[]"]) simp

lemma reaches_wires: "length xs = n \<Longrightarrow> reaches (wires n) xs"
  unfolding reaches_def by (rule exI [of _ xs]) simp

lemma reaches_wire: "reaches wire x"
  unfolding reaches_def by (rule exI [of _ "[x]"]) simp

subsection \<open>Circuits with one output\<close>

lemma exactlyD: "exactly c v \<Longrightarrow> c ws = Some (out, rest) \<Longrightarrow> out = v"
  by (auto simp: exactly_def yields_def)

lemma exactly_reaches: "exactly c v \<Longrightarrow> reaches c v"
  by (simp add: exactly_def)

lemma exactly_yields: "exactly c v \<Longrightarrow> P v \<Longrightarrow> yields c P"
  by (auto simp: exactly_def yields_def)

lemma exactly_ret [exactly_intros]: "x = v \<Longrightarrow> exactly (ret x) v"
  by (auto simp: exactly_def yields_def reaches_ret)

lemma exactly_bindc: "exactly c v \<Longrightarrow> exactly (f v) w \<Longrightarrow> exactly (bindc c f) w"
  unfolding exactly_def by (auto intro: reaches_bindc yields_bindc)

lemma exactly_check [exactly_intros]: "b \<Longrightarrow> exactly (check b) ()"
  by (auto simp: exactly_def yields_def reaches_check)

lemma exactly_constrained:
  assumes "\<And>xs. length xs = n \<Longrightarrow> P xs \<Longrightarrow> f xs = v" "\<exists>xs. length xs = n \<and> P xs"
  shows "exactly (bindc (wires n) (\<lambda>xs. bindc (check (P xs)) (\<lambda>_. ret (f xs)))) v"
proof -
  obtain xs where xs: "length xs = n" "P xs" "f xs = v" using assms by blast
  have "reaches (bindc (wires n) (\<lambda>xs. bindc (check (P xs)) (\<lambda>_. ret (f xs)))) (f xs)"
    by (intro reaches_bindc [OF reaches_wires [OF xs(1)]] reaches_bindc [OF reaches_check] reaches_ret) (rule xs(2))
  then show ?thesis using assms(1) xs(3) by (auto simp: exactly_def yields_def bindc_Some)
qed

lemma exactly_mapc:
  assumes "\<And>x. x \<in> set xs \<Longrightarrow> exactly (f x) (g x)"
  shows "exactly (mapc f xs) (map g xs)"
  using assms by (induction xs) (auto intro!: exactly_ret exactly_bindc)

lemma exactly_foldc:
  assumes "R s t" "\<And>s t x. x \<in> set xs \<Longrightarrow> R s t \<Longrightarrow> \<exists>s'. exactly (f s x) s' \<and> R s' (g t x)"
  shows "\<exists>s'. exactly (foldc f s xs) s' \<and> R s' (foldl g t xs)"
  using assms
proof (induction xs arbitrary: s t)
  case (Cons x xs)
  obtain s' where s': "exactly (f s x) s'" "R s' (g t x)" using Cons.prems(1) Cons.prems(2) [of x s t] by auto
  obtain s'' where "exactly (foldc f s' xs) s''" "R s'' (foldl g (g t x) xs)"
    using Cons.IH [of s' "g t x"] s'(2) Cons.prems(2) by auto
  then show ?case using s'(1) by (auto intro: exactly_bindc)
qed (auto intro: exactly_ret)

text \<open>Loops over an index range.\<close>

lemma exactly_foldc_upt:
  assumes "\<And>i. m \<le> i \<Longrightarrow> i < n \<Longrightarrow> exactly (f (S i) i) (S (Suc i))" "m \<le> n"
  shows "exactly (foldc f (S m) [m..<n]) (S n)"
  using assms(2,1)
proof (induction "n - m" arbitrary: m)
  case 0
  then show ?case by (simp add: exactly_ret)
next
  case (Suc k)
  then have "[m..<n] = m # [Suc m..<n]" by (simp add: upt_conv_Cons)
  moreover have "exactly (foldc f (S (Suc m)) [Suc m..<n]) (S n)" using Suc by simp
  moreover have "exactly (f (S m) m) (S (Suc m))" using Suc by simp
  ultimately show ?case by (auto intro: exactly_bindc)
qed

lemma yields_foldc_upt:
  assumes "P m s" "\<And>i s. m \<le> i \<Longrightarrow> i < n \<Longrightarrow> P i s \<Longrightarrow> yields (f s i) (P (Suc i))" "m \<le> n"
  shows "yields (foldc f s [m..<n]) (P n)"
  using assms(3,1,2)
proof (induction "n - m" arbitrary: m s)
  case 0
  then show ?case by (simp add: yields_ret)
next
  case (Suc k)
  then have "[m..<n] = m # [Suc m..<n]" by (simp add: upt_conv_Cons)
  moreover have "yields (foldc f t [Suc m..<n]) (P n)" if "P (Suc m) t" for t using Suc that by simp
  moreover have "yields (f s m) (P (Suc m))" using Suc by simp
  ultimately show ?case by (auto intro: yields_bindc)
qed

text \<open>The outputs a prover can choose from.\<close>

definition outputs :: "'a circuit \<Rightarrow> ('a \<Rightarrow> bool) \<Rightarrow> bool" where
  "outputs c P \<longleftrightarrow> yields c P \<and> (\<forall>v. P v \<longrightarrow> reaches c v)"

lemma outputsI: "yields c P \<Longrightarrow> (\<And>v. P v \<Longrightarrow> reaches c v) \<Longrightarrow> outputs c P"
  by (simp add: outputs_def)

lemma outputs_exactly: "exactly c v \<longleftrightarrow> outputs c (\<lambda>x. x = v)"
  by (auto simp: exactly_def outputs_def)

lemma outputs_yields: "outputs c P \<Longrightarrow> yields c P"
  by (simp add: outputs_def)

lemma outputs_reaches: "outputs c P \<Longrightarrow> P v \<Longrightarrow> reaches c v"
  by (simp add: outputs_def)

lemma outputs_cong:
  assumes "\<And>v. P v \<longleftrightarrow> Q v"
  shows "outputs c P \<longleftrightarrow> outputs c Q"
proof -
  have "P = Q" using assms by (intro ext)
  then show ?thesis by simp
qed

end
