(* ===== verification/U32_Gates.thy ===== *)
theory U32_Gates
  imports Circuit
begin

text \<open>
  The gates of \<open>plonky2_u32/src/gates/\<close> on the wires of one operation: multiply-add, addition of
  many values, subtraction with borrow and the range check.  Each gate is the conjunction of its
  polynomial constraints, with its generator (\<open>run_once\<close>) beside it; the theory shows which
  outputs the constraints admit and that the generator's values satisfy them.
\<close>

subsection \<open>Limbs\<close>

definition limb_product :: "nat \<Rightarrow> gf \<Rightarrow> gf" where
  "limb_product max_limb this_limb = prod_list (map (\<lambda>x. this_limb - of_nat x) [0..<max_limb])"

fun limbs_scan :: "nat \<Rightarrow> nat \<Rightarrow> nat \<Rightarrow> gf list" where
  "limbs_scan base 0 acc = []"
| "limbs_scan base (Suc n) acc = of_nat (acc mod base) # limbs_scan base n (acc div base)"

lemma length_limbs_scan [simp, size_simps]: "length (limbs_scan base n acc) = n"
  by (induction n arbitrary: acc) simp_all

lemma limb_product_0: "limb_product b x = 0 \<longleftrightarrow> (\<exists>v < b. x = of_nat v)"
  by (auto simp: limb_product_def prod_list_zero_iff image_iff)

definition limbs_ok :: "nat \<Rightarrow> gf list \<Rightarrow> bool" where
  "limbs_ok b xs \<longleftrightarrow> (\<forall>x \<in> set xs. limb_product b x = 0)"

lemma limbs_ok_simps [simp]:
  "limbs_ok b []" "limbs_ok b (x # xs) \<longleftrightarrow> limb_product b x = 0 \<and> limbs_ok b xs"
  "limbs_ok b (xs @ ys) \<longleftrightarrow> limbs_ok b xs \<and> limbs_ok b ys"
  by (auto simp: limbs_ok_def)

lemma limbs_value:
  "limbs_ok b xs \<Longrightarrow> \<exists>v < b ^ length xs. reduce_with_powers xs (of_nat b) = of_nat v"
proof (induction xs)
  case (Cons x xs)
  then obtain v w where v: "v < b ^ length xs" "reduce_with_powers xs (of_nat b) = of_nat v" "w < b" "x = of_nat w"
    by (auto simp: limb_product_0)
  have "w + b * v < b * Suc v" using v(3) by simp
  also have "\<dots> \<le> b * b ^ length xs" using v(1) by (intro mult_le_mono2) simp
  finally show ?case using v by (intro exI [of _ "w + b * v"]) simp
qed simp

lemma limbs_scan_ok: "0 < b \<Longrightarrow> limbs_ok b (limbs_scan b n v)"
proof (induction n arbitrary: v)
  case (Suc n)
  then have "limb_product b (of_nat (v mod b)) = 0" by (auto simp only: limb_product_0 intro!: exI [of _ "v mod b"]) simp
  then show ?case using Suc by simp
qed simp

lemma limbs_scan_value: "v < b ^ n \<Longrightarrow> reduce_with_powers (limbs_scan b n v) (of_nat b) = of_nat v"
proof (induction n arbitrary: v)
  case (Suc n)
  then have "v div b < b ^ n" by (simp add: less_mult_imp_div_less mult.commute)
  then have "reduce_with_powers (limbs_scan b (Suc n) v) (of_nat b) = of_nat (v mod b + b * (v div b))"
    using Suc.IH by (simp only: limbs_scan.simps reduce_with_powers_simps of_nat_add of_nat_mult)
  then show ?case by (simp only: mod_mult_div_eq)
qed simp

lemma limbs_scan_append:
  "limbs_scan b (m + n) v = limbs_scan b m v @ limbs_scan b n (v div b ^ m)"
  by (induction m arbitrary: v) (simp_all add: div_mult2_eq)

text \<open>The loops run over the limbs from the highest to the lowest.\<close>

definition combine_limbs :: "nat \<Rightarrow> nat \<Rightarrow> gf list \<Rightarrow> gf \<times> gf" where
  "combine_limbs base midpoint limbs =
     foldl (\<lambda>(low, high) j. if j < midpoint then (of_nat base * low + limbs ! j, high) else (low, of_nat base * high + limbs ! j))
       (0, 0) (rev [0..<length limbs])"

lemma combine_limbs_low:
  assumes "n \<le> m" "n \<le> length limbs"
  shows "foldl (\<lambda>(low, high) j. if j < m then (of_nat b * low + limbs ! j, high) else (low, of_nat b * high + limbs ! j))
    (acc, high) (rev [0..<n]) = (reduce_with_powers (take n limbs) (of_nat b) + of_nat b ^ n * acc, high)"
  using assms
proof (induction n arbitrary: acc)
  case (Suc n)
  have "take (Suc n) limbs = take n limbs @ [limbs ! n]" using Suc by (simp add: take_Suc_conv_app_nth)
  moreover have "length (take n limbs) = n" using Suc by simp
  ultimately show ?case using Suc by (simp add: reduce_with_powers_append algebra_simps)
qed simp

lemma combine_limbs_eq:
  assumes "m \<le> length limbs"
  shows "combine_limbs b m limbs = (reduce_with_powers (take m limbs) (of_nat b), reduce_with_powers (drop m limbs) (of_nat b))"
proof -
  let ?f = "\<lambda>(low, high) j. if j < m then (of_nat b * low + limbs ! j, high) else (low, of_nat b * high + limbs ! j)"
  have high: "foldl ?f (0, acc) (rev [m..<m + k]) = (0, reduce_with_powers (take k (drop m limbs)) (of_nat b) + of_nat b ^ k * acc)"
    if "m + k \<le> length limbs" for k acc
    using that
  proof (induction k arbitrary: acc)
    case (Suc k)
    have "take (Suc k) (drop m limbs) = take k (drop m limbs) @ [limbs ! (m + k)]"
      using Suc by (simp add: take_Suc_conv_app_nth)
    moreover have "length (take k (drop m limbs)) = k" using Suc by simp
    ultimately show ?case using Suc by (simp add: reduce_with_powers_append algebra_simps)
  qed simp
  have "[0..<length limbs] = [0..<m] @ [m..<m + (length limbs - m)]"
    using assms upt_add_eq_append [of 0 m "length limbs - m"] by simp
  then have "combine_limbs b m limbs = foldl ?f (foldl ?f (0, 0) (rev [m..<m + (length limbs - m)])) (rev [0..<m])"
    by (simp add: combine_limbs_def)
  then show ?thesis
    using high [of "length limbs - m" 0] combine_limbs_low [of m m limbs b 0] assms by simp
qed

subsection \<open>U32ArithmeticGate\<close>

definition u32_arithmetic_gate :: "gf \<Rightarrow> gf \<Rightarrow> gf \<Rightarrow> gf \<Rightarrow> gf \<Rightarrow> gf \<Rightarrow> gf list \<Rightarrow> bool" where
  "u32_arithmetic_gate multiplicand_0 multiplicand_1 addend output_low output_high iv limbs \<longleftrightarrow>
     (let computed_output = multiplicand_0 * multiplicand_1 + addend;
          diff = of_nat (2 ^ 32 - 1) - output_high;
          hi_not_max = iv * diff - 1;
          hi_not_max_or_lo_zero = hi_not_max * output_low;
          combined_output = output_high * of_nat (2 ^ 32) + output_low;
          (combined_low_limbs, combined_high_limbs) = combine_limbs 4 16 limbs
      in length limbs = 32
       \<and> hi_not_max_or_lo_zero = 0
       \<and> combined_output - computed_output = 0
       \<and> (\<forall>j < 32. limb_product 4 (limbs ! j) = 0)
       \<and> combined_low_limbs - output_low = 0
       \<and> combined_high_limbs - output_high = 0)"

definition u32_arithmetic_generator :: "gf \<Rightarrow> gf \<Rightarrow> gf \<Rightarrow> gf \<times> gf \<times> gf \<times> gf list" where
  "u32_arithmetic_generator multiplicand_0 multiplicand_1 addend =
     (let output = multiplicand_0 * multiplicand_1 + addend;
          output_u64 = canon output;
          output_high_u64 = output_u64 div 2 ^ 32;
          output_low_u64 = output_u64 mod 2 ^ 32;
          diff = 2 ^ 32 - 1 - output_high_u64;
          iv = (if diff = 0 then 0 else inverse (of_nat diff))
      in (of_nat output_low_u64, of_nat output_high_u64, iv, limbs_scan 4 32 output_u64))"

lemma limbs_ok_nth: "limbs_ok b xs \<longleftrightarrow> (\<forall>j < length xs. limb_product b (xs ! j) = 0)"
  by (simp add: limbs_ok_def all_set_conv_all_nth)

lemma limbs_4_value: "limbs_ok 4 xs \<Longrightarrow> length xs = 16 \<Longrightarrow> \<exists>v < 2 ^ 32. reduce_with_powers xs 4 = of_nat v"
  using limbs_value [of 4 xs] by simp

text \<open>Low and high words that represent the canonical value.\<close>

lemma canonical_halves:
  assumes "lo < 2 ^ 32" "hi < 2 ^ 32" "of_nat hi * of_nat (2 ^ 32) + of_nat lo = (c :: gf)" "hi \<noteq> 2 ^ 32 - 1 \<or> lo = 0"
  shows "lo = canon c mod 2 ^ 32" "hi = canon c div 2 ^ 32"
proof -
  have "hi * 2 ^ 32 + lo < goldilocks_order" using assms(1,2,4) by auto
  moreover have "c = of_nat (hi * 2 ^ 32 + lo)" using assms(3) by simp
  ultimately have "canon c = hi * 2 ^ 32 + lo" by (simp only: canon_of_nat mod_less)
  then show "lo = canon c mod 2 ^ 32" "hi = canon c div 2 ^ 32" using assms(1) by simp_all
qed

lemma u32_arithmetic_gate_sound:
  assumes "u32_arithmetic_gate x y z low high iv limbs"
  shows "low = of_nat (canon (x * y + z) mod 2 ^ 32)" "high = of_nat (canon (x * y + z) div 2 ^ 32)"
proof -
  let ?lo = "take 16 limbs" and ?hi = "drop 16 limbs"
  have g: "length limbs = 32" "(iv * (of_nat (2 ^ 32 - 1) - high) - 1) * low = 0"
      "high * of_nat (2 ^ 32) + low = x * y + z" "limbs_ok 4 limbs"
      "low = reduce_with_powers ?lo 4" "high = reduce_with_powers ?hi 4"
    using assms combine_limbs_eq [of 16 limbs 4] by (auto simp: u32_arithmetic_gate_def Let_def limbs_ok_nth)
  have "limbs_ok 4 ?lo" "limbs_ok 4 ?hi" using g(4) by (metis append_take_drop_id limbs_ok_simps(3))+
  then obtain lo hi where v: "lo < 2 ^ 32" "low = of_nat lo" "hi < 2 ^ 32" "high = of_nat hi"
    using limbs_4_value [of ?lo] limbs_4_value [of ?hi] g(1,5,6) by auto
  have "hi \<noteq> 2 ^ 32 - 1 \<or> lo = 0"
  proof (rule ccontr)
    assume *: "\<not> ?thesis"
    then have "low = 0" using g(2) v(4) by simp
    moreover have "lo < goldilocks_order" using v(1) by simp
    ultimately have "lo = 0" using v(2) canon_of_nat [of lo] by simp
    then show False using * by simp
  qed
  then have "lo = canon (x * y + z) mod 2 ^ 32" "hi = canon (x * y + z) div 2 ^ 32"
    using canonical_halves [OF v(1,3)] g(3) v(2,4) by auto
  then show "low = of_nat (canon (x * y + z) mod 2 ^ 32)" "high = of_nat (canon (x * y + z) div 2 ^ 32)"
    using v(2,4) by simp_all
qed

lemma limbs_scan_mod: "0 < b \<Longrightarrow> limbs_scan b n (v mod b ^ n) = limbs_scan b n v"
proof (induction n arbitrary: v)
  case (Suc n)
  have "v mod (b * b ^ n) = b * (v div b mod b ^ n) + v mod b" by (rule mod_mult2_eq)
  then show ?case using Suc by simp
qed simp

lemma canon_halves: "canon x div 2 ^ 32 < 2 ^ 32" "canon x mod 2 ^ 32 < 2 ^ 32"
    "canon x div 2 ^ 32 = 2 ^ 32 - 1 \<Longrightarrow> canon x mod 2 ^ 32 = 0"
    "of_nat (canon x div 2 ^ 32) * of_nat (2 ^ 32) + of_nat (canon x mod 2 ^ 32) = x"
proof -
  have c: "canon x < 18446744069414584321" by (rule canon_less)
  also have "18446744069414584321 \<le> (2 :: nat) ^ 32 * 2 ^ 32" by simp
  finally have "canon x < 2 ^ 32 * 2 ^ 32" .
  then show "canon x div 2 ^ 32 < 2 ^ 32" by (rule less_mult_imp_div_less)
  have split: "canon x div 2 ^ 32 * 2 ^ 32 + canon x mod 2 ^ 32 = canon x" by (rule div_mult_mod_eq)
  show "canon x mod 2 ^ 32 = 0" if "canon x div 2 ^ 32 = 2 ^ 32 - 1"
  proof -
    have "18446744069414584320 + canon x mod 2 ^ 32 = canon x" using split unfolding that by simp
    then show ?thesis using c by linarith
  qed
  have "of_nat (canon x div 2 ^ 32) * of_nat (2 ^ 32) + of_nat (canon x mod 2 ^ 32) = (of_nat (canon x div 2 ^ 32 * 2 ^ 32 + canon x mod 2 ^ 32) :: gf)"
    by (simp only: of_nat_add of_nat_mult)
  then show "of_nat (canon x div 2 ^ 32) * of_nat (2 ^ 32) + of_nat (canon x mod 2 ^ 32) = x" by (simp only: split of_nat_canon)
qed simp

lemma limbs_scan_halves:
  "combine_limbs 4 16 (limbs_scan 4 (16 + k) v) = (of_nat (v mod 2 ^ 32), reduce_with_powers (limbs_scan 4 k (v div 2 ^ 32)) 4)"
proof -
  have "limbs_scan 4 (16 + k) v = limbs_scan 4 16 (v mod 4 ^ 16) @ limbs_scan 4 k (v div 4 ^ 16)"
    by (simp only: limbs_scan_append limbs_scan_mod zero_less_numeral)
  then show ?thesis
    using combine_limbs_eq [of 16 "limbs_scan 4 (16 + k) v" 4] limbs_scan_value [of "v mod 4 ^ 16" 4 16] by simp
qed

lemma u32_arithmetic_generator_ok:
  "case u32_arithmetic_generator x y z of (low, high, iv, limbs) \<Rightarrow> u32_arithmetic_gate x y z low high iv limbs"
proof -
  let ?v = "canon (x * y + z)"
  let ?lo = "?v mod 2 ^ 32" and ?hi = "?v div 2 ^ 32"
  let ?diff = "2 ^ 32 - 1 - ?hi :: nat"
  let ?iv = "if ?diff = 0 then 0 else inverse (of_nat ?diff :: gf)"
  note h = canon_halves [of "x * y + z"]
  have diff: "of_nat (2 ^ 32 - 1) - of_nat ?hi = (of_nat ?diff :: gf)" using h(1) by (intro of_nat_diff [symmetric]) simp
  have one: "(?iv * of_nat ?diff - 1) * of_nat ?lo = 0"
  proof (cases "?diff = 0")
    case True
    then have "?hi = 2 ^ 32 - 1" using h(1) by linarith
    then show ?thesis using h(3) by simp
  next
    case False
    then have "(of_nat ?diff :: gf) \<noteq> 0" using of_nat_gf_inject [of ?diff 0] by simp
    then show ?thesis using False by simp
  qed
  have comb: "combine_limbs 4 16 (limbs_scan 4 32 ?v) = (of_nat ?lo, of_nat ?hi)"
    using limbs_scan_halves [of 16 ?v] limbs_scan_value [of ?hi 4 16] h(1) by simp
  have "u32_arithmetic_gate x y z (of_nat ?lo) (of_nat ?hi) ?iv (limbs_scan 4 32 ?v)"
    unfolding u32_arithmetic_gate_def Let_def comb diff
    using one h(4) limbs_scan_ok [of 4 32 ?v] by (simp add: limbs_ok_nth)
  then show ?thesis by (simp only: u32_arithmetic_generator_def Let_def prod.case)
qed

subsection \<open>U32AddManyGate\<close>

definition u32_add_many_gate :: "gf list \<Rightarrow> gf \<Rightarrow> gf \<Rightarrow> gf \<Rightarrow> gf list \<Rightarrow> bool" where
  "u32_add_many_gate addends carry output_result output_carry limbs \<longleftrightarrow>
     (let computed_output = foldl (+) 0 addends + carry;
          combined_output = output_carry * of_nat (2 ^ 32) + output_result;
          (combined_result_limbs, combined_carry_limbs) = combine_limbs 4 16 limbs
      in length limbs = 18
       \<and> combined_output - computed_output = 0
       \<and> (\<forall>j < 18. limb_product 4 (limbs ! j) = 0)
       \<and> combined_result_limbs - output_result = 0
       \<and> combined_carry_limbs - output_carry = 0)"

definition u32_add_many_generator :: "gf list \<Rightarrow> gf \<Rightarrow> gf \<times> gf \<times> gf list" where
  "u32_add_many_generator addends carry =
     (let output = foldl (+) 0 addends + carry;
          output_u64 = canon output;
          output_carry_u64 = output_u64 div 2 ^ 32;
          output_result_u64 = output_u64 mod 2 ^ 32
      in (of_nat output_result_u64, of_nat output_carry_u64, limbs_scan 4 16 output_result_u64 @ limbs_scan 4 2 output_carry_u64))"

lemma u32_add_many_gate_sound:
  assumes "u32_add_many_gate addends carry result cout limbs"
  shows "canon (foldl (+) 0 addends + carry) < 2 ^ 36
    \<and> result = of_nat (canon (foldl (+) 0 addends + carry) mod 2 ^ 32) \<and> cout = of_nat (canon (foldl (+) 0 addends + carry) div 2 ^ 32)"
proof -
  let ?lo = "take 16 limbs" and ?hi = "drop 16 limbs" and ?c = "foldl (+) 0 addends + carry"
  have g: "length limbs = 18" "cout * of_nat (2 ^ 32) + result = ?c" "limbs_ok 4 limbs"
      "result = reduce_with_powers ?lo 4" "cout = reduce_with_powers ?hi 4"
    using assms combine_limbs_eq [of 16 limbs 4] by (auto simp: u32_add_many_gate_def Let_def limbs_ok_nth)
  have "limbs_ok 4 ?lo" "limbs_ok 4 ?hi" using g(3) by (metis append_take_drop_id limbs_ok_simps(3))+
  then obtain lo hi where v: "lo < 2 ^ 32" "result = of_nat lo" "hi < 16" "cout = of_nat hi"
    using limbs_4_value [of ?lo] limbs_value [of 4 ?hi] g(1,4,5) by auto
  have "lo = canon ?c mod 2 ^ 32" "hi = canon ?c div 2 ^ 32"
    using canonical_halves [OF v(1), of hi ?c] g(2) v by auto
  then show ?thesis using v by simp
qed

lemma u32_add_many_generator_ok:
  assumes "canon (foldl (+) 0 addends + carry) < 2 ^ 36"
  shows "case u32_add_many_generator addends carry of (result, cout, limbs) \<Rightarrow> u32_add_many_gate addends carry result cout limbs"
proof -
  let ?c = "foldl (+) 0 addends + carry"
  let ?lo = "canon ?c mod 2 ^ 32" and ?hi = "canon ?c div 2 ^ 32"
  have hi: "?hi < 4 ^ 2" using assms by (simp add: less_mult_imp_div_less)
  have "limbs_scan 4 16 ?lo @ limbs_scan 4 2 ?hi = limbs_scan 4 (16 + 2) (canon ?c)"
    using limbs_scan_append [of 4 16 2 "canon ?c"] limbs_scan_mod [of 4 16 "canon ?c"] by simp
  then have "combine_limbs 4 16 (limbs_scan 4 16 ?lo @ limbs_scan 4 2 ?hi) = (of_nat ?lo, of_nat ?hi)"
    using limbs_scan_halves [of 2 "canon ?c"] limbs_scan_value [OF hi] by simp
  moreover have "limbs_ok 4 (limbs_scan 4 16 ?lo @ limbs_scan 4 2 ?hi)" by (simp add: limbs_scan_ok)
  ultimately show ?thesis
    using canon_halves(4) [of ?c]
    by (simp add: u32_add_many_generator_def u32_add_many_gate_def Let_def limbs_ok_nth)
qed

subsection \<open>U32SubtractionGate\<close>

definition u32_subtraction_gate :: "gf \<Rightarrow> gf \<Rightarrow> gf \<Rightarrow> gf \<Rightarrow> gf \<Rightarrow> gf list \<Rightarrow> bool" where
  "u32_subtraction_gate input_x input_y input_borrow output_result output_borrow limbs \<longleftrightarrow>
     (let result_initial = input_x - input_y - input_borrow;
          (combined_limbs, _) = combine_limbs 4 16 limbs
      in length limbs = 16
       \<and> output_result - (result_initial + of_nat (2 ^ 32) * output_borrow) = 0
       \<and> (\<forall>j < 16. limb_product 4 (limbs ! j) = 0)
       \<and> combined_limbs - output_result = 0
       \<and> output_borrow * (1 - output_borrow) = 0)"

definition u32_subtraction_generator :: "gf \<Rightarrow> gf \<Rightarrow> gf \<Rightarrow> gf \<times> gf \<times> gf list" where
  "u32_subtraction_generator input_x input_y input_borrow =
     (let result_initial = input_x - input_y - input_borrow;
          result_initial_u64 = canon result_initial;
          output_borrow = (if result_initial_u64 > 2 ^ 32 then 1 else 0);
          output_result = result_initial + of_nat (2 ^ 32) * output_borrow
      in (output_result, output_borrow, limbs_scan 4 16 (canon output_result)))"

text \<open>The result and the new borrow of a subtraction of 32-bit limbs.\<close>

definition sub_borrow :: "nat \<Rightarrow> nat \<Rightarrow> nat \<Rightarrow> nat \<times> nat" where
  "sub_borrow x y b = (if x < y + b then (x + 2 ^ 32 - y - b, 1) else (x - y - b, 0))"

lemma sub_borrow_field:
  assumes "x < 2 ^ 32" "y < 2 ^ 32" "b \<le> 1" "sub_borrow x y b = (r, b')"
  shows "of_nat r = (of_nat x - of_nat y - of_nat b + of_nat (2 ^ 32) * of_nat b' :: gf)" "r < 2 ^ 32" "b' \<le> 1" "int x - int y - int b = int r - 2 ^ 32 * int b'"
proof -
  have i: "int x - int y - int b = int r - 2 ^ 32 * int b'"
    using assms(1-4) by (auto simp: sub_borrow_def split: if_splits)
  have "of_int (int r) = (of_int (int x - int y - int b + 2 ^ 32 * int b') :: gf)" using i by simp
  then show "of_nat r = (of_nat x - of_nat y - of_nat b + of_nat (2 ^ 32) * of_nat b' :: gf)" by simp
  show "r < 2 ^ 32" "b' \<le> 1" using assms by (auto simp: sub_borrow_def split: if_splits)
  show "int x - int y - int b = int r - 2 ^ 32 * int b'" by (rule i)
qed

lemma u32_subtraction_gate_iff:
  assumes "x < 2 ^ 32" "y < 2 ^ 32" "b \<le> 1"
  shows "(\<exists>limbs. u32_subtraction_gate (of_nat x) (of_nat y) (of_nat b) result bout limbs)
    \<longleftrightarrow> sub_borrow x y b = (canon result, canon bout)"
proof
  assume "\<exists>limbs. u32_subtraction_gate (of_nat x) (of_nat y) (of_nat b) result bout limbs"
  then obtain limbs where g: "length limbs = 16" "result = of_nat x - of_nat y - of_nat b + of_nat (2 ^ 32) * bout"
      "limbs_ok 4 limbs" "result = reduce_with_powers limbs 4" "bout = 0 \<or> bout = 1"
    using combine_limbs_eq [of 16 _ 4] by (auto simp: u32_subtraction_gate_def Let_def limbs_ok_nth)
  then obtain r where r: "r < 2 ^ 32" "result = of_nat r" using limbs_4_value [of limbs] by auto
  obtain k where k: "bout = of_nat k" "k \<le> 1" using g(5) that [of 0] that [of 1] by auto
  obtain r' k' where s: "sub_borrow x y b = (r', k')" by (cases "sub_borrow x y b")
  note f = sub_borrow_field [OF assms s]
  have "of_nat (r + 2 ^ 32 * k') = (of_nat (r' + 2 ^ 32 * k) :: gf)"
    using g(2) [unfolded r(2) k(1)] f(1) by (simp only: of_nat_add of_nat_mult add.assoc) (simp only: add.commute add.left_commute)
  moreover have "r + 2 ^ 32 * k' < goldilocks_order" "r' + 2 ^ 32 * k < goldilocks_order"
  proof -
    have "(2 :: nat) ^ 32 * k \<le> 2 ^ 32" "(2 :: nat) ^ 32 * k' \<le> 2 ^ 32" using f(3) k(2) by simp_all
    then show "r + 2 ^ 32 * k' < goldilocks_order" "r' + 2 ^ 32 * k < goldilocks_order" using r(1) f(2) by simp_all
  qed
  ultimately have eq: "r + 2 ^ 32 * k' = r' + 2 ^ 32 * k" using of_nat_gf_inject by metis
  have "k = k'"
    using eq r(1) f(2,3) k(2) by (cases "k = 0"; cases "k' = 0") auto
  then show "sub_borrow x y b = (canon result, canon bout)" using s eq r k by simp
next
  assume s: "sub_borrow x y b = (canon result, canon bout)"
  note f = sub_borrow_field [OF assms s]
  have bout: "bout * (1 - bout) = 0"
  proof (cases "canon bout = 0")
    case True
    then have "bout = 0" using of_nat_canon [of bout] by simp
    then show ?thesis by simp
  next
    case False
    then have "canon bout = 1" using f(3) by simp
    then have "bout = 1" using of_nat_canon [of bout] by simp
    then show ?thesis by simp
  qed
  have limbs: "fst (combine_limbs 4 16 (limbs_scan 4 16 (canon result))) = result"
    using f(2) limbs_scan_value [of "canon result" 4 16] combine_limbs_eq [of 16 "limbs_scan 4 16 (canon result)" 4] by simp
  have "u32_subtraction_gate (of_nat x) (of_nat y) (of_nat b) result bout (limbs_scan 4 16 (canon result))"
    using f(1) limbs bout limbs_scan_ok [of 4 16 "canon result"]
    by (simp add: u32_subtraction_gate_def Let_def limbs_ok_nth case_prod_unfold)
  then show "\<exists>limbs. u32_subtraction_gate (of_nat x) (of_nat y) (of_nat b) result bout limbs" by blast
qed

lemma u32_subtraction_generator_eq:
  assumes "x < 2 ^ 32" "y < 2 ^ 32" "b \<le> 1" "sub_borrow x y b = (r, b')"
  shows "u32_subtraction_generator (of_nat x) (of_nat y) (of_nat b) = (of_nat r, of_nat b', limbs_scan 4 16 r)"
proof -
  note f = sub_borrow_field [OF assms]
  have init: "of_nat x - of_nat y - of_nat b = (of_int (int r - 2 ^ 32 * int b') :: gf)"
    using f(4) by (metis of_int_diff of_int_of_nat_eq)
  have "canon (of_nat x - of_nat y - of_nat b) > 2 ^ 32 \<longleftrightarrow> b' = 1"
  proof (cases "b' = 0")
    case True
    then have "canon (of_nat x - of_nat y - of_nat b) = r" using init f(2) by simp
    then show ?thesis using f(2) True by simp
  next
    case False
    then have "b' = 1" using f(3) by simp
    then have "of_nat x - of_nat y - of_nat b = (of_int (int (r + (18446744069414584321 - 2 ^ 32)) - int goldilocks_order) :: gf)"
      using init f(2) by simp
    also have "\<dots> = of_nat (r + (18446744069414584321 - 2 ^ 32)) - of_nat goldilocks_order" by (simp only: of_int_diff of_int_of_nat_eq)
    also have "(of_nat goldilocks_order :: gf) = 0" using of_nat_gf_eq_iff [of goldilocks_order 0] by simp
    finally have "canon (of_nat x - of_nat y - of_nat b) = r + (18446744069414584321 - 2 ^ 32)"
      using f(2) by (simp only: diff_0_right canon_of_nat) simp
    then show ?thesis using \<open>b' = 1\<close> by simp
  qed
  moreover have "canon (of_nat r) = r" using f(2) by simp
  ultimately show ?thesis
  proof -
    have "b' = 0 \<or> b' = 1" using f(3) by auto
    then show ?thesis
      using f(1) \<open>canon _ > 2 ^ 32 \<longleftrightarrow> b' = 1\<close> \<open>canon (of_nat r) = r\<close> by (elim disjE) (simp_all add: u32_subtraction_generator_def Let_def)
  qed
qed

subsection \<open>U32RangeCheckGate\<close>

definition u32_range_check_gate :: "gf list \<Rightarrow> gf list list \<Rightarrow> bool" where
  "u32_range_check_gate input_limbs aux_limbs \<longleftrightarrow>
     length aux_limbs = length input_limbs
   \<and> (\<forall>i < length input_limbs.
        length (aux_limbs ! i) = 16
      \<and> reduce_with_powers (aux_limbs ! i) (of_nat 4) - input_limbs ! i = 0
      \<and> (\<forall>aux_limb \<in> set (aux_limbs ! i). limb_product 4 aux_limb = 0))"

definition u32_range_check_generator :: "gf list \<Rightarrow> gf list list" where
  "u32_range_check_generator input_limbs = map (\<lambda>l. limbs_scan 4 16 (canon l mod 2 ^ 32)) input_limbs"

lemma u32_range_check_gate_iff:
  "(\<exists>aux. u32_range_check_gate xs aux) \<longleftrightarrow> (\<forall>x \<in> set xs. canon x < 2 ^ 32)"
proof
  assume "\<exists>aux. u32_range_check_gate xs aux"
  then obtain aux where a: "length aux = length xs" "\<forall>i < length xs. length (aux ! i) = 16 \<and> reduce_with_powers (aux ! i) 4 = xs ! i \<and> limbs_ok 4 (aux ! i)"
    by (auto simp: u32_range_check_gate_def limbs_ok_def)
  show "\<forall>x \<in> set xs. canon x < 2 ^ 32"
  proof
    fix x assume "x \<in> set xs"
    then obtain i where i: "i < length xs" "x = xs ! i" by (auto simp: in_set_conv_nth)
    obtain v where v: "v < 2 ^ 32" "x = of_nat v" using limbs_4_value [of "aux ! i"] a(2) i by metis
    then show "canon x < 2 ^ 32" by simp
  qed
next
  assume a: "\<forall>x \<in> set xs. canon x < 2 ^ 32"
  have "u32_range_check_gate xs (u32_range_check_generator xs)"
  proof -
    have "reduce_with_powers (limbs_scan 4 16 (canon x mod 2 ^ 32)) 4 = x" if "x \<in> set xs" for x
      using a that limbs_scan_value [of "canon x" 4 16] by simp
    then show ?thesis using limbs_scan_ok [of 4 16] by (simp add: u32_range_check_gate_def u32_range_check_generator_def limbs_ok_def)
  qed
  then show "\<exists>aux. u32_range_check_gate xs aux" by blast
qed

end
