(* ===== verification/U32_Gadgets.thy ===== *)
theory U32_Gadgets
  imports U32_Gates
begin

text \<open>
  The methods of \<open>CircuitBuilderU32\<close> (\<open>plonky2_u32/src/gadgets/arithmetic_u32.rs\<close>,
  \<open>range_check.rs\<close>) and the split of a target in base \<open>B\<close>
  (\<open>plonky2/src/gadgets/split_base.rs\<close>).  A \<open>U32Target\<close> is a target whose value is meant to be below $2^{32}$; the
  outputs of the gates are, the inputs are assumed to be.
\<close>

subsection \<open>Multiplication and addition\<close>

definition mul_add_u32 :: "gf \<Rightarrow> gf \<Rightarrow> gf \<Rightarrow> (gf \<times> gf) circuit" where
  "mul_add_u32 x y z =
     bindc (wires 35) (\<lambda>ws.
       let output_low = ws ! 0; output_high = ws ! 1; iv = ws ! 2; limbs = drop 3 ws in
       bindc (check (u32_arithmetic_gate x y z output_low output_high iv limbs)) (\<lambda>_.
         ret (output_low, output_high)))"

text \<open>Without a gate when all three inputs are constants of the builder.\<close>

definition arithmetic_u32_special_cases :: "target \<Rightarrow> target \<Rightarrow> target \<Rightarrow> (target \<times> target) option" where
  "arithmetic_u32_special_cases x y z =
     (case (target_as_constant x, target_as_constant y, target_as_constant z) of
        (Some xx, Some yy, Some b) \<Rightarrow>
          let s = canon (xx * yy + b)
          in Some (TConst (of_nat (s mod 2 ^ 32)), TConst (of_nat (s div 2 ^ 32)))
      | _ \<Rightarrow> None)"

definition add_u32 :: "gf \<Rightarrow> gf \<Rightarrow> (gf \<times> gf) circuit" where
  "add_u32 a b = mul_add_u32 a 1 b"

definition mul_u32 :: "gf \<Rightarrow> gf \<Rightarrow> (gf \<times> gf) circuit" where
  "mul_u32 a b = mul_add_u32 a b 0"

definition add_many_gate_u32 :: "gf list \<Rightarrow> gf \<Rightarrow> (gf \<times> gf) circuit" where
  "add_many_gate_u32 to_add carry =
     bindc (wires 20) (\<lambda>ws.
       let output_low = ws ! 0; output_high = ws ! 1; limbs = drop 2 ws in
       bindc (check (u32_add_many_gate to_add carry output_low output_high limbs)) (\<lambda>_.
         ret (output_low, output_high)))"

definition add_many_u32 :: "gf list \<Rightarrow> (gf \<times> gf) circuit" where
  "add_many_u32 to_add =
     (case to_add of
        [] \<Rightarrow> ret (0, 0)
      | [x] \<Rightarrow> ret (x, 0)
      | [x, y] \<Rightarrow> add_u32 x y
      | _ \<Rightarrow> add_many_gate_u32 to_add 0)"

definition add_u32s_with_carry :: "gf list \<Rightarrow> gf \<Rightarrow> (gf \<times> gf) circuit" where
  "add_u32s_with_carry to_add carry =
     (if length to_add = 1 then add_u32 (to_add ! 0) carry else add_many_gate_u32 to_add carry)"

definition sub_u32 :: "gf \<Rightarrow> gf \<Rightarrow> gf \<Rightarrow> (gf \<times> gf) circuit" where
  "sub_u32 x y borrow =
     bindc (wires 18) (\<lambda>ws.
       let output_result = ws ! 0; output_borrow = ws ! 1; limbs = drop 2 ws in
       bindc (check (u32_subtraction_gate x y borrow output_result output_borrow limbs)) (\<lambda>_.
         ret (output_result, output_borrow)))"

definition range_check_u32_circuit :: "gf list \<Rightarrow> unit circuit" where
  "range_check_u32_circuit vals =
     bindc (mapc (\<lambda>_. wires 16) vals) (\<lambda>aux. check (u32_range_check_gate vals aux))"

subsection \<open>What they compute\<close>

abbreviation halves :: "gf \<Rightarrow> gf \<times> gf" where
  "halves c \<equiv> (of_nat (canon c mod 2 ^ 32), of_nat (canon c div 2 ^ 32))"

lemma special_cases_u32:
  "arithmetic_u32_special_cases x y z = Some (low, high) \<Longrightarrow>
     (eval \<sigma> low, eval \<sigma> high) = halves (eval \<sigma> x * eval \<sigma> y + eval \<sigma> z)"
  by (auto simp: arithmetic_u32_special_cases_def Let_def target_as_constant_Some split: option.splits)

lemma mul_add_u32_exactly [exactly_intros]: "halves (x * y + z) = v \<Longrightarrow> exactly (mul_add_u32 x y z) v"
proof -
  obtain low high iv limbs where g: "u32_arithmetic_generator x y z = (low, high, iv, limbs)"
    by (cases "u32_arithmetic_generator x y z")
  then have ok: "u32_arithmetic_gate x y z low high iv limbs" using u32_arithmetic_generator_ok [of x y z] by simp
  then have "length limbs = 32" by (auto simp: u32_arithmetic_gate_def Let_def)
  with ok have "\<exists>ws. length ws = 35 \<and> u32_arithmetic_gate x y z (ws ! 0) (ws ! 1) (ws ! 2) (drop 3 ws)"
    by (intro exI [of _ "low # high # iv # limbs"]) simp
  then show "halves (x * y + z) = v \<Longrightarrow> exactly (mul_add_u32 x y z) v"
    unfolding mul_add_u32_def Let_def by (intro exactly_constrained) (auto dest: u32_arithmetic_gate_sound)
qed

lemma add_u32_exactly [exactly_intros]: "halves (x + y) = v \<Longrightarrow> exactly (add_u32 x y) v"
  by (simp add: add_u32_def mul_add_u32_exactly)

lemma mul_u32_exactly [exactly_intros]: "halves (x * y) = v \<Longrightarrow> exactly (mul_u32 x y) v"
  by (simp add: mul_u32_def mul_add_u32_exactly)

lemma add_many_gate_exactly:
  assumes "canon (sum_list xs + c) < 2 ^ 36" "halves (sum_list xs + c) = v"
  shows "exactly (add_many_gate_u32 xs c) v"
proof -
  have s: "foldl (+) 0 xs = sum_list xs" by (simp add: foldl_add_sum_list)
  obtain low high limbs where g: "u32_add_many_generator xs c = (low, high, limbs)" by (cases "u32_add_many_generator xs c")
  then have ok: "u32_add_many_gate xs c low high limbs" using u32_add_many_generator_ok [of xs c] assms(1) by (simp add: s)
  then have "length limbs = 18" by (auto simp: u32_add_many_gate_def Let_def)
  with ok have "\<exists>ws. length ws = 20 \<and> u32_add_many_gate xs c (ws ! 0) (ws ! 1) (drop 2 ws)"
    by (intro exI [of _ "low # high # limbs"]) simp
  then show ?thesis
    unfolding add_many_gate_u32_def Let_def using assms(2) u32_add_many_gate_sound [of xs c]
    by (intro exactly_constrained) (auto simp: s)
qed

lemma add_many_u32_exactly [exactly_intros]:
  assumes "\<forall>x \<in> set xs. canon x < 2 ^ 32" "length xs \<le> 16" "halves (sum_list xs) = v"
  shows "exactly (add_many_u32 xs) v"
proof -
  have sum_bound: "\<exists>n. sum_list xs = of_nat n \<and> n \<le> length xs * 4294967295" if "\<forall>x \<in> set xs. canon x < 2 ^ 32" for xs
    using that
  proof (induction xs)
    case (Cons x xs)
    then obtain n where "sum_list xs = of_nat n" "n \<le> length xs * 4294967295" by auto
    then show ?case using Cons.prems of_nat_canon [of x] by (intro exI [of _ "canon x + n"]) auto
  qed (auto intro: exI [of _ 0])
  obtain n where n: "sum_list xs = of_nat n" "n \<le> length xs * 4294967295" using sum_bound assms(1) by blast
  have "n < 2 ^ 36" using n(2) assms(2) by simp
  then have "canon (sum_list xs) < 2 ^ 36" by (simp add: n)
  moreover have "canon x < 2 ^ 32 \<Longrightarrow> halves x = (x, 0)" for x using of_nat_canon [of x] by simp
  ultimately show ?thesis
    using assms unfolding add_many_u32_def
    by (auto split: list.splits intro!: exactly_ret add_u32_exactly add_many_gate_exactly)
qed

lemma add_u32s_with_carry_exactly [exactly_intros]:
  "canon (sum_list xs + c) < 2 ^ 36 \<Longrightarrow> halves (sum_list xs + c) = v \<Longrightarrow> exactly (add_u32s_with_carry xs c) v"
  unfolding add_u32s_with_carry_def
  by (auto simp: length_Suc_conv intro!: add_u32_exactly add_many_gate_exactly)

lemma sub_u32_exactly [exactly_intros]:
  assumes "x < 2 ^ 32" "y < 2 ^ 32" "b \<le> 1" "map_prod of_nat of_nat (sub_borrow x y b) = v"
  shows "exactly (sub_u32 (of_nat x) (of_nat y) (of_nat b)) v"
proof -
  obtain r b' where s: "sub_borrow x y b = (r, b')" by (cases "sub_borrow x y b")
  note f = sub_borrow_field [OF assms(1-3) s]
  have c: "canon (of_nat r) = r" "canon (of_nat b') = b'" using f(2,3) by simp_all
  have iff: "u32_subtraction_gate (of_nat x) (of_nat y) (of_nat b) result bout limbs \<Longrightarrow> result = of_nat r \<and> bout = of_nat b'"
    for result bout limbs
    using u32_subtraction_gate_iff [OF assms(1-3), of result bout] s c by (metis of_nat_canon prod.inject)
  have ex: "\<exists>limbs. u32_subtraction_gate (of_nat x) (of_nat y) (of_nat b) (of_nat r) (of_nat b') limbs"
    using u32_subtraction_gate_iff [OF assms(1-3), of "of_nat r" "of_nat b'"] s c by simp
  from ex obtain limbs where l: "u32_subtraction_gate (of_nat x) (of_nat y) (of_nat b) (of_nat r) (of_nat b') limbs" by blast
  then have "length limbs = 16" by (auto simp: u32_subtraction_gate_def Let_def)
  with l have "\<exists>ws. length ws = 18 \<and> u32_subtraction_gate (of_nat x) (of_nat y) (of_nat b) (ws ! 0) (ws ! 1) (drop 2 ws)"
    by (intro exI [of _ "of_nat r # of_nat b' # limbs"]) simp
  then show ?thesis
    unfolding sub_u32_def Let_def using iff s assms(4) by (intro exactly_constrained) (auto simp: map_prod_def)
qed

lemma range_check_u32_yields: "yields (range_check_u32_circuit xs) (\<lambda>_. \<forall>x \<in> set xs. canon x < 2 ^ 32)"
proof -
  have "u32_range_check_gate xs aux \<Longrightarrow> x \<in> set xs \<Longrightarrow> canon x < 2 ^ 32" for aux x
    using u32_range_check_gate_iff [of xs] by blast
  then show ?thesis by (auto simp: yields_def range_check_u32_circuit_def bindc_Some)
qed

lemma range_check_u32_exactly [exactly_intros]:
  assumes "\<forall>x \<in> set xs. canon x < 2 ^ 32"
  shows "exactly (range_check_u32_circuit xs) ()"
proof -
  obtain aux where aux: "u32_range_check_gate xs aux" using assms u32_range_check_gate_iff by blast
  then have "length aux = length xs" "\<forall>a \<in> set aux. length a = 16" by (auto simp: u32_range_check_gate_def in_set_conv_nth)
  then have "reaches (mapc (\<lambda>_. wires 16) xs) aux"
  proof (induction xs aux rule: list_induct2')
    case (4 x xs a aux)
    then show ?case by (auto intro!: reaches_bindc [where v = a] reaches_bindc [where v = aux] reaches_wires reaches_ret)
  qed (auto intro: reaches_ret)
  then show ?thesis
    unfolding range_check_u32_circuit_def exactly_def using aux
    by (auto intro!: reaches_bindc [where v = aux] reaches_check simp: yields_def)
qed

subsection \<open>Splitting in base B\<close>

definition split_le_base :: "nat \<Rightarrow> gf \<Rightarrow> nat \<Rightarrow> gf list circuit" where
  "split_le_base B x num_limbs =
     bindc (wires num_limbs) (\<lambda>limbs. bindc (check (base_sum_gate B x limbs)) (\<lambda>_. ret limbs))"

lemma base_sum_gate_limbs: "base_sum_gate b x limbs \<longleftrightarrow> reduce_with_powers limbs (of_nat b) = x \<and> limbs_ok b limbs"
  by (simp add: base_sum_gate_def limbs_ok_def limb_product_def Let_def)

lemma limbs_scan_unique:
  assumes "limbs_ok b xs" "b ^ length xs \<le> goldilocks_order"
  shows "xs = limbs_scan b (length xs) (canon (reduce_with_powers xs (of_nat b)))"
  using assms
proof (induction xs)
  case (Cons x xs)
  obtain w where w: "w < b" "x = of_nat w" using Cons.prems(1) by (auto simp: limb_product_0)
  obtain v where v: "v < b ^ length xs" "reduce_with_powers xs (of_nat b) = of_nat v" using limbs_value Cons.prems(1) by auto
  have "w + b * v < b * Suc v" using w(1) by simp
  also have "\<dots> \<le> b * b ^ length xs" using v(1) by (intro mult_le_mono2) simp
  finally have "w + b * v < goldilocks_order" using Cons.prems(2) by simp
  then have c: "canon (reduce_with_powers (x # xs) (of_nat b)) = w + b * v"
    using canon_of_nat [of "w + b * v"] by (simp add: w(2) v(2))
  have le: "b ^ length xs \<le> b ^ length (x # xs)" using w(1) by simp
  then have "v < goldilocks_order" using v(1) Cons.prems(2) by linarith
  then have "canon (reduce_with_powers xs (of_nat b)) = v" by (simp only: v(2) canon_of_nat mod_less)
  then have "xs = limbs_scan b (length xs) v" using Cons.IH Cons.prems le by simp
  then show ?case unfolding c using w by simp
qed simp

lemma split_le_base_outputs:
  assumes "b ^ n \<le> goldilocks_order" "0 < b"
  shows "outputs (split_le_base b x n) (\<lambda>limbs. canon x < b ^ n \<and> limbs = limbs_scan b n (canon x))"
proof (rule outputsI)
  show "yields (split_le_base b x n) (\<lambda>limbs. canon x < b ^ n \<and> limbs = limbs_scan b n (canon x))"
    unfolding yields_def split_le_base_def
  proof (intro allI impI)
    fix ws limbs rest
    assume "bindc (wires n) (\<lambda>limbs. bindc (check (base_sum_gate b x limbs)) (\<lambda>_. ret limbs)) ws = Some (limbs, rest)"
    then have run: "length limbs = n" "reduce_with_powers limbs (of_nat b) = x" "limbs_ok b limbs"
      by (auto simp: bindc_Some base_sum_gate_limbs)
    obtain v where "v < b ^ n" "x = of_nat v" using limbs_value [OF run(3)] run(1,2) by auto
    moreover have "v < goldilocks_order" using calculation(1) assms(1) by linarith
    ultimately have "canon x < b ^ n" by (simp only: canon_of_nat mod_less)
    then show "canon x < b ^ n \<and> limbs = limbs_scan b n (canon x)" using limbs_scan_unique [OF run(3)] run(1,2) assms(1) by simp
  qed
  fix limbs assume l: "canon x < b ^ n \<and> limbs = limbs_scan b n (canon x)"
  then have g: "length limbs = n" "base_sum_gate b x limbs"
    using limbs_scan_ok [OF assms(2)] limbs_scan_value [of "canon x" b n] by (simp_all add: base_sum_gate_limbs)
  show "reaches (split_le_base b x n) limbs"
    unfolding split_le_base_def by (rule reaches_bindc [OF reaches_wires [OF g(1)]], rule reaches_bindc [OF reaches_check [OF g(2)]], rule reaches_ret)
qed

lemma split_le_base_exactly:
  assumes "canon x < b ^ n" "b ^ n \<le> goldilocks_order" "0 < b"
  shows "exactly (split_le_base b x n) (limbs_scan b n (canon x))"
  using split_le_base_outputs [OF assms(2,3), of x] assms(1) by (simp add: outputs_exactly)

subsection \<open>On machine words\<close>

definition u32_val :: "u32 \<Rightarrow> gf" where
  "u32_val w = of_nat (unat w)"

lemma canon_u32_val [simp]: "canon (u32_val w) = unat w"
proof -
  have "unat w < goldilocks_order" using unat_u32_less [of w] by linarith
  then show ?thesis by (simp only: u32_val_def canon_of_nat mod_less)
qed

lemma u32_val_inject [simp]: "u32_val v = u32_val w \<longleftrightarrow> v = w"
  by (metis canon_u32_val word_unat_eq_iff)

lemma halves_add_words: "fst (halves (u32_val v + u32_val w)) = u32_val (v + w)"
proof -
  have "canon (u32_val v + u32_val w) = unat v + unat w"
  proof -
    have "unat v + unat w < goldilocks_order" using unat_u32_less [of v] unat_u32_less [of w] by linarith
    then show ?thesis by (simp only: u32_val_def of_nat_add [symmetric] canon_of_nat mod_less)
  qed
  then show ?thesis by (simp add: u32_val_def unat_word_ariths(1))
qed

end
