(* ===== verification/Sha256_Circuit.thy ===== *)
theory Sha256_Circuit
  imports Sha256_Spec U32_Gadgets
begin

text \<open>
  The compression function of \<open>plonky2_sha256/src/circuit.rs\<close> as a circuit on 32-bit targets, and
  that it computes the SHA-256 compression function on machine words.
\<close>

subsection \<open>Bits and words\<close>

text \<open>Limbs of a \<open>BaseSumGate\<close> row under the circuit configurations used: \<open>new_from_config\<close>.\<close>

definition base_sum_num_limbs :: nat where
  "base_sum_num_limbs = 63"

definition le_sum :: "gf list \<Rightarrow> gf circuit" where
  "le_sum bits =
     bindc (wires (if length bits - 1 \<le> num_base_arithmetic_ops_per_gate then 1 else base_sum_num_limbs + 1)) (\<lambda>ws.
       bindc (check (le_sum_circuit base_sum_num_limbs bits (tl ws) (hd ws))) (\<lambda>_. ret (hd ws)))"

definition u32_to_bits_target :: "gf \<Rightarrow> gf list circuit" where
  "u32_to_bits_target a = bindc (split_le_base 2 a 32) (\<lambda>bit_targets. ret (map (\<lambda>i. bit_targets ! i) (rev [0..<32])))"

definition bits_to_u32_target :: "gf list \<Rightarrow> gf circuit" where
  "bits_to_u32_target bits_target = bindc (check (length bits_target = 32)) (\<lambda>_. le_sum (rev (take 32 bits_target)))"

definition rotate32 :: "nat \<Rightarrow> nat list" where
  "rotate32 y = [32 - y..<32] @ [0..<32 - y]"

definition shift32 :: "nat \<Rightarrow> nat list" where
  "shift32 y = replicate y 32 @ [0..<32 - y]"

definition xor3 :: "gf \<Rightarrow> gf \<Rightarrow> gf \<Rightarrow> gf" where
  "xor3 a b c =
     (let m = b * c;
          two_b = b + b;
          two_c = c + c;
          two_m = m + m;
          four_m = two_m + two_m;
          one_sub_two_b = 1 - two_b;
          one_sub_two_b_sub_two_c = one_sub_two_b - two_c;
          one_sub_two_b_sub_two_c_add_four_m = one_sub_two_b_sub_two_c + four_m;
          res = a * one_sub_two_b_sub_two_c_add_four_m;
          res = res + b;
          res = res + c
      in res - two_m)"

definition big_sigma0 :: "gf \<Rightarrow> gf circuit" where
  "big_sigma0 a = bindc (u32_to_bits_target a) (\<lambda>a_bits.
     bits_to_u32_target (map (\<lambda>i. xor3 (a_bits ! (rotate32 2 ! i)) (a_bits ! (rotate32 13 ! i)) (a_bits ! (rotate32 22 ! i))) [0..<32]))"

definition big_sigma1 :: "gf \<Rightarrow> gf circuit" where
  "big_sigma1 a = bindc (u32_to_bits_target a) (\<lambda>a_bits.
     bits_to_u32_target (map (\<lambda>i. xor3 (a_bits ! (rotate32 6 ! i)) (a_bits ! (rotate32 11 ! i)) (a_bits ! (rotate32 25 ! i))) [0..<32]))"

definition sigma0 :: "gf \<Rightarrow> gf circuit" where
  "sigma0 a = bindc (u32_to_bits_target a) (\<lambda>a_bits.
     let a_bits = a_bits @ [0] in
     bits_to_u32_target (map (\<lambda>i. xor3 (a_bits ! (rotate32 7 ! i)) (a_bits ! (rotate32 18 ! i)) (a_bits ! (shift32 3 ! i))) [0..<32]))"

definition sigma1 :: "gf \<Rightarrow> gf circuit" where
  "sigma1 a = bindc (u32_to_bits_target a) (\<lambda>a_bits.
     let a_bits = a_bits @ [0] in
     bits_to_u32_target (map (\<lambda>i. xor3 (a_bits ! (rotate32 17 ! i)) (a_bits ! (rotate32 19 ! i)) (a_bits ! (shift32 10 ! i))) [0..<32]))"

definition ch :: "gf \<Rightarrow> gf \<Rightarrow> gf \<Rightarrow> gf circuit" where
  "ch a b c = bindc (u32_to_bits_target a) (\<lambda>a_bits. bindc (u32_to_bits_target b) (\<lambda>b_bits. bindc (u32_to_bits_target c) (\<lambda>c_bits.
     bits_to_u32_target (map (\<lambda>i.
       let b_sub_c = b_bits ! i - c_bits ! i;
           a_mul_b_sub_c = a_bits ! i * b_sub_c
       in a_mul_b_sub_c + c_bits ! i) [0..<32]))))"

definition maj :: "gf \<Rightarrow> gf \<Rightarrow> gf \<Rightarrow> gf circuit" where
  "maj a b c = bindc (u32_to_bits_target a) (\<lambda>a_bits. bindc (u32_to_bits_target b) (\<lambda>b_bits. bindc (u32_to_bits_target c) (\<lambda>c_bits.
     bits_to_u32_target (map (\<lambda>i.
       let m = b_bits ! i * c_bits ! i;
           two_m = 2 * m;
           b_add_c = b_bits ! i + c_bits ! i;
           b_add_c_sub_two_m = b_add_c - two_m;
           a_mul_b_add_c_sub_two_m = a_bits ! i * b_add_c_sub_two_m
       in a_mul_b_add_c_sub_two_m + m) [0..<32]))))"

definition add_u32_low :: "gf \<Rightarrow> gf \<Rightarrow> gf circuit" where
  "add_u32_low a b = bindc (add_u32 a b) (\<lambda>(res, _). ret res)"

subsection \<open>The compression function\<close>

text \<open>One round of the first loop, which also packs the next word of the block.\<close>

definition first_round :: "gf list \<Rightarrow> gf list \<times> gf sha_vars \<Rightarrow> nat \<Rightarrow> (gf list \<times> gf sha_vars) circuit" where
  "first_round block_bits state i =
     (case state of (x, a, b, c, d, e, f, g, h) \<Rightarrow>
        bindc (le_sum (rev (take 32 (drop (i * 32) block_bits)))) (\<lambda>u32_target.
        let x = x @ [u32_target]; t1 = h in
        bindc (big_sigma1 e) (\<lambda>big_sigma1_e.
        bindc (add_u32_low t1 big_sigma1_e) (\<lambda>t1.
        bindc (ch e f g) (\<lambda>ch_e_f_g.
        bindc (add_u32_low t1 ch_e_f_g) (\<lambda>t1.
        bindc (add_u32_low t1 (u32_val (K256 ! i))) (\<lambda>t1.
        bindc (add_u32_low t1 (x ! i)) (\<lambda>t1.
        bindc (big_sigma0 a) (\<lambda>t2.
        bindc (maj a b c) (\<lambda>maj_a_b_c.
        bindc (add_u32_low t2 maj_a_b_c) (\<lambda>t2.
        bindc (add_u32_low d t1) (\<lambda>e'.
        bindc (add_u32_low t1 t2) (\<lambda>a'.
          ret (x, a', a, b, c, e', e, f, g))))))))))))))"

text \<open>One round of the second loop: the sixteen words are overwritten in place.\<close>

definition second_round :: "gf list \<times> gf sha_vars \<Rightarrow> nat \<Rightarrow> (gf list \<times> gf sha_vars) circuit" where
  "second_round state i =
     (case state of (x, a, b, c, d, e, f, g, h) \<Rightarrow>
        bindc (sigma0 (x ! ((i + 1) mod 16))) (\<lambda>s0.
        bindc (sigma1 (x ! ((i + 14) mod 16))) (\<lambda>s1.
        bindc (add_u32_low s0 s1) (\<lambda>s0_add_s1.
        bindc (add_u32_low s0_add_s1 (x ! ((i + 9) mod 16))) (\<lambda>s0_add_s1_add_x.
        bindc (add_u32_low (x ! (i mod 16)) s0_add_s1_add_x) (\<lambda>x_i.
        let x = x[i mod 16 := x_i] in
        bindc (big_sigma0 a) (\<lambda>big_sigma0_a.
        bindc (big_sigma1 e) (\<lambda>big_sigma1_e.
        bindc (ch e f g) (\<lambda>ch_e_f_g.
        bindc (maj a b c) (\<lambda>maj_a_b_c.
        bindc (add_u32_low h big_sigma1_e) (\<lambda>h_add_sigma1.
        bindc (add_u32_low h_add_sigma1 ch_e_f_g) (\<lambda>h_add_sigma1_add_ch_e_f_g.
        bindc (add_u32_low h_add_sigma1_add_ch_e_f_g (u32_val (K256 ! i))) (\<lambda>h_add_sigma1_add_ch_e_f_g_add_k256.
        bindc (add_u32_low (x ! (i mod 16)) h_add_sigma1_add_ch_e_f_g_add_k256) (\<lambda>t1.
        bindc (add_u32_low big_sigma0_a maj_a_b_c) (\<lambda>t2.
        bindc (add_u32_low d t1) (\<lambda>e'.
        bindc (add_u32_low t1 t2) (\<lambda>a'.
          ret (x, a', a, b, c, e', e, f, g))))))))))))))))))"

definition sha256_compress_block :: "gf list \<Rightarrow> gf list \<Rightarrow> gf list circuit" where
  "sha256_compress_block state_in block_bits =
     bindc (check (length block_bits = 512)) (\<lambda>_.
     bindc (foldc (first_round block_bits) ([], vars_of_list state_in) [0..<16]) (\<lambda>state.
     bindc (foldc second_round state [16..<64]) (\<lambda>(x, vars).
       mapc (\<lambda>(s, v). add_u32_low s v) (zip state_in (list_of_vars vars)))))"

subsection \<open>Bit decompositions are those of the word\<close>

definition gf_bits :: "u32 \<Rightarrow> gf list" where
  "gf_bits w = map of_bool (word_bits w)"

lemma unat_u32_pow: "unat (w :: u32) < 2 ^ 32"
proof -
  have "(2 :: nat) ^ 32 = 4294967296" by simp
  then show ?thesis using unat_u32_less [of w] by (simp only:)
qed

lemma length_word_bits [simp, size_simps]: "length (word_bits w) = 32" "length (gf_bits w) = 32"
  by (simp_all add: word_bits_def gf_bits_def)

lemma gf_bits_nth: "i < 32 \<Longrightarrow> gf_bits w ! i = of_bool (bit w (31 - i))"
  by (simp add: gf_bits_def word_bits_def del: upt_Suc)

lemma gf_bitsI: "(\<And>i. i < 32 \<Longrightarrow> f i = of_bool (bit w (31 - i))) \<Longrightarrow> map f [0..<32] = gf_bits w"
  by (rule nth_equalityI) (simp_all add: gf_bits_nth del: upt_Suc)

lemma rev_word_bits: "rev (word_bits w) = bits_of 32 (unat w)"
proof (rule nth_equalityI)
  fix i assume "i < length (rev (word_bits w))"
  then have "i < 32" by simp
  then show "rev (word_bits w) ! i = bits_of 32 (unat w) ! i"
    using nth_upt [of 0 "31 - i" 32] by (simp add: rev_nth word_bits_def bit_unsigned_iff del: upt_Suc)
qed simp

lemma split_u32_exactly: "exactly (split_le_base 2 (u32_val w) 32) (rev (gf_bits w))"
proof -
  have rev_bits: "rev (gf_bits w) = map of_bool (bits_of 32 (unat w))"
    by (simp only: gf_bits_def rev_map rev_word_bits)
  note less = unat_u32_pow [of w]
  have sound: "limbs = rev (gf_bits w)" if len: "length limbs = 32" and g: "base_sum_gate 2 (u32_val w) limbs" for limbs
  proof -
    obtain bs where bs: "limbs = map of_bool bs" "length bs = 32"
      using g len boolean_wires [of limbs] by (metis base_sum_gate_2)
    then have "of_nat (bits_val bs) = (of_nat (unat w) :: gf)"
      using g by (simp only: base_sum_gate_2 reduce_of_bools u32_val_def)
    moreover have "bits_val bs < 2 ^ 32" using bits_val_less [of bs] bs by simp
    then have "bits_val bs < goldilocks_order" by simp
    moreover have "unat w < goldilocks_order" using unat_u32_less [of w] by linarith
    ultimately have "bits_val bs = unat w"
      using of_nat_gf_inject [of "bits_val bs" "unat w"] \<open>of_nat (bits_val bs) = of_nat (unat w)\<close> by blast
    then show ?thesis using bits_of_unique bs rev_bits by metis
  qed
  have "base_sum_gate 2 (u32_val w) (rev (gf_bits w))"
    by (simp only: base_sum_gate_2 rev_bits reduce_of_bools bits_val_bits_of [OF less] u32_val_def) auto
  then show ?thesis
    unfolding split_le_base_def by (intro exactly_constrained sound) (auto intro!: exI [of _ "rev (gf_bits w)"])
qed

lemma u32_to_bits_exactly [exactly_intros]: "v = gf_bits w \<Longrightarrow> exactly (u32_to_bits_target (u32_val w)) v"
proof -
  have "map (\<lambda>i. rev (gf_bits w) ! i) (rev [0..<32]) = gf_bits w"
    by (rule nth_equalityI) (simp_all add: rev_nth del: upt_Suc)
  then show "v = gf_bits w \<Longrightarrow> exactly (u32_to_bits_target (u32_val w)) v"
    unfolding u32_to_bits_target_def by (intro exactly_bindc [OF split_u32_exactly] exactly_ret) (simp only:)
qed

lemma le_sum_exactly:
  assumes "bits = map of_bool bs" "length bs = 32" "v = of_nat (bits_val bs)"
  shows "exactly (le_sum bits) v"
proof -
  let ?limbs = "bits @ replicate 31 0"
  have len: "length bits = 32" using assms by simp
  have "reduce_with_powers ?limbs 2 = of_nat (bits_val bs)"
    using assms(1) by (simp only: reduce_with_powers_append reduce_of_bools) (simp add: reduce_with_powers_zeros)
  then have "base_sum_gate 2 v ?limbs"
    using assms(1,3) by (auto simp: base_sum_gate_2)
  then have "le_sum_circuit base_sum_num_limbs bits ?limbs v"
    using len by (auto simp: le_sum_circuit_def num_base_arithmetic_ops_per_gate_def base_sum_num_limbs_def)
  then have "\<exists>ws. length ws = 64 \<and> le_sum_circuit base_sum_num_limbs bits (tl ws) (hd ws)"
    by (intro exI [of _ "v # ?limbs"]) (simp add: len)
  then show ?thesis
    unfolding le_sum_def using len assms le_sum_value [of base_sum_num_limbs bits _ _ bs]
    by (simp add: num_base_arithmetic_ops_per_gate_def base_sum_num_limbs_def) (intro exactly_constrained; auto)
qed

lemma le_sum_yields_boolean: "length bits = 32 \<Longrightarrow> yields (le_sum bits) (\<lambda>_. \<forall>b \<in> set bits. b = 0 \<or> b = 1)"
  by (auto simp: yields_def le_sum_def bindc_Some dest!: le_sum_boolean)

lemma bits_to_u32_exactly [exactly_intros]: "bits = gf_bits w \<Longrightarrow> v = u32_val w \<Longrightarrow> exactly (bits_to_u32_target bits) v"
proof -
  assume a: "bits = gf_bits w" "v = u32_val w"
  have "rev (take 32 bits) = map of_bool (bits_of 32 (unat w))"
    using a(1) by (simp add: gf_bits_def rev_map rev_word_bits [symmetric])
  moreover have "bits_val (bits_of 32 (unat w)) = unat w"
    by (rule bits_val_bits_of [OF unat_u32_pow])
  ultimately have "exactly (le_sum (rev (take 32 bits))) v"
    using a(2) le_sum_exactly [OF _ length_bits_of] unfolding u32_val_def by metis
  then show ?thesis
    unfolding bits_to_u32_target_def using a(1)
    by (intro exactly_bindc [where v = "()"]) (auto simp: exactly_def yields_def intro: reaches_check)
qed

subsection \<open>The functions on words\<close>

lemma xor3_bits: "xor3 (of_bool (bit u n)) (of_bool (bit v n)) (of_bool (bit w n)) = of_bool (bit (u XOR v XOR w) n)"
  by (cases "bit u n"; cases "bit v n"; cases "bit w n") (simp_all add: xor3_def bit_xor_iff)

lemma rotate32_nth: "i < 32 \<Longrightarrow> y \<le> 32 \<Longrightarrow> rotate32 y ! i = (if i < y then 32 - y + i else i - y)"
  by (auto simp: rotate32_def nth_append simp del: upt_Suc)

lemma shift32_nth: "i < 32 \<Longrightarrow> y \<le> 32 \<Longrightarrow> shift32 y ! i = (if i < y then 32 else i - y)"
  by (auto simp: shift32_def nth_append simp del: upt_Suc)

lemma gf_bits_rotate:
  assumes "i < 32" "0 < y" "y < 32"
  shows "gf_bits w ! (rotate32 y ! i) = of_bool (bit (word_rotr y w) (31 - i))"
    "(gf_bits w @ [0]) ! (rotate32 y ! i) = of_bool (bit (word_rotr y w) (31 - i))"
proof -
  have "(31 - i + y) mod 32 = 31 - rotate32 y ! i" "rotate32 y ! i < 32"
    using assms by (auto simp: rotate32_nth mod_if)
  then show "gf_bits w ! (rotate32 y ! i) = of_bool (bit (word_rotr y w) (31 - i))"
    "(gf_bits w @ [0]) ! (rotate32 y ! i) = of_bool (bit (word_rotr y w) (31 - i))"
    using assms by (simp_all add: gf_bits_nth bit_word_rotr_iff nth_append)
qed

lemma gf_bits_shift:
  assumes "i < 32" "0 < y" "y < 32"
  shows "(gf_bits w @ [0]) ! (shift32 y ! i) = of_bool (bit (drop_bit y w) (31 - i))"
proof (cases "i < y")
  case True
  have "\<not> bit w (y + (31 - i))" using True by (intro notI) (auto dest: bit_imp_le_length)
  then show ?thesis using True assms by (simp add: shift32_nth nth_append bit_drop_bit_eq)
next
  case False
  then have "y + (31 - i) = 31 - (i - y)" "i - y < 32" using assms by simp_all
  then show ?thesis using False assms by (simp add: shift32_nth nth_append bit_drop_bit_eq gf_bits_nth)
qed

lemma big_sigma_exactly [exactly_intros]:
  "v = u32_val (Sigma0 w) \<Longrightarrow> exactly (big_sigma0 (u32_val w)) v"
  "v = u32_val (Sigma1 w) \<Longrightarrow> exactly (big_sigma1 (u32_val w)) v"
  unfolding big_sigma0_def big_sigma1_def
  by (intro exactly_bindc [OF u32_to_bits_exactly [OF refl]] bits_to_u32_exactly gf_bitsI;
      simp add: gf_bits_rotate xor3_bits Sigma0_def Sigma1_def)+

lemma small_sigma_exactly [exactly_intros]:
  "v = u32_val (sigma_0 w) \<Longrightarrow> exactly (sigma0 (u32_val w)) v"
  "v = u32_val (sigma_1 w) \<Longrightarrow> exactly (sigma1 (u32_val w)) v"
  unfolding sigma0_def sigma1_def Let_def
  by (intro exactly_bindc [OF u32_to_bits_exactly [OF refl]] bits_to_u32_exactly gf_bitsI;
      simp add: gf_bits_rotate gf_bits_shift xor3_bits sigma_0_def sigma_1_def)+

lemma ch_exactly [exactly_intros]: "v = u32_val (Ch x y z) \<Longrightarrow> exactly (ch (u32_val x) (u32_val y) (u32_val z)) v"
  unfolding ch_def Let_def
  by (intro exactly_bindc [OF u32_to_bits_exactly [OF refl]] bits_to_u32_exactly gf_bitsI)
    (auto simp add: gf_bits_nth Ch_def bit_xor_iff bit_and_iff bit_not_iff of_bool_def)

lemma maj_exactly [exactly_intros]: "v = u32_val (Maj x y z) \<Longrightarrow> exactly (maj (u32_val x) (u32_val y) (u32_val z)) v"
  unfolding maj_def Let_def
  by (intro exactly_bindc [OF u32_to_bits_exactly [OF refl]] bits_to_u32_exactly gf_bitsI)
    (auto simp add: gf_bits_nth Maj_def bit_xor_iff bit_and_iff of_bool_def)

lemma add_u32_low_exactly [exactly_intros]: "v = u32_val (x + y) \<Longrightarrow> exactly (add_u32_low (u32_val x) (u32_val y)) v"
  unfolding add_u32_low_def
  by (rule exactly_bindc [OF add_u32_exactly [OF refl]]) (use halves_add_words [of x y] in \<open>auto intro: exactly_ret\<close>)

subsection \<open>The compression function computes SHA-256\<close>

fun map_vars :: "('a \<Rightarrow> 'b) \<Rightarrow> 'a sha_vars \<Rightarrow> 'b sha_vars" where
  "map_vars k (a, b, c, d, e, f, g, h) = (k a, k b, k c, k d, k e, k f, k g, k h)"

text \<open>The contents of the sixteen-word buffer before round \<open>i\<close>.\<close>

fun ring :: "u32 list \<Rightarrow> nat \<Rightarrow> u32 list" where
  "ring w 0 = []"
| "ring w (Suc i) = (if i < 16 then ring w i @ [w ! i] else (ring w i)[i mod 16 := w ! i])"

lemma ring_first: "i \<le> 16 \<Longrightarrow> i \<le> length w \<Longrightarrow> ring w i = take i w"
  by (induction i) (simp_all add: take_Suc_conv_app_nth)

lemma ring_window:
  assumes "16 \<le> i" "16 \<le> length w"
  shows "length (ring w i) = 16 \<and> (\<forall>k < 16. ring w i ! ((i + k) mod 16) = w ! (i - 16 + k))"
  using assms(1)
proof (induction i rule: dec_induct)
  case base
  then show ?case using ring_first [of 16 w] assms(2) by (simp add: mod_if)
next
  case (step i)
  have "ring w (Suc i) ! ((Suc i + k) mod 16) = w ! (Suc i - 16 + k)" if k: "k < 16" for k
  proof (cases "k = 15")
    case True
    then have "(Suc i + k) mod 16 = i mod 16" "Suc i - 16 + k = i" using step by (simp_all add: mod_if)
    then show ?thesis using step by simp
  next
    case False
    then have k15: "Suc k < 16" using k by simp
    then have "\<not> 16 dvd Suc k" by (auto dest: dvd_imp_le)
    then have ne: "(i + Suc k) mod 16 \<noteq> i mod 16" using mod_eq_dvd_iff_nat [of i "i + Suc k" 16] by simp
    have "ring w (Suc i) ! ((Suc i + k) mod 16) = (ring w i)[i mod 16 := w ! i] ! ((i + Suc k) mod 16)"
      using step(1) by simp
    also have "\<dots> = ring w i ! ((i + Suc k) mod 16)" using ne by (intro nth_list_update_neq) (rule not_sym)
    also have "\<dots> = w ! (i - 16 + Suc k)" using step(3) k15 by blast
    also have "i - 16 + Suc k = Suc i - 16 + k" using step(1) by simp
    finally show ?thesis .
  qed
  then show ?case using step by simp
qed

lemmas exactly_words =
  add_u32_low_exactly [OF refl] big_sigma_exactly [OF refl] small_sigma_exactly [OF refl] ch_exactly [OF refl] maj_exactly [OF refl]

lemma first_round_exactly:
  assumes "i < 16" "16 \<le> length w"
    and bits: "take 32 (drop (i * 32) block_bits) = gf_bits (w ! i)"
  shows "exactly (first_round block_bits (map u32_val (ring w i), map_vars u32_val v) i)
    (map u32_val (ring w (Suc i)), map_vars u32_val (sha_round w v i))"
proof -
  obtain a b c d e f g h where v: "v = (a, b, c, d, e, f, g, h)" by (metis surj_pair)
  have le: "exactly (le_sum (rev (take 32 (drop (i * 32) block_bits)))) (u32_val (w ! i))"
    unfolding bits by (rule le_sum_exactly [of _ "rev (word_bits (w ! i))"])
      (simp_all only: gf_bits_def rev_map length_rev length_word_bits rev_word_bits u32_val_def bits_val_bits_of [OF unat_u32_pow] length_bits_of)
  have x: "(map u32_val (ring w i) @ [u32_val (w ! i)]) ! i = u32_val (w ! i)"
    using assms by (simp add: ring_first nth_append)
  show ?thesis
    unfolding v first_round_def prod.case map_vars.simps Let_def
    apply (rule exactly_bindc [OF le])
    apply (unfold x)
    apply ((rule exactly_bindc, rule exactly_words)+)
    apply (rule exactly_ret)
    using assms(1) by (simp add: sha_round_def Let_def ac_simps)
qed

lemma second_round_exactly:
  assumes "16 \<le> i" "16 \<le> length w"
    and wi: "w ! i = sigma_1 (w ! (i - 2)) + w ! (i - 7) + sigma_0 (w ! (i - 15)) + w ! (i - 16)"
  shows "exactly (second_round (map u32_val (ring w i), map_vars u32_val v) i)
    (map u32_val (ring w (Suc i)), map_vars u32_val (sha_round w v i))"
proof -
  obtain a b c d e f g h where v: "v = (a, b, c, d, e, f, g, h)" by (metis surj_pair)
  note r = ring_window [OF assms(1,2)]
  have x: "map u32_val (ring w i) ! ((i + k) mod 16) = u32_val (w ! (i - 16 + k))" if "k < 16" for k
    using r that by simp
  have x0: "map u32_val (ring w i) ! (i mod 16) = u32_val (w ! (i - 16))" using x [of 0] by simp
  have idx: "i - 16 + 1 = i - 15" "i - 16 + 14 = i - 2" "i - 16 + 9 = i - 7" using assms(1) by simp_all
  have xs: "map u32_val (ring w i) ! ((i + 1) mod 16) = u32_val (w ! (i - 15))"
    "map u32_val (ring w i) ! ((i + 14) mod 16) = u32_val (w ! (i - 2))"
    "map u32_val (ring w i) ! ((i + 9) mod 16) = u32_val (w ! (i - 7))"
    using x [of 1] x [of 14] x [of 9] unfolding idx by simp_all
  have upd: "(map u32_val (ring w i)) [i mod 16 := y] ! (i mod 16) = y" for y using r by simp
  have sum: "w ! (i - 16) + (sigma_0 (w ! (i - 15)) + sigma_1 (w ! (i - 2)) + w ! (i - 7)) = w ! i"
    unfolding wi by (simp add: ac_simps)
  show ?thesis
    unfolding v second_round_def prod.case map_vars.simps Let_def xs x0 upd
    apply ((rule exactly_bindc, rule exactly_words)+)
    apply (rule exactly_ret)
    using assms(1) sum by (simp add: sha_round_def Let_def ac_simps map_update)
qed

lemma schedule_prefix:
  assumes "length block = 16" "16 \<le> n"
  shows "length (foldl extend_schedule block [16..<n]) = n
    \<and> (\<forall>t < 16. foldl extend_schedule block [16..<n] ! t = block ! t)
    \<and> (\<forall>t. 16 \<le> t \<longrightarrow> t < n \<longrightarrow> foldl extend_schedule block [16..<n] ! t =
        (let w = foldl extend_schedule block [16..<n]
         in sigma_1 (w ! (t - 2)) + w ! (t - 7) + sigma_0 (w ! (t - 15)) + w ! (t - 16)))"
  using assms(2)
proof (induction n rule: dec_induct)
  case base
  then show ?case using assms by simp
next
  case (step n)
  let ?w = "foldl extend_schedule block [16..<n]" and ?w' = "foldl extend_schedule block [16..<Suc n]"
  have w': "?w' = ?w @ [sigma_1 (?w ! (n - 2)) + ?w ! (n - 7) + sigma_0 (?w ! (n - 15)) + ?w ! (n - 16)]"
    using step(1) by (simp add: extend_schedule_def)
  have old: "?w' ! t = ?w ! t" if "t < n" for t using that step(3) unfolding w' by (simp add: nth_append)
  have new: "?w' ! n = sigma_1 (?w ! (n - 2)) + ?w ! (n - 7) + sigma_0 (?w ! (n - 15)) + ?w ! (n - 16)"
    using step(3) unfolding w' by (simp add: nth_append)
  have "?w' ! t = sigma_1 (?w' ! (t - 2)) + ?w' ! (t - 7) + sigma_0 (?w' ! (t - 15)) + ?w' ! (t - 16)" if t: "16 \<le> t" "t < Suc n" for t
  proof (cases "t = n")
    case True
    show ?thesis unfolding True new using step(1) by (simp only: old)
  next
    case False
    then have "t < n" using t by simp
    then show ?thesis using step(3) t(1) unfolding Let_def by (simp only: old)
  qed
  moreover have "length ?w' = Suc n" using step(3) unfolding w' by simp
  moreover have "?w' ! t = block ! t" if "t < 16" for t using that step(1,3) old [of t] by simp
  ultimately show ?case unfolding Let_def by blast
qed

lemma message_schedule:
  assumes "length block = 16"
  shows "length (message_schedule block) = 64" "t < 16 \<Longrightarrow> message_schedule block ! t = block ! t"
    "16 \<le> t \<Longrightarrow> t < 64 \<Longrightarrow> message_schedule block ! t =
      sigma_1 (message_schedule block ! (t - 2)) + message_schedule block ! (t - 7)
      + sigma_0 (message_schedule block ! (t - 15)) + message_schedule block ! (t - 16)"
  using schedule_prefix [OF assms, of 64] by (auto simp: message_schedule_def Let_def)

lemma word_bits_of_bits: "length bs = 32 \<Longrightarrow> word_bits (word_of_bits bs) = bs"
proof (rule nth_equalityI)
  fix i assume bs: "length bs = 32" and "i < length (word_bits (word_of_bits bs))"
  then have i: "i < 32" "31 - i < 32" by simp_all
  then show "word_bits (word_of_bits bs) ! i = bs ! i"
    using bs by (simp add: word_bits_def word_of_bits_def bit_horner_sum_bit_word_iff rev_nth del: upt_Suc)
qed simp

lemma block_words_bits:
  assumes "length bs = 512" "i < 16"
  shows "take 32 (drop (i * 32) (map of_bool bs)) = gf_bits (block_words bs ! i)"
proof -
  have "length (take 32 (drop (i * 32) bs)) = 32" using assms by simp
  then show ?thesis using assms(2) word_bits_of_bits
    by (simp add: gf_bits_def block_words_def take_map drop_map mult.commute del: upt_Suc)
qed

lemma vars_of_list_map: "length s = 8 \<Longrightarrow> vars_of_list (map k s) = map_vars k (vars_of_list s)"
  by (simp add: vars_of_list_def)

lemma list_of_map_vars: "list_of_vars (map_vars k v) = map k (list_of_vars v)"
  by (auto simp: list_of_vars_def split: prod.split)

lemma length_list_of_vars [simp]: "length (list_of_vars v) = 8"
  by (auto simp: list_of_vars_def split: prod.split)

lemma exactly_mapc_zip:
  assumes "length xs = length ys" "\<And>x y. exactly (f (p x, p y)) (p (g x y))"
  shows "exactly (mapc f (zip (map p xs) (map p ys))) (map p (map2 g xs ys))"
  using assms(1) by (induction xs ys rule: list_induct2) (auto intro!: exactly_ret exactly_bindc assms(2))

lemma length_sha_compress [simp]: "length st = 8 \<Longrightarrow> length (sha_compress st block) = 8"
  by (simp add: sha_compress_def)

lemma compress_block_exactly:
  assumes "length st = 8" "length bs = 512"
  shows "exactly (sha256_compress_block (map u32_val st) (map of_bool bs)) (map u32_val (sha_compress st (block_words bs)))"
proof -
  let ?w = "message_schedule (block_words bs)"
  let ?v = "\<lambda>i. foldl (sha_round ?w) (vars_of_list st) [0..<i]"
  let ?S = "\<lambda>i. (map u32_val (ring ?w i), map_vars u32_val (?v i))"
  have b: "length (block_words bs) = 16" by (simp add: block_words_def)
  note W = message_schedule [OF b]
  have first: "exactly (foldc (first_round (map of_bool bs)) (?S 0) [0..<16]) (?S 16)"
  proof (rule exactly_foldc_upt)
    fix i :: nat assume i: "i < 16"
    have "exactly (first_round (map of_bool bs) (?S i) i) (map u32_val (ring ?w (Suc i)), map_vars u32_val (sha_round ?w (?v i) i))"
      by (rule first_round_exactly) (use i W b assms(2) block_words_bits [of bs i] in simp_all)
    then show "exactly (first_round (map of_bool bs) (?S i) i) (?S (Suc i))" by simp
  qed simp
  have second: "exactly (foldc second_round (?S 16) [16..<64]) (?S 64)"
  proof (rule exactly_foldc_upt)
    fix i :: nat assume i: "16 \<le> i" "i < 64"
    have "exactly (second_round (?S i) i) (map u32_val (ring ?w (Suc i)), map_vars u32_val (sha_round ?w (?v i) i))"
      by (rule second_round_exactly) (use i W(1) W(3) [OF i] in simp_all)
    then show "exactly (second_round (?S i) i) (?S (Suc i))" by simp
  qed simp
  have S0: "([], vars_of_list (map u32_val st)) = ?S 0" using assms(1) by (simp add: vars_of_list_map)
  have last: "exactly (mapc (\<lambda>(s, v). add_u32_low s v) (zip (map u32_val st) (list_of_vars (map_vars u32_val (?v 64)))))
      (map u32_val (sha_compress st (block_words bs)))"
    unfolding list_of_map_vars sha_compress_def
    by (rule exactly_mapc_zip) (use assms(1) in \<open>auto intro: exactly_words\<close>)
  show ?thesis
    unfolding sha256_compress_block_def S0
    using assms(2) last
    by (intro exactly_bindc [OF exactly_check] exactly_bindc [OF first] exactly_bindc [OF second]) simp_all
qed

text \<open>Packing a block into words forces its bits to be boolean.\<close>

lemma compress_block_boolean: "yields (sha256_compress_block st bits) (\<lambda>_. \<forall>b \<in> set bits. b = 0 \<or> b = 1)"
proof -
  have step: "yields (first_round bits s i) (\<lambda>_. \<forall>b \<in> set (take 32 (drop (i * 32) bits)). b = 0 \<or> b = 1)"
    if "i \<in> set [0..<16]" "length bits = 512" for s i
  proof -
    have "yields (le_sum (rev (take 32 (drop (i * 32) bits)))) (\<lambda>_. \<forall>b \<in> set (take 32 (drop (i * 32) bits)). b = 0 \<or> b = 1)"
      using le_sum_yields_boolean [of "rev (take 32 (drop (i * 32) bits))"] that by simp
    then show ?thesis
      unfolding first_round_def by (auto simp: yields_def bindc_Some split: prod.splits)
  qed
  have all: "\<forall>b \<in> set bits. b = 0 \<or> b = 1"
    if len: "length bits = 512" and s: "\<forall>i \<in> set [0..<16]. \<forall>b \<in> set (take 32 (drop (i * 32) bits)). b = 0 \<or> b = 1"
  proof
    fix b assume "b \<in> set bits"
    then obtain n where n: "n < 512" "b = bits ! n" using len by (auto simp: in_set_conv_nth)
    have "n div 32 * 32 + n mod 32 = n" by (rule div_mult_mod_eq)
    then have "n mod 32 < 512 - n div 32 * 32" using n(1) by linarith
    then have "b = take 32 (drop (n div 32 * 32) bits) ! (n mod 32)" "n mod 32 < length (take 32 (drop (n div 32 * 32) bits))"
      using n len by simp_all
    then have "b \<in> set (take 32 (drop (n div 32 * 32) bits))" by (metis nth_mem)
    moreover have "n div 32 \<in> set [0..<16]" using n by auto
    ultimately show "b = 0 \<or> b = 1" using s by blast
  qed
  show ?thesis
    unfolding sha256_compress_block_def
  proof (rule yields_bindc [OF yields_check])
    assume len: "length bits = 512"
    have "yields (foldc (first_round bits) ([], vars_of_list st) [0..<16])
        (\<lambda>_. \<forall>i \<in> set [0..<16]. \<forall>b \<in> set (take 32 (drop (i * 32) bits)). b = 0 \<or> b = 1)"
      by (rule foldc_steps) (use step len in blast)
    then show "yields (bindc (foldc (first_round bits) ([], vars_of_list st) [0..<16]) (\<lambda>state.
        bindc (foldc second_round state [16..<64]) (\<lambda>(x, vars). mapc (\<lambda>(s, v). add_u32_low s v) (zip st (list_of_vars vars)))))
      (\<lambda>_. \<forall>b \<in> set bits. b = 0 \<or> b = 1)"
      by (rule yields_bindc) (use all [OF len] in \<open>auto simp: yields_def\<close>)
  qed
qed

end
