(* ===== verification/Sha256_Varlen.thy ===== *)
theory Sha256_Varlen
  imports Sha256_Circuit Gadgets
begin

text \<open>
  The hash circuits of \<open>plonky2_sha256/src/circuit.rs\<close> on top of the compression function: the
  fixed-length circuit, the variable-length circuit with its padding check, and
  \<open>src/circuits/gadgets/sha256_variable.rs\<close> that fills the latter.
\<close>

subsection \<open>Fixed length\<close>

definition state_digest :: "gf list \<Rightarrow> gf list circuit" where
  "state_digest state =
     bindc (mapc (\<lambda>word. bindc (split_le_base 2 word 32) (\<lambda>bit_targets. ret (map (\<lambda>j. bit_targets ! j) (rev [0..<32])))) state)
       (\<lambda>digest. ret (concat digest))"

definition make_circuits :: "nat \<Rightarrow> (gf list \<times> gf list) circuit" where
  "make_circuits msg_len_in_bits =
     (let block_count = (msg_len_in_bits + 65 + 511) div 512;
          padded_msg_len = 512 * block_count;
          p = padded_msg_len - 64 - msg_len_in_bits
      in bindc (check (p > 1)) (\<lambda>_.
         bindc (wires msg_len_in_bits) (\<lambda>msg.
         let message = msg @ [1] @ replicate (p - 1) 0 @ map (\<lambda>i. of_bool (bit (of_nat msg_len_in_bits :: u64) (63 - i))) [0..<64] in
         bindc (foldc (\<lambda>state blk. sha256_compress_block state (take 512 (drop (blk * 512) message))) (map u32_val H256) [0..<block_count]) (\<lambda>state.
         bindc (state_digest state) (\<lambda>digest.
           ret (message, digest))))))"

subsection \<open>Variable length\<close>

record sha256_varlen =
  sv_message :: "gf list"
  sv_digest :: "gf list"
  sv_num_blocks :: gf
  sv_msg_len_bytes :: gf
  sv_block_indicator :: "gf list"
  sv_msg_byte_indicator :: "gf list"

definition trailing_zeros :: "nat \<Rightarrow> nat" where
  "trailing_zeros n = length (takeWhile (\<lambda>i. \<not> bit n i) [0..<64])"

definition constrain_sha256_padding :: "gf list \<Rightarrow> gf list \<Rightarrow> gf \<Rightarrow> gf \<Rightarrow> nat \<Rightarrow> bool" where
  "constrain_sha256_padding message_bits msg_byte_indicator msg_len_bytes num_blocks max_blocks \<longleftrightarrow>
     (let num_blocks_times_64 = num_blocks * 64;
          upper = num_blocks_times_64 - msg_len_bytes - 9;
          range_bits = trailing_zeros (next_power_of_two (max_blocks * 64)) + 1;
          lower = msg_len_bytes + 72 - num_blocks_times_64
      in (\<forall>bit_offset < 8.
            foldl (\<lambda>selected_bit (p, ind).
                     let bit_idx = p * 8 + bit_offset
                     in if bit_idx < length message_bits then selected_bit + ind * message_bits ! bit_idx else selected_bit)
              0 (enumerate 0 msg_byte_indicator) = (if bit_offset = 0 then 1 else 0))
       \<and> range_check upper range_bits
       \<and> range_check lower range_bits)"

definition block_states_loop :: "gf list \<Rightarrow> nat \<Rightarrow> (gf list \<times> gf list list) circuit" where
  "block_states_loop message max_blocks =
     foldc (\<lambda>(state, block_states) blk.
         bindc (sha256_compress_block state (take 512 (drop (blk * 512) message))) (\<lambda>state. ret (state, block_states @ [state])))
       (map u32_val H256, []) [0..<max_blocks]"

definition make_varlen_circuits :: "nat \<Rightarrow> sha256_varlen circuit" where
  "make_varlen_circuits max_blocks =
     bindc (check (max_blocks \<ge> 1)) (\<lambda>_.
     let total_bits = max_blocks * 512; max_msg_bytes = max_blocks * 64 in
     bindc (wires total_bits) (\<lambda>message.
     bindc wire (\<lambda>num_blocks.
     bindc wire (\<lambda>msg_len_bytes.
     bindc (block_states_loop message max_blocks) (\<lambda>(state, block_states).
     bindc (wires max_blocks) (\<lambda>block_indicator.
     bindc (check (\<forall>ind \<in> set block_indicator. ind = ind * ind)) (\<lambda>_.
     bindc (check (foldl (\<lambda>ind_sum ind. ind_sum + ind) 0 block_indicator = 1)) (\<lambda>_.
     bindc (check (enum_dot block_indicator of_nat = num_blocks - 1)) (\<lambda>_.
     let final_state = map (\<lambda>j. enum_dot block_indicator (\<lambda>blk. block_states ! blk ! j)) [0..<8] in
     bindc (state_digest final_state) (\<lambda>digest.
     bindc (wires max_msg_bytes) (\<lambda>msg_byte_indicator.
     bindc (check (\<forall>ind \<in> set msg_byte_indicator. ind = ind * ind)) (\<lambda>_.
     bindc (check (foldl (\<lambda>byte_ind_sum ind. byte_ind_sum + ind) 0 msg_byte_indicator = 1)) (\<lambda>_.
     bindc (check (enum_dot msg_byte_indicator of_nat = msg_len_bytes)) (\<lambda>_.
     bindc (check (constrain_sha256_padding message msg_byte_indicator msg_len_bytes num_blocks max_blocks)) (\<lambda>_.
       ret \<lparr>sv_message = message, sv_digest = digest, sv_num_blocks = num_blocks, sv_msg_len_bytes = msg_len_bytes,
         sv_block_indicator = block_indicator, sv_msg_byte_indicator = msg_byte_indicator\<rparr>)))))))))))))))"

definition make_sha256_varlen_circuit :: "nat \<Rightarrow> sha256_varlen circuit" where
  "make_sha256_varlen_circuit max_msg_len_bytes =
     bindc (check (max_msg_len_bytes > 0)) (\<lambda>_.
     let max_msg_bits = max_msg_len_bytes * 8;
         max_blocks = div_ceil (max_msg_bits + 65) 512
     in make_varlen_circuits max_blocks)"

text \<open>
  \<open>fill_sha256_varlen_circuit_witness\<close>: the values of the targets for a message and its digest in
  a circuit of \<open>total_bits\<close> message bits.
\<close>

definition fill_sha256_varlen_circuit_witness :: "nat \<Rightarrow> bytes \<Rightarrow> bool list \<Rightarrow> sha256_varlen res" where
  "fill_sha256_varlen_circuit_witness max_blocks msg_bytes digest_bits =
     (let total_bits = max_blocks * 512;
          msg_len = length msg_bytes;
          msg_len_bits = msg_len * 8;
          block_count = div_ceil (msg_len_bits + 65) 512;
          padded_bit_len = block_count * 512
      in ensure (padded_bit_len \<le> total_bits) (Panic ''message too large'')
        (ensure (length digest_bits = 256) (Panic ''digest must be 256 bits'')
          (let padded_bits = msg_bits msg_bytes @ [True];
               zeros_needed = padded_bit_len - msg_len * 8 - 1 - 64;
               padded_bits = padded_bits @ replicate zeros_needed False;
               padded_bits = padded_bits @ map (\<lambda>i. bit (of_nat msg_len_bits :: u64) (63 - i)) [0..<64];
               padded_bits = take total_bits (padded_bits @ replicate (total_bits - length padded_bits) False)
           in Inr \<lparr>sv_message = map of_bool padded_bits, sv_digest = map of_bool digest_bits,
                sv_num_blocks = of_nat block_count, sv_msg_len_bytes = of_nat msg_len,
                sv_block_indicator = map (\<lambda>i. of_bool (i + 1 = block_count)) [0..<max_blocks],
                sv_msg_byte_indicator = map (\<lambda>p. of_bool (p = msg_len)) [0..<max_blocks * 64]\<rparr>)))"

subsection \<open>The chain of compressions\<close>

lemma length_sha_chain [simp]: "length (sha_chain bits n) = 8"
proof -
  have "length s = 8 \<Longrightarrow> length (foldl (\<lambda>st blk. sha_compress st (block_words (take 512 (drop (512 * blk) bits)))) s xs) = 8" for s xs
    by (induction xs arbitrary: s) simp_all
  then show ?thesis by (simp add: sha_chain_def H256_def)
qed

lemma sha_chain_Suc: "sha_chain bits (Suc n) = sha_compress (sha_chain bits n) (block_words (take 512 (drop (512 * n) bits)))"
  by (simp add: sha_chain_def)

lemma chain_step_exactly:
  assumes "512 * Suc blk \<le> length bits"
  shows "exactly (sha256_compress_block (map u32_val (sha_chain bits blk)) (take 512 (drop (blk * 512) (map of_bool bits))))
    (map u32_val (sha_chain bits (Suc blk)))"
proof -
  have "length (take 512 (drop (512 * blk) bits)) = 512" using assms by simp
  moreover have "take 512 (drop (blk * 512) (map of_bool bits)) = (map of_bool (take 512 (drop (512 * blk) bits)) :: gf list)"
    by (simp add: take_map drop_map mult.commute)
  ultimately show ?thesis unfolding sha_chain_Suc by (simp only:) (rule compress_block_exactly; simp)
qed

lemma block_states_exactly:
  assumes "512 * mb \<le> length bits"
  shows "exactly (block_states_loop (map of_bool bits) mb)
    (map u32_val (sha_chain bits mb), map (\<lambda>k. map u32_val (sha_chain bits (Suc k))) [0..<mb])"
proof -
  let ?S = "\<lambda>n. (map u32_val (sha_chain bits n), map (\<lambda>k. map u32_val (sha_chain bits (Suc k))) [0..<n])"
  have "([] :: gf list list) = map (\<lambda>k. map u32_val (sha_chain bits (Suc k))) [0..<0]" "map u32_val H256 = map u32_val (sha_chain bits 0)"
    by (simp_all add: sha_chain_def)
  then have loop: "block_states_loop (map of_bool bits) mb = foldc (\<lambda>(state, block_states) blk.
      bindc (sha256_compress_block state (take 512 (drop (blk * 512) (map of_bool bits)))) (\<lambda>state. ret (state, block_states @ [state]))) (?S 0) [0..<mb]"
    by (simp only: block_states_loop_def)
  show ?thesis
    unfolding loop
  proof (rule exactly_foldc_upt [where S = ?S])
    fix i assume "i < mb"
    then have "512 * Suc i \<le> length bits" using assms by simp
    from chain_step_exactly [OF this]
    show "exactly ((\<lambda>(state, block_states) blk.
        bindc (sha256_compress_block state (take 512 (drop (blk * 512) (map of_bool bits)))) (\<lambda>state. ret (state, block_states @ [state]))) (?S i) i) (?S (Suc i))"
      unfolding prod.case by (rule exactly_bindc) (simp add: exactly_ret)
  qed simp
qed

lemma blocks_cover:
  assumes "b \<in> set message" "length message = mb * 512"
  shows "\<exists>blk \<in> set [0..<mb]. b \<in> set (take 512 (drop (blk * 512) message))"
proof -
  obtain n where n: "n < mb * 512" "b = message ! n" using assms by (auto simp: in_set_conv_nth)
  have blk: "n div 512 < mb" using n by (simp add: less_mult_imp_div_less)
  have "n div 512 * 512 + n mod 512 = n" by (rule div_mult_mod_eq)
  then have "n mod 512 < mb * 512 - n div 512 * 512" using n(1) by linarith
  then have "b = take 512 (drop (n div 512 * 512) message) ! (n mod 512)" "n mod 512 < length (take 512 (drop (n div 512 * 512) message))"
    using n assms by simp_all
  then have "b \<in> set (take 512 (drop (n div 512 * 512) message))" by (metis nth_mem)
  then show ?thesis using blk by auto
qed

lemma blocks_all:
  assumes "length message = mb * 512" "\<forall>blk \<in> set [0..<mb]. \<forall>b \<in> set (take 512 (drop (blk * 512) message)). P b"
  shows "\<forall>b \<in> set message. P b"
proof
  fix b assume "b \<in> set message"
  then obtain blk where "blk \<in> set [0..<mb]" "b \<in> set (take 512 (drop (blk * 512) message))"
    using blocks_cover [OF _ assms(1)] by metis
  then show "P b" using assms(2) by blast
qed

lemma block_states_boolean:
  assumes "length message = mb * 512"
  shows "yields (block_states_loop message mb) (\<lambda>_. \<forall>b \<in> set message. b = 0 \<or> b = 1)"
proof -
  have "yields (block_states_loop message mb) (\<lambda>_. \<forall>blk \<in> set [0..<mb]. \<forall>b \<in> set (take 512 (drop (blk * 512) message)). b = 0 \<or> b = 1)"
    unfolding block_states_loop_def
  proof (rule foldc_steps)
    fix s blk
    show "yields ((\<lambda>(state, block_states) blk.
        bindc (sha256_compress_block state (take 512 (drop (blk * 512) message))) (\<lambda>state. ret (state, block_states @ [state]))) s blk)
      (\<lambda>_. \<forall>b \<in> set (take 512 (drop (blk * 512) message)). b = 0 \<or> b = 1)"
      using yieldsD [OF compress_block_boolean] by (auto simp: yields_def bindc_Some split: prod.splits) (blast dest: yieldsD [OF compress_block_boolean])
  qed
  then show ?thesis by (rule yields_mono) (rule blocks_all [OF assms])
qed

lemma state_digest_exactly:
  assumes "s = map u32_val ws"
  shows "exactly (state_digest s) (map of_bool (concat (map word_bits ws)))"
proof -
  have "exactly (mapc (\<lambda>word. bindc (split_le_base 2 word 32) (\<lambda>bit_targets. ret (map (\<lambda>j. bit_targets ! j) (rev [0..<32])))) (map u32_val ws)) (map gf_bits ws)"
  proof (induction ws)
    case (Cons w ws)
    then show ?case
      using u32_to_bits_exactly [OF refl, of w] unfolding u32_to_bits_target_def
      by (auto intro!: exactly_bindc [where v = "gf_bits w"] exactly_bindc [where v = "map gf_bits ws"] exactly_ret simp del: upt_Suc)
  qed (simp add: exactly_ret)
  then have "exactly (state_digest s) (concat (map gf_bits ws))"
    unfolding state_digest_def assms by (rule exactly_bindc) (rule exactly_ret [OF refl])
  also have "concat (map gf_bits ws) = map of_bool (concat (map word_bits ws))"
    by (simp add: map_concat gf_bits_def [abs_def] comp_def)
  finally show ?thesis .
qed

subsection \<open>What a satisfied variable-length circuit says\<close>

lemma make_varlen_circuitsE:
  assumes "make_varlen_circuits mb ws = Some (t, rest)"
  obtains state block_states w1 w1' w2 w2' where
    "1 \<le> mb" "length (sv_message t) = mb * 512"
    "block_states_loop (sv_message t) mb w1 = Some ((state, block_states), w1')"
    "length (sv_block_indicator t) = mb" "length (sv_msg_byte_indicator t) = mb * 64"
    "make_one_hot_indicator mb 0 \<lparr>indicator = sv_block_indicator t, oh_value = sv_num_blocks t - 1\<rparr>"
    "state_digest (map (\<lambda>j. enum_dot (sv_block_indicator t) (\<lambda>blk. block_states ! blk ! j)) [0..<8]) w2 = Some (sv_digest t, w2')"
    "make_one_hot_indicator (mb * 64) 0 \<lparr>indicator = sv_msg_byte_indicator t, oh_value = sv_msg_len_bytes t\<rparr>"
    "constrain_sha256_padding (sv_message t) (sv_msg_byte_indicator t) (sv_msg_len_bytes t) (sv_num_blocks t) mb"
  using assms
  unfolding make_varlen_circuits_def Let_def
  by (auto simp: bindc_Some make_one_hot_indicator_def split: prod.splits simp del: upt_Suc)

lemma range_check_of_int:
  assumes "k \<le> 62" "- (2 ^ 62) < z" "z < 2 ^ 62"
  shows "range_check (of_int z) k \<longleftrightarrow> 0 \<le> z \<and> z < 2 ^ k"
proof -
  have k: "(2 :: int) ^ k \<le> 2 ^ 62" using assms(1) by (intro power_increasing) simp_all
  have c: "int (canon (of_int z)) = z mod 18446744069414584321"
    by (simp add: canon_def rep_of_int)
  have r: "range_check (of_int z) k \<longleftrightarrow> z mod 18446744069414584321 < 2 ^ k"
    unfolding range_check_def using c by (metis of_nat_less_iff of_nat_numeral of_nat_power)
  show ?thesis
  proof (cases "0 \<le> z")
    case True
    then have "z mod 18446744069414584321 = z" using assms(3) by (intro mod_pos_pos_trivial) simp_all
    then show ?thesis using r True by simp
  next
    case False
    then have "z mod 18446744069414584321 = z + 18446744069414584321"
      using assms(2) by (intro mod_add_self2 [of z, symmetric, THEN trans] mod_pos_pos_trivial) simp_all
    then have "\<not> z mod 18446744069414584321 < 2 ^ k" using assms(2) k by simp
    then show ?thesis using r False by simp
  qed
qed

lemma next_power_of_two_le: "n \<le> 2 ^ j \<Longrightarrow> next_power_of_two n \<le> 2 ^ j"
proof (induction n arbitrary: j rule: next_power_of_two.induct)
  case (1 n)
  show ?case
  proof (cases "n \<le> 1")
    case True
    then show ?thesis by (subst next_power_of_two.simps) simp
  next
    case False
    then obtain i where j: "j = Suc i" using 1(2) by (cases j) auto
    then have "(n + 1) div 2 \<le> 2 ^ i" using 1(2) by simp
    then show ?thesis using 1(1) [OF False] False j by (subst next_power_of_two.simps) simp
  qed
qed

lemma trailing_zeros_power: "k < 64 \<Longrightarrow> trailing_zeros (2 ^ k) = k"
proof -
  assume k: "k < 64"
  have "[0..<64] = [0..<k] @ k # [Suc k..<64]" using k upt_add_eq_append [of 0 k "64 - k"] by (simp add: upt_conv_Cons del: upt_Suc)
  moreover have "takeWhile (\<lambda>i. \<not> bit (2 ^ k :: nat) i) ([0..<k] @ k # xs) = [0..<k]" for xs
    by (subst takeWhile_append2) (auto simp: bit_exp_iff)
  ultimately show ?thesis by (simp add: trailing_zeros_def del: upt_Suc)
qed

lemma range_bits_bound:
  assumes "mb < 2 ^ 32"
  obtains k where "trailing_zeros (next_power_of_two (mb * 64)) + 1 = Suc k" "mb * 64 \<le> 2 ^ k" "k \<le> 38"
proof -
  obtain k where k: "next_power_of_two (mb * 64) = 2 ^ k" using next_power_of_two_power by blast
  have "mb * 64 \<le> 2 ^ 38" using assms by simp
  then have "(2 :: nat) ^ k \<le> 2 ^ 38" using next_power_of_two_le [of "mb * 64" 38] k by simp
  then have "k \<le> 38" by (simp only: power_increasing_iff)
  moreover have "mb * 64 \<le> 2 ^ k" using next_power_of_two_ge [of "mb * 64"] k by simp
  ultimately show ?thesis using that trailing_zeros_power [of k] k by simp
qed

lemma sha_bounds_iff:
  assumes n: "n \<le> mb" and l: "len < mb * 64" and mb: "mb < 2 ^ 32"
  shows "range_check (of_nat n * 64 - of_nat len - 9) (trailing_zeros (next_power_of_two (mb * 64)) + 1)
      \<and> range_check (of_nat len + 72 - of_nat n * 64) (trailing_zeros (next_power_of_two (mb * 64)) + 1)
    \<longleftrightarrow> len + 9 \<le> 64 * n \<and> 64 * n \<le> len + 72"
proof -
  obtain k where k: "trailing_zeros (next_power_of_two (mb * 64)) + 1 = Suc k" "mb * 64 \<le> 2 ^ k" "k \<le> 38"
    using range_bits_bound [OF mb] .
  let ?u = "int n * 64 - int len - 9" and ?l = "int len + 72 - int n * 64"
  have e: "of_nat n * 64 - of_nat len - 9 = (of_int ?u :: gf)" "of_nat len + 72 - of_nat n * 64 = (of_int ?l :: gf)" by simp_all
  have "int n < 4294967296" "int len < 274877906944" "64 \<le> mb * 64" using n l mb by simp_all
  then have b: "- (2 ^ 62) < ?u" "?u < 2 ^ 62" "- (2 ^ 62) < ?l" "?l < 2 ^ 62" by simp_all
  have "(64 :: nat) \<le> 2 ^ k" using k(2) \<open>64 \<le> mb * 64\<close> by linarith
  then have pow: "(64 :: int) \<le> 2 ^ k" by (metis of_nat_le_iff of_nat_numeral of_nat_power)
  have "range_check (of_int ?u) (Suc k) \<longleftrightarrow> 0 \<le> ?u \<and> ?u < 2 ^ Suc k"
    by (rule range_check_of_int [OF _ b(1,2)]) (use k(3) in simp)
  moreover have "range_check (of_int ?l) (Suc k) \<longleftrightarrow> 0 \<le> ?l \<and> ?l < 2 ^ Suc k"
    by (rule range_check_of_int [OF _ b(3,4)]) (use k(3) in simp)
  moreover have "0 \<le> ?u \<Longrightarrow> 0 \<le> ?l \<Longrightarrow> ?u < 2 ^ Suc k \<and> ?l < 2 ^ Suc k"
    using pow by (simp only: power_Suc) linarith
  ultimately show ?thesis unfolding k(1) e by auto
qed

text \<open>
  The assignments the variable-length circuit admits: any bits, a number of blocks and a message
  length such that the byte after the message is 0x80 and the message with nine more bytes ends in
  the last block.  Nothing is required of the other padding bits.
\<close>

definition marked_length :: "nat \<Rightarrow> bool list \<Rightarrow> nat \<Rightarrow> nat \<Rightarrow> bool" where
  "marked_length max_blocks bits blocks len \<longleftrightarrow>
     length bits = 512 * max_blocks \<and> 1 \<le> blocks \<and> blocks \<le> max_blocks
   \<and> len + 9 \<le> 64 * blocks \<and> 64 * blocks \<le> len + 72
   \<and> take 8 (drop (8 * len) bits) = [True, False, False, False, False, False, False, False]"

definition varlen_targets :: "nat \<Rightarrow> bool list \<Rightarrow> nat \<Rightarrow> nat \<Rightarrow> sha256_varlen" where
  "varlen_targets max_blocks bits blocks len =
     \<lparr>sv_message = map of_bool bits, sv_digest = map of_bool (concat (map word_bits (sha_chain bits blocks))),
      sv_num_blocks = of_nat blocks, sv_msg_len_bytes = of_nat len,
      sv_block_indicator = unit_vec max_blocks (blocks - 1), sv_msg_byte_indicator = unit_vec (max_blocks * 64) len\<rparr>"

lemma selected_bit:
  assumes "len < mb * 64" "off < 8" "length message = mb * 512"
  shows "foldl (\<lambda>selected_bit (p, ind).
      let bit_idx = p * 8 + off in if bit_idx < length message then selected_bit + ind * message ! bit_idx else selected_bit)
    0 (enumerate 0 (unit_vec (mb * 64) len)) = message ! (len * 8 + off)"
proof -
  let ?f = "\<lambda>selected_bit (p, ind). let bit_idx = p * 8 + off in if bit_idx < length message then selected_bit + ind * message ! bit_idx else selected_bit"
  have "?f acc pr = (case pr of (p, ind) \<Rightarrow> acc + ind * (message ! (p * 8 + off)))" if "pr \<in> set (enumerate 0 (unit_vec (mb * 64) len))" for acc pr
  proof -
    obtain p ind where pr: "pr = (p, ind)" by (cases pr)
    then have "p < mb * 64" using that by (simp add: in_set_enumerate_eq)
    then have "p * 8 + off < length message" using assms(2,3) by simp
    then show ?thesis by (simp add: pr Let_def)
  qed
  then have "foldl ?f 0 (enumerate 0 (unit_vec (mb * 64) len)) = enum_dot (unit_vec (mb * 64) len) (\<lambda>p. message ! (p * 8 + off))"
    unfolding enum_dot_def by (intro foldl_cong) (auto split: prod.splits)
  then show ?thesis using assms(1) by simp
qed

lemma padding_iff:
  assumes bits: "length bits = 512 * mb" and n: "1 \<le> n" "n \<le> mb" and len: "len < mb * 64" and mb: "mb < 2 ^ 32"
  shows "constrain_sha256_padding (map of_bool bits) (unit_vec (mb * 64) len) (of_nat len) (of_nat n) mb \<longleftrightarrow> marked_length mb bits n len"
proof -
  have nth: "(map of_bool bits ! (len * 8 + off) :: gf) = of_bool (bits ! (len * 8 + off))" if "off < 8" for off
    using that bits len by (intro nth_map) simp
  have of_bool_if: "(of_bool b :: gf) = (if c then 1 else 0) \<longleftrightarrow> (b \<longleftrightarrow> c)" for b c by (cases b; cases c) simp_all
  have len8: "length (take 8 (drop (8 * len) bits)) = 8" using bits len by simp
  have "(\<forall>off < 8. bits ! (len * 8 + off) \<longleftrightarrow> off = 0) \<longleftrightarrow> (\<forall>off < 8. take 8 (drop (8 * len) bits) ! off \<longleftrightarrow> off = 0)"
    using bits len by (simp add: mult.commute)
  also have "\<dots> \<longleftrightarrow> (\<forall>off < 8. take 8 (drop (8 * len) bits) ! off = [True, False, False, False, False, False, False, False] ! off)"
  proof -
    have "\<forall>off < 8. [True, False, False, False, False, False, False, False] ! off \<longleftrightarrow> off = 0"
      by (simp add: All_less_Suc numeral_eq_Suc)
    then show ?thesis by blast
  qed
  also have "\<dots> \<longleftrightarrow> take 8 (drop (8 * len) bits) = [True, False, False, False, False, False, False, False]"
    unfolding list_eq_iff_nth_eq len8 by simp
  finally have marker: "(\<forall>off < 8. (of_bool (bits ! (len * 8 + off)) :: gf) = (if off = 0 then 1 else 0)) \<longleftrightarrow>
      take 8 (drop (8 * len) bits) = [True, False, False, False, False, False, False, False]"
    unfolding of_bool_if .
  have sel: "(\<forall>off < 8. foldl (\<lambda>selected_bit (p, ind).
        let bit_idx = p * 8 + off in if bit_idx < length (map of_bool bits :: gf list) then selected_bit + ind * map of_bool bits ! bit_idx else selected_bit)
      0 (enumerate 0 (unit_vec (mb * 64) len)) = (if off = 0 then 1 else 0)) \<longleftrightarrow>
      (\<forall>off < 8. (of_bool (bits ! (len * 8 + off)) :: gf) = (if off = 0 then 1 else 0))"
    using selected_bit [OF len, of _ "map of_bool bits"] bits nth by (simp add: mult.commute)
  show ?thesis
    unfolding constrain_sha256_padding_def Let_def
    using sel [unfolded Let_def marker] sha_bounds_iff [OF n(2) len mb] bits n
    by (simp add: marked_length_def) blast
qed

lemma selected_state:
  assumes "n < mb"
  shows "map (\<lambda>j. enum_dot (unit_vec mb n) (\<lambda>blk. map (\<lambda>k. map u32_val (sha_chain bits (Suc k))) [0..<mb] ! blk ! j)) [0..<8]
    = map u32_val (sha_chain bits (Suc n))"
  by (rule nth_equalityI) (use assms in \<open>simp_all del: upt_Suc\<close>)

lemma make_varlen_circuits_sound:
  assumes run: "make_varlen_circuits mb ws = Some (t, rest)" and mb: "mb < 2 ^ 32"
  shows "\<exists>bits blocks len. marked_length mb bits blocks len \<and> t = varlen_targets mb bits blocks len"
proof -
  obtain state block_states w1 w1' w2 w2' where c: "1 \<le> mb" "length (sv_message t) = mb * 512"
      "block_states_loop (sv_message t) mb w1 = Some ((state, block_states), w1')"
      "length (sv_block_indicator t) = mb" "length (sv_msg_byte_indicator t) = mb * 64"
      "make_one_hot_indicator mb 0 \<lparr>indicator = sv_block_indicator t, oh_value = sv_num_blocks t - 1\<rparr>"
      "state_digest (map (\<lambda>j. enum_dot (sv_block_indicator t) (\<lambda>blk. block_states ! blk ! j)) [0..<8]) w2 = Some (sv_digest t, w2')"
      "make_one_hot_indicator (mb * 64) 0 \<lparr>indicator = sv_msg_byte_indicator t, oh_value = sv_msg_len_bytes t\<rparr>"
      "constrain_sha256_padding (sv_message t) (sv_msg_byte_indicator t) (sv_msg_len_bytes t) (sv_num_blocks t) mb"
    using make_varlen_circuitsE [OF run] by metis
  have "\<forall>b \<in> set (sv_message t). b = 0 \<or> b = 1" using yieldsD [OF block_states_boolean [OF c(2)], of w1 _ w1'] c(3) by blast
  then obtain bits where bits: "sv_message t = map of_bool bits" "length bits = mb * 512"
    using boolean_wires c(2) by metis
  have small: "mb < goldilocks_order" "mb * 64 < goldilocks_order" using mb by simp_all
  obtain n where n: "n < mb" "sv_block_indicator t = unit_vec mb n" "sv_num_blocks t - 1 = of_nat n"
    using make_one_hot_indicator_iff [OF small(1)] c(6) by (auto simp: one_hot_at_def)
  obtain len where len: "len < mb * 64" "sv_msg_byte_indicator t = unit_vec (mb * 64) len" "sv_msg_len_bytes t = of_nat len"
    using make_one_hot_indicator_iff [OF small(2)] c(8) by (auto simp: one_hot_at_def)
  have nb: "sv_num_blocks t = of_nat (Suc n)" using n(3) by (simp add: diff_eq_eq add.commute)
  have "exactly (block_states_loop (sv_message t) mb)
      (map u32_val (sha_chain bits mb), map (\<lambda>k. map u32_val (sha_chain bits (Suc k))) [0..<mb])"
    unfolding bits(1) by (rule block_states_exactly) (simp add: bits(2))
  then have bs: "block_states = map (\<lambda>k. map u32_val (sha_chain bits (Suc k))) [0..<mb]"
    using exactlyD [where c = "block_states_loop (sv_message t) mb" and ws = w1 and rest = w1'] c(3) by blast
  have digest: "sv_digest t = map of_bool (concat (map word_bits (sha_chain bits (Suc n))))"
    using c(7) unfolding n(2) bs selected_state [OF n(1)] by (rule exactlyD [OF state_digest_exactly [OF refl]])
  have "marked_length mb bits (Suc n) len"
    using c(9) padding_iff [of bits mb "Suc n" len] bits n(1) len mb by (simp add: nb mult.commute)
  moreover have "t = varlen_targets mb bits (Suc n) len"
    using bits n len nb digest by (auto simp: varlen_targets_def intro: sha256_varlen.equality)
  ultimately show ?thesis by blast
qed

lemma make_varlen_circuits_complete:
  assumes m: "marked_length mb bits blocks len" and mb: "mb < 2 ^ 32"
  shows "reaches (make_varlen_circuits mb) (varlen_targets mb bits blocks len)"
proof -
  have b: "length bits = mb * 512" "1 \<le> blocks" "blocks \<le> mb" using m by (simp_all add: marked_length_def)
  have "64 * blocks \<le> 64 * mb" using b by simp
  then have len: "len < mb * 64" using m unfolding marked_length_def by linarith
  obtain n where n: "blocks = Suc n" "n < mb" using b by (cases blocks) auto
  let ?states = "map (\<lambda>k. map u32_val (sha_chain bits (Suc k))) [0..<mb]"
  have loop: "reaches (block_states_loop (map of_bool bits) mb) (map u32_val (sha_chain bits mb), ?states)"
    using block_states_exactly [of mb bits] b by (simp add: exactly_reaches)
  have dig: "reaches (state_digest (map u32_val (sha_chain bits (Suc n)))) (map of_bool (concat (map word_bits (sha_chain bits (Suc n)))))"
    by (rule exactly_reaches [OF state_digest_exactly [OF refl]])
  have small: "mb < goldilocks_order" "mb * 64 < goldilocks_order" using mb by simp_all
  have oh: "make_one_hot_indicator mb 0 \<lparr>indicator = unit_vec mb n, oh_value = of_nat n\<rparr>"
      "make_one_hot_indicator (mb * 64) 0 \<lparr>indicator = unit_vec (mb * 64) len, oh_value = of_nat len\<rparr>"
    using make_one_hot_indicator_iff [OF small(1), of 0] make_one_hot_indicator_iff [OF small(2), of 0] n(2) len
    by (auto simp: one_hot_at_def)
  have pad: "constrain_sha256_padding (map of_bool bits) (unit_vec (mb * 64) len) (of_nat len) (of_nat blocks) mb"
    using padding_iff [of bits mb blocks len] b len mb m by (simp add: mult.commute)
  show ?thesis
    unfolding make_varlen_circuits_def Let_def
    apply (rule reaches_bindc [where v = "()"], rule reaches_check, use b in simp)
    apply (rule reaches_bindc [where v = "map of_bool bits"], rule reaches_wires, use b in simp)
    apply (rule reaches_bindc [where v = "of_nat blocks"], rule reaches_wire)
    apply (rule reaches_bindc [where v = "of_nat len"], rule reaches_wire)
    apply (rule reaches_bindc [OF loop], unfold prod.case)
    apply (rule reaches_bindc [where v = "unit_vec mb n"], rule reaches_wires, simp)
    apply (rule reaches_bindc [where v = "()"], rule reaches_check, use oh(1) in \<open>simp add: make_one_hot_indicator_def\<close>)
    apply (rule reaches_bindc [where v = "()"], rule reaches_check, use oh(1) in \<open>simp add: make_one_hot_indicator_def\<close>)
    apply (rule reaches_bindc [where v = "()"], rule reaches_check, use n in simp)
    apply (unfold selected_state [OF n(2)])
    apply (rule reaches_bindc [OF dig])
    apply (rule reaches_bindc [where v = "unit_vec (mb * 64) len"], rule reaches_wires, simp)
    apply (rule reaches_bindc [where v = "()"], rule reaches_check, use oh(2) in \<open>simp add: make_one_hot_indicator_def\<close>)
    apply (rule reaches_bindc [where v = "()"], rule reaches_check, use oh(2) in \<open>simp add: make_one_hot_indicator_def\<close>)
    apply (rule reaches_bindc [where v = "()"], rule reaches_check, use len in simp)
    apply (rule reaches_bindc [where v = "()"], rule reaches_check, rule pad)
    apply (simp add: varlen_targets_def n reaches_ret)
    done
qed

subsection \<open>Messages and their padding\<close>

lemma length_byte_bits [simp]: "length (byte_bits b) = 8"
  by (simp add: byte_bits_def)

lemma length_msg_bits [simp, size_simps]: "length (msg_bits msg) = 8 * length msg"
  by (induction msg) (simp_all add: msg_bits_def)

lemma byte_of_bits_inverse: "length bs = 8 \<Longrightarrow> byte_bits (byte_of_bits bs) = bs"
proof (rule nth_equalityI)
  fix i assume bs: "length bs = 8" and "i < length (byte_bits (byte_of_bits bs))"
  then have i: "i < 8" "7 - i < 8" by simp_all
  then show "byte_bits (byte_of_bits bs) ! i = bs ! i"
    using bs by (simp add: byte_bits_def byte_of_bits_def bit_horner_sum_bit_word_iff rev_nth del: upt_Suc)
qed simp

lemma msg_bits_surj: "length bs = 8 * n \<Longrightarrow> \<exists>msg. length msg = n \<and> msg_bits msg = bs"
proof (induction n arbitrary: bs)
  case 0
  then show ?case by (intro exI [of _ "[]"]) (simp add: msg_bits_def)
next
  case (Suc n)
  have "length (drop 8 bs) = 8 * n" using Suc.prems by simp
  then obtain msg where "length msg = n" "msg_bits msg = drop 8 bs" using Suc.IH by blast
  then show ?case using Suc.prems byte_of_bits_inverse [of "take 8 bs"]
    by (intro exI [of _ "byte_of_bits (take 8 bs) # msg"]) (simp add: msg_bits_def)
qed

lemma sha_blocks_bounds: "8 * n + 65 \<le> 512 * sha_blocks n" "512 * sha_blocks n < 8 * n + 65 + 512" "1 \<le> sha_blocks n"
proof -
  have "512 * sha_blocks n + (8 * n + 576) mod 512 = 8 * n + 576"
    using mult_div_mod_eq [of 512 "8 * n + 576"] by (simp only: sha_blocks_def) (simp add: add.assoc)
  moreover have "(8 * n + 576) mod 512 < 512" by simp
  ultimately show b: "8 * n + 65 \<le> 512 * sha_blocks n" "512 * sha_blocks n < 8 * n + 65 + 512" by linarith+
  show "1 \<le> sha_blocks n" using b(1) by (cases "sha_blocks n") simp_all
qed

text \<open>The padding of whole bytes leaves room for the seven zero bits after the marker bit.\<close>

lemma sha_pad_room: "8 * n + 72 \<le> 512 * sha_blocks n"
proof (rule ccontr)
  assume "\<not> 8 * n + 72 \<le> 512 * sha_blocks n"
  then have "64 * sha_blocks n < n + 9" by linarith
  then have "64 * sha_blocks n \<le> n + 8" by simp
  then show False using sha_blocks_bounds(1) [of n] by linarith
qed

lemma length_sha_pad: "length (sha_pad msg) = 512 * sha_blocks (length msg)"
  using sha_blocks_bounds(1) [of "length msg"] by (simp add: sha_pad_def del: upt_Suc)

lemma sha_chain_cong:
  assumes "take (512 * n) bits = take (512 * n) bits'"
  shows "sha_chain bits n = sha_chain bits' n"
proof -
  have "take 512 (drop (512 * blk) bits) = take 512 (drop (512 * blk) bits')" if "blk < n" for blk
  proof -
    have le: "512 * blk + 512 \<le> 512 * n" using that by simp
    have "take 512 (drop (512 * blk) xs) = take 512 (drop (512 * blk) (take (512 * n) xs))" for xs :: "bool list"
      using le by (simp add: drop_take min_def)
    then show ?thesis using assms by metis
  qed
  then show ?thesis unfolding sha_chain_def by (intro foldl_cong) simp_all
qed

lemma sha_pad_marker: "take 8 (drop (8 * length msg) (sha_pad msg)) = [True, False, False, False, False, False, False, False]"
proof -
  have z: "7 \<le> 512 * sha_blocks (length msg) - 8 * length msg - 65"
    using sha_pad_room [of "length msg"] by linarith
  have "replicate n False = replicate 7 False @ replicate (n - 7) False" if "7 \<le> n" for n
    using that by (simp add: replicate_add [symmetric])
  from this [OF z] show ?thesis by (simp add: sha_pad_def numeral_eq_Suc del: upt_Suc)
qed

lemma marked_length_sha_pad:
  assumes "sha_blocks (length msg) \<le> mb"
  shows "marked_length mb (sha_pad msg @ replicate (512 * mb - 512 * sha_blocks (length msg)) False) (sha_blocks (length msg)) (length msg)"
proof -
  have "8 * length msg + 8 \<le> length (sha_pad msg)" using sha_blocks_bounds(1) [of "length msg"] by (simp add: length_sha_pad)
  then show ?thesis
    using assms sha_blocks_bounds [of "length msg"] sha_pad_marker [of msg]
    by (simp add: marked_length_def length_sha_pad)
qed

lemma fill_sha256_varlen:
  assumes "fill_sha256_varlen_circuit_witness mb msg digest = Inr t" "digest = sha256_bits msg"
  shows "t = varlen_targets mb (sha_pad msg @ replicate (512 * mb - 512 * sha_blocks (length msg)) False) (sha_blocks (length msg)) (length msg)"
    "sha_blocks (length msg) \<le> mb"
proof -
  let ?n = "sha_blocks (length msg)"
  have blocks: "div_ceil (length msg * 8 + 65) 512 = ?n" by (simp add: div_ceil_def sha_blocks_def mult.commute)
  have le: "?n \<le> mb" using assms(1) by (simp add: fill_sha256_varlen_circuit_witness_def Let_def blocks)
  then show "?n \<le> mb" .
  let ?bits = "sha_pad msg @ replicate (512 * mb - 512 * ?n) False"
  have pad: "((msg_bits msg @ [True]) @ replicate (?n * 512 - length msg * 8 - 1 - 64) False) @ map (\<lambda>i. bit (of_nat (length msg * 8) :: u64) (63 - i)) [0..<64] = sha_pad msg"
    by (simp add: sha_pad_def mult.commute del: upt_Suc)
  have len: "length (sha_pad msg @ replicate (mb * 512 - length (sha_pad msg)) False) = mb * 512"
    using le by (simp add: length_sha_pad mult.commute)
  have bits: "take (mb * 512) (sha_pad msg @ replicate (mb * 512 - length (sha_pad msg)) False) = ?bits"
    using len by (simp add: length_sha_pad mult.commute)
  have chain: "sha_chain ?bits ?n = sha_chain (sha_pad msg) ?n" by (rule sha_chain_cong) (simp add: length_sha_pad)
  have "unit_vec mb (?n - 1) = map (\<lambda>i. of_bool (i + 1 = ?n)) [0..<mb]"
    using sha_blocks_bounds(3) [of "length msg"] by (auto simp: unit_vec_def)
  moreover have "unit_vec (mb * 64) (length msg) = map (\<lambda>p. of_bool (p = length msg)) [0..<mb * 64]" by (simp add: unit_vec_def)
  ultimately show "t = varlen_targets mb ?bits ?n (length msg)"
    using assms(1) unfolding fill_sha256_varlen_circuit_witness_def Let_def blocks pad bits varlen_targets_def chain
    by (simp add: assms(2) sha256_bits_def)
qed

lemma length_sha256_bits [simp]: "length (sha256_bits msg) = 256"
proof -
  have "length (concat (map word_bits ws)) = 32 * length ws" for ws by (induction ws) simp_all
  then show ?thesis by (simp add: sha256_bits_def)
qed

subsection \<open>The fixed-length circuit hashes its message\<close>

lemma fixed_chain_exactly:
  assumes "length bits = 512 * n"
  shows "exactly (foldc (\<lambda>state blk. sha256_compress_block state (take 512 (drop (blk * 512) (map of_bool bits)))) (map u32_val H256) [0..<n])
    (map u32_val (sha_chain bits n))"
proof -
  let ?f = "\<lambda>state blk. sha256_compress_block state (take 512 (drop (blk * 512) (map of_bool bits)))"
  have "exactly (foldc ?f (map u32_val (sha_chain bits 0)) [0..<n]) (map u32_val (sha_chain bits n))"
  proof (rule exactly_foldc_upt [where S = "\<lambda>i. map u32_val (sha_chain bits i)"])
    fix i assume "i < n"
    then show "exactly (?f (map u32_val (sha_chain bits i)) i) (map u32_val (sha_chain bits (Suc i)))"
      using assms by (intro chain_step_exactly) simp
  qed simp
  then show ?thesis by (simp add: sha_chain_def)
qed

lemma fixed_chain_boolean:
  assumes "length message = 512 * n"
  shows "yields (foldc (\<lambda>state blk. sha256_compress_block state (take 512 (drop (blk * 512) message))) s [0..<n])
    (\<lambda>_. \<forall>b \<in> set message. b = 0 \<or> b = 1)"
proof -
  have "yields (foldc (\<lambda>state blk. sha256_compress_block state (take 512 (drop (blk * 512) message))) s [0..<n])
      (\<lambda>_. \<forall>blk \<in> set [0..<n]. \<forall>b \<in> set (take 512 (drop (blk * 512) message)). b = 0 \<or> b = 1)"
    by (rule foldc_steps) (rule compress_block_boolean)
  then show ?thesis by (rule yields_mono) (rule blocks_all, simp_all add: assms)
qed

lemma make_circuits_exact:
  "(\<exists>ws rest. make_circuits (8 * n) ws = Some (out, rest)) \<longleftrightarrow>
   (\<exists>msg. length msg = n \<and> out = (map of_bool (sha_pad msg), map of_bool (sha256_bits msg)))"
proof -
  let ?n = "sha_blocks n"
  let ?p = "512 * ?n - 64 - 8 * n"
  have p: "1 < ?p" using sha_pad_room [of n] by linarith
  have n: "(8 * n + 65 + 511) div 512 = ?n" by (simp add: sha_blocks_def)
  let ?msg = "\<lambda>msg. msg @ [1] @ replicate (?p - 1) 0 @ map (\<lambda>i. of_bool (bit (of_nat (8 * n) :: u64) (63 - i))) [0..<64]"
  let ?chain = "\<lambda>msg. foldc (\<lambda>state blk. sha256_compress_block state (take 512 (drop (blk * 512) (?msg msg)))) (map u32_val H256) [0..<?n]"
  have def: "make_circuits (8 * n) = bindc (check (?p > 1)) (\<lambda>_. bindc (wires (8 * n)) (\<lambda>msg.
      bindc (?chain msg) (\<lambda>state. bindc (state_digest state) (\<lambda>digest. ret (?msg msg, digest)))))"
    unfolding make_circuits_def Let_def n ..
  have len: "length (?msg msg) = 512 * ?n" if "length msg = 8 * n" for msg using that p by simp
  have pad: "?msg (map of_bool (msg_bits msg)) = map of_bool (sha_pad msg)" if "length msg = n" for msg
    using that by (simp add: sha_pad_def del: upt_Suc)
  have dig: "exactly (state_digest (map u32_val (sha_chain (sha_pad msg) ?n))) (map of_bool (sha256_bits msg))" if "length msg = n" for msg
    using state_digest_exactly [OF refl, of "sha_chain (sha_pad msg) ?n"] that by (simp add: sha256_bits_def)
  have chain: "exactly (?chain (map of_bool (msg_bits msg))) (map u32_val (sha_chain (sha_pad msg) ?n))" if "length msg = n" for msg
    unfolding pad [OF that] by (rule fixed_chain_exactly) (simp add: length_sha_pad that)
  show ?thesis
  proof
    assume "\<exists>ws rest. make_circuits (8 * n) ws = Some (out, rest)"
    then obtain bits w1 w2 w3 state digest rest where r: "length bits = 8 * n" "?chain bits w1 = Some (state, w2)"
        "state_digest state w2 = Some (digest, w3)" "out = (?msg bits, digest)"
      unfolding def by (auto simp: bindc_Some)
    have "\<forall>b \<in> set (?msg bits). b = 0 \<or> b = 1"
      using yieldsD [OF fixed_chain_boolean [OF len [OF r(1)]] r(2)] .
    then have "\<forall>b \<in> set bits. b = 0 \<or> b = 1" by simp
    then obtain bs where "bits = map of_bool bs" "length bs = 8 * n" using boolean_wires r(1) by metis
    then obtain msg where m: "length msg = n" "bits = map of_bool (msg_bits msg)" using msg_bits_surj by metis
    have "state = map u32_val (sha_chain (sha_pad msg) ?n)" using exactlyD [OF chain [OF m(1)]] r(2) unfolding m(2) by blast
    then have "digest = map of_bool (sha256_bits msg)" using exactlyD [OF dig [OF m(1)]] r(3) by blast
    then show "\<exists>msg. length msg = n \<and> out = (map of_bool (sha_pad msg), map of_bool (sha256_bits msg))"
      using m r(4) pad by blast
  next
    assume "\<exists>msg. length msg = n \<and> out = (map of_bool (sha_pad msg), map of_bool (sha256_bits msg))"
    then obtain msg where m: "length msg = n" "out = (?msg (map of_bool (msg_bits msg)), map of_bool (sha256_bits msg))"
      using pad by metis
    let ?bits = "map of_bool (msg_bits msg)"
    have "reaches (bindc (?chain ?bits) (\<lambda>state. bindc (state_digest state) (\<lambda>digest. ret (?msg ?bits, digest)))) out"
      unfolding m(2)
      by (rule reaches_bindc [OF exactly_reaches [OF chain [OF m(1)]]], rule reaches_bindc [OF exactly_reaches [OF dig [OF m(1)]]], rule reaches_ret)
    then have "reaches (make_circuits (8 * n)) out"
      unfolding def using p m(1)
      by (intro reaches_bindc [OF reaches_check] reaches_bindc [where v = ?bits, OF reaches_wires]) simp_all
    then show "\<exists>ws rest. make_circuits (8 * n) ws = Some (out, rest)" by (auto simp: reaches_def)
  qed
qed

end
