(* ===== verification/Sha_Properties.thy ===== *)
theory Sha_Properties
  imports Sha256_Varlen
begin

text \<open>
  Properties of the hash circuits: every satisfying assignment of the fixed-length circuit carries
  SHA-256 of its message, and the satisfying assignments of the variable-length circuit are listed.
\<close>

text \<open>C28: Equivalence with the standard.  The assignments that satisfy the circuit for messages of
  \<open>n\<close> bytes are exactly those of a message, its padding and its SHA-256 digest: no private wire of
  the compression rounds can be chosen so that another digest comes out.\<close>

theorem sha256_circuit_exact:
  "(\<exists>ws rest. make_circuits (8 * n) ws = Some (targets, rest)) \<longleftrightarrow>
   (\<exists>msg. length msg = n \<and> targets = (map of_bool (sha_pad msg), map of_bool (sha256_bits msg)))"
  by (rule make_circuits_exact)

lemma varlen_blocks_small:
  assumes "max_len < 2 ^ 32"
  shows "div_ceil (max_len * 8 + 65) 512 < 2 ^ 32"
proof -
  have "max_len * 8 + 65 + 512 - 1 < 512 * 2 ^ 32" using assms by simp
  then show ?thesis unfolding div_ceil_def by (simp add: less_mult_imp_div_less mult.commute)
qed

text \<open>C29: The variable-length circuit.  Its satisfying assignments are exactly those of a bit string,
  a number of blocks and a length such that the digest is the chaining value after these blocks,
  the byte at the length is 0x80 and the length with nine more bytes ends in the last block.  The zero
  bits and the length field that SHA-256 puts after 0x80 are not compared.\<close>

theorem sha256_varlen_exact:
  assumes "0 < max_len" "max_len < 2 ^ 32"
  shows "(\<exists>ws rest. make_sha256_varlen_circuit max_len ws = Some (t, rest)) \<longleftrightarrow>
    (\<exists>bits blocks len. marked_length (div_ceil (max_len * 8 + 65) 512) bits blocks len
      \<and> t = varlen_targets (div_ceil (max_len * 8 + 65) 512) bits blocks len)"
proof -
  let ?mb = "div_ceil (max_len * 8 + 65) 512"
  have run: "make_sha256_varlen_circuit max_len ws = make_varlen_circuits ?mb ws" for ws
    using assms(1) by (simp add: make_sha256_varlen_circuit_def Let_def bindc_def check_def)
  note mb = varlen_blocks_small [OF assms(2)]
  show ?thesis
    unfolding run using make_varlen_circuits_sound [OF _ mb] make_varlen_circuits_complete [OF _ mb]
    by (auto simp: reaches_def) blast
qed

theorem sha256_varlen_exact_witness:
  "\<forall>t. (\<exists>ws rest. make_sha256_varlen_circuit 100 ws = Some (t, rest)) \<longleftrightarrow>
    (\<exists>bits blocks len. marked_length (div_ceil (100 * 8 + 65) 512) bits blocks len
      \<and> t = varlen_targets (div_ceil (100 * 8 + 65) 512) bits blocks len)"
  by (intro allI sha256_varlen_exact) simp_all

text \<open>C30: Completeness.  For every message that fits, filling the variable-length circuit with the
  message and its SHA-256 digest succeeds, and the filled targets satisfy the circuit.\<close>

theorem sha256_varlen_filled:
  assumes "0 < max_len" "max_len < 2 ^ 32" "length msg \<le> max_len"
  shows "\<exists>t. fill_sha256_varlen_circuit_witness (div_ceil (max_len * 8 + 65) 512) msg (sha256_bits msg) = Inr t
    \<and> reaches (make_sha256_varlen_circuit max_len) t
    \<and> sv_digest t = map of_bool (sha256_bits msg) \<and> sv_msg_len_bytes t = of_nat (length msg)"
proof -
  let ?mb = "div_ceil (max_len * 8 + 65) 512"
  have le: "div_ceil (length msg * 8 + 65) 512 \<le> ?mb"
    unfolding div_ceil_def using assms(3) by (intro div_le_mono) simp
  then obtain t where t: "fill_sha256_varlen_circuit_witness ?mb msg (sha256_bits msg) = Inr t"
    by (simp add: fill_sha256_varlen_circuit_witness_def Let_def)
  note f = fill_sha256_varlen [OF t refl]
  have "reaches (make_sha256_varlen_circuit max_len) t"
    unfolding make_sha256_varlen_circuit_def Let_def f(1)
    using assms(1) make_varlen_circuits_complete [OF marked_length_sha_pad [OF f(2)] varlen_blocks_small [OF assms(2)]]
    by (intro reaches_bindc [OF reaches_check]) simp_all
  moreover have "sha_chain (sha_pad msg @ zs) (sha_blocks (length msg)) = sha_chain (sha_pad msg) (sha_blocks (length msg))" for zs
    by (rule sha_chain_cong) (simp add: length_sha_pad)
  then have "sv_digest t = map of_bool (sha256_bits msg)" "sv_msg_len_bytes t = of_nat (length msg)"
    by (simp_all add: f(1) varlen_targets_def sha256_bits_def)
  ultimately show ?thesis using t by blast
qed

theorem sha256_varlen_filled_witness:
  "\<exists>t. fill_sha256_varlen_circuit_witness (div_ceil (100 * 8 + 65) 512) [97, 98, 99] (sha256_bits [97, 98, 99]) = Inr t
    \<and> reaches (make_sha256_varlen_circuit 100) t
    \<and> sv_digest t = map of_bool (sha256_bits [97, 98, 99]) \<and> sv_msg_len_bytes t = of_nat (length [97, 98, 99 :: u8])"
  by (rule sha256_varlen_filled) simp_all

end
