(* ===== verification/Recursion.thy ===== *)
theory Recursion
  imports Merkle Builder
begin

text \<open>
  Recursive verification: verifier keys and their public-input encoding
  (\<open>plonky2/src/recursion/cyclic_recursion.rs\<close>), the selection between two proofs
  (\<open>conditional_recursive_verifier.rs\<close>), the public inputs of the cyclic base proof
  (\<open>dummy_circuit.rs\<close>), and the layout of the pipeline's public inputs
  (\<open>src/circuits/layout.rs\<close>).  The plonky2 verifier itself is the parameter \<open>verify\<close>: it says
  whether a proof is accepted under a verifier key for a list of public inputs.
\<close>

record verifier_data =
  circuit_digest :: hash_out
  constants_sigmas_cap :: "hash_out list"

type_synonym 'p verify = "verifier_data \<Rightarrow> 'p \<Rightarrow> gf list \<Rightarrow> bool"

subsection \<open>Verifier data as public inputs\<close>

text \<open>\<open>add_verifier_data_public_inputs\<close> registers the digest, then the cap.\<close>

definition verifier_data_elements :: "verifier_data \<Rightarrow> gf list" where
  "verifier_data_elements vd = circuit_digest vd @ concat (constants_sigmas_cap vd)"

definition verifier_data_shape :: "nat \<Rightarrow> verifier_data \<Rightarrow> bool" where
  "verifier_data_shape cap_len vd \<longleftrightarrow>
     length (circuit_digest vd) = NUM_HASH_OUT_ELTS \<and> length (constants_sigmas_cap vd) = cap_len
   \<and> list_all (\<lambda>h. length h = NUM_HASH_OUT_ELTS) (constants_sigmas_cap vd)"

definition verifier_data_from_slice :: "nat \<Rightarrow> gf list \<Rightarrow> verifier_data res" where
  "verifier_data_from_slice cap_len elts =
     (let len = length elts in
      ensure (4 + 4 * cap_len \<le> len) (Bail ''Not enough public inputs'')
        (Inr \<lparr>circuit_digest = take 4 (drop (len - 4 - 4 * cap_len) elts),
              constants_sigmas_cap = map (\<lambda>i. take 4 (drop (len - 4 * (cap_len - i)) elts)) [0..<cap_len]\<rparr>))"

definition check_cyclic_proof_verifier_data :: "nat \<Rightarrow> gf list \<Rightarrow> verifier_data \<Rightarrow> unit res" where
  "check_cyclic_proof_verifier_data cap_len public_inputs verifier_data =
     bind_res (verifier_data_from_slice cap_len public_inputs) (\<lambda>pis.
       if constants_sigmas_cap verifier_data \<noteq> constants_sigmas_cap pis then Inl (Bail ''Condition failed'')
       else if circuit_digest verifier_data \<noteq> circuit_digest pis then Inl (Bail ''Condition failed'')
       else Inr ())"

lemma length_verifier_data_elements:
  "verifier_data_shape cap_len vd \<Longrightarrow> length (verifier_data_elements vd) = 4 + 4 * cap_len"
proof -
  assume s: "verifier_data_shape cap_len vd"
  have "\<forall>h \<in> set hs. length h = 4 \<Longrightarrow> length (concat hs) = 4 * length hs" for hs :: "hash_out list"
    by (induction hs) simp_all
  then show ?thesis using s
    by (simp add: verifier_data_elements_def verifier_data_shape_def list_all_iff NUM_HASH_OUT_ELTS_def)
qed

lemma concat_fours:
  "\<forall>h \<in> set hs. length h = 4 \<Longrightarrow> i < length hs \<Longrightarrow> take 4 (drop (4 * i) (concat hs)) = hs ! i"
proof (induction hs arbitrary: i)
  case (Cons h hs)
  then show ?case by (cases i) simp_all
qed simp

lemma from_slice_elements:
  assumes "verifier_data_shape cap_len vd"
  shows "verifier_data_from_slice cap_len (xs @ verifier_data_elements vd) = Inr vd"
proof -
  let ?e = "verifier_data_elements vd"
  let ?cap = "constants_sigmas_cap vd"
  have len: "length ?e = 4 + 4 * cap_len" by (rule length_verifier_data_elements [OF assms])
  have d: "length (circuit_digest vd) = 4" "length ?cap = cap_len" "\<forall>h \<in> set ?cap. length h = 4"
    using assms by (simp_all add: verifier_data_shape_def list_all_iff NUM_HASH_OUT_ELTS_def)
  have "take 4 (drop (length xs + length ?e - 4 - 4 * cap_len) (xs @ ?e)) = circuit_digest vd"
    using len d by (simp add: verifier_data_elements_def)
  moreover have "map (\<lambda>i. take 4 (drop (length xs + length ?e - 4 * (cap_len - i)) (xs @ ?e))) [0..<cap_len] = ?cap"
  proof (rule nth_equalityI)
    show "length (map (\<lambda>i. take 4 (drop (length xs + length ?e - 4 * (cap_len - i)) (xs @ ?e))) [0..<cap_len]) = length ?cap"
      using d by simp
    fix i assume "i < length (map (\<lambda>i. take 4 (drop (length xs + length ?e - 4 * (cap_len - i)) (xs @ ?e))) [0..<cap_len])"
    then have i: "i < cap_len" by simp
    then have off: "length xs + length ?e - 4 * (cap_len - i) - length xs = 4 + 4 * i"
        "length ?e - 4 * (cap_len - i) = 4 + 4 * i" using len by simp_all
    have "drop (length xs + (4 + 4 * i)) (xs @ ?e) = drop (4 * i) (concat ?cap)"
      using d(1) by (simp add: verifier_data_elements_def)
    then show "map (\<lambda>i. take 4 (drop (length xs + length ?e - 4 * (cap_len - i)) (xs @ ?e))) [0..<cap_len] ! i = ?cap ! i"
      using i concat_fours [OF d(3)] d(2) off by simp
  qed
  ultimately show ?thesis using len by (simp add: verifier_data_from_slice_def Let_def)
qed

lemma check_cyclic_iff:
  "check_cyclic_proof_verifier_data cap_len pis vd = Inr () \<longleftrightarrow> verifier_data_from_slice cap_len pis = Inr vd"
  by (auto simp: check_cyclic_proof_verifier_data_def)

subsection \<open>Conditional verification\<close>

definition select_vec :: "gf \<Rightarrow> gf list \<Rightarrow> gf list \<Rightarrow> gf list" where
  "select_vec b v0 v1 = map2 (select b) v0 v1"

definition select_cap :: "gf \<Rightarrow> hash_out list \<Rightarrow> hash_out list \<Rightarrow> hash_out list" where
  "select_cap b cap0 cap1 = map2 (select_vec b) cap0 cap1"

definition select_verifier_data :: "gf \<Rightarrow> verifier_data \<Rightarrow> verifier_data \<Rightarrow> verifier_data" where
  "select_verifier_data b vk0 vk1 =
     \<lparr>circuit_digest = select_vec b (circuit_digest vk0) (circuit_digest vk1),
      constants_sigmas_cap = select_cap b (constants_sigmas_cap vk0) (constants_sigmas_cap vk1)\<rparr>"

text \<open>
  \<open>select_proof_with_pis\<close> selects every field element of the two proofs; the body of a proof is
  opaque here, so the selection of the bodies is written on the condition.
\<close>

definition conditionally_verify_proof ::
    "'p verify \<Rightarrow> gf \<Rightarrow> 'p \<times> gf list \<Rightarrow> verifier_data \<Rightarrow> 'p \<times> gf list \<Rightarrow> verifier_data \<Rightarrow> bool" where
  "conditionally_verify_proof verify condition proof_with_pis0 vd0 proof_with_pis1 vd1 \<longleftrightarrow>
     verify (select_verifier_data condition vd0 vd1)
            (if condition = 1 then fst proof_with_pis0 else fst proof_with_pis1)
            (select_vec condition (snd proof_with_pis0) (snd proof_with_pis1))"

definition conditionally_verify_cyclic_proof ::
    "'p verify \<Rightarrow> nat \<Rightarrow> verifier_data \<Rightarrow> gf \<Rightarrow> 'p \<times> gf list \<Rightarrow> 'p \<times> gf list \<Rightarrow> verifier_data \<Rightarrow> bool" where
  "conditionally_verify_cyclic_proof verify cap_len verifier_data condition cyclic_proof other_proof other_verifier_data \<longleftrightarrow>
     (case verifier_data_from_slice cap_len (snd cyclic_proof) of
        Inl _ \<Rightarrow> False
      | Inr inner_cyclic_pis \<Rightarrow>
          circuit_digest inner_cyclic_pis = circuit_digest verifier_data
        \<and> constants_sigmas_cap inner_cyclic_pis = constants_sigmas_cap verifier_data
        \<and> conditionally_verify_proof verify condition cyclic_proof verifier_data other_proof other_verifier_data)"

lemma select_vec_bool:
  "length v0 = length v1 \<Longrightarrow> select_vec (of_bool c) v0 v1 = (if c then v0 else v1)"
  unfolding select_vec_def by (intro nth_equalityI) auto

lemma select_cap_bool:
  assumes "length c0 = length c1" "list_all (\<lambda>h. length h = n) c0" "list_all (\<lambda>h. length h = n) c1"
  shows "select_cap (of_bool c) c0 c1 = (if c then c0 else c1)"
proof (rule nth_equalityI)
  show "length (select_cap (of_bool c) c0 c1) = length (if c then c0 else c1)"
    using assms(1) by (simp add: select_cap_def)
  fix i assume "i < length (select_cap (of_bool c) c0 c1)"
  then have i: "i < length c0" by (simp add: select_cap_def)
  then have "length (c0 ! i) = length (c1 ! i)" using assms by (simp add: list_all_length)
  then show "select_cap (of_bool c) c0 c1 ! i = (if c then c0 else c1) ! i"
    using i assms(1) select_vec_bool [of "c0 ! i" "c1 ! i" c] by (simp add: select_cap_def)
qed

lemma select_verifier_data_bool:
  assumes "verifier_data_shape n vk0" "verifier_data_shape n vk1"
  shows "select_verifier_data (of_bool c) vk0 vk1 = (if c then vk0 else vk1)"
  using assms by (simp add: select_verifier_data_def verifier_data_shape_def select_vec_bool
      select_cap_bool [where n = NUM_HASH_OUT_ELTS] del: of_bool_eq)

lemma conditionally_verify_bool:
  assumes "verifier_data_shape n vd0" "verifier_data_shape n vd1" "length (snd p0) = length (snd p1)"
  shows "conditionally_verify_proof verify (of_bool c) p0 vd0 p1 vd1
    \<longleftrightarrow> (if c then verify vd0 (fst p0) (snd p0) else verify vd1 (fst p1) (snd p1))"
  unfolding conditionally_verify_proof_def select_verifier_data_bool [OF assms(1,2)] select_vec_bool [OF assms(3)]
  by simp

lemma conditionally_verify_cyclic_bool:
  assumes "verifier_data_shape n vd0" "verifier_data_shape n vd1" "length (snd p0) = length (snd p1)"
  shows "conditionally_verify_cyclic_proof verify n vd0 (of_bool c) p0 p1 vd1
    \<longleftrightarrow> verifier_data_from_slice n (snd p0) = Inr vd0
      \<and> (if c then verify vd0 (fst p0) (snd p0) else verify vd1 (fst p1) (snd p1))"
  unfolding conditionally_verify_cyclic_proof_def conditionally_verify_bool [OF assms]
  by (auto split: sum.splits)

subsection \<open>The cyclic base proof\<close>

text \<open>
  The public inputs of \<open>cyclic_base_proof\<close>: the given overrides, then the verifier key in the
  last slots, and zero elsewhere.
\<close>

definition cyclic_base_pis :: "nat \<Rightarrow> nat \<Rightarrow> verifier_data \<Rightarrow> (nat \<rightharpoonup> gf) \<Rightarrow> gf list" where
  "cyclic_base_pis pis_len cap_elements verifier_data nonzero_public_inputs =
     (let start_vk_pis = pis_len - 4 - 4 * cap_elements;
          m = nonzero_public_inputs ++ map_of (zip [start_vk_pis..<start_vk_pis + 4] (circuit_digest verifier_data));
          m = foldl (\<lambda>m i. let start = start_vk_pis + 4 + 4 * i in
                       m ++ map_of (zip [start..<start + 4] (constants_sigmas_cap verifier_data ! i)))
                m [0..<cap_elements]
      in map (\<lambda>i. case m i of Some v \<Rightarrow> v | None \<Rightarrow> 0) [0..<pis_len])"

lemma map_of_zip_range: "length xs = n \<Longrightarrow> map_of (zip [s..<s + n] xs) j = (if s \<le> j \<and> j < s + n then Some (xs ! (j - s)) else None)"
proof -
  assume len: "length xs = n"
  show ?thesis
  proof (cases "s \<le> j \<and> j < s + n")
    case True
    then have "(j, xs ! (j - s)) \<in> set (zip [s..<s + n] xs)"
      using len by (auto simp: in_set_zip intro!: exI [of _ "j - s"])
    then show ?thesis using True len by simp
  next
    case False
    then show ?thesis using len by (auto simp: map_of_eq_None_iff dest: set_zip_leftD)
  qed
qed

lemma cap_overrides:
  "\<forall>h \<in> set hs. length h = 4 \<Longrightarrow> n \<le> length hs \<Longrightarrow>
     foldl (\<lambda>m i. m ++ map_of (zip [s + 4 * i..<s + 4 * i + 4] (hs ! i))) m [0..<n] j
     = (if s \<le> j \<and> j < s + 4 * n then Some (hs ! ((j - s) div 4) ! ((j - s) mod 4)) else m j)"
proof (induction n)
  case (Suc n)
  then have len: "length (hs ! n) = 4" by simp
  have IH: "foldl (\<lambda>m i. m ++ map_of (zip [s + 4 * i..<s + 4 * i + 4] (hs ! i))) m [0..<n] j
     = (if s \<le> j \<and> j < s + 4 * n then Some (hs ! ((j - s) div 4) ! ((j - s) mod 4)) else m j)"
    using Suc by simp
  show ?case
  proof (cases "s + 4 * n \<le> j \<and> j < s + 4 * n + 4")
    case True
    then obtain r where "j = s + 4 * n + r" "r < 4" by (metis le_Suc_ex nat_add_left_cancel_less)
    then have "(j - s) div 4 = n" "(j - s) mod 4 = j - (s + 4 * n)" by simp_all
    then show ?thesis using True len unfolding upt_Suc_append [OF le0] foldl_append
      by (simp add: map_add_def map_of_zip_range)
  next
    case False
    then show ?thesis using IH len unfolding upt_Suc_append [OF le0] foldl_append
      by (simp add: map_add_def map_of_zip_range) auto
  qed
qed auto

lemma nth_concat_fours:
  "\<forall>h \<in> set hs. length h = 4 \<Longrightarrow> i < 4 * length hs \<Longrightarrow> concat hs ! i = hs ! (i div 4) ! (i mod 4)"
proof (induction hs arbitrary: i)
  case (Cons h hs)
  show ?case
  proof (cases "i < 4")
    case False
    then have "i div 4 = Suc ((i - 4) div 4)" "i mod 4 = (i - 4) mod 4"
      using le_div_geq [of 4 i] le_mod_geq [of 4 i] by simp_all
    then show ?thesis using False Cons by (simp add: nth_append)
  qed (use Cons in \<open>simp add: nth_append\<close>)
qed simp

text \<open>Its last slots hold the verifier key, so the check on the embedded key passes.\<close>

lemma cyclic_base_pis_split:
  assumes vd: "verifier_data_shape cap_len vd" and len: "4 + 4 * cap_len \<le> n"
  shows "cyclic_base_pis n cap_len vd m
    = map (\<lambda>i. case m i of Some v \<Rightarrow> v | None \<Rightarrow> 0) [0..<n - 4 - 4 * cap_len] @ verifier_data_elements vd"
proof -
  obtain s where n: "n = s + 4 + 4 * cap_len" using len le_Suc_ex by (metis add.assoc add.commute)
  then have s: "n - 4 - 4 * cap_len = s" by simp
  note lenv = length_verifier_data_elements [OF vd]
  have d: "length (circuit_digest vd) = 4" and c: "\<forall>h \<in> set (constants_sigmas_cap vd). length h = 4"
      "length (constants_sigmas_cap vd) = cap_len"
    using vd by (simp_all add: verifier_data_shape_def list_all_iff NUM_HASH_OUT_ELTS_def)
  let ?m = "m ++ map_of (zip [s..<s + 4] (circuit_digest vd))"
  have pis: "cyclic_base_pis n cap_len vd m = map (\<lambda>i. case foldl (\<lambda>m i. m ++ map_of (zip [s + 4 + 4 * i..<s + 4 + 4 * i + 4] (constants_sigmas_cap vd ! i))) ?m [0..<cap_len] i of Some v \<Rightarrow> v | None \<Rightarrow> 0) [0..<n]"
    by (simp only: cyclic_base_pis_def Let_def s)
  show ?thesis unfolding s
  proof (rule nth_equalityI)
    show "length (cyclic_base_pis n cap_len vd m)
        = length (map (\<lambda>i. case m i of Some v \<Rightarrow> v | None \<Rightarrow> 0) [0..<s] @ verifier_data_elements vd)"
      unfolding pis using n lenv by simp
    fix i assume "i < length (cyclic_base_pis n cap_len vd m)"
    then have i: "i < s + 4 + 4 * cap_len" unfolding pis by (simp add: n)
    have "cyclic_base_pis n cap_len vd m ! i
        = (case (if s + 4 \<le> i \<and> i < s + 4 + 4 * cap_len then Some (constants_sigmas_cap vd ! ((i - (s + 4)) div 4) ! ((i - (s + 4)) mod 4)) else ?m i)
           of Some v \<Rightarrow> v | None \<Rightarrow> 0)"
      using i n cap_overrides [OF c(1), of cap_len "s + 4" ?m i] c(2) unfolding pis by simp
    also have "\<dots> = (if s + 4 \<le> i then concat (constants_sigmas_cap vd) ! (i - (s + 4))
         else if s \<le> i then circuit_digest vd ! (i - s) else case m i of Some v \<Rightarrow> v | None \<Rightarrow> 0)"
      using i c nth_concat_fours [OF c(1), of "i - (s + 4)"]
      by (auto simp: map_add_def map_of_zip_range [OF d])
    finally show "cyclic_base_pis n cap_len vd m ! i
        = (map (\<lambda>i. case m i of Some v \<Rightarrow> v | None \<Rightarrow> 0) [0..<s] @ verifier_data_elements vd) ! i"
      using i d c by (auto simp: nth_append verifier_data_elements_def)
  qed
qed

subsection \<open>Public input layout\<close>

record base_public_input_layout =
  issuer_pk_pi_start :: nat
  issuer_pk_pi_len :: nat
  com_pi_start :: nat
  com_pi_len :: nat
  level_pi_idx :: nat
  max_level_pi_idx :: nat
  num_attributes :: nat
  num_max_attributes :: nat
  attribute_u32_limbs :: nat
  attribute_len_bytes :: nat

definition base_pi_count :: "base_public_input_layout \<Rightarrow> nat" where
  "base_pi_count l = max_level_pi_idx l + 1"

definition MAX_LEVEL_BITS :: nat where
  "MAX_LEVEL_BITS = 8"

definition LEVEL_UNBOUNDED :: nat where
  "LEVEL_UNBOUNDED = 2 ^ MAX_LEVEL_BITS - 1"

definition ensure_valid_attribute_counts :: "nat \<Rightarrow> nat \<Rightarrow> unit res" where
  "ensure_valid_attribute_counts num_attrs num_max =
     (if num_attrs = 0 then Inl (Bail ''num_attributes must be at least 1'')
      else if num_max \<noteq> 2 ^ log2 num_max
      then Inl (Bail ''num_max_attributes must be a nonzero power of two'')
      else if num_max < num_attrs
      then Inl (Bail ''num_max_attributes must be at least num_attributes'')
      else Inr ())"

lemma ensure_valid_attribute_counts_iff:
  "ensure_valid_attribute_counts n m = Inr () \<longleftrightarrow> 0 < n \<and> n \<le> m \<and> (\<exists>k. m = 2 ^ k)"
  by (auto simp: ensure_valid_attribute_counts_def)

end
