(* ===== verification/Delegate.thy ===== *)
theory Delegate
  imports Commitment Recursion
begin

text \<open>
  The cyclic delegation circuit \<open>R_Del\<close> and its prover
  (\<open>src/circuits/delegate.rs\<close>).  A record holds the values of the circuit's wires; the circuit
  is a predicate on it, the prover's witness generation a function that returns it.  The two
  proofs the circuit verifies are passed beside the record, their public inputs inside it.
\<close>

subsection \<open>The circuit\<close>

record delegation_wires =
  dw_outer_pis :: "gf list"
  dw_wrapper_digest_pis :: hash_out
  dw_verifier_data :: verifier_data
  dw_inner_pis :: "gf list"
  dw_wrapper_pis :: "gf list"
  dw_wrapper_vk :: verifier_data
  dw_is_base :: gf
  dw_is_base_inv :: gf
  dw_attr_targets :: "gf list list"
  dw_attribute_mask :: "gf list"

text \<open>Outer inputs, wrapper digest, verifier key: the public inputs in order of registration.\<close>

definition delegation_pis :: "delegation_wires \<Rightarrow> gf list" where
  "delegation_pis w = dw_outer_pis w @ dw_wrapper_digest_pis w @ verifier_data_elements (dw_verifier_data w)"

definition cyclic_num_public_inputs :: "nat \<Rightarrow> base_public_input_layout \<Rightarrow> nat" where
  "cyclic_num_public_inputs cap_len l = base_pi_count l + NUM_HASH_OUT_ELTS + (4 + 4 * cap_len)"

definition delegation_shape :: "nat \<Rightarrow> base_public_input_layout \<Rightarrow> delegation_wires \<Rightarrow> bool" where
  "delegation_shape cap_len l w \<longleftrightarrow>
     length (dw_outer_pis w) = base_pi_count l
   \<and> length (dw_wrapper_digest_pis w) = NUM_HASH_OUT_ELTS
   \<and> verifier_data_shape cap_len (dw_verifier_data w)
   \<and> length (dw_inner_pis w) = cyclic_num_public_inputs cap_len l
   \<and> length (dw_wrapper_pis w) = cyclic_num_public_inputs cap_len l
   \<and> verifier_data_shape cap_len (dw_wrapper_vk w)
   \<and> length (dw_attr_targets w) = num_max_attributes l
   \<and> list_all (\<lambda>leaf. length leaf = NUM_HASH_OUT_ELTS) (dw_attr_targets w)
   \<and> length (dw_attribute_mask w) = num_max_attributes l"

definition is_bool_target :: "gf \<Rightarrow> bool" where
  "is_bool_target b \<longleftrightarrow> b * b - b = 0"

definition mask_leaf :: "gf list \<Rightarrow> gf \<Rightarrow> gf list" where
  "mask_leaf attr_hash b = map2 (\<lambda>h empty_h. select b h empty_h) attr_hash (replicate NUM_HASH_OUT_ELTS 0)"

definition in_com :: "base_public_input_layout \<Rightarrow> nat \<Rightarrow> bool" where
  "in_com l i \<longleftrightarrow> com_pi_start l \<le> i \<and> i < com_pi_start l + com_pi_len l"

definition delegation_circuit ::
    "(gf list \<Rightarrow> gf list) \<Rightarrow> 'p verify \<Rightarrow> nat \<Rightarrow> base_public_input_layout \<Rightarrow> 'p \<Rightarrow> 'p \<Rightarrow> delegation_wires \<Rightarrow> bool" where
  "delegation_circuit perm verify cap_len l inner_proof wrapper_proof w \<longleftrightarrow>
     (let level_idx = level_pi_idx l;
          max_level_idx = max_level_pi_idx l;
          outer_pis = dw_outer_pis w;
          inner = dw_inner_pis w;
          wrapper = dw_wrapper_pis w;
          wrapper_digest_pi_start = base_pi_count l;
          level = outer_pis ! level_idx;
          is_base = dw_is_base w;
          not_base = 1 - is_base;
          prev_level = select is_base (wrapper ! level_idx) (inner ! level_idx);
          max_level = outer_pis ! max_level_idx;
          prev_max_level = select is_base (wrapper ! max_level_idx) (inner ! max_level_idx);
          masked_attrs = map2 mask_leaf (dw_attr_targets w) (dw_attribute_mask w)
      in delegation_shape cap_len l w
       \<and> max_level_idx = level_idx + 1
       \<and> is_equal_circuit level 1 is_base (dw_is_base_inv w)
       \<and> list_all (\<lambda>i. in_com l i \<or> outer_pis ! i = select is_base (wrapper ! i) (inner ! i)) [0..<level_idx]
       \<and> level = prev_level + 1
       \<and> range_check max_level MAX_LEVEL_BITS
       \<and> range_check (max_level - level) MAX_LEVEL_BITS
       \<and> range_check (prev_max_level - max_level) MAX_LEVEL_BITS
       \<and> conditionally_verify_cyclic_proof verify cap_len (dw_verifier_data w) not_base
           (inner_proof, inner) (wrapper_proof, wrapper) (dw_wrapper_vk w)
       \<and> list_all (\<lambda>j. dw_wrapper_digest_pis w ! j
             = select is_base (circuit_digest (dw_wrapper_vk w) ! j) (inner ! (wrapper_digest_pi_start + j)))
           [0..<NUM_HASH_OUT_ELTS]
       \<and> list_all is_bool_target (dw_attribute_mask w)
       \<and> (case merkle_root_from_leaves perm (dw_attr_targets w) of
            Inl _ \<Rightarrow> False
          | Inr com_prev \<Rightarrow>
              list_all (\<lambda>i. com_prev ! i = select is_base (wrapper ! (com_pi_start l + i)) (inner ! (com_pi_start l + i)))
                [0..<com_pi_len l])
       \<and> (case merkle_root_from_leaves perm masked_attrs of
            Inl _ \<Rightarrow> False
          | Inr com_next \<Rightarrow> list_all (\<lambda>i. outer_pis ! (com_pi_start l + i) = com_next ! i) [0..<com_pi_len l]))"

subsection \<open>The prover\<close>

definition resolve_depth_cap :: "u8 option \<Rightarrow> nat \<Rightarrow> nat \<Rightarrow> nat res" where
  "resolve_depth_cap max_level level_next prev_max_level =
     (let cap = (case max_level of None \<Rightarrow> prev_max_level | Some m \<Rightarrow> unat m) in
      if prev_max_level < cap then Inl (Bail ''depth cap exceeds the inherited cap'')
      else if cap < level_next then Inl (Bail ''delegating would exceed the depth cap'')
      else Inr cap)"

definition fill_hashed_attribute_witness :: "(gf list \<Rightarrow> gf list) \<Rightarrow> nat \<Rightarrow> attribute list \<Rightarrow> gf list list res" where
  "fill_hashed_attribute_witness perm num_targets attributes =
     (if num_targets \<noteq> length attributes then Inl (Bail ''attribute count mismatch'')
      else map_res (attribute_to_hashed_leaf perm) attributes)"

definition fill_attribute_mask_witness :: "nat \<Rightarrow> bool list \<Rightarrow> gf list res" where
  "fill_attribute_mask_witness num_targets bitmap =
     (if num_targets \<noteq> length bitmap then Inl (Bail ''bitmap length mismatch'') else Inr (map of_bool bitmap))"

text \<open>
  The next public inputs and the attribute wires, computed alike by the base and the recursive
  step from the previous proof's public inputs.
\<close>

definition next_step_pis :: "base_public_input_layout \<Rightarrow> gf list \<Rightarrow> nat \<Rightarrow> hash_out \<Rightarrow> gf list" where
  "next_step_pis l prev_pis cap_next com_next =
     (let next_pis = take (base_pi_count l) prev_pis;
          next_pis = next_pis[level_pi_idx l := next_pis ! level_pi_idx l + 1];
          next_pis = next_pis[max_level_pi_idx l := of_nat cap_next]
      in foldl (\<lambda>pis i. pis[com_pi_start l + i := com_next ! i]) next_pis [0..<com_pi_len l])"

definition step_attributes ::
    "(gf list \<Rightarrow> gf list) \<Rightarrow> nat \<Rightarrow> attribute list \<Rightarrow> bool list \<Rightarrow> (attribute list \<times> bool list \<times> hash_out) res" where
  "step_attributes perm num_max attributes bitmap =
     bind_res (pad_attributes attributes num_max) (\<lambda>padded_attrs.
     let padded_bitmap = resize num_max False bitmap in
     bind_res (mask_attributes padded_attrs padded_bitmap) (\<lambda>masked_attrs.
     bind_res (compute_merkle_root perm masked_attrs) (\<lambda>com_next.
     Inr (padded_attrs, padded_bitmap, com_next))))"

definition prove_delegation_base_with_cap ::
    "(gf list \<Rightarrow> gf list) \<Rightarrow> base_public_input_layout \<Rightarrow> verifier_data \<Rightarrow> verifier_data \<Rightarrow> gf list \<Rightarrow> gf list
      \<Rightarrow> attribute list \<Rightarrow> bool list \<Rightarrow> nat \<Rightarrow> delegation_wires res" where
  "prove_delegation_base_with_cap perm l del_vk wrapper_vk wrapper_pis dummy_pis attributes bitmap cap_next =
     bind_res (step_attributes perm (num_max_attributes l) attributes bitmap) (\<lambda>(padded_attrs, padded_bitmap, com_next).
     let next_pis = next_step_pis l wrapper_pis cap_next com_next;
         (is_base, iv) = equality_generator (next_pis ! level_pi_idx l) 1 in
     bind_res (fill_hashed_attribute_witness perm (num_max_attributes l) padded_attrs) (\<lambda>attr_targets.
     bind_res (fill_attribute_mask_witness (num_max_attributes l) padded_bitmap) (\<lambda>attribute_mask.
     Inr \<lparr>dw_outer_pis = next_pis, dw_wrapper_digest_pis = circuit_digest wrapper_vk, dw_verifier_data = del_vk,
          dw_inner_pis = dummy_pis, dw_wrapper_pis = wrapper_pis, dw_wrapper_vk = wrapper_vk,
          dw_is_base = is_base, dw_is_base_inv = iv,
          dw_attr_targets = attr_targets, dw_attribute_mask = attribute_mask\<rparr>)))"

definition prove_delegation_step_with_cap ::
    "(gf list \<Rightarrow> gf list) \<Rightarrow> base_public_input_layout \<Rightarrow> verifier_data \<Rightarrow> verifier_data \<Rightarrow> gf list \<Rightarrow> gf list
      \<Rightarrow> attribute list \<Rightarrow> bool list \<Rightarrow> nat \<Rightarrow> delegation_wires res" where
  "prove_delegation_step_with_cap perm l del_vk wrapper_vk dummy_pis prev_pis attributes bitmap cap_next =
     bind_res (step_attributes perm (num_max_attributes l) attributes bitmap) (\<lambda>(padded_attrs, padded_bitmap, com_next).
     let next_pis = next_step_pis l prev_pis cap_next com_next;
         (is_base, iv) = equality_generator (next_pis ! level_pi_idx l) 1 in
     bind_res (fill_hashed_attribute_witness perm (num_max_attributes l) padded_attrs) (\<lambda>attr_targets.
     bind_res (fill_attribute_mask_witness (num_max_attributes l) padded_bitmap) (\<lambda>attribute_mask.
     Inr \<lparr>dw_outer_pis = next_pis,
          dw_wrapper_digest_pis = map (\<lambda>j. prev_pis ! (base_pi_count l + j)) [0..<NUM_HASH_OUT_ELTS],
          dw_verifier_data = del_vk,
          dw_inner_pis = prev_pis, dw_wrapper_pis = dummy_pis, dw_wrapper_vk = wrapper_vk,
          dw_is_base = is_base, dw_is_base_inv = iv,
          dw_attr_targets = attr_targets, dw_attribute_mask = attribute_mask\<rparr>)))"

definition prove_delegation_base ::
    "(gf list \<Rightarrow> gf list) \<Rightarrow> base_public_input_layout \<Rightarrow> verifier_data \<Rightarrow> verifier_data \<Rightarrow> gf list \<Rightarrow> gf list
      \<Rightarrow> attribute list \<Rightarrow> bool list \<Rightarrow> u8 option \<Rightarrow> delegation_wires res" where
  "prove_delegation_base perm l del_vk wrapper_vk wrapper_pis dummy_pis attributes bitmap max_level =
     bind_res (resolve_depth_cap max_level (canon (wrapper_pis ! level_pi_idx l) + 1) (canon (wrapper_pis ! max_level_pi_idx l)))
       (prove_delegation_base_with_cap perm l del_vk wrapper_vk wrapper_pis dummy_pis attributes bitmap)"

definition prove_delegation_step ::
    "(gf list \<Rightarrow> gf list) \<Rightarrow> base_public_input_layout \<Rightarrow> verifier_data \<Rightarrow> verifier_data \<Rightarrow> gf list \<Rightarrow> gf list
      \<Rightarrow> attribute list \<Rightarrow> bool list \<Rightarrow> u8 option \<Rightarrow> delegation_wires res" where
  "prove_delegation_step perm l del_vk wrapper_vk dummy_pis prev_pis attributes bitmap max_level =
     bind_res (resolve_depth_cap max_level (canon (prev_pis ! level_pi_idx l) + 1) (canon (prev_pis ! max_level_pi_idx l)))
       (prove_delegation_step_with_cap perm l del_vk wrapper_vk dummy_pis prev_pis attributes bitmap)"

definition build_delegation_dummy_pis :: "nat \<Rightarrow> base_public_input_layout \<Rightarrow> verifier_data \<Rightarrow> gf list" where
  "build_delegation_dummy_pis cap_len l del_vk =
     cyclic_base_pis (cyclic_num_public_inputs cap_len l) cap_len del_vk [level_pi_idx l \<mapsto> 0]"

subsection \<open>What the circuit says\<close>

definition delegation_layout :: "base_public_input_layout \<Rightarrow> bool" where
  "delegation_layout l \<longleftrightarrow>
     max_level_pi_idx l = level_pi_idx l + 1 \<and> com_pi_start l + com_pi_len l \<le> level_pi_idx l
   \<and> com_pi_len l = NUM_HASH_OUT_ELTS \<and> is_power_of_two (num_max_attributes l)"

definition pi_com :: "base_public_input_layout \<Rightarrow> gf list \<Rightarrow> hash_out" where
  "pi_com l pis = take (com_pi_len l) (drop (com_pi_start l) pis)"

definition pi_digest :: "base_public_input_layout \<Rightarrow> gf list \<Rightarrow> hash_out" where
  "pi_digest l pis = take NUM_HASH_OUT_ELTS (drop (base_pi_count l) pis)"

definition masked_leaves :: "hash_out list \<Rightarrow> bool list \<Rightarrow> hash_out list" where
  "masked_leaves leaves bs = map2 (\<lambda>leaf b. if b then leaf else replicate NUM_HASH_OUT_ELTS 0) leaves bs"

text \<open>The parent a step verifies: the wrapper proof at level 1, the previous delegation above.\<close>

definition step_is_base :: "base_public_input_layout \<Rightarrow> delegation_wires \<Rightarrow> bool" where
  "step_is_base l w \<longleftrightarrow> dw_outer_pis w ! level_pi_idx l = 1"

definition parent_pis :: "base_public_input_layout \<Rightarrow> delegation_wires \<Rightarrow> gf list" where
  "parent_pis l w = (if step_is_base l w then dw_wrapper_pis w else dw_inner_pis w)"

definition step_accepts_parent ::
    "'p verify \<Rightarrow> nat \<Rightarrow> base_public_input_layout \<Rightarrow> 'p \<Rightarrow> 'p \<Rightarrow> delegation_wires \<Rightarrow> bool" where
  "step_accepts_parent verify cap_len l inner_proof wrapper_proof w \<longleftrightarrow>
     verifier_data_from_slice cap_len (dw_inner_pis w) = Inr (dw_verifier_data w)
   \<and> (if step_is_base l w then verify (dw_wrapper_vk w) wrapper_proof (dw_wrapper_pis w)
      else verify (dw_verifier_data w) inner_proof (dw_inner_pis w))"

definition step_levels :: "base_public_input_layout \<Rightarrow> delegation_wires \<Rightarrow> bool" where
  "step_levels l w \<longleftrightarrow>
     (let level = dw_outer_pis w ! level_pi_idx l;
          max_level = dw_outer_pis w ! max_level_pi_idx l
      in level = parent_pis l w ! level_pi_idx l + 1
       \<and> canon max_level < 256 \<and> canon (max_level - level) < 256
       \<and> canon (parent_pis l w ! max_level_pi_idx l - max_level) < 256)"

definition step_commitments :: "(gf list \<Rightarrow> gf list) \<Rightarrow> base_public_input_layout \<Rightarrow> delegation_wires \<Rightarrow> bool list \<Rightarrow> bool" where
  "step_commitments perm l w bs \<longleftrightarrow>
     dw_attribute_mask w = map of_bool bs
   \<and> merkle_root_from_leaves perm (dw_attr_targets w) = Inr (pi_com l (parent_pis l w))
   \<and> merkle_root_from_leaves perm (masked_leaves (dw_attr_targets w) bs) = Inr (pi_com l (dw_outer_pis w))"

lemma is_bool_target_iff: "is_bool_target b \<longleftrightarrow> (\<exists>c. b = of_bool c)"
  by (auto simp: is_bool_target_def gf_boolean intro: exI [of _ False] exI [of _ True])

lemma bool_targets: "list_all is_bool_target bs \<longleftrightarrow> (\<exists>cs. bs = map of_bool cs)"
proof (induction bs)
  case (Cons b bs)
  have "(\<exists>cs. b # bs = map of_bool cs) \<longleftrightarrow> (\<exists>c cs. b = of_bool c \<and> bs = map of_bool cs)"
    by (metis (no_types, lifting) list.simps(9) map_eq_Cons_conv)
  then show ?case using Cons by (simp add: is_bool_target_iff)
qed simp

lemma mask_leaf_bool: "length leaf = NUM_HASH_OUT_ELTS \<Longrightarrow>
  mask_leaf leaf (of_bool b) = (if b then leaf else replicate NUM_HASH_OUT_ELTS 0)"
  unfolding mask_leaf_def by (intro nth_equalityI) auto

lemma masked_attrs_bools:
  assumes "list_all (\<lambda>leaf. length leaf = NUM_HASH_OUT_ELTS) leaves"
  shows "map2 mask_leaf leaves (map of_bool bs) = masked_leaves leaves bs"
  unfolding masked_leaves_def
  using assms by (intro nth_equalityI) (auto simp: list_all_length mask_leaf_bool simp del: of_bool_eq_0_iff of_bool_eq_1_iff)

lemma connect_slice:
  "length c = n \<Longrightarrow> s + n \<le> length xs \<Longrightarrow> list_all (\<lambda>i. c ! i = xs ! (s + i)) [0..<n] \<longleftrightarrow> c = take n (drop s xs)"
  unfolding list_all_iff by (subst list_eq_iff_nth_eq) auto

lemma masked_leaves_shape:
  "list_all (\<lambda>leaf. length leaf = NUM_HASH_OUT_ELTS) leaves \<Longrightarrow>
     list_all (\<lambda>leaf. length leaf = NUM_HASH_OUT_ELTS) (masked_leaves leaves bs)"
  by (auto simp: masked_leaves_def list_all_length)

lemma length_masked_leaves [simp]: "length (masked_leaves leaves bs) = min (length leaves) (length bs)"
  by (simp add: masked_leaves_def)

context sponge_permutation
begin

lemma root_length:
  assumes "merkle_root_from_leaves perm leaves = Inr r" "list_all (\<lambda>leaf. length leaf = NUM_HASH_OUT_ELTS) leaves"
  shows "length r = NUM_HASH_OUT_ELTS"
proof -
  obtain k where k: "length leaves = 2 ^ k" using assms(1) by (auto simp: merkle_root_from_leaves_def is_power_of_two_iff)
  have l: "\<forall>x \<in> set leaves. length x = 4" using assms(2) by (simp add: list_all_iff NUM_HASH_OUT_ELTS_def)
  have "length (subtree_root (compress perm) k leaves) = 4"
  proof (cases k)
    case 0
    then have "leaves ! 0 \<in> set leaves" using k by simp
    then show ?thesis using 0 l by simp
  qed (simp add: sponge.two_to_one_length)
  then show ?thesis using circuit_root [OF k l] assms(1) by (simp add: NUM_HASH_OUT_ELTS_def)
qed

lemma root_inject:
  assumes "merkle_root_from_leaves perm xs = Inr r" "merkle_root_from_leaves perm ys = Inr r"
    "list_all (\<lambda>leaf. length leaf = NUM_HASH_OUT_ELTS) xs" "list_all (\<lambda>leaf. length leaf = NUM_HASH_OUT_ELTS) ys"
    "length xs = length ys"
  shows "xs = ys \<or> collides (compress perm) (compress_inputs perm xs @ compress_inputs perm ys)"
proof -
  obtain k where k: "length xs = 2 ^ k" using assms(1) by (auto simp: merkle_root_from_leaves_def is_power_of_two_iff)
  have k': "length ys = 2 ^ k" by (simp only: k assms(5) [symmetric])
  have l: "\<forall>x \<in> set xs. length x = 4" "\<forall>x \<in> set ys. length x = 4"
    using assms(3,4) by (simp_all add: list_all_iff NUM_HASH_OUT_ELTS_def)
  have "subtree_root (compress perm) k xs = r" "subtree_root (compress perm) k ys = r"
    using circuit_root [OF k l(1)] circuit_root [OF k' l(2)] assms(1,2) by (metis sum.inject(2))+
  then show ?thesis
    using sponge.subtree_root_inject [OF k k'] by (simp add: compress_inputs_def k k')
qed

lemma delegation_circuit_iff:
  assumes l: "delegation_layout l" and shape: "delegation_shape cap_len l w"
  shows "delegation_circuit perm verify cap_len l ip wp w \<longleftrightarrow>
     is_equal_circuit (dw_outer_pis w ! level_pi_idx l) 1 (dw_is_base w) (dw_is_base_inv w)
   \<and> list_all (\<lambda>i. in_com l i \<or> dw_outer_pis w ! i = parent_pis l w ! i) [0..<level_pi_idx l]
   \<and> step_levels l w
   \<and> step_accepts_parent verify cap_len l ip wp w
   \<and> dw_wrapper_digest_pis w = (if step_is_base l w then circuit_digest (dw_wrapper_vk w) else pi_digest l (dw_inner_pis w))
   \<and> (\<exists>bs. step_commitments perm l w bs)"
    (is "?circuit \<longleftrightarrow> ?eq \<and> ?fwd \<and> ?lev \<and> ?acc \<and> ?dig \<and> ?com")
proof (cases "?eq")
  case False
  then show ?thesis by (simp add: delegation_circuit_def Let_def)
next
  case eq: True
  let ?b = "step_is_base l w"
  have b: "dw_is_base w = of_bool ?b"
    using is_equal_sound [OF eq] by (simp add: step_is_base_def is_equal_def)
  have nb: "1 - dw_is_base w = of_bool (\<not> ?b)" using b by simp
  have sel: "select (dw_is_base w) (dw_wrapper_pis w ! i) (dw_inner_pis w ! i) = parent_pis l w ! i" for i
    by (simp only: b select_of_bool) (simp add: parent_pis_def)
  have lens: "length (dw_outer_pis w) = base_pi_count l" "length (dw_inner_pis w) = cyclic_num_public_inputs cap_len l"
      "length (dw_wrapper_pis w) = cyclic_num_public_inputs cap_len l" "length (dw_wrapper_digest_pis w) = NUM_HASH_OUT_ELTS"
      "length (circuit_digest (dw_wrapper_vk w)) = NUM_HASH_OUT_ELTS"
    and vds: "verifier_data_shape cap_len (dw_verifier_data w)" "verifier_data_shape cap_len (dw_wrapper_vk w)"
    and leaves: "list_all (\<lambda>leaf. length leaf = NUM_HASH_OUT_ELTS) (dw_attr_targets w)"
    and nleaves: "length (dw_attribute_mask w) = length (dw_attr_targets w)"
    using shape by (simp_all add: delegation_shape_def verifier_data_shape_def)
  have parlen: "length (parent_pis l w) = cyclic_num_public_inputs cap_len l" using lens by (simp add: parent_pis_def)
  have cyc: "base_pi_count l \<le> cyclic_num_public_inputs cap_len l" "base_pi_count l + NUM_HASH_OUT_ELTS \<le> cyclic_num_public_inputs cap_len l"
    by (simp_all add: cyclic_num_public_inputs_def)
  have com: "com_pi_start l + com_pi_len l \<le> base_pi_count l" "com_pi_len l = NUM_HASH_OUT_ELTS"
      "max_level_pi_idx l = level_pi_idx l + 1"
    using l by (simp_all add: delegation_layout_def base_pi_count_def)
  have acc: "conditionally_verify_cyclic_proof verify cap_len (dw_verifier_data w) (1 - dw_is_base w)
      (ip, dw_inner_pis w) (wp, dw_wrapper_pis w) (dw_wrapper_vk w) \<longleftrightarrow> ?acc"
    unfolding nb by (subst conditionally_verify_cyclic_bool [OF vds]) (auto simp: lens step_accepts_parent_def)
  have dig: "list_all (\<lambda>j. dw_wrapper_digest_pis w ! j
        = select (dw_is_base w) (circuit_digest (dw_wrapper_vk w) ! j) (dw_inner_pis w ! (base_pi_count l + j))) [0..<NUM_HASH_OUT_ELTS] \<longleftrightarrow> ?dig"
  proof (cases ?b)
    case True
    then show ?thesis
      using connect_slice [of "dw_wrapper_digest_pis w" NUM_HASH_OUT_ELTS 0 "circuit_digest (dw_wrapper_vk w)"] lens b by simp
  next
    case False
    then show ?thesis
      using connect_slice [of "dw_wrapper_digest_pis w" NUM_HASH_OUT_ELTS "base_pi_count l" "dw_inner_pis w"] lens b cyc
      by (simp add: pi_digest_def)
  qed
  have lev: "?lev \<longleftrightarrow> dw_outer_pis w ! level_pi_idx l = parent_pis l w ! level_pi_idx l + 1
      \<and> range_check (dw_outer_pis w ! max_level_pi_idx l) MAX_LEVEL_BITS
      \<and> range_check (dw_outer_pis w ! max_level_pi_idx l - dw_outer_pis w ! level_pi_idx l) MAX_LEVEL_BITS
      \<and> range_check (parent_pis l w ! max_level_pi_idx l - dw_outer_pis w ! max_level_pi_idx l) MAX_LEVEL_BITS"
    by (simp add: step_levels_def range_check_def MAX_LEVEL_BITS_def Let_def)
  have root: "(case merkle_root_from_leaves perm xs of Inl _ \<Rightarrow> False
        | Inr r \<Rightarrow> list_all (\<lambda>i. r ! i = ys ! (com_pi_start l + i)) [0..<com_pi_len l])
      \<longleftrightarrow> merkle_root_from_leaves perm xs = Inr (pi_com l ys)"
    if "list_all (\<lambda>leaf. length leaf = NUM_HASH_OUT_ELTS) xs" "base_pi_count l \<le> length ys" for xs ys
    using connect_slice [of _ "com_pi_len l" "com_pi_start l" ys] root_length [OF _ that(1)] com that(2)
    by (auto simp: pi_com_def split: sum.splits)
  have roots: "(list_all is_bool_target (dw_attribute_mask w)
      \<and> (case merkle_root_from_leaves perm (dw_attr_targets w) of Inl _ \<Rightarrow> False
         | Inr r \<Rightarrow> list_all (\<lambda>i. r ! i = parent_pis l w ! (com_pi_start l + i)) [0..<com_pi_len l])
      \<and> (case merkle_root_from_leaves perm (map2 mask_leaf (dw_attr_targets w) (dw_attribute_mask w)) of Inl _ \<Rightarrow> False
         | Inr r \<Rightarrow> list_all (\<lambda>i. dw_outer_pis w ! (com_pi_start l + i) = r ! i) [0..<com_pi_len l])) \<longleftrightarrow> ?com"
  proof (cases "\<exists>bs. dw_attribute_mask w = map of_bool bs")
    case False
    then show ?thesis by (auto simp: bool_targets step_commitments_def)
  next
    case True
    then obtain bs where bs: "dw_attribute_mask w = map of_bool bs" by blast
    have inj: "map of_bool bs = map of_bool cs \<longleftrightarrow> bs = cs" for cs :: "bool list"
      by (rule inj_map_eq_map) (auto simp: inj_def)
    have out: "base_pi_count l \<le> length (dw_outer_pis w)" using lens by simp
    have par: "base_pi_count l \<le> length (parent_pis l w)" using parlen cyc by simp
    have swap: "(case merkle_root_from_leaves perm xs of Inl _ \<Rightarrow> False
         | Inr r \<Rightarrow> list_all (\<lambda>i. dw_outer_pis w ! (com_pi_start l + i) = r ! i) [0..<com_pi_len l])
      \<longleftrightarrow> (case merkle_root_from_leaves perm xs of Inl _ \<Rightarrow> False
         | Inr r \<Rightarrow> list_all (\<lambda>i. r ! i = dw_outer_pis w ! (com_pi_start l + i)) [0..<com_pi_len l])" for xs
      by (simp only: eq_commute [of "dw_outer_pis w ! j" for j])
    have "(\<exists>cs. step_commitments perm l w cs) \<longleftrightarrow> step_commitments perm l w bs"
      by (auto simp: step_commitments_def bs inj)
    then show ?thesis
      unfolding bs bool_targets masked_attrs_bools [OF leaves] root [OF leaves par]
        swap root [OF masked_leaves_shape [OF leaves] out]
      by (auto simp: step_commitments_def bs)
  qed
  show ?thesis
    unfolding delegation_circuit_def Let_def sel acc dig lev using roots com(3) shape eq by blast
qed

end

subsection \<open>The prover's witness\<close>

lemma canon_diff_byte:
  assumes "a < 1024" "b < 1024"
  shows "canon (of_nat a - of_nat b) < 256 \<longleftrightarrow> b \<le> a \<and> a - b < 256"
proof (cases "b \<le> a")
  case True
  then have "(of_nat a - of_nat b :: gf) = of_nat (a - b)" by simp
  then show ?thesis using True assms by (simp del: of_nat_diff)
next
  case False
  let ?n = "18446744069414584321 - (b - a)"
  have "(of_nat (?n + b) :: gf) = of_nat a"
  proof -
    have "?n + b = a + 18446744069414584321" using False assms by linarith
    then show ?thesis by (simp only: of_nat_gf_eq_iff mod_add_self2)
  qed
  then have "(of_nat a - of_nat b :: gf) = of_nat ?n"
    by (simp only: of_nat_add) (simp add: algebra_simps)
  then have "canon (of_nat a - of_nat b) = ?n"
    using False assms by (simp only: canon_of_nat) simp
  then show ?thesis using False assms by simp
qed

lemma foldl_updates_length: "length (foldl (\<lambda>pis i. pis[s + i := f i]) xs is) = length xs"
  by (induction "is" arbitrary: xs) simp_all

lemma foldl_updates:
  "j < length xs \<Longrightarrow> foldl (\<lambda>pis i. pis[s + i := f i]) xs [0..<n] ! j = (if s \<le> j \<and> j < s + n then f (j - s) else xs ! j)"
proof (induction n)
  case (Suc n)
  then show ?case
    by (cases "j = s + n") (simp_all add: foldl_updates_length)
qed auto

text \<open>The public inputs of the next step.\<close>

lemma next_step_pis:
  assumes l: "delegation_layout l" and len: "base_pi_count l \<le> length prev" and com: "length com_next = NUM_HASH_OUT_ELTS"
  shows "length (next_step_pis l prev cap com_next) = base_pi_count l"
    "next_step_pis l prev cap com_next ! level_pi_idx l = prev ! level_pi_idx l + 1"
    "next_step_pis l prev cap com_next ! max_level_pi_idx l = of_nat cap"
    "pi_com l (next_step_pis l prev cap com_next) = com_next"
    "\<And>i. i < level_pi_idx l \<Longrightarrow> \<not> in_com l i \<Longrightarrow> next_step_pis l prev cap com_next ! i = prev ! i"
proof -
  note d = delegation_layout_def base_pi_count_def
  let ?p = "next_step_pis l prev cap com_next"
  let ?q = "take (base_pi_count l) prev"
  let ?r = "?q[level_pi_idx l := ?q ! level_pi_idx l + 1, max_level_pi_idx l := of_nat cap]"
  have lenr: "length ?r = base_pi_count l" using len by simp
  have nth: "?p ! j = (if in_com l j then com_next ! (j - com_pi_start l) else ?r ! j)" if "j < base_pi_count l" for j
    using foldl_updates [of j ?r "com_pi_start l" "\<lambda>i. com_next ! i" "com_pi_len l"] that lenr
    by (simp add: next_step_pis_def Let_def in_com_def)
  show lenp: "length ?p = base_pi_count l"
    using lenr by (simp add: next_step_pis_def Let_def foldl_updates_length)
  have lv: "level_pi_idx l < base_pi_count l" "max_level_pi_idx l < base_pi_count l" "max_level_pi_idx l \<noteq> level_pi_idx l"
    "\<not> in_com l (level_pi_idx l)" "\<not> in_com l (max_level_pi_idx l)"
    using l by (auto simp: d in_com_def)
  show "?p ! level_pi_idx l = prev ! level_pi_idx l + 1" "?p ! max_level_pi_idx l = of_nat cap"
    using nth [of "level_pi_idx l"] nth [of "max_level_pi_idx l"] lv lenr len by simp_all
  show "?p ! i = prev ! i" if "i < level_pi_idx l" "\<not> in_com l i" for i
  proof -
    have "i \<noteq> level_pi_idx l" "i \<noteq> max_level_pi_idx l" "i < base_pi_count l" using that l by (auto simp: d)
    then show ?thesis using nth [of i] that len by simp
  qed
  have c: "com_pi_start l + com_pi_len l \<le> base_pi_count l" "com_pi_len l = length com_next"
    using l com by (simp_all add: d)
  show "pi_com l ?p = com_next"
  proof (rule nth_equalityI)
    show "length (pi_com l ?p) = length com_next" using c lenp by (simp add: pi_com_def)
    fix i assume "i < length (pi_com l ?p)"
    then have i: "i < com_pi_len l" by (simp add: pi_com_def)
    then have "com_pi_start l + i < base_pi_count l" "in_com l (com_pi_start l + i)" using c by (simp_all add: in_com_def)
    then show "pi_com l ?p ! i = com_next ! i"
      using i nth [of "com_pi_start l + i"] lenp c(1) by (simp add: pi_com_def)
  qed
qed

lemma is_equal_generated: "is_equal_circuit x y (fst (equality_generator x y)) (snd (equality_generator x y))"
  using is_equal_complete [of x y] by (simp add: case_prod_unfold)

text \<open>Which caps a step admits: the guard of \<open>resolve_depth_cap\<close> and the range checks agree.\<close>

lemma resolve_depth_cap_iff:
  "resolve_depth_cap max_level level_next prev_max = Inr cap \<longleftrightarrow>
     cap = (case max_level of None \<Rightarrow> prev_max | Some m \<Rightarrow> unat m) \<and> level_next \<le> cap \<and> cap \<le> prev_max"
  by (auto simp: resolve_depth_cap_def Let_def)

definition parent_levels_ok :: "base_public_input_layout \<Rightarrow> gf list \<Rightarrow> bool" where
  "parent_levels_ok l prev \<longleftrightarrow>
     canon (prev ! level_pi_idx l) \<le> canon (prev ! max_level_pi_idx l) \<and> canon (prev ! max_level_pi_idx l) \<le> LEVEL_UNBOUNDED"

lemma step_levels_iff_guard:
  assumes p: "parent_levels_ok l (parent_pis l w)" and cap: "cap < goldilocks_order"
    and lev: "dw_outer_pis w ! level_pi_idx l = parent_pis l w ! level_pi_idx l + 1"
    and maxl: "dw_outer_pis w ! max_level_pi_idx l = of_nat cap"
  shows "step_levels l w \<longleftrightarrow>
    canon (parent_pis l w ! level_pi_idx l) + 1 \<le> cap \<and> cap \<le> canon (parent_pis l w ! max_level_pi_idx l)"
proof -
  let ?lv = "canon (parent_pis l w ! level_pi_idx l)" and ?mx = "canon (parent_pis l w ! max_level_pi_idx l)"
  have b: "?lv \<le> ?mx" "?mx \<le> 255" using p by (simp_all add: parent_levels_ok_def LEVEL_UNBOUNDED_def MAX_LEVEL_BITS_def)
  have l1: "dw_outer_pis w ! level_pi_idx l = of_nat (?lv + 1)" using lev by simp
  have m1: "parent_pis l w ! max_level_pi_idx l = of_nat ?mx" by simp
  have "step_levels l w \<longleftrightarrow> cap < 256 \<and> canon (of_nat cap - of_nat (?lv + 1)) < 256 \<and> canon (of_nat ?mx - of_nat cap) < 256"
    using cap lev unfolding step_levels_def Let_def l1 [symmetric] maxl
    by (simp del: of_nat_Suc)
  also have "\<dots> \<longleftrightarrow> ?lv + 1 \<le> cap \<and> cap \<le> ?mx"
    using b by (cases "cap < 256") (simp_all only: canon_diff_byte, auto simp: canon_diff_byte)
  finally show ?thesis .
qed

context sponge_permutation
begin

lemma step_attributes_Inr:
  assumes u: "uniform w attrs" "attrs \<noteq> []" and n: "length attrs \<le> num_max" "is_power_of_two num_max"
  obtains padded com masked where
    "pad_attributes attrs num_max = Inr padded"
    "step_attributes perm num_max attrs bitmap = Inr (padded, resize num_max False bitmap, com)"
    "mask_attributes padded (resize num_max False bitmap) = Inr masked"
    "compute_merkle_root perm masked = Inr com"
    "uniform w padded" "length padded = num_max"
proof -
  obtain k where k: "num_max = 2 ^ k" using n(2) by (auto simp: is_power_of_two_iff)
  obtain padded where p: "pad_attributes attrs num_max = Inr padded"
      "padded = attrs @ replicate (2 ^ k - length attrs) (Attribute (1 # replicate (w - 1) 0))"
    using pad_attributes_Inr [OF u] n(1) k by auto
  have up: "uniform w padded" "length padded = num_max"
    using u n(1) by (auto simp: p(2) k uniform_def len_bytes_def)
  let ?bm = "resize num_max False bitmap"
  have "length ?bm = length padded" using up by (simp add: resize_def)
  then obtain masked where m: "mask_attributes padded ?bm = Inr masked"
    using mask_succeeds [OF up(1)] by blast
  have "uniform w masked" "length masked = 2 ^ k" using mask_uniform [OF m up(1)] up(2) k by simp_all
  then obtain com where "compute_merkle_root perm masked = Inr com" using compute_merkle_root_Inr by blast
  then show ?thesis using that p(1) m up by (simp add: step_attributes_def Let_def)
qed

text \<open>The wires the prover fills satisfy the two Merkle constraints.\<close>

lemma step_commitments_filled:
  assumes p: "uniform w padded" "is_power_of_two (length padded)"
    and root: "compute_merkle_root perm padded = Inr (pi_com l (parent_pis l wires))"
    and m: "mask_attributes padded bm = Inr masked" and com: "compute_merkle_root perm masked = Inr (pi_com l (dw_outer_pis wires))"
    and w: "dw_attr_targets wires = map (hashed_leaf perm) padded" "dw_attribute_mask wires = map of_bool bm"
  shows "step_commitments perm l wires bm"
proof -
  obtain k where k: "length padded = 2 ^ k" using p(2) by (auto simp: is_power_of_two_iff)
  have um: "uniform w masked" "length masked = 2 ^ k" using mask_uniform [OF m p(1)] k by simp_all
  have "masked_leaves (map (hashed_leaf perm) padded) bm = map (hashed_leaf perm) masked"
    using mask_leaves [OF m, of perm] by (simp only: masked_leaves_def NUM_HASH_OUT_ELTS_def)
  then show ?thesis
    using circuit_root_of_attributes [OF attributes_to_leaves_Inr [OF p(1) k]]
      circuit_root_of_attributes [OF attributes_to_leaves_Inr [OF um]] root com w
    by (simp add: step_commitments_def)
qed

lemma fill_hashed_Inr:
  "uniform w padded \<Longrightarrow> length padded = n \<Longrightarrow> fill_hashed_attribute_witness perm n padded = Inr (map (hashed_leaf perm) padded)"
  by (auto simp: fill_hashed_attribute_witness_def map_res_Inr_iff uniform_def attribute_to_hashed_leaf_Inr)

text \<open>
  The witness of a step, as filled by either prover: the circuit accepts it exactly when the
  cap is admissible.
\<close>

definition filled_step ::
    "base_public_input_layout \<Rightarrow> attribute list \<Rightarrow> bool list \<Rightarrow> gf list \<Rightarrow> nat \<Rightarrow> hash_out \<Rightarrow> delegation_wires \<Rightarrow> bool" where
  "filled_step l padded bm prev cap com w \<longleftrightarrow>
     dw_outer_pis w = next_step_pis l prev cap com
   \<and> (dw_is_base w, dw_is_base_inv w) = equality_generator (dw_outer_pis w ! level_pi_idx l) 1
   \<and> dw_attr_targets w = map (hashed_leaf perm) padded \<and> dw_attribute_mask w = map of_bool bm"

lemma com_length:
  assumes "compute_merkle_root perm attrs = Inr com"
  shows "length com = NUM_HASH_OUT_ELTS"
proof -
  obtain leaves where a: "attributes_to_leaves perm attrs = Inr leaves" using assms by (auto simp: compute_merkle_root_def)
  obtain k where u: "uniform (len_bytes (attrs ! 0)) attrs" "length attrs = 2 ^ k"
    using attributes_to_leaves_uniform [OF a] by blast
  have "leaves = map (hashed_leaf perm) attrs" using a attributes_to_leaves_Inr [OF u] by simp
  then show ?thesis
    using circuit_root_of_attributes [OF a] assms root_length [of leaves com]
    by (simp add: list_all_iff hashed_leaf_length NUM_HASH_OUT_ELTS_def)
qed

lemma filled_step_iff:
  assumes l: "delegation_layout l" and vk: "verifier_data_shape cap_len (dw_verifier_data w)" "verifier_data_shape cap_len (dw_wrapper_vk w)"
    and len: "length (dw_wrapper_pis w) = cyclic_num_public_inputs cap_len l" "length (dw_inner_pis w) = cyclic_num_public_inputs cap_len l"
    and filled: "filled_step l padded bm (parent_pis l w) cap com w"
    and pad: "uniform n padded" "length padded = num_max_attributes l" "length bm = num_max_attributes l"
    and mask: "mask_attributes padded bm = Inr masked" "compute_merkle_root perm masked = Inr com"
    and root: "compute_merkle_root perm padded = Inr (pi_com l (parent_pis l w))"
    and acc: "step_accepts_parent verify cap_len l ip wp w"
    and dig: "dw_wrapper_digest_pis w = (if step_is_base l w then circuit_digest (dw_wrapper_vk w) else pi_digest l (dw_inner_pis w))"
    and lev: "parent_levels_ok l (parent_pis l w)" "cap < goldilocks_order"
  shows "delegation_circuit perm verify cap_len l ip wp w \<longleftrightarrow>
    canon (parent_pis l w ! level_pi_idx l) + 1 \<le> cap \<and> cap \<le> canon (parent_pis l w ! max_level_pi_idx l)"
proof -
  have parlen: "length (parent_pis l w) = cyclic_num_public_inputs cap_len l" using len by (simp add: parent_pis_def)
  then have "base_pi_count l \<le> length (parent_pis l w)" by (simp add: cyclic_num_public_inputs_def)
  note nx = next_step_pis [OF l this com_length [OF mask(2)], where cap = cap]
  have outer: "dw_outer_pis w = next_step_pis l (parent_pis l w) cap com"
    and eq: "is_equal_circuit (dw_outer_pis w ! level_pi_idx l) 1 (dw_is_base w) (dw_is_base_inv w)"
    and wires: "dw_attr_targets w = map (hashed_leaf perm) padded" "dw_attribute_mask w = map of_bool bm"
    using filled is_equal_generated [of "dw_outer_pis w ! level_pi_idx l" 1]
    by (simp_all add: filled_step_def) (metis fst_conv snd_conv)
  have "length (dw_wrapper_digest_pis w) = NUM_HASH_OUT_ELTS"
    using dig vk len by (simp add: verifier_data_shape_def pi_digest_def cyclic_num_public_inputs_def)
  then have shape: "delegation_shape cap_len l w"
    using nx(1) outer vk len pad wires
    by (simp add: delegation_shape_def list_all_iff hashed_leaf_length NUM_HASH_OUT_ELTS_def)
  have n2: "is_power_of_two (length padded)" using l pad(2) by (simp add: delegation_layout_def)
  have com: "compute_merkle_root perm masked = Inr (pi_com l (dw_outer_pis w))" using mask(2) nx(4) outer by simp
  have comm: "step_commitments perm l w bm"
    by (rule step_commitments_filled [OF pad(1) n2 root mask(1) com wires])
  have fwd: "list_all (\<lambda>i. in_com l i \<or> dw_outer_pis w ! i = parent_pis l w ! i) [0..<level_pi_idx l]"
    unfolding outer list_all_iff by (metis nx(5) atLeastLessThan_iff set_upt)
  have "dw_outer_pis w ! level_pi_idx l = parent_pis l w ! level_pi_idx l + 1" "dw_outer_pis w ! max_level_pi_idx l = of_nat cap"
    using nx(2,3) outer by simp_all
  from step_levels_iff_guard [OF lev this]
  show ?thesis
    unfolding delegation_circuit_iff [OF l shape] using eq fwd acc dig comm by blast
qed

lemma base_step_iff:
  assumes l: "delegation_layout l" and vk: "verifier_data_shape cap_len del_vk" "verifier_data_shape cap_len wrapper_vk"
    and len: "length wrapper_pis = cyclic_num_public_inputs cap_len l" "length dummy_pis = cyclic_num_public_inputs cap_len l"
    and dummy: "verifier_data_from_slice cap_len dummy_pis = Inr del_vk"
    and attrs: "uniform n attrs" "attrs \<noteq> []" "length attrs \<le> num_max_attributes l"
    and root: "bind_res (pad_attributes attrs (num_max_attributes l)) (compute_merkle_root perm) = Inr (pi_com l wrapper_pis)"
    and ver: "verify wrapper_vk wrapper_proof wrapper_pis"
    and lev: "wrapper_pis ! level_pi_idx l = 0" "parent_levels_ok l wrapper_pis" "cap < goldilocks_order"
  obtains w where "prove_delegation_base_with_cap perm l del_vk wrapper_vk wrapper_pis dummy_pis attrs bitmap cap = Inr w"
    "delegation_circuit perm verify cap_len l inner_proof wrapper_proof w \<longleftrightarrow> 1 \<le> cap \<and> cap \<le> canon (wrapper_pis ! max_level_pi_idx l)"
proof -
  have n2: "is_power_of_two (num_max_attributes l)" using l by (simp add: delegation_layout_def)
  let ?bm = "resize (num_max_attributes l) False bitmap"
  obtain padded com masked where p: "pad_attributes attrs (num_max_attributes l) = Inr padded"
      "step_attributes perm (num_max_attributes l) attrs bitmap = Inr (padded, ?bm, com)"
      "mask_attributes padded ?bm = Inr masked" "compute_merkle_root perm masked = Inr com"
      "uniform n padded" "length padded = num_max_attributes l"
    by (rule step_attributes_Inr [OF attrs n2, of bitmap])
  have bm: "length ?bm = num_max_attributes l" by (simp add: resize_def)
  let ?next = "next_step_pis l wrapper_pis cap com"
  have "base_pi_count l \<le> length wrapper_pis" using len by (simp add: cyclic_num_public_inputs_def)
  note nx = next_step_pis [OF l this com_length [OF p(4)], where cap = cap]
  define w where "w = \<lparr>dw_outer_pis = ?next, dw_wrapper_digest_pis = circuit_digest wrapper_vk, dw_verifier_data = del_vk,
          dw_inner_pis = dummy_pis, dw_wrapper_pis = wrapper_pis, dw_wrapper_vk = wrapper_vk,
          dw_is_base = fst (equality_generator (?next ! level_pi_idx l) 1),
          dw_is_base_inv = snd (equality_generator (?next ! level_pi_idx l) 1),
          dw_attr_targets = map (hashed_leaf perm) padded, dw_attribute_mask = map of_bool ?bm\<rparr>"
  have prove: "prove_delegation_base_with_cap perm l del_vk wrapper_vk wrapper_pis dummy_pis attrs bitmap cap = Inr w"
    using p(2) fill_hashed_Inr [OF p(5,6)] bm
    by (simp add: prove_delegation_base_with_cap_def case_prod_unfold Let_def w_def fill_attribute_mask_witness_def)
  have base: "step_is_base l w" using nx(2) lev(1) by (simp add: step_is_base_def w_def)
  then have par: "parent_pis l w = wrapper_pis" by (simp add: parent_pis_def w_def)
  have "filled_step l padded ?bm (parent_pis l w) cap com w" unfolding par by (simp add: filled_step_def w_def)
  moreover have "step_accepts_parent verify cap_len l inner_proof wrapper_proof w"
    using dummy ver base by (simp add: step_accepts_parent_def) (simp add: w_def)
  ultimately have "delegation_circuit perm verify cap_len l inner_proof wrapper_proof w
      \<longleftrightarrow> canon (parent_pis l w ! level_pi_idx l) + 1 \<le> cap \<and> cap \<le> canon (parent_pis l w ! max_level_pi_idx l)"
    using vk len root p(1) lev base par
    by (intro filled_step_iff [OF l _ _ _ _ _ p(5,6) bm p(3,4)]) (simp_all, simp_all add: w_def)
  then show ?thesis using that prove par lev(1) by simp
qed

lemma recursive_step_iff:
  assumes l: "delegation_layout l" and vk: "verifier_data_shape cap_len del_vk" "verifier_data_shape cap_len wrapper_vk"
    and len: "length prev_pis = cyclic_num_public_inputs cap_len l" "length dummy_pis = cyclic_num_public_inputs cap_len l"
    and embedded: "verifier_data_from_slice cap_len prev_pis = Inr del_vk"
    and attrs: "uniform n attrs" "attrs \<noteq> []" "length attrs \<le> num_max_attributes l"
    and root: "bind_res (pad_attributes attrs (num_max_attributes l)) (compute_merkle_root perm) = Inr (pi_com l prev_pis)"
    and ver: "verify del_vk prev_proof prev_pis"
    and lev: "prev_pis ! level_pi_idx l \<noteq> 0" "parent_levels_ok l prev_pis" "cap < goldilocks_order"
  obtains w where "prove_delegation_step_with_cap perm l del_vk wrapper_vk dummy_pis prev_pis attrs bitmap cap = Inr w"
    "delegation_circuit perm verify cap_len l prev_proof wrapper_proof w \<longleftrightarrow>
       canon (prev_pis ! level_pi_idx l) + 1 \<le> cap \<and> cap \<le> canon (prev_pis ! max_level_pi_idx l)"
proof -
  have n2: "is_power_of_two (num_max_attributes l)" using l by (simp add: delegation_layout_def)
  let ?bm = "resize (num_max_attributes l) False bitmap"
  obtain padded com masked where p: "pad_attributes attrs (num_max_attributes l) = Inr padded"
      "step_attributes perm (num_max_attributes l) attrs bitmap = Inr (padded, ?bm, com)"
      "mask_attributes padded ?bm = Inr masked" "compute_merkle_root perm masked = Inr com"
      "uniform n padded" "length padded = num_max_attributes l"
    by (rule step_attributes_Inr [OF attrs n2, of bitmap])
  have bm: "length ?bm = num_max_attributes l" by (simp add: resize_def)
  let ?next = "next_step_pis l prev_pis cap com"
  have "base_pi_count l \<le> length prev_pis" using len by (simp add: cyclic_num_public_inputs_def)
  note nx = next_step_pis [OF l this com_length [OF p(4)], where cap = cap]
  define w where "w = \<lparr>dw_outer_pis = ?next,
          dw_wrapper_digest_pis = map (\<lambda>j. prev_pis ! (base_pi_count l + j)) [0..<NUM_HASH_OUT_ELTS],
          dw_verifier_data = del_vk,
          dw_inner_pis = prev_pis, dw_wrapper_pis = dummy_pis, dw_wrapper_vk = wrapper_vk,
          dw_is_base = fst (equality_generator (?next ! level_pi_idx l) 1),
          dw_is_base_inv = snd (equality_generator (?next ! level_pi_idx l) 1),
          dw_attr_targets = map (hashed_leaf perm) padded, dw_attribute_mask = map of_bool ?bm\<rparr>"
  have prove: "prove_delegation_step_with_cap perm l del_vk wrapper_vk dummy_pis prev_pis attrs bitmap cap = Inr w"
    using p(2) fill_hashed_Inr [OF p(5,6)] bm
    by (simp add: prove_delegation_step_with_cap_def case_prod_unfold Let_def w_def fill_attribute_mask_witness_def)
  have notbase: "\<not> step_is_base l w" using nx(2) lev(1) by (simp add: step_is_base_def w_def)
  then have par: "parent_pis l w = prev_pis" by (simp add: parent_pis_def w_def)
  have dig: "map (\<lambda>j. prev_pis ! (base_pi_count l + j)) [0..<NUM_HASH_OUT_ELTS] = pi_digest l prev_pis"
    using len by (intro nth_equalityI) (simp_all add: pi_digest_def cyclic_num_public_inputs_def)
  have "filled_step l padded ?bm (parent_pis l w) cap com w" unfolding par by (simp add: filled_step_def w_def)
  moreover have "step_accepts_parent verify cap_len l prev_proof wrapper_proof w"
    using embedded ver notbase by (simp add: step_accepts_parent_def) (simp add: w_def)
  ultimately have "delegation_circuit perm verify cap_len l prev_proof wrapper_proof w
      \<longleftrightarrow> canon (parent_pis l w ! level_pi_idx l) + 1 \<le> cap \<and> cap \<le> canon (parent_pis l w ! max_level_pi_idx l)"
    using vk len root p(1) lev notbase par dig
    by (intro filled_step_iff [OF l _ _ _ _ _ p(5,6) bm p(3,4)]) (simp_all, simp_all add: w_def)
  then show ?thesis using that prove par by simp
qed

end

text \<open>The dummy proof of the base step has level 0 and embeds the delegation key.\<close>

lemma dummy_pis:
  assumes "verifier_data_shape cap_len del_vk" "delegation_layout l"
  shows "length (build_delegation_dummy_pis cap_len l del_vk) = cyclic_num_public_inputs cap_len l"
    "verifier_data_from_slice cap_len (build_delegation_dummy_pis cap_len l del_vk) = Inr del_vk"
    "build_delegation_dummy_pis cap_len l del_vk ! level_pi_idx l = 0"
proof -
  have n: "4 + 4 * cap_len \<le> cyclic_num_public_inputs cap_len l" by (simp add: cyclic_num_public_inputs_def)
  show "length (build_delegation_dummy_pis cap_len l del_vk) = cyclic_num_public_inputs cap_len l"
    by (simp add: build_delegation_dummy_pis_def cyclic_base_pis_def Let_def)
  show "verifier_data_from_slice cap_len (build_delegation_dummy_pis cap_len l del_vk) = Inr del_vk"
    unfolding build_delegation_dummy_pis_def cyclic_base_pis_split [OF assms(1) n] by (rule from_slice_elements [OF assms(1)])
  have "level_pi_idx l < cyclic_num_public_inputs cap_len l - 4 - 4 * cap_len"
    using assms(2) by (simp add: cyclic_num_public_inputs_def delegation_layout_def base_pi_count_def)
  then show "build_delegation_dummy_pis cap_len l del_vk ! level_pi_idx l = 0"
    unfolding build_delegation_dummy_pis_def cyclic_base_pis_split [OF assms(1) n] by (simp add: nth_append)
qed

end
