(* ===== verification/Present.thy ===== *)
theory Present
  imports Delegate
begin

text \<open>
  The presentation circuit \<open>R_Pres\<close> (\<open>src/circuits/present.rs\<close>): it verifies a delegation
  proof under the hard-coded delegation key, recomputes the attribute commitment from the leaf
  digests, and publishes the revealed ones.
\<close>

record presentation_wires =
  pw_issuer_pk_pis :: "gf list"
  pw_disclosed_pis :: "gf list"
  pw_nonce_pi :: gf
  pw_wrapper_digest_pis :: hash_out
  pw_leaf_digests :: "gf list list"
  pw_reveal :: "gf list"
  pw_inner_pis :: "gf list"

definition presentation_pis :: "presentation_wires \<Rightarrow> gf list" where
  "presentation_pis w = pw_issuer_pk_pis w @ pw_disclosed_pis w @ [pw_nonce_pi w] @ pw_wrapper_digest_pis w"

text \<open>The assertions of \<open>build_presentation_circuit\<close>.\<close>

definition presentation_params ::
    "nat \<Rightarrow> verifier_data \<Rightarrow> base_public_input_layout \<Rightarrow> nat \<Rightarrow> bool" where
  "presentation_params num_public_inputs del_vk l wrapper_digest_pi_start \<longleftrightarrow>
     is_power_of_two (num_max_attributes l) \<and> 0 < num_max_attributes l
   \<and> issuer_pk_pi_start l + issuer_pk_pi_len l \<le> num_public_inputs
   \<and> com_pi_start l + com_pi_len l \<le> num_public_inputs \<and> com_pi_len l = 4
   \<and> wrapper_digest_pi_start + NUM_HASH_OUT_ELTS
       + NUM_HASH_OUT_ELTS * (1 + length (constants_sigmas_cap del_vk)) = num_public_inputs"

definition presentation_shape :: "nat \<Rightarrow> base_public_input_layout \<Rightarrow> presentation_wires \<Rightarrow> bool" where
  "presentation_shape num_public_inputs l w \<longleftrightarrow>
     length (pw_issuer_pk_pis w) = issuer_pk_pi_len l
   \<and> length (pw_disclosed_pis w) = num_max_attributes l * NUM_HASH_OUT_ELTS
   \<and> length (pw_wrapper_digest_pis w) = NUM_HASH_OUT_ELTS
   \<and> length (pw_leaf_digests w) = num_max_attributes l
   \<and> list_all (\<lambda>leaf. length leaf = NUM_HASH_OUT_ELTS) (pw_leaf_digests w)
   \<and> length (pw_reveal w) = num_max_attributes l
   \<and> length (pw_inner_pis w) = num_public_inputs"

definition presentation_circuit ::
    "(gf list \<Rightarrow> gf list) \<Rightarrow> 'p verify \<Rightarrow> nat \<Rightarrow> verifier_data \<Rightarrow> base_public_input_layout \<Rightarrow> nat \<Rightarrow> 'p \<Rightarrow> presentation_wires \<Rightarrow> bool" where
  "presentation_circuit perm verify num_public_inputs del_vk l wrapper_digest_pi_start inner_proof w \<longleftrightarrow>
     (let inner = pw_inner_pis w;
          vk_pi_start = wrapper_digest_pi_start + NUM_HASH_OUT_ELTS;
          cap_len = length (constants_sigmas_cap del_vk);
          inner_vk = \<lparr>circuit_digest = map (\<lambda>j. inner ! (vk_pi_start + j)) [0..<NUM_HASH_OUT_ELTS],
                      constants_sigmas_cap =
                        map (\<lambda>i. map (\<lambda>j. inner ! (vk_pi_start + NUM_HASH_OUT_ELTS * (1 + i) + j)) [0..<NUM_HASH_OUT_ELTS])
                          [0..<cap_len]\<rparr>
      in presentation_params num_public_inputs del_vk l wrapper_digest_pi_start
       \<and> presentation_shape num_public_inputs l w
       \<and> list_all (\<lambda>i. pw_issuer_pk_pis w ! i = inner ! (issuer_pk_pi_start l + i)) [0..<issuer_pk_pi_len l]
       \<and> verify del_vk inner_proof inner
       \<and> inner_vk = del_vk
       \<and> list_all (\<lambda>j. pw_wrapper_digest_pis w ! j = inner ! (wrapper_digest_pi_start + j)) [0..<NUM_HASH_OUT_ELTS]
       \<and> list_all is_bool_target (pw_reveal w)
       \<and> (case merkle_root_from_leaves perm (pw_leaf_digests w) of
            Inl _ \<Rightarrow> False
          | Inr recomputed_root \<Rightarrow> list_all (\<lambda>j. recomputed_root ! j = inner ! (com_pi_start l + j)) [0..<NUM_HASH_OUT_ELTS])
       \<and> list_all (\<lambda>i. list_all (\<lambda>j.
             pw_disclosed_pis w ! (i * NUM_HASH_OUT_ELTS + j) = select (pw_reveal w ! i) (pw_leaf_digests w ! i ! j) 0)
           [0..<NUM_HASH_OUT_ELTS]) [0..<num_max_attributes l])"

text \<open>
  The witness.  The disclosed inputs, the digest and the gadget outputs are set by the generators
  of the connected targets.
\<close>

definition build_presentation_witness ::
    "(gf list \<Rightarrow> gf list) \<Rightarrow> nat \<Rightarrow> base_public_input_layout \<Rightarrow> nat \<Rightarrow> gf list \<Rightarrow> attribute list \<Rightarrow> bool list \<Rightarrow> u32
      \<Rightarrow> presentation_wires res" where
  "build_presentation_witness perm num_public_inputs l wrapper_digest_pi_start del_pis attributes reveal_mask nonce =
     ensure (length del_pis = num_public_inputs) (Panic ''delegation proof PI length mismatch'')
      (if length attributes \<noteq> num_max_attributes l then Inl (Bail ''attributes length mismatch'')
       else if length reveal_mask \<noteq> num_max_attributes l then Inl (Bail ''reveal_mask length mismatch'')
       else bind_res (map_res (attribute_to_hashed_leaf perm) attributes) (\<lambda>leaves.
         let reveal = map of_bool reveal_mask in
         Inr \<lparr>pw_issuer_pk_pis = map (\<lambda>i. del_pis ! (issuer_pk_pi_start l + i)) [0..<issuer_pk_pi_len l],
              pw_disclosed_pis = concat (map2 (\<lambda>leaf b. map (\<lambda>e. select b e 0) leaf) leaves reveal),
              pw_nonce_pi = of_nat (unat nonce),
              pw_wrapper_digest_pis = map (\<lambda>j. del_pis ! (wrapper_digest_pi_start + j)) [0..<NUM_HASH_OUT_ELTS],
              pw_leaf_digests = leaves,
              pw_reveal = reveal,
              pw_inner_pis = del_pis\<rparr>))"

subsection \<open>What the circuit says\<close>

definition pi_issuer_pk :: "base_public_input_layout \<Rightarrow> gf list \<Rightarrow> gf list" where
  "pi_issuer_pk l pis = take (issuer_pk_pi_len l) (drop (issuer_pk_pi_start l) pis)"

lemma map_nth_slice: "s + n \<le> length xs \<Longrightarrow> map (\<lambda>j. xs ! (s + j)) [0..<n] = take n (drop s xs)"
  by (intro nth_equalityI) simp_all

text \<open>The key read at the end of the layout is the key the cyclic check reads.\<close>

lemma embedded_key_slices:
  assumes "vk_start + NUM_HASH_OUT_ELTS * (1 + cap_len) = length pis"
  shows "verifier_data_from_slice cap_len pis = Inr
    \<lparr>circuit_digest = map (\<lambda>j. pis ! (vk_start + j)) [0..<NUM_HASH_OUT_ELTS],
     constants_sigmas_cap = map (\<lambda>i. map (\<lambda>j. pis ! (vk_start + NUM_HASH_OUT_ELTS * (1 + i) + j)) [0..<NUM_HASH_OUT_ELTS]) [0..<cap_len]\<rparr>"
proof -
  have n: "length pis = vk_start + 4 + 4 * cap_len" using assms by (simp add: NUM_HASH_OUT_ELTS_def)
  have "take 4 (drop (length pis - 4 * (cap_len - i)) pis) = map (\<lambda>j. pis ! (vk_start + 4 * (1 + i) + j)) [0..<4]" if "i < cap_len" for i
  proof -
    have "length pis - 4 * (cap_len - i) = vk_start + 4 * (1 + i)" "vk_start + 4 * (1 + i) + 4 \<le> length pis" using that n by simp_all
    then show ?thesis by (simp only: map_nth_slice)
  qed
  moreover have "length pis - 4 - 4 * cap_len = vk_start" "vk_start + 4 \<le> length pis" using n by simp_all
  ultimately show ?thesis
    using n by (simp add: verifier_data_from_slice_def Let_def NUM_HASH_OUT_ELTS_def map_nth_slice)
qed

lemma concat_eq_fours:
  "length ds = 4 * length ls \<Longrightarrow> \<forall>h \<in> set ls. length h = 4 \<Longrightarrow>
     ds = concat ls \<longleftrightarrow> (\<forall>i < length ls. \<forall>j < 4. ds ! (i * 4 + j) = ls ! i ! j)"
proof -
  assume len: "length ds = 4 * length ls" and l: "\<forall>h \<in> set ls. length h = 4"
  have lc: "length (concat ls) = 4 * length ls" using l by (induction ls) simp_all
  have c: "concat ls ! (i * 4 + j) = ls ! i ! j" if "i < length ls" "j < 4" for i j
  proof -
    have "(i * 4 + j) div 4 = i" "(i * 4 + j) mod 4 = j" using that(2) by simp_all
    then show ?thesis using nth_concat_fours [OF l, of "i * 4 + j"] that by simp
  qed
  show ?thesis
  proof
    assume r: "\<forall>i < length ls. \<forall>j < 4. ds ! (i * 4 + j) = ls ! i ! j"
    show "ds = concat ls"
    proof (rule nth_equalityI)
      show "length ds = length (concat ls)" using len lc by simp
      fix k assume "k < length ds"
      then have "k div 4 < length ls" "k mod 4 < 4" using len by simp_all
      then have "ds ! (k div 4 * 4 + k mod 4) = concat ls ! (k div 4 * 4 + k mod 4)" using r c by metis
      then show "ds ! k = concat ls ! k" by simp
    qed
  qed (simp add: c)
qed

context sponge_permutation
begin

lemma presentation_circuit_iff:
  assumes par: "presentation_params n del_vk l (base_pi_count l)" and shape: "presentation_shape n l w"
  shows "presentation_circuit perm verify n del_vk l (base_pi_count l) inner_proof w \<longleftrightarrow>
     pw_issuer_pk_pis w = pi_issuer_pk l (pw_inner_pis w)
   \<and> verify del_vk inner_proof (pw_inner_pis w)
   \<and> verifier_data_from_slice (length (constants_sigmas_cap del_vk)) (pw_inner_pis w) = Inr del_vk
   \<and> pw_wrapper_digest_pis w = pi_digest l (pw_inner_pis w)
   \<and> merkle_root_from_leaves perm (pw_leaf_digests w) = Inr (pi_com l (pw_inner_pis w))
   \<and> (\<exists>bs. pw_reveal w = map of_bool bs \<and> pw_disclosed_pis w = concat (masked_leaves (pw_leaf_digests w) bs))"
proof -
  let ?inner = "pw_inner_pis w"
  let ?leaves = "pw_leaf_digests w"
  have s: "length (pw_issuer_pk_pis w) = issuer_pk_pi_len l" "length (pw_wrapper_digest_pis w) = NUM_HASH_OUT_ELTS"
      "length ?inner = n" "list_all (\<lambda>leaf. length leaf = NUM_HASH_OUT_ELTS) ?leaves"
      "length (pw_reveal w) = length ?leaves" "length ?leaves = num_max_attributes l"
      "length (pw_disclosed_pis w) = num_max_attributes l * NUM_HASH_OUT_ELTS"
    using shape by (simp_all add: presentation_shape_def)
  have p: "issuer_pk_pi_start l + issuer_pk_pi_len l \<le> length ?inner" "com_pi_start l + NUM_HASH_OUT_ELTS \<le> length ?inner"
      "com_pi_len l = NUM_HASH_OUT_ELTS" "base_pi_count l + NUM_HASH_OUT_ELTS \<le> length ?inner"
      "base_pi_count l + NUM_HASH_OUT_ELTS + NUM_HASH_OUT_ELTS * (1 + length (constants_sigmas_cap del_vk)) = length ?inner"
    using par s(3) by (simp_all add: presentation_params_def NUM_HASH_OUT_ELTS_def)
  have root: "(case merkle_root_from_leaves perm ?leaves of Inl _ \<Rightarrow> False
      | Inr r \<Rightarrow> list_all (\<lambda>j. r ! j = ?inner ! (com_pi_start l + j)) [0..<NUM_HASH_OUT_ELTS])
      \<longleftrightarrow> merkle_root_from_leaves perm ?leaves = Inr (pi_com l ?inner)"
    using connect_slice [of _ NUM_HASH_OUT_ELTS "com_pi_start l" ?inner] root_length [OF _ s(4)] p(2,3)
    by (auto simp: pi_com_def split: sum.splits)
  have rev: "(list_all is_bool_target (pw_reveal w) \<and> list_all (\<lambda>i. list_all (\<lambda>j.
             pw_disclosed_pis w ! (i * NUM_HASH_OUT_ELTS + j) = select (pw_reveal w ! i) (?leaves ! i ! j) 0)
           [0..<NUM_HASH_OUT_ELTS]) [0..<num_max_attributes l])
      \<longleftrightarrow> (\<exists>bs. pw_reveal w = map of_bool bs \<and> pw_disclosed_pis w = concat (masked_leaves ?leaves bs))"
  proof (cases "\<exists>bs. pw_reveal w = map of_bool bs")
    case True
    then obtain bs where bs: "pw_reveal w = map of_bool bs" by blast
    have inj: "map of_bool bs = map of_bool cs \<longleftrightarrow> bs = cs" for cs :: "bool list"
      by (rule inj_map_eq_map) (auto simp: inj_def)
    have lens: "length bs = length ?leaves" using s(5) bs by simp
    have sh: "\<forall>h \<in> set (masked_leaves ?leaves bs). length h = 4"
      using masked_leaves_shape [OF s(4)] by (simp add: list_all_iff NUM_HASH_OUT_ELTS_def)
    have "length (masked_leaves ?leaves bs) = num_max_attributes l" using lens s(6) by simp
    moreover have "masked_leaves ?leaves bs ! i ! j = select (of_bool (bs ! i)) (?leaves ! i ! j) 0"
      if "i < num_max_attributes l" "j < 4" for i j
      using that lens s(6) by (simp only: select_of_bool) (simp add: masked_leaves_def NUM_HASH_OUT_ELTS_def)
    ultimately have "pw_disclosed_pis w = concat (masked_leaves ?leaves bs) \<longleftrightarrow>
        (\<forall>i < num_max_attributes l. \<forall>j < 4. pw_disclosed_pis w ! (i * 4 + j) = select (of_bool (bs ! i)) (?leaves ! i ! j) 0)"
      using concat_eq_fours [OF _ sh, of "pw_disclosed_pis w"] s(7) by (simp add: NUM_HASH_OUT_ELTS_def)
    moreover have "list_all is_bool_target (map of_bool bs)" by (auto simp: bool_targets)
    ultimately show ?thesis
      using lens s(6) by (auto simp: bs inj list_all_iff NUM_HASH_OUT_ELTS_def simp del: of_bool_eq)
  qed (simp add: bool_targets)
  show ?thesis
    unfolding presentation_circuit_def Let_def root rev [symmetric] pi_issuer_pk_def pi_digest_def
      connect_slice [OF s(1) p(1)] connect_slice [OF s(2) p(4)] embedded_key_slices [OF p(5)]
    using par shape by (auto simp: eq_commute [of del_vk])
qed

text \<open>The prover's witness satisfies the circuit and discloses exactly the revealed leaves.\<close>

lemma build_presentation_witness_satisfies:
  assumes par: "presentation_params n del_vk l (base_pi_count l)" and len: "length del_pis = n"
    and attrs: "uniform w attrs" "length attrs = num_max_attributes l" "length reveal_mask = num_max_attributes l"
    and root: "compute_merkle_root perm attrs = Inr (pi_com l del_pis)"
    and ver: "verify del_vk del_proof del_pis"
    and emb: "verifier_data_from_slice (length (constants_sigmas_cap del_vk)) del_pis = Inr del_vk"
  obtains wires where
    "build_presentation_witness perm n l (base_pi_count l) del_pis attrs reveal_mask nonce = Inr wires"
    "presentation_circuit perm verify n del_vk l (base_pi_count l) del_proof wires"
    "presentation_pis wires = pi_issuer_pk l del_pis @ concat (masked_leaves (map (hashed_leaf perm) attrs) reveal_mask)
       @ [of_nat (unat nonce)] @ pi_digest l del_pis"
proof -
  let ?leaves = "map (hashed_leaf perm) attrs"
  obtain k where k: "num_max_attributes l = 2 ^ k" using par by (auto simp: presentation_params_def is_power_of_two_iff)
  note al = attributes_to_leaves_Inr [OF attrs(1), of k perm, unfolded attrs(2), OF k]
  have leaves: "map_res (attribute_to_hashed_leaf perm) attrs = Inr ?leaves"
    using attrs(1) by (auto simp: map_res_Inr_iff uniform_def attribute_to_hashed_leaf_Inr)
  have sh: "list_all (\<lambda>leaf. length leaf = NUM_HASH_OUT_ELTS) ?leaves"
    by (simp add: list_all_iff hashed_leaf_length NUM_HASH_OUT_ELTS_def)
  have masked: "map2 (\<lambda>leaf b. map (\<lambda>e. select b e 0) leaf) ?leaves (map of_bool reveal_mask) = masked_leaves ?leaves reveal_mask"
    unfolding masked_leaves_def using hashed_leaf_length
    by (intro nth_equalityI) (auto simp: attrs NUM_HASH_OUT_ELTS_def map_replicate_const)
  have p: "issuer_pk_pi_start l + issuer_pk_pi_len l \<le> length del_pis" "base_pi_count l + NUM_HASH_OUT_ELTS \<le> length del_pis"
    using par len by (simp_all add: presentation_params_def)
  define wires where "wires = \<lparr>pw_issuer_pk_pis = pi_issuer_pk l del_pis,
      pw_disclosed_pis = concat (masked_leaves ?leaves reveal_mask), pw_nonce_pi = of_nat (unat nonce),
      pw_wrapper_digest_pis = pi_digest l del_pis, pw_leaf_digests = ?leaves,
      pw_reveal = map of_bool reveal_mask, pw_inner_pis = del_pis\<rparr>"
  have w: "build_presentation_witness perm n l (base_pi_count l) del_pis attrs reveal_mask nonce = Inr wires"
    using leaves attrs len
    by (simp add: build_presentation_witness_def masked map_nth_slice [OF p(1)] map_nth_slice [OF p(2)]
        wires_def pi_issuer_pk_def pi_digest_def)
  have "length (concat (masked_leaves ?leaves reveal_mask)) = num_max_attributes l * NUM_HASH_OUT_ELTS"
  proof -
    have "\<forall>h \<in> set (masked_leaves ?leaves reveal_mask). length h = NUM_HASH_OUT_ELTS"
      using masked_leaves_shape [OF sh] by (simp add: list_all_iff)
    from length_concat_blocks [OF this] show ?thesis using attrs by simp
  qed
  then have shape: "presentation_shape n l wires"
    using sh attrs len p by (simp add: presentation_shape_def wires_def pi_issuer_pk_def pi_digest_def)
  have "merkle_root_from_leaves perm ?leaves = Inr (pi_com l del_pis)"
    using circuit_root_of_attributes [OF al] root by simp
  then have "presentation_circuit perm verify n del_vk l (base_pi_count l) del_proof wires"
    unfolding presentation_circuit_iff [OF par shape] using ver emb by (auto simp: wires_def)
  then show ?thesis using that w by (simp add: wires_def presentation_pis_def)
qed

end

end
