(* ===== verification/Wrapper.thy ===== *)
theory Wrapper
  imports Recursion
begin

text \<open>
  The wrapper circuit \<open>R_Wrap\<close> (\<open>src/circuits/jwt_wrapper.rs\<close>): it verifies a base proof under
  the hard-coded base key and forwards its public inputs in the shape of the delegation
  circuit.
\<close>

record wrapper_wires =
  ww_outer_pis :: "gf list"
  ww_wrapper_digest_pis :: hash_out
  ww_verifier_data :: verifier_data
  ww_base_pis :: "gf list"

definition wrapper_pis :: "wrapper_wires \<Rightarrow> gf list" where
  "wrapper_pis w = ww_outer_pis w @ ww_wrapper_digest_pis w @ verifier_data_elements (ww_verifier_data w)"

text \<open>\<open>verify_base\<close> is the verifier for the common data of the base circuit.\<close>

definition wrapper_circuit ::
    "'b verify \<Rightarrow> verifier_data \<Rightarrow> nat \<Rightarrow> nat \<Rightarrow> 'b \<Rightarrow> wrapper_wires \<Rightarrow> bool" where
  "wrapper_circuit verify_base base_vk cap_len base_num_public_inputs base_proof w \<longleftrightarrow>
     length (ww_outer_pis w) = base_num_public_inputs
   \<and> length (ww_base_pis w) = base_num_public_inputs
   \<and> length (ww_wrapper_digest_pis w) = NUM_HASH_OUT_ELTS
   \<and> verifier_data_shape cap_len (ww_verifier_data w)
   \<and> verify_base base_vk base_proof (ww_base_pis w)
   \<and> list_all (\<lambda>i. ww_outer_pis w ! i = ww_base_pis w ! i) [0..<base_num_public_inputs]"

definition prove_jwt_wrapper :: "verifier_data \<Rightarrow> nat \<Rightarrow> gf list \<Rightarrow> wrapper_wires res" where
  "prove_jwt_wrapper wrapper_vk base_num_public_inputs base_pis =
     ensure (base_num_public_inputs \<le> length base_pis) (Panic ''index out of bounds'')
       (Inr \<lparr>ww_outer_pis = map (\<lambda>i. base_pis ! i) [0..<base_num_public_inputs],
             ww_wrapper_digest_pis = circuit_digest wrapper_vk,
             ww_verifier_data = wrapper_vk,
             ww_base_pis = base_pis\<rparr>)"

lemma wrapper_forwards:
  assumes "wrapper_circuit verify_base base_vk cap_len n base_proof w"
  shows "take n (wrapper_pis w) = ww_base_pis w" "verify_base base_vk base_proof (take n (wrapper_pis w))"
proof -
  have "ww_outer_pis w = ww_base_pis w"
    using assms by (intro nth_equalityI) (auto simp: wrapper_circuit_def list_all_iff)
  then show "take n (wrapper_pis w) = ww_base_pis w"
    using assms by (simp add: wrapper_circuit_def wrapper_pis_def)
  then show "verify_base base_vk base_proof (take n (wrapper_pis w))"
    using assms by (simp add: wrapper_circuit_def)
qed

lemma prove_jwt_wrapper_satisfies:
  assumes "verifier_data_shape cap_len wrapper_vk" "length base_pis = n" "verify_base base_vk base_proof base_pis"
  obtains w where "prove_jwt_wrapper wrapper_vk n base_pis = Inr w"
    "wrapper_circuit verify_base base_vk cap_len n base_proof w"
    "wrapper_pis w = base_pis @ circuit_digest wrapper_vk @ verifier_data_elements wrapper_vk"
proof -
  have "map (\<lambda>i. base_pis ! i) [0..<n] = base_pis" using assms(2) map_nth by blast
  then have "wrapper_circuit verify_base base_vk cap_len n base_proof
      \<lparr>ww_outer_pis = base_pis, ww_wrapper_digest_pis = circuit_digest wrapper_vk,
       ww_verifier_data = wrapper_vk, ww_base_pis = base_pis\<rparr>"
    using assms by (simp add: wrapper_circuit_def list_all_iff verifier_data_shape_def)
  then show ?thesis
    using that assms(2) \<open>map (\<lambda>i. base_pis ! i) [0..<n] = base_pis\<close>
    by (simp add: prove_jwt_wrapper_def wrapper_pis_def)
qed

end
