(* ===== verification/Delegation_Chain.thy ===== *)
theory Delegation_Chain
  imports Present Wrapper
begin

text \<open>
  What a chain of delegation proofs promises.  A run (\<open>delegation_run\<close>) is a list of wires that
  satisfy the delegation circuit, each over the public inputs of the one below it, down to a base
  step.  The lemmas on runs are about the circuit alone: the numbers a run carries, the depths a
  prover reaches, and that descending from step to step ends.

  The specification of a run is a step relation on abstract credentials: a delegation hides
  attributes, raises the level by one, and may lower the depth cap.  A run refines it
  (\<open>run_delegates\<close>) unless the Merkle trees of the run itself contain a collision.

  The locale \<open>delegation_system\<close> names what the proof system contributes, knowledge soundness of
  the delegation circuit, and proves that every accepted proof ends a run.  It is interpreted by
  the proof system whose proofs are the witnesses themselves.
\<close>

subsection \<open>The abstract credential and its delegations\<close>

record credential =
  cr_issuer :: "gf list"
  cr_leaves :: "hash_out list"
  cr_level :: nat
  cr_max_level :: nat
  cr_type :: hash_out

inductive delegates :: "credential \<Rightarrow> credential \<Rightarrow> bool" where
  delegate: "delegates c (c\<lparr>cr_leaves := masked_leaves (cr_leaves c) bs, cr_level := cr_level c + 1, cr_max_level := cap\<rparr>)"
    if "length bs = length (cr_leaves c)" "cr_level c + 1 \<le> cap" "cap \<le> cr_max_level c" "cap \<le> LEVEL_UNBOUNDED"

inductive_cases delegatesE: "delegates c c'"
inductive_simps delegates_iff: "delegates c c'"

text \<open>\<open>attenuates c0 c\<close>: what a chain preserves and what it may change.\<close>

definition attenuates :: "credential \<Rightarrow> credential \<Rightarrow> bool" where
  "attenuates c0 c \<longleftrightarrow>
     cr_issuer c = cr_issuer c0 \<and> cr_type c = cr_type c0
   \<and> cr_level c0 < cr_level c \<and> cr_level c \<le> cr_max_level c
   \<and> cr_max_level c \<le> cr_max_level c0 \<and> cr_max_level c \<le> LEVEL_UNBOUNDED
   \<and> (\<exists>bs. length bs = length (cr_leaves c0) \<and> cr_leaves c = masked_leaves (cr_leaves c0) bs)"

lemma masked_twice:
  "length bs = length leaves \<Longrightarrow> length cs = length leaves \<Longrightarrow>
     masked_leaves (masked_leaves leaves bs) cs = masked_leaves leaves (map2 (\<and>) bs cs)"
  by (intro nth_equalityI) (auto simp: masked_leaves_def)

lemma delegates_attenuates: "delegates c c' \<Longrightarrow> attenuates c c'"
  by (auto simp: attenuates_def elim!: delegatesE)

lemma attenuates_trans:
  assumes "attenuates c0 c" "attenuates c c'"
  shows "attenuates c0 c'"
proof -
  obtain bs cs where bs: "length bs = length (cr_leaves c0)" "cr_leaves c = masked_leaves (cr_leaves c0) bs"
      "length cs = length (cr_leaves c)" "cr_leaves c' = masked_leaves (cr_leaves c) cs"
    using assms by (auto simp: attenuates_def)
  then have "cr_leaves c' = masked_leaves (cr_leaves c0) (map2 (\<and>) bs cs)"
    using masked_twice [of bs "cr_leaves c0" cs] by simp
  moreover have "length (map2 (\<and>) bs cs) = length (cr_leaves c0)" using bs by simp
  ultimately show ?thesis using assms unfolding attenuates_def by (metis le_trans less_trans)
qed

lemma chain_attenuates: "delegates\<^sup>+\<^sup>+ c c' \<Longrightarrow> attenuates c c'"
  by (induction rule: tranclp_induct) (auto intro: delegates_attenuates attenuates_trans)

text \<open>A chain has exactly as many steps as the level grew.\<close>

lemma chain_length: "(delegates ^^ n) c c' \<Longrightarrow> cr_level c' = cr_level c + n"
  by (induction n arbitrary: c') (auto elim!: delegatesE)

lemma chain_bounded: "(delegates ^^ n) c c' \<Longrightarrow> 0 < n \<Longrightarrow> cr_level c + n \<le> LEVEL_UNBOUNDED"
  by (cases n) (auto dest: chain_length elim!: delegatesE)

subsection \<open>Credentials behind public inputs\<close>

definition represents ::
    "(gf list \<Rightarrow> gf list) \<Rightarrow> base_public_input_layout \<Rightarrow> hash_out \<Rightarrow> gf list \<Rightarrow> credential \<Rightarrow> bool" where
  "represents perm l digest pis c \<longleftrightarrow>
     cr_issuer c = pi_issuer_pk l pis
   \<and> length (cr_leaves c) = num_max_attributes l
   \<and> list_all (\<lambda>leaf. length leaf = NUM_HASH_OUT_ELTS) (cr_leaves c)
   \<and> merkle_root_from_leaves perm (cr_leaves c) = Inr (pi_com l pis)
   \<and> cr_level c = canon (pis ! level_pi_idx l)
   \<and> cr_max_level c = canon (pis ! max_level_pi_idx l)
   \<and> cr_type c = digest"

lemma delegation_pis_slices:
  assumes l: "delegation_layout l" and s: "delegation_shape cap_len l w"
    and iss: "issuer_pk_pi_start l + issuer_pk_pi_len l \<le> com_pi_start l"
  shows "i < base_pi_count l \<Longrightarrow> delegation_pis w ! i = dw_outer_pis w ! i"
    "pi_com l (delegation_pis w) = pi_com l (dw_outer_pis w)"
    "pi_issuer_pk l (delegation_pis w) = pi_issuer_pk l (dw_outer_pis w)"
    "pi_digest l (delegation_pis w) = dw_wrapper_digest_pis w"
    "verifier_data_from_slice cap_len (delegation_pis w) = Inr (dw_verifier_data w)"
    "length (delegation_pis w) = cyclic_num_public_inputs cap_len l"
proof -
  have len: "length (dw_outer_pis w) = base_pi_count l" "length (dw_wrapper_digest_pis w) = NUM_HASH_OUT_ELTS"
      "verifier_data_shape cap_len (dw_verifier_data w)"
    using s by (simp_all add: delegation_shape_def)
  have com: "com_pi_start l + com_pi_len l \<le> base_pi_count l" using l by (simp add: delegation_layout_def base_pi_count_def)
  show "i < base_pi_count l \<Longrightarrow> delegation_pis w ! i = dw_outer_pis w ! i"
    using len by (simp add: delegation_pis_def nth_append)
  show "pi_com l (delegation_pis w) = pi_com l (dw_outer_pis w)"
    using len com by (simp add: pi_com_def delegation_pis_def)
  show "pi_issuer_pk l (delegation_pis w) = pi_issuer_pk l (dw_outer_pis w)"
    using len com iss by (simp add: pi_issuer_pk_def delegation_pis_def)
  show "pi_digest l (delegation_pis w) = dw_wrapper_digest_pis w"
    using len by (simp add: pi_digest_def delegation_pis_def)
  show "verifier_data_from_slice cap_len (delegation_pis w) = Inr (dw_verifier_data w)"
    using from_slice_elements [OF len(3), of "dw_outer_pis w @ dw_wrapper_digest_pis w"]
    by (simp add: delegation_pis_def)
  show "length (delegation_pis w) = cyclic_num_public_inputs cap_len l"
    using len length_verifier_data_elements by (simp add: delegation_pis_def cyclic_num_public_inputs_def)
qed

lemma pi_slice_cong:
  assumes "s + n \<le> length xs" "s + n \<le> length ys" "\<And>i. s \<le> i \<Longrightarrow> i < s + n \<Longrightarrow> xs ! i = ys ! i"
  shows "take n (drop s xs) = take n (drop s ys)"
  using assms by (intro nth_equalityI) auto

text \<open>The field arithmetic of the level checks, read as numbers.\<close>

lemma canon_small: "x = of_nat n \<Longrightarrow> n < 1024 \<Longrightarrow> canon x = n"
  by simp

lemma levels_as_numbers:
  assumes "step_levels l w" "canon (parent_pis l w ! level_pi_idx l) \<le> LEVEL_UNBOUNDED"
  shows "canon (dw_outer_pis w ! level_pi_idx l) = canon (parent_pis l w ! level_pi_idx l) + 1"
    "canon (dw_outer_pis w ! level_pi_idx l) \<le> canon (dw_outer_pis w ! max_level_pi_idx l)"
    "canon (dw_outer_pis w ! max_level_pi_idx l) \<le> canon (parent_pis l w ! max_level_pi_idx l)"
    "canon (dw_outer_pis w ! max_level_pi_idx l) \<le> LEVEL_UNBOUNDED"
proof -
  let ?lv = "dw_outer_pis w ! level_pi_idx l" and ?mx = "dw_outer_pis w ! max_level_pi_idx l"
  let ?plv = "parent_pis l w ! level_pi_idx l" and ?pmx = "parent_pis l w ! max_level_pi_idx l"
  have s: "?lv = ?plv + 1" "canon ?mx < 256" "canon (?mx - ?lv) < 256" "canon (?pmx - ?mx) < 256"
    using assms(1) unfolding step_levels_def Let_def by blast+
  have p: "canon ?plv \<le> 255" using assms(2) by (simp add: LEVEL_UNBOUNDED_def MAX_LEVEL_BITS_def)
  show lv: "canon ?lv = canon ?plv + 1" using p by (simp add: s(1) canon_add)
  have "canon (of_nat (canon ?mx) - of_nat (canon ?lv)) < 256" using s(3) by simp
  then show "canon ?lv \<le> canon ?mx" using s(2) p lv by (subst (asm) canon_diff_byte) simp_all
  show "canon ?mx \<le> LEVEL_UNBOUNDED" using s(2) by (simp add: LEVEL_UNBOUNDED_def MAX_LEVEL_BITS_def)
  let ?d = "canon (?pmx - ?mx)"
  have "?pmx = of_nat (canon ?mx + ?d)" by simp
  then have "canon ?pmx = canon ?mx + ?d" by (rule canon_small) (use s(2,4) in linarith)
  then show "canon ?mx \<le> canon ?pmx" by simp
qed

lemma step_headroom:
  assumes "step_levels l w"
  shows "canon (dw_outer_pis w ! max_level_pi_idx l - dw_outer_pis w ! level_pi_idx l) \<le> LEVEL_UNBOUNDED"
proof -
  have "canon (dw_outer_pis w ! max_level_pi_idx l - dw_outer_pis w ! level_pi_idx l) < 256"
    using assms unfolding step_levels_def Let_def by blast
  then show ?thesis by (simp add: LEVEL_UNBOUNDED_def MAX_LEVEL_BITS_def)
qed

text \<open>
  The headroom \<open>max_level - level\<close> grows by at least one towards the parent, whatever the level
  is; this is what bounds a chain, because the range checks of one step alone admit a level just
  below the field order.
\<close>

lemma headroom_grows:
  assumes "step_levels l w" "\<not> step_is_base l w"
    and "canon (dw_inner_pis w ! max_level_pi_idx l - dw_inner_pis w ! level_pi_idx l) \<le> LEVEL_UNBOUNDED"
  shows "canon (dw_outer_pis w ! max_level_pi_idx l - dw_outer_pis w ! level_pi_idx l)
    < canon (dw_inner_pis w ! max_level_pi_idx l - dw_inner_pis w ! level_pi_idx l)"
proof -
  let ?h = "canon (dw_outer_pis w ! max_level_pi_idx l - dw_outer_pis w ! level_pi_idx l)"
  let ?d = "canon (dw_inner_pis w ! max_level_pi_idx l - dw_outer_pis w ! max_level_pi_idx l)"
  have s: "dw_outer_pis w ! level_pi_idx l = dw_inner_pis w ! level_pi_idx l + 1" "?h < 256" "?d < 256"
    using assms(1) unfolding step_levels_def Let_def parent_pis_def if_not_P [OF assms(2)] by blast+
  have "dw_inner_pis w ! max_level_pi_idx l - dw_inner_pis w ! level_pi_idx l = of_nat (?d + ?h + 1)"
    using s(1) by (simp add: algebra_simps)
  then have "canon (dw_inner_pis w ! max_level_pi_idx l - dw_inner_pis w ! level_pi_idx l) = ?d + ?h + 1"
    by (rule canon_small) (use s(2,3) in linarith)
  then show ?thesis by simp
qed

subsection \<open>Runs of the circuit\<close>

text \<open>
  A run: the wires of the delegation circuits behind a proof, newest first, down to the base
  step.  Every circuit of the run is satisfied, and the public inputs a recursive step verifies
  are those of the circuit below it.
\<close>

inductive delegation_run ::
    "(gf list \<Rightarrow> gf list) \<Rightarrow> 'p verify \<Rightarrow> nat \<Rightarrow> base_public_input_layout \<Rightarrow> delegation_wires list \<Rightarrow> bool"
  for perm verify cap_len l where
  run_base: "delegation_run perm verify cap_len l [w]"
    if "delegation_circuit perm verify cap_len l ip wp w" "step_is_base l w"
| run_step: "delegation_run perm verify cap_len l (w # w' # ws)"
    if "delegation_run perm verify cap_len l (w' # ws)" "delegation_circuit perm verify cap_len l ip wp w"
      "\<not> step_is_base l w" "dw_inner_pis w = delegation_pis w'"

inductive_cases delegation_run_NilE: "delegation_run perm verify cap_len l []"

text \<open>The slots a step keeps, and the pairs of digests its two Merkle roots compress.\<close>

definition kept :: "delegation_wires \<Rightarrow> bool list" where
  "kept w = map (\<lambda>b. b = 1) (dw_attribute_mask w)"

definition step_inputs :: "(gf list \<Rightarrow> gf list) \<Rightarrow> delegation_wires \<Rightarrow> (hash_out \<times> hash_out) list" where
  "step_inputs perm w = compress_inputs perm (dw_attr_targets w) @ compress_inputs perm (masked_leaves (dw_attr_targets w) (kept w))"

definition run_inputs :: "(gf list \<Rightarrow> gf list) \<Rightarrow> delegation_wires list \<Rightarrow> (hash_out \<times> hash_out) list" where
  "run_inputs perm ws = concat (map (step_inputs perm) ws)"

lemma kept_bools: "dw_attribute_mask w = map of_bool bs \<Longrightarrow> kept w = bs"
  by (simp add: kept_def comp_def)

lemma circuit_shape: "delegation_circuit perm verify cap_len l ip wp w \<Longrightarrow> delegation_shape cap_len l w"
  by (simp add: delegation_circuit_def Let_def)

lemma base_parent_level: "step_levels l w \<Longrightarrow> step_is_base l w \<Longrightarrow> dw_wrapper_pis w ! level_pi_idx l = 0"
  unfolding step_levels_def Let_def step_is_base_def parent_pis_def by (metis add_cancel_left_left)

lemma run_targets:
  assumes "delegation_run perm verify cap_len l ws" "w \<in> set ws"
  shows "length (dw_attr_targets w) = num_max_attributes l" "length (kept w) = num_max_attributes l"
    "list_all (\<lambda>leaf. length leaf = NUM_HASH_OUT_ELTS) (dw_attr_targets w)"
  using assms by (induction rule: delegation_run.induct) (auto simp: kept_def dest!: circuit_shape simp: delegation_shape_def)

lemma run_inputs_one: "delegation_run perm verify cap_len l ws \<Longrightarrow> num_max_attributes l = 1 \<Longrightarrow> run_inputs perm ws = []"
  using run_targets(1,2) [of perm verify cap_len l ws]
  by (fastforce simp: run_inputs_def step_inputs_def compress_inputs_one masked_leaves_def)

text \<open>The credential behind the wrapper proof of a run.\<close>

definition run_origin :: "base_public_input_layout \<Rightarrow> delegation_wires list \<Rightarrow> credential" where
  "run_origin l ws =
     \<lparr>cr_issuer = pi_issuer_pk l (dw_wrapper_pis (last ws)), cr_leaves = dw_attr_targets (last ws), cr_level = 0,
      cr_max_level = canon (dw_wrapper_pis (last ws) ! max_level_pi_idx l), cr_type = circuit_digest (dw_wrapper_vk (last ws))\<rparr>"

subsection \<open>What a run guarantees\<close>

context sponge_permutation
begin

text \<open>What one circuit gives, without any assumption on hashing.\<close>

lemma circuit_facts:
  assumes l: "delegation_layout l" and iss: "issuer_pk_pi_start l + issuer_pk_pi_len l \<le> com_pi_start l"
    and circ: "delegation_circuit perm verify cap_len l ip wp w"
  shows "step_levels l w" "step_accepts_parent verify cap_len l ip wp w" "step_commitments perm l w (kept w)"
    "pi_issuer_pk l (delegation_pis w) = pi_issuer_pk l (parent_pis l w)"
    "pi_digest l (delegation_pis w) = (if step_is_base l w then circuit_digest (dw_wrapper_vk w) else pi_digest l (dw_inner_pis w))"
    "delegation_pis w ! level_pi_idx l = dw_outer_pis w ! level_pi_idx l"
    "delegation_pis w ! max_level_pi_idx l = dw_outer_pis w ! max_level_pi_idx l"
    "pi_com l (delegation_pis w) = pi_com l (dw_outer_pis w)"
proof -
  note shape = circuit_shape [OF circ]
  note facts = circ [unfolded delegation_circuit_iff [OF l shape]]
  note sl = delegation_pis_slices [OF l shape iss]
  show "step_levels l w" "step_accepts_parent verify cap_len l ip wp w" using facts by blast+
  obtain bs where bs: "step_commitments perm l w bs" using facts by blast
  then have "kept w = bs" by (intro kept_bools) (simp add: step_commitments_def)
  then show "step_commitments perm l w (kept w)" using bs by simp
  show "pi_digest l (delegation_pis w) = (if step_is_base l w then circuit_digest (dw_wrapper_vk w) else pi_digest l (dw_inner_pis w))"
    using facts sl(4) by simp
  show "delegation_pis w ! level_pi_idx l = dw_outer_pis w ! level_pi_idx l"
    "delegation_pis w ! max_level_pi_idx l = dw_outer_pis w ! max_level_pi_idx l"
    by (rule sl(1), use l in \<open>simp add: delegation_layout_def base_pi_count_def\<close>)+
  show "pi_com l (delegation_pis w) = pi_com l (dw_outer_pis w)" by (rule sl(2))
  show "pi_issuer_pk l (delegation_pis w) = pi_issuer_pk l (parent_pis l w)"
    unfolding sl(3) unfolding pi_issuer_pk_def
  proof (rule pi_slice_cong)
    have "com_pi_start l \<le> level_pi_idx l" "level_pi_idx l \<le> base_pi_count l"
      using l by (simp_all add: delegation_layout_def base_pi_count_def)
    then show "issuer_pk_pi_start l + issuer_pk_pi_len l \<le> length (dw_outer_pis w)"
        "issuer_pk_pi_start l + issuer_pk_pi_len l \<le> length (parent_pis l w)"
      using iss shape by (auto simp: delegation_shape_def parent_pis_def cyclic_num_public_inputs_def)
    fix i assume "i < issuer_pk_pi_start l + issuer_pk_pi_len l"
    then have "i < com_pi_start l" "i < level_pi_idx l" using iss \<open>com_pi_start l \<le> level_pi_idx l\<close> by simp_all
    then have "\<not> in_com l i" "i \<in> set [0..<level_pi_idx l]" by (simp_all add: in_com_def)
    then show "dw_outer_pis w ! i = parent_pis l w ! i" using facts unfolding list_all_iff by blast
  qed
qed

text \<open>
  What a run preserves: the issuer key and the wrapper digest, and the level counts its steps,
  under a cap that only falls.
\<close>

lemma run_numbers:
  assumes "delegation_run perm verify cap_len l ws" and l: "delegation_layout l"
    and iss: "issuer_pk_pi_start l + issuer_pk_pi_len l \<le> com_pi_start l"
  defines "pis \<equiv> delegation_pis (hd ws)" and "wpis \<equiv> dw_wrapper_pis (last ws)"
  shows "canon (pis ! level_pi_idx l) = length ws \<and> length ws \<le> canon (pis ! max_level_pi_idx l)
    \<and> canon (pis ! max_level_pi_idx l) \<le> canon (wpis ! max_level_pi_idx l) \<and> canon (pis ! max_level_pi_idx l) \<le> LEVEL_UNBOUNDED
    \<and> pi_issuer_pk l pis = pi_issuer_pk l wpis \<and> pi_digest l pis = circuit_digest (dw_wrapper_vk (last ws))
    \<and> wpis ! level_pi_idx l = 0"
  using assms(1) unfolding pis_def wpis_def
proof (induction rule: delegation_run.induct)
  case (run_base ip wp w)
  note f = circuit_facts [OF l iss run_base(1)]
  have p: "parent_pis l w = dw_wrapper_pis w" "dw_wrapper_pis w ! level_pi_idx l = 0"
    using run_base(2) base_parent_level [OF f(1)] by (simp_all add: parent_pis_def)
  show ?case
    using levels_as_numbers [OF f(1)] f(4-7) run_base(2) p by (simp add: LEVEL_UNBOUNDED_def)
next
  case (run_step w' ws ip wp w)
  note f = circuit_facts [OF l iss run_step(2)]
  have p: "parent_pis l w = delegation_pis w'" using run_step(3,4) by (simp add: parent_pis_def)
  have "canon (parent_pis l w ! level_pi_idx l) \<le> LEVEL_UNBOUNDED" using run_step.IH unfolding p by simp
  note n = levels_as_numbers [OF f(1) this]
  show ?case using n f(4-7) run_step(3,4) run_step.IH unfolding p by simp
qed

text \<open>The wrapper proof at the end of a run is accepted under the key its base step carries.\<close>

lemma run_wrapper:
  assumes "delegation_run perm verify cap_len l ws" "delegation_layout l" "issuer_pk_pi_start l + issuer_pk_pi_len l \<le> com_pi_start l"
  shows "(\<exists>wp. verify (dw_wrapper_vk (last ws)) wp (dw_wrapper_pis (last ws))) \<and> delegation_shape cap_len l (last ws)
    \<and> merkle_root_from_leaves perm (dw_attr_targets (last ws)) = Inr (pi_com l (dw_wrapper_pis (last ws)))"
  using assms(1)
proof (induction rule: delegation_run.induct)
  case (run_base ip wp w)
  then show ?case
    using circuit_facts(2,3) [OF assms(2,3) run_base(1)] circuit_shape [OF run_base(1)]
    by (auto simp: step_accepts_parent_def step_commitments_def parent_pis_def)
qed simp

text \<open>A run delegates a credential.\<close>

text \<open>One step over the leaves the circuit hashes: the parent's credential is delegated.\<close>

lemma step_delegates:
  assumes l: "delegation_layout l" and iss: "issuer_pk_pi_start l + issuer_pk_pi_len l \<le> com_pi_start l"
    and circ: "delegation_circuit perm verify cap_len l ip wp w"
    and rep: "represents perm l digest (parent_pis l w) c" and lev: "cr_level c \<le> LEVEL_UNBOUNDED"
    and leaves: "cr_leaves c = dw_attr_targets w"
  shows "\<exists>c'. delegates c c' \<and> represents perm l digest (delegation_pis w) c' \<and> cr_leaves c' = masked_leaves (dw_attr_targets w) (kept w)"
proof -
  note f = circuit_facts [OF l iss circ]
  have sh: "list_all (\<lambda>leaf. length leaf = NUM_HASH_OUT_ELTS) (dw_attr_targets w)"
      "length (dw_attr_targets w) = num_max_attributes l" "length (kept w) = num_max_attributes l"
    using circuit_shape [OF circ] by (simp_all add: delegation_shape_def kept_def)
  have "canon (parent_pis l w ! level_pi_idx l) \<le> LEVEL_UNBOUNDED" using rep lev by (simp add: represents_def)
  note num = levels_as_numbers [OF f(1) this]
  define c' where "c' = c\<lparr>cr_leaves := masked_leaves (cr_leaves c) (kept w), cr_level := cr_level c + 1,
      cr_max_level := canon (dw_outer_pis w ! max_level_pi_idx l)\<rparr>"
  have "delegates c c'"
    unfolding c'_def using rep num sh leaves by (intro delegate) (simp_all add: represents_def)
  moreover have "represents perm l digest (delegation_pis w) c'"
    using rep num sh leaves f(3-4,6-8) masked_leaves_shape [OF sh(1)]
    by (simp add: represents_def c'_def step_commitments_def)
  ultimately show ?thesis using leaves by (auto simp: c'_def)
qed

lemma run_delegates:
  assumes "delegation_run perm verify cap_len l ws" and l: "delegation_layout l"
    and iss: "issuer_pk_pi_start l + issuer_pk_pi_len l \<le> com_pi_start l"
  shows "collides (compress perm) (run_inputs perm ws) \<or>
    (\<exists>c. (delegates ^^ length ws) (run_origin l ws) c \<and> represents perm l (circuit_digest (dw_wrapper_vk (last ws))) (delegation_pis (hd ws)) c
       \<and> cr_leaves c = masked_leaves (dw_attr_targets (hd ws)) (kept (hd ws)))"
  using assms(1)
proof (induction rule: delegation_run.induct)
  case (run_base ip wp w)
  note f = circuit_facts [OF l iss run_base(1)]
  have par: "parent_pis l w = dw_wrapper_pis w" using run_base(2) by (simp add: parent_pis_def)
  have "represents perm l (circuit_digest (dw_wrapper_vk w)) (parent_pis l w) (run_origin l [w])"
    using circuit_shape [OF run_base(1)] f(3) base_parent_level [OF f(1) run_base(2)]
    by (simp add: represents_def par run_origin_def step_commitments_def delegation_shape_def)
  from step_delegates [OF l iss run_base(1) this] show ?case by (auto simp: run_origin_def)
next
  case (run_step w' ws ip wp w)
  let ?ws = "w' # ws" and ?d = "circuit_digest (dw_wrapper_vk (last (w' # ws)))"
  from run_step.IH consider "collides (compress perm) (run_inputs perm ?ws)"
    | c where "(delegates ^^ length ?ws) (run_origin l ?ws) c" "represents perm l ?d (delegation_pis w') c"
        "cr_leaves c = masked_leaves (dw_attr_targets w') (kept w')"
    by auto
  then show ?case
  proof cases
    case 1
    then have "collides (compress perm) (run_inputs perm (w # ?ws))"
      by (rule collides_mono) (simp add: run_inputs_def subset_iff)
    then show ?thesis by blast
  next
    case 2
    have par: "parent_pis l w = delegation_pis w'" using run_step(3,4) by (simp add: parent_pis_def)
    have com: "merkle_root_from_leaves perm (dw_attr_targets w) = Inr (pi_com l (delegation_pis w'))"
      using circuit_facts(3) [OF l iss run_step(2)] by (simp add: step_commitments_def par)
    have shape: "length (dw_attr_targets w) = num_max_attributes l" "list_all (\<lambda>leaf. length leaf = NUM_HASH_OUT_ELTS) (dw_attr_targets w)"
      using circuit_shape [OF run_step(2)] by (simp_all add: delegation_shape_def)
    have "cr_leaves c = dw_attr_targets w
        \<or> collides (compress perm) (compress_inputs perm (cr_leaves c) @ compress_inputs perm (dw_attr_targets w))"
      using 2(2) shape com by (intro root_inject [of "cr_leaves c" "pi_com l (delegation_pis w')"]) (simp_all add: represents_def)
    then show ?thesis
    proof
      assume "collides (compress perm) (compress_inputs perm (cr_leaves c) @ compress_inputs perm (dw_attr_targets w))"
      then have "collides (compress perm) (run_inputs perm (w # ?ws))"
        by (rule collides_mono) (auto simp: run_inputs_def step_inputs_def 2(3))
      then show ?thesis by blast
    next
      assume leaves: "cr_leaves c = dw_attr_targets w"
      have "cr_level c \<le> LEVEL_UNBOUNDED" using chain_length [OF 2(1)] chain_bounded [OF 2(1)] by (simp add: run_origin_def)
      from step_delegates [OF l iss run_step(2) 2(2) [folded par] this leaves] obtain c' where
        "delegates c c'" "represents perm l ?d (delegation_pis w) c'" "cr_leaves c' = masked_leaves (dw_attr_targets w) (kept w)"
        by blast
      moreover have "run_origin l (w # ?ws) = run_origin l ?ws" by (simp add: run_origin_def)
      ultimately show ?thesis using 2(1) by (auto intro!: exI [of _ c'] relcomppI)
    qed
  qed
qed

lemma run_origin_represents:
  assumes "delegation_run perm verify cap_len l ws" "delegation_layout l" "issuer_pk_pi_start l + issuer_pk_pi_len l \<le> com_pi_start l"
  shows "represents perm l (circuit_digest (dw_wrapper_vk (last ws))) (dw_wrapper_pis (last ws)) (run_origin l ws)"
  using run_wrapper [OF assms] run_numbers [OF assms] by (simp add: represents_def run_origin_def delegation_shape_def)

text \<open>
  A satisfied presentation circuit over the public inputs of a run discloses leaves the base step
  hashed; every other slot shows the zero leaf.
\<close>

lemma run_discloses:
  assumes run: "delegation_run perm verify cap_len l ws" "delegation_pis (hd ws) = pw_inner_pis w"
    and l: "delegation_layout l" and iss: "issuer_pk_pi_start l + issuer_pk_pi_len l \<le> com_pi_start l"
    and par: "presentation_params n del_vk l (base_pi_count l)"
    and circ: "presentation_circuit perm verify n del_vk l (base_pi_count l) inner_proof w"
  shows "collides (compress perm) (run_inputs perm ws @ compress_inputs perm (pw_leaf_digests w)) \<or>
    (\<exists>bs. length bs = num_max_attributes l \<and> pw_disclosed_pis w = concat (masked_leaves (dw_attr_targets (last ws)) bs))"
proof -
  have shape: "presentation_shape n l w" using circ by (simp add: presentation_circuit_def Let_def)
  obtain bs where p: "merkle_root_from_leaves perm (pw_leaf_digests w) = Inr (pi_com l (pw_inner_pis w))"
      "pw_reveal w = map of_bool bs" "pw_disclosed_pis w = concat (masked_leaves (pw_leaf_digests w) bs)"
    using circ unfolding presentation_circuit_iff [OF par shape] by blast
  have sh: "length (pw_leaf_digests w) = num_max_attributes l" "length bs = num_max_attributes l"
      "list_all (\<lambda>leaf. length leaf = NUM_HASH_OUT_ELTS) (pw_leaf_digests w)"
    using shape p(2) by (simp_all add: presentation_shape_def)
  from run_delegates [OF run(1) l iss] consider "collides (compress perm) (run_inputs perm ws)"
    | c where "(delegates ^^ length ws) (run_origin l ws) c" "represents perm l (circuit_digest (dw_wrapper_vk (last ws))) (pw_inner_pis w) c"
        "cr_leaves c = masked_leaves (dw_attr_targets (hd ws)) (kept (hd ws))"
    unfolding run(2) by blast
  then show ?thesis
  proof cases
    case 1
    then show ?thesis by (auto elim: collides_mono)
  next
    case 2
    have ne: "ws \<noteq> []" using run(1) by (auto elim: delegation_run_NilE)
    have "cr_leaves c = pw_leaf_digests w
        \<or> collides (compress perm) (compress_inputs perm (cr_leaves c) @ compress_inputs perm (pw_leaf_digests w))"
      using 2(2) sh p(1) by (intro root_inject [of "cr_leaves c" "pi_com l (pw_inner_pis w)"]) (simp_all add: represents_def)
    then show ?thesis
    proof
      assume "collides (compress perm) (compress_inputs perm (cr_leaves c) @ compress_inputs perm (pw_leaf_digests w))"
      then have "collides (compress perm) (run_inputs perm ws @ compress_inputs perm (pw_leaf_digests w))"
        using ne by (elim collides_mono) (cases ws, auto simp: run_inputs_def step_inputs_def 2(3))
      then show ?thesis by blast
    next
      assume leaves: "cr_leaves c = pw_leaf_digests w"
      have "attenuates (run_origin l ws) c"
        using 2(1) ne by (intro chain_attenuates) (auto simp: tranclp_power)
      then obtain cs where cs: "length cs = length (dw_attr_targets (last ws))" "cr_leaves c = masked_leaves (dw_attr_targets (last ws)) cs"
        by (auto simp: attenuates_def run_origin_def)
      have n0: "length (dw_attr_targets (last ws)) = num_max_attributes l" using run_targets(1) [OF run(1)] ne by simp
      have "pw_disclosed_pis w = concat (masked_leaves (dw_attr_targets (last ws)) (map2 (\<and>) cs bs))"
        using p(3) cs leaves masked_twice [of cs "dw_attr_targets (last ws)" bs] n0 sh(2) by simp
      moreover have "length (map2 (\<and>) cs bs) = num_max_attributes l" using cs n0 sh(2) by simp
      ultimately show ?thesis by blast
    qed
  qed
qed

end

subsection \<open>The prover reaches every depth\<close>

lemma step_attributes_all:
  assumes "pad_attributes attrs m = Inr padded" "uniform n padded" "length padded = m" "compute_merkle_root perm padded = Inr com"
  shows "step_attributes perm m attrs (replicate m True) = Inr (padded, replicate m True, com)"
proof -
  have "mask_attributes padded (replicate m True) = Inr padded"
    using assms(2,3) by (auto simp: mask_attributes_Inr_iff)
  moreover have "resize m False (replicate m True) = replicate m True" by (simp add: resize_def)
  ultimately show ?thesis using assms by (simp add: step_attributes_def)
qed

text \<open>A step that keeps every attribute and the cap it inherits leaves the commitment as it is.\<close>

definition carries :: "base_public_input_layout \<Rightarrow> verifier_data \<Rightarrow> gf list \<Rightarrow> delegation_wires \<Rightarrow> bool" where
  "carries l del_vk wpis w \<longleftrightarrow>
     dw_verifier_data w = del_vk \<and> pi_com l (dw_outer_pis w) = pi_com l wpis
   \<and> dw_outer_pis w ! max_level_pi_idx l = wpis ! max_level_pi_idx l"

context sponge_permutation
begin

lemma honest_base:
  assumes l: "delegation_layout l" and vk: "verifier_data_shape cap_len del_vk" "verifier_data_shape cap_len wrapper_vk"
    and len: "length wpis = cyclic_num_public_inputs cap_len l"
    and attrs: "uniform n attrs" "attrs \<noteq> []" "length attrs \<le> num_max_attributes l"
    and root: "bind_res (pad_attributes attrs (num_max_attributes l)) (compute_merkle_root perm) = Inr (pi_com l wpis)"
    and ver: "verify wrapper_vk wrapper_proof wpis"
    and lev: "wpis ! level_pi_idx l = 0" "parent_levels_ok l wpis" "1 \<le> canon (wpis ! max_level_pi_idx l)"
  obtains ip w where "delegation_circuit perm verify cap_len l ip wrapper_proof w" "step_is_base l w" "carries l del_vk wpis w"
    "dw_wrapper_pis w = wpis" "dw_wrapper_vk w = wrapper_vk"
proof -
  let ?m = "num_max_attributes l" and ?cap = "canon (wpis ! max_level_pi_idx l)"
  obtain w where w: "prove_delegation_base_with_cap perm l del_vk wrapper_vk wpis (build_delegation_dummy_pis cap_len l del_vk)
        attrs (replicate ?m True) ?cap = Inr w" "delegation_circuit perm verify cap_len l undefined wrapper_proof w"
    by (rule base_step_iff [where bitmap = "replicate (num_max_attributes l) True" and inner_proof = undefined and verify = verify
          and cap = "canon (wpis ! max_level_pi_idx l)",
          OF l vk len dummy_pis(1,2) [OF vk(1) l] attrs root ver lev(1,2) canon_less]) (use lev(3) in simp)
  have n2: "is_power_of_two ?m" using l by (simp add: delegation_layout_def)
  obtain padded where p: "pad_attributes attrs ?m = Inr padded" "uniform n padded" "length padded = ?m"
    by (rule step_attributes_Inr [OF attrs n2, of "[]"]) blast
  have r: "compute_merkle_root perm padded = Inr (pi_com l wpis)" using root p(1) by simp
  note st = step_attributes_all [OF p r]
  have outer: "dw_outer_pis w = next_step_pis l wpis ?cap (pi_com l wpis)" and d: "dw_verifier_data w = del_vk" "dw_wrapper_pis w = wpis" "dw_wrapper_vk w = wrapper_vk"
    using w(1) by (auto simp: prove_delegation_base_with_cap_def case_prod_unfold Let_def st)
  have "base_pi_count l \<le> length wpis" using len by (simp add: cyclic_num_public_inputs_def)
  note nx = next_step_pis [OF l this com_length [OF r], where cap = ?cap, folded outer]
  show ?thesis
    by (rule that [OF w(2) _ _ d(2,3)]) (simp_all add: step_is_base_def nx(2) lev(1) carries_def nx(3,4) d(1))
qed

lemma honest_step:
  assumes l: "delegation_layout l" and iss: "issuer_pk_pi_start l + issuer_pk_pi_len l \<le> com_pi_start l"
    and vk: "verifier_data_shape cap_len del_vk" "verifier_data_shape cap_len wrapper_vk"
    and attrs: "uniform n attrs" "attrs \<noteq> []" "length attrs \<le> num_max_attributes l"
    and root: "bind_res (pad_attributes attrs (num_max_attributes l)) (compute_merkle_root perm) = Inr (pi_com l wpis)"
    and circ: "delegation_circuit perm verify cap_len l ip' wp' w'" "carries l del_vk wpis w'"
    and ver: "verify del_vk prev_proof (delegation_pis w')"
    and lev: "canon (dw_outer_pis w' ! level_pi_idx l) = k" "0 < k" "k < canon (wpis ! max_level_pi_idx l)"
      "canon (wpis ! max_level_pi_idx l) \<le> LEVEL_UNBOUNDED"
  obtains wp w where "delegation_circuit perm verify cap_len l prev_proof wp w" "\<not> step_is_base l w" "carries l del_vk wpis w"
    "dw_inner_pis w = delegation_pis w'"
proof -
  let ?m = "num_max_attributes l" and ?cap = "canon (wpis ! max_level_pi_idx l)" and ?prev = "delegation_pis w'"
  note f = circuit_facts [OF l iss circ(1)]
  note sl = delegation_pis_slices [OF l circuit_shape [OF circ(1)] iss]
  have c: "dw_verifier_data w' = del_vk" "pi_com l ?prev = pi_com l wpis" "?prev ! max_level_pi_idx l = wpis ! max_level_pi_idx l"
    using circ(2) f(7,8) by (simp_all add: carries_def)
  have emb: "verifier_data_from_slice cap_len ?prev = Inr del_vk" using sl(5) c(1) by simp
  have lv: "canon (?prev ! level_pi_idx l) = k" using lev(1) f(6) by simp
  have nz: "?prev ! level_pi_idx l \<noteq> 0" using lv lev(2) by auto
  have ok: "parent_levels_ok l ?prev" using lv lev(3,4) c(3) by (simp add: parent_levels_ok_def)
  have rt: "bind_res (pad_attributes attrs ?m) (compute_merkle_root perm) = Inr (pi_com l ?prev)" using root c(2) by simp
  obtain w where w: "prove_delegation_step_with_cap perm l del_vk wrapper_vk (build_delegation_dummy_pis cap_len l del_vk) ?prev
        attrs (replicate ?m True) ?cap = Inr w" "delegation_circuit perm verify cap_len l prev_proof undefined w"
    by (rule recursive_step_iff [where bitmap = "replicate (num_max_attributes l) True" and wrapper_proof = undefined and verify = verify
          and cap = "canon (wpis ! max_level_pi_idx l)",
          OF l vk sl(6) dummy_pis(1) [OF vk(1) l] emb attrs rt ver nz ok canon_less]) (use lev c(3) lv in simp)
  have n2: "is_power_of_two ?m" using l by (simp add: delegation_layout_def)
  obtain padded where p: "pad_attributes attrs ?m = Inr padded" "uniform n padded" "length padded = ?m"
    by (rule step_attributes_Inr [OF attrs n2, of "[]"]) blast
  have r: "compute_merkle_root perm padded = Inr (pi_com l wpis)" using root p(1) by simp
  note st = step_attributes_all [OF p r]
  have outer: "dw_outer_pis w = next_step_pis l ?prev ?cap (pi_com l wpis)" and d: "dw_verifier_data w = del_vk" "dw_inner_pis w = ?prev"
    using w(1) by (auto simp: prove_delegation_step_with_cap_def case_prod_unfold Let_def st)
  have "base_pi_count l \<le> length ?prev" using sl(6) by (simp add: cyclic_num_public_inputs_def)
  note nx = next_step_pis [OF l this com_length [OF r], where cap = ?cap, folded outer]
  show ?thesis
    by (rule that [OF w(2) _ _ d(2)]) (simp_all add: step_is_base_def nx(2) nz carries_def nx(3,4) d(1))
qed

lemma honest_run:
  assumes l: "delegation_layout l" and iss: "issuer_pk_pi_start l + issuer_pk_pi_len l \<le> com_pi_start l"
    and vk: "verifier_data_shape cap_len del_vk" "verifier_data_shape cap_len wrapper_vk"
    and len: "length wpis = cyclic_num_public_inputs cap_len l"
    and attrs: "uniform n attrs" "attrs \<noteq> []" "length attrs \<le> num_max_attributes l"
    and root: "bind_res (pad_attributes attrs (num_max_attributes l)) (compute_merkle_root perm) = Inr (pi_com l wpis)"
    and ver: "verify wrapper_vk wrapper_proof wpis"
    and lev: "wpis ! level_pi_idx l = 0" "parent_levels_ok l wpis"
    and complete: "\<And>ip wp w. delegation_circuit perm verify cap_len l ip wp w \<Longrightarrow> dw_verifier_data w = del_vk \<Longrightarrow> \<exists>p. verify del_vk p (delegation_pis w)"
  shows "Suc k \<le> canon (wpis ! max_level_pi_idx l) \<Longrightarrow>
    \<exists>ws. delegation_run perm verify cap_len l ws \<and> length ws = Suc k \<and> dw_wrapper_pis (last ws) = wpis \<and> dw_wrapper_vk (last ws) = wrapper_vk
      \<and> carries l del_vk wpis (hd ws)"
proof (induction k)
  case 0
  have "1 \<le> canon (wpis ! max_level_pi_idx l)" using 0 by simp
  from honest_base [where verify = verify, OF l vk len attrs root ver lev this] obtain ip w where
    "delegation_circuit perm verify cap_len l ip wrapper_proof w" "step_is_base l w" "carries l del_vk wpis w"
    "dw_wrapper_pis w = wpis" "dw_wrapper_vk w = wrapper_vk"
    by blast
  then show ?case by (intro exI [of _ "[w]"]) (auto intro: run_base)
next
  case (Suc k)
  then obtain ws where ws: "delegation_run perm verify cap_len l ws" "length ws = Suc k" "dw_wrapper_pis (last ws) = wpis"
      "dw_wrapper_vk (last ws) = wrapper_vk" "carries l del_vk wpis (hd ws)"
    by auto
  then obtain w' rest where r: "ws = w' # rest" by (cases ws) auto
  obtain ip wp where circ: "delegation_circuit perm verify cap_len l ip wp w'"
    using ws(1) unfolding r by (auto elim: delegation_run.cases)
  note f = circuit_facts [OF l iss circ]
  have car: "carries l del_vk wpis w'" using ws(5) r by simp
  then obtain p where p: "verify del_vk p (delegation_pis w')" using complete [OF circ] by (auto simp: carries_def)
  have lv: "canon (dw_outer_pis w' ! level_pi_idx l) = Suc k"
    using run_numbers [OF ws(1) l iss] f(6) ws(2) r by simp
  have "canon (wpis ! max_level_pi_idx l) \<le> LEVEL_UNBOUNDED" using lev(2) by (simp add: parent_levels_ok_def)
  from honest_step [where verify = verify, OF l iss vk attrs root circ car p lv _ _ this] Suc.prems obtain wp' w where
    w: "delegation_circuit perm verify cap_len l p wp' w" "\<not> step_is_base l w" "carries l del_vk wpis w" "dw_inner_pis w = delegation_pis w'"
    by auto
  have "delegation_run perm verify cap_len l (w # w' # rest)" using run_step [OF ws(1) [unfolded r] w(1,2,4)] .
  then show ?case using ws(2-4) w(3) r by (intro exI [of _ "w # w' # rest"]) simp
qed

text \<open>The depths that are reached are exactly those up to the cap of the wrapper proof.\<close>

lemma run_depths:
  assumes "delegation_layout l" "issuer_pk_pi_start l + issuer_pk_pi_len l \<le> com_pi_start l"
    "verifier_data_shape cap_len del_vk" "verifier_data_shape cap_len wrapper_vk"
    "length wpis = cyclic_num_public_inputs cap_len l"
    "uniform n attrs" "attrs \<noteq> []" "length attrs \<le> num_max_attributes l"
    "bind_res (pad_attributes attrs (num_max_attributes l)) (compute_merkle_root perm) = Inr (pi_com l wpis)"
    "verify wrapper_vk wrapper_proof wpis" "wpis ! level_pi_idx l = 0" "parent_levels_ok l wpis"
    "\<And>ip wp w. delegation_circuit perm verify cap_len l ip wp w \<Longrightarrow> dw_verifier_data w = del_vk \<Longrightarrow> \<exists>p. verify del_vk p (delegation_pis w)"
  shows "(\<exists>ws. delegation_run perm verify cap_len l ws \<and> length ws = depth \<and> dw_wrapper_pis (last ws) = wpis)
    \<longleftrightarrow> 1 \<le> depth \<and> depth \<le> canon (wpis ! max_level_pi_idx l)"
proof
  assume "\<exists>ws. delegation_run perm verify cap_len l ws \<and> length ws = depth \<and> dw_wrapper_pis (last ws) = wpis"
  then obtain ws where ws: "delegation_run perm verify cap_len l ws" "length ws = depth" "dw_wrapper_pis (last ws) = wpis" by blast
  then have "ws \<noteq> []" by (auto elim: delegation_run_NilE)
  then have "1 \<le> depth" using ws(2) by (cases ws) auto
  then show "1 \<le> depth \<and> depth \<le> canon (wpis ! max_level_pi_idx l)" using run_numbers [OF ws(1) assms(1,2)] ws(2,3) by simp
next
  assume d: "1 \<le> depth \<and> depth \<le> canon (wpis ! max_level_pi_idx l)"
  then have "Suc (depth - 1) \<le> canon (wpis ! max_level_pi_idx l)" by simp
  then have "\<exists>ws. delegation_run perm verify cap_len l ws \<and> length ws = Suc (depth - 1) \<and> dw_wrapper_pis (last ws) = wpis
      \<and> dw_wrapper_vk (last ws) = wrapper_vk \<and> carries l del_vk wpis (hd ws)"
    by (rule honest_run [where verify = verify and wrapper_proof = wrapper_proof, OF assms(1-12), rotated]) (rule assms(13))
  then show "\<exists>ws. delegation_run perm verify cap_len l ws \<and> length ws = depth \<and> dw_wrapper_pis (last ws) = wpis"
    using d by auto
qed

end

subsection \<open>Descending through the proofs ends\<close>

text \<open>
  From the public inputs of a recursive step to those it verifies, along any satisfied circuits,
  whether or not a base step is ever reached.  The headroom \<open>max_level - level\<close> bounds how often.
\<close>

definition descends ::
    "(gf list \<Rightarrow> gf list) \<Rightarrow> 'p verify \<Rightarrow> nat \<Rightarrow> base_public_input_layout \<Rightarrow> gf list \<Rightarrow> gf list \<Rightarrow> bool" where
  "descends perm verify cap_len l inner outer \<longleftrightarrow>
     (\<exists>ip wp w. delegation_circuit perm verify cap_len l ip wp w \<and> \<not> step_is_base l w
        \<and> inner = dw_inner_pis w \<and> outer = delegation_pis w)"

definition headroom :: "base_public_input_layout \<Rightarrow> gf list \<Rightarrow> nat" where
  "headroom l pis = canon (pis ! max_level_pi_idx l - pis ! level_pi_idx l)"

context sponge_permutation
begin

lemma descends_headroom:
  assumes l: "delegation_layout l" and iss: "issuer_pk_pi_start l + issuer_pk_pi_len l \<le> com_pi_start l"
    and d: "descends perm verify cap_len l inner outer"
  shows "256 - headroom l inner < 256 - headroom l outer"
proof -
  obtain ip wp w where w: "delegation_circuit perm verify cap_len l ip wp w" "\<not> step_is_base l w" "inner = dw_inner_pis w" "outer = delegation_pis w"
    using d by (auto simp: descends_def)
  note f = circuit_facts [OF l iss w(1)]
  have o: "headroom l outer \<le> 255"
    unfolding headroom_def w(4) f(6,7) using step_headroom [OF f(1)] by (simp add: LEVEL_UNBOUNDED_def MAX_LEVEL_BITS_def)
  have "headroom l outer < headroom l inner" if "headroom l inner \<le> 255"
    using that unfolding headroom_def w(3,4) f(6,7)
    by (intro headroom_grows [OF f(1) w(2)]) (simp add: LEVEL_UNBOUNDED_def MAX_LEVEL_BITS_def)
  then show ?thesis using o by (cases "headroom l inner \<le> 255") auto
qed

lemma descends_steps:
  assumes "delegation_layout l" "issuer_pk_pi_start l + issuer_pk_pi_len l \<le> com_pi_start l"
  shows "(descends perm verify cap_len l ^^ n) inner outer \<Longrightarrow> n + (256 - headroom l inner) \<le> 256 - headroom l outer"
proof (induction n arbitrary: outer)
  case (Suc n)
  then obtain mid where "(descends perm verify cap_len l ^^ n) inner mid" "descends perm verify cap_len l mid outer" by auto
  then show ?case using Suc.IH descends_headroom [OF assms, of verify cap_len mid outer] by fastforce
qed simp

end

subsection \<open>Knowledge soundness gives the run\<close>

locale delegation_system = sponge_permutation perm
  for perm :: "gf list \<Rightarrow> gf list" +
  fixes verify :: "'p verify"
    and cap_len :: nat
    and l :: base_public_input_layout
    and del_vk :: verifier_data
  assumes layout: "delegation_layout l"
    and issuer_before_com: "issuer_pk_pi_start l + issuer_pk_pi_len l \<le> com_pi_start l"
    and knowledge_sound:
      "verify del_vk proof pis \<Longrightarrow> \<exists>ip wp w. delegation_circuit perm verify cap_len l ip wp w \<and> pis = delegation_pis w"
begin

text \<open>
  Every accepted delegation proof that embeds the delegation key ends a run of the circuit.
\<close>

lemma accepted_run:
  assumes "verify del_vk proof pis" "verifier_data_from_slice cap_len pis = Inr del_vk"
  shows "\<exists>ws. delegation_run perm verify cap_len l ws \<and> delegation_pis (hd ws) = pis"
  using assms
proof (induction "LEVEL_UNBOUNDED - headroom l pis" arbitrary: "proof" pis rule: less_induct)
  case less
  obtain ip wp w where circ: "delegation_circuit perm verify cap_len l ip wp w" and pis: "pis = delegation_pis w"
    using knowledge_sound [OF less.prems(1)] by blast
  note f = circuit_facts [OF layout issuer_before_com circ]
  show ?case
  proof (cases "step_is_base l w")
    case True
    then show ?thesis using run_base [OF circ] pis by (intro exI [of _ "[w]"]) simp
  next
    case False
    have vd: "dw_verifier_data w = del_vk"
      using less.prems(2) delegation_pis_slices(5) [OF layout circuit_shape [OF circ] issuer_before_com] pis by simp
    then have ver: "verify del_vk ip (dw_inner_pis w)" and emb: "verifier_data_from_slice cap_len (dw_inner_pis w) = Inr del_vk"
      using f(2) False by (simp_all add: step_accepts_parent_def)
    obtain ip' wp' w' where circ': "delegation_circuit perm verify cap_len l ip' wp' w'" and inner: "dw_inner_pis w = delegation_pis w'"
      using knowledge_sound [OF ver] by blast
    note f' = circuit_facts [OF layout issuer_before_com circ']
    have room: "headroom l (dw_inner_pis w) \<le> LEVEL_UNBOUNDED"
      unfolding inner headroom_def f'(6,7) by (rule step_headroom [OF f'(1)])
    then have "headroom l pis < headroom l (dw_inner_pis w)"
      unfolding headroom_def pis f(6,7) by (rule headroom_grows [OF f(1) False])
    then have "LEVEL_UNBOUNDED - headroom l (dw_inner_pis w) < LEVEL_UNBOUNDED - headroom l pis" using room by linarith
    from less.hyps [OF this ver emb] obtain ws where "delegation_run perm verify cap_len l ws" "delegation_pis (hd ws) = dw_inner_pis w"
      by blast
    moreover have "ws \<noteq> []" using calculation(1) by (auto elim: delegation_run_NilE)
    ultimately show ?thesis
      using run_step [OF _ circ False, of "hd ws" "tl ws"] pis by (intro exI [of _ "w # ws"]) (simp add: list.collapse)
  qed
qed

end

end
