(* ===== verification/Ideal_Proofs.thy ===== *)
theory Ideal_Proofs
  imports Delegation_Chain
begin

text \<open>
  A proof system whose proofs are the witnesses: a delegation proof carries its wires and the two
  proofs it verifies, and every other proof is a leaf that a given predicate accepts.  It is
  knowledge sound by construction, which interprets \<open>delegation_system\<close> with Poseidon and the
  layout of the base circuit.
\<close>

datatype tproof = Leaf_Proof | Delegation_Proof delegation_wires tproof tproof

primrec transparent ::
    "(gf list \<Rightarrow> gf list) \<Rightarrow> nat \<Rightarrow> base_public_input_layout \<Rightarrow> verifier_data \<Rightarrow> (verifier_data \<Rightarrow> gf list \<Rightarrow> bool)
      \<Rightarrow> tproof \<Rightarrow> verifier_data \<Rightarrow> gf list \<Rightarrow> bool" where
  "transparent perm cap_len l del_vk leaf Leaf_Proof = (\<lambda>vk pis. vk \<noteq> del_vk \<and> leaf vk pis)"
| "transparent perm cap_len l del_vk leaf (Delegation_Proof w ip wp) =
     (\<lambda>vk pis. vk = del_vk \<and> pis = delegation_pis w
        \<and> delegation_circuit perm
            (\<lambda>vk' p pis'. if p = ip then transparent perm cap_len l del_vk leaf ip vk' pis'
                          else transparent perm cap_len l del_vk leaf wp vk' pis')
            cap_len l ip wp w)"

definition ideal_verify ::
    "(gf list \<Rightarrow> gf list) \<Rightarrow> nat \<Rightarrow> base_public_input_layout \<Rightarrow> verifier_data \<Rightarrow> (verifier_data \<Rightarrow> gf list \<Rightarrow> bool) \<Rightarrow> tproof verify" where
  "ideal_verify perm cap_len l del_vk leaf vk p pis = transparent perm cap_len l del_vk leaf p vk pis"

lemma delegation_circuit_cong:
  assumes "\<And>vk pis. verify vk ip pis = verify' vk ip pis" "\<And>vk pis. verify vk wp pis = verify' vk wp pis"
  shows "delegation_circuit perm verify cap_len l ip wp w = delegation_circuit perm verify' cap_len l ip wp w"
proof -
  have "conditionally_verify_cyclic_proof verify n vd b (ip, x) (wp, y) vd' = conditionally_verify_cyclic_proof verify' n vd b (ip, x) (wp, y) vd'"
    for n vd b x y vd'
    by (simp add: conditionally_verify_cyclic_proof_def conditionally_verify_proof_def assms split: sum.splits)
  then show ?thesis unfolding delegation_circuit_def Let_def by simp
qed

lemma ideal_verify_delegation:
  "ideal_verify perm cap_len l del_vk leaf vk (Delegation_Proof w ip wp) pis \<longleftrightarrow>
     vk = del_vk \<and> pis = delegation_pis w \<and> delegation_circuit perm (ideal_verify perm cap_len l del_vk leaf) cap_len l ip wp w"
proof -
  have "delegation_circuit perm
            (\<lambda>vk' p pis'. if p = ip then transparent perm cap_len l del_vk leaf ip vk' pis'
                          else transparent perm cap_len l del_vk leaf wp vk' pis') cap_len l ip wp w
      = delegation_circuit perm (ideal_verify perm cap_len l del_vk leaf) cap_len l ip wp w"
    by (rule delegation_circuit_cong) (simp_all add: ideal_verify_def)
  then show ?thesis by (simp add: ideal_verify_def)
qed

lemma ideal_knowledge_sound:
  assumes "ideal_verify perm cap_len l del_vk leaf del_vk p pis"
  shows "\<exists>ip wp w. delegation_circuit perm (ideal_verify perm cap_len l del_vk leaf) cap_len l ip wp w \<and> pis = delegation_pis w"
  using assms
  by (cases p) (auto simp: ideal_verify_def [of _ _ _ _ _ _ Leaf_Proof] ideal_verify_delegation)

text \<open>The layout every JWT base circuit exposes (\<open>JWTBaseTargets::base_layout\<close>).\<close>

definition jwt_base_layout :: "nat \<Rightarrow> nat \<Rightarrow> nat \<Rightarrow> base_public_input_layout" where
  "jwt_base_layout n n_max width =
     \<lparr>issuer_pk_pi_start = 0, issuer_pk_pi_len = 16, com_pi_start = 16, com_pi_len = 4,
      level_pi_idx = 20, max_level_pi_idx = 21, num_attributes = n, num_max_attributes = n_max,
      attribute_u32_limbs = width div 4, attribute_len_bytes = width\<rparr>"

lemma jwt_layout_ok: "delegation_layout (jwt_base_layout n (2 ^ k) b)"
  by (auto simp: delegation_layout_def jwt_base_layout_def NUM_HASH_OUT_ELTS_def is_power_of_two_iff)

interpretation ideal: delegation_system poseidon "ideal_verify poseidon cap_len (jwt_base_layout n (2 ^ k) b) del_vk leaf"
    cap_len "jwt_base_layout n (2 ^ k) b" del_vk
  for cap_len n k b del_vk leaf
proof unfold_locales
  show "delegation_layout (jwt_base_layout n (2 ^ k) b)" by (rule jwt_layout_ok)
  show "issuer_pk_pi_start (jwt_base_layout n (2 ^ k) b) + issuer_pk_pi_len (jwt_base_layout n (2 ^ k) b)
      \<le> com_pi_start (jwt_base_layout n (2 ^ k) b)"
    by (simp add: jwt_base_layout_def)
qed (rule ideal_knowledge_sound)

text \<open>Any other proof system enters the same way.\<close>

lemma delegation_systemI:
  assumes "delegation_layout l" "issuer_pk_pi_start l + issuer_pk_pi_len l \<le> com_pi_start l"
    "\<And>p pis. verify del_vk p pis \<Longrightarrow>
       \<exists>ip wp w. delegation_circuit poseidon verify cap_len l ip wp w \<and> pis = delegation_pis w"
  shows "delegation_system poseidon verify cap_len l del_vk"
  using assms poseidon_sponge.sponge_permutation_axioms by (simp add: delegation_system_def delegation_system_axioms_def)

end
