(* ===== verification/Pipeline_Properties.thy ===== *)
theory Pipeline_Properties
  imports Ideal_Proofs Hash_Properties
begin

text \<open>
  The properties of the delegation and presentation stages, with Poseidon as the permutation, and
  the concrete values their witnesses run on: a credential with one attribute, its wrapper proof,
  and the proof system of \<open>Ideal_Proofs\<close>.
\<close>

subsection \<open>Concrete values\<close>

definition sample_layout :: base_public_input_layout where
  "sample_layout = jwt_base_layout 1 1 4"

definition sample_del_vk :: verifier_data where
  "sample_del_vk = \<lparr>circuit_digest = [1, 0, 0, 0], constants_sigmas_cap = []\<rparr>"

definition sample_wrapper_vk :: verifier_data where
  "sample_wrapper_vk = \<lparr>circuit_digest = [2, 0, 0, 0], constants_sigmas_cap = []\<rparr>"

definition sample_wrapper_pis :: "gf list" where
  "sample_wrapper_pis = replicate 16 5 @ [7, 0, 0, 0] @ [0, 255] @ [2, 0, 0, 0] @ [2, 0, 0, 0]"

abbreviation sample_verify :: "tproof verify" where
  "sample_verify \<equiv> ideal_verify poseidon 0 sample_layout sample_del_vk (\<lambda>vk pis. vk = sample_wrapper_vk \<and> pis = sample_wrapper_pis)"

lemma sample_layout_ok: "delegation_layout sample_layout"
  using jwt_layout_ok [of 1 0 4] by (simp add: sample_layout_def)

lemma sample_nonempty: "[sample_attribute] \<noteq> []" "length [sample_attribute] \<le> num_max_attributes sample_layout"
  by (simp_all add: sample_layout_def jwt_base_layout_def)

lemma sample_root: "compute_merkle_root poseidon [sample_attribute] = Inr [7, 0, 0, 0]"
  using poseidon_sponge.compute_merkle_root_Inr [OF sample_uniform, of 0] by (simp add: sample_leaf)

lemma sample_padded: "pad_attributes [sample_attribute] (num_max_attributes sample_layout) = Inr [sample_attribute]"
  using pad_attributes_Inr [OF sample_uniform, of 0] by (simp add: sample_layout_def jwt_base_layout_def)

lemma sample_lists:
  "length sample_wrapper_pis = cyclic_num_public_inputs 0 sample_layout"
  "length (build_delegation_dummy_pis 0 sample_layout sample_del_vk) = cyclic_num_public_inputs 0 sample_layout"
  "verifier_data_shape 0 sample_del_vk" "verifier_data_shape 0 sample_wrapper_vk"
  "verifier_data_from_slice 0 (build_delegation_dummy_pis 0 sample_layout sample_del_vk) = Inr sample_del_vk"
  "sample_wrapper_pis ! level_pi_idx sample_layout = 0" "sample_wrapper_pis ! max_level_pi_idx sample_layout = 255"
  "pi_com sample_layout sample_wrapper_pis = [7, 0, 0, 0]"
proof -
  show vk: "verifier_data_shape 0 sample_del_vk" "verifier_data_shape 0 sample_wrapper_vk"
    by (simp_all add: verifier_data_shape_def sample_del_vk_def sample_wrapper_vk_def NUM_HASH_OUT_ELTS_def)
  show "length (build_delegation_dummy_pis 0 sample_layout sample_del_vk) = cyclic_num_public_inputs 0 sample_layout"
    "verifier_data_from_slice 0 (build_delegation_dummy_pis 0 sample_layout sample_del_vk) = Inr sample_del_vk"
    by (rule dummy_pis [OF vk(1) sample_layout_ok])+
  note defs = sample_wrapper_pis_def sample_layout_def jwt_base_layout_def
  show "length sample_wrapper_pis = cyclic_num_public_inputs 0 sample_layout"
    by (simp add: defs cyclic_num_public_inputs_def base_pi_count_def NUM_HASH_OUT_ELTS_def)
  show "sample_wrapper_pis ! level_pi_idx sample_layout = 0" "sample_wrapper_pis ! max_level_pi_idx sample_layout = 255"
    by (simp_all add: defs nth_append)
  show "pi_com sample_layout sample_wrapper_pis = [7, 0, 0, 0]"
    by (simp add: defs pi_com_def)
qed

lemma sample_accepted: "sample_verify sample_wrapper_vk Leaf_Proof sample_wrapper_pis"
  by (simp add: ideal_verify_def sample_wrapper_vk_def sample_del_vk_def)

lemma sample_commits:
  "bind_res (pad_attributes [sample_attribute] (num_max_attributes sample_layout)) (compute_merkle_root poseidon)
     = Inr (pi_com sample_layout sample_wrapper_pis)"
  by (simp add: sample_padded sample_root sample_lists)

lemma sample_levels: "parent_levels_ok sample_layout sample_wrapper_pis"
  by (simp add: parent_levels_ok_def sample_lists LEVEL_UNBOUNDED_def MAX_LEVEL_BITS_def)

subsection \<open>The base step and the recursive step\<close>

text \<open>C11: at the base step, over an accepted wrapper proof of level 0 that commits to the attributes,
  the prover returns a witness for every depth cap, and the circuit accepts it exactly when
  \<open>1 \<le> cap \<le> maxLevel\<close>; the range checks alone enforce what \<open>resolve_depth_cap\<close> guards.\<close>

theorem delegation_base_step:
  assumes "delegation_layout l" "verifier_data_shape cap_len del_vk" "verifier_data_shape cap_len wrapper_vk"
    "length w_pis = cyclic_num_public_inputs cap_len l"
    "uniform n attrs" "attrs \<noteq> []" "length attrs \<le> num_max_attributes l"
    "bind_res (pad_attributes attrs (num_max_attributes l)) (compute_merkle_root poseidon) = Inr (pi_com l w_pis)"
    "verify wrapper_vk wrapper_proof w_pis"
    "w_pis ! level_pi_idx l = 0" "parent_levels_ok l w_pis" "cap < goldilocks_order"
  shows "\<exists>w. prove_delegation_base_with_cap poseidon l del_vk wrapper_vk w_pis
        (build_delegation_dummy_pis cap_len l del_vk) attrs bitmap cap = Inr w
    \<and> (delegation_circuit poseidon verify cap_len l dummy_proof wrapper_proof w
        \<longleftrightarrow> 1 \<le> cap \<and> cap \<le> canon (w_pis ! max_level_pi_idx l))"
  by (rule poseidon_sponge.base_step_iff [where inner_proof = dummy_proof and verify = verify and wrapper_vk = wrapper_vk
        and wrapper_proof = wrapper_proof and wrapper_pis = w_pis, OF assms(1-4) dummy_pis(1,2) [OF assms(2,1)] assms(5-12)]) blast

theorem delegation_base_step_witness:
  "\<exists>w. prove_delegation_base_with_cap poseidon sample_layout sample_del_vk sample_wrapper_vk sample_wrapper_pis
        (build_delegation_dummy_pis 0 sample_layout sample_del_vk) [sample_attribute] [True] 2 = Inr w
    \<and> delegation_circuit poseidon sample_verify 0 sample_layout Leaf_Proof Leaf_Proof w"
  using delegation_base_step [where bitmap = "[True]" and dummy_proof = Leaf_Proof and cap = 2 and verify = sample_verify
      and wrapper_vk = sample_wrapper_vk and wrapper_proof = Leaf_Proof and w_pis = sample_wrapper_pis, OF sample_layout_ok sample_lists(3,4,1) sample_uniform sample_nonempty sample_commits sample_accepted sample_lists(6) sample_levels]
  by (simp add: sample_lists(7))

text \<open>C10: the recursive step over an accepted delegation proof that embeds the delegation key, in
  the same way: the circuit accepts the prover's witness exactly when the next level is within
  the new cap and the new cap within the inherited one.\<close>

theorem delegation_recursive_step:
  assumes "delegation_layout l" "verifier_data_shape cap_len del_vk" "verifier_data_shape cap_len wrapper_vk"
    "length prev_pis = cyclic_num_public_inputs cap_len l"
    "verifier_data_from_slice cap_len prev_pis = Inr del_vk"
    "uniform n attrs" "attrs \<noteq> []" "length attrs \<le> num_max_attributes l"
    "bind_res (pad_attributes attrs (num_max_attributes l)) (compute_merkle_root poseidon) = Inr (pi_com l prev_pis)"
    "verify del_vk prev_proof prev_pis"
    "prev_pis ! level_pi_idx l \<noteq> 0" "parent_levels_ok l prev_pis" "cap < goldilocks_order"
  shows "\<exists>w. prove_delegation_step_with_cap poseidon l del_vk wrapper_vk
        (build_delegation_dummy_pis cap_len l del_vk) prev_pis attrs bitmap cap = Inr w
    \<and> (delegation_circuit poseidon verify cap_len l prev_proof dummy_proof w
        \<longleftrightarrow> canon (prev_pis ! level_pi_idx l) + 1 \<le> cap \<and> cap \<le> canon (prev_pis ! max_level_pi_idx l))"
  by (rule poseidon_sponge.recursive_step_iff [where wrapper_proof = dummy_proof and verify = verify
        and prev_proof = prev_proof and prev_pis = prev_pis and wrapper_vk = wrapper_vk,
        OF assms(1-4) dummy_pis(1) [OF assms(2,1)] assms(5-13)]) blast

definition sample_prev_pis :: "gf list" where
  "sample_prev_pis = replicate 16 5 @ [7, 0, 0, 0] @ [1, 4] @ [2, 0, 0, 0] @ [1, 0, 0, 0]"

lemma sample_prev:
  "length sample_prev_pis = cyclic_num_public_inputs 0 sample_layout"
  "verifier_data_from_slice 0 sample_prev_pis = Inr sample_del_vk"
  "pi_com sample_layout sample_prev_pis = [7, 0, 0, 0]"
  "sample_prev_pis ! level_pi_idx sample_layout = 1" "sample_prev_pis ! max_level_pi_idx sample_layout = 4"
  by (simp_all add: sample_prev_pis_def sample_layout_def jwt_base_layout_def cyclic_num_public_inputs_def
      base_pi_count_def NUM_HASH_OUT_ELTS_def verifier_data_from_slice_def sample_del_vk_def pi_com_def nth_append)

lemma sample_prev_ok:
  "bind_res (pad_attributes [sample_attribute] (num_max_attributes sample_layout)) (compute_merkle_root poseidon)
     = Inr (pi_com sample_layout sample_prev_pis)"
  "sample_prev_pis ! level_pi_idx sample_layout \<noteq> 0" "parent_levels_ok sample_layout sample_prev_pis"
  by (simp_all add: sample_padded sample_root sample_prev parent_levels_ok_def LEVEL_UNBOUNDED_def MAX_LEVEL_BITS_def)

theorem delegation_recursive_step_witness:
  "\<exists>w. prove_delegation_step_with_cap poseidon sample_layout sample_del_vk sample_wrapper_vk
        (build_delegation_dummy_pis 0 sample_layout sample_del_vk) sample_prev_pis [sample_attribute] [True] 5 = Inr w
    \<and> \<not> delegation_circuit poseidon (\<lambda>_ _ _. True) 0 sample_layout () () w"
  using delegation_recursive_step [where bitmap = "[True]" and dummy_proof = "()" and cap = 5 and verify = "\<lambda>_ _ _. True"
      and wrapper_vk = sample_wrapper_vk and prev_proof = "()" and prev_pis = sample_prev_pis and n = 4,
      OF sample_layout_ok sample_lists(3,4) sample_prev(1,2) sample_uniform sample_nonempty sample_prev_ok(1) TrueI sample_prev_ok(2,3)]
  by (simp add: sample_prev)

subsection \<open>Chains\<close>

lemma presentation_facts:
  assumes "presentation_params n del_vk l (base_pi_count l)" "presentation_circuit poseidon verify n del_vk l (base_pi_count l) inner_proof w"
  shows "verify del_vk inner_proof (pw_inner_pis w)"
    "verifier_data_from_slice (length (constants_sigmas_cap del_vk)) (pw_inner_pis w) = Inr del_vk"
    "pw_issuer_pk_pis w = pi_issuer_pk l (pw_inner_pis w)" "pw_wrapper_digest_pis w = pi_digest l (pw_inner_pis w)"
    "length (pw_leaf_digests w) = num_max_attributes l"
proof -
  have shape: "presentation_shape n l w" using assms(2) by (simp add: presentation_circuit_def Let_def)
  show "verify del_vk inner_proof (pw_inner_pis w)"
    "verifier_data_from_slice (length (constants_sigmas_cap del_vk)) (pw_inner_pis w) = Inr del_vk"
    "pw_issuer_pk_pis w = pi_issuer_pk l (pw_inner_pis w)" "pw_wrapper_digest_pis w = pi_digest l (pw_inner_pis w)"
    using assms(2) unfolding poseidon_sponge.presentation_circuit_iff [OF assms(1) shape] by blast+
  show "length (pw_leaf_digests w) = num_max_attributes l" using shape by (simp add: presentation_shape_def)
qed

text \<open>C9: if delegation proofs are knowledge sound, every accepted proof that embeds the delegation
  key ends a run of satisfied delegation circuits, and for every such run: its base step verified
  a wrapper proof of level 0 under a key with the public wrapper digest, and as many delegations as
  the run is long lead from the credential of that proof to the credential of this one, unless the
  Merkle trees of the run contain a collision.\<close>

theorem delegation_chain_sound:
  assumes "delegation_layout l" "issuer_pk_pi_start l + issuer_pk_pi_len l \<le> com_pi_start l"
    "\<And>p pis. verify del_vk p pis \<Longrightarrow>
       \<exists>ip wp w. delegation_circuit poseidon verify cap_len l ip wp w \<and> pis = delegation_pis w"
    "verify del_vk p pis" "verifier_data_from_slice cap_len pis = Inr del_vk"
  shows "(\<exists>ws. delegation_run poseidon verify cap_len l ws \<and> delegation_pis (hd ws) = pis)
    \<and> (\<forall>ws. delegation_run poseidon verify cap_len l ws \<and> delegation_pis (hd ws) = pis \<longrightarrow>
        (\<exists>wproof. verify (dw_wrapper_vk (last ws)) wproof (dw_wrapper_pis (last ws)))
      \<and> circuit_digest (dw_wrapper_vk (last ws)) = pi_digest l pis
      \<and> represents poseidon l (pi_digest l pis) (dw_wrapper_pis (last ws)) (run_origin l ws)
      \<and> (collides (compress poseidon) (run_inputs poseidon ws) \<or>
          (\<exists>c. (delegates ^^ length ws) (run_origin l ws) c \<and> represents poseidon l (pi_digest l pis) pis c)))"
proof (intro conjI allI impI)
  show "\<exists>ws. delegation_run poseidon verify cap_len l ws \<and> delegation_pis (hd ws) = pis"
    by (rule delegation_system.accepted_run [OF delegation_systemI [OF assms(1-3)] assms(4,5)])
qed (use poseidon_sponge.run_wrapper [OF _ assms(1,2)] poseidon_sponge.run_numbers [OF _ assms(1,2)]
    poseidon_sponge.run_origin_represents [OF _ assms(1,2)] poseidon_sponge.run_delegates [OF _ assms(1,2)] in metis)+

lemma sample_issuer: "issuer_pk_pi_start sample_layout + issuer_pk_pi_len sample_layout \<le> com_pi_start sample_layout"
  by (simp add: sample_layout_def jwt_base_layout_def)

lemma sample_delegation:
  obtains w where "sample_verify sample_del_vk (Delegation_Proof w Leaf_Proof Leaf_Proof) (delegation_pis w)"
    "verifier_data_from_slice 0 (delegation_pis w) = Inr sample_del_vk"
    "pi_com sample_layout (delegation_pis w) = [7, 0, 0, 0]" "length (delegation_pis w) = 30"
    "pi_digest sample_layout (delegation_pis w) = [2, 0, 0, 0]"
proof -
  obtain w where w: "prove_delegation_base_with_cap poseidon sample_layout sample_del_vk sample_wrapper_vk sample_wrapper_pis
        (build_delegation_dummy_pis 0 sample_layout sample_del_vk) [sample_attribute] [True] 2 = Inr w"
    "delegation_circuit poseidon sample_verify 0 sample_layout Leaf_Proof Leaf_Proof w"
    by (rule poseidon_sponge.base_step_iff [where bitmap = "[True]" and inner_proof = Leaf_Proof and cap = 2 and verify = sample_verify
      and wrapper_vk = sample_wrapper_vk and wrapper_proof = Leaf_Proof and wrapper_pis = sample_wrapper_pis,
      OF sample_layout_ok sample_lists(3,4,1,2,5) sample_uniform sample_nonempty sample_commits sample_accepted sample_lists(6) sample_levels])
      (simp_all add: sample_lists(7))
  have mask: "mask_attributes [sample_attribute] (resize (num_max_attributes sample_layout) False [True]) = Inr [sample_attribute]"
    by (simp add: mask_attributes_def resize_def sample_layout_def jwt_base_layout_def)
  have "dw_outer_pis w = next_step_pis sample_layout sample_wrapper_pis 2 [7, 0, 0, 0]"
    using w(1) by (auto simp: prove_delegation_base_with_cap_def case_prod_unfold Let_def step_attributes_def
        sample_padded sample_root mask)
  then have com: "pi_com sample_layout (dw_outer_pis w) = [7, 0, 0, 0]"
    using next_step_pis(4) [OF sample_layout_ok, of sample_wrapper_pis "[7, 0, 0, 0]" 2] sample_lists(1)
    by (simp add: cyclic_num_public_inputs_def NUM_HASH_OUT_ELTS_def)
  have "dw_verifier_data w = sample_del_vk"
    using w(1) by (auto simp: prove_delegation_base_with_cap_def case_prod_unfold Let_def)
  moreover have shape: "delegation_shape 0 sample_layout w" using w(2) by (simp add: delegation_circuit_def Let_def)
  note sl = delegation_pis_slices [OF sample_layout_ok shape sample_issuer]
  ultimately have "verifier_data_from_slice 0 (delegation_pis w) = Inr sample_del_vk" using sl(5) by simp
  moreover have "length (delegation_pis w) = 30"
    using sl(6) by (simp add: sample_layout_def jwt_base_layout_def cyclic_num_public_inputs_def base_pi_count_def NUM_HASH_OUT_ELTS_def)
  moreover have "dw_wrapper_digest_pis w = [2, 0, 0, 0]"
    using w(1) by (auto simp: prove_delegation_base_with_cap_def case_prod_unfold Let_def sample_wrapper_vk_def)
  then have "pi_digest sample_layout (delegation_pis w) = [2, 0, 0, 0]" using sl(4) by simp
  ultimately show ?thesis using that [of w] w(2) sl(2) com by (simp add: ideal_verify_delegation)
qed

lemma sample_one: "num_max_attributes sample_layout = 1"
  by (simp add: sample_layout_def jwt_base_layout_def)

theorem delegation_chain_sound_witness:
  "\<exists>p pis ws c. sample_verify sample_del_vk p pis \<and> delegation_run poseidon sample_verify 0 sample_layout ws
     \<and> delegation_pis (hd ws) = pis \<and> (delegates ^^ length ws) (run_origin sample_layout ws) c
     \<and> represents poseidon sample_layout (pi_digest sample_layout pis) pis c"
proof -
  obtain w where w: "sample_verify sample_del_vk (Delegation_Proof w Leaf_Proof Leaf_Proof) (delegation_pis w)"
      "verifier_data_from_slice 0 (delegation_pis w) = Inr sample_del_vk"
    by (rule sample_delegation)
  let ?run = "\<lambda>ws. delegation_run poseidon sample_verify 0 sample_layout ws \<and> delegation_pis (hd ws) = delegation_pis w"
  have ok: "Ex ?run" "\<forall>ws. ?run ws \<longrightarrow> (collides (compress poseidon) (run_inputs poseidon ws) \<or>
      (\<exists>c. (delegates ^^ length ws) (run_origin sample_layout ws) c
         \<and> represents poseidon sample_layout (pi_digest sample_layout (delegation_pis w)) (delegation_pis w) c))"
    using delegation_chain_sound [where verify = sample_verify and cap_len = 0, OF sample_layout_ok sample_issuer _ w]
      ideal_knowledge_sound by meson+
  then obtain ws where "?run ws" by blast
  then show ?thesis using ok(2) w(1) run_inputs_one [OF _ sample_one] by (metis collides_Nil)
qed

text \<open>C12: what every run of satisfied delegation circuits keeps, whoever produced it: the issuer key
  and the wrapper digest are those of its base step, the level is the number of its steps, the cap
  is at least the level, never above the wrapper's and never above \<open>LEVEL_UNBOUNDED\<close>, and the
  published commitment is the root of the base step's leaves with some of them zeroed, unless the
  Merkle trees of the run contain a collision.\<close>

theorem chain_attenuates_credential:
  assumes "delegation_layout l" "issuer_pk_pi_start l + issuer_pk_pi_len l \<le> com_pi_start l"
    "delegation_run poseidon verify cap_len l ws"
    "pis = delegation_pis (hd ws)" "wpis = dw_wrapper_pis (last ws)"
  shows "pi_issuer_pk l pis = pi_issuer_pk l wpis \<and> pi_digest l pis = circuit_digest (dw_wrapper_vk (last ws))
    \<and> wpis ! level_pi_idx l = 0 \<and> canon (pis ! level_pi_idx l) = length ws
    \<and> length ws \<le> canon (pis ! max_level_pi_idx l)
    \<and> canon (pis ! max_level_pi_idx l) \<le> canon (wpis ! max_level_pi_idx l)
    \<and> canon (pis ! max_level_pi_idx l) \<le> LEVEL_UNBOUNDED
    \<and> merkle_root_from_leaves poseidon (dw_attr_targets (last ws)) = Inr (pi_com l wpis)
    \<and> (collides (compress poseidon) (run_inputs poseidon ws) \<or>
        (\<exists>bs. length bs = num_max_attributes l
           \<and> merkle_root_from_leaves poseidon (masked_leaves (dw_attr_targets (last ws)) bs) = Inr (pi_com l pis)))"
proof -
  have "ws \<noteq> []" using assms(3) by (auto elim: delegation_run_NilE)
  moreover have "\<exists>bs. length bs = num_max_attributes l
       \<and> merkle_root_from_leaves poseidon (masked_leaves (dw_attr_targets (last ws)) bs) = Inr (pi_com l pis)"
    if c: "(delegates ^^ length ws) (run_origin l ws) c" "represents poseidon l digest pis c" for c digest
  proof -
    have "attenuates (run_origin l ws) c" using c(1) \<open>ws \<noteq> []\<close> by (intro chain_attenuates) (auto simp: tranclp_power)
    then show ?thesis
      using c(2) run_targets(1) [OF assms(3), of "last ws"] \<open>ws \<noteq> []\<close> by (auto simp: attenuates_def run_origin_def represents_def)
  qed
  ultimately show ?thesis
    using poseidon_sponge.run_numbers [OF assms(3,1,2)] poseidon_sponge.run_wrapper [OF assms(3,1,2)]
      poseidon_sponge.run_delegates [OF assms(3,1,2)]
    unfolding assms(4,5) by blast
qed

lemma sample_complete:
  assumes "delegation_circuit poseidon sample_verify 0 sample_layout ip wp w" "dw_verifier_data w = sample_del_vk"
  shows "\<exists>p. sample_verify sample_del_vk p (delegation_pis w)"
  using assms(1) by (intro exI [of _ "Delegation_Proof w ip wp"]) (simp add: ideal_verify_delegation)


lemma sample_run:
  assumes "1 \<le> depth" "depth \<le> 255"
  obtains ws where "delegation_run poseidon sample_verify 0 sample_layout ws" "length ws = depth"
proof -
  have "(\<exists>ws. delegation_run poseidon sample_verify 0 sample_layout ws \<and> length ws = depth \<and> dw_wrapper_pis (last ws) = sample_wrapper_pis)
      \<longleftrightarrow> 1 \<le> depth \<and> depth \<le> canon (sample_wrapper_pis ! max_level_pi_idx sample_layout)"
    by (rule poseidon_sponge.run_depths [where verify = sample_verify and wrapper_proof = Leaf_Proof, OF sample_layout_ok sample_issuer
      sample_lists(3,4,1) sample_uniform sample_nonempty sample_commits sample_accepted sample_lists(6) sample_levels])
      (rule sample_complete)
  then show ?thesis using that assms by (auto simp: sample_lists(7))
qed


theorem chain_attenuates_credential_witness:
  "\<exists>ws. delegation_run poseidon sample_verify 0 sample_layout ws \<and> canon (delegation_pis (hd ws) ! level_pi_idx sample_layout) = 2
     \<and> (\<exists>bs. length bs = 1 \<and> merkle_root_from_leaves poseidon (masked_leaves (dw_attr_targets (last ws)) bs)
            = Inr (pi_com sample_layout (delegation_pis (hd ws))))"
proof -
  obtain ws where ws: "delegation_run poseidon sample_verify 0 sample_layout ws" "length ws = 2"
    by (rule sample_run [of 2]) simp_all
  from chain_attenuates_credential [OF sample_layout_ok sample_issuer ws(1) refl refl] show ?thesis
    using ws run_inputs_one [OF ws(1) sample_one] by (auto simp: sample_one)
qed

text \<open>C37: descending from the public inputs of a recursive step to those it verifies is well founded,
  along any satisfied circuits and for any proof system, and takes at most 256 steps: no proof is
  built on an endless regress.  The level alone does not give this, since it may wrap around the
  field; the headroom of the cap over the level grows with every step down.\<close>

theorem delegation_terminates:
  assumes "delegation_layout l" "issuer_pk_pi_start l + issuer_pk_pi_len l \<le> com_pi_start l"
  shows "wfP (descends poseidon verify cap_len l) \<and> ((descends poseidon verify cap_len l ^^ n) inner outer \<longrightarrow> n \<le> LEVEL_UNBOUNDED + 1)"
proof
  show "wfP (descends poseidon verify cap_len l)"
    by (rule wfp_if_convertible_to_nat [where f = "\<lambda>pis. 256 - headroom l pis"]) (rule poseidon_sponge.descends_headroom [OF assms])
  show "(descends poseidon verify cap_len l ^^ n) inner outer \<longrightarrow> n \<le> LEVEL_UNBOUNDED + 1"
  proof
    assume "(descends poseidon verify cap_len l ^^ n) inner outer"
    from poseidon_sponge.descends_steps [OF assms this] show "n \<le> LEVEL_UNBOUNDED + 1"
      by (simp add: LEVEL_UNBOUNDED_def MAX_LEVEL_BITS_def)
  qed
qed

theorem delegation_terminates_witness:
  "\<exists>inner outer. descends poseidon sample_verify 0 sample_layout inner outer
     \<and> \<not> (descends poseidon sample_verify 0 sample_layout ^^ 257) inner outer"
proof -
  obtain ws where ws: "delegation_run poseidon sample_verify 0 sample_layout ws" "length ws = 2"
    by (rule sample_run [of 2]) simp_all
  obtain inner outer where "descends poseidon sample_verify 0 sample_layout inner outer"
    using ws unfolding descends_def by (cases rule: delegation_run.cases) (simp, blast)
  moreover have "\<not> (descends poseidon sample_verify 0 sample_layout ^^ 257) inner outer"
    using delegation_terminates [OF sample_layout_ok sample_issuer, where verify = sample_verify and cap_len = 0
        and n = 257 and inner = inner and outer = outer]
    by (simp add: LEVEL_UNBOUNDED_def MAX_LEVEL_BITS_def)
  ultimately show ?thesis by blast
qed

subsection \<open>Presentations\<close>

text \<open>C2: a satisfied presentation circuit discloses, slot by slot, a leaf of the base credential or
  the zero leaf.  If delegation proofs are knowledge sound, the delegation proof it verifies ends
  a run of satisfied delegation circuits, and for every such run: the base step verified a wrapper
  proof of level 0 with the published issuer key, under a key with the published wrapper digest;
  the leaves the base step hashed open the commitment of that proof; and the disclosed array is
  these leaves with some zeroed, unless the Merkle trees of the run and of the presentation
  contain a collision.\<close>

theorem presentation_sound:
  assumes "delegation_layout l" "issuer_pk_pi_start l + issuer_pk_pi_len l \<le> com_pi_start l"
    "\<And>p pis. verify del_vk p pis \<Longrightarrow>
       \<exists>ip wp w. delegation_circuit poseidon verify (length (constants_sigmas_cap del_vk)) l ip wp w \<and> pis = delegation_pis w"
    "presentation_params n del_vk l (base_pi_count l)"
    "presentation_circuit poseidon verify n del_vk l (base_pi_count l) inner_proof w"
    "run = (\<lambda>ws. delegation_run poseidon verify (length (constants_sigmas_cap del_vk)) l ws \<and> delegation_pis (hd ws) = pw_inner_pis w)"
  shows "(\<exists>ws. run ws)
    \<and> (\<forall>ws. run ws \<longrightarrow>
        (\<exists>wproof. verify (dw_wrapper_vk (last ws)) wproof (dw_wrapper_pis (last ws)))
      \<and> circuit_digest (dw_wrapper_vk (last ws)) = pw_wrapper_digest_pis w
      \<and> dw_wrapper_pis (last ws) ! level_pi_idx l = 0
      \<and> pi_issuer_pk l (dw_wrapper_pis (last ws)) = pw_issuer_pk_pis w
      \<and> merkle_root_from_leaves poseidon (dw_attr_targets (last ws)) = Inr (pi_com l (dw_wrapper_pis (last ws)))
      \<and> (collides (compress poseidon) (run_inputs poseidon ws @ compress_inputs poseidon (pw_leaf_digests w)) \<or>
          (\<exists>bs. length bs = num_max_attributes l
             \<and> pw_disclosed_pis w = concat (masked_leaves (dw_attr_targets (last ws)) bs))))"
proof -
  note facts = presentation_facts [OF assms(4,5)]
  have ex: "\<exists>ws. run ws"
    unfolding assms(6)
    by (rule delegation_system.accepted_run [OF delegation_systemI [OF assms(1-3)] facts(1,2)])
  note num = poseidon_sponge.run_numbers [OF _ assms(1,2), where verify = verify] and wr = poseidon_sponge.run_wrapper [OF _ assms(1,2), where verify = verify]
  note disc = poseidon_sponge.run_discloses [OF _ _ assms(1,2,4,5)]
  show ?thesis
    using ex num wr disc facts(3,4) unfolding assms(6) by metis
qed

lemma sample_presentation:
  obtains p w where "presentation_circuit poseidon sample_verify 30 sample_del_vk sample_layout (base_pi_count sample_layout) p w"
    "pw_disclosed_pis w = [7, 0, 0, 0]" "presentation_params 30 sample_del_vk sample_layout (base_pi_count sample_layout)"
    "pw_wrapper_digest_pis w = circuit_digest sample_wrapper_vk"
proof -
  obtain d where d: "sample_verify sample_del_vk (Delegation_Proof d Leaf_Proof Leaf_Proof) (delegation_pis d)"
      "verifier_data_from_slice 0 (delegation_pis d) = Inr sample_del_vk"
      "pi_com sample_layout (delegation_pis d) = [7, 0, 0, 0]" "length (delegation_pis d) = 30"
      "pi_digest sample_layout (delegation_pis d) = [2, 0, 0, 0]"
    by (rule sample_delegation)
  have par: "presentation_params 30 sample_del_vk sample_layout (base_pi_count sample_layout)"
    using sample_layout_ok by (simp add: presentation_params_def delegation_layout_def sample_layout_def jwt_base_layout_def
        base_pi_count_def NUM_HASH_OUT_ELTS_def sample_del_vk_def)
  have len: "length [sample_attribute] = num_max_attributes sample_layout" "length [True] = num_max_attributes sample_layout"
    by (simp_all add: sample_layout_def jwt_base_layout_def)
  have root: "compute_merkle_root poseidon [sample_attribute] = Inr (pi_com sample_layout (delegation_pis d))"
    by (simp add: sample_root d(3))
  have emb: "verifier_data_from_slice (length (constants_sigmas_cap sample_del_vk)) (delegation_pis d) = Inr sample_del_vk"
    using d(2) by (simp add: sample_del_vk_def)
  obtain w where w: "build_presentation_witness poseidon 30 sample_layout (base_pi_count sample_layout) (delegation_pis d) [sample_attribute] [True] 9 = Inr w"
      "presentation_circuit poseidon sample_verify 30 sample_del_vk sample_layout (base_pi_count sample_layout) (Delegation_Proof d Leaf_Proof Leaf_Proof) w"
    using poseidon_sponge.build_presentation_witness_satisfies [where verify = sample_verify and nonce = 9 and del_proof = "Delegation_Proof d Leaf_Proof Leaf_Proof",
        OF par d(4) sample_uniform len root d(1) emb] by metis
  have "attribute_to_hashed_leaf poseidon sample_attribute = Inr [7, 0, 0, 0]"
    using attribute_to_hashed_leaf_Inr [of sample_attribute poseidon] sample_leaf by (simp add: sample_attribute_def len_bytes_def)
  then have "pw_disclosed_pis w = [7, 0, 0, 0]"
    using w(1) d(4) len by (auto simp: build_presentation_witness_def Let_def)
  moreover have "pw_wrapper_digest_pis w = map (\<lambda>j. delegation_pis d ! (base_pi_count sample_layout + j)) [0..<NUM_HASH_OUT_ELTS]"
    using w(1) d(4) len by (auto simp: build_presentation_witness_def Let_def)
  then have "pw_wrapper_digest_pis w = pi_digest sample_layout (delegation_pis d)"
    using d(4) by (subst (asm) map_nth_slice) (simp_all add: pi_digest_def sample_layout_def jwt_base_layout_def base_pi_count_def NUM_HASH_OUT_ELTS_def)
  ultimately show ?thesis using that w(2) par d(5) by (simp add: sample_wrapper_vk_def)
qed

theorem presentation_sound_witness:
  "\<exists>p w ws bs. presentation_circuit poseidon sample_verify 30 sample_del_vk sample_layout (base_pi_count sample_layout) p w
     \<and> pw_disclosed_pis w = [7, 0, 0, 0]
     \<and> delegation_run poseidon sample_verify 0 sample_layout ws \<and> delegation_pis (hd ws) = pw_inner_pis w
     \<and> length bs = 1 \<and> pw_disclosed_pis w = concat (masked_leaves (dw_attr_targets (last ws)) bs)"
proof -
  obtain p w where w: "presentation_circuit poseidon sample_verify 30 sample_del_vk sample_layout (base_pi_count sample_layout) p w"
    "pw_disclosed_pis w = [7, 0, 0, 0]" "presentation_params 30 sample_del_vk sample_layout (base_pi_count sample_layout)"
    by (rule sample_presentation)
  have cap: "length (constants_sigmas_cap sample_del_vk) = 0" by (simp add: sample_del_vk_def)
  let ?run = "\<lambda>ws. delegation_run poseidon sample_verify 0 sample_layout ws \<and> delegation_pis (hd ws) = pw_inner_pis w"
  have ok: "Ex ?run" "\<forall>ws. ?run ws \<longrightarrow>
      collides (compress poseidon) (run_inputs poseidon ws @ compress_inputs poseidon (pw_leaf_digests w)) \<or>
      (\<exists>bs. length bs = num_max_attributes sample_layout \<and> pw_disclosed_pis w = concat (masked_leaves (dw_attr_targets (last ws)) bs))"
    using presentation_sound [where verify = sample_verify, OF sample_layout_ok sample_issuer _ w(3,1) refl, unfolded cap]
      ideal_knowledge_sound by meson+
  then obtain ws where ws: "?run ws" by blast
  have "run_inputs poseidon ws = []" "compress_inputs poseidon (pw_leaf_digests w) = []"
    using run_inputs_one [OF conjunct1 [OF ws] sample_one] presentation_facts(5) [OF w(3,1)] by (simp_all add: compress_inputs_one sample_one)
  then show ?thesis using ok(2) ws w(1,2) by (metis append_Nil collides_Nil sample_one)
qed

text \<open>C14: for an accepted delegation proof that commits to the given attributes and embeds the
  delegation key, the presentation witness satisfies the circuit, and its public inputs are the
  issuer key, the leaf digests of the revealed slots (zero elsewhere), the nonce and the wrapper
  digest, in this order.\<close>

theorem presentation_complete:
  assumes "presentation_params n del_vk l (base_pi_count l)" "length del_pis = n"
    "uniform b attrs" "length attrs = num_max_attributes l" "length reveal_mask = num_max_attributes l"
    "compute_merkle_root poseidon attrs = Inr (pi_com l del_pis)"
    "verify del_vk del_proof del_pis"
    "verifier_data_from_slice (length (constants_sigmas_cap del_vk)) del_pis = Inr del_vk"
  shows "\<exists>w. build_presentation_witness poseidon n l (base_pi_count l) del_pis attrs reveal_mask nonce = Inr w
    \<and> presentation_circuit poseidon verify n del_vk l (base_pi_count l) del_proof w
    \<and> presentation_pis w = pi_issuer_pk l del_pis @ concat (masked_leaves (map (hashed_leaf poseidon) attrs) reveal_mask)
       @ [of_nat (unat nonce)] @ pi_digest l del_pis"
  using poseidon_sponge.build_presentation_witness_satisfies [where verify = verify and del_proof = del_proof and nonce = nonce, OF assms]
  by metis

theorem presentation_complete_witness:
  "\<exists>w. build_presentation_witness poseidon 30 sample_layout (base_pi_count sample_layout) sample_prev_pis [sample_attribute] [False] 9 = Inr w
    \<and> presentation_pis w = replicate 16 5 @ [0, 0, 0, 0] @ [9] @ [2, 0, 0, 0]"
proof -
  have par: "presentation_params 30 sample_del_vk sample_layout (base_pi_count sample_layout)"
    using sample_layout_ok by (simp add: presentation_params_def delegation_layout_def sample_layout_def jwt_base_layout_def
        base_pi_count_def NUM_HASH_OUT_ELTS_def sample_del_vk_def)
  have len: "length [sample_attribute] = num_max_attributes sample_layout" "length [False] = num_max_attributes sample_layout"
      "length sample_prev_pis = 30"
    using sample_prev(1) by (simp_all add: sample_layout_def jwt_base_layout_def cyclic_num_public_inputs_def base_pi_count_def NUM_HASH_OUT_ELTS_def)
  have root: "compute_merkle_root poseidon [sample_attribute] = Inr (pi_com sample_layout sample_prev_pis)"
    by (simp add: sample_root sample_prev(3))
  have emb: "verifier_data_from_slice (length (constants_sigmas_cap sample_del_vk)) sample_prev_pis = Inr sample_del_vk"
    using sample_prev(2) by (simp add: sample_del_vk_def)
  have "pi_issuer_pk sample_layout sample_prev_pis = replicate 16 5" "pi_digest sample_layout sample_prev_pis = [2, 0, 0, 0]"
    by (simp_all add: pi_issuer_pk_def pi_digest_def sample_prev_pis_def sample_layout_def jwt_base_layout_def base_pi_count_def
        NUM_HASH_OUT_ELTS_def)
  moreover have "replicate 4 0 = [0, 0, 0, 0 :: gf]" by (simp add: numeral_eq_Suc)
  then have "concat (masked_leaves (map (hashed_leaf poseidon) [sample_attribute]) [False]) = [0, 0, 0, 0]"
    by (simp add: NUM_HASH_OUT_ELTS_def masked_leaves_def)
  moreover have "(of_nat (unat (9 :: u32)) :: gf) = 9" by simp
  ultimately show ?thesis
    using presentation_complete [where verify = "\<lambda>_ _ _. True" and nonce = 9 and del_proof = "()",
        OF par len(3) sample_uniform len(1,2) root TrueI emb] by auto
qed

subsection \<open>The wrapper key\<close>

definition genuine_wrapper_vk :: verifier_data where
  "genuine_wrapper_vk = \<lparr>circuit_digest = [2, 0, 0, 0], constants_sigmas_cap = [[3, 0, 0, 0]]\<rparr>"

definition forged_wrapper_vk :: verifier_data where
  "forged_wrapper_vk = \<lparr>circuit_digest = [2, 0, 0, 0], constants_sigmas_cap = [[4, 0, 0, 0]]\<rparr>"

text \<open>C15: the delegation circuit does not pin the wrapper's verifier key: only its circuit digest
  reaches the public inputs, and the digest wires are not constrained by the cap.  A proof
  accepted under a forged key (another constants/sigmas cap beside the genuine digest) gives a
  satisfied delegation circuit whose public inputs carry the genuine digest.
\<close>

theorem wrapper_key_not_pinned:
  "forged_wrapper_vk \<noteq> genuine_wrapper_vk \<and>
   (\<exists>w. delegation_circuit poseidon (\<lambda>vk p pis. vk = forged_wrapper_vk) 1 sample_layout () () w
     \<and> pi_digest sample_layout (delegation_pis w) = circuit_digest genuine_wrapper_vk)"
proof
  show "forged_wrapper_vk \<noteq> genuine_wrapper_vk" by (simp add: forged_wrapper_vk_def genuine_wrapper_vk_def)
  let ?del_vk = genuine_wrapper_vk
  let ?pis = "replicate 16 5 @ [7, 0, 0, 0] @ [0, 255] @ replicate 12 0 :: gf list"
  have vk: "verifier_data_shape 1 ?del_vk" "verifier_data_shape 1 forged_wrapper_vk"
    by (simp_all add: verifier_data_shape_def genuine_wrapper_vk_def forged_wrapper_vk_def NUM_HASH_OUT_ELTS_def)
  have len: "length ?pis = cyclic_num_public_inputs 1 sample_layout"
    by (simp add: sample_layout_def jwt_base_layout_def cyclic_num_public_inputs_def base_pi_count_def NUM_HASH_OUT_ELTS_def)
  have lev: "?pis ! level_pi_idx sample_layout = 0" "?pis ! max_level_pi_idx sample_layout = 255"
    by (simp_all add: sample_layout_def jwt_base_layout_def nth_append)
  have ok: "parent_levels_ok sample_layout ?pis"
    unfolding parent_levels_ok_def lev by (simp add: LEVEL_UNBOUNDED_def MAX_LEVEL_BITS_def)
  have "pi_com sample_layout ?pis = [7, 0, 0, 0]" by (simp add: pi_com_def sample_layout_def jwt_base_layout_def)
  then have root: "bind_res (pad_attributes [sample_attribute] (num_max_attributes sample_layout)) (compute_merkle_root poseidon)
      = Inr (pi_com sample_layout ?pis)"
    by (simp add: sample_padded sample_root)
  obtain w where w: "prove_delegation_base_with_cap poseidon sample_layout ?del_vk forged_wrapper_vk ?pis
        (build_delegation_dummy_pis 1 sample_layout ?del_vk) [sample_attribute] [True] 2 = Inr w"
    "delegation_circuit poseidon (\<lambda>vk p pis. vk = forged_wrapper_vk) 1 sample_layout () () w"
    by (rule poseidon_sponge.base_step_iff [where bitmap = "[True]" and inner_proof = "()" and wrapper_proof = "()" and cap = 2
      and verify = "\<lambda>vk p pis. vk = forged_wrapper_vk" and wrapper_vk = forged_wrapper_vk and wrapper_pis = ?pis,
      OF sample_layout_ok vk len dummy_pis(1,2) [OF vk(1) sample_layout_ok] sample_uniform sample_nonempty root refl lev(1) ok])
      (unfold lev, simp_all)
  have "dw_wrapper_digest_pis w = circuit_digest forged_wrapper_vk"
    using w(1) by (auto simp: prove_delegation_base_with_cap_def case_prod_unfold Let_def)
  moreover have "delegation_shape 1 sample_layout w" using w(2) by (simp add: delegation_circuit_def Let_def)
  ultimately have "pi_digest sample_layout (delegation_pis w) = circuit_digest genuine_wrapper_vk"
    using delegation_pis_slices(4) [OF sample_layout_ok _ sample_issuer]
    by (simp add: forged_wrapper_vk_def genuine_wrapper_vk_def)
  then show "\<exists>w. delegation_circuit poseidon (\<lambda>vk p pis. vk = forged_wrapper_vk) 1 sample_layout () () w
     \<and> pi_digest sample_layout (delegation_pis w) = circuit_digest genuine_wrapper_vk"
    using w(2) by blast
qed

definition sample_base_verify :: "unit verify" where
  "sample_base_verify vk p pis \<longleftrightarrow> vk = sample_del_vk"

definition sample_wrapper_wires :: wrapper_wires where
  "sample_wrapper_wires = \<lparr>ww_outer_pis = take 22 sample_wrapper_pis, ww_wrapper_digest_pis = [2, 0, 0, 0],
     ww_verifier_data = sample_wrapper_vk, ww_base_pis = take 22 sample_wrapper_pis\<rparr>"

lemma sample_wrapper_satisfied:
  "wrapper_circuit sample_base_verify sample_del_vk 0 (base_pi_count sample_layout) () sample_wrapper_wires"
  "sample_wrapper_pis = wrapper_pis sample_wrapper_wires"
  by (simp_all add: wrapper_circuit_def sample_wrapper_wires_def sample_layout_def jwt_base_layout_def base_pi_count_def
      sample_wrapper_pis_def NUM_HASH_OUT_ELTS_def verifier_data_shape_def sample_base_verify_def list_all_iff wrapper_pis_def
      verifier_data_elements_def sample_wrapper_vk_def)

lemma sample_wrapper_knowledge_sound:
  assumes "sample_verify sample_wrapper_vk p pis"
  shows "pis = sample_wrapper_pis"
  using assms
  by (cases p) (auto simp: ideal_verify_def [of _ _ _ _ _ _ Leaf_Proof] ideal_verify_delegation sample_wrapper_vk_def sample_del_vk_def)

lemma sample_keys_pinned:
  assumes "sample_verify vk p pis" "circuit_digest vk = circuit_digest sample_wrapper_vk"
  shows "vk = sample_wrapper_vk"
  using assms
  by (cases p) (auto simp: ideal_verify_def [of _ _ _ _ _ _ Leaf_Proof] ideal_verify_delegation sample_wrapper_vk_def sample_del_vk_def)

text \<open>C1: end to end.  If delegation proofs, and wrapper proofs under the genuine wrapper key, are
  knowledge sound, then behind a satisfied presentation circuit there is a run of satisfied
  delegation circuits; every such run carries the published wrapper digest, and one whose base
  step carries the genuine wrapper key, which its digest alone does not ensure, starts from a base
  proof accepted under the hard-coded base key, at level 0, with the presented issuer key, to whose
  commitment the hashed leaves open; the presentation discloses these leaves with some zeroed,
  unless the Merkle trees of the run and of the presentation contain a collision.\<close>

theorem presentation_of_base_proof:
  assumes "delegation_layout l" "issuer_pk_pi_start l + issuer_pk_pi_len l \<le> com_pi_start l"
    "\<And>p pis. verify del_vk p pis \<Longrightarrow>
       \<exists>ip wp w. delegation_circuit poseidon verify (length (constants_sigmas_cap del_vk)) l ip wp w \<and> pis = delegation_pis w"
    "\<And>p pis. verify wrapper_vk p pis \<Longrightarrow>
       \<exists>bp ww. wrapper_circuit verify_base base_vk (length (constants_sigmas_cap del_vk)) (base_pi_count l) bp ww \<and> pis = wrapper_pis ww"
    "presentation_params n del_vk l (base_pi_count l)"
    "presentation_circuit poseidon verify n del_vk l (base_pi_count l) inner_proof w"
    "run = (\<lambda>ws. delegation_run poseidon verify (length (constants_sigmas_cap del_vk)) l ws \<and> delegation_pis (hd ws) = pw_inner_pis w)"
  shows "(\<exists>ws. run ws)
    \<and> (\<forall>ws. run ws \<longrightarrow> circuit_digest (dw_wrapper_vk (last ws)) = pw_wrapper_digest_pis w)
    \<and> (\<forall>ws. run ws \<and> dw_wrapper_vk (last ws) = wrapper_vk \<longrightarrow>
        (\<exists>bproof bpis. verify_base base_vk bproof bpis
           \<and> pi_issuer_pk l bpis = pw_issuer_pk_pis w \<and> bpis ! level_pi_idx l = 0
           \<and> merkle_root_from_leaves poseidon (dw_attr_targets (last ws)) = Inr (pi_com l bpis))
      \<and> (collides (compress poseidon) (run_inputs poseidon ws @ compress_inputs poseidon (pw_leaf_digests w)) \<or>
          (\<exists>bs. length bs = num_max_attributes l
             \<and> pw_disclosed_pis w = concat (masked_leaves (dw_attr_targets (last ws)) bs))))"
proof -
  note facts = presentation_facts [OF assms(5,6)]
  have ex: "\<exists>ws. run ws"
    unfolding assms(7)
    by (rule delegation_system.accepted_run [OF delegation_systemI [OF assms(1-3)] facts(1,2)])
  note num = poseidon_sponge.run_numbers [OF _ assms(1,2), where verify = verify] and wr = poseidon_sponge.run_wrapper [OF _ assms(1,2), where verify = verify]
  note disc = poseidon_sponge.run_discloses [OF _ _ assms(1,2,5,6)]
  have "\<exists>bproof bpis. verify_base base_vk bproof bpis
           \<and> pi_issuer_pk l bpis = pw_issuer_pk_pis w \<and> bpis ! level_pi_idx l = 0
           \<and> merkle_root_from_leaves poseidon (dw_attr_targets (last ws)) = Inr (pi_com l bpis)"
    if r: "run ws" "dw_wrapper_vk (last ws) = wrapper_vk" for ws
  proof -
    let ?wpis = "dw_wrapper_pis (last ws)" and ?bpis = "take (base_pi_count l) (dw_wrapper_pis (last ws))"
    note rr = r(1) [unfolded assms(7)]
    obtain bp ww where ww: "wrapper_circuit verify_base base_vk (length (constants_sigmas_cap del_vk)) (base_pi_count l) bp ww" "?wpis = wrapper_pis ww"
      using assms(4) wr [OF conjunct1 [OF rr]] r(2) by metis
    have "pi_issuer_pk l ?bpis = pi_issuer_pk l ?wpis" "pi_com l ?bpis = pi_com l ?wpis" "?bpis ! level_pi_idx l = ?wpis ! level_pi_idx l"
      using assms(1,2) by (auto simp: pi_issuer_pk_def pi_com_def drop_take min_def delegation_layout_def base_pi_count_def)
    then show ?thesis
      using wrapper_forwards(2) [OF ww(1), folded ww(2)] num [OF conjunct1 [OF rr]] wr [OF conjunct1 [OF rr]] rr facts(3) by metis
  qed
  then show ?thesis
    using ex num disc facts(4) unfolding assms(7) by metis
qed

theorem presentation_of_base_proof_witness:
  "\<exists>(w :: presentation_wires) leaves bpis bs. pw_disclosed_pis w = [7, 0, 0, 0] \<and> sample_base_verify sample_del_vk () bpis
     \<and> pi_issuer_pk sample_layout bpis = pw_issuer_pk_pis w \<and> bpis ! level_pi_idx sample_layout = 0
     \<and> merkle_root_from_leaves poseidon leaves = Inr (pi_com sample_layout bpis)
     \<and> length bs = 1 \<and> pw_disclosed_pis w = concat (masked_leaves leaves bs)"
proof -
  obtain p w where w: "presentation_circuit poseidon sample_verify 30 sample_del_vk sample_layout (base_pi_count sample_layout) p w"
    "pw_disclosed_pis w = [7, 0, 0, 0]" "presentation_params 30 sample_del_vk sample_layout (base_pi_count sample_layout)"
    "pw_wrapper_digest_pis w = circuit_digest sample_wrapper_vk"
    by (rule sample_presentation)
  have cap: "length (constants_sigmas_cap sample_del_vk) = 0" by (simp add: sample_del_vk_def)
  have kw: "\<exists>bp ww. wrapper_circuit sample_base_verify sample_del_vk 0 (base_pi_count sample_layout) bp ww \<and> pis = wrapper_pis ww"
    if "sample_verify sample_wrapper_vk p pis" for p pis
    using sample_wrapper_knowledge_sound [OF that] sample_wrapper_satisfied by blast
  let ?run = "\<lambda>ws. delegation_run poseidon sample_verify 0 sample_layout ws \<and> delegation_pis (hd ws) = pw_inner_pis w"
  have "Ex ?run \<and> (\<forall>ws. ?run ws \<longrightarrow> circuit_digest (dw_wrapper_vk (last ws)) = pw_wrapper_digest_pis w)
    \<and> (\<forall>ws. ?run ws \<and> dw_wrapper_vk (last ws) = sample_wrapper_vk \<longrightarrow>
        (\<exists>bproof bpis. sample_base_verify sample_del_vk bproof bpis
           \<and> pi_issuer_pk sample_layout bpis = pw_issuer_pk_pis w \<and> bpis ! level_pi_idx sample_layout = 0
           \<and> merkle_root_from_leaves poseidon (dw_attr_targets (last ws)) = Inr (pi_com sample_layout bpis))
      \<and> (collides (compress poseidon) (run_inputs poseidon ws @ compress_inputs poseidon (pw_leaf_digests w)) \<or>
          (\<exists>bs. length bs = num_max_attributes sample_layout
             \<and> pw_disclosed_pis w = concat (masked_leaves (dw_attr_targets (last ws)) bs))))"
    by (rule presentation_of_base_proof [where verify = sample_verify and wrapper_vk = sample_wrapper_vk
          and verify_base = sample_base_verify and base_vk = sample_del_vk and del_vk = sample_del_vk,
          OF sample_layout_ok sample_issuer _ _ w(3,1) refl, unfolded cap]) (erule ideal_knowledge_sound, erule kw)
  note ok = conjunct1 [OF this] conjunct1 [OF conjunct2 [OF this]] conjunct2 [OF conjunct2 [OF this]]
  obtain ws where ws: "?run ws" using ok(1) by blast
  obtain wp where wp: "sample_verify (dw_wrapper_vk (last ws)) wp (dw_wrapper_pis (last ws))"
    using poseidon_sponge.run_wrapper [OF conjunct1 [OF ws] sample_layout_ok sample_issuer] by blast
  have "circuit_digest (dw_wrapper_vk (last ws)) = circuit_digest sample_wrapper_vk" using ok(2) ws w(4) by simp
  then have key: "dw_wrapper_vk (last ws) = sample_wrapper_vk" by (rule sample_keys_pinned [OF wp])
  have none: "run_inputs poseidon ws = []" "compress_inputs poseidon (pw_leaf_digests w) = []"
    using run_inputs_one [OF conjunct1 [OF ws] sample_one] presentation_facts(5) [OF w(3,1)] by (simp_all add: compress_inputs_one sample_one)
  note strong = ok(3) [rule_format, OF conjI [OF ws key], unfolded none]
  obtain bpis where "sample_base_verify sample_del_vk () bpis" "pi_issuer_pk sample_layout bpis = pw_issuer_pk_pis w"
      "bpis ! level_pi_idx sample_layout = 0" "merkle_root_from_leaves poseidon (dw_attr_targets (last ws)) = Inr (pi_com sample_layout bpis)"
    using strong by auto
  moreover obtain bs where "length bs = 1" "pw_disclosed_pis w = concat (masked_leaves (dw_attr_targets (last ws)) bs)"
    using strong by (auto simp: sample_one)
  ultimately show ?thesis using w(2) by blast
qed

end
