(* ===== verification/Biguint.thy ===== *)
theory Biguint
  imports Crypto_Utils Merkle
begin

text \<open>
  Big integers as little-endian lists of 32-bit limbs: \<open>BigUint::to_u32_digits\<close> and the witness
  helpers \<open>set_biguint_target\<close> and \<open>get_biguint_target\<close> of
  \<open>plonky2_ecdsa/src/gadgets/biguint.rs\<close>.  \<open>limbs_of\<close> is the digit list of a fixed length and
  \<open>limbs_val\<close> the number a limb list stands for.
\<close>

fun to_u32_digits :: "nat \<Rightarrow> nat list" where
  "to_u32_digits n = (if n = 0 then [] else n mod 2 ^ 32 # to_u32_digits (n div 2 ^ 32))"

declare to_u32_digits.simps [simp del]

definition limbs_val :: "nat list \<Rightarrow> nat" where
  "limbs_val ls = foldr (\<lambda>l acc. l + 2 ^ 32 * acc) ls 0"

definition limbs_of :: "nat \<Rightarrow> nat \<Rightarrow> nat list" where
  "limbs_of k v = map (\<lambda>i. v div 2 ^ (32 * i) mod 2 ^ 32) [0..<k]"

definition set_biguint_target :: "nat \<Rightarrow> nat \<Rightarrow> gf list res" where
  "set_biguint_target num_limbs v =
     (let limbs = to_u32_digits v in
      ensure (length limbs \<le> num_limbs) (Panic ''assertion failed: target.num_limbs() >= limbs.len()'')
        (Inr (map of_nat (limbs @ replicate (num_limbs - length limbs) 0))))"

definition get_biguint_target :: "gf list \<Rightarrow> nat" where
  "get_biguint_target limbs = foldl (\<lambda>acc limb. acc * 2 ^ 32 + canon limb) 0 (rev limbs)"

lemma limbs_val_simps [simp]: "limbs_val [] = 0" "limbs_val (l # ls) = l + 2 ^ 32 * limbs_val ls"
  by (simp_all add: limbs_val_def)

lemma limbs_val_append: "limbs_val (xs @ ys) = limbs_val xs + 2 ^ (32 * length xs) * limbs_val ys"
  by (induction xs) (simp_all add: algebra_simps power_add)

lemma limbs_val_zeros [simp]: "limbs_val (replicate k 0) = 0"
  by (induction k) simp_all

lemma limbs_val_less: "\<forall>l \<in> set ls. l < 2 ^ 32 \<Longrightarrow> limbs_val ls < 2 ^ (32 * length ls)"
proof (induction ls)
  case (Cons l ls)
  then have "limbs_val ls + 1 \<le> 2 ^ (32 * length ls)" "l < 2 ^ 32" by auto
  then have "2 ^ 32 * (limbs_val ls + 1) \<le> 2 ^ 32 * 2 ^ (32 * length ls)" by (intro mult_le_mono2)
  then have "2 ^ 32 * limbs_val ls + 2 ^ 32 \<le> 2 ^ 32 * 2 ^ (32 * length ls)" by (simp add: distrib_left)
  then have "l + 2 ^ 32 * limbs_val ls < 2 ^ 32 * 2 ^ (32 * length ls)" using \<open>l < 2 ^ 32\<close> by (simp del: power_numeral)
  then show ?case by (simp only: limbs_val_simps list.size power_add [symmetric]) (simp add: power_add)
qed simp

lemma length_limbs_of [simp, size_simps]: "length (limbs_of k v) = k"
  by (simp add: limbs_of_def)

lemma limbs_of_less: "\<forall>l \<in> set (limbs_of k v). l < 2 ^ 32"
  by (auto simp: limbs_of_def)

lemma limbs_of_Suc: "limbs_of (Suc k) v = v mod 2 ^ 32 # limbs_of k (v div 2 ^ 32)"
proof -
  have "v div 2 ^ 32 div 2 ^ (32 * i) = v div 2 ^ (32 * Suc i)" for i
    by (simp only: div_mult2_eq [symmetric] power_add [symmetric] mult_Suc_right)
  then show ?thesis
    by (simp add: limbs_of_def upt_conv_Cons map_Suc_upt [symmetric] del: upt_Suc power_numeral mult_Suc_right)
qed

lemma limbs_val_of: "limbs_val (limbs_of k v) = v mod 2 ^ (32 * k)"
proof (induction k arbitrary: v)
  case (Suc k)
  have "v mod 2 ^ (32 * Suc k) = 2 ^ 32 * (v div 2 ^ 32 mod 2 ^ (32 * k)) + v mod 2 ^ 32"
    by (simp only: mult_Suc_right power_add) (rule mod_mult2_eq)
  then show ?case unfolding limbs_of_Suc limbs_val_simps Suc by simp
qed (simp add: limbs_of_def)

lemma limbs_of_val: "\<forall>l \<in> set ls. l < 2 ^ 32 \<Longrightarrow> limbs_of (length ls) (limbs_val ls) = ls"
proof (induction ls)
  case (Cons l ls)
  then have "l < 2 ^ 32" by simp
  then have "(l + 2 ^ 32 * limbs_val ls) mod 2 ^ 32 = l" "(l + 2 ^ 32 * limbs_val ls) div 2 ^ 32 = limbs_val ls"
    by simp_all
  moreover have "length (l # ls) = Suc (length ls)" by simp
  ultimately show ?case using Cons by (simp only: limbs_of_Suc limbs_val_simps) simp
qed (simp add: limbs_of_def)

lemma limbs_val_inject:
  assumes "length xs = length ys" "\<forall>l \<in> set xs. l < 2 ^ 32" "\<forall>l \<in> set ys. l < 2 ^ 32"
  shows "limbs_val xs = limbs_val ys \<longleftrightarrow> xs = ys"
  using limbs_of_val [OF assms(2)] limbs_of_val [OF assms(3)] assms(1) by metis

lemma to_u32_digits_val: "limbs_val (to_u32_digits n) = n"
proof (induction n rule: to_u32_digits.induct)
  case (1 n)
  then show ?case by (subst to_u32_digits.simps) simp
qed

lemma to_u32_digits_less: "\<forall>l \<in> set (to_u32_digits n). l < 2 ^ 32"
proof (induction n rule: to_u32_digits.induct)
  case (1 n)
  then show ?case by (subst to_u32_digits.simps) simp
qed

lemma length_to_u32_digits: "length (to_u32_digits n) \<le> k \<longleftrightarrow> n < 2 ^ (32 * k)"
proof (induction n arbitrary: k rule: to_u32_digits.induct)
  case (1 n)
  show ?case
  proof (cases "n = 0 \<or> k = 0")
    case True
    then show ?thesis by (subst to_u32_digits.simps) auto
  next
    case False
    then obtain k' where k: "k = Suc k'" by (cases k) auto
    have "n div 2 ^ 32 < 2 ^ (32 * k') \<longleftrightarrow> n < 2 ^ (32 * k)"
      by (simp add: k div_less_iff_less_mult power_add mult.commute)
    then show ?thesis using 1 False k by (subst to_u32_digits.simps) simp
  qed
qed

lemma pad_to_u32_digits:
  assumes "n < 2 ^ (32 * k)"
  shows "to_u32_digits n @ replicate (k - length (to_u32_digits n)) 0 = limbs_of k n"
proof -
  let ?ls = "to_u32_digits n @ replicate (k - length (to_u32_digits n)) 0"
  have "length ?ls = k" using assms length_to_u32_digits by auto
  moreover have "\<forall>l \<in> set ?ls. l < 2 ^ 32" using to_u32_digits_less by auto
  moreover have "limbs_val ?ls = n" by (simp add: limbs_val_append to_u32_digits_val)
  ultimately show ?thesis using limbs_of_val [of ?ls] by metis
qed

lemma set_biguint_target_iff:
  "set_biguint_target k v = Inr ls \<longleftrightarrow> v < 2 ^ (32 * k) \<and> ls = map of_nat (limbs_of k v)"
proof (cases "v < 2 ^ (32 * k)")
  case True
  then show ?thesis
    using pad_to_u32_digits [OF True] length_to_u32_digits [of v k]
    unfolding set_biguint_target_def Let_def ensure_Inr_iff by (metis sum.inject(2))
next
  case False
  then show ?thesis using length_to_u32_digits [of v k] by (simp add: set_biguint_target_def)
qed

lemma get_biguint_target_val: "get_biguint_target limbs = limbs_val (map canon limbs)"
proof -
  have "foldl (\<lambda>acc limb. acc * 2 ^ 32 + canon limb) 0 (rev limbs) = limbs_val (map canon limbs)"
    by (induction limbs) (simp_all add: mult.commute)
  then show ?thesis by (simp add: get_biguint_target_def)
qed

lemma canon_small_limbs: "\<forall>l \<in> set ls. l < 2 ^ 32 \<Longrightarrow> map canon (map of_nat ls) = ls"
  by (induction ls) simp_all

lemma get_set_biguint: "set_biguint_target k v = Inr ls \<Longrightarrow> get_biguint_target ls = v"
  using limbs_of_less [of k v]
  by (simp only: set_biguint_target_iff get_biguint_target_val canon_small_limbs limbs_val_of) simp

lemma of_nat_limbs_of_inject:
  "v < 2 ^ (32 * k) \<Longrightarrow> w < 2 ^ (32 * k) \<Longrightarrow>
     map of_nat (limbs_of k v) = (map of_nat (limbs_of k w) :: gf list) \<longleftrightarrow> v = w"
  by (metis set_biguint_target_iff get_set_biguint)

subsection \<open>Limbs of big-endian bytes and bits\<close>

lemma from_be_bytes_val: "from_be_bytes a b c d = from_bytes_be [a, b, c, d]"
  by (simp add: from_be_bytes_def from_bytes_be_def algebra_simps)

lemma to_u32_limbs_snoc:
  assumes "length bs = 4 * k" "length ws = 4"
  shows "to_u32_limbs_le (Attribute (bs @ ws)) = from_bytes_be ws # to_u32_limbs_le (Attribute bs)"
proof -
  obtain a b c d where ws: "ws = [a, b, c, d]" using assms(2) by (auto simp: length_Suc_conv numeral_eq_Suc)
  let ?f = "\<lambda>xs i. let start = length xs - (i + 1) * 4 in
      from_be_bytes (xs ! start) (xs ! (start + 1)) (xs ! (start + 2)) (xs ! (start + 3))"
  have "?f (bs @ ws) 0 = from_be_bytes a b c d" by (simp add: ws nth_append)
  moreover have "?f (bs @ ws) (Suc i) = ?f bs i" if "i < k" for i
  proof -
    have "length (bs @ ws) - (Suc i + 1) * 4 = length bs - (i + 1) * 4" by (simp add: ws)
    moreover have "length bs - (i + 1) * 4 + 3 < length bs" using that assms(1) by simp
    ultimately show ?thesis by (simp add: nth_append Let_def)
  qed
  ultimately have "map (?f (bs @ ws)) [0..<Suc k] = from_be_bytes a b c d # map (?f bs) [0..<k]"
    by (simp add: upt_conv_Cons map_Suc_upt [symmetric] del: upt_Suc)
  moreover have "to_u32_limbs_le (Attribute xs) = map (?f xs) [0..<length xs div 4]" for xs
    by (simp add: to_u32_limbs_le_def Let_def)
  moreover have "length (bs @ ws) div 4 = Suc k" "length bs div 4 = k" using assms by simp_all
  ultimately show ?thesis by (simp only: ws from_be_bytes_val)
qed

lemma limbs_le_val: "length bs = 4 * k \<Longrightarrow> to_u32_limbs_le (Attribute bs) = limbs_of k (from_bytes_be bs)"
proof (induction k arbitrary: bs)
  case 0
  then show ?case by (simp add: to_u32_limbs_le_def limbs_of_def)
next
  case (Suc k)
  let ?i = "take (4 * k) bs" and ?w = "drop (4 * k) bs"
  have l: "length ?i = 4 * k" "length ?w = 4" using Suc.prems by simp_all
  have w: "from_bytes_be ?w < 2 ^ 32" using from_bytes_be_less [of ?w] l by simp
  have "from_bytes_be (?i @ ?w) = from_bytes_be ?i * 2 ^ 32 + from_bytes_be ?w"
    unfolding from_bytes_be_append l by simp
  then have "from_bytes_be bs mod 2 ^ 32 = from_bytes_be ?w" "from_bytes_be bs div 2 ^ 32 = from_bytes_be ?i"
    using w by simp_all
  then show ?case
    using to_u32_limbs_snoc [OF l] Suc.IH [OF l(1)] by (simp only: limbs_of_Suc append_take_drop_id)
qed

lemma bits_val_take: "bits_val (take n bs) = bits_val bs mod 2 ^ n"
  by (simp add: bits_val_def take_bit_horner_sum_bit_eq [symmetric] take_bit_eq_mod)

lemma limbs_of_bits: "i < k \<Longrightarrow> limbs_of k (bits_val bs) ! i = bits_val (take 32 (drop (32 * i) bs))"
  by (simp add: limbs_of_def bits_val_take bits_val_drop)

end
