(* ===== verification/Scalar_Conversion.thy ===== *)
theory Scalar_Conversion
  imports Biguint Sha256_Varlen
begin

text \<open>
  \<open>src/circuits/gadgets/scalar_conversion.rs\<close> and \<open>src/circuits/gadgets/ecdsa.rs\<close>: the 256 bits
  of a digest as the limbs of a scalar, the targets of a signature check with the issuer key as
  public input, and the wiring between them.  The in-circuit signature check itself is the
  argument \<open>verify_p256\<close> of \<open>make_ecdsa_circuit\<close>.
\<close>

record digest_to_scalar =
  digest_bits_targets :: "gf list"
  expected_scalar :: "gf list"

definition make_digest_to_scalar_circuit :: "digest_to_scalar \<Rightarrow> bool" where
  "make_digest_to_scalar_circuit t \<longleftrightarrow>
     length (digest_bits_targets t) = 256
   \<and> (\<forall>b \<in> set (digest_bits_targets t). b * b - b = 0)
   \<and> length (expected_scalar t) = 8
   \<and> list_all (\<lambda>limb_idx.
       foldl (\<lambda>limb bit_in_limb. limb + digest_bits_targets t ! (255 - (limb_idx * 32 + bit_in_limb)) * of_nat (2 ^ bit_in_limb))
         0 [0..<32] = expected_scalar t ! limb_idx) [0..<8]"

definition fill_digest_to_scalar_witness :: "bytes \<Rightarrow> nat \<Rightarrow> digest_to_scalar res" where
  "fill_digest_to_scalar_witness digest scalar =
     (let digest_bits_val = msg_bits digest in
      bind_res (set_biguint_target 8 scalar) (\<lambda>limbs.
      Inr \<lparr>digest_bits_targets = map of_bool digest_bits_val, expected_scalar = limbs\<rparr>))"

text \<open>A signature check in a circuit: message limbs, signature limbs, key limbs.\<close>

type_synonym ecdsa_verifier = "gf list \<Rightarrow> gf list \<times> gf list \<Rightarrow> gf list \<times> gf list \<Rightarrow> unit circuit"

record ecdsa_circuit =
  ec_issuer_pk :: "gf list \<times> gf list"
  ec_msg :: "gf list"
  ec_sig :: "gf list \<times> gf list"
  ec_private :: "gf list"

definition accepts :: "unit circuit \<Rightarrow> gf list \<Rightarrow> bool" where
  "accepts c ws \<longleftrightarrow> c ws = Some ((), [])"

definition make_ecdsa_circuit :: "ecdsa_verifier \<Rightarrow> ecdsa_circuit \<Rightarrow> bool" where
  "make_ecdsa_circuit verify_p256 t \<longleftrightarrow>
     length (ec_msg t) = 8 \<and> length (fst (ec_sig t)) = 8 \<and> length (snd (ec_sig t)) = 8
   \<and> length (fst (ec_issuer_pk t)) = 8 \<and> length (snd (ec_issuer_pk t)) = 8
   \<and> accepts (verify_p256 (ec_msg t) (ec_sig t) (ec_issuer_pk t)) (ec_private t)"

definition register_pk_as_pi :: "ecdsa_circuit \<Rightarrow> gf list" where
  "register_pk_as_pi t = (case ec_issuer_pk t of (x, y) \<Rightarrow> x @ y)"

definition wire_digest_to_ecdsa :: "gf list \<Rightarrow> digest_to_scalar \<Rightarrow> ecdsa_circuit \<Rightarrow> bool" where
  "wire_digest_to_ecdsa digest_bits d e \<longleftrightarrow>
     length digest_bits = length (digest_bits_targets d)
   \<and> list_all (\<lambda>(h, t). h = t) (zip digest_bits (digest_bits_targets d))
   \<and> length (expected_scalar d) = length (ec_msg e)
   \<and> list_all (\<lambda>(lhs, rhs). lhs = rhs) (zip (expected_scalar d) (ec_msg e))"

subsection \<open>The scalar of a digest\<close>

lemma assert_bool_iff: "b * b - b = 0 \<longleftrightarrow> b = 0 \<or> b = (1 :: gf)"
proof -
  have "b * b - b = b * (b - 1)" by (simp add: algebra_simps)
  then show ?thesis by simp
qed

lemma map_of_bool_inject: "map of_bool xs = (map of_bool ys :: gf list) \<longleftrightarrow> xs = ys"
  by (rule inj_map_eq_map) (simp add: inj_def of_bool_eq_iff)

lemma foldl_weighted_bits:
  "foldl (\<lambda>limb k. limb + f k * of_nat (2 ^ k)) (0 :: gf) [0..<n] = reduce_with_powers (map f [0..<n]) 2"
proof (induction n)
  case (Suc n)
  then show ?case by (simp add: reduce_with_powers_append mult.commute)
qed simp

lemma digest_to_scalar_iff:
  "make_digest_to_scalar_circuit t \<longleftrightarrow>
     (\<exists>bs. length bs = 256 \<and> t = \<lparr>digest_bits_targets = map of_bool bs, expected_scalar = map of_nat (limbs_of 8 (bits_val (rev bs)))\<rparr>)"
proof -
  have limb: "foldl (\<lambda>limb k. limb + map of_bool bs ! (255 - (i * 32 + k)) * of_nat (2 ^ k)) 0 [0..<32]
      = (of_nat (limbs_of 8 (bits_val (rev bs)) ! i) :: gf)" if "length bs = 256" "i < 8" for bs i
  proof -
    have "map of_bool bs ! (255 - (i * 32 + k)) = (of_bool (rev bs ! (32 * i + k)) :: gf)" if "k < 32" for k
      using that \<open>length bs = 256\<close> \<open>i < 8\<close> by (simp add: rev_nth mult.commute)
    then have "map (\<lambda>k. map of_bool bs ! (255 - (i * 32 + k))) [0..<32] = (map of_bool (take 32 (drop (32 * i) (rev bs))) :: gf list)"
      using that by (intro nth_equalityI) (simp_all del: upt_Suc)
    then show ?thesis
      unfolding foldl_weighted_bits limbs_of_bits [OF that(2)] by (simp only: reduce_of_bools)
  qed
  show ?thesis
  proof
    assume m: "make_digest_to_scalar_circuit t"
    then obtain bs where bs: "digest_bits_targets t = map of_bool bs"
      using boolean_wires [of "digest_bits_targets t"] unfolding make_digest_to_scalar_circuit_def assert_bool_iff by blast
    have l: "length bs = 256" using m bs by (simp add: make_digest_to_scalar_circuit_def)
    have "expected_scalar t = map of_nat (limbs_of 8 (bits_val (rev bs)))"
      using m limb [OF l] by (intro nth_equalityI) (auto simp: make_digest_to_scalar_circuit_def list_all_iff bs(1) simp del: upt_Suc)
    then show "\<exists>bs. length bs = 256 \<and> t = \<lparr>digest_bits_targets = map of_bool bs, expected_scalar = map of_nat (limbs_of 8 (bits_val (rev bs)))\<rparr>"
      using bs l by (intro exI [of _ bs]) (simp add: digest_to_scalar.equality)
  next
    assume "\<exists>bs. length bs = 256 \<and> t = \<lparr>digest_bits_targets = map of_bool bs, expected_scalar = map of_nat (limbs_of 8 (bits_val (rev bs)))\<rparr>"
    then obtain bs where bs: "length bs = 256"
        "t = \<lparr>digest_bits_targets = map of_bool bs, expected_scalar = map of_nat (limbs_of 8 (bits_val (rev bs)))\<rparr>" by blast
    show "make_digest_to_scalar_circuit t"
      using limb [OF bs(1)] by (auto simp: make_digest_to_scalar_circuit_def bs list_all_iff of_bool_def simp del: upt_Suc)
  qed
qed

subsection \<open>Digests as bytes\<close>

lemma bits_val_rev_append: "bits_val (rev (xs @ ys)) = bits_val (rev ys) + 2 ^ length ys * bits_val (rev xs)"
  by (simp add: bits_val_def horner_sum_append)

lemma rev_byte_bits: "rev (byte_bits b) = map (bit b) [0..<8]"
proof (rule nth_equalityI)
  fix i assume "i < length (rev (byte_bits b))"
  then have "i < 8" "7 - i < 8" by (simp_all add: byte_bits_def)
  then show "rev (byte_bits b) ! i = map (bit b) [0..<8] ! i"
    by (simp add: byte_bits_def rev_nth del: upt_Suc)
qed (simp add: byte_bits_def)

lemma bits_val_byte: "bits_val (rev (byte_bits b)) = unat b"
proof -
  have "rev (byte_bits b) = map (bit b) [0..<8]"
    by (rule rev_byte_bits)
  then have "bits_val (rev (byte_bits b)) = (horner_sum of_bool 2 (map (bit b) [0..<8]) :: nat)" by (simp add: bits_val_def)
  also have "\<dots> = unat b"
  proof (rule bit_eqI)
    fix n
    have "bit b n \<Longrightarrow> n < 8" using bit_imp_le_length [of b n] by simp
    then show "bit (horner_sum of_bool 2 (map (bit b) [0..<8]) :: nat) n \<longleftrightarrow> bit (unat b) n"
      by (auto simp: bit_horner_sum_bit_iff bit_unsigned_iff simp del: upt_Suc upt_rec_numeral)
  qed
  finally show ?thesis .
qed

lemma bits_val_msg_bits: "bits_val (rev (msg_bits bs)) = from_bytes_be bs"
proof (induction bs rule: rev_induct)
  case (snoc b bs)
  have "msg_bits (bs @ [b]) = msg_bits bs @ byte_bits b" by (simp add: msg_bits_def)
  then show ?case
    using snoc by (simp only: bits_val_rev_append bits_val_byte from_bytes_be_append) simp
qed (simp add: msg_bits_def)

lemma msg_bits_append: "msg_bits (xs @ ys) = msg_bits xs @ msg_bits ys"
  by (simp add: msg_bits_def)

lemma msg_bits_take: "msg_bits (take n bs) = take (8 * n) (msg_bits bs)"
proof (induction bs arbitrary: n)
  case (Cons b bs)
  then show ?case by (cases n) (simp_all add: msg_bits_def)
qed (simp add: msg_bits_def)

lemma msg_bits_drop: "msg_bits (drop n bs) = drop (8 * n) (msg_bits bs)"
proof (induction bs arbitrary: n)
  case (Cons b bs)
  then show ?case by (cases n) (simp_all add: msg_bits_def)
qed (simp add: msg_bits_def)

lemma byte_of_byte_bits: "byte_of_bits (byte_bits b) = b"
  unfolding byte_of_bits_def rev_byte_bits
  by (rule bit_eqI) (simp add: bit_horner_sum_bit_word_iff del: upt_Suc)

lemma nth_msg_bits: "i < length bs \<Longrightarrow> take 8 (drop (8 * i) (msg_bits bs)) = byte_bits (bs ! i)"
proof -
  assume i: "i < length bs"
  have "take (8 * 1) (drop (8 * i) (msg_bits bs)) = msg_bits (take 1 (drop i bs))"
    by (simp only: msg_bits_take msg_bits_drop)
  also have "take 1 (drop i bs) = [bs ! i]" using i by (simp add: take_Suc hd_drop_conv_nth)
  finally show ?thesis by (simp add: msg_bits_def)
qed

lemma msg_bits_inject: "msg_bits xs = msg_bits ys \<longleftrightarrow> xs = ys"
proof
  assume e: "msg_bits xs = msg_bits ys"
  then have l: "length xs = length ys" by (metis length_msg_bits mult_left_cancel zero_neq_numeral)
  show "xs = ys"
  proof (rule nth_equalityI [OF l])
    fix i assume i: "i < length xs"
    then have "byte_bits (xs ! i) = byte_bits (ys ! i)" using e l nth_msg_bits by metis
    then show "xs ! i = ys ! i" using byte_of_byte_bits by metis
  qed
qed simp

lemma msg_bits_sha256: "msg_bits (sha256 msg) = sha256_bits msg"
proof -
  have "length (sha256_bits msg) = 8 * 32" by simp
  then obtain d where d: "length d = 32" "msg_bits d = sha256_bits msg" using msg_bits_surj by metis
  have "sha256 msg = map (\<lambda>i. byte_of_bits (take 8 (drop (8 * i) (msg_bits d)))) [0..<length d]"
    by (simp only: sha256_def d)
  also have "\<dots> = map (\<lambda>i. d ! i) [0..<length d]"
    by (rule map_cong) (simp_all add: nth_msg_bits byte_of_byte_bits)
  also have "\<dots> = d" by (rule map_nth)
  finally show ?thesis using d by simp
qed

lemma length_sha256 [simp]: "length (sha256 msg) = 32"
  by (simp add: sha256_def)

text \<open>
  The digest of a message, as the circuit carries it, and the scalar the prover fills: they agree
  when the digest is below the group order.
\<close>

lemma fill_digest_to_scalar:
  assumes "fill_digest_to_scalar_witness digest scalar = Inr t" "length digest = 32"
  shows "make_digest_to_scalar_circuit t \<longleftrightarrow> scalar = from_bytes_be digest"
proof -
  have "scalar < 2 ^ (32 * 8)" and t: "t = \<lparr>digest_bits_targets = map of_bool (msg_bits digest), expected_scalar = map of_nat (limbs_of 8 scalar)\<rparr>"
    using assms(1) by (auto simp: fill_digest_to_scalar_witness_def set_biguint_target_iff Let_def)
  moreover have "from_bytes_be digest < 2 ^ (32 * 8)" using from_bytes_be_less [of digest] assms(2) by simp
  ultimately have lim: "(map of_nat (limbs_of 8 scalar) :: gf list) = map of_nat (limbs_of 8 (from_bytes_be digest)) \<longleftrightarrow> scalar = from_bytes_be digest"
    by (intro of_nat_limbs_of_inject)
  have "make_digest_to_scalar_circuit t \<longleftrightarrow> (\<exists>bs. length bs = 256 \<and> bs = msg_bits digest
      \<and> (map of_nat (limbs_of 8 scalar) :: gf list) = map of_nat (limbs_of 8 (bits_val (rev bs))))"
    unfolding digest_to_scalar_iff t digest_to_scalar.ext_inject map_of_bool_inject by metis
  also have "\<dots> \<longleftrightarrow> scalar = from_bytes_be digest"
    using lim assms(2) by (auto simp: bits_val_msg_bits simp del: upt_Suc)
  finally show ?thesis .
qed

end
