(* ===== verification/Jwt.thy ===== *)
theory Jwt
  imports Cnf Commitment
begin

text \<open>
  \<open>src/credential/jwt.rs\<close>: the layout of a JWT credential, building and signing one from claims,
  the compact file form and loading it back.  Strings are their UTF-8 bytes.  The coding of the
  \<open>base64\<close> crate, the hash of the \<open>sha2\<close> crate, the signer (which draws a random nonce), the
  signature check and the fixed key pairs are arguments; reading and writing the file and
  trimming its text are left to the caller.
\<close>

subsection \<open>Constants\<close>

definition JWT_HEADER_JSON :: bytes where
  "JWT_HEADER_JSON = bytes_of_string ''{\"alg\":\"ES256\",\"typ\":\"JWT\"}''"

definition JWT_ISS_VALUE :: bytes where
  "JWT_ISS_VALUE = bytes_of_string ''https://server.example.com''"

definition JWT_ISS_MAX_VALUE_LEN :: nat where
  "JWT_ISS_MAX_VALUE_LEN = 28"

definition JWT_IAT_MAX_VALUE_LEN :: nat where
  "JWT_IAT_MAX_VALUE_LEN = 12"

definition JWT_IAT_DEFAULT :: bytes where
  "JWT_IAT_DEFAULT = bytes_of_string ''1311280970''"

definition POP_CHALLENGE_BYTES :: bytes where
  "POP_CHALLENGE_BYTES = bytes_of_string ''delegatable-ECDSA-PoP-v1''"

definition pop_message_scalar :: "(bytes \<Rightarrow> bytes) \<Rightarrow> nat res" where
  "pop_message_scalar sha256_digest = hash_to_scalar sha256_digest POP_CHALLENGE_BYTES"

lemma jwt_constant_lengths [simp, size_simps]:
  "length JWT_HEADER_JSON = 27" "length JWT_ISS_VALUE = 26" "length JWT_IAT_DEFAULT = 10"
  "JWT_ISS_MAX_VALUE_LEN = 28" "JWT_IAT_MAX_VALUE_LEN = 12"
  by (simp_all add: JWT_HEADER_JSON_def JWT_ISS_VALUE_def JWT_IAT_DEFAULT_def
      JWT_ISS_MAX_VALUE_LEN_def JWT_IAT_MAX_VALUE_LEN_def)

subsection \<open>Data\<close>

record jwt_layout =
  jl_claim_keys :: "bytes list"
  jl_max_key_len :: nat
  jl_max_value_len :: nat
  jl_attribute_len_bytes :: nat
  jl_max_msg_len_bytes :: nat
  jl_max_payload_b64_len :: nat
  jl_payload_b64_byte_offset :: nat
  jl_header_b64_len :: nat
  jl_max_decoded_payload_len :: nat

record ecdsa_signature =
  sig_r :: nat
  sig_s :: nat

record jwt_credential =
  jc_header_b64 :: bytes
  jc_payload_b64 :: bytes
  jc_jwt_message_bytes :: bytes
  jc_signature :: ecdsa_signature
  jc_message_hash :: nat
  jc_issuer_pk :: affine_point
  jc_claims :: "claim_position list"
  jc_decoded_payload :: bytes
  jc_cred_sk :: nat
  jc_cred_pk :: affine_point
  jc_attributes :: "attribute list"
  jc_claim_keys :: "bytes list"
  jc_max_key_len :: nat
  jc_max_value_len :: nat
  jc_iss :: bytes
  jc_iat :: bytes
  jc_iss_claim :: claim_position
  jc_iat_claim :: claim_position
  jc_cnf_start :: nat

subsection \<open>The payload\<close>

text \<open>\<open>[parts].join(sep)\<close>\<close>

fun join_with :: "bytes \<Rightarrow> bytes list \<Rightarrow> bytes" where
  "join_with sep [] = []"
| "join_with sep [p] = p"
| "join_with sep (p # q # ps) = p @ sep @ join_with sep (q # ps)"

definition json_pair :: "bytes \<Rightarrow> bytes \<Rightarrow> bytes" where
  "json_pair key val = [0x22] @ key @ [0x22, 0x3A, 0x22] @ val @ [0x22]"

definition build_payload_json :: "bytes list \<Rightarrow> bytes list \<Rightarrow> bytes \<Rightarrow> bytes \<Rightarrow> bytes \<Rightarrow> bytes \<Rightarrow> bytes" where
  "build_payload_json claim_keys claim_values iss iat cred_pk_x_b64 cred_pk_y_b64 =
     (let parts = [json_pair (bytes_of_string ''iss'') iss];
          parts = parts @ [json_pair (bytes_of_string ''iat'') iat];
          parts = parts @ [build_cnf_block cred_pk_x_b64 cred_pk_y_b64];
          parts = parts @ map (\<lambda>(key, val). json_pair key val) (zip claim_keys claim_values)
      in [0x7B] @ join_with [0x2C] parts @ [0x7D])"

subsection \<open>Layouts\<close>

fun dec_digits :: "nat \<Rightarrow> bytes" where
  "dec_digits n = (if n < 10 then [of_nat (48 + n)] else dec_digits (n div 10) @ [of_nat (48 + n mod 10)])"

declare dec_digits.simps [simp del]

definition synthetic_key :: "nat \<Rightarrow> bytes" where
  "synthetic_key i = bytes_of_string ''claim_'' @ (let d = dec_digits i in replicate (2 - length d) 48 @ d)"

definition generate_jwt_layout_inner :: "(bytes \<Rightarrow> bytes) \<Rightarrow> bytes list \<Rightarrow> nat \<Rightarrow> jwt_layout res" where
  "generate_jwt_layout_inner encode claim_keys max_value_len =
     (let max_key_among = foldl max 0 (map length claim_keys);
          max_key_len = div_ceil max_key_among 4 * 4;
          attribute_len_bytes = max_key_len + max_value_len;
          header_b64 = base64url_encode encode JWT_HEADER_JSON;
          header_b64_len = length header_b64;
          max_claim_values = map (\<lambda>_. replicate max_value_len 0x78) [0..<length claim_keys];
          max_iss = replicate JWT_ISS_MAX_VALUE_LEN 0x78;
          max_iat = replicate JWT_IAT_MAX_VALUE_LEN 0x78;
          x_placeholder = replicate B64URL_COORD_LEN 0x78;
          y_placeholder = replicate B64URL_COORD_LEN 0x78;
          payload_json = build_payload_json claim_keys max_claim_values max_iss max_iat x_placeholder y_placeholder;
          decoded_len = length payload_json;
          max_decoded_payload_len = div_ceil decoded_len 3 * 3;
          padded = resize max_decoded_payload_len 0 payload_json;
          payload_b64 = base64url_encode encode padded;
          max_payload_b64_len = length payload_b64;
          payload_b64_byte_offset = header_b64_len + 1;
          max_msg_len_bytes = header_b64_len + 1 + max_payload_b64_len
      in Inr \<lparr>jl_claim_keys = claim_keys, jl_max_key_len = max_key_len, jl_max_value_len = max_value_len,
              jl_attribute_len_bytes = attribute_len_bytes, jl_max_msg_len_bytes = max_msg_len_bytes,
              jl_max_payload_b64_len = max_payload_b64_len, jl_payload_b64_byte_offset = payload_b64_byte_offset,
              jl_header_b64_len = header_b64_len, jl_max_decoded_payload_len = max_decoded_payload_len\<rparr>)"

definition generate_empty_jwt_layout :: "(bytes \<Rightarrow> bytes) \<Rightarrow> nat \<Rightarrow> nat \<Rightarrow> jwt_layout res" where
  "generate_empty_jwt_layout encode num_claims max_value_len =
     (if num_claims = 0 then Inl (Bail ''num_claims must be at least 1'')
      else bind_res (ensure_valid_attribute_len_bytes max_value_len) (\<lambda>_.
        generate_jwt_layout_inner encode (map synthetic_key [0..<num_claims]) max_value_len))"

definition generate_jwt_layout_with_keys :: "(bytes \<Rightarrow> bytes) \<Rightarrow> bytes list \<Rightarrow> nat \<Rightarrow> jwt_layout res" where
  "generate_jwt_layout_with_keys encode claim_keys max_value_len =
     (if length claim_keys = 0 then Inl (Bail ''claim_keys must be non-empty'')
      else bind_res (ensure_valid_attribute_len_bytes max_value_len) (\<lambda>_.
        generate_jwt_layout_inner encode claim_keys max_value_len))"

subsection \<open>Issuing\<close>

definition jwt_attribute :: "jwt_layout \<Rightarrow> bytes \<Rightarrow> bytes \<Rightarrow> attribute res" where
  "jwt_attribute layout key val =
     (let attr_bytes = key;
          attr_bytes = resize (jl_max_key_len layout) 0 attr_bytes;
          attr_bytes = attr_bytes @ val;
          attr_bytes = resize (jl_attribute_len_bytes layout) 0 attr_bytes
      in attribute_from_vec attr_bytes)"

type_synonym key_pair = "nat \<times> affine_point"

definition build_jwt_credential ::
    "(bytes \<Rightarrow> bytes) \<Rightarrow> (bytes \<Rightarrow> bytes) \<Rightarrow> (nat \<Rightarrow> nat \<Rightarrow> ecdsa_signature) \<Rightarrow> key_pair \<Rightarrow>
     nat \<Rightarrow> affine_point \<Rightarrow> jwt_layout \<Rightarrow> bytes list \<Rightarrow> bytes list \<Rightarrow> bytes \<Rightarrow> bytes \<Rightarrow> jwt_credential res" where
  "build_jwt_credential encode sha256_digest sign fixed_cred_keypair issuer_sk issuer_pk layout claim_keys claim_values iss iat =
     (let (cred_sk, cred_pk) = fixed_cred_keypair;
          (x_b64, y_b64) = pk_coords_to_base64url encode cred_pk;
          header_b64 = base64url_encode encode JWT_HEADER_JSON;
          payload_json = build_payload_json claim_keys claim_values iss iat x_b64 y_b64;
          decoded_payload = payload_json in
      ensure (length decoded_payload \<le> jl_max_decoded_payload_len layout) (Panic ''payload too large for layout'')
     (let payload_b64 = base64url_encode encode decoded_payload in
      ensure (length payload_b64 \<le> jl_max_payload_b64_len layout) (Panic ''payload Base64 length too large for layout'')
     (let jwt_message_bytes = header_b64 @ [0x2E] @ payload_b64 in
      bind_res (hash_to_scalar sha256_digest jwt_message_bytes) (\<lambda>message_hash.
      let signature = sign message_hash issuer_sk in
      bind_res (map_res (find_claim_position decoded_payload) claim_keys) (\<lambda>claims.
      bind_res (find_claim_position decoded_payload (bytes_of_string ''iss'')) (\<lambda>iss_claim.
      bind_res (find_claim_position decoded_payload (bytes_of_string ''iat'')) (\<lambda>iat_claim.
      bind_res (find_cnf_start decoded_payload) (\<lambda>cnf_start.
      bind_res (map_res (\<lambda>(key, val). jwt_attribute layout key val) (zip claim_keys claim_values)) (\<lambda>attributes.
      Inr \<lparr>jc_header_b64 = header_b64, jc_payload_b64 = payload_b64, jc_jwt_message_bytes = jwt_message_bytes,
           jc_signature = signature, jc_message_hash = message_hash, jc_issuer_pk = issuer_pk, jc_claims = claims,
           jc_decoded_payload = decoded_payload, jc_cred_sk = cred_sk, jc_cred_pk = cred_pk, jc_attributes = attributes,
           jc_claim_keys = claim_keys, jc_max_key_len = jl_max_key_len layout, jc_max_value_len = jl_max_value_len layout,
           jc_iss = iss, jc_iat = iat, jc_iss_claim = iss_claim, jc_iat_claim = iat_claim, jc_cnf_start = cnf_start\<rparr>)))))))))"

definition dummy_claim_value :: "nat \<Rightarrow> nat \<Rightarrow> bytes" where
  "dummy_claim_value max_value_len i =
     (let len = (i * 7 + 3) mod max_value_len + 1; base_char = 97 + (of_nat i mod 26) in replicate len base_char)"

definition generate_dummy_jwt ::
    "(bytes \<Rightarrow> bytes) \<Rightarrow> (bytes \<Rightarrow> bytes) \<Rightarrow> (nat \<Rightarrow> nat \<Rightarrow> ecdsa_signature) \<Rightarrow> key_pair \<Rightarrow>
     nat \<Rightarrow> affine_point \<Rightarrow> nat \<Rightarrow> nat \<Rightarrow> jwt_credential res" where
  "generate_dummy_jwt encode sha256_digest sign fixed_cred_keypair issuer_sk issuer_pk num_claims max_value_len =
     bind_res (generate_empty_jwt_layout encode num_claims max_value_len) (\<lambda>layout.
     let claim_values = map (dummy_claim_value max_value_len) [0..<num_claims] in
     build_jwt_credential encode sha256_digest sign fixed_cred_keypair issuer_sk issuer_pk layout (jl_claim_keys layout) claim_values
       JWT_ISS_VALUE JWT_IAT_DEFAULT)"

definition generate_jwt_from_claims ::
    "(bytes \<Rightarrow> bytes) \<Rightarrow> (bytes \<Rightarrow> bytes) \<Rightarrow> (nat \<Rightarrow> nat \<Rightarrow> ecdsa_signature) \<Rightarrow> key_pair \<Rightarrow>
     nat \<Rightarrow> affine_point \<Rightarrow> bytes list \<Rightarrow> bytes list \<Rightarrow> nat \<Rightarrow> jwt_credential res" where
  "generate_jwt_from_claims encode sha256_digest sign fixed_cred_keypair issuer_sk issuer_pk claim_keys claim_values max_value_len =
     ensure (length claim_keys = length claim_values) (Bail ''claim_keys and claim_values must have the same length'')
    (bind_res (map_res (\<lambda>(key, val).
        ensure (val \<noteq> []) (Bail ''claim value must not be empty'')
       (ensure (length val \<le> max_value_len) (Bail ''claim value length exceeds max_value_len'') (Inr ())))
       (zip claim_keys claim_values)) (\<lambda>_.
     bind_res (generate_jwt_layout_with_keys encode claim_keys max_value_len) (\<lambda>layout.
     build_jwt_credential encode sha256_digest sign fixed_cred_keypair issuer_sk issuer_pk layout claim_keys claim_values
       JWT_ISS_VALUE JWT_IAT_DEFAULT)))"

definition padded_payload_b64 :: "jwt_credential \<Rightarrow> nat \<Rightarrow> bytes res" where
  "padded_payload_b64 jwt max_len =
     ensure (length (jc_payload_b64 jwt) \<le> max_len) (Panic ''payload_b64 exceeds max_len'')
       (Inr (resize max_len 0x41 (jc_payload_b64 jwt)))"

definition padded_decoded_payload :: "jwt_credential \<Rightarrow> nat \<Rightarrow> bytes" where
  "padded_decoded_payload jwt target_len = resize target_len 0 (jc_decoded_payload jwt)"

subsection \<open>The compact form\<close>

definition scalar_to_be32 :: "nat \<Rightarrow> bytes" where
  "scalar_to_be32 scalar =
     (let bs = to_bytes_be scalar in if length bs < 32 then replicate (32 - length bs) 0 @ bs else bs)"

definition compact_jwt :: "(bytes \<Rightarrow> bytes) \<Rightarrow> jwt_credential \<Rightarrow> bytes res" where
  "compact_jwt encode jwt =
     ensure (utf8_valid (jc_header_b64 jwt)) (Bail ''utf8'')
    (ensure (utf8_valid (jc_payload_b64 jwt)) (Bail ''utf8'')
    (let sig_bytes = scalar_to_be32 (sig_r (jc_signature jwt)) @ scalar_to_be32 (sig_s (jc_signature jwt));
         sig_str = base64url_encode encode sig_bytes in
     ensure (utf8_valid sig_str) (Bail ''utf8'')
       (Inr (jc_header_b64 jwt @ [0x2E] @ jc_payload_b64 jwt @ [0x2E] @ sig_str))))"

text \<open>\<open>str::split\<close> at a byte.\<close>

fun split_on :: "u8 \<Rightarrow> bytes \<Rightarrow> bytes list" where
  "split_on c [] = [[]]"
| "split_on c (x # xs) =
     (if x = c then [] # split_on c xs else case split_on c xs of [] \<Rightarrow> [[x]] | p # ps \<Rightarrow> (x # p) # ps)"

definition from_compact_jwt ::
    "(bytes \<Rightarrow> bytes option) \<Rightarrow> (bytes \<Rightarrow> bytes) \<Rightarrow> (nat \<Rightarrow> ecdsa_signature \<Rightarrow> affine_point \<Rightarrow> bool) \<Rightarrow> key_pair \<Rightarrow> affine_point \<Rightarrow>
     bytes \<Rightarrow> jwt_layout \<Rightarrow> jwt_credential res" where
  "from_compact_jwt decode sha256_digest verify_sig fixed_cred_keypair fixed_issuer_pk compact layout =
     (let parts = split_on 0x2E compact in
      ensure (length parts = 3) (Bail ''compact JWT must have exactly 3 dot-separated parts'')
     (let header_b64 = parts ! 0;
          payload_b64 = parts ! 1;
          jwt_message_bytes = header_b64 @ [0x2E] @ payload_b64 in
      bind_res (hash_to_scalar sha256_digest jwt_message_bytes) (\<lambda>message_hash.
      bind_res (base64url_decode decode (parts ! 2)) (\<lambda>sig_bytes.
      ensure (length sig_bytes = 64) (Bail ''signature must be 64 bytes'')
     (bind_res (byte_array_to_scalar (take 32 sig_bytes)) (\<lambda>r.
      bind_res (byte_array_to_scalar (drop 32 sig_bytes)) (\<lambda>s.
      let signature = \<lparr>sig_r = r, sig_s = s\<rparr> in
      ensure (verify_sig message_hash signature fixed_issuer_pk) (Bail ''JWT signature verification failed'')
     (bind_res (base64url_decode decode payload_b64) (\<lambda>decoded_payload.
      ensure (length decoded_payload \<le> jl_max_decoded_payload_len layout) (Bail ''decoded payload length exceeds layout max'')
     (bind_res (map_res (find_claim_position decoded_payload) (jl_claim_keys layout)) (\<lambda>claims.
      bind_res (find_claim_position decoded_payload (bytes_of_string ''iss'')) (\<lambda>iss_claim.
      bind_res (find_claim_position decoded_payload (bytes_of_string ''iat'')) (\<lambda>iat_claim.
      bind_res (find_cnf_start decoded_payload) (\<lambda>cnf_start.
      bind_res (extract_cnf_coords decoded_payload cnf_start) (\<lambda>(x_b64, y_b64).
      bind_res (base64url_coords_to_pk decode x_b64 y_b64) (\<lambda>cred_pk.
      let (cred_sk, expected_pk) = fixed_cred_keypair in
      ensure (cred_pk = expected_pk) (Panic ''cnf public key in JWT does not match expected fixed credential key'')
     (bind_res (map_res (\<lambda>(key, claim). jwt_attribute layout key (cp_value claim)) (zip (jl_claim_keys layout) claims)) (\<lambda>attributes.
      Inr \<lparr>jc_header_b64 = header_b64, jc_payload_b64 = payload_b64, jc_jwt_message_bytes = jwt_message_bytes,
           jc_signature = signature, jc_message_hash = message_hash, jc_issuer_pk = fixed_issuer_pk, jc_claims = claims,
           jc_decoded_payload = decoded_payload, jc_cred_sk = cred_sk, jc_cred_pk = cred_pk, jc_attributes = attributes,
           jc_claim_keys = jl_claim_keys layout, jc_max_key_len = jl_max_key_len layout, jc_max_value_len = jl_max_value_len layout,
           jc_iss = cp_value iss_claim, jc_iat = cp_value iat_claim, jc_iss_claim = iss_claim, jc_iat_claim = iat_claim,
           jc_cnf_start = cnf_start\<rparr>))))))))))))))))))"

end
