(* ===== verification/Jwt_Base.thy ===== *)
theory Jwt_Base
  imports Scalar_Conversion Jwt Recursion
begin

text \<open>
  The base circuit \<open>R_Base\<close> (\<open>src/circuits/jwt_base.rs\<close>) and its prover.  The record holds the
  values of the targets in \<open>JWTBaseTargets\<close> and of the wires the gadgets allocate themselves
  (\<open>jb_hash_wires\<close>, \<open>ec_private\<close>, \<open>jb_pop_private\<close>), which generators fill.  The signature check
  \<open>verify_p256\<close>, the permutation of the hasher and the coding of the \<open>base64\<close> crate are arguments.
\<close>

subsection \<open>Bytes of the hashed message\<close>

definition byte_from_message_bits :: "gf list \<Rightarrow> nat \<Rightarrow> gf" where
  "byte_from_message_bits message_bits byte_index =
     (let bit_start = byte_index * 8 in
      foldl (\<lambda>byte bit_in_byte. byte + message_bits ! (bit_start + bit_in_byte) * of_nat (2 ^ (7 - bit_in_byte))) 0 [0..<8])"

definition bytes_from_message_bits :: "gf list \<Rightarrow> nat \<Rightarrow> nat \<Rightarrow> gf list" where
  "bytes_from_message_bits message_bits byte_start num_bytes =
     map (\<lambda>i. byte_from_message_bits message_bits (byte_start + i)) [0..<num_bytes]"

definition constrain_jwt_header :: "(bytes \<Rightarrow> bytes) \<Rightarrow> gf list \<Rightarrow> nat \<Rightarrow> bool" where
  "constrain_jwt_header encode message_bits header_b64_len \<longleftrightarrow>
     (let expected_header_b64 = base64url_encode encode JWT_HEADER_JSON in
        length expected_header_b64 = header_b64_len
      \<and> list_all (\<lambda>i. byte_from_message_bits message_bits i = of_nat (unat (expected_header_b64 ! i))) [0..<length expected_header_b64]
      \<and> byte_from_message_bits message_bits header_b64_len = of_nat 0x2E)"

subsection \<open>The payload\<close>

text \<open>\<open>is_active[i]\<close> is the sum of the indicators after \<open>i\<close>, accumulated from the right.\<close>

definition is_active_mask :: "gf list \<Rightarrow> nat \<Rightarrow> gf list" where
  "is_active_mask payload_len_indicator max_payload_b64_len =
     snd (foldl (\<lambda>(cumsum, is_active) i. let cumsum = cumsum + payload_len_indicator ! (i + 1) in (cumsum, is_active[i := cumsum]))
       (0, replicate max_payload_b64_len 0) (rev [0..<max_payload_b64_len]))"

definition payload_consistency :: "gf list \<Rightarrow> gf list \<Rightarrow> gf list \<Rightarrow> nat \<Rightarrow> bool" where
  "payload_consistency b64_input is_active sha256_payload_bytes max_payload_b64_len \<longleftrightarrow>
     (let char_a = of_nat 0x41 in
      list_all (\<lambda>i. let diff = sha256_payload_bytes ! i - char_a;
                       active_contrib = is_active ! i * diff;
                       expected = active_contrib + char_a
                   in b64_input ! i = expected) [0..<max_payload_b64_len])"

definition padded_json_len :: "jwt_layout \<Rightarrow> nat \<Rightarrow> nat" where
  "padded_json_len layout decoded_len =
     (let slice_len = (\<lambda>key_len max_len. let min_ss = key_len + max_len + 7 in div_ceil min_ss 4 * 4 + 4);
          max_user_claim_slice = foldl max 0 (map (\<lambda>k. slice_len (length k) (jl_max_value_len layout)) (jl_claim_keys layout));
          iss_slice = slice_len 3 JWT_ISS_MAX_VALUE_LEN;
          iat_slice = slice_len 3 JWT_IAT_MAX_VALUE_LEN;
          cnf_slice = div_ceil CNF_BLOCK_LEN 4 * 4 + 4;
          max_slice = foldl max max_user_claim_slice [iss_slice, iat_slice, cnf_slice]
      in div_ceil (decoded_len + max_slice) 4 * 4)"

definition json_packed_words :: "gf list \<Rightarrow> nat \<Rightarrow> gf list" where
  "json_packed_words decoded padded_json_len_words =
     (let byte = (\<lambda>i. if i < length decoded then decoded ! i else 0) in
      map (\<lambda>word_idx. let byte_start = word_idx * 4 in
             pack_4_bytes_be (byte byte_start) (byte (byte_start + 1)) (byte (byte_start + 2)) (byte (byte_start + 3)))
        [0..<padded_json_len_words])"

definition bind_packed_array :: "gf list \<Rightarrow> gf list \<Rightarrow> bool" where
  "bind_packed_array extractor_packed json_packed \<longleftrightarrow>
     length extractor_packed = length json_packed \<and> list_all (\<lambda>(a, b). a = b) (zip extractor_packed json_packed)"

subsection \<open>The circuit\<close>

record jwt_base_wires =
  jb_ecdsa :: ecdsa_circuit
  jb_digest_to_scalar :: digest_to_scalar
  jb_hash :: sha256_varlen
  jb_hash_wires :: "gf list"
  jb_b64 :: base64_decode
  jb_payload_len_indicator :: "gf list"
  jb_claims :: "json_claim list"
  jb_iss :: json_claim
  jb_iat :: json_claim
  jb_cnf :: cnf_extractor
  jb_owner_sig :: "gf list \<times> gf list"
  jb_pop_private :: "gf list"
  jb_level :: gf
  jb_max_level :: gf

text \<open>The leaves of the commitment: hashed attributes, filled up with zero leaves.\<close>

definition jwt_base_leaves :: "(gf list \<Rightarrow> gf list) \<Rightarrow> nat \<Rightarrow> jwt_base_wires \<Rightarrow> hash_out list" where
  "jwt_base_leaves perm num_max w =
     (let hashed_leaves = map (\<lambda>ct. hash_or_noop_circuit perm (attribute_u32_words ct)) (jb_claims w) in
      if num_max > length (jb_claims w)
      then hashed_leaves @ replicate (num_max - length (jb_claims w)) (replicate NUM_HASH_OUT_ELTS 0)
      else hashed_leaves)"

text \<open>Proof of possession: a signature on a constant message under the key of the payload.\<close>

definition pop_constraints :: "ecdsa_verifier \<Rightarrow> nat \<Rightarrow> cnf_extractor \<Rightarrow> gf list \<times> gf list \<Rightarrow> gf list \<Rightarrow> bool" where
  "pop_constraints verify_p256 pop_scalar cnf owner_sig pop_wires \<longleftrightarrow>
     (let owner_pk = (x_limbs cnf, y_limbs cnf); pop_msg = map of_nat (to_u32_digits pop_scalar) in
        length (fst owner_sig) = 8 \<and> length (snd owner_sig) = 8
      \<and> accepts (verify_p256 pop_msg owner_sig owner_pk) pop_wires)"

definition make_jwt_base_circuit ::
    "(bytes \<Rightarrow> bytes) \<Rightarrow> (bytes \<Rightarrow> bytes) \<Rightarrow> (gf list \<Rightarrow> gf list) \<Rightarrow> ecdsa_verifier \<Rightarrow> jwt_layout \<Rightarrow> nat \<Rightarrow> jwt_base_wires \<Rightarrow> gf list \<Rightarrow> bool" where
  "make_jwt_base_circuit encode sha256_digest perm verify_p256 layout num_max w pis \<longleftrightarrow>
     ensure_valid_attribute_counts (length (jl_claim_keys layout)) num_max = Inr ()
   \<and> make_ecdsa_circuit verify_p256 (jb_ecdsa w)
   \<and> make_digest_to_scalar_circuit (jb_digest_to_scalar w)
   \<and> make_sha256_varlen_circuit (jl_max_msg_len_bytes layout) (jb_hash_wires w) = Some (jb_hash w, [])
   \<and> wire_digest_to_ecdsa (sv_digest (jb_hash w)) (jb_digest_to_scalar w) (jb_ecdsa w)
   \<and> constrain_jwt_header encode (sv_message (jb_hash w)) (jl_header_b64_len layout)
   \<and> make_base64url_decode_circuit (jl_max_payload_b64_len layout) (jb_b64 w)
   \<and> make_one_hot_indicator (jl_max_payload_b64_len layout + 1) 0
       \<lparr>indicator = jb_payload_len_indicator w,
        oh_value = sv_msg_len_bytes (jb_hash w) - of_nat (jl_payload_b64_byte_offset layout)\<rparr>
   \<and> payload_consistency (input_ascii (jb_b64 w))
       (is_active_mask (jb_payload_len_indicator w) (jl_max_payload_b64_len layout))
       (bytes_from_message_bits (sv_message (jb_hash w)) (jl_payload_b64_byte_offset layout) (jl_max_payload_b64_len layout))
       (jl_max_payload_b64_len layout)
   \<and> (let n = padded_json_len layout (length (decoded_bytes (jb_b64 w)));
          words = json_packed_words (decoded_bytes (jb_b64 w)) (n div 4) in
        list_all2 (\<lambda>key ct. make_json_claim_circuit_known_key n key (jl_max_value_len layout) (jl_max_key_len layout) ct
            \<and> bind_packed_array (packed_array (slice_targets ct)) words) (jl_claim_keys layout) (jb_claims w)
      \<and> make_json_claim_circuit_known_key n (bytes_of_string ''iss'') JWT_ISS_MAX_VALUE_LEN 4 (jb_iss w)
      \<and> make_json_claim_circuit_known_key n (bytes_of_string ''iat'') JWT_IAT_MAX_VALUE_LEN 4 (jb_iat w)
      \<and> bind_packed_array (packed_array (slice_targets (jb_iss w))) words
      \<and> bind_packed_array (packed_array (slice_targets (jb_iat w))) words
      \<and> make_cnf_extractor_circuit n (jb_cnf w)
      \<and> bind_packed_array (packed_array (cnf_slice_targets (jb_cnf w))) words)
   \<and> (case pop_message_scalar sha256_digest of Inl _ \<Rightarrow> False
      | Inr pop_scalar \<Rightarrow> pop_constraints verify_p256 pop_scalar (jb_cnf w) (jb_owner_sig w) (jb_pop_private w))
   \<and> jb_level w = 0
   \<and> jb_max_level w = of_nat LEVEL_UNBOUNDED
   \<and> (case merkle_root_from_leaves perm (jwt_base_leaves perm num_max w) of Inl _ \<Rightarrow> False
      | Inr commitment \<Rightarrow> pis = register_pk_as_pi (jb_ecdsa w) @ commitment @ [jb_level w, jb_max_level w])"

text \<open>The public input layout the function returns.\<close>

definition jwt_base_pi_layout :: "jwt_layout \<Rightarrow> nat \<Rightarrow> base_public_input_layout" where
  "jwt_base_pi_layout layout num_max =
     \<lparr>issuer_pk_pi_start = 0, issuer_pk_pi_len = 16, com_pi_start = 16, com_pi_len = NUM_HASH_OUT_ELTS,
      level_pi_idx = 20, max_level_pi_idx = 21,
      num_attributes = length (jl_claim_keys layout), num_max_attributes = num_max,
      attribute_u32_limbs = jl_attribute_len_bytes layout div 4, attribute_len_bytes = jl_attribute_len_bytes layout\<rparr>"

subsection \<open>The prover\<close>

text \<open>
  \<open>prove_jwt_base\<close> fills the targets; the last three arguments are the wires the generators
  compute.  \<open>sign\<close> is the signer the holder uses for the proof of possession.
\<close>

definition prove_jwt_base ::
    "(bytes \<Rightarrow> bytes) \<Rightarrow> (bytes \<Rightarrow> bytes option) \<Rightarrow> (bytes \<Rightarrow> bytes) \<Rightarrow> (nat \<Rightarrow> nat \<Rightarrow> ecdsa_signature) \<Rightarrow> jwt_layout \<Rightarrow> jwt_credential \<Rightarrow> affine_point \<Rightarrow>
     gf list \<Rightarrow> gf list \<Rightarrow> gf list \<Rightarrow> jwt_base_wires res" where
  "prove_jwt_base encode decode sha256_digest sign layout jwt iss_pk hash_wires ecdsa_wires pop_wires =
     ensure (length (jc_claims jwt) = length (jl_claim_keys layout)) (Bail ''claim count mismatch'')
    (let digest = sha256_digest (jc_jwt_message_bytes jwt);
         digest_bits = msg_bits digest;
         max_blocks = div_ceil (jl_max_msg_len_bytes layout * 8 + 65) 512 in
     bind_res (set_biguint_target 8 (jc_message_hash jwt)) (\<lambda>msg.
     bind_res (set_biguint_target 8 (sig_r (jc_signature jwt))) (\<lambda>r.
     bind_res (set_biguint_target 8 (sig_s (jc_signature jwt))) (\<lambda>s.
     bind_res (set_biguint_target 8 (pt_x iss_pk)) (\<lambda>x.
     bind_res (set_biguint_target 8 (pt_y iss_pk)) (\<lambda>y.
     bind_res (fill_digest_to_scalar_witness digest (jc_message_hash jwt)) (\<lambda>dts.
     bind_res (fill_sha256_varlen_circuit_witness max_blocks (jc_jwt_message_bytes jwt) digest_bits) (\<lambda>hash.
     bind_res (padded_payload_b64 jwt (jl_max_payload_b64_len layout)) (\<lambda>padded_b64.
     bind_res (base64url_decode decode padded_b64) (\<lambda>decoded_padded_b64.
     bind_res (fill_base64url_decode_witness (jl_max_payload_b64_len layout) padded_b64 decoded_padded_b64) (\<lambda>b64.
     let actual_payload_b64_len = length (jc_payload_b64 jwt);
         ind = map (\<lambda>k. if k = actual_payload_b64_len then 1 else 0) [0..<jl_max_payload_b64_len layout + 1];
         n = padded_json_len layout (length (decoded_bytes b64));
         padded_payload = resize n 0 decoded_padded_b64 in
     bind_res (map_res (\<lambda>(key, claim). fill_json_claim_witness_known_key n key (jl_max_value_len layout) (jl_max_key_len layout) padded_payload claim)
         (zip (jl_claim_keys layout) (jc_claims jwt))) (\<lambda>claims.
     bind_res (fill_json_claim_witness_known_key n (bytes_of_string ''iss'') JWT_ISS_MAX_VALUE_LEN 4 padded_payload (jc_iss_claim jwt)) (\<lambda>iss.
     bind_res (fill_json_claim_witness_known_key n (bytes_of_string ''iat'') JWT_IAT_MAX_VALUE_LEN 4 padded_payload (jc_iat_claim jwt)) (\<lambda>iat.
     let (x_b64, y_b64) = pk_coords_to_base64url encode (jc_cred_pk jwt) in
     bind_res (fill_cnf_extractor_witness decode n padded_payload (jc_cnf_start jwt) x_b64 y_b64) (\<lambda>cnf.
     bind_res (pop_message_scalar sha256_digest) (\<lambda>pop_scalar.
     let pop_sig = sign pop_scalar (jc_cred_sk jwt) in
     bind_res (set_biguint_target 8 (sig_r pop_sig)) (\<lambda>pop_r.
     bind_res (set_biguint_target 8 (sig_s pop_sig)) (\<lambda>pop_s.
     Inr \<lparr>jb_ecdsa = \<lparr>ec_issuer_pk = (x, y), ec_msg = msg, ec_sig = (r, s), ec_private = ecdsa_wires\<rparr>,
          jb_digest_to_scalar = dts, jb_hash = hash, jb_hash_wires = hash_wires, jb_b64 = b64,
          jb_payload_len_indicator = ind, jb_claims = claims, jb_iss = iss, jb_iat = iat, jb_cnf = cnf,
          jb_owner_sig = (pop_r, pop_s), jb_pop_private = pop_wires,
          jb_level = 0, jb_max_level = of_nat LEVEL_UNBOUNDED\<rparr>))))))))))))))))))"

text \<open>
  \<open>build_jwt_base_circuit\<close> and \<open>build_jwt_base_circuit_with_keys\<close>: the layout, then the circuit.
\<close>

definition build_jwt_base_circuit ::
    "(bytes \<Rightarrow> bytes) \<Rightarrow> (bytes \<Rightarrow> bytes) \<Rightarrow> (gf list \<Rightarrow> gf list) \<Rightarrow> ecdsa_verifier \<Rightarrow> nat \<Rightarrow> nat \<Rightarrow> nat \<Rightarrow> (jwt_base_wires \<Rightarrow> gf list \<Rightarrow> bool) res" where
  "build_jwt_base_circuit encode sha256_digest perm verify_p256 num_claims max_value_len num_max =
     bind_res (generate_empty_jwt_layout encode num_claims max_value_len) (\<lambda>layout.
     bind_res (ensure_valid_attribute_counts (length (jl_claim_keys layout)) num_max) (\<lambda>_.
     Inr (make_jwt_base_circuit encode sha256_digest perm verify_p256 layout num_max)))"

definition build_jwt_base_circuit_with_keys ::
    "(bytes \<Rightarrow> bytes) \<Rightarrow> (bytes \<Rightarrow> bytes) \<Rightarrow> (gf list \<Rightarrow> gf list) \<Rightarrow> ecdsa_verifier \<Rightarrow> bytes list \<Rightarrow> nat \<Rightarrow> nat \<Rightarrow> (jwt_base_wires \<Rightarrow> gf list \<Rightarrow> bool) res" where
  "build_jwt_base_circuit_with_keys encode sha256_digest perm verify_p256 claim_keys max_value_len num_max =
     bind_res (generate_jwt_layout_with_keys encode claim_keys max_value_len) (\<lambda>layout.
     bind_res (ensure_valid_attribute_counts (length (jl_claim_keys layout)) num_max) (\<lambda>_.
     Inr (make_jwt_base_circuit encode sha256_digest perm verify_p256 layout num_max)))"

end
