(* ===== verification/Jwt_Issue.thy ===== *)
theory Jwt_Issue
  imports Jwt
begin

text \<open>
  What issuing a credential produces.  The payload is a list of quote-free segments joined by
  quotes, so the search for a quoted key and a colon finds the first segment equal to the key
  that is followed by a segment starting with a colon.  For claims whose keys are none of the
  names of the payload's frame, that segment is the claim itself.
\<close>

subsection \<open>Searching a text of quoted segments\<close>

abbreviation dquote :: u8 where "dquote \<equiv> 0x22"
abbreviation colon :: u8 where "colon \<equiv> 0x3A"

definition starts_colon :: "bytes \<Rightarrow> bool" where
  "starts_colon s \<longleftrightarrow> (case s of [] \<Rightarrow> False | c # _ \<Rightarrow> c = colon)"

text \<open>No segment but the last two of the list is the key followed by a colon.\<close>

fun key_free :: "bytes \<Rightarrow> bytes list \<Rightarrow> bool" where
  "key_free key (s0 # s1 # s2 # segs) \<longleftrightarrow> \<not> (s1 = key \<and> starts_colon s2) \<and> key_free key (s1 # s2 # segs)"
| "key_free key _ \<longleftrightarrow> True"

definition search_key :: "bytes \<Rightarrow> bytes" where
  "search_key key = [dquote] @ key @ [dquote, colon]"

lemma take_prefix_iff: "take (length p) s = p \<longleftrightarrow> (\<exists>r. s = p @ r)"
  by (metis append_eq_conv_conj append_take_drop_id)

lemma quote_append_iff:
  "dquote \<notin> set xs \<Longrightarrow> dquote \<notin> set ys \<Longrightarrow> xs @ dquote # xs' = ys @ dquote # ys' \<longleftrightarrow> xs = ys \<and> xs' = ys'"
proof (induction xs arbitrary: ys)
  case Nil
  then show ?case by (cases ys) auto
next
  case (Cons x xs)
  then show ?case by (cases ys) auto
qed

lemma join_Cons: "ss \<noteq> [] \<Longrightarrow> join_with sep (s # ss) = s @ sep @ join_with sep ss"
  by (cases ss) simp_all

lemma join_append: "xs \<noteq> [] \<Longrightarrow> ys \<noteq> [] \<Longrightarrow> join_with sep (xs @ ys) = join_with sep xs @ sep @ join_with sep ys"
  by (induction xs rule: induct_list012) (simp_all add: join_Cons)

lemma find_sub_after:
  assumes "dquote \<notin> set a" "pat \<noteq> []" "hd pat = dquote"
  shows "find_sub pat (a @ dquote # s)
    = (if take (length pat) (dquote # s) = pat then Some (length a) else map_option (\<lambda>i. i + length a + 1) (find_sub pat s))"
  using assms(1)
proof (induction a)
  case Nil
  then show ?case by (auto simp: option.map_ident intro!: map_option_cong)
next
  case (Cons x a)
  have "take (length pat) ((x # a) @ dquote # s) \<noteq> pat"
    using Cons.prems assms(2,3) by (cases pat) auto
  then show ?case using Cons by (auto simp: option.map_comp comp_def)
qed

lemma match_at_segment:
  assumes "dquote \<notin> set key" "dquote \<notin> set b" "dquote \<notin> set c" "z = [] \<or> hd z = dquote"
  shows "take (length (search_key key)) (dquote # b @ dquote # c @ z) = search_key key \<longleftrightarrow> b = key \<and> starts_colon c"
proof -
  have "take (length (search_key key)) (dquote # b @ dquote # c @ z) = search_key key
      \<longleftrightarrow> (\<exists>r. b @ dquote # c @ z = key @ dquote # colon # r)"
    unfolding take_prefix_iff by (simp add: search_key_def)
  also have "\<dots> \<longleftrightarrow> b = key \<and> (\<exists>r. c @ z = colon # r)"
    using assms by (simp add: quote_append_iff)
  also have "(\<exists>r. c @ z = colon # r) \<longleftrightarrow> starts_colon c"
    using assms(4) by (cases c; cases z) (auto simp: starts_colon_def)
  finally show ?thesis .
qed

lemma join_tail:
  "\<exists>z. join_with [dquote] (c # segs) = c @ z \<and> (z = [] \<or> hd z = dquote)"
  by (cases segs) auto

lemma match_join:
  assumes "dquote \<notin> set key" "\<forall>s \<in> set (b # c # segs). dquote \<notin> set s"
  shows "take (length (search_key key)) (dquote # join_with [dquote] (b # c # segs)) = search_key key \<longleftrightarrow> b = key \<and> starts_colon c"
proof -
  obtain z where z: "join_with [dquote] (c # segs) = c @ z" "z = [] \<or> hd z = dquote" using join_tail by blast
  then have "dquote # join_with [dquote] (b # c # segs) = dquote # b @ dquote # c @ z" by simp
  then show ?thesis using match_at_segment [of key b c z] assms z(2) by simp
qed

lemma find_sub_segment:
  assumes "\<forall>s \<in> set (as @ s0 # key # s2 # segs). dquote \<notin> set s" "starts_colon s2" "key_free key (as @ [s0, key])"
  shows "find_sub (search_key key) (join_with [dquote] (as @ s0 # key # s2 # segs)) = Some (length (join_with [dquote] (as @ [s0])))"
  using assms
proof (induction as)
  case Nil
  have "join_with [dquote] (s0 # key # s2 # segs) = s0 @ dquote # join_with [dquote] (key # s2 # segs)" by simp
  moreover have "take (length (search_key key)) (dquote # join_with [dquote] (key # s2 # segs)) = search_key key"
    using Nil by (subst match_join) auto
  ultimately show ?case
    using Nil by (simp only: append_Nil) (subst find_sub_after; simp add: search_key_def)
next
  case (Cons a as)
  let ?rest = "as @ s0 # key # s2 # segs"
  obtain b c zs where bc: "?rest = b # c # zs" "as @ [s0, key] = b # c # take (length (as @ [s0, key]) - 2) zs"
    by (cases as; cases "tl as") auto
  have "join_with [dquote] ((a # as) @ s0 # key # s2 # segs) = a @ dquote # join_with [dquote] ?rest"
    by (simp add: join_Cons)
  moreover have "\<not> take (length (search_key key)) (dquote # join_with [dquote] ?rest) = search_key key"
  proof -
    have "\<not> (b = key \<and> starts_colon c)" using Cons.prems(3) bc(2) by (metis append_Cons key_free.simps(1))
    then show ?thesis using Cons.prems(1) unfolding bc(1) by (subst match_join) (auto simp: bc(1) [symmetric])
  qed
  moreover have "key_free key (as @ [s0, key])" using Cons.prems(3) bc(2) by (metis append_Cons key_free.simps(1))
  moreover have "length (join_with [dquote] ((a # as) @ [s0])) = length (join_with [dquote] (as @ [s0])) + length a + 1"
    by (simp add: join_Cons)
  ultimately show ?case
    using Cons by (simp only:) (subst find_sub_after; simp add: search_key_def)
qed

text \<open>A claim in the segments is found with its position and value.\<close>

lemma claim_found:
  assumes segs: "segs = as @ s0 # key # [colon] # v # zs" "zs \<noteq> []"
    and q: "\<forall>s \<in> set segs. dquote \<notin> set s" and free: "key_free key (as @ [s0, key])"
    and pre: "s0 \<noteq> []" "last s0 = 0x7B \<or> last s0 = 0x2C" and utf8: "utf8_valid (join_with [dquote] segs)"
  shows "find_claim_position (join_with [dquote] segs) key
    = Inr \<lparr>cp_key = key, cp_start = length (join_with [dquote] (as @ [s0])), cp_value = v, colon_offset = length key + 2\<rparr>"
proof -
  let ?js = "join_with [dquote] segs" and ?h = "join_with [dquote] (as @ [s0])"
  let ?st = "length ?h" and ?t = "join_with [dquote] zs"
  have start: "find_sub ([dquote] @ key @ [dquote, colon]) ?js = Some ?st"
    using find_sub_segment [of as s0 key "[colon]" "v # zs"] q free
    by (simp add: segs(1) starts_colon_def search_key_def)
  have js: "?js = ?h @ [dquote] @ key @ [dquote, colon, dquote] @ v @ [dquote] @ ?t"
    using segs join_append [of "as @ [s0]" "key # [colon] # v # zs"] by (simp add: join_Cons)
  have h: "?h \<noteq> [] \<and> last ?h = last s0"
    using pre(1) join_append [of as "[s0]" "[dquote]"] by (cases "as = []") simp_all
  have prev: "?js ! (?st - 1) = last s0"
    using h last_conv_nth [of ?h] unfolding js by (simp add: nth_append)
  have rest: "drop (?st + length key + 4) ?js = v @ dquote # ?t"
    unfolding js by (simp add: eval_nat_numeral)
  have "?js ! (?st + length key + 3) = dquote"
    unfolding js by (simp add: nth_append)
  moreover have "?st + length key + 3 < length ?js" unfolding js by simp
  ultimately have "Suc (?st + length key + 3) = length ?js \<or> \<not> utf8_cont (?js ! Suc (?st + length key + 3))"
    using boundary_after_ascii [OF utf8, of "?st + length key + 3"] by simp
  then have slice: "str_slice_from ?js (?st + length key + 4) = Inr (v @ dquote # ?t)"
    using rest unfolding str_slice_from_def js by (auto simp: eval_nat_numeral)
  have "dquote \<notin> set v" using q segs by simp
  then have "find_sub [dquote] (v @ dquote # ?t) = Some (length v)"
    by (subst find_sub_after) simp_all
  then show ?thesis
    using start h prev pre(2) slice rest utf8
    by (simp add: find_claim_position_def Let_def eval_nat_numeral)
qed

lemma utf8_valid_append: "utf8_valid a \<Longrightarrow> utf8_valid b \<Longrightarrow> utf8_valid (a @ b)"
proof (induction a rule: length_induct)
  case (1 a)
  have IH: "utf8_valid (a' @ b)" if "utf8_valid a'" "length a' < length a" for a'
    using 1 that by blast
  have va: "utf8_valid a" and vb: "utf8_valid b" using 1 by blast+
  show ?case
  proof (cases a)
    case Nil
    then show ?thesis using vb by simp
  next
    case (Cons x r)
    show ?thesis
    proof (cases "x < 0x80")
      case True
      then show ?thesis using va IH [of r] Cons by simp
    next
      case False
      then have "r \<noteq> []" using va Cons by (auto split: if_splits)
      then consider c where "r = [c]" | c d where "r = [c, d]" | c d e r' where "r = c # d # e # r'"
        by (metis list.exhaust)
      then show ?thesis
      proof cases
        case (1 c)
        then show ?thesis using va vb Cons False by (simp split: if_splits)
      next
        case (2 c d)
        have "utf8_valid [d] \<Longrightarrow> utf8_valid (d # b)" using IH [of "[d]"] Cons 2 by (simp del: utf8_valid.simps)
        then show ?thesis
          using va vb False unfolding Cons 2 append_Cons append_Nil utf8_valid.simps(2) [of x] list.case
          by (simp del: utf8_valid.simps(2) split: if_splits)
      next
        case (3 c d e r')
        have "utf8_valid (d # e # r') \<Longrightarrow> utf8_valid (d # e # r' @ b)" "utf8_valid (e # r') \<Longrightarrow> utf8_valid (e # r' @ b)"
          "utf8_valid r' \<Longrightarrow> utf8_valid (r' @ b)"
          using IH [of "d # e # r'"] IH [of "e # r'"] IH [of r'] by (simp_all add: Cons 3 del: utf8_valid.simps)
        then show ?thesis
          using va False unfolding Cons 3 append_Cons utf8_valid.simps(2) [of x] list.case
          by (simp del: utf8_valid.simps split: if_splits)
      qed
    qed
  qed
qed

lemma utf8_valid_join:
  "utf8_valid sep \<Longrightarrow> \<forall>s \<in> set ss. utf8_valid s \<Longrightarrow> utf8_valid (join_with sep ss)"
  by (induction sep ss rule: join_with.induct) (simp_all add: utf8_valid_append)

lemma find_sub_extend:
  "find_sub p xs = Some i \<Longrightarrow> take (length (p @ r)) (drop i xs) = p @ r \<Longrightarrow> find_sub (p @ r) xs = Some i"
proof (induction xs arbitrary: i)
  case (Cons x xs)
  show ?case
  proof (cases "take (length p) (x # xs) = p")
    case True
    then show ?thesis using Cons.prems by simp
  next
    case False
    then have "take (length (p @ r)) (x # xs) \<noteq> p @ r"
      unfolding take_prefix_iff by auto
    moreover obtain j where "i = Suc j" "find_sub p xs = Some j" using Cons.prems(1) False by auto
    ultimately show ?thesis using Cons False by simp
  qed
qed (simp split: if_splits)

lemma find_sub_extended: "find_sub p xs = Some i \<Longrightarrow> q = p @ r \<Longrightarrow> drop i xs = q @ z \<Longrightarrow> find_sub q xs = Some i"
  using find_sub_extend [of p xs i r] by simp

subsection \<open>The segments of a payload\<close>

fun claim_segs :: "bytes \<Rightarrow> (bytes \<times> bytes) list \<Rightarrow> bytes list" where
  "claim_segs pre [] = [pre @ [0x7D]]"
| "claim_segs pre ((k, v) # kvs) = (pre @ [0x2C]) # k # [colon] # v # claim_segs [] kvs"

text \<open>The segments up to the delimiter before the next claim.\<close>

fun claim_pre :: "bytes \<Rightarrow> (bytes \<times> bytes) list \<Rightarrow> bytes list" where
  "claim_pre pre [] = [pre @ [0x2C]]"
| "claim_pre pre ((k, v) # kvs) = (pre @ [0x2C]) # k # [colon] # v # claim_pre [] kvs"

abbreviation str :: "string \<Rightarrow> bytes" where
  "str \<equiv> bytes_of_string"

definition frame_segs :: "bytes \<Rightarrow> bytes \<Rightarrow> bytes \<Rightarrow> bytes \<Rightarrow> bytes list" where
  "frame_segs iss iat x y =
     [[0x7B], str ''iss'', [colon], iss, [0x2C], str ''iat'', [colon], iat, [0x2C],
      str ''cnf'', [colon, 0x7B], str ''jwk'', [colon, 0x7B], str ''kty'', [colon], str ''EC'', [0x2C],
      str ''crv'', [colon], str ''P-256'', [0x2C], str ''x'', [colon], x, [0x2C], str ''y'', [colon], y]"

definition payload_segs :: "(bytes \<times> bytes) list \<Rightarrow> bytes \<Rightarrow> bytes \<Rightarrow> bytes \<Rightarrow> bytes \<Rightarrow> bytes list" where
  "payload_segs kvs iss iat x y = frame_segs iss iat x y @ claim_segs [0x7D, 0x7D] kvs"

lemma claim_segs_nonempty [simp]: "claim_segs pre kvs \<noteq> []" "claim_pre pre kvs \<noteq> []"
  by (cases kvs; auto)+

lemma claim_segs_append: "claim_segs pre (xs @ (k, v) # ys) = claim_pre pre xs @ k # [colon] # v # claim_segs [] ys"
  by (induction xs arbitrary: pre) auto

lemma join_claim_segs:
  "join_with [dquote] (claim_segs pre kvs) = pre @ concat (map (\<lambda>(k, v). [0x2C] @ json_pair k v) kvs) @ [0x7D]"
  by (induction kvs arbitrary: pre) (auto simp: join_Cons json_pair_def)

lemma join_commas: "join_with [0x2C] (p # map f xs) = p @ concat (map (\<lambda>x. [0x2C] @ f x) xs)"
  by (induction xs arbitrary: p) (simp_all add: join_Cons)

lemma payload_text:
  "join_with [dquote] (payload_segs kvs iss iat x y) =
     [0x7B] @ json_pair (str ''iss'') iss @ [0x2C] @ json_pair (str ''iat'') iat @ [0x2C] @ build_cnf_block x y
     @ concat (map (\<lambda>(k, v). [0x2C] @ json_pair k v) kvs) @ [0x7D]"
proof -
  have cnf: "CNF_PREFIX = dquote # str ''cnf'' @ [dquote, colon, 0x7B, dquote] @ str ''jwk'' @ [dquote, colon, 0x7B, dquote]
      @ str ''kty'' @ [dquote, colon, dquote] @ str ''EC'' @ [dquote, 0x2C, dquote] @ str ''crv'' @ [dquote, colon, dquote]
      @ str ''P-256'' @ [dquote, 0x2C, dquote] @ str ''x'' @ [dquote, colon, dquote]"
    "CNF_XY_SEPARATOR = [dquote, 0x2C, dquote] @ str ''y'' @ [dquote, colon, dquote]" "CNF_CLOSING = [dquote, 0x7D, 0x7D]"
    by (simp_all add: CNF_PREFIX_def CNF_XY_SEPARATOR_def CNF_CLOSING_def bytes_of_string_def)
  have segs: "join_with [dquote] (frame_segs iss iat x y @ claim_segs [0x7D, 0x7D] kvs)
      = join_with [dquote] (frame_segs iss iat x y) @ [dquote] @ [0x7D, 0x7D] @ concat (map (\<lambda>(k, v). [0x2C] @ json_pair k v) kvs) @ [0x7D]"
    by (subst join_append) (simp_all add: frame_segs_def join_claim_segs)
  have frame: "join_with [dquote] (frame_segs iss iat x y) =
      [0x7B] @ json_pair (str ''iss'') iss @ [0x2C] @ json_pair (str ''iat'') iat @ [0x2C] @ CNF_PREFIX @ x @ CNF_XY_SEPARATOR @ y"
    unfolding cnf by (simp add: frame_segs_def json_pair_def)
  show ?thesis
    unfolding payload_segs_def segs frame build_cnf_block_def cnf(3) by simp
qed

lemma payload_is_segs:
  "build_payload_json keys vals iss iat x y = join_with [dquote] (payload_segs (zip keys vals) iss iat x y)"
  using join_commas [of "build_cnf_block x y" "\<lambda>(k, v). json_pair k v" "zip keys vals"]
  unfolding payload_text by (simp add: build_payload_json_def case_prod_unfold)

subsection \<open>Where the claims of a payload are found\<close>

definition frame_parts :: "bytes list" where
  "frame_parts = map str [''iss'', ''iat'', ''cnf'', ''jwk'', ''kty'', ''crv'', ''x'', ''y'', '':'', '':{'', '','', ''}},'']"

definition json_string :: "bytes \<Rightarrow> bool" where
  "json_string s \<longleftrightarrow> dquote \<notin> set s \<and> utf8_valid s"

lemma last_claim_pre: "last (claim_pre pre xs) \<noteq> [] \<and> last (last (claim_pre pre xs)) = 0x2C"
  by (induction xs arbitrary: pre) auto

lemma claim_pre_Cons:
  obtains t zs where "claim_pre pre xs @ [key] = (pre @ [0x2C]) # t # zs"
  by (cases xs) auto

lemma key_free_claim_pre:
  "key \<notin> fst ` set xs \<Longrightarrow> key \<noteq> [colon] \<Longrightarrow> key \<noteq> [0x2C] \<Longrightarrow> key_free key (claim_pre pre xs @ [key])"
proof (induction xs arbitrary: pre)
  case (Cons p xs)
  obtain a b where p: "p = (a, b)" by (cases p)
  obtain t zs where z: "claim_pre [] xs @ [key] = ([] @ [0x2C]) # t # zs" by (rule claim_pre_Cons)
  show ?case
    using Cons.prems Cons.IH [of "[]"] by (auto simp: p z starts_colon_def)
qed simp

lemma key_free_frame:
  assumes "key \<notin> set frame_parts" "key \<notin> fst ` set xs"
  shows "key_free key (frame_segs iss iat x y @ claim_pre [0x7D, 0x7D] xs @ [key])"
proof -
  obtain t zs where "claim_pre [0x7D, 0x7D] xs @ [key] = ([0x7D, 0x7D] @ [0x2C]) # t # zs" by (rule claim_pre_Cons)
  then have z: "claim_pre [0x7D, 0x7D] xs @ [key] = [0x7D, 0x7D, 0x2C] # t # zs" by simp
  have "key_free key ([0x7D, 0x7D, 0x2C] # t # zs)"
    using assms key_free_claim_pre [of key xs "[0x7D, 0x7D]"] by (simp add: z [symmetric] frame_parts_def bytes_of_string_def)
  then show ?thesis
    using assms(1) by (auto simp: z frame_segs_def frame_parts_def starts_colon_def bytes_of_string_def)
qed

text \<open>The payload's strings: no quotes, valid UTF-8.\<close>

definition payload_strings :: "(bytes \<times> bytes) list \<Rightarrow> bytes \<Rightarrow> bytes \<Rightarrow> bytes \<Rightarrow> bytes \<Rightarrow> bool" where
  "payload_strings kvs iss iat x y \<longleftrightarrow>
     json_string iss \<and> json_string iat \<and> json_string x \<and> json_string y
   \<and> (\<forall>(k, v) \<in> set kvs. json_string k \<and> json_string v)"

lemma ascii_string: "list_all (\<lambda>b. b < 0x80 \<and> b \<noteq> dquote) s \<Longrightarrow> json_string s"
  by (auto simp: json_string_def list_all_iff intro: utf8_valid_ascii)

lemma constant_strings:
  "list_all json_string (map str [''iss'', ''iat'', ''cnf'', ''jwk'', ''kty'', ''EC'', ''crv'', ''P-256'', ''x'', ''y'']
     @ [[0x7B], [0x7D], [0x2C], [colon], [colon, 0x7B]])"
  by (simp add: ascii_string bytes_of_string_def)

lemma claim_segs_strings:
  assumes "json_string (pre @ [0x7D])" "json_string (pre @ [0x2C])" "\<forall>(k, v) \<in> set kvs. json_string k \<and> json_string v"
  shows "\<forall>s \<in> set (claim_segs pre kvs). json_string s"
  using assms
proof (induction kvs arbitrary: pre)
  case (Cons p kvs)
  obtain k v where p: "p = (k, v)" by (cases p)
  have kv: "json_string k" "json_string v" "\<forall>(k, v) \<in> set kvs. json_string k \<and> json_string v"
    using Cons.prems(3) unfolding p by auto
  have "\<forall>s \<in> set (claim_segs [] kvs). json_string s"
    by (rule Cons.IH [OF _ _ kv(3)]) (simp_all add: ascii_string)
  moreover have "json_string [colon]" by (simp add: ascii_string)
  ultimately show ?case using Cons.prems(2) kv unfolding p claim_segs.simps by simp
qed simp

lemma frame_strings:
  assumes "payload_strings kvs iss iat x y"
  shows "\<forall>s \<in> set (payload_segs kvs iss iat x y). json_string s"
proof -
  have "json_string ([0x7D, 0x7D] @ [0x7D])" "json_string ([0x7D, 0x7D] @ [0x2C])" by (simp_all add: ascii_string)
  then have "\<forall>s \<in> set (claim_segs [0x7D, 0x7D] kvs). json_string s"
    using assms by (intro claim_segs_strings) (simp_all add: payload_strings_def)
  moreover have "\<forall>s \<in> set (frame_segs iss iat x y). json_string s"
    using assms constant_strings unfolding frame_segs_def payload_strings_def by simp
  ultimately show ?thesis by (auto simp: payload_segs_def)
qed

lemma payload_quotes: "payload_strings kvs iss iat x y \<Longrightarrow> \<forall>s \<in> set (payload_segs kvs iss iat x y). dquote \<notin> set s"
  using frame_strings by (auto simp: json_string_def)

lemma payload_utf8: "payload_strings kvs iss iat x y \<Longrightarrow> utf8_valid (join_with [dquote] (payload_segs kvs iss iat x y))"
  using frame_strings by (intro utf8_valid_join) (auto simp: json_string_def)

lemma find_user_claim:
  assumes "payload_strings kvs iss iat x y" "kvs = xs @ (k, v) # ys" "k \<notin> set frame_parts" "k \<notin> fst ` set xs"
  shows "find_claim_position (join_with [dquote] (payload_segs kvs iss iat x y)) k
    = Inr \<lparr>cp_key = k, cp_start = length (join_with [dquote] (frame_segs iss iat x y @ claim_pre [0x7D, 0x7D] xs)),
           cp_value = v, colon_offset = length k + 2\<rparr>"
proof -
  let ?pre = "claim_pre [0x7D, 0x7D] xs"
  obtain init s0 where p: "?pre = init @ [s0]" using claim_segs_nonempty(2) by (metis rev_exhaust)
  let ?as = "frame_segs iss iat x y @ init"
  have segs: "payload_segs kvs iss iat x y = ?as @ s0 # k # [colon] # v # claim_segs [] ys"
    by (simp add: payload_segs_def assms(2) claim_segs_append p)
  have free: "key_free k (?as @ [s0, k])"
    using key_free_frame [OF assms(3,4), of iss iat x y] by (simp add: p)
  have "s0 \<noteq> [] \<and> last s0 = 0x2C" using last_claim_pre [of "[0x7D, 0x7D]" xs] by (simp add: p)
  then show ?thesis
    using claim_found [OF segs _ payload_quotes [OF assms(1)] free _ _ payload_utf8 [OF assms(1)]] by (simp add: p)
qed

lemma drop_prefix: "length h = n \<Longrightarrow> drop n (h @ r) = r"
  by simp

lemma find_standard_claims:
  assumes "payload_strings kvs iss iat x y"
  shows "find_claim_position (join_with [dquote] (payload_segs kvs iss iat x y)) (str ''iss'')
      = Inr \<lparr>cp_key = str ''iss'', cp_start = 1, cp_value = iss, colon_offset = 5\<rparr>"
    "find_claim_position (join_with [dquote] (payload_segs kvs iss iat x y)) (str ''iat'')
      = Inr \<lparr>cp_key = str ''iat'', cp_start = length iss + 10, cp_value = iat, colon_offset = 5\<rparr>"
    "find_cnf_start (join_with [dquote] (payload_segs kvs iss iat x y)) = Inr (length iss + length iat + 19)"
proof -
  let ?segs = "payload_segs kvs iss iat x y"
  note found = claim_found [OF _ _ payload_quotes [OF assms] _ _ _ payload_utf8 [OF assms]]
  define t1 t2 t3 where "t1 = drop 4 ?segs" and "t2 = drop 8 ?segs" and "t3 = drop 11 ?segs"
  have ne: "t1 \<noteq> []" "t2 \<noteq> []" by (simp_all add: t1_def t2_def payload_segs_def frame_segs_def)
  have "?segs = [] @ [0x7B] # str ''iss'' # [colon] # iss # t1"
    by (simp add: t1_def payload_segs_def frame_segs_def)
  from found [OF this ne(1)] show "find_claim_position (join_with [dquote] ?segs) (str ''iss'')
      = Inr \<lparr>cp_key = str ''iss'', cp_start = 1, cp_value = iss, colon_offset = 5\<rparr>"
    by simp
  have "?segs = [[0x7B], str ''iss'', [colon], iss] @ [0x2C] # str ''iat'' # [colon] # iat # t2"
    by (simp add: t2_def payload_segs_def frame_segs_def)
  from found [OF this ne(2)] show "find_claim_position (join_with [dquote] ?segs) (str ''iat'')
      = Inr \<lparr>cp_key = str ''iat'', cp_start = length iss + 10, cp_value = iat, colon_offset = 5\<rparr>"
    by (simp add: starts_colon_def bytes_of_string_def)
  let ?as = "[[0x7B], str ''iss'', [colon], iss, [0x2C], str ''iat'', [colon], iat]"
  have segs: "?segs = ?as @ [0x2C] # str ''cnf'' # [colon, 0x7B] # t3"
    by (simp add: t3_def payload_segs_def frame_segs_def)
  have "find_sub (search_key (str ''cnf'')) (join_with [dquote] (?as @ [0x2C] # str ''cnf'' # [colon, 0x7B] # t3))
      = Some (length (join_with [dquote] (?as @ [[0x2C]])))"
  proof (rule find_sub_segment)
    show "\<forall>s \<in> set (?as @ [0x2C] # str ''cnf'' # [colon, 0x7B] # t3). dquote \<notin> set s"
      using payload_quotes [OF assms] unfolding segs .
  qed (simp_all add: starts_colon_def bytes_of_string_def)
  then have "find_sub (search_key (str ''cnf'')) (join_with [dquote] ?segs) = Some (length iss + length iat + 19)"
    by (simp only: segs) simp
  moreover have "CNF_PREFIX = search_key (str ''cnf'') @ drop 6 CNF_PREFIX"
    by (simp add: CNF_PREFIX_def search_key_def bytes_of_string_def)
  moreover have "drop (length iss + length iat + 19) (join_with [dquote] ?segs)
      = CNF_PREFIX @ x @ CNF_XY_SEPARATOR @ y @ CNF_CLOSING @ concat (map (\<lambda>(k, v). [0x2C] @ json_pair k v) kvs) @ [0x7D]"
  proof -
    let ?h = "[0x7B] @ json_pair (str ''iss'') iss @ [0x2C] @ json_pair (str ''iat'') iat @ [0x2C]"
    have "join_with [dquote] ?segs = ?h @ CNF_PREFIX @ x @ CNF_XY_SEPARATOR @ y @ CNF_CLOSING
        @ concat (map (\<lambda>(k, v). [0x2C] @ json_pair k v) kvs) @ [0x7D]"
      by (simp add: payload_text build_cnf_block_def)
    moreover have "length ?h = length iss + length iat + 19" by (simp add: json_pair_def)
    ultimately show ?thesis by (simp only: drop_prefix)
  qed
  ultimately have "find_sub CNF_PREFIX (join_with [dquote] ?segs) = Some (length iss + length iat + 19)"
    by (rule find_sub_extended)
  then show "find_cnf_start (join_with [dquote] ?segs) = Inr (length iss + length iat + 19)"
    using payload_utf8 [OF assms] by (simp add: find_cnf_start_def)
qed

subsection \<open>Sizes\<close>

lemma payload_length:
  "length (build_payload_json keys vals iss iat x y)
     = 74 + length iss + length iat + length x + length y + (\<Sum>(k, v)\<leftarrow>zip keys vals. length k + length v + 6)"
proof -
  have "length (concat (map (\<lambda>(k, v). [0x2C] @ json_pair k v) kvs)) = (\<Sum>(k, v)\<leftarrow>kvs. length k + length v + 6)" for kvs
    by (induction kvs) (auto simp: json_pair_def)
  then show ?thesis
    unfolding payload_is_segs payload_text by (simp add: json_pair_def length_build_cnf_block)
qed

lemma payload_length_mono:
  assumes "length vals = length keys" "\<forall>v \<in> set vals. length v \<le> mv" "length iss \<le> 28" "length iat \<le> 12" "length x = 43" "length y = 43"
  shows "length (build_payload_json keys vals iss iat x y)
    \<le> length (build_payload_json keys (replicate (length keys) (replicate mv 0x78)) (replicate 28 0x78) (replicate 12 0x78) (replicate 43 0x78) (replicate 43 0x78))"
proof -
  have "(\<Sum>(k, v)\<leftarrow>zip keys vals. length k + length v + 6)
      \<le> (\<Sum>(k, v)\<leftarrow>zip keys (replicate (length keys) (replicate mv 0x78 :: bytes)). length k + length v + 6)"
    using assms(1,2)
  proof (induction vals keys rule: list_induct2)
    case (Cons v vals k keys)
    then show ?case by simp
  qed simp
  then show ?thesis using assms(3-) by (simp add: payload_length)
qed

lemma div_ceil_mult_ge: "0 < k \<Longrightarrow> n \<le> div_ceil n k * k"
proof -
  assume k: "0 < k"
  have "(n + k - 1) mod k \<le> k - 1" using k by (simp add: less_eq_Suc_le [symmetric] Suc_leI flip: less_Suc_eq_le)
  then show ?thesis using div_mult_mod_eq [of "n + k - 1" k] k unfolding div_ceil_def by linarith
qed

lemma div_ceil_mono: "m \<le> n \<Longrightarrow> div_ceil m k \<le> div_ceil n k"
  unfolding div_ceil_def by (intro div_le_mono) simp

lemma foldl_max_ge: "x \<in> set xs \<or> x = a \<Longrightarrow> x \<le> foldl max (a :: nat) xs"
proof (induction xs arbitrary: a x)
  case (Cons y ys)
  have "max a y \<le> foldl max (max a y) ys" by (rule Cons.IH) simp
  then show ?case using Cons by auto
qed simp

subsection \<open>The issued credential\<close>

definition claims_ok :: "bytes list \<Rightarrow> bytes list \<Rightarrow> nat \<Rightarrow> bool" where
  "claims_ok keys vals max_value_len \<longleftrightarrow>
     length keys = length vals \<and> keys \<noteq> [] \<and> distinct keys
   \<and> (\<forall>k \<in> set keys. json_string k \<and> k \<noteq> [] \<and> k \<notin> set frame_parts)
   \<and> (\<forall>v \<in> set vals. json_string v \<and> v \<noteq> [] \<and> length v \<le> max_value_len)"

definition position_of_claim :: "bytes list \<Rightarrow> bytes list \<Rightarrow> bytes \<Rightarrow> bytes \<Rightarrow> bytes \<Rightarrow> bytes \<Rightarrow> nat \<Rightarrow> claim_position" where
  "position_of_claim keys vals iss iat x y i =
     \<lparr>cp_key = keys ! i,
      cp_start = length (join_with [dquote] (frame_segs iss iat x y @ claim_pre [0x7D, 0x7D] (take i (zip keys vals)))),
      cp_value = vals ! i, colon_offset = length (keys ! i) + 2\<rparr>"

text \<open>The credential that issuing from well-formed claims returns.\<close>

definition issued_credential ::
    "(bytes \<Rightarrow> bytes) \<Rightarrow> (bytes \<Rightarrow> bytes) \<Rightarrow> (nat \<Rightarrow> nat \<Rightarrow> ecdsa_signature) \<Rightarrow> key_pair \<Rightarrow>
     nat \<Rightarrow> affine_point \<Rightarrow> nat \<Rightarrow> nat \<Rightarrow> bytes list \<Rightarrow> bytes list \<Rightarrow> jwt_credential" where
  "issued_credential encode sha256_digest sign cred issuer_sk issuer_pk max_key_len max_value_len keys vals =
     (let (x, y) = pk_coords_to_base64url encode (snd cred);
          payload = build_payload_json keys vals JWT_ISS_VALUE JWT_IAT_DEFAULT x y;
          msg = encode JWT_HEADER_JSON @ [0x2E] @ encode payload;
          h = from_bytes_be (sha256_digest msg) mod P256_SCALAR_ORDER
      in \<lparr>jc_header_b64 = encode JWT_HEADER_JSON, jc_payload_b64 = encode payload, jc_jwt_message_bytes = msg,
          jc_signature = sign h issuer_sk, jc_message_hash = h, jc_issuer_pk = issuer_pk,
          jc_claims = map (position_of_claim keys vals JWT_ISS_VALUE JWT_IAT_DEFAULT x y) [0..<length keys],
          jc_decoded_payload = payload, jc_cred_sk = fst cred, jc_cred_pk = snd cred,
          jc_attributes = map2 (padded_attribute max_key_len max_value_len) keys vals,
          jc_claim_keys = keys, jc_max_key_len = max_key_len, jc_max_value_len = max_value_len,
          jc_iss = JWT_ISS_VALUE, jc_iat = JWT_IAT_DEFAULT,
          jc_iss_claim = \<lparr>cp_key = str ''iss'', cp_start = 1, cp_value = JWT_ISS_VALUE, colon_offset = 5\<rparr>,
          jc_iat_claim = \<lparr>cp_key = str ''iat'', cp_start = 36, cp_value = JWT_IAT_DEFAULT, colon_offset = 5\<rparr>,
          jc_cnf_start = 55\<rparr>)"

lemma attribute_of_claim:
  assumes "length k \<le> jl_max_key_len l" "length v \<le> mv" "jl_attribute_len_bytes l = jl_max_key_len l + mv"
    "0 < mv" "mv mod 4 = 0" "jl_max_key_len l mod 4 = 0"
  shows "jwt_attribute l k v = Inr (padded_attribute (jl_max_key_len l) mv k v)"
proof -
  have "resize (jl_max_key_len l + mv) 0 (resize (jl_max_key_len l) 0 k @ v)
      = k @ replicate (jl_max_key_len l - length k) 0 @ v @ replicate (mv - length v) 0"
    using assms by (simp add: resize_def)
  moreover have "valid_attribute (padded_attribute (jl_max_key_len l) mv k v)"
    using assms by (simp add: valid_attribute_def padded_attribute_def len_bytes_def mod_add_eq [symmetric])
  ultimately show ?thesis
    by (simp add: jwt_attribute_def assms(3) attribute_from_vec_iff padded_attribute_def)
qed

lemma standard_strings: "json_string JWT_ISS_VALUE" "json_string JWT_IAT_DEFAULT"
  by (simp_all add: JWT_ISS_VALUE_def JWT_IAT_DEFAULT_def bytes_of_string_def ascii_string)

lemma find_claims_of_payload:
  assumes ok: "claims_ok keys vals mv" and xy: "json_string x" "json_string y"
  shows "map_res (find_claim_position (build_payload_json keys vals JWT_ISS_VALUE JWT_IAT_DEFAULT x y)) keys
      = Inr (map (position_of_claim keys vals JWT_ISS_VALUE JWT_IAT_DEFAULT x y) [0..<length keys])"
proof -
  let ?kvs = "zip keys vals"
  have len: "length keys = length vals" using ok by (simp add: claims_ok_def)
  have strings: "payload_strings ?kvs JWT_ISS_VALUE JWT_IAT_DEFAULT x y"
    using ok xy standard_strings by (auto simp: payload_strings_def claims_ok_def dest: set_zip_leftD set_zip_rightD)
  have "find_claim_position (join_with [dquote] (payload_segs ?kvs JWT_ISS_VALUE JWT_IAT_DEFAULT x y)) (keys ! i)
      = Inr (position_of_claim keys vals JWT_ISS_VALUE JWT_IAT_DEFAULT x y i)" if i: "i < length keys" for i
  proof -
    have "?kvs = take i ?kvs @ (keys ! i, vals ! i) # drop (Suc i) ?kvs"
      using i len id_take_nth_drop [of i ?kvs] by simp
    moreover have "keys ! i \<notin> set frame_parts" using ok i by (simp add: claims_ok_def)
    moreover have "keys ! i \<notin> fst ` set (take i ?kvs)"
    proof -
      have "fst ` set (take i ?kvs) = set (take i keys)"
        using len by (metis list.set_map map_fst_zip take_map)
      then show ?thesis using ok i by (auto simp: claims_ok_def in_set_conv_nth nth_eq_iff_index_eq)
    qed
    ultimately show ?thesis
      unfolding position_of_claim_def by (rule find_user_claim [OF strings])
  qed
  then show ?thesis
    unfolding payload_is_segs map_res_Inr_iff by (intro nth_equalityI) simp_all
qed

context base64_codec
begin

lemma layout_values:
  assumes "generate_jwt_layout_inner encode keys mv = Inr l"
  shows "jl_claim_keys l = keys" "jl_max_value_len l = mv" "jl_attribute_len_bytes l = jl_max_key_len l + mv"
    "jl_max_key_len l mod 4 = 0" "\<forall>k \<in> set keys. length k \<le> jl_max_key_len l"
    "jl_header_b64_len l = 36" "jl_payload_b64_byte_offset l = 37" "jl_max_msg_len_bytes l = 37 + jl_max_payload_b64_len l"
    "jl_max_decoded_payload_len l mod 3 = 0" "3 * jl_max_payload_b64_len l = 4 * jl_max_decoded_payload_len l"
    "length (build_payload_json keys (replicate (length keys) (replicate mv 0x78)) (replicate 28 0x78) (replicate 12 0x78) (replicate 43 0x78) (replicate 43 0x78))
      \<le> jl_max_decoded_payload_len l"
proof -
  let ?json = "build_payload_json keys (replicate (length keys) (replicate mv 0x78)) (replicate 28 0x78) (replicate 12 0x78) (replicate 43 0x78) (replicate 43 0x78)"
  have vals: "map (\<lambda>_. replicate mv 0x78) [0..<length keys] = replicate (length keys) (replicate mv (0x78 :: u8))"
    by (rule nth_equalityI) simp_all
  have hdr: "div_ceil (4 * 27) 3 = 36" by (simp add: div_ceil_def)
  have len: "length (resize (div_ceil (length ?json) 3 * 3) 0 ?json) = div_ceil (length ?json) 3 * 3"
    using div_ceil_mult_ge [of 3 "length ?json"] by (simp add: resize_def)
  have l: "jl_claim_keys l = keys" "jl_max_key_len l = div_ceil (foldl max 0 (map length keys)) 4 * 4" "jl_max_value_len l = mv"
    "jl_attribute_len_bytes l = div_ceil (foldl max 0 (map length keys)) 4 * 4 + mv"
    "jl_max_decoded_payload_len l = div_ceil (length ?json) 3 * 3"
    "jl_max_payload_b64_len l = div_ceil (4 * (div_ceil (length ?json) 3 * 3)) 3"
    "jl_header_b64_len l = 36" "jl_payload_b64_byte_offset l = 37" "jl_max_msg_len_bytes l = 37 + jl_max_payload_b64_len l"
    using assms by (auto simp: generate_jwt_layout_inner_def Let_def vals base64url_encode_def hdr [simplified] encode_length len)
  show "jl_claim_keys l = keys" "jl_max_value_len l = mv" "jl_attribute_len_bytes l = jl_max_key_len l + mv"
    "jl_max_key_len l mod 4 = 0" "jl_header_b64_len l = 36" "jl_payload_b64_byte_offset l = 37"
    "jl_max_msg_len_bytes l = 37 + jl_max_payload_b64_len l" "jl_max_decoded_payload_len l mod 3 = 0"
    by (simp_all add: l)
  have "div_ceil (4 * (m * 3)) 3 = 4 * m" for m by (simp add: div_ceil_def)
  then show "3 * jl_max_payload_b64_len l = 4 * jl_max_decoded_payload_len l" by (simp only: l)
  show "length ?json \<le> jl_max_decoded_payload_len l" unfolding l by (rule div_ceil_mult_ge) simp
  show "\<forall>k \<in> set keys. length k \<le> jl_max_key_len l"
  proof
    fix k assume "k \<in> set keys"
    then have "length k \<le> foldl max 0 (map length keys)" by (intro foldl_max_ge) simp
    also have "\<dots> \<le> jl_max_key_len l" unfolding l by (rule div_ceil_mult_ge) simp
    finally show "length k \<le> jl_max_key_len l" .
  qed
qed

lemma alphabet_string: "set s \<subseteq> set BASE64URL_ALPHABET \<Longrightarrow> json_string s"
proof -
  have "list_all (\<lambda>b. b < 0x80 \<and> b \<noteq> dquote) BASE64URL_ALPHABET" by code_simp
  then show "set s \<subseteq> set BASE64URL_ALPHABET \<Longrightarrow> json_string s"
    by (intro ascii_string) (auto simp: list_all_iff)
qed

lemma generate_jwt_ok:
  assumes ok: "claims_ok keys vals mv" and mv: "0 < mv" "mv mod 4 = 0"
    and pk: "pt_x (snd cred) < 2 ^ 256" "pt_y (snd cred) < 2 ^ 256" and sha: "\<And>m. length (sha256_digest m) = 32"
  obtains l where "generate_jwt_layout_with_keys encode keys mv = Inr l"
    "generate_jwt_from_claims encode sha256_digest sign cred issuer_sk issuer_pk keys vals mv
      = Inr (issued_credential encode sha256_digest sign cred issuer_sk issuer_pk (jl_max_key_len l) mv keys vals)"
    "\<And>x y. pk_coords_to_base64url encode (snd cred) = (x, y) \<Longrightarrow>
      length (build_payload_json keys vals JWT_ISS_VALUE JWT_IAT_DEFAULT x y) \<le> jl_max_decoded_payload_len l
      \<and> length (encode (build_payload_json keys vals JWT_ISS_VALUE JWT_IAT_DEFAULT x y)) \<le> jl_max_payload_b64_len l"
proof -
  obtain l where inner: "generate_jwt_layout_inner encode keys mv = Inr l"
    by (auto simp: generate_jwt_layout_inner_def Let_def)
  note lv = layout_values [OF inner]
  have len: "length vals = length keys" "keys \<noteq> []" using ok by (auto simp: claims_ok_def)
  have layout: "generate_jwt_layout_with_keys encode keys mv = Inr l"
    using inner mv len by (simp add: generate_jwt_layout_with_keys_def ensure_valid_attribute_len_bytes_def)
  obtain sk p where cred: "cred = (sk, p)" by (cases cred)
  obtain x y where xy: "pk_coords_to_base64url encode p = (x, y)" by fastforce
  have xy_len: "length x = 43" "length y = 43" using coords_length [of p] pk xy by (simp_all add: cred)
  have "set x \<subseteq> set BASE64URL_ALPHABET" "set y \<subseteq> set BASE64URL_ALPHABET"
    using xy encode_alphabet by (auto simp: pk_coords_to_base64url_def Let_def base64url_encode_def)
  then have xy_str: "json_string x" "json_string y" by (simp_all add: alphabet_string)
  let ?p = "build_payload_json keys vals JWT_ISS_VALUE JWT_IAT_DEFAULT x y"
  have fits: "length ?p \<le> jl_max_decoded_payload_len l"
    using payload_length_mono [of vals keys mv JWT_ISS_VALUE JWT_IAT_DEFAULT x y] ok len xy_len lv(11)
    by (auto simp: claims_ok_def intro: order.trans)
  have fits64: "length (encode ?p) \<le> jl_max_payload_b64_len l"
  proof -
    have "length (encode ?p) \<le> div_ceil (4 * jl_max_decoded_payload_len l) 3"
      unfolding encode_length using fits by (intro div_ceil_mono) simp
    also have "\<dots> = jl_max_payload_b64_len l" unfolding lv(10) [symmetric] by (simp add: div_ceil_def)
    finally show ?thesis .
  qed
  let ?kvs = "zip keys vals"
  have strings: "payload_strings ?kvs JWT_ISS_VALUE JWT_IAT_DEFAULT x y"
    using ok xy_str standard_strings by (auto simp: payload_strings_def claims_ok_def dest: set_zip_leftD set_zip_rightD)
  note std = find_standard_claims [OF strings, folded payload_is_segs]
  have vals_ok: "map_res (\<lambda>(key, val). ensure (val \<noteq> []) (Bail ''claim value must not be empty'')
       (ensure (length val \<le> mv) (Bail ''claim value length exceeds max_value_len'') (Inr ()))) ?kvs = Inr (replicate (length keys) ())"
    unfolding map_res_Inr_iff using ok len by (intro nth_equalityI) (auto simp: claims_ok_def)
  have attrs: "map_res (\<lambda>(key, val). jwt_attribute l key val) ?kvs = Inr (map2 (padded_attribute (jl_max_key_len l) mv) keys vals)"
    unfolding map_res_Inr_iff using ok len lv mv
    by (intro nth_equalityI) (auto simp: claims_ok_def intro!: attribute_of_claim)
  have hash: "hash_to_scalar sha256_digest m = Inr (from_bytes_be (sha256_digest m) mod P256_SCALAR_ORDER)" for m
    by (simp add: hash_to_scalar_def byte_array_to_scalar_iff sha)
  have "generate_jwt_from_claims encode sha256_digest sign cred issuer_sk issuer_pk keys vals mv
      = Inr (issued_credential encode sha256_digest sign cred issuer_sk issuer_pk (jl_max_key_len l) mv keys vals)"
    unfolding generate_jwt_from_claims_def vals_ok layout bind_res_simps cred
    using len fits fits64
    by (simp add: build_jwt_credential_def xy base64url_encode_def hash find_claims_of_payload [OF ok xy_str] std attrs
        issued_credential_def Let_def lv)
  then show ?thesis using that layout fits fits64 xy by (simp add: cred)
qed

end

end
