(* ===== verification/Jwt_Base_Sound.thy ===== *)
theory Jwt_Base_Sound
  imports Jwt_Base Jwt_Issue
begin

text \<open>
  What an accepted base circuit says.  \<open>base_statement\<close> is the relation the circuit is meant to
  prove, over byte strings: a hashed message with the fixed header whose digest carries a
  signature under the published key, a payload that decodes to a JSON text, the claims of that
  text, and a confirmation key with a proof of possession.
\<close>

subsection \<open>The parts of the circuit on bytes\<close>

lemma weighted_bits:
  assumes "length bs = 8"
  shows "foldl (\<lambda>byte k. byte + map of_bool bs ! k * of_nat (2 ^ (7 - k))) 0 [0..<8] = (of_nat (bits_val (rev bs)) :: gf)"
proof -
  obtain a b c d e f g h where "bs = [a, b, c, d, e, f, g, h]"
    using assms by (auto simp: length_Suc_conv numeral_eq_Suc)
  then show ?thesis by (simp add: upt_rec algebra_simps)
qed

lemma byte_from_message:
  assumes "i < length buf"
  shows "byte_from_message_bits (map of_bool (msg_bits buf)) i = byte_gf (buf ! i)"
proof -
  let ?b = "byte_bits (buf ! i)"
  have le: "8 * i + 8 \<le> length (msg_bits buf)" using assms by simp
  have "map of_bool (msg_bits buf) ! (i * 8 + k) = (map of_bool ?b ! k :: gf)" if "k < 8" for k
  proof -
    have "msg_bits buf ! (8 * i + k) = ?b ! k"
      using nth_take_drop [of k 8 "8 * i" "msg_bits buf"] nth_msg_bits [OF assms] that le by simp
    then show ?thesis using that le by (simp add: mult.commute)
  qed
  then have "byte_from_message_bits (map of_bool (msg_bits buf)) i = foldl (\<lambda>byte k. byte + map of_bool ?b ! k * of_nat (2 ^ (7 - k))) 0 [0..<8]"
    unfolding byte_from_message_bits_def Let_def by (intro foldl_cong) (simp_all del: upt_Suc)
  then show ?thesis using weighted_bits [of ?b] by (simp add: bits_val_byte byte_gf_def)
qed

lemma is_active_fold:
  fixes ind :: "gf list"
  assumes "j \<le> m"
  shows "foldl (\<lambda>(cumsum, is_active) i. let cumsum = cumsum + ind ! (i + 1) in (cumsum, is_active[i := cumsum]))
      (0, replicate m 0) (rev [j..<m])
    = (\<Sum>k\<leftarrow>[j..<m]. ind ! (k + 1), map (\<lambda>i. if i < j then 0 else \<Sum>k\<leftarrow>[i..<m]. ind ! (k + 1)) [0..<m])"
  using assms
proof (induction "m - j" arbitrary: j)
  case 0
  then show ?case by (auto simp: list_eq_iff_nth_eq)
next
  case (Suc d)
  then have j: "j < m" "Suc j \<le> m" "d = m - Suc j" by linarith+
  have up: "[j..<m] = j # [Suc j..<m]" using j(1) by (rule upt_conv_Cons)
  have cum: "(\<Sum>k\<leftarrow>[Suc j..<m]. ind ! (k + 1)) + ind ! (j + 1) = (\<Sum>k\<leftarrow>[j..<m]. ind ! (k + 1))"
    by (simp add: up add.commute)
  have upd: "(map (\<lambda>i. if i < Suc j then 0 else \<Sum>k\<leftarrow>[i..<m]. ind ! (k + 1)) [0..<m])[j := \<Sum>k\<leftarrow>[j..<m]. ind ! (k + 1)]
      = map (\<lambda>i. if i < j then 0 else \<Sum>k\<leftarrow>[i..<m]. ind ! (k + 1)) [0..<m]"
    using j(1) by (intro nth_equalityI) (auto simp: nth_list_update)
  have "rev [j..<m] = rev [Suc j..<m] @ [j]" by (simp add: up)
  then show ?case
    using Suc.hyps(1) [OF j(3,2)] by (simp only: foldl_append foldl.simps prod.case Let_def cum upd)
qed

lemma is_active_unit_vec:
  assumes "l \<le> m"
  shows "is_active_mask (unit_vec (m + 1) l) m = map (\<lambda>i. of_bool (i < l)) [0..<m]"
proof -
  have "(\<Sum>k\<leftarrow>[i..<m]. unit_vec (m + 1) l ! (k + 1)) = of_bool (i < l)" if "i < m" for i
  proof -
    have "(\<Sum>k\<leftarrow>[i..<m]. unit_vec (m + 1) l ! (k + 1)) = (\<Sum>k\<leftarrow>[i..<m]. of_bool (k + 1 = l) :: gf)"
      by (rule arg_cong [of _ _ sum_list]) simp
    also have "\<dots> = (\<Sum>k\<in>{i..<m}. of_bool (k + 1 = l))" by (simp add: sum_list_distinct_conv_sum_set)
    also have "\<dots> = of_bool (i < l)"
      using assms by (cases l) (simp_all add: sum.delta' of_bool_def)
    finally show ?thesis .
  qed
  then show ?thesis
    unfolding is_active_mask_def using is_active_fold [of 0 m "unit_vec (m + 1) l"] by (simp add: list_eq_iff_nth_eq)
qed

lemma payload_consistency_bytes:
  assumes "payload_consistency (map byte_gf cs) (map (\<lambda>i. of_bool (i < l)) [0..<m]) (map byte_gf ps) m"
    and "length cs = m" "length ps = m" "l \<le> m"
  shows "cs = take l ps @ replicate (m - l) 0x41"
proof (rule nth_equalityI)
  show "length cs = length (take l ps @ replicate (m - l) 0x41)" using assms by simp
  fix i assume "i < length cs"
  then have i: "i < m" using assms by simp
  have a: "(of_nat 0x41 :: gf) = byte_gf 0x41" by (simp add: byte_gf_def)
  have "byte_gf (cs ! i) = of_bool (i < l) * (byte_gf (ps ! i) - byte_gf 0x41) + byte_gf 0x41"
    using assms(1) i assms(2,3) unfolding payload_consistency_def list_all_iff Let_def a by (auto simp del: of_bool_eq)
  then have "byte_gf (cs ! i) = byte_gf (if i < l then ps ! i else 0x41)" by simp
  then show "cs ! i = (take l ps @ replicate (m - l) 0x41) ! i"
    using i assms(3,4) by (simp only: byte_gf_inject) (simp add: nth_append)
qed

lemma bind_packed_iff: "bind_packed_array a b \<longleftrightarrow> a = b"
  using list_all2_iff [of "(=)" a b] by (auto simp: bind_packed_array_def list_all_iff list.rel_eq)

lemma json_packed_bytes:
  assumes "length bs \<le> 4 * n"
  shows "json_packed_words (map byte_gf bs) n = pack_be (bs @ replicate (4 * n - length bs) 0)"
proof (rule nth_equalityI)
  let ?js = "bs @ replicate (4 * n - length bs) 0"
  have len: "length ?js = 4 * n" using assms by simp
  show "length (json_packed_words (map byte_gf bs) n) = length (pack_be ?js)"
    by (simp add: json_packed_words_def length_pack_be [OF len])
  fix i assume "i < length (json_packed_words (map byte_gf bs) n)"
  then have i: "i < n" by (simp add: json_packed_words_def)
  let ?byte = "\<lambda>j. if j < length (map byte_gf bs) then map byte_gf bs ! j else 0"
  have byte: "?byte j = byte_gf (?js ! j)" if "j < 4 * n" for j
    using that by (simp add: nth_append)
  have "json_packed_words (map byte_gf bs) n ! i = pack_4_bytes_be (?byte (i * 4)) (?byte (i * 4 + 1)) (?byte (i * 4 + 2)) (?byte (i * 4 + 3))"
    unfolding json_packed_words_def Let_def using i by (simp only: nth_map_upt diff_zero add_0)
  also have "\<dots> = pack_4_bytes_be (byte_gf (?js ! (i * 4))) (byte_gf (?js ! (i * 4 + 1))) (byte_gf (?js ! (i * 4 + 2))) (byte_gf (?js ! (i * 4 + 3)))"
    using i by (subst (1 2 3 4) byte) simp_all
  also have "\<dots> = pack_be ?js ! i"
    unfolding nth_pack_be [OF len i] pack_4_bytes_be_bytes by (simp only: mult.commute)
  finally show "json_packed_words (map byte_gf bs) n ! i = pack_be ?js ! i" .
qed

subsection \<open>Sizes\<close>

lemma padded_json_len_facts:
  "padded_json_len l d mod 4 = 0"
  "k \<in> set (jl_claim_keys l) \<Longrightarrow> d + per_claim_substring_len (length k) (jl_max_value_len l) + 4 \<le> padded_json_len l d"
  "d + per_claim_substring_len 3 28 + 4 \<le> padded_json_len l d" "d + per_claim_substring_len 3 12 + 4 \<le> padded_json_len l d"
  "d + 144 \<le> padded_json_len l d"
proof -
  let ?f = "\<lambda>key_len mv. div_ceil (key_len + mv + 7) 4 * 4 + 4"
  define u where "u = foldl max 0 (map (\<lambda>k. ?f (length k) (jl_max_value_len l)) (jl_claim_keys l))"
  define s where "s = foldl max u [?f 3 28, ?f 3 12, div_ceil 140 4 * 4 + 4]"
  have n: "padded_json_len l d = div_ceil (d + s) 4 * 4"
    by (simp add: padded_json_len_def Let_def s_def u_def)
  then show "padded_json_len l d mod 4 = 0" by simp
  have ge: "d + s \<le> padded_json_len l d" unfolding n by (rule div_ceil_mult_ge) simp
  have sub: "?f a b = per_claim_substring_len a b + 4" for a b by (simp add: per_claim_substring_len_def Let_def)
  have "?f 3 28 \<le> s" "?f 3 12 \<le> s" "div_ceil 140 4 * 4 + 4 \<le> s" "u \<le> s"
    unfolding s_def by (auto intro: foldl_max_ge)
  moreover have "div_ceil 140 4 * 4 + 4 = 144" by (simp add: div_ceil_def)
  ultimately show "d + per_claim_substring_len 3 28 + 4 \<le> padded_json_len l d" "d + per_claim_substring_len 3 12 + 4 \<le> padded_json_len l d"
    "d + 144 \<le> padded_json_len l d"
    using ge unfolding sub by linarith+
  show "d + per_claim_substring_len (length k) (jl_max_value_len l) + 4 \<le> padded_json_len l d" if "k \<in> set (jl_claim_keys l)"
  proof -
    have "?f (length k) (jl_max_value_len l) \<le> u" unfolding u_def using that by (intro foldl_max_ge) simp
    then show ?thesis using ge \<open>u \<le> s\<close> unfolding sub by linarith
  qed
qed

definition base_max_blocks :: "jwt_layout \<Rightarrow> nat" where
  "base_max_blocks l = div_ceil (jl_max_msg_len_bytes l * 8 + 65) 512"

lemma small_value_len:
  assumes "padded_json_len l d < 2 ^ 24" "0 < length (jl_claim_keys l)"
  shows "jl_max_value_len l < 2 ^ 24"
proof -
  obtain k where "k \<in> set (jl_claim_keys l)" using assms(2) by (cases "jl_claim_keys l") auto
  then have "d + per_claim_substring_len (length k) (jl_max_value_len l) + 4 \<le> padded_json_len l d" by (rule padded_json_len_facts)
  moreover have "jl_max_value_len l \<le> per_claim_substring_len (length k) (jl_max_value_len l)"
    using div_ceil_mult_ge [of 4 "length k + jl_max_value_len l + 7"] by (simp add: per_claim_substring_len_def)
  ultimately show ?thesis using assms(1) by linarith
qed

lemma base_max_blocks_bound: "jl_max_msg_len_bytes l + 9 \<le> 64 * base_max_blocks l"
proof -
  have "jl_max_msg_len_bytes l * 8 + 65 \<le> base_max_blocks l * 512"
    unfolding base_max_blocks_def by (rule div_ceil_mult_ge) simp
  then show ?thesis by linarith
qed

subsection \<open>The relation the circuit proves\<close>

text \<open>
  The digest is the chain of compressions over blocks that start with the message and the byte
  \<open>0x80\<close>; \<open>marked_length\<close> says how many blocks.  With the standard padding it is SHA-256.
\<close>

definition hashed_message :: "nat \<Rightarrow> bytes \<Rightarrow> bool list \<Rightarrow> bool" where
  "hashed_message max_blocks msg digest \<longleftrightarrow>
     (\<exists>buf blocks. length buf = 64 * max_blocks \<and> marked_length max_blocks (msg_bits buf) blocks (length msg)
        \<and> take (length msg) buf = msg \<and> digest = concat (map word_bits (sha_chain (msg_bits buf) blocks)))"

definition limbs_gf :: "nat \<Rightarrow> gf list" where
  "limbs_gf v = map of_nat (limbs_of 8 v)"

definition base_statement ::
    "(bytes \<Rightarrow> bytes) \<Rightarrow> ecdsa_verifier \<Rightarrow> jwt_layout \<Rightarrow> gf list \<times> gf list \<Rightarrow> bytes \<Rightarrow> bytes \<Rightarrow> bytes list \<Rightarrow> bool" where
  "base_statement sha256_digest verify_p256 l issuer_pk payload js vals \<longleftrightarrow>
     (\<exists>digest sig ws. hashed_message (base_max_blocks l) (rfc_encode JWT_HEADER_JSON @ [0x2E] @ payload) digest
        \<and> accepts (verify_p256 (limbs_gf (bits_val (rev digest))) sig issuer_pk) ws)
   \<and> length payload \<le> jl_max_payload_b64_len l
   \<and> (\<exists>decoded. rfc_decode (payload @ replicate (jl_max_payload_b64_len l - length payload) 0x41) = Some decoded
        \<and> js = decoded @ replicate (padded_json_len l (length decoded) - length decoded) 0)
   \<and> list_all2 (\<lambda>key v. (\<exists>s. claim_at js s key v) \<and> length v \<le> jl_max_value_len l) (jl_claim_keys l) vals
   \<and> (\<exists>s iss. claim_at js s (bytes_of_string ''iss'') iss \<and> length iss \<le> 28)
   \<and> (\<exists>s iat. claim_at js s (bytes_of_string ''iat'') iat \<and> length iat \<le> 12)
   \<and> (\<exists>s xb yb x y h sig ws. cnf_at js s xb yb \<and> rfc_decode xb = Some x \<and> rfc_decode yb = Some y
        \<and> pop_message_scalar sha256_digest = Inr h
        \<and> accepts (verify_p256 (map of_nat (to_u32_digits h)) sig (limbs_gf (from_bytes_be x), limbs_gf (from_bytes_be y))) ws)"

text \<open>Layouts whose circuits are far below the size of the field.\<close>

definition small_layout :: "jwt_layout \<Rightarrow> bool" where
  "small_layout l \<longleftrightarrow> jl_max_msg_len_bytes l < 2 ^ 24 \<and> padded_json_len l (jl_max_decoded_payload_len l) < 2 ^ 24"

text \<open>The hash part: message bytes, length, and the digest that is signed.\<close>

lemma hash_wires_sound:
  assumes hash: "make_sha256_varlen_circuit (jl_max_msg_len_bytes l) hw = Some (t, [])" and small: "jl_max_msg_len_bytes l < 2 ^ 24"
  obtains buf blocks len where "length buf = 64 * base_max_blocks l" "marked_length (base_max_blocks l) (msg_bits buf) blocks len"
    "t = varlen_targets (base_max_blocks l) (msg_bits buf) blocks len" "len < 2 ^ 31"
proof -
  let ?mb = "base_max_blocks l"
  have "make_varlen_circuits ?mb hw = Some (t, [])"
    using hash by (auto simp: make_sha256_varlen_circuit_def Let_def bindc_Some base_max_blocks_def)
  moreover have mb: "?mb < 2 ^ 24"
    using small by (simp add: base_max_blocks_def div_ceil_def div_less_iff_less_mult)
  moreover have "?mb < 2 ^ 32" using mb by simp
  ultimately obtain bits blocks len where v: "marked_length ?mb bits blocks len" "t = varlen_targets ?mb bits blocks len"
    using make_varlen_circuits_sound by blast
  then have "length bits = 8 * (64 * ?mb)" by (simp add: marked_length_def)
  then obtain buf where b: "length buf = 64 * ?mb" "msg_bits buf = bits" using msg_bits_surj by metis
  have "len < 2 ^ 31" using v(1) mb by (simp add: marked_length_def)
  then show ?thesis using that b v by blast
qed

lemma length_digest_bits: "length (concat (map word_bits (sha_chain bits n))) = 256"
proof -
  have "length (concat (map word_bits ws)) = 32 * length ws" for ws by (induction ws) (simp_all add: word_bits_def)
  then show ?thesis by simp
qed

lemma signed_scalar:
  assumes "make_digest_to_scalar_circuit d" "wire_digest_to_ecdsa (map of_bool ds) d e" "length (ec_msg e) = 8"
  shows "ec_msg e = limbs_gf (bits_val (rev ds))"
proof -
  obtain bs where bs: "length bs = 256" "d = \<lparr>digest_bits_targets = map of_bool bs, expected_scalar = map of_nat (limbs_of 8 (bits_val (rev bs)))\<rparr>"
    using assms(1) unfolding digest_to_scalar_iff by blast
  have zip_eq: "xs = ys" if "length xs = length ys" "list_all (\<lambda>(a, b). a = b) (zip xs ys)" for xs ys :: "gf list"
    using that list_all2_iff [of "(=)" xs ys] unfolding list_all_iff by (simp add: list.rel_eq)
  have "map of_bool ds = (map of_bool bs :: gf list)"
    by (rule zip_eq) (use assms(2) in \<open>simp_all only: wire_digest_to_ecdsa_def bs(2) digest_to_scalar.simps\<close>)
  then have "ds = bs" by (simp only: map_of_bool_inject)
  moreover have "map of_nat (limbs_of 8 (bits_val (rev bs))) = ec_msg e"
    by (rule zip_eq) (use assms(2) in \<open>simp_all only: wire_digest_to_ecdsa_def bs(2) digest_to_scalar.simps\<close>)
  ultimately show ?thesis by (simp only: limbs_gf_def)
qed

lemma message_parts:
  assumes hdr: "constrain_jwt_header rfc_encode (map of_bool (msg_bits buf)) 36" and len: "36 < length buf"
  shows "take 37 buf = rfc_encode JWT_HEADER_JSON @ [0x2E]"
proof (rule nth_equalityI)
  have l36: "length (rfc_encode JWT_HEADER_JSON) = 36" by (simp add: rfc.encode_length div_ceil_def)
  then show "length (take 37 buf) = length (rfc_encode JWT_HEADER_JSON @ [0x2E])" using len by simp
  fix i assume "i < length (take 37 buf)"
  then have i: "i < 37" "i < length buf" by simp_all
  have h: "byte_gf (buf ! i) = byte_gf (rfc_encode JWT_HEADER_JSON ! i)" if "i < 36"
    using hdr that l36 unfolding constrain_jwt_header_def Let_def list_all_iff base64url_encode_def byte_gf_def [symmetric] byte_from_message [OF i(2), symmetric]
    by simp
  have dot: "byte_gf (buf ! 36) = byte_gf 0x2E"
    using hdr len by (simp add: constrain_jwt_header_def Let_def byte_from_message) (simp add: byte_gf_def)
  show "take 37 buf ! i = (rfc_encode JWT_HEADER_JSON @ [0x2E]) ! i"
    using i h dot l36 by (cases "i < 36") (auto simp: nth_append less_Suc_eq numeral_eq_Suc)
qed

lemma payload_length_known:
  assumes "make_one_hot_indicator (m + 1) 0 \<lparr>indicator = ind, oh_value = of_nat len - of_nat 37\<rparr>" "m < 2 ^ 24" "len < 2 ^ 31"
  obtains k where "k \<le> m" "len = 37 + k" "ind = unit_vec (m + 1) k"
proof -
  have lt: "m + 1 < goldilocks_order" using assms(2) by simp
  obtain k where k: "k < m + 1" "ind = unit_vec (m + 1) k" "of_nat len - of_nat 37 = (of_nat k :: gf)"
    using assms(1) unfolding make_one_hot_indicator_iff [OF lt] one_hot_at_eq by auto
  then have "(of_nat len :: gf) = of_nat (37 + k)" by (simp add: diff_eq_eq add.commute)
  then have "len = 37 + k" using assms(2,3) k(1) of_nat_gf_inject [of len "37 + k"] by simp
  then show ?thesis using that k by simp
qed

subsection \<open>The commitment\<close>

definition jwt_attributes :: "jwt_layout \<Rightarrow> bytes list \<Rightarrow> attribute list" where
  "jwt_attributes l vals = map2 (padded_attribute (jl_max_key_len l) (jl_max_value_len l)) (jl_claim_keys l) vals"

definition sane_keys :: "jwt_layout \<Rightarrow> bool" where
  "sane_keys l \<longleftrightarrow> 0 < jl_max_value_len l \<and> jl_max_value_len l mod 4 = 0 \<and> jl_max_key_len l mod 4 = 0
     \<and> (\<forall>k \<in> set (jl_claim_keys l). k \<noteq> [] \<and> hd k \<noteq> 1 \<and> length k \<le> jl_max_key_len l)"

lemma padded_attribute_length:
  "length k \<le> mk \<Longrightarrow> length v \<le> mv \<Longrightarrow> len_bytes (padded_attribute mk mv k v) = mk + mv"
  by (simp add: padded_attribute_def len_bytes_def)

context sponge_permutation
begin

lemma leaf_of_claim:
  assumes "k \<noteq> []" "hd k \<noteq> 1"
  shows "hash_or_noop_circuit perm (map of_nat (to_u32_limbs_le (padded_attribute mk mv k v))) = hashed_leaf perm (padded_attribute mk mv k v)"
proof -
  obtain a r where "k = a # r" "a \<noteq> 1" using assms by (cases k) auto
  then have "as_bytes (padded_attribute mk mv k v) \<noteq> 1 # zs" for zs by (simp add: padded_attribute_def)
  then show ?thesis by (simp add: hashed_leaf_def attribute_to_field_elements_def hash_or_noop_agree)
qed

lemma base_commitment:
  assumes claims: "list_all2 (\<lambda>(k, v) ct. attribute_u32_words ct = map of_nat (to_u32_limbs_le (padded_attribute (jl_max_key_len l) (jl_max_value_len l) k v)))
      (zip (jl_claim_keys l) vals) (jb_claims w)"
    and len: "length vals = length (jl_claim_keys l)" "\<forall>v \<in> set vals. length v \<le> jl_max_value_len l"
    and keys: "sane_keys l" and counts: "ensure_valid_attribute_counts (length (jl_claim_keys l)) m = Inr ()"
  obtains attrs where "pad_attributes (jwt_attributes l vals) m = Inr attrs" "length attrs = m"
    "jwt_base_leaves perm m w = map (hashed_leaf perm) attrs"
    "merkle_root_from_leaves perm (jwt_base_leaves perm m w) = compute_merkle_root perm attrs"
    "\<exists>com. compute_merkle_root perm attrs = Inr com"
proof -
  let ?as = "jwt_attributes l vals" and ?w = "jl_max_key_len l + jl_max_value_len l"
  let ?mk = "Attribute (1 # replicate (?w - 1) 0)"
  obtain k where m: "0 < length (jl_claim_keys l)" "length (jl_claim_keys l) \<le> m" "m = 2 ^ k"
    using counts by (auto simp: ensure_valid_attribute_counts_iff)
  have las: "length ?as = length (jl_claim_keys l)" using len by (simp add: jwt_attributes_def)
  have u: "uniform ?w ?as"
    using keys len unfolding uniform_def sane_keys_def jwt_attributes_def
    by (auto simp: set_zip padded_attribute_length)
  define attrs where "attrs = ?as @ replicate (m - length ?as) ?mk"
  have pad: "pad_attributes ?as m = Inr attrs"
    unfolding m(3) attrs_def by (rule pad_attributes_Inr [OF u]) (use las m in auto)
  have um: "uniform ?w attrs"
    using u keys by (auto simp: attrs_def uniform_def len_bytes_def sane_keys_def)
  have lattrs: "length attrs = m" using las m by (simp add: attrs_def)
  have lcl: "length (jb_claims w) = length ?as" using claims len las by (auto dest: list_all2_lengthD)
  have "map (\<lambda>ct. hash_or_noop_circuit perm (attribute_u32_words ct)) (jb_claims w) = map (hashed_leaf perm) ?as"
  proof (rule nth_equalityI)
    fix i assume "i < length (map (\<lambda>ct. hash_or_noop_circuit perm (attribute_u32_words ct)) (jb_claims w))"
    then have i: "i < length (jl_claim_keys l)" using lcl las by simp
    then have "attribute_u32_words (jb_claims w ! i)
        = map of_nat (to_u32_limbs_le (padded_attribute (jl_max_key_len l) (jl_max_value_len l) (jl_claim_keys l ! i) (vals ! i)))"
      using list_all2_nthD [OF claims, of i] len by simp
    moreover have "jl_claim_keys l ! i \<noteq> []" "hd (jl_claim_keys l ! i) \<noteq> 1" using keys i by (auto simp: sane_keys_def)
    ultimately show "map (\<lambda>ct. hash_or_noop_circuit perm (attribute_u32_words ct)) (jb_claims w) ! i = map (hashed_leaf perm) ?as ! i"
      using i lcl las len by (simp add: leaf_of_claim jwt_attributes_def)
  qed (simp add: lcl)
  moreover have "hashed_leaf perm ?mk = replicate 4 0" by (simp add: hashed_leaf_def len_bytes_def NUM_HASH_OUT_ELTS_def)
  ultimately have leaves: "jwt_base_leaves perm m w = map (hashed_leaf perm) attrs"
    by (simp add: jwt_base_leaves_def Let_def lcl attrs_def NUM_HASH_OUT_ELTS_def)
  have lv: "attributes_to_leaves perm attrs = Inr (map (hashed_leaf perm) attrs)"
    by (rule attributes_to_leaves_Inr [OF um]) (simp add: lattrs m(3))
  have root: "merkle_root_from_leaves perm (jwt_base_leaves perm m w) = compute_merkle_root perm attrs"
    unfolding leaves by (rule circuit_root_of_attributes [OF lv])
  have "compute_merkle_root perm attrs = Inr (subtree_root (compress perm) k (map (hashed_leaf perm) attrs))"
    by (rule compute_merkle_root_Inr [OF um]) (simp add: lattrs m(3))
  then show ?thesis using that pad lattrs leaves root by blast
qed

end

subsection \<open>Soundness\<close>

lemma base_payload_sound:
  assumes b64: "make_base64url_decode_circuit (jl_max_payload_b64_len l) bt"
    and lv: "3 * jl_max_payload_b64_len l = 4 * jl_max_decoded_payload_len l" "jl_max_decoded_payload_len l mod 3 = 0"
    and n: "n = padded_json_len l (length (decoded_bytes bt))"
  obtains cs decoded where "length cs = jl_max_payload_b64_len l" "rfc_decode cs = Some decoded" "input_ascii bt = map byte_gf cs"
    "length decoded = jl_max_decoded_payload_len l" "n = padded_json_len l (jl_max_decoded_payload_len l)"
    "json_packed_words (decoded_bytes bt) (n div 4) = pack_be (decoded @ replicate (n - length decoded) 0)"
    "length (decoded @ replicate (n - length decoded) 0) = 4 * (n div 4)"
proof -
  obtain cs decoded where d: "length cs = jl_max_payload_b64_len l" "rfc_decode cs = Some decoded" "input_ascii bt = map byte_gf cs"
      "decoded_bytes bt = map byte_gf decoded"
    using base64_circuit_decodes [OF b64] by metis
  have "length cs = div_ceil (4 * length decoded) 3" using rfc.decode_length [OF d(2)] .
  then have "length decoded = jl_max_decoded_payload_len l"
    using d(1) lv unfolding div_ceil_def by auto
  moreover have "n mod 4 = 0" unfolding n by (rule padded_json_len_facts)
  moreover have "length decoded \<le> n" using padded_json_len_facts(5) [of "length decoded" l] unfolding n d(4) by simp
  ultimately show ?thesis
    using that [OF d(1,2,3)] json_packed_bytes [of decoded "n div 4"] d(4) n by auto
qed

lemma claim_extracted:
  assumes "make_json_claim_circuit_known_key (4 * k) key mv mk ct" "bind_packed_array (packed_array (slice_targets ct)) (pack_be js)"
    and "length js = 4 * k" "k < goldilocks_order" "mv < goldilocks_order"
  obtains s v where "claim_at js s key v" "length v \<le> mv" "attribute_u32_words ct = map of_nat (to_u32_limbs_le (padded_attribute mk mv key v))"
  using json_claim_sound [OF assms(1) _ assms(3,4,5)] assms(2) unfolding bind_packed_iff by metis

lemma claims_extracted:
  assumes "list_all2 (\<lambda>key ct. make_json_claim_circuit_known_key (4 * k) key mv mk ct \<and> bind_packed_array (packed_array (slice_targets ct)) (pack_be js)) keys cts"
    and js: "length js = 4 * k" "k < goldilocks_order" "mv < goldilocks_order"
  shows "\<exists>vals. list_all2 (\<lambda>key v. (\<exists>s. claim_at js s key v) \<and> length v \<le> mv) keys vals
    \<and> list_all2 (\<lambda>(key, v) ct. attribute_u32_words ct = map of_nat (to_u32_limbs_le (padded_attribute mk mv key v))) (zip keys vals) cts"
  using assms(1)
proof (induction keys cts rule: list_all2_induct)
  case (Cons key keys ct cts)
  then obtain vals where "list_all2 (\<lambda>key v. (\<exists>s. claim_at js s key v) \<and> length v \<le> mv) keys vals"
      "list_all2 (\<lambda>(key, v) ct. attribute_u32_words ct = map of_nat (to_u32_limbs_le (padded_attribute mk mv key v))) (zip keys vals) cts"
    by blast
  moreover have "make_json_claim_circuit_known_key (4 * k) key mv mk ct" "bind_packed_array (packed_array (slice_targets ct)) (pack_be js)"
    using Cons.hyps(1) by blast+
  then obtain s v where "claim_at js s key v" "length v \<le> mv" "attribute_u32_words ct = map of_nat (to_u32_limbs_le (padded_attribute mk mv key v))"
    by (rule claim_extracted [OF _ _ js]) blast
  ultimately show ?case by (intro exI [of _ "v # vals"]) auto
qed simp

context sponge_permutation
begin

lemma base_circuit_sound:
  assumes circ: "make_jwt_base_circuit rfc_encode sha256_digest perm verify_p256 l m w pis"
    and layout: "generate_jwt_layout_with_keys rfc_encode keys mv = Inr l" and small: "small_layout l" and sane: "sane_keys l"
  shows "\<exists>x y payload js vals attrs com.
      base_statement sha256_digest verify_p256 l (x, y) payload js vals
    \<and> length x = 8 \<and> length y = 8
    \<and> pad_attributes (jwt_attributes l vals) m = Inr attrs \<and> compute_merkle_root perm attrs = Inr com
    \<and> length attrs = m \<and> jwt_base_leaves perm m w = map (hashed_leaf perm) attrs
    \<and> merkle_root_from_leaves perm (map (hashed_leaf perm) attrs) = Inr com
    \<and> pis = x @ y @ com @ [0, of_nat LEVEL_UNBOUNDED]"
proof -
  let ?M = "jl_max_payload_b64_len l" and ?h = "jb_hash w"
  have inner: "generate_jwt_layout_inner rfc_encode keys mv = Inr l"
    using layout by (auto simp: generate_jwt_layout_with_keys_def split: if_splits)
  note lv = rfc.layout_values [OF inner]
  note c = circ [unfolded make_jwt_base_circuit_def Let_def lv(6,7)]
  have sm: "jl_max_msg_len_bytes l < 2 ^ 24" "padded_json_len l (jl_max_decoded_payload_len l) < 2 ^ 24"
    using small by (simp_all add: small_layout_def)
  obtain buf blocks len where buf: "length buf = 64 * base_max_blocks l" "marked_length (base_max_blocks l) (msg_bits buf) blocks len"
      "?h = varlen_targets (base_max_blocks l) (msg_bits buf) blocks len" "len < 2 ^ 31"
    using hash_wires_sound [OF _ sm(1)] c by blast
  have h: "sv_message ?h = map of_bool (msg_bits buf)" "sv_digest ?h = map of_bool (concat (map word_bits (sha_chain (msg_bits buf) blocks)))"
    "sv_msg_len_bytes ?h = of_nat len"
    unfolding buf(3) varlen_targets_def by simp_all
  have M: "?M < 2 ^ 24" "jl_max_msg_len_bytes l = 37 + ?M" using sm(1) lv(8) by simp_all
  obtain k where k: "k \<le> ?M" "len = 37 + k" "jb_payload_len_indicator w = unit_vec (?M + 1) k"
    using payload_length_known [OF _ M(1) buf(4)] c unfolding h by blast
  have room: "37 + ?M < length buf" using base_max_blocks_bound [of l] M(2) buf(1) by simp
  define n where "n = padded_json_len l (length (decoded_bytes (jb_b64 w)))"
  note c = c [folded n_def]
  obtain cs decoded where d: "length cs = ?M" "rfc_decode cs = Some decoded" "input_ascii (jb_b64 w) = map byte_gf cs"
      "length decoded = jl_max_decoded_payload_len l" "n = padded_json_len l (jl_max_decoded_payload_len l)"
      "json_packed_words (decoded_bytes (jb_b64 w)) (n div 4) = pack_be (decoded @ replicate (n - length decoded) 0)"
      "length (decoded @ replicate (n - length decoded) 0) = 4 * (n div 4)"
    using base_payload_sound [OF _ lv(10,9) n_def] c by blast
  define payload where "payload = take k (drop 37 buf)"
  define js where "js = decoded @ replicate (n - length decoded) 0"
  have plen: "length payload = k" using k(1) room by (simp add: payload_def)
  have bytes: "bytes_from_message_bits (sv_message ?h) 37 ?M = map byte_gf (take ?M (drop 37 buf))"
    unfolding h bytes_from_message_bits_def using room by (intro nth_equalityI) (simp_all add: byte_from_message)
  have cs: "cs = payload @ replicate (?M - k) 0x41"
  proof -
    have "cs = take k (take ?M (drop 37 buf)) @ replicate (?M - k) 0x41"
      by (rule payload_consistency_bytes [OF _ d(1)])
        (use c room k(1) in \<open>simp_all add: d(3) k(3) is_active_unit_vec [OF k(1), simplified] bytes\<close>)
    then show ?thesis using k(1) by (simp add: payload_def min_def)
  qed
  have msg: "take len buf = rfc_encode JWT_HEADER_JSON @ [0x2E] @ payload"
  proof -
    have "take 37 buf = rfc_encode JWT_HEADER_JSON @ [0x2E]"
      by (rule message_parts) (use c room h(1) in simp_all)
    then show ?thesis unfolding k(2) take_add payload_def by simp
  qed
  have js: "length js = 4 * (n div 4)" "json_packed_words (decoded_bytes (jb_b64 w)) (n div 4) = pack_be js"
    using d(6,7) by (simp_all add: js_def)
  have n4: "4 * (n div 4) = n" using padded_json_len_facts(1) [of l "jl_max_decoded_payload_len l"] unfolding d(5) [symmetric] by auto
  have ord: "n div 4 < goldilocks_order" "jl_max_value_len l < goldilocks_order"
    using sm(2) d(5) small_value_len [OF sm(2)] c by (auto simp: ensure_valid_attribute_counts_iff)
  note c = c [unfolded js(2)]
  let ?ds = "concat (map word_bits (sha_chain (msg_bits buf) blocks))"
  have ecd: "make_ecdsa_circuit verify_p256 (jb_ecdsa w)" using c by blast
  have "make_digest_to_scalar_circuit (jb_digest_to_scalar w)" "wire_digest_to_ecdsa (map of_bool ?ds) (jb_digest_to_scalar w) (jb_ecdsa w)"
    using c unfolding h by blast+
  then have "ec_msg (jb_ecdsa w) = limbs_gf (bits_val (rev ?ds))"
    by (rule signed_scalar) (use ecd in \<open>simp add: make_ecdsa_circuit_def\<close>)
  then have sig: "accepts (verify_p256 (limbs_gf (bits_val (rev ?ds))) (ec_sig (jb_ecdsa w)) (ec_issuer_pk (jb_ecdsa w))) (ec_private (jb_ecdsa w))"
    using ecd by (simp add: make_ecdsa_circuit_def)
  have hashed: "hashed_message (base_max_blocks l) (rfc_encode JWT_HEADER_JSON @ [0x2E] @ payload) ?ds"
    unfolding hashed_message_def msg [symmetric] using buf room k by (intro exI [of _ buf] exI [of _ blocks]) simp
  obtain vals where vals: "list_all2 (\<lambda>key v. (\<exists>s. claim_at js s key v) \<and> length v \<le> jl_max_value_len l) (jl_claim_keys l) vals"
      "list_all2 (\<lambda>(key, v) ct. attribute_u32_words ct = map of_nat (to_u32_limbs_le (padded_attribute (jl_max_key_len l) (jl_max_value_len l) key v)))
        (zip (jl_claim_keys l) vals) (jb_claims w)"
    using claims_extracted [OF _ js(1) ord, where keys = "jl_claim_keys l" and mk = "jl_max_key_len l" and cts = "jb_claims w"] c unfolding n4 by blast
  obtain si iss where iss: "claim_at js si (bytes_of_string ''iss'') iss" "length iss \<le> 28"
    by (rule claim_extracted [OF _ _ js(1) ord(1), of _ 28]) (use c n4 in auto)
  obtain sa iat where iat: "claim_at js sa (bytes_of_string ''iat'') iat" "length iat \<le> 12"
    by (rule claim_extracted [OF _ _ js(1) ord(1), of _ 12]) (use c n4 in auto)
  obtain sc xb yb cx cy where cnf: "cnf_at js sc xb yb" "rfc_decode xb = Some cx" "rfc_decode yb = Some cy"
      "x_limbs (jb_cnf w) = map of_nat (to_u32_limbs_le (Attribute cx))" "y_limbs (jb_cnf w) = map of_nat (to_u32_limbs_le (Attribute cy))"
    by (rule cnf_circuit_sound [of "n div 4" "jb_cnf w" js]) (use c n4 js(1) ord(1) in \<open>auto simp: bind_packed_iff\<close>)
  have "length cx = 4 * 8" "length cy = 4 * 8"
    using cnf(1) rfc_decode_43 [OF cnf(2)] rfc_decode_43 [OF cnf(3)] by (simp_all add: cnf_at_def)
  then have lim: "x_limbs (jb_cnf w) = limbs_gf (from_bytes_be cx)" "y_limbs (jb_cnf w) = limbs_gf (from_bytes_be cy)"
    unfolding cnf(4,5) limbs_gf_def by (simp_all only: limbs_le_val)
  obtain ps where ps: "pop_message_scalar sha256_digest = Inr ps" "pop_constraints verify_p256 ps (jb_cnf w) (jb_owner_sig w) (jb_pop_private w)"
    using c by (auto split: sum.splits)
  have pop: "accepts (verify_p256 (map of_nat (to_u32_digits ps)) (jb_owner_sig w) (limbs_gf (from_bytes_be cx), limbs_gf (from_bytes_be cy))) (jb_pop_private w)"
    using ps(2) by (simp add: pop_constraints_def Let_def lim)
  have lvals: "length vals = length (jl_claim_keys l)" "\<forall>v \<in> set vals. length v \<le> jl_max_value_len l"
    using vals(1) by (auto simp: list_all2_conv_all_nth in_set_conv_nth)
  obtain attrs com where attrs: "pad_attributes (jwt_attributes l vals) m = Inr attrs" "jwt_base_leaves perm m w = map (hashed_leaf perm) attrs"
      "merkle_root_from_leaves perm (jwt_base_leaves perm m w) = compute_merkle_root perm attrs" "compute_merkle_root perm attrs = Inr com" "length attrs = m"
    using base_commitment [OF vals(2) lvals sane] c by metis
  have root: "merkle_root_from_leaves perm (map (hashed_leaf perm) attrs) = Inr com" using attrs(2,3,4) by simp
  obtain x y where xy: "ec_issuer_pk (jb_ecdsa w) = (x, y)" by (cases "ec_issuer_pk (jb_ecdsa w)") auto
  have "pis = x @ y @ com @ [0, of_nat LEVEL_UNBOUNDED]"
    using c unfolding attrs(3,4) by (simp add: register_pk_as_pi_def xy)
  moreover have "length x = 8" "length y = 8" using ecd by (simp_all add: make_ecdsa_circuit_def xy)
  moreover have "base_statement sha256_digest verify_p256 l (x, y) payload js vals"
    unfolding base_statement_def
  proof (intro conjI)
    show "\<exists>digest sig ws. hashed_message (base_max_blocks l) (rfc_encode JWT_HEADER_JSON @ [0x2E] @ payload) digest
        \<and> accepts (verify_p256 (limbs_gf (bits_val (rev digest))) sig (x, y)) ws"
      using hashed sig unfolding xy by blast
    show "length payload \<le> ?M" using plen k(1) by simp
    show "\<exists>decoded. rfc_decode (payload @ replicate (?M - length payload) 0x41) = Some decoded
        \<and> js = decoded @ replicate (padded_json_len l (length decoded) - length decoded) 0"
      using d(2,4,5) unfolding cs plen js_def by (intro exI [of _ decoded]) simp
  qed (use vals(1) iss iat cnf(1,2,3) ps(1) pop in blast)+
  ultimately show ?thesis using attrs(1,2,4,5) root by blast
qed

end

end
