(* ===== verification/Jwt_Base_Complete.thy ===== *)
theory Jwt_Base_Complete
  imports Jwt_Base_Sound
begin

text \<open>
  The prover \<open>prove_jwt_base\<close> on an issued credential: what it fills satisfies the circuit, given
  that the two signature checks accept.  Shorter payloads are filled up with the character
  \<open>A\<close>, which decodes to zero bytes behind the JSON text.
\<close>

subsection \<open>The padded payload\<close>

lemma encode_sextets_zeros: "encode_sextets (replicate (3 * j) 0) = replicate (4 * j) 0"
proof (induction j)
  case (Suc j)
  have "replicate (3 * Suc j) (0 :: nat) = 0 # 0 # 0 # replicate (3 * j) 0" by (simp add: numeral_eq_Suc)
  moreover have "replicate (4 * Suc j) (0 :: nat) = 0 # 0 # 0 # 0 # replicate (4 * j) 0" by (simp add: numeral_eq_Suc)
  ultimately show ?case using Suc by simp
qed simp

lemma encode_sextets_padded:
  "length ns + m = 3 * t \<Longrightarrow> length (encode_sextets ns) + k = 4 * t \<Longrightarrow>
   encode_sextets (ns @ replicate m 0) = encode_sextets ns @ replicate k 0"
proof (induction ns arbitrary: t rule: encode_sextets.induct)
  case 1
  then have "m = 3 * t" "k = 4 * t" by simp_all
  then show ?case by (simp only: encode_sextets_zeros append_Nil encode_sextets.simps)
next
  case (2 b0)
  then obtain j where "m = Suc (Suc (3 * j))" "k = Suc (Suc (4 * j))" by (cases t) auto
  then show ?case by (simp add: encode_sextets_zeros)
next
  case (3 b0 b1)
  then obtain j where "m = Suc (3 * j)" "k = Suc (4 * j)" by (cases t) auto
  then show ?case by (simp add: encode_sextets_zeros)
next
  case (4 b0 b1 b2 bs)
  then show ?case by (cases t) simp_all
qed

lemma rfc_encode_padded:
  assumes "3 * length (rfc_encode bs @ replicate k 0x41) = 4 * (length bs + m)"
  shows "rfc_decode (rfc_encode bs @ replicate k 0x41) = Some (bs @ replicate m 0)"
proof -
  have A: "BASE64URL_ALPHABET ! 0 = 0x41" by code_simp
  define t where "t = (length bs + m) div 3"
  have "4 * (length bs + m) = 3 * length (rfc_encode bs @ replicate k 0x41)" using assms by simp
  then have "length bs + m = 3 * t" unfolding t_def by presburger
  moreover from this have "length (rfc_encode bs) + k = 4 * t" using assms by simp
  ultimately have "encode_sextets (map unat bs @ replicate m 0) = encode_sextets (map unat bs) @ replicate k 0"
    by (intro encode_sextets_padded [where t = t]) (simp_all add: rfc_encode_def)
  then have "rfc_encode (bs @ replicate m 0) = rfc_encode bs @ replicate k 0x41"
    by (simp add: rfc_encode_def A)
  then show ?thesis using rfc_decode_encode by metis
qed

subsection \<open>The claims in the payload\<close>

lemma claim_at_append: "claim_at js s key v \<Longrightarrow> claim_at (js @ zs) s key v"
proof -
  assume c: "claim_at js s key v"
  then have "length (take (length (claim_text key v)) (drop (s + 1) js)) = length (claim_text key v)"
    unfolding claim_at_def by presburger
  then have "length (claim_text key v) + (s + 1) \<le> length js" by (simp add: claim_text_def)
  then show ?thesis using c by (simp add: claim_at_def nth_append)
qed

lemma claim_at_segment:
  assumes segs: "segs = as @ s0 # key # [colon] # v # zs" "zs \<noteq> []"
    and q: "\<forall>s \<in> set segs. dquote \<notin> set s"
    and pre: "s0 \<noteq> []" "last s0 = 0x7B \<or> last s0 = 0x2C" and v: "v \<noteq> []"
  shows "claim_at (join_with [dquote] segs) (length (join_with [dquote] (as @ [s0])) - 1) key v"
    "0 < length (join_with [dquote] (as @ [s0]))"
proof -
  let ?h = "join_with [dquote] (as @ [s0])"
  have js: "join_with [dquote] segs = ?h @ claim_text key v @ join_with [dquote] zs"
    using segs join_append [of "as @ [s0]" "key # [colon] # v # zs"] by (simp add: join_Cons claim_text_def)
  have h: "?h \<noteq> [] \<and> last ?h = last s0"
    using pre(1) join_append [of as "[s0]" "[dquote]"] by (cases "as = []") simp_all
  then show "0 < length ?h" by simp
  then have "Suc (length ?h - 1) = length ?h" by simp
  then show "claim_at (join_with [dquote] segs) (length ?h - 1) key v"
    using h pre(2) v q segs(1) last_conv_nth [of ?h] unfolding js by (simp add: claim_at_def nth_append)
qed
lemma claims_of_payload:
  assumes ok: "claims_ok keys vals mv" and xy: "json_string x" "json_string y" and i: "i < length keys"
    and c: "c = position_of_claim keys vals JWT_ISS_VALUE JWT_IAT_DEFAULT x y i"
  shows "claim_at (build_payload_json keys vals JWT_ISS_VALUE JWT_IAT_DEFAULT x y) (cp_start c - 1) (keys ! i) (cp_value c)"
    "0 < cp_start c" "cp_value c = vals ! i"
proof -
  let ?kvs = "zip keys vals"
  have len: "length keys = length vals" using ok by (simp add: claims_ok_def)
  have strings: "payload_strings ?kvs JWT_ISS_VALUE JWT_IAT_DEFAULT x y"
    using ok xy standard_strings by (auto simp: payload_strings_def claims_ok_def dest: set_zip_leftD set_zip_rightD)
  have kvs: "?kvs = take i ?kvs @ (keys ! i, vals ! i) # drop (Suc i) ?kvs"
    using i len id_take_nth_drop [of i ?kvs] by simp
  let ?pre = "claim_pre [0x7D, 0x7D] (take i ?kvs)"
  obtain init s0 where p: "?pre = init @ [s0]" using claim_segs_nonempty(2) by (metis rev_exhaust)
  let ?as = "frame_segs JWT_ISS_VALUE JWT_IAT_DEFAULT x y @ init"
  have segs: "payload_segs ?kvs JWT_ISS_VALUE JWT_IAT_DEFAULT x y = ?as @ s0 # keys ! i # [colon] # vals ! i # claim_segs [] (drop (Suc i) ?kvs)"
    by (subst kvs) (simp add: payload_segs_def claim_segs_append p)
  have s0: "s0 \<noteq> [] \<and> last s0 = 0x2C" using last_claim_pre [of "[0x7D, 0x7D]" "take i ?kvs"] by (simp add: p)
  have v: "vals ! i \<noteq> []" using ok i len by (simp add: claims_ok_def)
  have st: "cp_start c = length (join_with [dquote] (?as @ [s0]))" and val: "cp_value c = vals ! i"
    by (simp_all add: c position_of_claim_def p)
  show "claim_at (build_payload_json keys vals JWT_ISS_VALUE JWT_IAT_DEFAULT x y) (cp_start c - 1) (keys ! i) (cp_value c)"
    "0 < cp_start c" "cp_value c = vals ! i"
    using claim_at_segment [OF segs _ payload_quotes [OF strings] _ _ v] s0
    by (simp_all add: payload_is_segs st val del: join_with.simps)
qed

lemma frame_claims_of_payload:
  assumes "length x = 43" "length y = 43"
  shows "claim_at (build_payload_json keys vals JWT_ISS_VALUE JWT_IAT_DEFAULT x y) 0 (str ''iss'') JWT_ISS_VALUE"
    "claim_at (build_payload_json keys vals JWT_ISS_VALUE JWT_IAT_DEFAULT x y) 35 (str ''iat'') JWT_IAT_DEFAULT"
    "cnf_at (build_payload_json keys vals JWT_ISS_VALUE JWT_IAT_DEFAULT x y) 55 x y"
proof -
  define r where "r = concat (map (\<lambda>(k, v). [0x2C] @ json_pair k v) (zip keys vals)) @ [0x7D]"
  have p: "build_payload_json keys vals JWT_ISS_VALUE JWT_IAT_DEFAULT x y
      = ([0x7B] @ json_pair (str ''iss'') JWT_ISS_VALUE @ [0x2C] @ json_pair (str ''iat'') JWT_IAT_DEFAULT @ [0x2C]) @ build_cnf_block x y @ r"
    by (simp add: payload_is_segs payload_text r_def)
  show "claim_at (build_payload_json keys vals JWT_ISS_VALUE JWT_IAT_DEFAULT x y) 0 (str ''iss'') JWT_ISS_VALUE"
    unfolding p by (simp add: claim_at_def claim_text_def json_pair_def JWT_ISS_VALUE_def bytes_of_string_def)
  show "claim_at (build_payload_json keys vals JWT_ISS_VALUE JWT_IAT_DEFAULT x y) 35 (str ''iat'') JWT_IAT_DEFAULT"
    unfolding p by (simp add: claim_at_def claim_text_def json_pair_def JWT_ISS_VALUE_def JWT_IAT_DEFAULT_def bytes_of_string_def)
  have "length ([0x7B] @ json_pair (str ''iss'') JWT_ISS_VALUE @ [0x2C] @ json_pair (str ''iat'') JWT_IAT_DEFAULT @ [0x2C]) = 55"
    by (simp add: json_pair_def JWT_ISS_VALUE_def JWT_IAT_DEFAULT_def bytes_of_string_def)
  then show "cnf_at (build_payload_json keys vals JWT_ISS_VALUE JWT_IAT_DEFAULT x y) 55 x y"
    using assms unfolding cnf_at_def p by (simp only: drop_prefix) (simp add: length_build_cnf_block)
qed

lemma cnf_at_append: "cnf_at js s x y \<Longrightarrow> cnf_at (js @ zs) s x y"
proof -
  assume c: "cnf_at js s x y"
  then have "length (take 140 (drop s js)) = 140" by (simp add: cnf_at_def length_build_cnf_block)
  then have "s + 140 \<le> length js" by simp
  then show ?thesis using c by (simp add: cnf_at_def)
qed

subsection \<open>The parts the prover fills\<close>

lemma hash_filled:
  assumes msg: "length msg \<le> jl_max_msg_len_bytes l" "0 < jl_max_msg_len_bytes l" "jl_max_msg_len_bytes l < 2 ^ 24"
  obtains t hw buf where "fill_sha256_varlen_circuit_witness (base_max_blocks l) msg (msg_bits (sha256 msg)) = Inr t"
    "make_sha256_varlen_circuit (jl_max_msg_len_bytes l) hw = Some (t, [])" "sv_message t = map of_bool (msg_bits buf)"
    "length buf = 64 * base_max_blocks l" "take (length msg) buf = msg"
    "sv_digest t = map of_bool (msg_bits (sha256 msg))" "sv_msg_len_bytes t = of_nat (length msg)"
proof -
  let ?mb = "base_max_blocks l" and ?n = "sha_blocks (length msg)"
  have blocks: "div_ceil (length msg * 8 + 65) 512 = ?n" by (simp add: div_ceil_def sha_blocks_def mult.commute)
  have n: "?n \<le> ?mb" unfolding blocks [symmetric] base_max_blocks_def using msg(1) by (intro div_ceil_mono) simp
  have mb: "?mb < 2 ^ 32"
  proof -
    have "?mb < 2 ^ 24" using msg(3) by (simp add: base_max_blocks_def div_ceil_def div_less_iff_less_mult)
    then show ?thesis by simp
  qed
  obtain t where t: "fill_sha256_varlen_circuit_witness ?mb msg (msg_bits (sha256 msg)) = Inr t"
      "sv_digest t = map of_bool (msg_bits (sha256 msg))" "sv_msg_len_bytes t = of_nat (length msg)"
    using n by (auto simp: fill_sha256_varlen_circuit_witness_def Let_def blocks)
  let ?bits = "sha_pad msg @ replicate (512 * ?mb - 512 * ?n) False"
  have vt: "t = varlen_targets ?mb ?bits ?n (length msg)"
    using fill_sha256_varlen [OF t(1)] by (simp add: msg_bits_sha256)
  have "length ?bits = 8 * (64 * ?mb)" using n by (simp add: length_sha_pad)
  then obtain buf where buf: "length buf = 64 * ?mb" "msg_bits buf = ?bits" using msg_bits_surj by metis
  have "msg_bits (take (length msg) buf) = msg_bits msg"
    by (simp add: msg_bits_take buf(2) sha_pad_def)
  then have tk: "take (length msg) buf = msg" by (simp only: msg_bits_inject)
  have "reaches (make_varlen_circuits ?mb) t"
    unfolding vt by (rule make_varlen_circuits_complete [OF marked_length_sha_pad [OF n] mb])
  then obtain hw where "make_varlen_circuits ?mb (hw @ []) = Some (t, [])" unfolding reaches_def by blast
  then have "make_sha256_varlen_circuit (jl_max_msg_len_bytes l) hw = Some (t, [])"
    using msg(2) by (simp add: make_sha256_varlen_circuit_def Let_def bindc_Some base_max_blocks_def)
  moreover have "sv_message t = map of_bool (msg_bits buf)" by (simp add: vt varlen_targets_def buf)
  ultimately show ?thesis using that t buf tk by blast
qed

lemma header_filled:
  assumes buf: "take 37 buf = rfc_encode JWT_HEADER_JSON @ [0x2E]"
  shows "constrain_jwt_header rfc_encode (map of_bool (msg_bits buf)) 36"
proof -
  have l36: "length (rfc_encode JWT_HEADER_JSON) = 36" by (simp add: rfc.encode_length div_ceil_def)
  have len: "36 < length buf" using arg_cong [OF buf, of length] l36 by simp
  have nth: "byte_from_message_bits (map of_bool (msg_bits buf)) i = byte_gf ((rfc_encode JWT_HEADER_JSON @ [0x2E]) ! i)" if "i < 37" for i
    using that len byte_from_message [of i buf] by (simp add: buf [symmetric])
  show ?thesis
    using nth [of 36] nth l36
    by (simp add: constrain_jwt_header_def Let_def list_all_iff base64url_encode_def nth_append byte_gf_def)
qed

lemma payload_filled:
  assumes "take (length p) (drop 37 buf) = p" "length p \<le> m" "37 + m \<le> length buf"
  shows "payload_consistency (map byte_gf (p @ replicate (m - length p) 0x41)) (is_active_mask (unit_vec (m + 1) (length p)) m)
    (bytes_from_message_bits (map of_bool (msg_bits buf)) 37 m) m"
proof -
  have a: "(of_nat 0x41 :: gf) = byte_gf 0x41" by (simp add: byte_gf_def)
  have "map byte_gf (p @ replicate (m - length p) 0x41) ! i
      = is_active_mask (unit_vec (m + 1) (length p)) m ! i * (bytes_from_message_bits (map of_bool (msg_bits buf)) 37 m ! i - of_nat 0x41) + of_nat 0x41"
    if i: "i < m" for i
  proof -
    have "bytes_from_message_bits (map of_bool (msg_bits buf)) 37 m ! i = byte_gf (buf ! (37 + i))"
      using i assms(3) by (simp add: bytes_from_message_bits_def byte_from_message)
    moreover have "buf ! (37 + i) = p ! i" if "i < length p"
      using that assms(3) nth_take [OF that, of "drop 37 buf"] by (simp add: assms(1))
    ultimately show ?thesis
      unfolding is_active_unit_vec [OF assms(2)] a using i assms(2) by (auto simp: nth_append)
  qed
  then show ?thesis by (simp add: payload_consistency_def Let_def list_all_iff)
qed

lemma claims_filled:
  assumes claims: "\<And>i. i < length keys \<Longrightarrow> claim_at js (cp_start (cs ! i) - 1) (keys ! i) (vals ! i) \<and> 0 < cp_start (cs ! i) \<and> cp_value (cs ! i) = vals ! i"
    and len: "length cs = length keys" "length vals = length keys"
    and sizes: "\<forall>v \<in> set vals. length v \<le> mv" "\<forall>k \<in> set keys. length k \<le> mk \<and> k \<noteq> []" "mv mod 4 = 0" "mk mod 4 = 0"
    and js: "length js = 4 * n" "n < goldilocks_order" "mv < goldilocks_order"
    and room: "\<And>i. i < length keys \<Longrightarrow> (cp_start (cs ! i) - 1) div 4 + per_claim_substring_len (length (keys ! i)) mv div 4 + 1 \<le> n"
  obtains cts where "map_res (\<lambda>(key, claim). fill_json_claim_witness_known_key (4 * n) key mv mk js claim) (zip keys cs) = Inr cts"
    "list_all2 (\<lambda>key ct. make_json_claim_circuit_known_key (4 * n) key mv mk ct \<and> bind_packed_array (packed_array (slice_targets ct)) (pack_be js)) keys cts"
    "list_all2 (\<lambda>(key, v) ct. attribute_u32_words ct = map of_nat (to_u32_limbs_le (padded_attribute mk mv key v))) (zip keys vals) cts"
proof -
  have "\<exists>t. fill_json_claim_witness_known_key (4 * n) (keys ! i) mv mk js (cs ! i) = Inr t
      \<and> make_json_claim_circuit_known_key (4 * n) (keys ! i) mv mk t \<and> packed_array (slice_targets t) = pack_be js
      \<and> attribute_u32_words t = map of_nat (to_u32_limbs_le (padded_attribute mk mv (keys ! i) (vals ! i)))" if i: "i < length keys" for i
  proof -
    have v: "cp_value (cs ! i) = vals ! i" using claims [OF i] by simp
    have "claim_at js (cp_start (cs ! i) - 1) (keys ! i) (cp_value (cs ! i))" "0 < cp_start (cs ! i)"
      using claims [OF i] by simp_all
    moreover have "length (cp_value (cs ! i)) \<le> mv" "length (keys ! i) \<le> mk" "keys ! i \<noteq> []"
      using sizes(1,2) i len by (simp_all add: v)
    ultimately show ?thesis
      by (rule json_claim_complete_words [OF _ _ _ _ _ sizes(3,4) js room [OF i]]) (auto simp: v)
  qed
  then obtain f where f: "\<And>i. i < length keys \<Longrightarrow> fill_json_claim_witness_known_key (4 * n) (keys ! i) mv mk js (cs ! i) = Inr (f i)
      \<and> make_json_claim_circuit_known_key (4 * n) (keys ! i) mv mk (f i) \<and> packed_array (slice_targets (f i)) = pack_be js
      \<and> attribute_u32_words (f i) = map of_nat (to_u32_limbs_le (padded_attribute mk mv (keys ! i) (vals ! i)))" by metis
  show ?thesis
  proof (rule that [of "map f [0..<length keys]"])
    show "map_res (\<lambda>(key, claim). fill_json_claim_witness_known_key (4 * n) key mv mk js claim) (zip keys cs) = Inr (map f [0..<length keys])"
      unfolding map_res_Inr_iff using f len by (intro nth_equalityI) simp_all
  qed (use f len in \<open>simp_all add: list_all2_conv_all_nth bind_packed_iff\<close>)
qed

definition pt_limbs :: "affine_point \<Rightarrow> gf list \<times> gf list" where
  "pt_limbs p = (limbs_gf (pt_x p), limbs_gf (pt_y p))"

definition sig_limbs :: "ecdsa_signature \<Rightarrow> gf list \<times> gf list" where
  "sig_limbs s = (limbs_gf (sig_r s), limbs_gf (sig_s s))"

text \<open>The coordinates of a key, base64url-coded, decode to the bytes with its limbs.\<close>

lemma coords_decode:
  assumes "pt_x p < 2 ^ 256" "pt_y p < 2 ^ 256" "pk_coords_to_base64url rfc_encode p = (x, y)"
  obtains xb yb where "rfc_decode x = Some xb" "rfc_decode y = Some yb" "from_bytes_be xb = pt_x p" "from_bytes_be yb = pt_y p"
proof -
  have "pt_x p < 256 ^ 32" "pt_y p < 256 ^ 32" using assms(1,2) by simp_all
  then have "from_bytes_be (pad_be_bytes (to_bytes_be (pt_x p)) 32) = pt_x p" "from_bytes_be (pad_be_bytes (to_bytes_be (pt_y p)) 32) = pt_y p"
    by (simp_all add: pad_to_bytes_be)
  then show ?thesis
    using that assms(3) rfc_decode_encode by (auto simp: pk_coords_to_base64url_def Let_def base64url_encode_def)
qed

lemma message_filled:
  assumes msg: "msg = rfc_encode JWT_HEADER_JSON @ [0x2E] @ e"
    and len: "length e \<le> jl_max_payload_b64_len l" "jl_max_msg_len_bytes l = 37 + jl_max_payload_b64_len l" "jl_max_msg_len_bytes l < 2 ^ 24"
  obtains hash hw where "fill_sha256_varlen_circuit_witness (base_max_blocks l) msg (msg_bits (sha256 msg)) = Inr hash"
    "make_sha256_varlen_circuit (jl_max_msg_len_bytes l) hw = Some (hash, [])" "sv_digest hash = map of_bool (msg_bits (sha256 msg))"
    "constrain_jwt_header rfc_encode (sv_message hash) 36"
    "make_one_hot_indicator (jl_max_payload_b64_len l + 1) 0
       \<lparr>indicator = unit_vec (jl_max_payload_b64_len l + 1) (length e), oh_value = sv_msg_len_bytes hash - of_nat 37\<rparr>"
    "payload_consistency (map byte_gf (e @ replicate (jl_max_payload_b64_len l - length e) 0x41))
       (is_active_mask (unit_vec (jl_max_payload_b64_len l + 1) (length e)) (jl_max_payload_b64_len l))
       (bytes_from_message_bits (sv_message hash) 37 (jl_max_payload_b64_len l)) (jl_max_payload_b64_len l)"
proof -
  let ?M = "jl_max_payload_b64_len l"
  have lmsg: "length msg = 37 + length e" by (simp add: msg rfc.encode_length div_ceil_def)
  have M: "?M < 2 ^ 24" using len by simp
  obtain hash hw buf where hash: "fill_sha256_varlen_circuit_witness (base_max_blocks l) msg (msg_bits (sha256 msg)) = Inr hash"
      "make_sha256_varlen_circuit (jl_max_msg_len_bytes l) hw = Some (hash, [])" "sv_message hash = map of_bool (msg_bits buf)"
      "length buf = 64 * base_max_blocks l" "take (length msg) buf = msg"
      "sv_digest hash = map of_bool (msg_bits (sha256 msg))" "sv_msg_len_bytes hash = of_nat (length msg)"
    by (rule hash_filled [of msg l]) (use lmsg len in auto)
  have header: "constrain_jwt_header rfc_encode (sv_message hash) 36"
  proof -
    have "take 37 (take (length msg) buf) = rfc_encode JWT_HEADER_JSON @ [0x2E]"
      by (subst hash(5)) (simp add: msg rfc.encode_length div_ceil_def)
    moreover have "min 37 (length msg) = 37" using lmsg by simp
    ultimately have "take 37 buf = rfc_encode JWT_HEADER_JSON @ [0x2E]" by (simp only: take_take)
    then show ?thesis unfolding hash(3) by (rule header_filled)
  qed
  have body: "payload_consistency (map byte_gf (e @ replicate (?M - length e) 0x41)) (is_active_mask (unit_vec (?M + 1) (length e)) ?M)
      (bytes_from_message_bits (sv_message hash) 37 ?M) ?M"
  proof -
    have "take (length e) (drop 37 (take (length msg) buf)) = e"
      by (subst hash(5)) (simp add: msg rfc.encode_length div_ceil_def)
    then have "take (length e) (drop 37 buf) = e" unfolding lmsg by (simp add: drop_take)
    moreover have "37 + ?M \<le> length buf" using base_max_blocks_bound [of l] len(2) hash(4) by simp
    ultimately show ?thesis unfolding hash(3) using len(1) by (intro payload_filled)
  qed
  have oh: "make_one_hot_indicator (?M + 1) 0 \<lparr>indicator = unit_vec (?M + 1) (length e), oh_value = sv_msg_len_bytes hash - of_nat 37\<rparr>"
  proof -
    have "?M + 1 < goldilocks_order" using M by simp
    then show ?thesis
      unfolding make_one_hot_indicator_iff [OF \<open>?M + 1 < goldilocks_order\<close>] hash(7) lmsg
      using len(1) by (intro exI [of _ "length e"]) (simp add: one_hot_at_eq)
  qed
  show ?thesis by (rule that [OF hash(1,2,6) header oh body])
qed

subsection \<open>Credentials that fit a layout\<close>

definition claims_fit :: "jwt_layout \<Rightarrow> nat \<Rightarrow> bytes list \<Rightarrow> bytes list \<Rightarrow> bool" where
  "claims_fit l m keys vals \<longleftrightarrow>
     claims_ok keys vals (jl_max_value_len l) \<and> generate_jwt_layout_with_keys rfc_encode keys (jl_max_value_len l) = Inr l
   \<and> small_layout l \<and> sane_keys l \<and> ensure_valid_attribute_counts (length keys) m = Inr ()"

definition key_in_range :: "affine_point \<Rightarrow> bool" where
  "key_in_range p \<longleftrightarrow> pt_x p < 2 ^ 256 \<and> pt_y p < 2 ^ 256"

text \<open>The payload of the issued credential, decoded from its padded text and filled up with zeros.\<close>

lemma issued_payload:
  assumes fit: "claims_fit l m keys vals" and pk: "key_in_range pk" and xy: "pk_coords_to_base64url rfc_encode pk = (x, y)"
    and p: "p = build_payload_json keys vals JWT_ISS_VALUE JWT_IAT_DEFAULT x y" and n: "n = padded_json_len l (jl_max_decoded_payload_len l)"
  obtains z where "length (rfc_encode p) \<le> jl_max_payload_b64_len l"
    "rfc_decode (rfc_encode p @ replicate (jl_max_payload_b64_len l - length (rfc_encode p)) 0x41) = Some (p @ replicate z 0)"
    "length p + z = jl_max_decoded_payload_len l" "length p + z + 144 \<le> n" "n mod 4 = 0" "length x = 43" "length y = 43"
    "json_string x" "json_string y" "200 \<le> n"
proof -
  let ?M = "jl_max_payload_b64_len l" and ?mv = "jl_max_value_len l"
  have ok: "claims_ok keys vals ?mv" and layout: "generate_jwt_layout_with_keys rfc_encode keys ?mv = Inr l"
      and sane: "0 < ?mv" "?mv mod 4 = 0"
    using fit by (simp_all add: claims_fit_def sane_keys_def)
  have pk': "pt_x (snd (0 :: nat, pk)) < 2 ^ 256" "pt_y (snd (0 :: nat, pk)) < 2 ^ 256" using pk by (simp_all add: key_in_range_def)
  have inner: "generate_jwt_layout_inner rfc_encode keys ?mv = Inr l"
    using layout by (auto simp: generate_jwt_layout_with_keys_def split: if_splits)
  note lv = rfc.layout_values [OF inner]
  have len: "length p \<le> jl_max_decoded_payload_len l" "length (rfc_encode p) \<le> ?M"
    using rfc.generate_jwt_ok [OF ok sane pk' length_sha256] layout xy unfolding p by (metis snd_conv sum.inject(2))+
  define z where "z = jl_max_decoded_payload_len l - length p"
  have z: "length p + z = jl_max_decoded_payload_len l" using len by (simp add: z_def)
  have "rfc_decode (rfc_encode p @ replicate (?M - length (rfc_encode p)) 0x41) = Some (p @ replicate z 0)"
    by (rule rfc_encode_padded) (use len lv(10) z in simp)
  moreover have "length x = 43" "length y = 43"
    using rfc.coords_length [of pk] xy pk by (simp_all add: key_in_range_def)
  moreover have "set x \<subseteq> set BASE64URL_ALPHABET" "set y \<subseteq> set BASE64URL_ALPHABET"
    using xy rfc.encode_alphabet by (auto simp: pk_coords_to_base64url_def Let_def base64url_encode_def)
  then have "json_string x" "json_string y" by (simp_all add: rfc.alphabet_string)
  moreover have "length p + z + 144 \<le> n" "n mod 4 = 0"
    using padded_json_len_facts(1,5) [where l = l and d = "jl_max_decoded_payload_len l"] unfolding n z by simp_all
  moreover have "74 \<le> length p" unfolding p payload_length by simp
  ultimately show ?thesis using that [OF len(2), of z] z by linarith
qed

lemma cnf_filled:
  assumes at: "cnf_at js s xb yb" "rfc_decode xb = Some x" "rfc_decode yb = Some y"
    and js: "length js = 4 * n" "n < goldilocks_order" "s div 4 + 36 \<le> n"
  obtains t where "fill_cnf_extractor_witness rfc_decode (4 * n) js s xb yb = Inr t"
    "make_cnf_extractor_circuit (4 * n) t" "bind_packed_array (packed_array (cnf_slice_targets t)) (pack_be js)"
    "x_limbs t = limbs_gf (from_bytes_be x)" "y_limbs t = limbs_gf (from_bytes_be y)"
proof -
  obtain t where t: "fill_cnf_extractor_witness rfc_decode (4 * n) js s xb yb = Inr t"
    "make_cnf_extractor_circuit (4 * n) t" "packed_array (cnf_slice_targets t) = pack_be js"
    using cnf_circuit_complete [OF at js] by blast
  have l: "length x = 4 * 8" "length y = 4 * 8"
    using at(1) rfc_decode_43 [OF at(2)] rfc_decode_43 [OF at(3)] by (simp_all add: cnf_at_def)
  then have "x_limbs t = map of_nat (to_u32_limbs_le (Attribute x))" "y_limbs t = map of_nat (to_u32_limbs_le (Attribute y))"
    using t(1) by (auto simp: fill_cnf_extractor_witness_def Let_def rfc_base64url_decode at(2,3) fill_base64url_decode_witness_def pack_coord_limbs_bytes)
  then have "x_limbs t = limbs_gf (from_bytes_be x)" "y_limbs t = limbs_gf (from_bytes_be y)"
    using l by (simp_all only: limbs_gf_def limbs_le_val)
  then show ?thesis using that t by (simp add: bind_packed_iff)
qed

text \<open>The user claims, the issuer and the time of issue, filled over the padded payload.\<close>

lemma issued_claims_filled:
  assumes fit: "claims_fit l m keys vals" and pk: "key_in_range pk" and xy: "pk_coords_to_base64url rfc_encode pk = (x, y)"
    and p: "p = build_payload_json keys vals JWT_ISS_VALUE JWT_IAT_DEFAULT x y"
    and n: "4 * n = padded_json_len l (jl_max_decoded_payload_len l)" and js: "js = p @ replicate k 0" "length js = 4 * n"
    and cs: "cs = map (position_of_claim keys vals JWT_ISS_VALUE JWT_IAT_DEFAULT x y) [0..<length keys]"
  obtains cts iss iat where
    "map_res (\<lambda>(key, claim). fill_json_claim_witness_known_key (4 * n) key (jl_max_value_len l) (jl_max_key_len l) js claim) (zip keys cs) = Inr cts"
    "list_all2 (\<lambda>key ct. make_json_claim_circuit_known_key (4 * n) key (jl_max_value_len l) (jl_max_key_len l) ct
       \<and> bind_packed_array (packed_array (slice_targets ct)) (pack_be js)) keys cts"
    "list_all2 (\<lambda>(key, v) ct. attribute_u32_words ct = map of_nat (to_u32_limbs_le (padded_attribute (jl_max_key_len l) (jl_max_value_len l) key v)))
       (zip keys vals) cts"
    "fill_json_claim_witness_known_key (4 * n) (str ''iss'') 28 4 js \<lparr>cp_key = str ''iss'', cp_start = 1, cp_value = JWT_ISS_VALUE, colon_offset = 5\<rparr> = Inr iss"
    "make_json_claim_circuit_known_key (4 * n) (str ''iss'') 28 4 iss" "bind_packed_array (packed_array (slice_targets iss)) (pack_be js)"
    "fill_json_claim_witness_known_key (4 * n) (str ''iat'') 12 4 js \<lparr>cp_key = str ''iat'', cp_start = 36, cp_value = JWT_IAT_DEFAULT, colon_offset = 5\<rparr> = Inr iat"
    "make_json_claim_circuit_known_key (4 * n) (str ''iat'') 12 4 iat" "bind_packed_array (packed_array (slice_targets iat)) (pack_be js)"
proof -
  obtain z where z: "length p + z = jl_max_decoded_payload_len l" "length x = 43" "length y = 43" "json_string x" "json_string y"
    using issued_payload [OF fit pk xy p refl] by metis
  let ?mv = "jl_max_value_len l" and ?d = "jl_max_decoded_payload_len l"
  have ok: "claims_ok keys vals ?mv" and sane: "?mv mod 4 = 0" "jl_max_key_len l mod 4 = 0" and small: "4 * n < 2 ^ 24"
      and layout: "generate_jwt_layout_with_keys rfc_encode keys ?mv = Inr l"
    using fit by (simp_all add: claims_fit_def sane_keys_def small_layout_def n)
  have inner: "generate_jwt_layout_inner rfc_encode keys ?mv = Inr l"
    using layout by (auto simp: generate_jwt_layout_with_keys_def split: if_splits)
  have keys: "jl_claim_keys l = keys" using rfc.layout_values [OF inner] by simp
  have "?mv < 2 ^ 24" by (rule small_value_len [of l ?d]) (use fit in \<open>auto simp: claims_fit_def small_layout_def keys claims_ok_def\<close>)
  then have ord: "n < goldilocks_order" "?mv < goldilocks_order" using small by simp_all
  have room: "a div 4 + per_claim_substring_len kl mv div 4 + 1 \<le> n"
    if "a < length p" "?d + per_claim_substring_len kl mv + 4 \<le> padded_json_len l ?d" for a kl mv
  proof -
    obtain q where q: "per_claim_substring_len kl mv = 4 * q" by (rule per_claim_len)
    have "a div 4 * 4 \<le> a" by simp
    then show ?thesis using that z(1) unfolding n [symmetric] q by simp
  qed
  have key_len: "length k \<le> jl_max_key_len l \<and> k \<noteq> []" if "k \<in> set keys" for k
    using that fit by (simp add: claims_fit_def sane_keys_def keys)
  have at: "claim_at p (cp_start (cs ! i) - 1) (keys ! i) (vals ! i) \<and> 0 < cp_start (cs ! i) \<and> cp_value (cs ! i) = vals ! i"
    if "i < length keys" for i
    using claims_of_payload [OF ok z(4,5) that refl] that by (simp add: cs p)
  have at': "claim_at js (cp_start (cs ! i) - 1) (keys ! i) (vals ! i) \<and> 0 < cp_start (cs ! i) \<and> cp_value (cs ! i) = vals ! i"
    if "i < length keys" for i
    using at [OF that] by (simp add: js(1) claim_at_append)
  have rm: "(cp_start (cs ! i) - 1) div 4 + per_claim_substring_len (length (keys ! i)) ?mv div 4 + 1 \<le> n" if i: "i < length keys" for i
  proof (rule room)
    show "cp_start (cs ! i) - 1 < length p" using at [OF i] by (simp add: claim_at_def)
  qed (use i padded_json_len_facts(2) [of "keys ! i" l ?d] keys in simp)
  have lv: "length vals = length keys" "\<forall>v \<in> set vals. length v \<le> ?mv" using ok by (simp_all add: claims_ok_def)
  obtain cts where cts:
    "map_res (\<lambda>(key, claim). fill_json_claim_witness_known_key (4 * n) key ?mv (jl_max_key_len l) js claim) (zip keys cs) = Inr cts"
    "list_all2 (\<lambda>key ct. make_json_claim_circuit_known_key (4 * n) key ?mv (jl_max_key_len l) ct
       \<and> bind_packed_array (packed_array (slice_targets ct)) (pack_be js)) keys cts"
    "list_all2 (\<lambda>(key, v) ct. attribute_u32_words ct = map of_nat (to_u32_limbs_le (padded_attribute (jl_max_key_len l) ?mv key v))) (zip keys vals) cts"
    by (rule claims_filled [OF at' _ lv(1,2) _ sane js(2) ord rm]) (use key_len cs in auto)
  note frame = frame_claims_of_payload(1,2) [OF z(2,3), of keys vals, folded p]
  have std: "\<exists>t. fill_json_claim_witness_known_key (4 * n) key mv 4 js c = Inr t \<and> make_json_claim_circuit_known_key (4 * n) key mv 4 t
      \<and> bind_packed_array (packed_array (slice_targets t)) (pack_be js)"
    if c: "claim_at p a key (cp_value c)" "cp_start c = a + 1" "length key = 3" "length (cp_value c) \<le> mv" "mv mod 4 = 0" "mv < 2 ^ 24"
      "?d + per_claim_substring_len 3 mv + 4 \<le> padded_json_len l ?d" for key mv c a
  proof -
    have "claim_at js (cp_start c - 1) key (cp_value c)" "0 < cp_start c" using c(1,2) by (simp_all add: js(1) claim_at_append)
    moreover have "length key \<le> 4" "key \<noteq> []" "mv < goldilocks_order" using c(3,6) by auto
    moreover have "(cp_start c - 1) div 4 + per_claim_substring_len (length key) mv div 4 + 1 \<le> n"
      using room [of a 3 mv] c(1,2,3,7) by (simp add: claim_at_def)
    ultimately show ?thesis
      using json_claim_complete [of js c key mv 4 n] c(4,5) js(2) ord(1) by (metis bind_packed_iff mod_self)
  qed
  have lens: "length JWT_ISS_VALUE \<le> 28" "length JWT_IAT_DEFAULT \<le> 12" "length (str ''iss'') = 3" "length (str ''iat'') = 3"
    by (simp_all add: JWT_ISS_VALUE_def JWT_IAT_DEFAULT_def bytes_of_string_def)
  obtain iss where iss: "fill_json_claim_witness_known_key (4 * n) (str ''iss'') 28 4 js \<lparr>cp_key = str ''iss'', cp_start = 1, cp_value = JWT_ISS_VALUE, colon_offset = 5\<rparr> = Inr iss"
    "make_json_claim_circuit_known_key (4 * n) (str ''iss'') 28 4 iss" "bind_packed_array (packed_array (slice_targets iss)) (pack_be js)"
    using std [where c = "\<lparr>cp_key = str ''iss'', cp_start = 1, cp_value = JWT_ISS_VALUE, colon_offset = 5\<rparr>" and a = 0 and mv = 28 and key = "str ''iss''"]
      frame(1) lens padded_json_len_facts(3) [of ?d l] by auto
  obtain iat where iat: "fill_json_claim_witness_known_key (4 * n) (str ''iat'') 12 4 js \<lparr>cp_key = str ''iat'', cp_start = 36, cp_value = JWT_IAT_DEFAULT, colon_offset = 5\<rparr> = Inr iat"
    "make_json_claim_circuit_known_key (4 * n) (str ''iat'') 12 4 iat" "bind_packed_array (packed_array (slice_targets iat)) (pack_be js)"
    using std [where c = "\<lparr>cp_key = str ''iat'', cp_start = 36, cp_value = JWT_IAT_DEFAULT, colon_offset = 5\<rparr>" and a = 35 and mv = 12 and key = "str ''iat''"]
      frame(2) lens padded_json_len_facts(4) [of ?d l] by auto
  show ?thesis by (rule that [OF cts iss iat])
qed

subsection \<open>The circuit around the signatures\<close>

text \<open>
  The values of \<open>prove_jwt_base\<close> that do not depend on the signature check, and when the circuit
  they belong to is satisfied: exactly when the signature parts are.
\<close>

context sponge_permutation
begin

lemma base_filled:
  assumes fit: "claims_fit l m keys vals" and pk: "key_in_range pk"
    and jwt: "jwt = issued_credential rfc_encode sha256 sign (sk, pk) issuer_sk issuer_pk (jl_max_key_len l) (jl_max_value_len l) keys vals"
    and msg: "msg = jc_jwt_message_bytes jwt"
  obtains hw hash padded dec b64 n cts iss iat x y cnf com where
    "fill_sha256_varlen_circuit_witness (base_max_blocks l) msg (msg_bits (sha256 msg)) = Inr hash"
    "sv_digest hash = map of_bool (msg_bits (sha256 msg))"
    "padded_payload_b64 jwt (jl_max_payload_b64_len l) = Inr padded" "base64url_decode rfc_decode padded = Inr dec"
    "fill_base64url_decode_witness (jl_max_payload_b64_len l) padded dec = Inr b64"
    "n = padded_json_len l (length (decoded_bytes b64))"
    "map_res (\<lambda>(key, claim). fill_json_claim_witness_known_key n key (jl_max_value_len l) (jl_max_key_len l) (resize n 0 dec) claim) (zip keys (jc_claims jwt)) = Inr cts"
    "fill_json_claim_witness_known_key n (str ''iss'') 28 4 (resize n 0 dec) (jc_iss_claim jwt) = Inr iss"
    "fill_json_claim_witness_known_key n (str ''iat'') 12 4 (resize n 0 dec) (jc_iat_claim jwt) = Inr iat"
    "pk_coords_to_base64url rfc_encode pk = (x, y)"
    "fill_cnf_extractor_witness rfc_decode n (resize n 0 dec) (jc_cnf_start jwt) x y = Inr cnf"
    "x_limbs cnf = limbs_gf (pt_x pk)" "y_limbs cnf = limbs_gf (pt_y pk)"
    "bind_res (pad_attributes (jc_attributes jwt) m) (compute_merkle_root perm) = Inr com"
    "\<And>ec dts osig pw pis. make_jwt_base_circuit rfc_encode sha256 perm verify l m
       \<lparr>jb_ecdsa = ec, jb_digest_to_scalar = dts, jb_hash = hash, jb_hash_wires = hw, jb_b64 = b64,
        jb_payload_len_indicator = unit_vec (jl_max_payload_b64_len l + 1) (length (jc_payload_b64 jwt)), jb_claims = cts, jb_iss = iss,
        jb_iat = iat, jb_cnf = cnf, jb_owner_sig = osig, jb_pop_private = pw, jb_level = 0, jb_max_level = of_nat LEVEL_UNBOUNDED\<rparr> pis
      \<longleftrightarrow> make_ecdsa_circuit verify ec \<and> make_digest_to_scalar_circuit dts \<and> wire_digest_to_ecdsa (sv_digest hash) dts ec
        \<and> (case pop_message_scalar sha256 of Inl _ \<Rightarrow> False | Inr h \<Rightarrow> pop_constraints verify h cnf osig pw)
        \<and> pis = register_pk_as_pi ec @ com @ [0, of_nat LEVEL_UNBOUNDED]"
proof -
  let ?M = "jl_max_payload_b64_len l" and ?d = "jl_max_decoded_payload_len l" and ?mv = "jl_max_value_len l"
  obtain x y where xy: "pk_coords_to_base64url rfc_encode pk = (x, y)" by (cases "pk_coords_to_base64url rfc_encode pk")
  define p where "p = build_payload_json keys vals JWT_ISS_VALUE JWT_IAT_DEFAULT x y"
  define e where "e = rfc_encode p"
  define n where "n = padded_json_len l ?d"
  obtain z where z: "length e \<le> ?M" "rfc_decode (e @ replicate (?M - length e) 0x41) = Some (p @ replicate z 0)"
      "length p + z = ?d" "length p + z + 144 \<le> n" "n mod 4 = 0" "length x = 43" "length y = 43" "200 \<le> n"
    using issued_payload [OF fit pk xy p_def n_def] unfolding e_def by metis
  have layout: "generate_jwt_layout_with_keys rfc_encode keys ?mv = Inr l" and sane: "sane_keys l" and small: "small_layout l"
      and counts: "ensure_valid_attribute_counts (length keys) m = Inr ()" and ok: "claims_ok keys vals ?mv"
    using fit by (simp_all add: claims_fit_def)
  have inner: "generate_jwt_layout_inner rfc_encode keys ?mv = Inr l"
    using layout by (auto simp: generate_jwt_layout_with_keys_def split: if_splits)
  note lv = rfc.layout_values [OF inner]
  have j: "jc_jwt_message_bytes jwt = rfc_encode JWT_HEADER_JSON @ [0x2E] @ e" "jc_payload_b64 jwt = e" "jc_cnf_start jwt = 55"
    "jc_claims jwt = map (position_of_claim keys vals JWT_ISS_VALUE JWT_IAT_DEFAULT x y) [0..<length keys]"
    "jc_iss_claim jwt = \<lparr>cp_key = str ''iss'', cp_start = 1, cp_value = JWT_ISS_VALUE, colon_offset = 5\<rparr>"
    "jc_iat_claim jwt = \<lparr>cp_key = str ''iat'', cp_start = 36, cp_value = JWT_IAT_DEFAULT, colon_offset = 5\<rparr>"
    "jc_attributes jwt = jwt_attributes l vals"
    by (simp_all add: jwt issued_credential_def Let_def xy e_def p_def jwt_attributes_def lv(1) del: append.simps)
  have sm: "jl_max_msg_len_bytes l < 2 ^ 24" "n < 2 ^ 24" "?M < 2 ^ 24" using small lv(8) by (simp_all add: small_layout_def n_def)
  obtain hash hw where hash: "fill_sha256_varlen_circuit_witness (base_max_blocks l) msg (msg_bits (sha256 msg)) = Inr hash"
      "make_sha256_varlen_circuit (jl_max_msg_len_bytes l) hw = Some (hash, [])" "sv_digest hash = map of_bool (msg_bits (sha256 msg))"
      "constrain_jwt_header rfc_encode (sv_message hash) 36"
      "make_one_hot_indicator (?M + 1) 0 \<lparr>indicator = unit_vec (?M + 1) (length e), oh_value = sv_msg_len_bytes hash - of_nat 37\<rparr>"
      "payload_consistency (map byte_gf (e @ replicate (?M - length e) 0x41)) (is_active_mask (unit_vec (?M + 1) (length e)) ?M)
        (bytes_from_message_bits (sv_message hash) 37 ?M) ?M"
    by (rule message_filled [of msg e l]) (use msg j z(1) lv(8) sm(1) in auto)
  define padded where "padded = e @ replicate (?M - length e) 0x41"
  define dec where "dec = p @ replicate z 0"
  have "0 < length p" unfolding p_def payload_length by simp
  then have e_ne: "e \<noteq> []" using rfc.encode_length [of p] by (auto simp: e_def div_ceil_def div_eq_0_iff)
  have lp: "length padded = ?M" "padded \<noteq> []" using z(1) by (auto simp: padded_def e_ne)
  have dec: "rfc_decode padded = Some dec" "length dec = ?d" using z(2,3) by (simp_all add: padded_def dec_def)
  obtain b64 where b64: "fill_base64url_decode_witness ?M padded dec = Inr b64" "make_base64url_decode_circuit ?M b64"
    using base64_fill_succeeds [OF dec(1) lp(2)] lp(1) by metis
  have b: "input_ascii b64 = map byte_gf padded" "decoded_bytes b64 = map byte_gf dec"
    using b64(1) by (auto simp: fill_base64url_decode_witness_def Let_def)
  have n4: "4 * (n div 4) = n" using z(5) by auto
  then have n4': "4 * (n div 4) = padded_json_len l ?d" by (simp add: n_def)
  define js where "js = resize n 0 dec"
  have js: "js = p @ replicate (n - length p) 0" "js = dec @ replicate (n - length dec) 0" "length js = 4 * (n div 4)"
    using z(3,4) n4 by (simp_all add: js_def resize_def dec_def replicate_add [symmetric])
  obtain cts iss iat where
      "map_res (\<lambda>(key, claim). fill_json_claim_witness_known_key n key ?mv (jl_max_key_len l) js claim) (zip keys (jc_claims jwt)) = Inr cts"
      "list_all2 (\<lambda>key ct. make_json_claim_circuit_known_key n key ?mv (jl_max_key_len l) ct \<and> bind_packed_array (packed_array (slice_targets ct)) (pack_be js)) keys cts"
      "list_all2 (\<lambda>(key, v) ct. attribute_u32_words ct = map of_nat (to_u32_limbs_le (padded_attribute (jl_max_key_len l) ?mv key v))) (zip keys vals) cts"
      "fill_json_claim_witness_known_key n (str ''iss'') 28 4 js (jc_iss_claim jwt) = Inr iss"
      "make_json_claim_circuit_known_key n (str ''iss'') 28 4 iss" "bind_packed_array (packed_array (slice_targets iss)) (pack_be js)"
      "fill_json_claim_witness_known_key n (str ''iat'') 12 4 js (jc_iat_claim jwt) = Inr iat"
      "make_json_claim_circuit_known_key n (str ''iat'') 12 4 iat" "bind_packed_array (packed_array (slice_targets iat)) (pack_be js)"
    unfolding j by (rule issued_claims_filled [OF fit pk xy p_def n4' js(1,3) refl, unfolded n4])
  note cl = this
  obtain xb yb where xyb: "rfc_decode x = Some xb" "rfc_decode y = Some yb" "from_bytes_be xb = pt_x pk" "from_bytes_be yb = pt_y pk"
    using coords_decode [OF _ _ xy] pk by (auto simp: key_in_range_def)
  have "cnf_at js 55 x y" unfolding js(1) p_def by (rule cnf_at_append [OF frame_claims_of_payload(3) [OF z(6,7)]])
  moreover have "55 div 4 + 36 \<le> n div 4" "n div 4 < goldilocks_order" using z(8) sm(2) by simp_all
  ultimately obtain cnf where cnf: "fill_cnf_extractor_witness rfc_decode n js 55 x y = Inr cnf" "make_cnf_extractor_circuit n cnf"
      "bind_packed_array (packed_array (cnf_slice_targets cnf)) (pack_be js)" "x_limbs cnf = limbs_gf (pt_x pk)" "y_limbs cnf = limbs_gf (pt_y pk)"
    using cnf_filled [OF _ xyb(1,2) js(3)] unfolding n4 xyb(3,4) by metis
  have lvals: "length vals = length (jl_claim_keys l)" "\<forall>v \<in> set vals. length v \<le> ?mv"
    using ok by (simp_all add: claims_ok_def lv(1))
  define w0 :: jwt_base_wires where "w0 = \<lparr>jb_ecdsa = undefined, jb_digest_to_scalar = undefined, jb_hash = hash, jb_hash_wires = hw, jb_b64 = b64,
        jb_payload_len_indicator = [], jb_claims = cts, jb_iss = iss, jb_iat = iat, jb_cnf = cnf, jb_owner_sig = undefined,
        jb_pop_private = [], jb_level = 0, jb_max_level = 0\<rparr>"
  obtain attrs com where attrs: "pad_attributes (jwt_attributes l vals) m = Inr attrs"
      "merkle_root_from_leaves perm (jwt_base_leaves perm m w0) = compute_merkle_root perm attrs" "compute_merkle_root perm attrs = Inr com"
  proof -
    have "jb_claims w0 = cts" by (simp add: w0_def)
    then show ?thesis
      using that base_commitment [of l vals w0 m, unfolded lv(1), OF _ lvals [unfolded lv(1)] sane counts] cl(3) by metis
  qed
  have leaves: "jwt_base_leaves perm m w = jwt_base_leaves perm m w0" if "jb_claims w = cts" for w :: jwt_base_wires
    unfolding jwt_base_leaves_def w0_def that jwt_base_wires.simps ..
  have words: "json_packed_words (decoded_bytes b64) (n div 4) = pack_be js"
    using json_packed_bytes [of dec "n div 4"] z(3,4) unfolding b(2) n4 js(2) by (simp add: dec_def)
  have n: "n = padded_json_len l (length (decoded_bytes b64))" by (simp add: n_def b(2) dec(2))
  show ?thesis
  proof (rule that [OF hash(1,3) _ _ b64(1) n cl(1) [unfolded js_def] cl(4) [unfolded js_def] cl(7) [unfolded js_def] xy cnf(1) [folded j(3), unfolded js_def] cnf(4,5)])
    show "padded_payload_b64 jwt ?M = Inr padded" using z(1) by (simp add: padded_payload_b64_def j padded_def resize_def)
    show "base64url_decode rfc_decode padded = Inr dec" by (rule rfc_base64url_decode [OF dec(1)])
    show "bind_res (pad_attributes (jc_attributes jwt) m) (compute_merkle_root perm) = Inr com" by (simp add: j attrs(1,3))
    fix ec dts osig pw pis
    show "make_jwt_base_circuit rfc_encode sha256 perm verify l m
       \<lparr>jb_ecdsa = ec, jb_digest_to_scalar = dts, jb_hash = hash, jb_hash_wires = hw, jb_b64 = b64,
        jb_payload_len_indicator = unit_vec (?M + 1) (length (jc_payload_b64 jwt)), jb_claims = cts, jb_iss = iss,
        jb_iat = iat, jb_cnf = cnf, jb_owner_sig = osig, jb_pop_private = pw, jb_level = 0, jb_max_level = of_nat LEVEL_UNBOUNDED\<rparr> pis
      \<longleftrightarrow> make_ecdsa_circuit verify ec \<and> make_digest_to_scalar_circuit dts \<and> wire_digest_to_ecdsa (sv_digest hash) dts ec
        \<and> (case pop_message_scalar sha256 of Inl _ \<Rightarrow> False | Inr h \<Rightarrow> pop_constraints verify h cnf osig pw)
        \<and> pis = register_pk_as_pi ec @ com @ [0, of_nat LEVEL_UNBOUNDED]"
      unfolding make_jwt_base_circuit_def Let_def jwt_base_wires.simps lv(1,6,7) j(2)
        n [symmetric] words leaves [OF jwt_base_wires.simps(7)] attrs(2,3) sum.case
      using counts hash(2,4,5,6) b64(2) cl(2,5,6,8,9) cnf(2,3) b(1) by (simp add: padded_def)
  qed
qed

text \<open>
  Proving the base statement for an issued credential.  The circuit compares the scalar that the
  signature check uses with the digest bits, while the credential holds the digest reduced
  modulo the group order: the witness satisfies the circuit when the two agree.
\<close>

lemma base_prover:
  assumes fit: "claims_fit l m keys vals" and pk: "key_in_range pk" "key_in_range issuer_pk"
    and jwt: "jwt = issued_credential rfc_encode sha256 sign (sk, pk) issuer_sk issuer_pk (jl_max_key_len l) (jl_max_value_len l) keys vals"
    and sign: "\<And>h k. sig_r (sign h k) < 2 ^ 256 \<and> sig_s (sign h k) < 2 ^ 256"
    and issuer_sig: "accepts (verify (limbs_gf (jc_message_hash jwt)) (sig_limbs (jc_signature jwt)) (pt_limbs issuer_pk)) ws"
    and pop: "pop_message_scalar sha256 = Inr h" "accepts (verify (map of_nat (to_u32_digits h)) (sig_limbs (sign h sk)) (pt_limbs pk)) ws'"
  shows "\<exists>hw w com. prove_jwt_base rfc_encode rfc_decode sha256 sign l jwt issuer_pk hw ws ws' = Inr w
    \<and> bind_res (pad_attributes (jc_attributes jwt) m) (compute_merkle_root perm) = Inr com
    \<and> (\<forall>pis. make_jwt_base_circuit rfc_encode sha256 perm verify l m w pis
        \<longleftrightarrow> from_bytes_be (sha256 (jc_jwt_message_bytes jwt)) < P256_SCALAR_ORDER
          \<and> pis = limbs_gf (pt_x issuer_pk) @ limbs_gf (pt_y issuer_pk) @ com @ [0, of_nat LEVEL_UNBOUNDED])"
proof -
  define msg where "msg = jc_jwt_message_bytes jwt"
  obtain hw hash padded dec b64 n cts iss iat x y cnf com where f:
    "fill_sha256_varlen_circuit_witness (base_max_blocks l) msg (msg_bits (sha256 msg)) = Inr hash"
    "sv_digest hash = map of_bool (msg_bits (sha256 msg))"
    "padded_payload_b64 jwt (jl_max_payload_b64_len l) = Inr padded" "base64url_decode rfc_decode padded = Inr dec"
    "fill_base64url_decode_witness (jl_max_payload_b64_len l) padded dec = Inr b64"
    "n = padded_json_len l (length (decoded_bytes b64))"
    "map_res (\<lambda>(key, claim). fill_json_claim_witness_known_key n key (jl_max_value_len l) (jl_max_key_len l) (resize n 0 dec) claim) (zip keys (jc_claims jwt)) = Inr cts"
    "fill_json_claim_witness_known_key n (str ''iss'') 28 4 (resize n 0 dec) (jc_iss_claim jwt) = Inr iss"
    "fill_json_claim_witness_known_key n (str ''iat'') 12 4 (resize n 0 dec) (jc_iat_claim jwt) = Inr iat"
    "pk_coords_to_base64url rfc_encode pk = (x, y)"
    "fill_cnf_extractor_witness rfc_decode n (resize n 0 dec) (jc_cnf_start jwt) x y = Inr cnf"
    "x_limbs cnf = limbs_gf (pt_x pk)" "y_limbs cnf = limbs_gf (pt_y pk)"
    "bind_res (pad_attributes (jc_attributes jwt) m) (compute_merkle_root perm) = Inr com"
    "\<And>ec dts osig pw pis. make_jwt_base_circuit rfc_encode sha256 perm verify l m
       \<lparr>jb_ecdsa = ec, jb_digest_to_scalar = dts, jb_hash = hash, jb_hash_wires = hw, jb_b64 = b64,
        jb_payload_len_indicator = unit_vec (jl_max_payload_b64_len l + 1) (length (jc_payload_b64 jwt)), jb_claims = cts, jb_iss = iss,
        jb_iat = iat, jb_cnf = cnf, jb_owner_sig = osig, jb_pop_private = pw, jb_level = 0, jb_max_level = of_nat LEVEL_UNBOUNDED\<rparr> pis
      \<longleftrightarrow> make_ecdsa_circuit verify ec \<and> make_digest_to_scalar_circuit dts \<and> wire_digest_to_ecdsa (sv_digest hash) dts ec
        \<and> (case pop_message_scalar sha256 of Inl _ \<Rightarrow> False | Inr h \<Rightarrow> pop_constraints verify h cnf osig pw)
        \<and> pis = register_pk_as_pi ec @ com @ [0, of_nat LEVEL_UNBOUNDED]"
    by (rule base_filled [OF fit pk(1) jwt msg_def, where verify = verify]) blast
  define d where "d = from_bytes_be (sha256 msg)"
  have hashes: "jc_message_hash jwt = d mod P256_SCALAR_ORDER" "jc_cred_pk jwt = pk" "jc_cred_sk jwt = sk"
      "length (jc_claims jwt) = length keys" "jc_signature jwt = sign (jc_message_hash jwt) issuer_sk"
    using f(10) by (simp_all add: jwt issued_credential_def Let_def d_def msg_def)
  have "jl_claim_keys l = keys"
    using fit rfc.layout_values(1) by (auto simp: claims_fit_def generate_jwt_layout_with_keys_def split: if_splits)
  note keys = this
  have big: "set_biguint_target 8 v = Inr (limbs_gf v)" if "v < 2 ^ 256" for v
    using that by (simp add: set_biguint_target_iff limbs_gf_def)
  have "d < 2 ^ (32 * 8)" using from_bytes_be_less [of "sha256 msg"] by (simp add: d_def)
  moreover have "0 < P256_SCALAR_ORDER" "P256_SCALAR_ORDER < 2 ^ 256" by (simp_all add: P256_SCALAR_ORDER_def)
  ultimately have mh: "jc_message_hash jwt < 2 ^ 256" unfolding hashes using mod_less_divisor [of P256_SCALAR_ORDER d] by linarith
  have limbs: "length (limbs_gf v) = 8" for v by (simp add: limbs_gf_def)
  define dts where "dts = \<lparr>digest_bits_targets = map of_bool (msg_bits (sha256 msg)), expected_scalar = limbs_gf (jc_message_hash jwt)\<rparr>"
  have dts: "fill_digest_to_scalar_witness (sha256 msg) (jc_message_hash jwt) = Inr dts"
    by (simp add: fill_digest_to_scalar_witness_def big [OF mh] dts_def)
  then have dts_ok: "make_digest_to_scalar_circuit dts \<longleftrightarrow> d < P256_SCALAR_ORDER"
    using fill_digest_to_scalar [OF dts] \<open>0 < P256_SCALAR_ORDER\<close> by (auto simp: hashes d_def mod_eq_self_iff_div_eq_0 div_eq_0_iff)
  define ec where "ec = \<lparr>ec_issuer_pk = pt_limbs issuer_pk, ec_msg = limbs_gf (jc_message_hash jwt), ec_sig = sig_limbs (jc_signature jwt), ec_private = ws\<rparr>"
  have ind: "map (\<lambda>k. if k = i then 1 else 0) [0..<k] = unit_vec k i" for k i by (rule indicator_map)
  define w where "w = \<lparr>jb_ecdsa = ec, jb_digest_to_scalar = dts, jb_hash = hash, jb_hash_wires = hw, jb_b64 = b64,
        jb_payload_len_indicator = unit_vec (jl_max_payload_b64_len l + 1) (length (jc_payload_b64 jwt)), jb_claims = cts, jb_iss = iss,
        jb_iat = iat, jb_cnf = cnf, jb_owner_sig = sig_limbs (sign h sk), jb_pop_private = ws', jb_level = 0, jb_max_level = of_nat LEVEL_UNBOUNDED\<rparr>"
  have "prove_jwt_base rfc_encode rfc_decode sha256 sign l jwt issuer_pk hw ws ws' = Inr w"
  proof -
    have r: "sig_r (sign h k) < 2 ^ 256" "sig_s (sign h k) < 2 ^ 256" for h k using sign by blast+
    have i: "set_biguint_target 8 (pt_x issuer_pk) = Inr (limbs_gf (pt_x issuer_pk))" "set_biguint_target 8 (pt_y issuer_pk) = Inr (limbs_gf (pt_y issuer_pk))"
      using pk(2) by (intro big; simp only: key_in_range_def)+
    show ?thesis
      unfolding prove_jwt_base_def Let_def hashes(2,3) msg_def [symmetric] base_max_blocks_def [symmetric] f(10) prod.case pop(1) indicator_map keys
      using f(1,3,4,5,7,8,9,11) unfolding f(6)
      by (simp add: big [OF mh] big [OF r(1)] big [OF r(2)] i dts hashes(4,5) w_def ec_def sig_limbs_def pt_limbs_def)
  qed
  moreover have "make_jwt_base_circuit rfc_encode sha256 perm verify l m w pis \<longleftrightarrow> d < P256_SCALAR_ORDER
          \<and> pis = limbs_gf (pt_x issuer_pk) @ limbs_gf (pt_y issuer_pk) @ com @ [0, of_nat LEVEL_UNBOUNDED]" for pis
  proof -
    have "make_ecdsa_circuit verify ec" using issuer_sig by (simp add: make_ecdsa_circuit_def ec_def sig_limbs_def pt_limbs_def limbs)
    moreover have "wire_digest_to_ecdsa (sv_digest hash) dts ec"
      by (auto simp: wire_digest_to_ecdsa_def f(2) dts_def ec_def list_all_iff set_zip)
    moreover have "pop_constraints verify h cnf (sig_limbs (sign h sk)) ws'"
      using pop(2) by (simp add: pop_constraints_def f(12,13) sig_limbs_def pt_limbs_def limbs)
    ultimately show ?thesis
      unfolding w_def f(15) by (simp add: dts_ok pop(1)) (simp add: register_pk_as_pi_def ec_def pt_limbs_def)
  qed
  ultimately show ?thesis using f(14) unfolding d_def msg_def by blast
qed

text \<open>
  The circuit has a witness for every credential that fits, whatever the digest is, when the
  signature check accepts: the wires of the scalar carry the digest itself.
\<close>

lemma base_satisfiable:
  fixes issuer_pk :: affine_point
  assumes fit: "claims_fit l m keys vals" and pk: "key_in_range pk"
  obtains w com where "bind_res (pad_attributes (jwt_attributes l vals) m) (compute_merkle_root perm) = Inr com"
    "make_jwt_base_circuit rfc_encode sha256 perm (\<lambda>_ _ _. ret ()) l m w
       (limbs_gf (pt_x issuer_pk) @ limbs_gf (pt_y issuer_pk) @ com @ [0, of_nat LEVEL_UNBOUNDED])"
proof -
  define jwt where "jwt = issued_credential rfc_encode sha256 (\<lambda>_ _. \<lparr>sig_r = 0, sig_s = 0\<rparr>) (0, pk) 0 issuer_pk (jl_max_key_len l) (jl_max_value_len l) keys vals"
  define msg where "msg = jc_jwt_message_bytes jwt"
  obtain hw hash padded dec b64 n cts iss iat x y cnf com where f:
    "sv_digest hash = map of_bool (msg_bits (sha256 msg))" "x_limbs cnf = limbs_gf (pt_x pk)" "y_limbs cnf = limbs_gf (pt_y pk)"
    "bind_res (pad_attributes (jc_attributes jwt) m) (compute_merkle_root perm) = Inr com"
    "\<And>ec dts osig pw pis. make_jwt_base_circuit rfc_encode sha256 perm (\<lambda>_ _ _. ret ()) l m
       \<lparr>jb_ecdsa = ec, jb_digest_to_scalar = dts, jb_hash = hash, jb_hash_wires = hw, jb_b64 = b64,
        jb_payload_len_indicator = unit_vec (jl_max_payload_b64_len l + 1) (length (jc_payload_b64 jwt)), jb_claims = cts, jb_iss = iss,
        jb_iat = iat, jb_cnf = cnf, jb_owner_sig = osig, jb_pop_private = pw, jb_level = 0, jb_max_level = of_nat LEVEL_UNBOUNDED\<rparr> pis
      \<longleftrightarrow> make_ecdsa_circuit (\<lambda>_ _ _. ret ()) ec \<and> make_digest_to_scalar_circuit dts \<and> wire_digest_to_ecdsa (sv_digest hash) dts ec
        \<and> (case pop_message_scalar sha256 of Inl _ \<Rightarrow> False | Inr h \<Rightarrow> pop_constraints (\<lambda>_ _ _. ret ()) h cnf osig pw)
        \<and> pis = register_pk_as_pi ec @ com @ [0, of_nat LEVEL_UNBOUNDED]"
    by (rule base_filled [OF fit pk jwt_def msg_def, where verify = "\<lambda>_ _ _. ret ()"]) blast
  have keys: "jl_claim_keys l = keys"
    using fit rfc.layout_values(1) by (auto simp: claims_fit_def generate_jwt_layout_with_keys_def split: if_splits)
  have attrs: "jc_attributes jwt = jwt_attributes l vals"
    by (cases "pk_coords_to_base64url rfc_encode pk") (simp add: jwt_def issued_credential_def Let_def jwt_attributes_def keys)
  have pop: "pop_message_scalar sha256 = Inr (from_bytes_be (sha256 POP_CHALLENGE_BYTES) mod P256_SCALAR_ORDER)"
    by (simp add: pop_message_scalar_def hash_to_scalar_def byte_array_to_scalar_iff)
  define d where "d = limbs_gf (from_bytes_be (sha256 msg))"
  define dts where "dts = \<lparr>digest_bits_targets = map of_bool (msg_bits (sha256 msg)), expected_scalar = d\<rparr>"
  have limbs: "length (limbs_gf v) = 8" for v by (simp add: limbs_gf_def)
  have "make_digest_to_scalar_circuit dts"
    unfolding digest_to_scalar_iff dts_def d_def limbs_gf_def
    by (intro exI [of _ "msg_bits (sha256 msg)"]) (simp add: bits_val_msg_bits)
  moreover define ec where "ec = \<lparr>ec_issuer_pk = pt_limbs issuer_pk, ec_msg = d, ec_sig = (limbs_gf 0, limbs_gf 0), ec_private = []\<rparr>"
  have "make_ecdsa_circuit (\<lambda>_ _ _. ret ()) ec" by (simp add: make_ecdsa_circuit_def ec_def pt_limbs_def limbs d_def accepts_def ret_def)
  moreover have "wire_digest_to_ecdsa (sv_digest hash) dts ec"
    by (auto simp: wire_digest_to_ecdsa_def f(1) dts_def ec_def list_all_iff set_zip)
  moreover have "pop_constraints (\<lambda>_ _ _. ret ()) h cnf (limbs_gf 0, limbs_gf 0) []" for h
    by (simp add: pop_constraints_def limbs accepts_def ret_def)
  moreover have "register_pk_as_pi ec = limbs_gf (pt_x issuer_pk) @ limbs_gf (pt_y issuer_pk)"
    by (simp add: register_pk_as_pi_def ec_def pt_limbs_def)
  ultimately have "make_jwt_base_circuit rfc_encode sha256 perm (\<lambda>_ _ _. ret ()) l m
       \<lparr>jb_ecdsa = ec, jb_digest_to_scalar = dts, jb_hash = hash, jb_hash_wires = hw, jb_b64 = b64,
        jb_payload_len_indicator = unit_vec (jl_max_payload_b64_len l + 1) (length (jc_payload_b64 jwt)), jb_claims = cts, jb_iss = iss,
        jb_iat = iat, jb_cnf = cnf, jb_owner_sig = (limbs_gf 0, limbs_gf 0), jb_pop_private = [], jb_level = 0, jb_max_level = of_nat LEVEL_UNBOUNDED\<rparr>
       (limbs_gf (pt_x issuer_pk) @ limbs_gf (pt_y issuer_pk) @ com @ [0, of_nat LEVEL_UNBOUNDED])"
    unfolding f(5) by (simp add: pop)
  then show ?thesis by (rule that [OF f(4) [unfolded attrs]])
qed

end

end
