(* ===== verification/Credential_Origin.thy ===== *)
theory Credential_Origin
  imports Jwt_Base_Complete Ideal_Proofs
begin

text \<open>
  Base proofs, wrapper proofs and delegation chains composed: an accepted delegation proof stems
  from a JWT that carries a signature under the published issuer key.
\<close>

lemma pi_layout_facts:
  assumes "is_power_of_two m"
  shows "delegation_layout (jwt_base_pi_layout jl m)"
    "issuer_pk_pi_start (jwt_base_pi_layout jl m) + issuer_pk_pi_len (jwt_base_pi_layout jl m) \<le> com_pi_start (jwt_base_pi_layout jl m)"
    "base_pi_count (jwt_base_pi_layout jl m) = 22"
  using assms by (simp_all add: delegation_layout_def jwt_base_pi_layout_def base_pi_count_def NUM_HASH_OUT_ELTS_def)

lemma pi_layout_slices:
  assumes "take 22 pis = x @ y @ com @ [lv, mx]" "length x = 8" "length y = 8" "length com = 4"
  shows "pi_issuer_pk (jwt_base_pi_layout jl m) pis = x @ y" "pi_com (jwt_base_pi_layout jl m) pis = com"
    "pis ! level_pi_idx (jwt_base_pi_layout jl m) = lv" "pis ! max_level_pi_idx (jwt_base_pi_layout jl m) = mx"
proof -
  have "pis = (x @ y @ com @ [lv, mx]) @ drop 22 pis" using append_take_drop_id [of 22 pis] unfolding assms(1) by simp
  then obtain r where r: "pis = (x @ y @ com @ [lv, mx]) @ r" by blast
  show "pi_issuer_pk (jwt_base_pi_layout jl m) pis = x @ y" "pi_com (jwt_base_pi_layout jl m) pis = com"
    "pis ! level_pi_idx (jwt_base_pi_layout jl m) = lv" "pis ! max_level_pi_idx (jwt_base_pi_layout jl m) = mx"
    unfolding r using assms(2-4)
    by (simp_all add: pi_issuer_pk_def pi_com_def jwt_base_pi_layout_def NUM_HASH_OUT_ELTS_def nth_append)
qed

text \<open>The credential a base proof stands for.\<close>

definition base_credential :: "gf list \<Rightarrow> attribute list \<Rightarrow> hash_out \<Rightarrow> credential" where
  "base_credential issuer attrs digest =
     \<lparr>cr_issuer = issuer, cr_leaves = map (hashed_leaf poseidon) attrs, cr_level = 0, cr_max_level = LEVEL_UNBOUNDED, cr_type = digest\<rparr>"

lemma hashed_leaves_shape: "list_all (\<lambda>leaf. length leaf = NUM_HASH_OUT_ELTS) (map (hashed_leaf poseidon) attrs)"
  by (simp add: list_all_iff poseidon_sponge.hashed_leaf_length NUM_HASH_OUT_ELTS_def)

lemma base_represents:
  assumes circ: "make_jwt_base_circuit rfc_encode sha256 poseidon verify_p256 jl m w (take 22 pis)"
    and layout: "generate_jwt_layout_with_keys rfc_encode keys mv = Inr jl" and small: "small_layout jl" and sane: "sane_keys jl"
  obtains x y payload js vals attrs where "base_statement sha256 verify_p256 jl (x, y) payload js vals"
    "pad_attributes (jwt_attributes jl vals) m = Inr attrs"
    "represents poseidon (jwt_base_pi_layout jl m) digest pis (base_credential (x @ y) attrs digest)"
proof -
  obtain x y payload js vals attrs com where s: "base_statement sha256 verify_p256 jl (x, y) payload js vals"
      "length x = 8" "length y = 8" "pad_attributes (jwt_attributes jl vals) m = Inr attrs" "length attrs = m"
      "merkle_root_from_leaves poseidon (map (hashed_leaf poseidon) attrs) = Inr com"
      "take 22 pis = x @ y @ com @ [0, of_nat LEVEL_UNBOUNDED]"
    using poseidon_sponge.base_circuit_sound [OF circ layout small sane] by blast
  have "length com = 4" using poseidon_sponge.root_length [OF s(6) hashed_leaves_shape] by (simp add: NUM_HASH_OUT_ELTS_def)
  note sl = pi_layout_slices [OF s(7,2,3) this]
  have "represents poseidon (jwt_base_pi_layout jl m) digest pis (base_credential (x @ y) attrs digest)"
    using hashed_leaves_shape s(5,6) unfolding represents_def sl base_credential_def
    by (simp add: jwt_base_pi_layout_def LEVEL_UNBOUNDED_def MAX_LEVEL_BITS_def)
  then show ?thesis by (rule that [OF s(1,4)])
qed

lemma represents_unique:
  assumes "represents poseidon l digest pis c" "represents poseidon l digest pis c'"
  shows "c = c' \<or> collides (compress poseidon) (compress_inputs poseidon (cr_leaves c) @ compress_inputs poseidon (cr_leaves c'))"
proof -
  have "cr_leaves c = cr_leaves c'
      \<or> collides (compress poseidon) (compress_inputs poseidon (cr_leaves c) @ compress_inputs poseidon (cr_leaves c'))"
    using assms poseidon_sponge.root_inject [of "cr_leaves c" "pi_com l pis" "cr_leaves c'"] by (simp add: represents_def)
  then show ?thesis using assms by (auto simp: represents_def intro: credential.equality)
qed

text \<open>
  A run whose base step carries the wrapper's key starts from a JWT with a signature, and
  delegates its credential.
\<close>

lemma run_from_jwt:
  assumes layout: "generate_jwt_layout_with_keys rfc_encode keys mv = Inr jl" "small_layout jl" "sane_keys jl" "is_power_of_two m"
    and wrapper: "\<And>p pis. verify wrapper_vk p pis \<Longrightarrow>
       \<exists>bp w. wrapper_circuit verify_base base_vk cap_len 22 bp w \<and> pis = wrapper_pis w"
    and base: "\<And>p pis. verify_base base_vk p pis \<Longrightarrow> \<exists>w. make_jwt_base_circuit rfc_encode sha256 poseidon verify_p256 jl m w pis"
    and run: "delegation_run poseidon verify cap_len (jwt_base_pi_layout jl m) ws" "dw_wrapper_vk (last ws) = wrapper_vk"
  obtains x y payload js vals attrs where "base_statement sha256 verify_p256 jl (x, y) payload js vals"
    "pad_attributes (jwt_attributes jl vals) m = Inr attrs"
    "collides (compress poseidon) (compress_inputs poseidon (map (hashed_leaf poseidon) attrs) @ run_inputs poseidon ws) \<or>
     (\<exists>c. (delegates ^^ length ws) (base_credential (x @ y) attrs (circuit_digest wrapper_vk)) c
        \<and> represents poseidon (jwt_base_pi_layout jl m) (circuit_digest wrapper_vk) (delegation_pis (hd ws)) c)"
proof -
  let ?l = "jwt_base_pi_layout jl m" and ?d = "circuit_digest wrapper_vk" and ?wpis = "dw_wrapper_pis (last ws)"
  note lay = pi_layout_facts(1,2) [OF layout(4), of jl]
  note wr = poseidon_sponge.run_wrapper [OF run(1) lay, unfolded run(2)]
  obtain bp ww where w: "wrapper_circuit verify_base base_vk cap_len 22 bp ww" "?wpis = wrapper_pis ww"
    using wr wrapper by blast
  obtain w where "make_jwt_base_circuit rfc_encode sha256 poseidon verify_p256 jl m w (take 22 ?wpis)"
    using base [OF wrapper_forwards(2) [OF w(1)]] unfolding w(2) by blast
  then obtain x y payload js vals attrs where b: "base_statement sha256 verify_p256 jl (x, y) payload js vals"
    "pad_attributes (jwt_attributes jl vals) m = Inr attrs" "represents poseidon ?l ?d ?wpis (base_credential (x @ y) attrs ?d)"
    by (rule base_represents [OF _ layout(1-3)])
  have ne: "ws \<noteq> []" using run(1) by (auto elim: delegation_run_NilE)
  have "represents poseidon ?l ?d ?wpis (run_origin ?l ws)"
    using poseidon_sponge.run_origin_represents [OF run(1) lay] unfolding run(2) .
  from represents_unique [OF b(3) this] consider
      "collides (compress poseidon) (compress_inputs poseidon (map (hashed_leaf poseidon) attrs) @ compress_inputs poseidon (dw_attr_targets (last ws)))"
    | "base_credential (x @ y) attrs ?d = run_origin ?l ws"
    by (auto simp: base_credential_def run_origin_def)
  then show ?thesis
  proof cases
    case 1
    then have "collides (compress poseidon) (compress_inputs poseidon (map (hashed_leaf poseidon) attrs) @ run_inputs poseidon ws)"
      by (rule collides_mono) (use last_in_set [OF ne] in \<open>auto simp: run_inputs_def step_inputs_def\<close>)
    then show ?thesis using that b(1,2) by blast
  next
    case 2
    from poseidon_sponge.run_delegates [OF run(1) lay, unfolded run(2)] show ?thesis
    proof (elim disjE exE conjE)
      assume "collides (compress poseidon) (run_inputs poseidon ws)"
      then have "collides (compress poseidon) (compress_inputs poseidon (map (hashed_leaf poseidon) attrs) @ run_inputs poseidon ws)"
        by (rule collides_mono) simp
      then show ?thesis using that b(1,2) by blast
    next
      fix c assume "(delegates ^^ length ws) (run_origin ?l ws) c" "represents poseidon ?l ?d (delegation_pis (hd ws)) c"
      then show ?thesis using that [OF b(1,2)] 2 by auto
    qed
  qed
qed

end
