(* ===== verification/Jwt_Compact.thy ===== *)
theory Jwt_Compact
  imports Jwt_Issue
begin

text \<open>
  Saving an issued credential in compact form and loading it back: the parts split at the dots
  are the parts written, and every derived field is recomputed to the value it had.
\<close>

lemma split_on_part: "c \<notin> set p \<Longrightarrow> split_on c (p @ c # rest) = p # split_on c rest"
  by (induction p) auto

lemma split_on_last: "c \<notin> set p \<Longrightarrow> split_on c p = [p]"
  by (induction p) auto

lemma scalar_to_be32_pad: "scalar_to_be32 s = pad_be_bytes (to_bytes_be s) 32"
  by (simp add: scalar_to_be32_def pad_be_bytes_def Let_def)

lemma scalar_be32:
  assumes "s < P256_SCALAR_ORDER"
  shows "length (scalar_to_be32 s) = 32" "byte_array_to_scalar (scalar_to_be32 s) = Inr s"
proof -
  have "s < 256 ^ 32" using assms by (simp add: P256_SCALAR_ORDER_def)
  then show "length (scalar_to_be32 s) = 32" "byte_array_to_scalar (scalar_to_be32 s) = Inr s"
    using assms pad_to_bytes_be [of s 32] by (simp_all add: scalar_to_be32_pad byte_array_to_scalar_iff)
qed

lemma alphabet_no_dot: "0x2E \<notin> set BASE64URL_ALPHABET"
  by code_simp

context base64_codec
begin

lemma no_dot: "0x2E \<notin> set (encode bs)"
  using encode_alphabet alphabet_no_dot by blast

lemma encode_utf8: "utf8_valid (encode bs)"
  using alphabet_string encode_alphabet json_string_def by blast

lemma compact_roundtrip:
  assumes ok: "claims_ok keys vals mv" and mv: "0 < mv" "mv mod 4 = 0"
    and pk: "pt_x (snd cred) < P256_BASE_ORDER" "pt_y (snd cred) < P256_BASE_ORDER" "\<not> pt_zero (snd cred)"
    and sha: "\<And>m. length (sha256_digest m) = 32" and layout: "generate_jwt_layout_with_keys encode keys mv = Inr l"
    and c: "c = issued_credential encode sha256_digest sign cred issuer_sk issuer_pk (jl_max_key_len l) mv keys vals"
    and sig: "sig_r (jc_signature c) < P256_SCALAR_ORDER" "sig_s (jc_signature c) < P256_SCALAR_ORDER"
    and verifies: "verify_sig (jc_message_hash c) (jc_signature c) issuer_pk"
  obtains s where "compact_jwt encode c = Inr s"
    "from_compact_jwt decode sha256_digest verify_sig cred issuer_pk s l = Inr c"
proof -
  have lt: "pt_x (snd cred) < 2 ^ 256" "pt_y (snd cred) < 2 ^ 256" using pk P256_orders by simp_all
  obtain x y where xy: "pk_coords_to_base64url encode (snd cred) = (x, y)" by fastforce
  let ?p = "build_payload_json keys vals JWT_ISS_VALUE JWT_IAT_DEFAULT x y"
  let ?sig = "jc_signature c"
  have gen: "length ?p \<le> jl_max_decoded_payload_len l"
    using generate_jwt_ok [OF ok mv lt sha] layout xy by (metis sum.inject(2))
  have "generate_jwt_layout_inner encode keys mv = Inr l"
    using layout ok mv by (auto simp: generate_jwt_layout_with_keys_def ensure_valid_attribute_len_bytes_def claims_ok_def split: if_splits)
  note lv = layout_values [OF this]
  have len: "length vals = length keys" using ok by (simp add: claims_ok_def)
  have "set x \<subseteq> set BASE64URL_ALPHABET" "set y \<subseteq> set BASE64URL_ALPHABET"
    using xy encode_alphabet by (auto simp: pk_coords_to_base64url_def Let_def base64url_encode_def)
  then have xy_str: "json_string x" "json_string y" by (simp_all add: alphabet_string)
  have xy_len: "length x = 43" "length y = 43" using coords_length [of "snd cred"] lt xy by simp_all
  let ?kvs = "zip keys vals"
  have strings: "payload_strings ?kvs JWT_ISS_VALUE JWT_IAT_DEFAULT x y"
    using ok xy_str standard_strings by (auto simp: payload_strings_def claims_ok_def dest: set_zip_leftD set_zip_rightD)
  note std = find_standard_claims [OF strings, folded payload_is_segs]
  have at: "cnf_at ?p 55 x y"
  proof -
    let ?h = "[0x7B] @ json_pair (str ''iss'') JWT_ISS_VALUE @ [0x2C] @ json_pair (str ''iat'') JWT_IAT_DEFAULT @ [0x2C]"
    have "?p = ?h @ build_cnf_block x y @ concat (map (\<lambda>(k, v). [0x2C] @ json_pair k v) ?kvs) @ [0x7D]"
      unfolding payload_is_segs payload_text by simp
    moreover have "length ?h = 55" by (simp add: json_pair_def)
    ultimately have "drop 55 ?p = build_cnf_block x y @ concat (map (\<lambda>(k, v). [0x2C] @ json_pair k v) ?kvs) @ [0x7D]"
      by (simp only: drop_prefix)
    then show ?thesis using xy_len by (simp add: cnf_at_def length_build_cnf_block)
  qed
  have coords: "extract_cnf_coords ?p 55 = Inr (x, y)"
    using extract_cnf_coords_at [OF _ at] payload_utf8 [OF strings] by (simp add: payload_is_segs)
  have to_pk: "base64url_coords_to_pk decode x y = Inr (snd cred)" using coords_roundtrip [OF pk] xy by simp
  have attrs: "map_res (\<lambda>(key, claim). jwt_attribute l key (cp_value claim))
      (zip keys (map (position_of_claim keys vals JWT_ISS_VALUE JWT_IAT_DEFAULT x y) [0..<length keys]))
      = Inr (map2 (padded_attribute (jl_max_key_len l) mv) keys vals)"
    unfolding map_res_Inr_iff using ok len lv mv
    by (intro nth_equalityI) (auto simp: claims_ok_def position_of_claim_def intro!: attribute_of_claim)
  let ?msg = "encode JWT_HEADER_JSON @ [0x2E] @ encode ?p"
  let ?s = "encode (scalar_to_be32 (sig_r ?sig) @ scalar_to_be32 (sig_s ?sig))"
  let ?text = "encode JWT_HEADER_JSON @ [0x2E] @ encode ?p @ [0x2E] @ ?s"
  have parts: "split_on 0x2E ?text = [encode JWT_HEADER_JSON, encode ?p, ?s]"
    using no_dot by (simp add: split_on_part split_on_last)
  have hash: "hash_to_scalar sha256_digest ?msg = Inr (jc_message_hash c)"
    by (simp add: hash_to_scalar_def byte_array_to_scalar_iff sha c issued_credential_def xy Let_def)
  have saved: "compact_jwt encode c = Inr ?text"
    by (simp add: compact_jwt_def c issued_credential_def xy Let_def encode_utf8 base64url_encode_def)
  have dec: "base64url_decode decode (encode bs) = Inr bs" for bs
    using base64url_roundtrip [of bs] by (simp add: base64url_encode_def)
  obtain sk p where cred: "cred = (sk, p)" by (cases cred)
  have fields: "jc_header_b64 c = encode JWT_HEADER_JSON" "jc_payload_b64 c = encode ?p" "jc_jwt_message_bytes c = ?msg"
    "jc_issuer_pk c = issuer_pk" "jc_claims c = map (position_of_claim keys vals JWT_ISS_VALUE JWT_IAT_DEFAULT x y) [0..<length keys]"
    "jc_decoded_payload c = ?p" "jc_cred_sk c = sk" "jc_cred_pk c = p" "jc_attributes c = map2 (padded_attribute (jl_max_key_len l) mv) keys vals"
    "jc_claim_keys c = keys" "jc_max_key_len c = jl_max_key_len l" "jc_max_value_len c = mv" "jc_iss c = JWT_ISS_VALUE" "jc_iat c = JWT_IAT_DEFAULT"
    "jc_iss_claim c = \<lparr>cp_key = str ''iss'', cp_start = 1, cp_value = JWT_ISS_VALUE, colon_offset = 5\<rparr>"
    "jc_iat_claim c = \<lparr>cp_key = str ''iat'', cp_start = 36, cp_value = JWT_IAT_DEFAULT, colon_offset = 5\<rparr>" "jc_cnf_start c = 55"
    using xy by (simp_all add: c cred issued_credential_def Let_def)
  have eta: "\<lparr>sig_r = sig_r ?sig, sig_s = sig_s ?sig\<rparr> = ?sig" by simp
  have "from_compact_jwt decode sha256_digest verify_sig cred issuer_pk ?text l = Inr c"
    unfolding from_compact_jwt_def parts Let_def
    using hash dec verifies gen find_claims_of_payload [OF ok xy_str] std coords to_pk attrs
    by (simp add: scalar_be32 [OF sig(1)] scalar_be32 [OF sig(2)] eta cred lv(1,2)) (rule jwt_credential.equality; simp add: fields)
  then show ?thesis using that saved by blast
qed

end

end
