(* ===== verification/Jwt_Properties.thy ===== *)
theory Jwt_Properties
  imports Credential_Origin Jwt_Compact
begin

text \<open>
  Properties of issuing, of the base circuit and of the chain from a signed JWT to an accepted
  delegation proof, and the credential their witnesses use: one claim \<open>age\<close> with the value \<open>42\<close>.
\<close>

subsection \<open>Concrete values\<close>

definition sample_keys :: "bytes list" where
  "sample_keys = [bytes_of_string ''age'']"

definition sample_vals :: "bytes list" where
  "sample_vals = [bytes_of_string ''42'']"

definition sample_jwt_layout :: jwt_layout where
  "sample_jwt_layout =
     \<lparr>jl_claim_keys = sample_keys, jl_max_key_len = 4, jl_max_value_len = 4, jl_attribute_len_bytes = 8,
      jl_max_msg_len_bytes = 321, jl_max_payload_b64_len = 284, jl_payload_b64_byte_offset = 37,
      jl_header_b64_len = 36, jl_max_decoded_payload_len = 213\<rparr>"

definition sample_point :: affine_point where
  "sample_point = \<lparr>pt_x = 3, pt_y = 5, pt_zero = False\<rparr>"

lemma sample_claims: "claims_ok sample_keys sample_vals 4"
proof -
  have "list_all json_string [str ''age'', str ''42'']" by (simp add: ascii_string bytes_of_string_def)
  moreover have "str ''age'' \<notin> set frame_parts" by (simp add: frame_parts_def bytes_of_string_def)
  ultimately show ?thesis by (simp add: claims_ok_def sample_keys_def sample_vals_def) (simp add: bytes_of_string_def)
qed

lemma sample_generate: "generate_jwt_layout_with_keys rfc_encode sample_keys 4 = Inr sample_jwt_layout"
proof -
  have "length (build_payload_json sample_keys [replicate 4 0x78] (replicate 28 0x78) (replicate 12 0x78) (replicate 43 0x78) (replicate 43 0x78)) = 213"
    unfolding payload_length by (simp add: sample_keys_def)
  then show ?thesis
    by (simp add: generate_jwt_layout_with_keys_def ensure_valid_attribute_len_bytes_def generate_jwt_layout_inner_def
        base64url_encode_def rfc.encode_length div_ceil_def sample_jwt_layout_def sample_keys_def resize_def)
qed

lemma sample_fits: "claims_fit sample_jwt_layout 1 sample_keys sample_vals"
proof -
  have "small_layout sample_jwt_layout"
    by (simp add: small_layout_def sample_jwt_layout_def padded_json_len_def sample_keys_def div_ceil_def)
  moreover have "sane_keys sample_jwt_layout"
    by (simp add: sane_keys_def sample_jwt_layout_def sample_keys_def bytes_of_string_def)
  moreover have "ensure_valid_attribute_counts (length sample_keys) 1 = Inr ()"
    by (simp add: ensure_valid_attribute_counts_iff sample_keys_def) (rule exI [of _ 0], simp)
  ultimately show ?thesis
    using sample_claims sample_generate by (simp add: claims_fit_def) (simp add: sample_jwt_layout_def)
qed

lemma sample_point_range: "key_in_range sample_point"
  by (simp add: key_in_range_def sample_point_def)

subsection \<open>Issuing\<close>

text \<open>C6: Issuing from well-formed claims succeeds and returns the credential its inputs determine:
  header and payload text, signature over the digest modulo the group order, positions of every
  claim in the payload, padded attributes.  The payload and its encoding fit the layout that was
  computed from the keys alone.\<close>

theorem issued_jwt:
  assumes "claims_ok keys vals mv" "0 < mv" "mv mod 4 = 0" "key_in_range (snd cred)"
  shows "\<exists>l. generate_jwt_layout_with_keys rfc_encode keys mv = Inr l
    \<and> generate_jwt_from_claims rfc_encode sha256 sign cred issuer_sk issuer_pk keys vals mv
        = Inr (issued_credential rfc_encode sha256 sign cred issuer_sk issuer_pk (jl_max_key_len l) mv keys vals)
    \<and> length (jc_decoded_payload (issued_credential rfc_encode sha256 sign cred issuer_sk issuer_pk (jl_max_key_len l) mv keys vals))
        \<le> jl_max_decoded_payload_len l
    \<and> length (jc_payload_b64 (issued_credential rfc_encode sha256 sign cred issuer_sk issuer_pk (jl_max_key_len l) mv keys vals))
        \<le> jl_max_payload_b64_len l"
proof -
  have pk: "pt_x (snd cred) < 2 ^ 256" "pt_y (snd cred) < 2 ^ 256" using assms(4) by (simp_all add: key_in_range_def)
  obtain x y where "pk_coords_to_base64url rfc_encode (snd cred) = (x, y)" by fastforce
  note xy = this
  show ?thesis
    by (rule rfc.generate_jwt_ok [where cred = cred and sign = sign and issuer_sk = issuer_sk and issuer_pk = issuer_pk,
          OF assms(1-3) pk length_sha256]) (use xy in \<open>auto simp: issued_credential_def Let_def\<close>)
qed

theorem issued_jwt_witness:
  "\<exists>l. generate_jwt_layout_with_keys rfc_encode sample_keys 4 = Inr l
    \<and> generate_jwt_from_claims rfc_encode sha256 (\<lambda>_ _. \<lparr>sig_r = 1, sig_s = 1\<rparr>) (7, sample_point) 9 sample_point sample_keys sample_vals 4
        = Inr (issued_credential rfc_encode sha256 (\<lambda>_ _. \<lparr>sig_r = 1, sig_s = 1\<rparr>) (7, sample_point) 9 sample_point (jl_max_key_len l) 4 sample_keys sample_vals)"
  using issued_jwt [OF sample_claims, of "(7, sample_point)" "\<lambda>_ _. \<lparr>sig_r = 1, sig_s = 1\<rparr>" 9 sample_point] sample_point_range by auto

text \<open>C7: The compact form of an issued credential, read back with the same key pair and layout, is
  the same credential, field for field, when the signature verifies.\<close>

theorem compact_jwt_roundtrip:
  assumes "claims_ok keys vals mv" "0 < mv" "mv mod 4 = 0" "generate_jwt_layout_with_keys rfc_encode keys mv = Inr l"
    "pt_x (snd cred) < P256_BASE_ORDER" "pt_y (snd cred) < P256_BASE_ORDER" "\<not> pt_zero (snd cred)"
    "c = issued_credential rfc_encode sha256 sign cred issuer_sk issuer_pk (jl_max_key_len l) mv keys vals"
    "sig_r (jc_signature c) < P256_SCALAR_ORDER" "sig_s (jc_signature c) < P256_SCALAR_ORDER"
    "verify_sig (jc_message_hash c) (jc_signature c) issuer_pk"
  shows "bind_res (compact_jwt rfc_encode c) (\<lambda>s. from_compact_jwt rfc_decode sha256 verify_sig cred issuer_pk s l) = Inr c"
  using rfc.compact_roundtrip [where verify_sig = verify_sig, OF assms(1-3,5-7) length_sha256 assms(4,8-11)] by fastforce

theorem compact_jwt_roundtrip_witness:
  "\<exists>c. bind_res (compact_jwt rfc_encode c)
      (\<lambda>s. from_compact_jwt rfc_decode sha256 (\<lambda>_ _ _. True) (7, sample_point) sample_point s sample_jwt_layout) = Inr c"
proof -
  let ?c = "issued_credential rfc_encode sha256 (\<lambda>_ _. \<lparr>sig_r = 1, sig_s = 1\<rparr>) (7, sample_point) 9 sample_point (jl_max_key_len sample_jwt_layout) 4 sample_keys sample_vals"
  have "jc_signature ?c = \<lparr>sig_r = 1, sig_s = 1\<rparr>" by (simp add: issued_credential_def Let_def case_prod_unfold)
  then show ?thesis
    by (intro exI [of _ ?c] compact_jwt_roundtrip [OF sample_claims _ _ sample_generate _ _ _ refl])
      (simp_all add: sample_point_def P256_BASE_ORDER_def P256_SCALAR_ORDER_def)
qed

subsection \<open>The digest as a scalar\<close>

text \<open>C8: The wires of the digest gadget.  They satisfy it exactly when they are the 256 bits of a
  digest, most significant first, and the eight 32-bit limbs of the number these bits denote.\<close>

theorem digest_scalar_exact:
  "make_digest_to_scalar_circuit t \<longleftrightarrow>
     (\<exists>digest. length digest = 32 \<and> t = \<lparr>digest_bits_targets = map of_bool (msg_bits digest), expected_scalar = limbs_gf (from_bytes_be digest)\<rparr>)"
proof -
  have "(\<exists>bs. length bs = 256 \<and> P bs (bits_val (rev bs))) \<longleftrightarrow> (\<exists>digest. length digest = 32 \<and> P (msg_bits digest) (from_bytes_be digest))" for P
    using msg_bits_surj [of _ 32] by (force simp: bits_val_msg_bits simp flip: bits_val_msg_bits)
  note this [of "\<lambda>bs v. t = \<lparr>digest_bits_targets = map of_bool bs, expected_scalar = map of_nat (limbs_of 8 v)\<rparr>"]
  then show ?thesis unfolding digest_to_scalar_iff limbs_gf_def .
qed

subsection \<open>The base circuit\<close>

text \<open>C4: Soundness of the base circuit.  Whatever wires satisfy it, its public inputs are a key, the
  commitment to the attributes of claims found in a JSON text, and the levels of a fresh
  credential; a message with the fixed header whose payload decodes to that text is hashed, the
  digest carries a signature under the key, and the confirmation key of the text has signed the
  possession challenge.\<close>

theorem base_circuit_proves_jwt:
  assumes "make_jwt_base_circuit rfc_encode sha256 poseidon verify_p256 l m w pis"
    "generate_jwt_layout_with_keys rfc_encode keys mv = Inr l" "small_layout l" "sane_keys l"
  shows "\<exists>x y payload js vals attrs com.
      base_statement sha256 verify_p256 l (x, y) payload js vals \<and> length x = 8 \<and> length y = 8
    \<and> pad_attributes (jwt_attributes l vals) m = Inr attrs \<and> compute_merkle_root poseidon attrs = Inr com
    \<and> pis = x @ y @ com @ [0, of_nat LEVEL_UNBOUNDED]"
  using poseidon_sponge.base_circuit_sound [OF assms] by blast

theorem base_circuit_proves_jwt_witness:
  "\<exists>w pis. make_jwt_base_circuit rfc_encode sha256 poseidon (\<lambda>_ _ _. ret ()) sample_jwt_layout 1 w pis
    \<and> (\<exists>x y payload js vals attrs com.
      base_statement sha256 (\<lambda>_ _ _. ret ()) sample_jwt_layout (x, y) payload js vals \<and> length x = 8 \<and> length y = 8
    \<and> pad_attributes (jwt_attributes sample_jwt_layout vals) 1 = Inr attrs \<and> compute_merkle_root poseidon attrs = Inr com
    \<and> pis = x @ y @ com @ [0, of_nat LEVEL_UNBOUNDED])"
proof -
  obtain w com where w: "make_jwt_base_circuit rfc_encode sha256 poseidon (\<lambda>_ _ _. ret ()) sample_jwt_layout 1 w
       (limbs_gf (pt_x sample_point) @ limbs_gf (pt_y sample_point) @ com @ [0, of_nat LEVEL_UNBOUNDED])"
    by (rule poseidon_sponge.base_satisfiable [OF sample_fits sample_point_range])
  have "small_layout sample_jwt_layout" "sane_keys sample_jwt_layout" using sample_fits by (simp_all add: claims_fit_def)
  from base_circuit_proves_jwt [OF w sample_generate this] w show ?thesis by blast
qed

text \<open>C5: The base prover.  For an issued credential that fits the layout, with signatures the check
  accepts on the hash the credential records, \<open>prove_jwt_base\<close> returns a witness; it satisfies the
  circuit exactly for the public inputs issuer key, commitment and fresh levels, and exactly when
  the digest is below the group order: the credential records the reduced digest, the circuit
  compares the bits of the digest itself.\<close>

theorem base_prover_accepted_iff:
  assumes "claims_fit l m keys vals" "key_in_range pk" "key_in_range issuer_pk"
    "jwt = issued_credential rfc_encode sha256 sign (sk, pk) issuer_sk issuer_pk (jl_max_key_len l) (jl_max_value_len l) keys vals"
    "\<And>h k. sig_r (sign h k) < 2 ^ 256 \<and> sig_s (sign h k) < 2 ^ 256"
    "accepts (verify (limbs_gf (jc_message_hash jwt)) (sig_limbs (jc_signature jwt)) (pt_limbs issuer_pk)) ws"
    "pop_message_scalar sha256 = Inr h" "accepts (verify (map of_nat (to_u32_digits h)) (sig_limbs (sign h sk)) (pt_limbs pk)) ws'"
  shows "\<exists>hw w com. prove_jwt_base rfc_encode rfc_decode sha256 sign l jwt issuer_pk hw ws ws' = Inr w
    \<and> bind_res (pad_attributes (jc_attributes jwt) m) (compute_merkle_root poseidon) = Inr com
    \<and> (\<forall>pis. make_jwt_base_circuit rfc_encode sha256 poseidon verify l m w pis
        \<longleftrightarrow> from_bytes_be (sha256 (jc_jwt_message_bytes jwt)) < P256_SCALAR_ORDER
          \<and> pis = limbs_gf (pt_x issuer_pk) @ limbs_gf (pt_y issuer_pk) @ com @ [0, of_nat LEVEL_UNBOUNDED])"
  by (rule poseidon_sponge.base_prover [OF assms])

theorem base_prover_accepted_iff_witness:
  "\<exists>jwt hw w com. prove_jwt_base rfc_encode rfc_decode sha256 (\<lambda>_ _. \<lparr>sig_r = 1, sig_s = 1\<rparr>) sample_jwt_layout jwt sample_point hw [] [] = Inr w
    \<and> bind_res (pad_attributes (jc_attributes jwt) 1) (compute_merkle_root poseidon) = Inr com
    \<and> (\<forall>pis. make_jwt_base_circuit rfc_encode sha256 poseidon (\<lambda>_ _ _. ret ()) sample_jwt_layout 1 w pis
        \<longleftrightarrow> from_bytes_be (sha256 (jc_jwt_message_bytes jwt)) < P256_SCALAR_ORDER
          \<and> pis = limbs_gf (pt_x sample_point) @ limbs_gf (pt_y sample_point) @ com @ [0, of_nat LEVEL_UNBOUNDED])"
proof -
  have pop: "pop_message_scalar sha256 = Inr (from_bytes_be (sha256 POP_CHALLENGE_BYTES) mod P256_SCALAR_ORDER)"
    by (simp add: pop_message_scalar_def hash_to_scalar_def byte_array_to_scalar_iff)
  show ?thesis
    by (rule exI, rule base_prover_accepted_iff [where verify = "\<lambda>_ _ _. ret ()" and ws = "[]" and ws' = "[]"
          and sk = 7 and issuer_sk = 9 and h = "from_bytes_be (sha256 POP_CHALLENGE_BYTES) mod P256_SCALAR_ORDER",
          OF sample_fits sample_point_range sample_point_range refl _ _ pop])
      (simp_all add: accepts_def ret_def)
qed

subsection \<open>From the JWT to a delegation proof\<close>

text \<open>C3: Where an accepted delegation proof comes from.  If delegation proofs, wrapper proofs under
  the genuine wrapper key and base proofs are knowledge sound, then every accepted delegation proof
  that embeds the delegation key ends a run of satisfied delegation circuits; every such run
  carries the published wrapper digest, and for one whose base step carries the genuine wrapper key
  there is a JWT whose digest carries a signature under a key \<open>(x, y)\<close>, and as many delegations as
  the run is long lead from the credential with that issuer, the attributes of the JWT, level 0
  and no depth cap to the credential the proof publishes, unless the Merkle trees over the
  attributes of the JWT and of the run contain a collision.\<close>

theorem delegation_from_jwt:
  assumes "generate_jwt_layout_with_keys rfc_encode keys mv = Inr jl" "small_layout jl" "sane_keys jl" "is_power_of_two m"
    "l = jwt_base_pi_layout jl m"
    "\<And>p pis. verify del_vk p pis \<Longrightarrow> \<exists>ip wp w. delegation_circuit poseidon verify cap_len l ip wp w \<and> pis = delegation_pis w"
    "\<And>p pis. verify wrapper_vk p pis \<Longrightarrow> \<exists>bp w. wrapper_circuit verify_base base_vk cap_len 22 bp w \<and> pis = wrapper_pis w"
    "\<And>p pis. verify_base base_vk p pis \<Longrightarrow> \<exists>w. make_jwt_base_circuit rfc_encode sha256 poseidon verify_p256 jl m w pis"
    "verify del_vk p pis" "verifier_data_from_slice cap_len pis = Inr del_vk"
    "run = (\<lambda>ws. delegation_run poseidon verify cap_len l ws \<and> delegation_pis (hd ws) = pis)"
  shows "(\<exists>ws. run ws)
    \<and> (\<forall>ws. run ws \<longrightarrow> circuit_digest (dw_wrapper_vk (last ws)) = pi_digest l pis)
    \<and> (\<forall>ws. run ws \<and> dw_wrapper_vk (last ws) = wrapper_vk \<longrightarrow>
        (\<exists>x y payload js vals attrs. base_statement sha256 verify_p256 jl (x, y) payload js vals
          \<and> pad_attributes (jwt_attributes jl vals) m = Inr attrs
          \<and> (collides (compress poseidon) (compress_inputs poseidon (map (hashed_leaf poseidon) attrs) @ run_inputs poseidon ws) \<or>
             (\<exists>c. (delegates ^^ length ws) (base_credential (x @ y) attrs (circuit_digest wrapper_vk)) c
                \<and> represents poseidon l (circuit_digest wrapper_vk) pis c))))"
proof (intro conjI allI impI)
  note lay = pi_layout_facts(1,2) [OF assms(4), of jl, folded assms(5)]
  show "\<exists>ws. run ws"
    unfolding assms(11)
    by (rule delegation_system.accepted_run [OF delegation_systemI [OF lay assms(6)] assms(9,10)])
  fix ws
  show "circuit_digest (dw_wrapper_vk (last ws)) = pi_digest l pis" if "run ws"
    using that poseidon_sponge.run_numbers [OF _ lay, where verify = verify] unfolding assms(11) by metis
  assume r: "run ws \<and> dw_wrapper_vk (last ws) = wrapper_vk"
  then have run: "delegation_run poseidon verify cap_len (jwt_base_pi_layout jl m) ws" "dw_wrapper_vk (last ws) = wrapper_vk" "delegation_pis (hd ws) = pis"
    unfolding assms(5,11) by blast+
  show "\<exists>x y payload js vals attrs. base_statement sha256 verify_p256 jl (x, y) payload js vals
      \<and> pad_attributes (jwt_attributes jl vals) m = Inr attrs
      \<and> (collides (compress poseidon) (compress_inputs poseidon (map (hashed_leaf poseidon) attrs) @ run_inputs poseidon ws) \<or>
         (\<exists>c. (delegates ^^ length ws) (base_credential (x @ y) attrs (circuit_digest wrapper_vk)) c
            \<and> represents poseidon l (circuit_digest wrapper_vk) pis c))"
    by (rule run_from_jwt [OF assms(1-4,7,8) run(1,2)], assumption, assumption) (unfold assms(5) run(3), intro exI conjI, assumption+)
qed

definition origin_del_vk :: verifier_data where
  "origin_del_vk = \<lparr>circuit_digest = [1, 0, 0, 0], constants_sigmas_cap = []\<rparr>"

definition origin_wrapper_vk :: verifier_data where
  "origin_wrapper_vk = \<lparr>circuit_digest = [2, 0, 0, 0], constants_sigmas_cap = []\<rparr>"

abbreviation sample_pi_layout :: base_public_input_layout where
  "sample_pi_layout \<equiv> jwt_base_pi_layout sample_jwt_layout 1"

abbreviation base_verify :: "unit verify" where
  "base_verify vk p pis \<equiv> (\<exists>w. make_jwt_base_circuit rfc_encode sha256 poseidon (\<lambda>_ _ _. ret ()) sample_jwt_layout 1 w pis)"

abbreviation origin_verify :: "tproof verify" where
  "origin_verify \<equiv> ideal_verify poseidon 0 sample_pi_layout origin_del_vk
     (\<lambda>vk pis. vk = origin_wrapper_vk \<and> (\<exists>bp w. wrapper_circuit base_verify origin_wrapper_vk 0 22 bp w \<and> pis = wrapper_pis w))"

lemma origin_wrapper_sound:
  assumes "origin_verify vk p pis" "circuit_digest vk = [2, 0, 0, 0]"
  shows "\<exists>bp w. wrapper_circuit base_verify origin_wrapper_vk 0 22 bp w \<and> pis = wrapper_pis w"
proof (cases p)
  case Leaf_Proof
  then show ?thesis using assms(1) by (auto simp: ideal_verify_def)
next
  case (Delegation_Proof w ip wp)
  then show ?thesis using assms by (simp add: ideal_verify_delegation origin_del_vk_def)
qed

lemma one_power: "is_power_of_two 1"
  by (simp add: is_power_of_two_iff) (rule exI [of _ 0], simp)

lemma origin_wrapper:
  obtains wpis where "origin_verify origin_wrapper_vk Leaf_Proof wpis" "length wpis = cyclic_num_public_inputs 0 sample_pi_layout"
    "bind_res (pad_attributes (jwt_attributes sample_jwt_layout sample_vals) 1) (compute_merkle_root poseidon) = Inr (pi_com sample_pi_layout wpis)"
    "wpis ! level_pi_idx sample_pi_layout = 0" "wpis ! max_level_pi_idx sample_pi_layout = of_nat LEVEL_UNBOUNDED"
proof -
  obtain w com where w: "bind_res (pad_attributes (jwt_attributes sample_jwt_layout sample_vals) 1) (compute_merkle_root poseidon) = Inr com"
      "make_jwt_base_circuit rfc_encode sha256 poseidon (\<lambda>_ _ _. ret ()) sample_jwt_layout 1 w
       (limbs_gf (pt_x sample_point) @ limbs_gf (pt_y sample_point) @ com @ [0, of_nat LEVEL_UNBOUNDED])"
    by (rule poseidon_sponge.base_satisfiable [OF sample_fits sample_point_range])
  obtain padded where "pad_attributes (jwt_attributes sample_jwt_layout sample_vals) 1 = Inr padded" "compute_merkle_root poseidon padded = Inr com"
    using w(1) by auto
  then have com: "length com = 4" using poseidon_sponge.com_length by (simp add: NUM_HASH_OUT_ELTS_def)
  let ?pis = "limbs_gf (pt_x sample_point) @ limbs_gf (pt_y sample_point) @ com @ [0, of_nat LEVEL_UNBOUNDED]"
  have limbs: "length (limbs_gf v) = 8" for v by (simp add: limbs_gf_def)
  have len: "length ?pis = 22" by (simp add: limbs com)
  have shape: "verifier_data_shape 0 origin_wrapper_vk" by (simp add: verifier_data_shape_def origin_wrapper_vk_def NUM_HASH_OUT_ELTS_def)
  have acc: "base_verify origin_wrapper_vk () ?pis" using w(2) by blast
  obtain ww where ww: "wrapper_circuit base_verify origin_wrapper_vk 0 22 () ww"
      "wrapper_pis ww = ?pis @ circuit_digest origin_wrapper_vk @ verifier_data_elements origin_wrapper_vk"
    by (rule prove_jwt_wrapper_satisfies [where verify_base = base_verify and base_vk = origin_wrapper_vk and base_proof = "()", OF shape len acc]) blast
  have t: "take 22 (wrapper_pis ww) = ?pis" unfolding ww(2) using len by (metis append_eq_conv_conj)
  note sl = pi_layout_slices [OF t limbs limbs com, where jl = sample_jwt_layout and m = 1]
  show ?thesis
  proof (rule that [of "wrapper_pis ww"])
    show "origin_verify origin_wrapper_vk Leaf_Proof (wrapper_pis ww)"
      using ww(1) by (auto simp: ideal_verify_def) (simp add: origin_wrapper_vk_def origin_del_vk_def)
    show "length (wrapper_pis ww) = cyclic_num_public_inputs 0 sample_pi_layout"
      unfolding ww(2) using len by (simp add: cyclic_num_public_inputs_def pi_layout_facts is_power_of_two_iff origin_wrapper_vk_def verifier_data_elements_def NUM_HASH_OUT_ELTS_def base_pi_count_def jwt_base_pi_layout_def)
  qed (simp_all add: sl w(1) del: One_nat_def)
qed

lemma origin_layout: "delegation_layout sample_pi_layout" "verifier_data_shape 0 origin_del_vk" "verifier_data_shape 0 origin_wrapper_vk"
    "issuer_pk_pi_start sample_pi_layout + issuer_pk_pi_len sample_pi_layout \<le> com_pi_start sample_pi_layout"
    "num_max_attributes sample_pi_layout = 1"
  using pi_layout_facts [OF one_power, of sample_jwt_layout]
  by (simp_all add: verifier_data_shape_def origin_del_vk_def origin_wrapper_vk_def NUM_HASH_OUT_ELTS_def jwt_base_pi_layout_def del: One_nat_def)

lemma origin_attributes: "uniform 8 (jwt_attributes sample_jwt_layout sample_vals)"
    "jwt_attributes sample_jwt_layout sample_vals \<noteq> []" "length (jwt_attributes sample_jwt_layout sample_vals) = 1"
  by (simp_all add: jwt_attributes_def sample_jwt_layout_def sample_keys_def sample_vals_def uniform_def padded_attribute_def len_bytes_def)

lemma origin_delegation:
  obtains p pis where "origin_verify origin_del_vk p pis" "verifier_data_from_slice 0 pis = Inr origin_del_vk"
    "pi_digest sample_pi_layout pis = [2, 0, 0, 0]"
proof -
  obtain wpis where w: "origin_verify origin_wrapper_vk Leaf_Proof wpis" "length wpis = cyclic_num_public_inputs 0 sample_pi_layout"
    "bind_res (pad_attributes (jwt_attributes sample_jwt_layout sample_vals) 1) (compute_merkle_root poseidon) = Inr (pi_com sample_pi_layout wpis)"
    "wpis ! level_pi_idx sample_pi_layout = 0" "wpis ! max_level_pi_idx sample_pi_layout = of_nat LEVEL_UNBOUNDED"
    by (rule origin_wrapper)
  note dummy = dummy_pis [OF origin_layout(2,1)]
  have lev: "parent_levels_ok sample_pi_layout wpis" "canon (wpis ! max_level_pi_idx sample_pi_layout) = 255"
    by (simp_all add: parent_levels_ok_def w(4,5) LEVEL_UNBOUNDED_def MAX_LEVEL_BITS_def del: One_nat_def)
  obtain d where d: "prove_delegation_base_with_cap poseidon sample_pi_layout origin_del_vk origin_wrapper_vk wpis
        (build_delegation_dummy_pis 0 sample_pi_layout origin_del_vk) (jwt_attributes sample_jwt_layout sample_vals) [True] 2 = Inr d"
    "delegation_circuit poseidon origin_verify 0 sample_pi_layout Leaf_Proof Leaf_Proof d"
    by (rule poseidon_sponge.base_step_iff [where bitmap = "[True]" and inner_proof = Leaf_Proof and cap = 2 and verify = origin_verify
      and wrapper_vk = origin_wrapper_vk and wrapper_proof = Leaf_Proof and wrapper_pis = wpis,
      OF origin_layout(1-3) w(2) dummy(1,2) origin_attributes(1,2) _ _ w(1,4) lev(1)])
      (use w(3) lev(2) in \<open>simp_all add: origin_layout(5) origin_attributes(3) del: One_nat_def\<close>)
  have vd: "dw_verifier_data d = origin_del_vk" "dw_wrapper_digest_pis d = [2, 0, 0, 0]"
    using d(1) by (auto simp: prove_delegation_base_with_cap_def case_prod_unfold Let_def origin_wrapper_vk_def)
  have shape: "delegation_shape 0 sample_pi_layout d" using d(2) by (simp add: delegation_circuit_def Let_def)
  note sl = delegation_pis_slices [OF origin_layout(1) shape origin_layout(4)]
  show ?thesis
  proof (rule that [of "Delegation_Proof d Leaf_Proof Leaf_Proof" "delegation_pis d"])
    show "origin_verify origin_del_vk (Delegation_Proof d Leaf_Proof Leaf_Proof) (delegation_pis d)"
      using d(2) by (simp add: ideal_verify_delegation)
  qed (simp_all add: sl(4,5) vd del: One_nat_def)
qed

lemma origin_key:
  assumes "origin_verify vk p pis" "circuit_digest vk = [2, 0, 0, 0]"
  shows "vk = origin_wrapper_vk"
proof (cases p)
  case Leaf_Proof
  then show ?thesis using assms(1) by (auto simp: ideal_verify_def)
next
  case (Delegation_Proof w ip wp)
  then show ?thesis using assms by (simp add: ideal_verify_delegation origin_del_vk_def)
qed

theorem delegation_from_jwt_witness:
  "\<exists>p pis ws x y payload js vals attrs c. origin_verify origin_del_vk p pis
     \<and> delegation_run poseidon origin_verify 0 sample_pi_layout ws \<and> delegation_pis (hd ws) = pis
     \<and> base_statement sha256 (\<lambda>_ _ _. ret ()) sample_jwt_layout (x, y) payload js vals
     \<and> pad_attributes (jwt_attributes sample_jwt_layout vals) 1 = Inr attrs
     \<and> (delegates ^^ length ws) (base_credential (x @ y) attrs [2, 0, 0, 0]) c \<and> represents poseidon sample_pi_layout [2, 0, 0, 0] pis c"
proof -
  obtain p pis where p: "origin_verify origin_del_vk p pis" "verifier_data_from_slice 0 pis = Inr origin_del_vk"
    "pi_digest sample_pi_layout pis = [2, 0, 0, 0]" by (rule origin_delegation)
  have small: "small_layout sample_jwt_layout" "sane_keys sample_jwt_layout" using sample_fits by (simp_all add: claims_fit_def)
  let ?run = "\<lambda>ws. delegation_run poseidon origin_verify 0 sample_pi_layout ws \<and> delegation_pis (hd ws) = pis"
  have digest: "circuit_digest origin_wrapper_vk = [2, 0, 0, 0]" by (simp add: origin_wrapper_vk_def)
  have "Ex ?run \<and> (\<forall>ws. ?run ws \<longrightarrow> circuit_digest (dw_wrapper_vk (last ws)) = pi_digest sample_pi_layout pis)
    \<and> (\<forall>ws. ?run ws \<and> dw_wrapper_vk (last ws) = origin_wrapper_vk \<longrightarrow>
        (\<exists>x y payload js vals attrs. base_statement sha256 (\<lambda>_ _ _. ret ()) sample_jwt_layout (x, y) payload js vals
          \<and> pad_attributes (jwt_attributes sample_jwt_layout vals) 1 = Inr attrs
          \<and> (collides (compress poseidon) (compress_inputs poseidon (map (hashed_leaf poseidon) attrs) @ run_inputs poseidon ws) \<or>
             (\<exists>c. (delegates ^^ length ws) (base_credential (x @ y) attrs (circuit_digest origin_wrapper_vk)) c
                \<and> represents poseidon sample_pi_layout (circuit_digest origin_wrapper_vk) pis c))))"
  proof (rule delegation_from_jwt [where verify = origin_verify and verify_base = base_verify and base_vk = origin_wrapper_vk
          and cap_len = 0, OF sample_generate small one_power refl _ _ _ p(1,2) refl])
    show "\<exists>ip wp w. delegation_circuit poseidon origin_verify 0 sample_pi_layout ip wp w \<and> pis = delegation_pis w"
      if "origin_verify origin_del_vk p pis" for p pis
      using that by (rule ideal_knowledge_sound)
    show "\<exists>bp w. wrapper_circuit base_verify origin_wrapper_vk 0 22 bp w \<and> pis = wrapper_pis w"
      if "origin_verify origin_wrapper_vk p pis" for p pis
      using that digest by (rule origin_wrapper_sound)
  qed
  note ok = conjunct1 [OF this] conjunct1 [OF conjunct2 [OF this]] conjunct2 [OF conjunct2 [OF this]]
  obtain ws where ws: "?run ws" using ok(1) by blast
  obtain wp where "origin_verify (dw_wrapper_vk (last ws)) wp (dw_wrapper_pis (last ws))"
    using poseidon_sponge.run_wrapper [OF conjunct1 [OF ws] origin_layout(1,4)] by blast
  moreover have "circuit_digest (dw_wrapper_vk (last ws)) = [2, 0, 0, 0]" using ok(2) ws p(3) by simp
  ultimately have key: "dw_wrapper_vk (last ws) = origin_wrapper_vk" by (rule origin_key)
  have none: "run_inputs poseidon ws = []" by (rule run_inputs_one [OF conjunct1 [OF ws] origin_layout(5)])
  obtain x y payload js vals attrs where b: "base_statement sha256 (\<lambda>_ _ _. ret ()) sample_jwt_layout (x, y) payload js vals"
      "pad_attributes (jwt_attributes sample_jwt_layout vals) 1 = Inr attrs"
      "collides (compress poseidon) (compress_inputs poseidon (map (hashed_leaf poseidon) attrs)) \<or>
       (\<exists>c. (delegates ^^ length ws) (base_credential (x @ y) attrs [2, 0, 0, 0]) c \<and> represents poseidon sample_pi_layout [2, 0, 0, 0] pis c)"
    using ok(3) [rule_format, OF conjI [OF ws key], unfolded none append_Nil2 digest] by blast
  have "length attrs = 1" by (rule pad_attributes_length [OF b(2)])
  then have "compress_inputs poseidon (map (hashed_leaf poseidon) attrs) = []" by (simp add: compress_inputs_one)
  then obtain c where c: "(delegates ^^ length ws) (base_credential (x @ y) attrs [2, 0, 0, 0]) c" "represents poseidon sample_pi_layout [2, 0, 0, 0] pis c"
    using b(3) by auto
  show ?thesis
    by (intro exI conjI, rule p(1), rule conjunct1 [OF ws], rule conjunct2 [OF ws], rule b(1), rule b(2), rule c(1), rule c(2))
qed

end
