(* ===== verification/Comparison.thy ===== *)
theory Comparison
  imports U32_Gadgets Biguint
begin

text \<open>
  \<open>ComparisonGate\<close> (\<open>plonky2_u32/src/gates/comparison.rs\<close>) and the comparison of limb lists built
  from it (\<open>plonky2_u32/src/gadgets/multiple_comparison.rs\<close>).  The gate splits both inputs into
  chunks, carries the difference of the most significant chunks that differ through intermediate
  wires and reads the result off the top bit of that difference plus $2^{chunk\_bits}$.
\<close>

subsection \<open>ComparisonGate\<close>

definition chunk_bits :: "nat \<Rightarrow> nat \<Rightarrow> nat" where
  "chunk_bits num_bits num_chunks = div_ceil num_bits num_chunks"

text \<open>The wires besides the two inputs, in the order of their columns.\<close>

record comparison_wires =
  wire_result_bool :: gf
  wire_diff :: gf
  wire_first_chunks :: "gf list"
  wire_second_chunks :: "gf list"
  wire_equality_dummies :: "gf list"
  wire_chunks_equal :: "gf list"
  wire_intermediate_values :: "gf list"
  wire_diff_bits :: "gf list"

definition comparison_wires_of :: "nat \<Rightarrow> nat \<Rightarrow> gf list \<Rightarrow> comparison_wires" where
  "comparison_wires_of num_bits num_chunks ws =
     (let block = (\<lambda>k. take num_chunks (drop (2 + k * num_chunks) ws)) in
      \<lparr> wire_result_bool = ws ! 0, wire_diff = ws ! 1,
        wire_first_chunks = block 0, wire_second_chunks = block 1, wire_equality_dummies = block 2,
        wire_chunks_equal = block 3, wire_intermediate_values = block 4,
        wire_diff_bits = drop (2 + 5 * num_chunks) ws \<rparr>)"

definition num_comparison_wires :: "nat \<Rightarrow> nat \<Rightarrow> nat" where
  "num_comparison_wires num_bits num_chunks = 2 + 5 * num_chunks + (chunk_bits num_bits num_chunks + 1)"

text \<open>The loop over the chunks: whether its constraints hold, and the difference it ends with.\<close>

fun chunk_constraints :: "nat \<Rightarrow> gf \<Rightarrow> (gf \<times> gf \<times> gf \<times> gf \<times> gf) list \<Rightarrow> bool \<times> gf" where
  "chunk_constraints chunk_size most_significant_diff_so_far [] = (True, most_significant_diff_so_far)"
| "chunk_constraints chunk_size most_significant_diff_so_far ((f, s, equality_dummy, chunks_equal, intermediate_value) # cs) =
     (let difference = s - f;
          (ok, final) = chunk_constraints chunk_size (intermediate_value + (1 - chunks_equal) * difference) cs
      in (limb_product chunk_size f = 0
        \<and> limb_product chunk_size s = 0
        \<and> difference * equality_dummy - (1 - chunks_equal) = 0
        \<and> chunks_equal * difference = 0
        \<and> intermediate_value - chunks_equal * most_significant_diff_so_far = 0
        \<and> ok, final))"

definition chunk_rows :: "comparison_wires \<Rightarrow> (gf \<times> gf \<times> gf \<times> gf \<times> gf) list" where
  "chunk_rows w = zip (wire_first_chunks w) (zip (wire_second_chunks w)
     (zip (wire_equality_dummies w) (zip (wire_chunks_equal w) (wire_intermediate_values w))))"

definition comparison_gate :: "nat \<Rightarrow> nat \<Rightarrow> gf \<Rightarrow> gf \<Rightarrow> comparison_wires \<Rightarrow> bool" where
  "comparison_gate num_bits num_chunks first_input second_input w \<longleftrightarrow>
     (let n = chunk_bits num_bits num_chunks; chunk_size = 2 ^ n;
          (ok, most_significant_diff_so_far) = chunk_constraints chunk_size 0 (chunk_rows w)
      in reduce_with_powers (wire_first_chunks w) (of_nat chunk_size) - first_input = 0
       \<and> reduce_with_powers (wire_second_chunks w) (of_nat chunk_size) - second_input = 0
       \<and> ok
       \<and> wire_diff w - most_significant_diff_so_far = 0
       \<and> (\<forall>b \<in> set (wire_diff_bits w). b * (1 - b) = 0)
       \<and> (of_nat chunk_size + wire_diff w) - reduce_with_powers (wire_diff_bits w) 2 = 0
       \<and> wire_result_bool w - wire_diff_bits w ! n = 0)"

text \<open>\<open>ComparisonGenerator::run_once\<close>\<close>

fun generate_diffs :: "gf \<Rightarrow> gf list \<Rightarrow> gf list \<Rightarrow> gf list \<times> gf" where
  "generate_diffs most_significant_diff_so_far (f # fs) (s # ss) =
     (let (intermediate, new) = (if f \<noteq> s then (0, s - f) else (most_significant_diff_so_far, most_significant_diff_so_far));
          (rest, final) = generate_diffs new fs ss
      in (intermediate # rest, final))"
| "generate_diffs most_significant_diff_so_far _ _ = ([], most_significant_diff_so_far)"

definition comparison_generator :: "nat \<Rightarrow> nat \<Rightarrow> gf \<Rightarrow> gf \<Rightarrow> comparison_wires" where
  "comparison_generator num_bits num_chunks first_input second_input =
     (let n = chunk_bits num_bits num_chunks; chunk_size = 2 ^ n;
          fs = limbs_scan chunk_size num_chunks (canon first_input);
          ss = limbs_scan chunk_size num_chunks (canon second_input);
          (intermediate, msd) = generate_diffs 0 fs ss
      in \<lparr> wire_result_bool = of_bool (canon first_input \<le> canon second_input),
           wire_diff = msd,
           wire_first_chunks = fs, wire_second_chunks = ss,
           wire_equality_dummies = map (\<lambda>(f, s). if f = s then 1 else 1 / (s - f)) (zip fs ss),
           wire_chunks_equal = map (\<lambda>(f, s). of_bool (f = s)) (zip fs ss),
           wire_intermediate_values = intermediate,
           wire_diff_bits = limbs_scan 2 (n + 1) (canon (of_nat chunk_size + msd)) \<rparr>)"

subsection \<open>The constraints decide the order\<close>

text \<open>The difference the loop carries, on chunk values.\<close>

fun leading_diff :: "int \<Rightarrow> (nat \<times> nat) list \<Rightarrow> int" where
  "leading_diff d [] = d"
| "leading_diff d ((u, v) # uvs) = leading_diff (if u = v then d else int v - int u) uvs"

fun chunks_val :: "nat \<Rightarrow> nat list \<Rightarrow> nat" where
  "chunks_val b [] = 0"
| "chunks_val b (x # xs) = x + b * chunks_val b xs"

lemma reduce_of_nats: "reduce_with_powers (map of_nat xs) (of_nat b) = of_nat (chunks_val b xs)"
  by (induction xs) simp_all

lemma chunks_val_less: "\<forall>x \<in> set xs. x < b \<Longrightarrow> chunks_val b xs < b ^ length xs"
proof (induction xs)
  case (Cons x xs)
  then have "x + b * chunks_val b xs < b * Suc (chunks_val b xs)" by simp
  also have "\<dots> \<le> b * b ^ length xs" using Cons by (intro mult_le_mono2) simp
  finally show ?case by simp
qed simp

lemma leading_diff_bound:
  "\<forall>(u, v) \<in> set uvs. u < b \<and> v < b \<Longrightarrow> \<bar>d\<bar> < int b \<Longrightarrow> \<bar>leading_diff d uvs\<bar> < int b"
  by (induction uvs arbitrary: d) auto

lemma sign_of_leading:
  fixes b d e y :: int
  assumes "0 < b" "\<bar>d\<bar> < b"
  shows "0 \<le> d + b * y \<longleftrightarrow> (if y = 0 then 0 \<le> d else 0 < y)"
proof -
  consider "y = 0" | "1 \<le> y" | "y \<le> -1" by linarith
  then show ?thesis
  proof cases
    case 2
    then have "b * 1 \<le> b * y" using assms(1) by (intro mult_left_mono) auto
    then have "0 < d + b * y" using assms(2) by linarith
    then show ?thesis using 2 by simp
  next
    case 3
    then have "b * y \<le> b * (-1)" using assms(1) by (intro mult_left_mono) auto
    then have "d + b * y < 0" using assms(2) by linarith
    then show ?thesis using 3 by simp
  qed simp
qed

lemma leading_diff_sign:
  assumes "\<forall>(u, v) \<in> set uvs. u < b \<and> v < b" "\<bar>d\<bar> < int b"
  shows "0 \<le> leading_diff d uvs \<longleftrightarrow>
    0 \<le> d + int b * (int (chunks_val b (map snd uvs)) - int (chunks_val b (map fst uvs)))"
  using assms
proof (induction uvs arbitrary: d)
  case (Cons uv uvs)
  obtain u v where uv: "uv = (u, v)" by (cases uv)
  define y where "y = int (chunks_val b (map snd uvs)) - int (chunks_val b (map fst uvs))"
  have b: "0 < int b" "u < b" "v < b" using Cons.prems uv by auto
  have e: "\<bar>int v - int u\<bar> < int b" using b by linarith
  have ih: "0 \<le> leading_diff d' uvs \<longleftrightarrow> 0 \<le> d' + int b * y" if "\<bar>d'\<bar> < int b" for d'
    using Cons.IH [OF _ that] Cons.prems(1) by (simp add: y_def)
  have val: "int (chunks_val b (map snd (uv # uvs))) - int (chunks_val b (map fst (uv # uvs))) = (int v - int u) + int b * y"
    by (simp add: uv y_def algebra_simps)
  note s = sign_of_leading [OF b(1)]
  show ?case
  proof (cases "u = v")
    case True
    have "0 \<le> d + int b * (int b * y) \<longleftrightarrow> 0 \<le> d + int b * y"
      using s [OF Cons.prems(2), of "int b * y"] s [OF Cons.prems(2), of y] b(1) by (simp add: zero_less_mult_iff)
    then show ?thesis using ih [OF Cons.prems(2)] by (simp only: val) (simp add: uv True)
  next
    case False
    define z where "z = (int v - int u) + int b * y"
    have "z \<noteq> 0"
    proof
      assume "z = 0"
      then have "int b dvd int v - int u" unfolding z_def by (metis add_eq_0_iff dvd_minus_iff dvd_triv_left minus_equation_iff)
      then show False using e False using dvd_imp_le_int [of "int v - int u" "int b"] by simp
    qed
    then have "0 \<le> d + int b * z \<longleftrightarrow> 0 \<le> z" using s [OF Cons.prems(2), of z] by auto
    then show ?thesis using ih [OF e] False unfolding val by (simp add: uv z_def)
  qed
qed simp

text \<open>Chunks and constraints as numbers.\<close>

lemma chunk_constraints_sound:
  assumes "fst (chunk_constraints b d rows)" "d = of_int di" "b \<le> goldilocks_order"
  shows "\<exists>uvs. map fst rows = map (\<lambda>(u, v). of_nat u) uvs \<and> map (\<lambda>r. fst (snd r)) rows = map (\<lambda>(u, v). of_nat v) uvs
    \<and> (\<forall>(u, v) \<in> set uvs. u < b \<and> v < b) \<and> snd (chunk_constraints b d rows) = of_int (leading_diff di uvs)"
  using assms(1,2)
proof (induction rows arbitrary: d di)
  case (Cons row rows)
  obtain f s dummy eq iv where row: "row = (f, s, dummy, eq, iv)" by (cases row)
  let ?d = "iv + (1 - eq) * (s - f)"
  have c: "limb_product b f = 0" "limb_product b s = 0" "(s - f) * dummy = 1 - eq" "eq * (s - f) = 0" "iv = eq * d"
      "fst (chunk_constraints b ?d rows)" "snd (chunk_constraints b d (row # rows)) = snd (chunk_constraints b ?d rows)"
    using Cons.prems(1) by (auto simp: row Let_def case_prod_unfold)
  obtain u v where uv: "u < b" "f = of_nat u" "v < b" "s = of_nat v" using c(1,2) by (auto simp: limb_product_0)
  have same: "f = s \<longleftrightarrow> u = v" using uv assms(3) of_nat_gf_inject [of u v] by auto
  have "?d = of_int (if u = v then di else int v - int u)"
    using c(3-5) same uv Cons.prems(2) by (cases "f = s") auto
  then obtain uvs where "map fst rows = map (\<lambda>(u, v). of_nat u) uvs" "map (\<lambda>r. fst (snd r)) rows = map (\<lambda>(u, v). of_nat v) uvs"
      "\<forall>(u, v) \<in> set uvs. u < b \<and> v < b"
      "snd (chunk_constraints b ?d rows) = of_int (leading_diff (if u = v then di else int v - int u) uvs)"
    using Cons.IH [OF c(6)] by blast
  then show ?case using uv c(7) by (intro exI [of _ "(u, v) # uvs"]) (simp add: row del: chunk_constraints.simps)
qed simp

lemma top_bit:
  assumes "length bs = n + 1"
  shows "bs ! n \<longleftrightarrow> 2 ^ n \<le> bits_val bs"
proof -
  have "bs = bits_of (n + 1) (bits_val bs)" using assms bits_of_bits_val [of bs] by simp
  then have "bs ! n = bit (bits_val bs) n" by (metis less_add_one nth_bits_of)
  moreover have "bits_val bs div 2 ^ n < 2" using bits_val_less [of bs] assms by (simp add: less_mult_imp_div_less)
  then have "odd (bits_val bs div 2 ^ n) \<longleftrightarrow> 1 \<le> bits_val bs div 2 ^ n"
    by (metis One_nat_def Suc_leI even_zero less_2_cases_iff not_less_eq_eq odd_one odd_pos)
  moreover have "1 \<le> bits_val bs div 2 ^ n \<longleftrightarrow> 2 ^ n \<le> bits_val bs" by (simp add: div_greater_zero_iff Suc_le_eq)
  ultimately show ?thesis by (simp add: bit_iff_odd)
qed

definition wires_shape :: "nat \<Rightarrow> nat \<Rightarrow> comparison_wires \<Rightarrow> bool" where
  "wires_shape num_bits num_chunks w \<longleftrightarrow>
     length (wire_first_chunks w) = num_chunks \<and> length (wire_second_chunks w) = num_chunks
   \<and> length (wire_equality_dummies w) = num_chunks \<and> length (wire_chunks_equal w) = num_chunks
   \<and> length (wire_intermediate_values w) = num_chunks
   \<and> length (wire_diff_bits w) = chunk_bits num_bits num_chunks + 1"

lemma comparison_gate_sound:
  assumes gate: "comparison_gate num_bits num_chunks x y w" and shape: "wires_shape num_bits num_chunks w"
    and n: "n = chunk_bits num_bits num_chunks" and small: "(2 ^ n) ^ num_chunks \<le> goldilocks_order" "2 ^ (n + 1) \<le> goldilocks_order"
  shows "canon x < (2 ^ n) ^ num_chunks \<and> canon y < (2 ^ n) ^ num_chunks \<and> wire_result_bool w = of_bool (canon x \<le> canon y)"
proof -
  let ?b = "2 ^ n :: nat"
  have len: "map fst (chunk_rows w) = wire_first_chunks w" "map (\<lambda>r. fst (snd r)) (chunk_rows w) = wire_second_chunks w"
    using shape by (simp_all add: chunk_rows_def wires_shape_def map_fst_zip map_snd_zip flip: map_map [unfolded comp_def, of fst snd])
  have b: "?b \<le> goldilocks_order" using small(2) by simp
  have ok: "fst (chunk_constraints ?b 0 (chunk_rows w))"
    and xy: "x = reduce_with_powers (wire_first_chunks w) (of_nat ?b)" "y = reduce_with_powers (wire_second_chunks w) (of_nat ?b)"
    and diff: "wire_diff w = snd (chunk_constraints ?b 0 (chunk_rows w))"
    and bits: "\<forall>c \<in> set (wire_diff_bits w). c = 0 \<or> c = 1"
      "of_nat ?b + wire_diff w = reduce_with_powers (wire_diff_bits w) 2" "wire_result_bool w = wire_diff_bits w ! n"
    using gate unfolding comparison_gate_def Let_def case_prod_unfold n [symmetric] by auto
  obtain uvs where uvs: "wire_first_chunks w = map (\<lambda>(u, v). of_nat u) uvs" "wire_second_chunks w = map (\<lambda>(u, v). of_nat v) uvs"
      "\<forall>(u, v) \<in> set uvs. u < ?b \<and> v < ?b" "wire_diff w = of_int (leading_diff 0 uvs)"
    using chunk_constraints_sound [OF ok _ b, of 0] diff len by auto
  let ?u = "chunks_val ?b (map fst uvs)" and ?v = "chunks_val ?b (map snd uvs)" and ?d = "leading_diff 0 uvs"
  have "length uvs = num_chunks" using uvs(1) shape by (metis length_map wires_shape_def)
  then have uv: "?u < ?b ^ num_chunks" "?v < ?b ^ num_chunks"
    using chunks_val_less [of "map fst uvs" ?b] chunks_val_less [of "map snd uvs" ?b] uvs(3) by force+
  have "x = of_nat ?u" "y = of_nat ?v"
    using xy uvs(1,2) reduce_of_nats [of "map fst uvs" ?b] reduce_of_nats [of "map snd uvs" ?b]
    by (simp_all add: case_prod_unfold comp_def)
  then have c: "canon x = ?u" "canon y = ?v" using uv small(1) by simp_all
  obtain bs where bs: "wire_diff_bits w = map of_bool bs" "length bs = n + 1"
    using boolean_wires [OF bits(1)] shape n by (metis wires_shape_def)
  have bound: "\<bar>?d\<bar> < int ?b" using leading_diff_bound [OF uvs(3), of 0] by simp
  then have pos: "0 \<le> int ?b + ?d" "int ?b + ?d < int (2 ^ (n + 1))" by (simp_all add: abs_less_iff)
  have "of_nat (bits_val bs) = (of_nat (nat (int ?b + ?d)) :: gf)"
    using bits(2) uvs(4) pos(1) unfolding bs(1) reduce_of_bools by (simp add: of_nat_nat)
  moreover have "bits_val bs < 2 ^ (n + 1)" "nat (int ?b + ?d) < 2 ^ (n + 1)"
    using bits_val_less [of bs] pos bs(2) by (simp_all add: nat_less_iff)
  ultimately have v: "bits_val bs = nat (int ?b + ?d)" using of_nat_gf_inject small(2) by (meson less_le_trans)
  have "bs ! n \<longleftrightarrow> 0 \<le> ?d" using top_bit [OF bs(2)] pos by (simp add: v nat_le_iff le_nat_iff)
  also have "0 \<le> ?d \<longleftrightarrow> ?u \<le> ?v" using leading_diff_sign [OF uvs(3), of 0] by (simp add: zero_le_mult_iff)
  finally show ?thesis using uv c bits(3) bs by simp
qed

subsection \<open>The generator satisfies the gate\<close>

lemma generate_diffs_length: "length fs = length ss \<Longrightarrow> length (fst (generate_diffs d fs ss)) = length fs"
  by (induction d fs ss rule: generate_diffs.induct) (auto simp: Let_def case_prod_unfold)

lemma generated_chunks:
  assumes "length fs = length ss" "limbs_ok b fs" "limbs_ok b ss"
  shows "chunk_constraints b d (zip fs (zip ss (zip (map (\<lambda>(f, s). if f = s then 1 else 1 / (s - f)) (zip fs ss))
      (zip (map (\<lambda>(f, s). of_bool (f = s)) (zip fs ss)) (fst (generate_diffs d fs ss)))))) = (True, snd (generate_diffs d fs ss))"
  using assms
proof (induction fs ss arbitrary: d rule: list_induct2)
  case (Cons f fs s ss)
  then show ?case by (cases "f = s") (simp_all add: Let_def case_prod_unfold)
qed simp

lemma bits_scan:
  assumes "v < 2 ^ k"
  shows "reduce_with_powers (limbs_scan 2 k v) 2 = of_nat v" "\<forall>c \<in> set (limbs_scan 2 k v). c = 0 \<or> c = 1"
proof -
  show "reduce_with_powers (limbs_scan 2 k v) 2 = of_nat v" using limbs_scan_value [OF assms] by simp
  have "limbs_ok 2 (limbs_scan 2 k v)" by (simp add: limbs_scan_ok)
  then show "\<forall>c \<in> set (limbs_scan 2 k v). c = 0 \<or> c = 1"
    by (auto simp: limbs_ok_def limb_product_0 less_2_cases_iff)
qed

lemma comparison_generator_ok:
  assumes n: "n = chunk_bits num_bits num_chunks" and small: "(2 ^ n) ^ num_chunks \<le> goldilocks_order" "2 ^ (n + 1) \<le> goldilocks_order"
    and x: "canon x < (2 ^ n) ^ num_chunks" and y: "canon y < (2 ^ n) ^ num_chunks"
  shows "comparison_gate num_bits num_chunks x y (comparison_generator num_bits num_chunks x y)
    \<and> wires_shape num_bits num_chunks (comparison_generator num_bits num_chunks x y)"
proof -
  let ?b = "2 ^ n :: nat" and ?w = "comparison_generator num_bits num_chunks x y"
  let ?fs = "limbs_scan ?b num_chunks (canon x)" and ?ss = "limbs_scan ?b num_chunks (canon y)"
  let ?d = "generate_diffs 0 ?fs ?ss"
  have w: "wire_first_chunks ?w = ?fs" "wire_second_chunks ?w = ?ss" "wire_diff ?w = snd ?d"
      "wire_diff_bits ?w = limbs_scan 2 (n + 1) (canon (of_nat ?b + snd ?d))"
      "wire_result_bool ?w = of_bool (canon x \<le> canon y)"
    by (simp_all add: comparison_generator_def Let_def case_prod_unfold n [symmetric])
  have shape: "wires_shape num_bits num_chunks ?w"
    using generate_diffs_length [of ?fs ?ss 0]
    by (simp add: wires_shape_def comparison_generator_def Let_def case_prod_unfold n [symmetric])
  have ok: "limbs_ok ?b ?fs" "limbs_ok ?b ?ss" by (simp_all add: limbs_scan_ok)
  have rows: "chunk_constraints ?b 0 (chunk_rows ?w) = (True, snd ?d)"
    using generated_chunks [OF _ ok, of 0]
    by (simp add: chunk_rows_def comparison_generator_def Let_def case_prod_unfold n [symmetric])
  have b: "?b \<le> goldilocks_order" using small(2) by simp
  obtain uvs where uvs: "\<forall>(u, v) \<in> set uvs. u < ?b \<and> v < ?b" "snd ?d = of_int (leading_diff 0 uvs)"
    using chunk_constraints_sound [of ?b 0 "chunk_rows ?w" 0] rows b by auto
  have "\<bar>leading_diff 0 uvs\<bar> < int ?b" using leading_diff_bound [OF uvs(1), of 0] by simp
  then have pos: "0 \<le> int ?b + leading_diff 0 uvs" "nat (int ?b + leading_diff 0 uvs) < 2 ^ (n + 1)"
    by (simp_all add: abs_less_iff nat_less_iff)
  have val: "of_nat ?b + snd ?d = (of_nat (nat (int ?b + leading_diff 0 uvs)) :: gf)"
    using uvs(2) pos(1) by (simp add: of_nat_nat)
  have "canon (of_nat ?b + snd ?d) = nat (int ?b + leading_diff 0 uvs)"
    unfolding val using pos(2) small(2) by (simp only: canon_of_nat mod_less less_le_trans)
  then have bits: "reduce_with_powers (wire_diff_bits ?w) 2 = of_nat ?b + snd ?d" "\<forall>c \<in> set (wire_diff_bits ?w). c = 0 \<or> c = 1"
    using bits_scan [OF pos(2)] by (simp_all only: w(4) val)
  let ?w' = "?w\<lparr>wire_result_bool := wire_diff_bits ?w ! n\<rparr>"
  have "comparison_gate num_bits num_chunks x y ?w'"
    using limbs_scan_value [OF x] limbs_scan_value [OF y] bits rows
    by (simp add: comparison_gate_def Let_def w(1-3) n [symmetric] chunk_rows_def)
  moreover have "wires_shape num_bits num_chunks ?w'" using shape by (simp add: wires_shape_def)
  ultimately have "wire_result_bool ?w' = of_bool (canon x \<le> canon y)"
    using comparison_gate_sound [OF _ _ n small] by blast
  then have "?w' = ?w" using w(5) by simp
  then show ?thesis using \<open>comparison_gate num_bits num_chunks x y ?w'\<close> shape by simp
qed

subsection \<open>Comparison of limb lists\<close>

definition comparison :: "nat \<Rightarrow> nat \<Rightarrow> gf \<Rightarrow> gf \<Rightarrow> gf circuit" where
  "comparison num_bits num_chunks x y =
     bindc (wires (num_comparison_wires num_bits num_chunks)) (\<lambda>ws.
       let w = comparison_wires_of num_bits num_chunks ws in
       bindc (check (comparison_gate num_bits num_chunks x y w)) (\<lambda>_. ret (wire_result_bool w)))"

definition list_le_circuit :: "gf list \<Rightarrow> gf list \<Rightarrow> nat \<Rightarrow> gf circuit" where
  "list_le_circuit a b num_bits =
     (let num_chunks = div_ceil num_bits 2 in
      bindc (check (length a = length b)) (\<lambda>_.
        foldc (\<lambda>res i.
            bindc (comparison num_bits num_chunks (a ! i) (b ! i)) (\<lambda>a_le_b.
            bindc (comparison num_bits num_chunks (b ! i) (a ! i)) (\<lambda>b_le_a.
              let these_limbs_equal = a_le_b * b_le_a;
                  these_limbs_less_than = 1 - b_le_a
              in ret (these_limbs_equal * res + these_limbs_less_than))))
          1 [0..<length a]))"

definition list_le_u32_circuit :: "gf list \<Rightarrow> gf list \<Rightarrow> gf circuit" where
  "list_le_u32_circuit a b = list_le_circuit a b 32"

lemma wires_of_shape:
  "length ws = num_comparison_wires num_bits num_chunks \<Longrightarrow> wires_shape num_bits num_chunks (comparison_wires_of num_bits num_chunks ws)"
  by (simp add: num_comparison_wires_def wires_shape_def comparison_wires_of_def Let_def)

lemma shape_wires:
  assumes "wires_shape num_bits num_chunks w"
  shows "\<exists>ws. length ws = num_comparison_wires num_bits num_chunks \<and> comparison_wires_of num_bits num_chunks ws = w"
proof -
  let ?ws = "wire_result_bool w # wire_diff w # wire_first_chunks w @ wire_second_chunks w @ wire_equality_dummies w
    @ wire_chunks_equal w @ wire_intermediate_values w @ wire_diff_bits w"
  have "length ?ws = num_comparison_wires num_bits num_chunks" using assms by (simp add: wires_shape_def num_comparison_wires_def)
  moreover have "comparison_wires_of num_bits num_chunks ?ws = w"
    using assms by (simp add: wires_shape_def comparison_wires_of_def Let_def numeral_eq_Suc)
  ultimately show ?thesis by blast
qed

lemma comparison_yields:
  assumes n: "n = chunk_bits num_bits num_chunks" and small: "(2 ^ n) ^ num_chunks \<le> goldilocks_order" "2 ^ (n + 1) \<le> goldilocks_order"
  shows "yields (comparison num_bits num_chunks x y)
    (\<lambda>r. canon x < (2 ^ n) ^ num_chunks \<and> canon y < (2 ^ n) ^ num_chunks \<and> r = of_bool (canon x \<le> canon y))"
  using comparison_gate_sound [OF _ wires_of_shape n small]
  by (auto simp: yields_def comparison_def bindc_Some Let_def)

lemma comparison_reaches:
  assumes n: "n = chunk_bits num_bits num_chunks" and small: "(2 ^ n) ^ num_chunks \<le> goldilocks_order" "2 ^ (n + 1) \<le> goldilocks_order"
    and x: "canon x < (2 ^ n) ^ num_chunks" and y: "canon y < (2 ^ n) ^ num_chunks"
  shows "reaches (comparison num_bits num_chunks x y) (of_bool (canon x \<le> canon y))"
proof -
  let ?w = "comparison_generator num_bits num_chunks x y"
  note ok = comparison_generator_ok [OF n small x y]
  obtain ws where ws: "length ws = num_comparison_wires num_bits num_chunks" "comparison_wires_of num_bits num_chunks ws = ?w"
    using shape_wires [OF conjunct2 [OF ok]] by blast
  have "wire_result_bool ?w = of_bool (canon x \<le> canon y)" using comparison_gate_sound [OF _ _ n small] ok by blast
  then show ?thesis
    unfolding comparison_def Let_def using ok
    by (intro reaches_bindc [OF reaches_wires [OF ws(1)]] reaches_bindc [OF reaches_check]) (simp_all add: ws(2) reaches_ret)
qed

subsection \<open>Comparison of 32-bit limbs\<close>

definition u32s :: "gf list \<Rightarrow> bool" where
  "u32s xs \<longleftrightarrow> (\<forall>x \<in> set xs. canon x < 2 ^ 32)"

lemma u32s_simps [simp]: "u32s []" "u32s (x # xs) \<longleftrightarrow> canon x < 2 ^ 32 \<and> u32s xs" "u32s (xs @ ys) \<longleftrightarrow> u32s xs \<and> u32s ys"
  by (auto simp: u32s_def)

lemma u32s_nth: "u32s xs \<Longrightarrow> i < length xs \<Longrightarrow> canon (xs ! i) < 2 ^ 32"
  by (simp add: u32s_def)

lemma chunk_bits_32: "chunk_bits 32 16 = 2" "div_ceil 32 2 = 16"
  by (simp_all add: chunk_bits_def div_ceil_def)

lemma comparison_32_yields:
  "yields (comparison 32 (div_ceil 32 2) x y) (\<lambda>r. canon x < 2 ^ 32 \<and> canon y < 2 ^ 32 \<and> r = of_bool (canon x \<le> canon y))"
  using comparison_yields [OF chunk_bits_32(1) [symmetric], of x y] by (simp add: chunk_bits_32(2))

lemma comparison_32_reaches:
  "canon x < 2 ^ 32 \<Longrightarrow> canon y < 2 ^ 32 \<Longrightarrow> reaches (comparison 32 (div_ceil 32 2) x y) (of_bool (canon x \<le> canon y))"
  using comparison_reaches [OF chunk_bits_32(1) [symmetric], of x y] by (simp add: chunk_bits_32(2))

lemma limbs_val_snoc_le:
  assumes "length xs = length ys" "\<forall>l \<in> set xs. l < 2 ^ 32" "\<forall>l \<in> set ys. l < 2 ^ 32"
  shows "limbs_val (xs @ [x]) \<le> limbs_val (ys @ [y]) \<longleftrightarrow> x < y \<or> x = y \<and> limbs_val xs \<le> limbs_val ys"
proof -
  let ?p = "2 ^ (32 * length ys) :: nat"
  have b: "limbs_val xs < ?p" "limbs_val ys < ?p" using limbs_val_less [OF assms(2)] limbs_val_less [OF assms(3)] assms(1) by simp_all
  consider "x < y" | "x = y" | "y < x" by linarith
  then show ?thesis
  proof cases
    case 1
    then have "?p * Suc x \<le> ?p * y" by (intro mult_le_mono2) simp
    then show ?thesis using b 1 assms(1) by (simp add: limbs_val_append)
  next
    case 3
    then have "?p * Suc y \<le> ?p * x" by (intro mult_le_mono2) simp
    then show ?thesis using b 3 assms(1) by (simp add: limbs_val_append)
  qed (simp add: limbs_val_append assms(1))
qed

lemma limb_step:
  assumes "u32s (take i a)" "u32s (take i b)" "length a = length b" "i < length a"
  shows "of_bool (canon (a ! i) \<le> canon (b ! i)) * of_bool (canon (b ! i) \<le> canon (a ! i)) * of_bool (get_biguint_target (take i a) \<le> get_biguint_target (take i b))
      + (1 - of_bool (canon (b ! i) \<le> canon (a ! i)))
    = (of_bool (get_biguint_target (take (Suc i) a) \<le> get_biguint_target (take (Suc i) b)) :: gf)"
proof -
  have "get_biguint_target (take (Suc i) a) \<le> get_biguint_target (take (Suc i) b) \<longleftrightarrow>
      canon (a ! i) < canon (b ! i) \<or> canon (a ! i) = canon (b ! i) \<and> get_biguint_target (take i a) \<le> get_biguint_target (take i b)"
    using assms limbs_val_snoc_le [of "map canon (take i a)" "map canon (take i b)"]
    by (simp add: get_biguint_target_val take_Suc_conv_app_nth u32s_def)
  then show ?thesis by (cases "canon (a ! i)" "canon (b ! i)" rule: linorder_cases) auto
qed

lemma list_le_u32_yields:
  "yields (list_le_u32_circuit a b)
    (\<lambda>r. length a = length b \<and> u32s a \<and> u32s b \<and> r = of_bool (get_biguint_target a \<le> get_biguint_target b))"
proof -
  let ?P = "\<lambda>i r. u32s (take i a) \<and> u32s (take i b) \<and> r = (of_bool (get_biguint_target (take i a) \<le> get_biguint_target (take i b)) :: gf)"
  have step: "yields (bindc (comparison 32 (div_ceil 32 2) (a ! i) (b ! i)) (\<lambda>a_le_b. bindc (comparison 32 (div_ceil 32 2) (b ! i) (a ! i)) (\<lambda>b_le_a.
      ret (a_le_b * b_le_a * r + (1 - b_le_a))))) (?P (Suc i))" if "?P i r" "i < length a" "length a = length b" for i r
  proof (rule yields_bindc [OF comparison_32_yields], rule yields_bindc [OF comparison_32_yields], rule yields_ret)
    fix p q :: gf
    assume "canon (a ! i) < 2 ^ 32 \<and> canon (b ! i) < 2 ^ 32 \<and> p = of_bool (canon (a ! i) \<le> canon (b ! i))"
      "canon (b ! i) < 2 ^ 32 \<and> canon (a ! i) < 2 ^ 32 \<and> q = of_bool (canon (b ! i) \<le> canon (a ! i))"
    then show "?P (Suc i) (p * q * r + (1 - q))"
      using that limb_step [of i a b]
      by (simp only: take_Suc_conv_app_nth u32s_simps)
  qed
  have "yields (foldc (\<lambda>r i. bindc (comparison 32 (div_ceil 32 2) (a ! i) (b ! i)) (\<lambda>a_le_b. bindc (comparison 32 (div_ceil 32 2) (b ! i) (a ! i)) (\<lambda>b_le_a.
      ret (a_le_b * b_le_a * r + (1 - b_le_a))))) 1 [0..<length a]) (?P (length a))" if "length a = length b"
    by (rule yields_foldc_upt [where P = ?P]) (use step that in simp_all)
  then show ?thesis
    unfolding list_le_u32_circuit_def list_le_circuit_def Let_def
    by (intro yields_bindc [OF yields_check]) (auto elim: yields_mono)
qed

lemma list_le_u32_exactly [exactly_intros]:
  assumes "length a = length b" "u32s a" "u32s b"
  shows "exactly (list_le_u32_circuit a b) (of_bool (get_biguint_target a \<le> get_biguint_target b))"
proof -
  have c: "exactly (comparison 32 (div_ceil 32 2) x y) (of_bool (canon x \<le> canon y))" if "canon x < 2 ^ 32" "canon y < 2 ^ 32" for x y
    unfolding exactly_def by (intro conjI yields_mono [OF comparison_32_yields] comparison_32_reaches that) simp
  let ?S = "\<lambda>i. of_bool (get_biguint_target (take i a) \<le> get_biguint_target (take i b)) :: gf"
  let ?f = "\<lambda>res i. bindc (comparison 32 (div_ceil 32 2) (a ! i) (b ! i)) (\<lambda>a_le_b. bindc (comparison 32 (div_ceil 32 2) (b ! i) (a ! i)) (\<lambda>b_le_a.
      ret (a_le_b * b_le_a * res + (1 - b_le_a))))"
  have "exactly (foldc ?f (?S 0) [0..<length a]) (?S (length a))"
  proof (rule exactly_foldc_upt)
    fix i assume i: "i < length a"
    have t: "u32s (take i a)" "u32s (take i b)" using assms(2,3) by (auto simp: u32s_def dest: in_set_takeD)
    have w: "canon (a ! i) < 2 ^ 32" "canon (b ! i) < 2 ^ 32" using u32s_nth assms i by auto
    show "exactly (?f (?S i) i) (?S (Suc i))"
      by (rule exactly_bindc [OF c [OF w]], rule exactly_bindc [OF c [OF w(2,1)]], rule exactly_ret)
        (rule limb_step [OF t assms(1) i])
  qed simp
  then show ?thesis
    using assms(1) unfolding list_le_u32_circuit_def list_le_circuit_def Let_def
    by (intro exactly_bindc [OF exactly_check]) simp_all
qed

end
