(* ===== verification/Biguint_Gadgets.thy ===== *)
theory Biguint_Gadgets
  imports Comparison
begin

text \<open>
  The big-integer operations of \<open>CircuitBuilderBiguint\<close>
  (\<open>plonky2_ecdsa/src/gadgets/biguint.rs\<close>) on \<open>BigUintTarget\<close>s, little-endian lists of limbs whose
  value \<open>get_biguint_target\<close> reads.  On limbs below $2^{32}$ every operation computes the integer
  operation exactly; what the limbs of a quotient may be when nothing bounds them is shown too.
\<close>

subsection \<open>Operations\<close>

definition constant_biguint :: "nat \<Rightarrow> gf list" where
  "constant_biguint v = map of_nat (to_u32_digits v)"

definition zero_biguint :: "gf list" where
  "zero_biguint = constant_biguint 0"

definition connect_biguint :: "gf list \<Rightarrow> gf list \<Rightarrow> bool" where
  "connect_biguint lhs rhs \<longleftrightarrow>
     (let min_limbs = min (length lhs) (length rhs) in
      (\<forall>i \<in> {0..<min_limbs}. lhs ! i = rhs ! i)
    \<and> (\<forall>i \<in> {min_limbs..<length lhs}. lhs ! i = 0)
    \<and> (\<forall>i \<in> {min_limbs..<length rhs}. rhs ! i = 0))"

definition pad_biguints :: "gf list \<Rightarrow> gf list \<Rightarrow> gf list \<times> gf list" where
  "pad_biguints a b =
     (if length a > length b then (a, b @ replicate (length a - length b) 0)
      else (a @ replicate (length b - length a) 0, b))"

definition cmp_biguint :: "gf list \<Rightarrow> gf list \<Rightarrow> gf circuit" where
  "cmp_biguint a b = (let (a, b) = pad_biguints a b in list_le_u32_circuit a b)"

definition add_biguint :: "gf list \<Rightarrow> gf list \<Rightarrow> gf list circuit" where
  "add_biguint a b =
     (let num_limbs = max (length a) (length b) in
      bindc (foldc (\<lambda>(combined_limbs, carry) i.
          let a_limb = (if i < length a then a ! i else 0);
              b_limb = (if i < length b then b ! i else 0)
          in bindc (add_many_u32 [carry, a_limb, b_limb]) (\<lambda>(new_limb, new_carry).
               ret (combined_limbs @ [new_limb], new_carry)))
        ([], 0) [0..<num_limbs])
      (\<lambda>(combined_limbs, carry). ret (combined_limbs @ [carry])))"

definition sub_biguint :: "gf list \<Rightarrow> gf list \<Rightarrow> gf list circuit" where
  "sub_biguint a b =
     (let (a, b) = pad_biguints a b; num_limbs = length a in
      bindc (foldc (\<lambda>(result_limbs, borrow) i.
          bindc (sub_u32 (a ! i) (b ! i) borrow) (\<lambda>(res, new_borrow).
            ret (result_limbs @ [res], new_borrow)))
        ([], 0) [0..<num_limbs])
      (\<lambda>(result_limbs, borrow). ret result_limbs))"

definition push_at :: "nat \<Rightarrow> 'a \<Rightarrow> 'a list list \<Rightarrow> 'a list list" where
  "push_at c x cols = cols[c := cols ! c @ [x]]"

definition mul_columns :: "gf list \<Rightarrow> gf list \<Rightarrow> gf list list circuit" where
  "mul_columns a b =
     foldc (\<lambda>to_add i.
         foldc (\<lambda>to_add j.
             bindc (mul_u32 (a ! i) (b ! j)) (\<lambda>(product, carry).
               ret (push_at (i + j + 1) carry (push_at (i + j) product to_add))))
           to_add [0..<length b])
       (replicate (length a + length b) []) [0..<length a]"

definition mul_biguint :: "gf list \<Rightarrow> gf list \<Rightarrow> gf list circuit" where
  "mul_biguint a b =
     bindc (mul_columns a b) (\<lambda>to_add.
     bindc (foldc (\<lambda>(combined_limbs, carry) summands.
         bindc (add_u32s_with_carry summands carry) (\<lambda>(new_result, new_carry).
           ret (combined_limbs @ [new_result], new_carry)))
       ([], 0) to_add)
     (\<lambda>(combined_limbs, carry). ret (combined_limbs @ [carry])))"

definition mul_biguint_by_bool :: "gf list \<Rightarrow> gf \<Rightarrow> gf list" where
  "mul_biguint_by_bool a b = map (\<lambda>l. l * b) a"

definition mul_add_biguint :: "gf list \<Rightarrow> gf list \<Rightarrow> gf list \<Rightarrow> gf list circuit" where
  "mul_add_biguint x y z = bindc (mul_biguint x y) (\<lambda>prod. add_biguint prod z)"

text \<open>\<open>a_len - b_len + 1\<close> is \<open>usize\<close> arithmetic: with \<open>b_len = a_len + 1\<close> it wraps to 0 (and panics
  in a build with overflow checks).\<close>

definition div_num_limbs :: "nat \<Rightarrow> nat \<Rightarrow> nat" where
  "div_num_limbs a_len b_len =
     (if b_len > a_len + 1 then 0 else nat ((int a_len - int b_len + 1) mod 2 ^ 64))"

definition div_rem_biguint :: "gf list \<Rightarrow> gf list \<Rightarrow> (gf list \<times> gf list) circuit" where
  "div_rem_biguint a b =
     bindc (wires (div_num_limbs (length a) (length b))) (\<lambda>quot.
     bindc (wires (length b)) (\<lambda>rem.
     bindc (mul_biguint quot b) (\<lambda>div_b.
     bindc (add_biguint div_b rem) (\<lambda>div_b_plus_rem.
     bindc (check (connect_biguint a div_b_plus_rem)) (\<lambda>_.
     bindc (cmp_biguint rem b) (\<lambda>cmp_rem_b.
     bindc (check (cmp_rem_b = 1)) (\<lambda>_.
       ret (quot, rem))))))))"

definition div_biguint :: "gf list \<Rightarrow> gf list \<Rightarrow> gf list circuit" where
  "div_biguint a b = bindc (div_rem_biguint a b) (\<lambda>(quot, rem). ret quot)"

definition rem_biguint :: "gf list \<Rightarrow> gf list \<Rightarrow> gf list circuit" where
  "rem_biguint a b = bindc (div_rem_biguint a b) (\<lambda>(quot, rem). ret rem)"

text \<open>\<open>BigUintDivRemGenerator::run_once\<close>; \<open>BigUint::div_rem\<close> panics on a zero divisor.\<close>

definition div_rem_generator :: "gf list \<Rightarrow> gf list \<Rightarrow> (gf list \<times> gf list) res" where
  "div_rem_generator a b =
     (let va = get_biguint_target a; vb = get_biguint_target b in
      ensure (vb \<noteq> 0) (Panic ''attempt to divide by zero'')
        (bind_res (set_biguint_target (div_num_limbs (length a) (length b)) (va div vb)) (\<lambda>quot.
         bind_res (set_biguint_target (length b) (va mod vb)) (\<lambda>rem.
           Inr (quot, rem)))))"

subsection \<open>Values of limb lists\<close>

abbreviation bigval :: "gf list \<Rightarrow> nat" where
  "bigval \<equiv> get_biguint_target"

definition biglimbs :: "nat \<Rightarrow> nat \<Rightarrow> gf list" where
  "biglimbs k v = map of_nat (limbs_of k v)"

lemma bigval_simps [simp]: "bigval [] = 0" "bigval (x # xs) = canon x + 2 ^ 32 * bigval xs"
  by (simp_all add: get_biguint_target_val)

lemma bigval_append: "bigval (xs @ ys) = bigval xs + 2 ^ (32 * length xs) * bigval ys"
  by (simp add: get_biguint_target_val limbs_val_append)

lemma bigval_zeros [simp]: "bigval (replicate k 0) = 0"
  by (induction k) simp_all

lemma bigval_less: "u32s xs \<Longrightarrow> bigval xs < 2 ^ (32 * length xs)"
  using limbs_val_less [of "map canon xs"] by (simp add: get_biguint_target_val u32s_def)

lemma length_biglimbs [simp, size_simps]: "length (biglimbs k v) = k"
  by (simp add: biglimbs_def)

lemma u32s_biglimbs [simp]: "u32s (biglimbs k v)"
  using limbs_of_less [of k v] by (auto simp: biglimbs_def u32s_def)

lemma bigval_biglimbs: "bigval (biglimbs k v) = v mod 2 ^ (32 * k)"
proof -
  have "map canon (biglimbs k v) = limbs_of k v" unfolding biglimbs_def by (rule canon_small_limbs [OF limbs_of_less])
  then show ?thesis by (simp add: get_biguint_target_val limbs_val_of)
qed

lemma biglimbs_bigval: "u32s xs \<Longrightarrow> biglimbs (length xs) (bigval xs) = xs"
  using limbs_of_val [of "map canon xs"] by (simp add: biglimbs_def get_biguint_target_val u32s_def comp_def)

lemma bigval_inject: "length xs = length ys \<Longrightarrow> u32s xs \<Longrightarrow> u32s ys \<Longrightarrow> bigval xs = bigval ys \<longleftrightarrow> xs = ys"
  using biglimbs_bigval by metis

lemma set_biguint_biglimbs: "set_biguint_target k v = Inr xs \<longleftrightarrow> v < 2 ^ (32 * k) \<and> xs = biglimbs k v"
  by (simp add: set_biguint_target_iff biglimbs_def)

lemma u32s_constant [simp]: "u32s (constant_biguint v)"
  using to_u32_digits_less [of v] by (auto simp: constant_biguint_def u32s_def)

lemma bigval_constant [simp]: "bigval (constant_biguint v) = v"
  using canon_small_limbs [OF to_u32_digits_less [of v]]
  by (simp add: constant_biguint_def get_biguint_target_val to_u32_digits_val del: map_map)

lemma zero_biguint_Nil [simp]: "zero_biguint = []"
  by (simp add: zero_biguint_def constant_biguint_def to_u32_digits.simps)

subsection \<open>Connecting and comparing\<close>

lemma pad_biguints_facts:
  assumes "pad_biguints a b = (x, y)"
  shows "length x = max (length a) (length b)" "length y = max (length a) (length b)"
    "bigval x = bigval a" "bigval y = bigval b" "u32s x \<longleftrightarrow> u32s a" "u32s y \<longleftrightarrow> u32s b"
  using assms by (auto simp: pad_biguints_def bigval_append u32s_def split: if_splits)

lemma connect_biguint_pad: "connect_biguint a b \<longleftrightarrow> (case pad_biguints a b of (x, y) \<Rightarrow> x = y)"
proof (cases "length a > length b")
  case True
  then have "connect_biguint a b \<longleftrightarrow> (\<forall>i < length a. a ! i = (b @ replicate (length a - length b) 0) ! i)"
    by (auto simp: connect_biguint_def Let_def nth_append min_def)
  also have "\<dots> \<longleftrightarrow> a = b @ replicate (length a - length b) 0" using True by (simp add: list_eq_iff_nth_eq [of a])
  finally show ?thesis using True by (simp add: pad_biguints_def)
next
  case False
  then have "connect_biguint a b \<longleftrightarrow> (\<forall>i < length b. b ! i = (a @ replicate (length b - length a) 0) ! i)"
    by (auto simp: connect_biguint_def Let_def nth_append min_def)
  also have "\<dots> \<longleftrightarrow> b = a @ replicate (length b - length a) 0" using False by (simp add: list_eq_iff_nth_eq [of b])
  finally show ?thesis using False by (auto simp: pad_biguints_def)
qed

lemma connect_biguint_val: "connect_biguint a b \<Longrightarrow> bigval a = bigval b"
  using pad_biguints_facts [of a b] by (auto simp: connect_biguint_pad split: prod.splits)

lemma connect_biguint_iff:
  assumes "u32s a" "u32s b"
  shows "connect_biguint a b \<longleftrightarrow> bigval a = bigval b"
proof -
  obtain x y where p: "pad_biguints a b = (x, y)" by (cases "pad_biguints a b")
  note f = pad_biguints_facts [OF p]
  have "bigval x = bigval y \<longleftrightarrow> x = y" using f assms by (intro bigval_inject) simp_all
  then show ?thesis by (simp add: connect_biguint_pad p f(3,4))
qed

lemma cmp_biguint_yields: "yields (cmp_biguint a b) (\<lambda>r. u32s a \<and> u32s b \<and> r = of_bool (bigval a \<le> bigval b))"
proof -
  obtain x y where p: "pad_biguints a b = (x, y)" by (cases "pad_biguints a b")
  note f = pad_biguints_facts [OF p]
  show ?thesis
    unfolding cmp_biguint_def p prod.case Let_def
    by (rule yields_mono [OF list_le_u32_yields]) (simp only: f)
qed

lemma cmp_biguint_exactly:
  assumes "u32s a" "u32s b" "v = of_bool (bigval a \<le> bigval b)"
  shows "exactly (cmp_biguint a b) v"
proof -
  obtain x y where p: "pad_biguints a b = (x, y)" by (cases "pad_biguints a b")
  note f = pad_biguints_facts [OF p]
  show ?thesis using list_le_u32_exactly [of x y] f assms by (simp only: cmp_biguint_def p prod.case Let_def)
qed

subsection \<open>Addition\<close>

text \<open>One limb of a sum: what is carried into limb \<open>i\<close> and out of it.\<close>

lemma carry_step:
  fixes t s :: nat
  shows "limbs_of (Suc i) (t + 2 ^ (32 * i) * s) = limbs_of i t @ [(t div 2 ^ (32 * i) + s) mod 2 ^ 32]"
    and "(t + 2 ^ (32 * i) * s) div 2 ^ (32 * Suc i) = (t div 2 ^ (32 * i) + s) div 2 ^ 32"
proof -
  have d: "(t + 2 ^ (32 * i) * s) div 2 ^ (32 * i) = t div 2 ^ (32 * i) + s" by simp
  have low: "(t + 2 ^ (32 * i) * s) div 2 ^ (32 * j) mod 2 ^ 32 = t div 2 ^ (32 * j) mod 2 ^ 32" if "j < i" for j
  proof -
    have e: "(2 :: nat) ^ (32 * i) = 2 ^ (32 * j) * (2 ^ 32 * 2 ^ (32 * (i - Suc j)))"
      using that by (simp only: power_add [symmetric]) (simp add: algebra_simps flip: mult_Suc_right)
    have "(t + 2 ^ (32 * i) * s) div 2 ^ (32 * j) = t div 2 ^ (32 * j) + 2 ^ 32 * (2 ^ (32 * (i - Suc j)) * s)"
      unfolding e by (simp only: mult.assoc) simp
    then show ?thesis by (simp only: mod_mult_self2)
  qed
  show "limbs_of (Suc i) (t + 2 ^ (32 * i) * s) = limbs_of i t @ [(t div 2 ^ (32 * i) + s) mod 2 ^ 32]"
    using low by (simp add: limbs_of_def d del: power_numeral mult_Suc_right)
  have "(2 :: nat) ^ (32 * Suc i) = 2 ^ (32 * i) * 2 ^ 32" by (simp add: power_add)
  then show "(t + 2 ^ (32 * i) * s) div 2 ^ (32 * Suc i) = (t div 2 ^ (32 * i) + s) div 2 ^ 32"
    by (simp only: div_mult2_eq d)
qed

lemma halves_of_nat: "n < goldilocks_order \<Longrightarrow> halves (of_nat n) = (of_nat (n mod 2 ^ 32), of_nat (n div 2 ^ 32))"
  by (simp only: canon_of_nat mod_less)

text \<open>The value of the first \<open>i\<close> limbs, zero beyond the list.\<close>

lemma bigval_take_Suc:
  "bigval (take (Suc i) a) = bigval (take i a) + 2 ^ (32 * i) * (if i < length a then canon (a ! i) else 0)"
  by (auto simp: take_Suc_conv_app_nth bigval_append)

lemma biglimbs_carry_step:
  "biglimbs (Suc i) (t + 2 ^ (32 * i) * s) = biglimbs i t @ [of_nat ((t div 2 ^ (32 * i) + s) mod 2 ^ 32)]"
  unfolding biglimbs_def carry_step(1) by simp

lemma add_biguint_exactly:
  assumes "u32s a" "u32s b" "k = max (length a) (length b) + 1" "v = bigval a + bigval b"
  shows "exactly (add_biguint a b) (biglimbs k v)"
proof -
  let ?n = "max (length a) (length b)"
  let ?T = "\<lambda>i. bigval (take i a) + bigval (take i b)"
  let ?S = "\<lambda>i. (biglimbs i (?T i), of_nat (?T i div 2 ^ (32 * i)) :: gf)"
  let ?f = "\<lambda>(combined_limbs, carry) i. let a_limb = (if i < length a then a ! i else 0); b_limb = (if i < length b then b ! i else 0)
      in bindc (add_many_u32 [carry, a_limb, b_limb]) (\<lambda>(new_limb, new_carry). ret (combined_limbs @ [new_limb], new_carry))"
  have bound: "?T i div 2 ^ (32 * i) \<le> 1" for i
  proof -
    have "bigval (take i xs) < 2 ^ (32 * i)" if "u32s xs" for xs
    proof -
      have "bigval (take i xs) < 2 ^ (32 * length (take i xs))" using that by (intro bigval_less) (auto simp: u32s_def dest: in_set_takeD)
      also have "\<dots> \<le> 2 ^ (32 * i)" by (intro power_increasing) auto
      finally show ?thesis .
    qed
    then have "?T i < 2 ^ (32 * i) * 2" using assms(1,2) by (simp add: add_strict_mono mult_2_right)
    then show ?thesis by (simp add: less_mult_imp_div_less mult.commute flip: less_Suc_eq_le)
  qed
  have "exactly (foldc ?f (?S 0) [0..<?n]) (?S ?n)"
  proof (rule exactly_foldc_upt)
    fix i
    let ?c = "?T i div 2 ^ (32 * i)"
    let ?x = "if i < length a then a ! i else 0" and ?y = "if i < length b then b ! i else 0"
    have xy: "canon ?x < 2 ^ 32" "canon ?y < 2 ^ 32" using u32s_nth [OF assms(1)] u32s_nth [OF assms(2)] by auto
    have c: "?c < 2 ^ 32" using bound [of i] by simp
    have T: "?T (Suc i) = ?T i + 2 ^ (32 * i) * (canon ?x + canon ?y)" by (simp add: bigval_take_Suc algebra_simps)
    have sum: "sum_list [of_nat ?c, ?x, ?y] = of_nat (?c + (canon ?x + canon ?y))"
      by (simp only: sum_list_simps of_nat_add of_nat_canon add.right_neutral)
    have "?c + (canon ?x + canon ?y) < goldilocks_order" using bound [of i] xy by simp
    then have "halves (sum_list [of_nat ?c, ?x, ?y]) = (of_nat ((?c + (canon ?x + canon ?y)) mod 2 ^ 32), of_nat ((?c + (canon ?x + canon ?y)) div 2 ^ 32))"
      unfolding sum by (rule halves_of_nat)
    moreover have "\<forall>z \<in> set [of_nat ?c, ?x, ?y]. canon z < 2 ^ 32" using xy c by simp
    ultimately have "exactly (add_many_u32 [of_nat ?c, ?x, ?y])
        (of_nat ((?c + (canon ?x + canon ?y)) mod 2 ^ 32), of_nat ((?c + (canon ?x + canon ?y)) div 2 ^ 32))"
      by (intro add_many_u32_exactly) simp_all
    then show "exactly (?f (?S i) i) (?S (Suc i))"
      unfolding prod.case Let_def
      by (rule exactly_bindc) (simp only: prod.case T biglimbs_carry_step carry_step(2) exactly_ret)
  qed simp
  moreover have "?S 0 = ([], 0)" by (simp add: biglimbs_def limbs_of_def)
  moreover have "?T ?n = v" using assms(4) by simp
  moreover have "biglimbs k v = biglimbs ?n v @ [of_nat (v div 2 ^ (32 * ?n))]"
  proof -
    have "v div 2 ^ (32 * ?n) \<le> 1" using bound [of ?n] assms(4) by simp
    then show ?thesis using biglimbs_carry_step [of ?n v 0] assms(3) by simp
  qed
  ultimately show ?thesis
    unfolding add_biguint_def Let_def by (intro exactly_bindc [where v = "?S ?n"]) (simp_all add: exactly_ret)
qed

subsection \<open>Subtraction\<close>

text \<open>The borrow out of the limbs subtracted so far and the number they hold.\<close>

definition borrowed :: "nat \<Rightarrow> nat \<Rightarrow> nat \<Rightarrow> nat" where
  "borrowed i x y = (if x < y then x + 2 ^ (32 * i) - y else x - y)"

lemma borrow_step:
  fixes x y u v i :: nat
  defines "p \<equiv> 2 ^ (32 * i)"
  assumes xy: "x < p" "y < p" and uv: "u < 2 ^ 32" "v < 2 ^ 32"
    and s: "sub_borrow u v (of_bool (x < y)) = (r, b)"
  shows "b = of_bool (x + p * u < y + p * v)"
    and "borrowed (Suc i) (x + p * u) (y + p * v) = borrowed i x y + p * r" and "borrowed i x y < p"
proof -
  have less: "x + p * u < y + p * v \<longleftrightarrow> u < v + of_bool (x < y)"
  proof -
    consider "u < v" | "u = v" | "v < u" by linarith
    then show ?thesis
    proof cases
      case 1
      then have "p * Suc u \<le> p * v" by (intro mult_le_mono2) simp
      then show ?thesis using xy 1 by simp
    next
      case 3
      then have "p * Suc v \<le> p * u" by (intro mult_le_mono2) simp
      then show ?thesis using xy 3 by simp
    qed simp
  qed
  show b: "b = of_bool (x + p * u < y + p * v)" using s unfolding less by (auto simp: sub_borrow_def split: if_splits)
  have val: "int (borrowed j m n) = int m - int n + 2 ^ (32 * j) * of_bool (m < n)" if "n \<le> m + 2 ^ (32 * j)" for j m n
    using that by (simp add: borrowed_def)
  have r: "int r = int u - int v - of_bool (x < y) + 2 ^ 32 * int b"
    using sub_borrow_field(4) [OF uv _ s] by (simp add: algebra_simps)
  have "p * Suc v \<le> p * 2 ^ 32" using uv(2) by (intro mult_le_mono2) simp
  then have "y + p * v \<le> p * 2 ^ 32" using xy(2) by (simp del: power_numeral)
  moreover have "p * 2 ^ 32 = 2 ^ (32 * Suc i)" by (simp add: p_def power_add)
  ultimately have "y + p * v \<le> x + p * u + 2 ^ (32 * Suc i)" by linarith
  then have "int (borrowed (Suc i) (x + p * u) (y + p * v)) = int (x + p * u) - int (y + p * v) + int p * 2 ^ 32 * int b"
    unfolding b by (subst val) (simp_all add: p_def power_add)
  also have "\<dots> = int (borrowed i x y + p * r)"
    using xy val [of y x i] by (simp add: r p_def algebra_simps)
  finally show "borrowed (Suc i) (x + p * u) (y + p * v) = borrowed i x y + p * r" by (simp only: of_nat_eq_iff)
  show "borrowed i x y < p" using xy by (auto simp: borrowed_def p_def)
qed

lemma sub_limbs_exactly:
  assumes "u32s a" "u32s b" "length a = length b"
  shows "exactly (foldc (\<lambda>(result_limbs, borrow) i.
      bindc (sub_u32 (a ! i) (b ! i) borrow) (\<lambda>(res, new_borrow). ret (result_limbs @ [res], new_borrow))) ([], 0) [0..<length a])
    (biglimbs (length a) (borrowed (length a) (bigval a) (bigval b)), of_bool (bigval a < bigval b))"
proof -
  let ?A = "\<lambda>i. bigval (take i a)" and ?B = "\<lambda>i. bigval (take i b)"
  let ?S = "\<lambda>i. (biglimbs i (borrowed i (?A i) (?B i)), of_nat (of_bool (?A i < ?B i)) :: gf)"
  let ?f = "\<lambda>(result_limbs, borrow) i. bindc (sub_u32 (a ! i) (b ! i) borrow) (\<lambda>(res, new_borrow). ret (result_limbs @ [res], new_borrow))"
  have "exactly (foldc ?f (?S 0) [0..<length a]) (?S (length a))"
  proof (rule exactly_foldc_upt)
    fix i assume i: "i < length a"
    let ?x = "canon (a ! i)" and ?y = "canon (b ! i)"
    have xy: "?x < 2 ^ 32" "?y < 2 ^ 32" using u32s_nth [OF assms(1), of i] u32s_nth [OF assms(2), of i] i assms(3) by auto
    have lt: "bigval (take i xs) < 2 ^ (32 * i)" if "u32s xs" "length xs = length a" for xs
      using bigval_less [of "take i xs"] that i by (auto simp: u32s_def dest: in_set_takeD)
    obtain r b' where s: "sub_borrow ?x ?y (of_bool (?A i < ?B i)) = (r, b')" by force
    note step = borrow_step [OF lt [OF assms(1) refl] lt [OF assms(2) assms(3) [symmetric]] xy s]
    have AB: "?A (Suc i) = ?A i + 2 ^ (32 * i) * ?x" "?B (Suc i) = ?B i + 2 ^ (32 * i) * ?y"
      using i assms(3) by (simp_all add: bigval_take_Suc)
    have r: "r < 2 ^ 32" using sub_borrow_field(2) [OF xy _ s] by simp
    have "exactly (sub_u32 (of_nat ?x) (of_nat ?y) (of_nat (of_bool (?A i < ?B i)))) (of_nat r, of_nat b')"
      by (rule sub_u32_exactly [OF xy]) (simp_all add: s)
    moreover have "?S (Suc i) = (biglimbs i (borrowed i (?A i) (?B i)) @ [of_nat r], of_nat b')"
    proof -
      have "borrowed i (?A i) (?B i) div 2 ^ (32 * i) = 0" by (rule div_less) (rule step(3))
      moreover have "borrowed (Suc i) (?A (Suc i)) (?B (Suc i)) = borrowed i (?A i) (?B i) + 2 ^ (32 * i) * r"
        unfolding AB by (rule step(2))
      moreover have "b' = of_bool (?A (Suc i) < ?B (Suc i))" unfolding AB by (rule step(1))
      ultimately show ?thesis using r by (simp only: biglimbs_carry_step add_0 mod_less)
    qed
    ultimately show "exactly (?f (?S i) i) (?S (Suc i))"
      unfolding prod.case of_nat_canon by (intro exactly_bindc) (auto intro: exactly_ret)
  qed simp
  moreover have "?S 0 = ([], 0)" by (simp add: biglimbs_def limbs_of_def)
  ultimately show ?thesis using assms(3) by simp
qed

lemma sub_biguint_exactly:
  assumes "u32s a" "u32s b" "k = max (length a) (length b)" "v = borrowed k (bigval a) (bigval b)"
  shows "exactly (sub_biguint a b) (biglimbs k v)"
proof -
  obtain x y where p: "pad_biguints a b = (x, y)" by (cases "pad_biguints a b")
  note f = pad_biguints_facts [OF p]
  have x: "u32s x" "u32s y" "length x = length y" using f assms by simp_all
  show ?thesis
    unfolding sub_biguint_def p prod.case Let_def
    by (rule exactly_bindc [OF sub_limbs_exactly [OF x]]) (simp add: f assms exactly_ret)
qed

subsection \<open>Multiplication\<close>

text \<open>
  The gates multiply limbs in the field: \<open>limb_products\<close> is what the gadget computes for any limbs,
  and it is the product when the limbs are below $2^{32}$.
\<close>

definition limb_products :: "gf list \<Rightarrow> gf list \<Rightarrow> nat" where
  "limb_products a b = (\<Sum>i < length a. \<Sum>j < length b. 2 ^ (32 * (i + j)) * canon (a ! i * b ! j))"

definition push_product :: "nat \<Rightarrow> nat \<Rightarrow> nat list list \<Rightarrow> nat list list" where
  "push_product c p cols = push_at (c + 1) (p div 2 ^ 32) (push_at c (p mod 2 ^ 32) cols)"

definition product_row :: "gf list \<Rightarrow> gf list \<Rightarrow> nat list list \<Rightarrow> nat \<Rightarrow> nat list list" where
  "product_row a b cols i = foldl (\<lambda>cols j. push_product (i + j) (canon (a ! i * b ! j)) cols) cols [0..<length b]"

definition product_columns :: "gf list \<Rightarrow> gf list \<Rightarrow> nat list list" where
  "product_columns a b = foldl (product_row a b) (replicate (length a + length b) []) [0..<length a]"

lemma length_push_at [simp]: "length (push_at c x cols) = length cols"
  by (simp add: push_at_def)

lemma push_at_map: "c < length cols \<Longrightarrow> push_at c (f x) (map (map f) cols) = map (map f) (push_at c x cols)"
  by (simp add: push_at_def map_update)

lemma push_at_val:
  "c < length cols \<Longrightarrow> limbs_val (map sum_list (push_at c x cols)) = limbs_val (map sum_list cols) + 2 ^ (32 * c) * x"
proof (induction cols arbitrary: c)
  case (Cons col cols)
  show ?case
  proof (cases c)
    case (Suc c')
    then have "push_at c x (col # cols) = col # push_at c' x cols" by (simp add: push_at_def)
    then show ?thesis using Cons Suc by (simp add: power_add)
  qed (simp add: push_at_def)
qed simp

lemma length_push_product [simp]: "length (push_product c p cols) = length cols"
  by (simp add: push_product_def)

lemma push_product_val:
  assumes "c + 1 < length cols"
  shows "limbs_val (map sum_list (push_product c p cols)) = limbs_val (map sum_list cols) + 2 ^ (32 * c) * p"
proof -
  have "(2 :: nat) ^ (32 * (c + 1)) * (p div 2 ^ 32) + 2 ^ (32 * c) * (p mod 2 ^ 32) = 2 ^ (32 * c) * (2 ^ 32 * (p div 2 ^ 32) + p mod 2 ^ 32)"
    unfolding mult_Suc_right Suc_eq_plus1 [symmetric] power_add by (simp only: distrib_left mult.assoc mult.left_commute)
  also have "\<dots> = 2 ^ (32 * c) * p" by (simp only: mult_div_mod_eq)
  finally show ?thesis using assms by (simp add: push_product_def push_at_val del: mult_Suc_right)
qed

lemma push_product_nth:
  "d + 1 < length cols \<Longrightarrow> c < length cols \<Longrightarrow> push_product d p cols ! c =
     (if c = d then cols ! c @ [p mod 2 ^ 32] else if c = d + 1 then cols ! c @ [p div 2 ^ 32] else cols ! c)"
  by (simp add: push_product_def push_at_def nth_list_update)

text \<open>Column sizes and entries.\<close>

definition small_columns :: "nat \<Rightarrow> nat list list \<Rightarrow> bool" where
  "small_columns k cols \<longleftrightarrow> (\<forall>col \<in> set cols. length col \<le> k \<and> (\<forall>x \<in> set col. x < 2 ^ 32))"

lemma length_row: "length (foldl (\<lambda>cols j. push_product (i + j) (q j) cols) cols [0..<n]) = length cols"
  by (induction n) simp_all

lemma row_val:
  "i + n < length cols \<Longrightarrow> limbs_val (map sum_list (foldl (\<lambda>cols j. push_product (i + j) (q j) cols) cols [0..<n]))
     = limbs_val (map sum_list cols) + (\<Sum>j < n. 2 ^ (32 * (i + j)) * q j)"
  by (induction n) (simp_all add: push_product_val length_row)

lemma row_columns:
  fixes q :: "nat \<Rightarrow> nat" and i n c :: nat and cols :: "nat list list"
  assumes "\<And>j. j < n \<Longrightarrow> q j < 2 ^ 64" "i + n < length cols" "c < length cols" "\<forall>x \<in> set (cols ! c). x < 2 ^ 32"
  defines "cols' \<equiv> foldl (\<lambda>cols j. push_product (i + j) (q j) cols) cols [0..<n]"
  shows "length (cols' ! c) = length (cols ! c) + of_bool (i \<le> c \<and> c < i + n) + of_bool (i + 1 \<le> c \<and> c < i + 1 + n)
    \<and> (\<forall>x \<in> set (cols' ! c). x < 2 ^ 32)"
  using assms(1,2) unfolding cols'_def
proof (induction n)
  case 0
  then show ?case using assms(4) by simp
next
  case (Suc n)
  have "q n < 2 ^ 64" using Suc.prems(1) [of n] by simp
  then have "q n div 2 ^ 32 < 2 ^ 32" by (intro less_mult_imp_div_less) simp
  moreover have "q n mod 2 ^ 32 < 2 ^ 32" by simp
  moreover have "[0..<Suc n] = [0..<n] @ [n]" by simp
  moreover let ?cols = "foldl (\<lambda>cols j. push_product (i + j) (q j) cols) cols [0..<n]"
  have "push_product (i + n) (q n) ?cols ! c = (if c = i + n then ?cols ! c @ [q n mod 2 ^ 32]
      else if c = i + n + 1 then ?cols ! c @ [q n div 2 ^ 32] else ?cols ! c)"
    using Suc.prems(2) assms(3) by (intro push_product_nth) (simp_all add: length_row)
  moreover have "length (?cols ! c) = length (cols ! c) + of_bool (i \<le> c \<and> c < i + n) + of_bool (i + 1 \<le> c \<and> c < i + 1 + n)"
    "\<forall>x \<in> set (?cols ! c). x < 2 ^ 32" using Suc by simp_all
  ultimately show ?case by (cases "c = i + n"; cases "c = i + n + 1") (simp_all add: of_bool_def split: if_splits)
qed

lemma canon_less_64: "canon x < 2 ^ 64"
proof -
  have "canon x < 18446744069414584321" by (rule canon_less)
  then show ?thesis by (rule less_trans) simp
qed

lemma product_row_facts:
  assumes "i + length b < length cols"
  shows "length (product_row a b cols i) = length cols"
    and "limbs_val (map sum_list (product_row a b cols i)) = limbs_val (map sum_list cols) + (\<Sum>j < length b. 2 ^ (32 * (i + j)) * canon (a ! i * b ! j))"
    and "small_columns k cols \<Longrightarrow> small_columns (k + 2) (product_row a b cols i)"
proof -
  show len: "length (product_row a b cols i) = length cols" by (simp add: product_row_def length_row)
  show "limbs_val (map sum_list (product_row a b cols i)) = limbs_val (map sum_list cols) + (\<Sum>j < length b. 2 ^ (32 * (i + j)) * canon (a ! i * b ! j))"
    unfolding product_row_def by (rule row_val [OF assms])
  assume sm: "small_columns k cols"
  show "small_columns (k + 2) (product_row a b cols i)"
    unfolding small_columns_def
  proof
    fix col assume "col \<in> set (product_row a b cols i)"
    then obtain c where c: "c < length cols" "col = product_row a b cols i ! c" using len by (metis in_set_conv_nth)
    then have b: "length (cols ! c) \<le> k" "\<forall>x \<in> set (cols ! c). x < 2 ^ 32" using sm by (auto simp: small_columns_def)
    have "length col = length (cols ! c) + of_bool (i \<le> c \<and> c < i + length b) + of_bool (i + 1 \<le> c \<and> c < i + 1 + length b)
        \<and> (\<forall>x \<in> set col. x < 2 ^ 32)"
      unfolding c(2) product_row_def by (rule row_columns [OF canon_less_64 assms c(1) b(2)])
    then show "length col \<le> k + 2 \<and> (\<forall>x \<in> set col. x < 2 ^ 32)" using b(1) by (simp split: if_splits)
  qed
qed

lemma product_rows:
  fixes a b :: "gf list" and k :: nat
  assumes "k \<le> length a"
  defines "cols \<equiv> foldl (product_row a b) (replicate (length a + length b) []) [0..<k]"
  shows "length cols = length a + length b"
    and "limbs_val (map sum_list cols) = (\<Sum>i < k. \<Sum>j < length b. 2 ^ (32 * (i + j)) * canon (a ! i * b ! j))"
    and "small_columns (2 * k) cols"
proof -
  have "length cols = length a + length b
    \<and> limbs_val (map sum_list cols) = (\<Sum>i < k. \<Sum>j < length b. 2 ^ (32 * (i + j)) * canon (a ! i * b ! j))
    \<and> small_columns (2 * k) cols"
    using assms(1) unfolding cols_def
  proof (induction k)
    case 0
    then show ?case by (simp add: small_columns_def)
  next
    case (Suc k)
    let ?c = "foldl (product_row a b) (replicate (length a + length b) []) [0..<k]"
    have len: "k + length b < length ?c" using Suc by simp
    have row: "foldl (product_row a b) (replicate (length a + length b) []) [0..<Suc k] = product_row a b ?c k" by simp
    have two: "2 * Suc k = 2 * k + 2" by simp
    show ?case unfolding row two using Suc product_row_facts [OF len, where a = a] by simp
  qed
  then show "length cols = length a + length b"
    and "limbs_val (map sum_list cols) = (\<Sum>i < k. \<Sum>j < length b. 2 ^ (32 * (i + j)) * canon (a ! i * b ! j))"
    and "small_columns (2 * k) cols" by simp_all
qed

text \<open>The circuit fills the columns with these numbers and adds them up with carries.\<close>

lemma length_foldl_product_row: "length (foldl (product_row a b) cols is) = length cols"
  by (induction "is" arbitrary: cols) (simp_all add: product_row_def length_row)

lemma mul_columns_exactly: "exactly (mul_columns a b) (map (map of_nat) (product_columns a b))"
proof -
  let ?R = "\<lambda>s t. s = (map (map of_nat) t :: gf list list) \<and> length t = length a + length b"
  let ?inner = "\<lambda>i to_add j. bindc (mul_u32 (a ! i) (b ! j)) (\<lambda>(product, carry). ret (push_at (i + j + 1) carry (push_at (i + j) product to_add)))"
  have inner: "\<exists>s'. exactly (?inner i s j) s' \<and> ?R s' (push_product (i + j) (canon (a ! i * b ! j)) t)"
    if "?R s t" "i < length a" "j < length b" for s t i j
  proof -
    let ?p = "canon (a ! i * b ! j)"
    have ij: "i + j + 1 < length t" using that by simp
    have "push_at (i + j + 1) (of_nat (?p div 2 ^ 32)) (push_at (i + j) (of_nat (?p mod 2 ^ 32)) s)
        = map (map of_nat) (push_product (i + j) ?p t)"
      using that ij by (simp add: push_at_map push_product_def)
    then have "exactly (?inner i s j) (map (map of_nat) (push_product (i + j) ?p t))"
      by (intro exactly_bindc [OF mul_u32_exactly [OF refl]]) (simp only: prod.case exactly_ret)
    then show ?thesis using that(1) by (intro exI) auto
  qed
  have row: "\<exists>s'. exactly (foldc (?inner i) s [0..<length b]) s' \<and> ?R s' (product_row a b t i)"
    if "?R s t" "i \<in> set [0..<length a]" for s t i
    unfolding product_row_def by (rule exactly_foldc [where R = ?R]) (use inner that in auto)
  obtain s' where "exactly (mul_columns a b) s'" "?R s' (product_columns a b)"
    using exactly_foldc [where R = ?R and f = "\<lambda>to_add i. foldc (?inner i) to_add [0..<length b]" and g = "product_row a b"
        and xs = "[0..<length a]" and s = "replicate (length a + length b) []" and t = "replicate (length a + length b) []"] row
    unfolding mul_columns_def product_columns_def by auto
  then show ?thesis by simp
qed

lemma sum_columns_exactly:
  assumes "\<forall>col \<in> set cols. sum_list col \<le> 16 * (2 ^ 32 - 1)" "c \<le> 15"
  shows "exactly (foldc (\<lambda>(combined_limbs, carry) summands.
        bindc (add_u32s_with_carry summands carry) (\<lambda>(new_result, new_carry). ret (combined_limbs @ [new_result], new_carry)))
      (ls, of_nat c) (map (map of_nat) cols))
    (ls @ biglimbs (length cols) (c + limbs_val (map sum_list cols)), of_nat ((c + limbs_val (map sum_list cols)) div 2 ^ (32 * length cols)))
    \<and> (c + limbs_val (map sum_list cols)) div 2 ^ (32 * length cols) \<le> 15"
  using assms
proof (induction cols arbitrary: c ls)
  case Nil
  then show ?case by (simp add: biglimbs_def limbs_of_def exactly_ret)
next
  case (Cons col cols)
  let ?s = "sum_list col + c" and ?v = "limbs_val (map sum_list cols)"
  have s: "?s < 2 ^ 36" using Cons.prems by simp
  then have c': "?s div 2 ^ 32 \<le> 15" by simp
  have e: "sum_list (map of_nat col) + of_nat c = (of_nat ?s :: gf)" by (induction col) simp_all
  have cs: "canon (sum_list (map of_nat col) + of_nat c) = ?s" unfolding e using s by (subst canon_of_nat) simp
  have add: "exactly (add_u32s_with_carry (map of_nat col) (of_nat c)) (of_nat (?s mod 2 ^ 32), of_nat (?s div 2 ^ 32))"
    by (rule add_u32s_with_carry_exactly) (simp_all only: cs s)
  have v: "c + limbs_val (sum_list col # map sum_list cols) = ?s + 2 ^ 32 * ?v" by simp
  have limb: "biglimbs (Suc (length cols)) (?s + 2 ^ 32 * ?v) = [of_nat (?s mod 2 ^ 32)] @ biglimbs (length cols) (?s div 2 ^ 32 + ?v)"
    by (simp add: biglimbs_def limbs_of_Suc add.commute [of ?v])
  have carry: "(?s + 2 ^ 32 * ?v) div 2 ^ (32 * Suc (length cols)) = (?s div 2 ^ 32 + ?v) div 2 ^ (32 * length cols)"
    unfolding mult_Suc_right power_add div_mult2_eq by (simp add: add.commute [of ?v])
  have "\<forall>col \<in> set cols. sum_list col \<le> 16 * (2 ^ 32 - 1)" using Cons.prems(1) by simp
  note ih = Cons.IH [OF this c', where ls = "ls @ [of_nat (?s mod 2 ^ 32)]"]
  show ?case
    unfolding list.map length_Cons v limb carry foldc.simps append_assoc [symmetric]
  proof (intro conjI)
    show "(?s div 2 ^ 32 + ?v) div 2 ^ (32 * length cols) \<le> 15" by (rule conjunct2 [OF ih])
  qed (rule exactly_bindc, unfold prod.case, rule exactly_bindc [OF add], unfold prod.case, rule exactly_ret [OF refl], rule conjunct1 [OF ih])
qed

text \<open>With at most eight limbs on the left a column has at most sixteen summands.\<close>

lemma mul_biguint_exactly:
  assumes "length a \<le> 8" "k = length a + length b + 1" "v = limb_products a b"
  shows "exactly (mul_biguint a b) (biglimbs k v)" and "v < 2 ^ (32 * k)"
proof -
  let ?cols = "product_columns a b"
  note rows = product_rows [OF order_refl, of a b, folded product_columns_def]
  have cols: "length ?cols = length a + length b" "limbs_val (map sum_list ?cols) = limb_products a b"
    using rows by (simp_all add: limb_products_def)
  have small: "sum_list col \<le> 16 * (2 ^ 32 - 1)" if "col \<in> set ?cols" for col
  proof -
    have "length col \<le> 16" "\<forall>x \<in> set col. x \<le> 2 ^ 32 - 1" using rows(3) that assms(1) by (fastforce simp: small_columns_def)+
    then have "sum_list col \<le> length col * (2 ^ 32 - 1)" using sum_list_mono [of col "\<lambda>x. x" "\<lambda>_. 2 ^ 32 - 1"] by (simp add: sum_list_triv)
    also have "\<dots> \<le> 16 * (2 ^ 32 - 1)" using \<open>length col \<le> 16\<close> by (intro mult_le_mono1)
    finally show ?thesis .
  qed
  have "\<forall>col \<in> set ?cols. sum_list col \<le> 16 * (2 ^ 32 - 1)" using small by blast
  note sums = sum_columns_exactly [OF this le0, where ls = "[]", unfolded cols add_0 append_Nil semiring_1_class.of_nat_0]
  have top: "biglimbs k v = biglimbs (length a + length b) v @ [of_nat (v div 2 ^ (32 * (length a + length b)))]"
    using biglimbs_carry_step [of "length a + length b" v 0] conjunct2 [OF sums] assms(2,3) by simp
  show "exactly (mul_biguint a b) (biglimbs k v)"
    unfolding mul_biguint_def top
    by (rule exactly_bindc [OF mul_columns_exactly], rule exactly_bindc [OF conjunct1 [OF sums]])
      (simp only: prod.case assms(3) exactly_ret)
  have "v div 2 ^ (32 * (length a + length b)) < 2 ^ 32" using conjunct2 [OF sums] assms(3) by simp
  then have "v < 2 ^ 32 * 2 ^ (32 * (length a + length b))" by (subst (asm) div_less_iff_less_mult) simp_all
  then show "v < 2 ^ (32 * k)" unfolding assms(2) by (simp only: power_add [symmetric]) (simp add: algebra_simps)
qed

lemma limb_products_val:
  assumes "u32s a" "u32s b"
  shows "limb_products a b = bigval a * bigval b"
proof -
  have sum: "bigval xs = (\<Sum>i < length xs. 2 ^ (32 * i) * canon (xs ! i))" for xs
  proof -
    have "bigval (take k xs) = (\<Sum>i < k. 2 ^ (32 * i) * canon (xs ! i))" if "k \<le> length xs" for k
      using that by (induction k) (simp_all add: bigval_take_Suc)
    then show ?thesis by (metis order_refl take_all)
  qed
  have "canon (a ! i * b ! j) = canon (a ! i) * canon (b ! j)" if "i < length a" "j < length b" for i j
  proof -
    have "canon (a ! i) \<le> 2 ^ 32 - 1" "canon (b ! j) \<le> 2 ^ 32 - 1" using u32s_nth [OF assms(1) that(1)] u32s_nth [OF assms(2) that(2)] by simp_all
    then have "canon (a ! i) * canon (b ! j) \<le> (2 ^ 32 - 1) * (2 ^ 32 - 1)" by (rule mult_le_mono)
    then show ?thesis by (simp add: canon_mult)
  qed
  then have "limb_products a b = (\<Sum>i < length a. \<Sum>j < length b. (2 ^ (32 * i) * canon (a ! i)) * (2 ^ (32 * j) * canon (b ! j)))"
    unfolding limb_products_def by (intro sum.cong refl) (simp add: power_add distrib_left)
  then show ?thesis by (simp only: sum [of a] sum [of b] sum_product)
qed

lemma mul_biguint_u32:
  assumes "u32s a" "u32s b" "length a \<le> 8" "k = length a + length b + 1" "v = bigval a * bigval b"
  shows "exactly (mul_biguint a b) (biglimbs k v)"
  using mul_biguint_exactly(1) [OF assms(3,4)] assms(5) by (simp only: limb_products_val [OF assms(1,2)])

lemma product_fits:
  assumes "u32s a" "u32s b" "v = bigval a * bigval b"
  shows "v < 2 ^ (32 * (length a + length b + 1))"
proof -
  have "v < 2 ^ (32 * length a) * 2 ^ (32 * length b)"
    unfolding assms(3) using bigval_less [OF assms(1)] bigval_less [OF assms(2)] by (intro mult_strict_mono') simp_all
  also have "\<dots> \<le> 2 ^ (32 * (length a + length b + 1))" by (simp only: power_add [symmetric]) (intro power_increasing, simp_all)
  finally show ?thesis .
qed

lemma mul_by_bool_val:
  "bigval (mul_biguint_by_bool a (of_bool b)) = of_bool b * bigval a" "u32s a \<Longrightarrow> u32s (mul_biguint_by_bool a (of_bool b))"
  by (induction a) (auto simp: mul_biguint_by_bool_def)

lemma length_mul_by_bool [simp, size_simps]: "length (mul_biguint_by_bool a b) = length a"
  by (simp add: mul_biguint_by_bool_def)

lemma mul_add_biguint_exactly:
  assumes "u32s x" "u32s y" "u32s z" "length x \<le> 8"
    "k = max (length x + length y + 1) (length z) + 1" "v = bigval x * bigval y + bigval z"
  shows "exactly (mul_add_biguint x y z) (biglimbs k v)"
proof -
  let ?p = "biglimbs (length x + length y + 1) (bigval x * bigval y)"
  have "bigval ?p = bigval x * bigval y" using product_fits [OF assms(1,2) refl] by (simp add: bigval_biglimbs del: mult_Suc_right)
  then have "exactly (add_biguint ?p z) (biglimbs k v)" using assms by (intro add_biguint_exactly) simp_all
  then show ?thesis
    unfolding mul_add_biguint_def using mul_biguint_u32 [OF assms(1,2,4) refl refl] by (intro exactly_bindc)
qed

subsection \<open>Division\<close>

lemma connect_biguint_u32s: "connect_biguint a b \<Longrightarrow> u32s b \<Longrightarrow> u32s a"
  using pad_biguints_facts [of a b] by (auto simp: connect_biguint_pad split: prod.splits)

text \<open>
  The quotient limbs are only constrained through their field products with the divisor.
\<close>

definition div_rem_ok :: "gf list \<Rightarrow> gf list \<Rightarrow> gf list \<times> gf list \<Rightarrow> bool" where
  "div_rem_ok a b = (\<lambda>(quot, rem).
     length quot = div_num_limbs (length a) (length b) \<and> length rem = length b
   \<and> u32s a \<and> u32s b \<and> u32s rem \<and> bigval rem \<le> bigval b
   \<and> bigval a = limb_products quot b + bigval rem)"

lemma div_rem_biguint_outputs:
  assumes "div_num_limbs (length a) (length b) \<le> 8"
  shows "outputs (div_rem_biguint a b) (div_rem_ok a b)"
proof (rule outputsI)
  let ?p = "\<lambda>quot. biglimbs (length quot + length b + 1) (limb_products quot b)"
  let ?s = "\<lambda>quot rem. biglimbs (length quot + length b + 2) (bigval (?p quot) + bigval rem)"
  have mul: "exactly (mul_biguint quot b) (?p quot)" if "length quot = div_num_limbs (length a) (length b)" for quot
    using that assms by (intro mul_biguint_exactly(1)) simp_all
  have add: "exactly (add_biguint (?p quot) rem) (?s quot rem)" if "u32s rem" "length rem = length b" for quot rem
    using that by (intro add_biguint_exactly) simp_all
  have s: "bigval (?s quot rem) = limb_products quot b + bigval rem"
    if "u32s rem" "length rem = length b" "length quot = div_num_limbs (length a) (length b)" for quot rem
  proof -
    let ?k = "length quot + length b + 1"
    have "bigval (?p quot) < 2 ^ (32 * ?k)" using bigval_less [of "?p quot"] by simp
    moreover have "bigval rem < 2 ^ (32 * ?k)"
      using bigval_less [OF that(1)] that(2) by (rule_tac less_le_trans [of _ "2 ^ (32 * length rem)"]) (simp_all add: power_increasing)
    moreover have "(2 :: nat) ^ (32 * ?k) + 2 ^ (32 * ?k) \<le> 2 ^ (32 * (?k + 1))" by (simp add: power_add)
    ultimately have "bigval (?p quot) + bigval rem < 2 ^ (32 * (?k + 1))" by linarith
    moreover have "?k + 1 = length quot + length b + 2" by simp
    ultimately have "bigval (?s quot rem) = bigval (?p quot) + bigval rem" by (simp only: bigval_biglimbs mod_less)
    moreover have "limb_products quot b < 2 ^ (32 * ?k)" using that(3) assms by (intro mul_biguint_exactly(2)) simp_all
    ultimately show ?thesis by (simp only: bigval_biglimbs mod_less)
  qed
  show "yields (div_rem_biguint a b) (div_rem_ok a b)"
    unfolding yields_def
  proof (intro allI impI)
    fix ws out rest assume "div_rem_biguint a b ws = Some (out, rest)"
    then obtain quot rem p t c where run: "out = (quot, rem)" "length quot = div_num_limbs (length a) (length b)" "length rem = length b"
        "\<exists>ws rest. mul_biguint quot b ws = Some (p, rest)" "\<exists>ws rest. add_biguint p rem ws = Some (t, rest)"
        "connect_biguint a t" "\<exists>ws rest. cmp_biguint rem b ws = Some (c, rest)" "c = 1"
      unfolding div_rem_biguint_def bindc_Some by auto blast
    have c: "u32s rem" "u32s b" "bigval rem \<le> bigval b"
    proof -
      have "u32s rem \<and> u32s b \<and> c = of_bool (bigval rem \<le> bigval b)" using yieldsD [OF cmp_biguint_yields] run(7) by blast
      then show "u32s rem" "u32s b" "bigval rem \<le> bigval b" using run(8) by (simp_all add: of_bool_def split: if_splits)
    qed
    have "p = ?p quot" using exactlyD [OF mul [OF run(2)]] run(4) by blast
    then have t: "t = ?s quot rem" using exactlyD [OF add [OF c(1) run(3)]] run(5) by blast
    then have a: "u32s a" "bigval a = limb_products quot b + bigval rem"
      using run(6) connect_biguint_u32s connect_biguint_val [of a t] s [OF c(1) run(3,2)] by simp_all
    show "div_rem_ok a b out" unfolding run(1) div_rem_ok_def prod.case by (intro conjI run(2,3) c a)
  qed
  fix v assume "div_rem_ok a b v"
  then obtain quot rem where v: "v = (quot, rem)" and q: "length quot = div_num_limbs (length a) (length b)" and r: "length rem = length b"
    and u: "u32s a" "u32s b" "u32s rem" and le: "bigval rem \<le> bigval b"
    and a: "bigval a = limb_products quot b + bigval rem"
    by (auto simp: div_rem_ok_def)
  have "connect_biguint a (?s quot rem)" using a s [OF u(3) r q] u(1) by (simp only: connect_biguint_iff u32s_biglimbs)
  then show "reaches (div_rem_biguint a b) v"
    unfolding div_rem_biguint_def v
    by (intro reaches_bindc [OF reaches_wires [OF q]] reaches_bindc [OF reaches_wires [OF r]]
        reaches_bindc [OF exactly_reaches [OF mul [OF q]]] reaches_bindc [OF exactly_reaches [OF add [OF u(3) r]]]
        reaches_bindc [OF reaches_check] reaches_bindc [OF exactly_reaches [OF cmp_biguint_exactly [OF u(3,2) refl]]]
        reaches_ret) (simp_all add: le)
qed

lemma div_num_limbs_le: "lb \<le> la \<Longrightarrow> la < 2 ^ 63 \<Longrightarrow> div_num_limbs la lb = la - lb + 1"
proof -
  assume "lb \<le> la" "la < 2 ^ 63"
  then have "(int la - int lb + 1) mod 2 ^ 64 = int la - int lb + 1" by (intro mod_pos_pos_trivial) simp_all
  then show ?thesis using \<open>lb \<le> la\<close> by (simp add: div_num_limbs_def)
qed

text \<open>A quotient of 32-bit limbs is the quotient, up to a remainder that may equal the divisor.\<close>

lemma div_rem_u32:
  assumes "div_rem_ok a b (quot, rem)" "u32s quot"
  shows "bigval a = bigval quot * bigval b + bigval rem"
proof -
  have "bigval a = limb_products quot b + bigval rem" "u32s b"
    using assms(1) by (simp_all only: div_rem_ok_def prod.case)
  then show ?thesis by (simp only: limb_products_val [OF assms(2)])
qed

lemma div_rem_generator_ok:
  assumes "u32s a" "u32s b" "div_rem_generator a b = Inr v"
  shows "div_rem_ok a b v"
proof -
  let ?n = "div_num_limbs (length a) (length b)"
  have v: "bigval b \<noteq> 0" "bigval a div bigval b < 2 ^ (32 * ?n)" "bigval a mod bigval b < 2 ^ (32 * length b)"
      "v = (biglimbs ?n (bigval a div bigval b), biglimbs (length b) (bigval a mod bigval b))"
    using assms(3) by (auto simp: div_rem_generator_def Let_def set_biguint_biglimbs)
  have val: "bigval (biglimbs ?n (bigval a div bigval b)) = bigval a div bigval b"
      "bigval (biglimbs (length b) (bigval a mod bigval b)) = bigval a mod bigval b"
    using v(2,3) by (simp_all only: bigval_biglimbs mod_less)
  have "limb_products (biglimbs ?n (bigval a div bigval b)) b = bigval a div bigval b * bigval b"
    by (simp only: limb_products_val [OF u32s_biglimbs assms(2)] val)
  moreover have "bigval a mod bigval b \<le> bigval b" using v(1) by (intro less_imp_le mod_less_divisor) simp
  ultimately show ?thesis
    unfolding v(4) div_rem_ok_def prod.case
    by (intro conjI u32s_biglimbs assms(1,2) length_biglimbs) (simp_all only: val length_biglimbs mod_less div_mult_mod_eq)
qed

lemma div_rem_generator_Inr:
  assumes "u32s a" "u32s b" "length b \<le> length a" "length a < 2 ^ 63" "2 ^ (32 * (length b - 1)) \<le> bigval b"
  shows "div_rem_generator a b = Inr (biglimbs (length a - length b + 1) (bigval a div bigval b), biglimbs (length b) (bigval a mod bigval b))"
proof -
  have pos: "0 < bigval b" using assms(5) by (rule_tac less_le_trans [OF _ assms(5)]) simp
  then have "0 < length b" by (cases b) simp_all
  then have "length a = (length b - 1) + (length a - length b + 1)" using assms(3) by linarith
  then have "(2 :: nat) ^ (32 * length a) = 2 ^ (32 * (length b - 1)) * 2 ^ (32 * (length a - length b + 1))"
    by (metis add_mult_distrib2 power_add)
  also have "\<dots> \<le> bigval b * 2 ^ (32 * (length a - length b + 1))" using assms(5) by (intro mult_le_mono1)
  finally have "bigval a < 2 ^ (32 * (length a - length b + 1)) * bigval b" using bigval_less [OF assms(1)] by (simp only: mult.commute)
  then have "bigval a div bigval b < 2 ^ (32 * (length a - length b + 1))" by (rule less_mult_imp_div_less)
  moreover have "bigval a mod bigval b < 2 ^ (32 * length b)" using pos bigval_less [OF assms(2)] by (meson less_trans mod_less_divisor)
  ultimately have "set_biguint_target (length a - length b + 1) (bigval a div bigval b) = Inr (biglimbs (length a - length b + 1) (bigval a div bigval b))"
      "set_biguint_target (length b) (bigval a mod bigval b) = Inr (biglimbs (length b) (bigval a mod bigval b))"
    by (simp_all only: set_biguint_biglimbs simp_thms)
  then show ?thesis using pos by (simp only: div_rem_generator_def Let_def div_num_limbs_le [OF assms(3,4)] bind_res_simps ensure_simps) simp
qed

end
