(* ===== verification/Nonnative.thy ===== *)
theory Nonnative
  imports Biguint_Gadgets
begin

text \<open>
  Arithmetic of a foreign prime field in the circuit: \<open>CircuitBuilderNonNative\<close>
  (\<open>plonky2_ecdsa/src/gadgets/nonnative.rs\<close>) with the generators that fill its wires.  A
  \<open>NonNativeTarget\<close> is a big integer; the field \<open>FF\<close> enters by its order and its \<open>BITS\<close>.  Every
  operation is characterised by the outputs its constraints admit.
\<close>

record nonnative_field =
  ff_order :: nat
  ff_bits :: nat

definition P256Base :: nonnative_field where
  "P256Base = \<lparr>ff_order = P256_BASE_ORDER, ff_bits = 256\<rparr>"

definition P256Scalar :: nonnative_field where
  "P256Scalar = \<lparr>ff_order = P256_SCALAR_ORDER, ff_bits = 256\<rparr>"

definition num_nonnative_limbs :: "nonnative_field \<Rightarrow> nat" where
  "num_nonnative_limbs FF = div_ceil (ff_bits FF) 32"

definition modulus_limbs :: "nonnative_field \<Rightarrow> gf list" where
  "modulus_limbs FF = constant_biguint (ff_order FF)"

definition constant_nonnative :: "nat \<Rightarrow> gf list" where
  "constant_nonnative x = constant_biguint x"

definition zero_nonnative :: "gf list" where
  "zero_nonnative = constant_nonnative 0"

definition connect_nonnative :: "gf list \<Rightarrow> gf list \<Rightarrow> bool" where
  "connect_nonnative lhs rhs = connect_biguint lhs rhs"

subsection \<open>Operations\<close>

text \<open>The flag \<open>overflow\<close> is an unconstrained wire (\<open>add_virtual_bool_target_unsafe\<close>).\<close>

definition add_nonnative :: "nonnative_field \<Rightarrow> gf list \<Rightarrow> gf list \<Rightarrow> gf list circuit" where
  "add_nonnative FF a b =
     bindc (wires (num_nonnative_limbs FF)) (\<lambda>total.
     bindc wire (\<lambda>overflow.
     bindc (add_biguint a b) (\<lambda>sum_expected.
     let modulus = modulus_limbs FF; mod_times_overflow = mul_biguint_by_bool modulus overflow in
     bindc (add_biguint total mod_times_overflow) (\<lambda>sum_actual.
     bindc (check (connect_biguint sum_expected sum_actual)) (\<lambda>_.
     bindc (cmp_biguint total modulus) (\<lambda>cmp.
     bindc (check (cmp = 1)) (\<lambda>_.
       ret total)))))))"

definition mul_nonnative_by_bool :: "gf list \<Rightarrow> gf \<Rightarrow> gf list" where
  "mul_nonnative_by_bool a b = mul_biguint_by_bool a b"

definition if_nonnative :: "nonnative_field \<Rightarrow> gf \<Rightarrow> gf list \<Rightarrow> gf list \<Rightarrow> gf list circuit" where
  "if_nonnative FF b x y =
     (let not_b = 1 - b; maybe_x = mul_nonnative_by_bool x b; maybe_y = mul_nonnative_by_bool y not_b
      in add_nonnative FF maybe_x maybe_y)"

definition add_many_nonnative :: "nonnative_field \<Rightarrow> gf list list \<Rightarrow> gf list circuit" where
  "add_many_nonnative FF to_add =
     (case to_add of
        [x] \<Rightarrow> ret x
      | _ \<Rightarrow>
        bindc (wires (num_nonnative_limbs FF)) (\<lambda>total.
        bindc wire (\<lambda>overflow.
        bindc (range_check_u32_circuit total) (\<lambda>_.
        bindc (range_check_u32_circuit [overflow]) (\<lambda>_.
        bindc (foldc add_biguint zero_biguint to_add) (\<lambda>sum_expected.
        let modulus = modulus_limbs FF in
        bindc (mul_biguint modulus [overflow]) (\<lambda>mod_times_overflow.
        bindc (add_biguint total mod_times_overflow) (\<lambda>sum_actual.
        bindc (check (connect_biguint sum_expected sum_actual)) (\<lambda>_.
        bindc (cmp_biguint total modulus) (\<lambda>cmp.
        bindc (check (cmp = 1)) (\<lambda>_.
          ret total)))))))))))"

definition sub_nonnative :: "nonnative_field \<Rightarrow> gf list \<Rightarrow> gf list \<Rightarrow> gf list circuit" where
  "sub_nonnative FF a b =
     bindc (wires (num_nonnative_limbs FF)) (\<lambda>diff.
     bindc wire (\<lambda>overflow.
     bindc (range_check_u32_circuit diff) (\<lambda>_.
     bindc (check (overflow * overflow - overflow = 0)) (\<lambda>_.
     bindc (add_biguint diff b) (\<lambda>diff_plus_b.
     let modulus = modulus_limbs FF; mod_times_overflow = mul_biguint_by_bool modulus overflow in
     bindc (sub_biguint diff_plus_b mod_times_overflow) (\<lambda>diff_plus_b_reduced.
     bindc (check (connect_biguint a diff_plus_b_reduced)) (\<lambda>_.
       ret diff)))))))"

text \<open>The number of overflow limbs is \<open>usize\<close> arithmetic; the circuit cannot be built when it is negative.\<close>

definition mul_nonnative :: "nonnative_field \<Rightarrow> gf list \<Rightarrow> gf list \<Rightarrow> gf list circuit" where
  "mul_nonnative FF a b =
     bindc (wires (num_nonnative_limbs FF)) (\<lambda>prod.
     let modulus = modulus_limbs FF in
     bindc (check (length modulus \<le> length a + length b)) (\<lambda>_.
     bindc (wires (length a + length b - length modulus)) (\<lambda>overflow.
     bindc (range_check_u32_circuit prod) (\<lambda>_.
     bindc (range_check_u32_circuit overflow) (\<lambda>_.
     bindc (mul_biguint a b) (\<lambda>prod_expected.
     bindc (mul_biguint modulus overflow) (\<lambda>mod_times_overflow.
     bindc (add_biguint prod mod_times_overflow) (\<lambda>prod_actual.
     bindc (check (connect_biguint prod_expected prod_actual)) (\<lambda>_.
       ret prod)))))))))"

text \<open>An empty list is an index out of range.\<close>

definition mul_many_nonnative :: "nonnative_field \<Rightarrow> gf list list \<Rightarrow> gf list circuit" where
  "mul_many_nonnative FF to_mul =
     (case to_mul of
        [] \<Rightarrow> (\<lambda>_. None)
      | [x] \<Rightarrow> ret x
      | x # y # rest \<Rightarrow> bindc (mul_nonnative FF x y) (\<lambda>acc. foldc (mul_nonnative FF) acc rest))"

definition neg_nonnative :: "nonnative_field \<Rightarrow> gf list \<Rightarrow> gf list circuit" where
  "neg_nonnative FF x = sub_nonnative FF (constant_biguint 0) x"

definition inv_nonnative :: "nonnative_field \<Rightarrow> gf list \<Rightarrow> gf list circuit" where
  "inv_nonnative FF x =
     (let num_limbs = length x in
      bindc (wires num_limbs) (\<lambda>inv_biguint.
      bindc (wires num_limbs) (\<lambda>quot.
      bindc (mul_biguint x inv_biguint) (\<lambda>product.
      let modulus = modulus_limbs FF in
      bindc (mul_biguint modulus quot) (\<lambda>mod_times_div.
      bindc (add_biguint mod_times_div (constant_biguint 1)) (\<lambda>expected_product.
      bindc (check (connect_biguint product expected_product)) (\<lambda>_.
        ret inv_biguint)))))))"

definition reduce_biguint :: "nonnative_field \<Rightarrow> gf list \<Rightarrow> gf list circuit" where
  "reduce_biguint FF x = rem_biguint x (constant_biguint (ff_order FF))"

definition reduce_nonnative :: "nonnative_field \<Rightarrow> gf list \<Rightarrow> gf list circuit" where
  "reduce_nonnative FF x = reduce_biguint FF x"

definition bool_to_nonnative :: "gf \<Rightarrow> gf list" where
  "bool_to_nonnative b = [b]"

definition nonnative_conditional_neg :: "nonnative_field \<Rightarrow> gf list \<Rightarrow> gf \<Rightarrow> gf list circuit" where
  "nonnative_conditional_neg FF x b =
     (let not_b = 1 - b in
      bindc (neg_nonnative FF x) (\<lambda>neg.
        add_nonnative FF (mul_nonnative_by_bool neg b) (mul_nonnative_by_bool x not_b)))"

subsection \<open>Generators\<close>

text \<open>
  The \<open>run_once\<close> methods: the wires' values of the honest prover.  They read their operands as
  field elements; an inverse is Fermat's power, of which only its value is used.
\<close>

definition ff_read :: "nonnative_field \<Rightarrow> gf list \<Rightarrow> nat res" where
  "ff_read FF limbs = from_noncanonical_biguint (ff_order FF) (get_biguint_target limbs)"

definition add_generator :: "nonnative_field \<Rightarrow> gf list \<Rightarrow> gf list \<Rightarrow> (gf list \<times> bool) res" where
  "add_generator FF a b =
     bind_res (ff_read FF a) (\<lambda>va. bind_res (ff_read FF b) (\<lambda>vb.
       let sum_biguint = va + vb;
           (overflow, sum_reduced) = (if sum_biguint > ff_order FF then (True, sum_biguint - ff_order FF) else (False, sum_biguint))
       in bind_res (set_biguint_target (num_nonnative_limbs FF) sum_reduced) (\<lambda>total. Inr (total, overflow))))"

definition add_many_generator :: "nonnative_field \<Rightarrow> gf list list \<Rightarrow> (gf list \<times> nat) res" where
  "add_many_generator FF summands =
     bind_res (map_res (ff_read FF) summands) (\<lambda>vals.
       let sum_biguint = foldl (+) 0 vals;
           overflow_biguint = sum_biguint div ff_order FF; sum_reduced = sum_biguint mod ff_order FF
       in ensure (overflow_biguint \<noteq> 0) (Panic ''index out of bounds: the len is 0 but the index is 0'')
            (bind_res (set_biguint_target (num_nonnative_limbs FF) sum_reduced) (\<lambda>total.
               Inr (total, overflow_biguint mod 2 ^ 64 mod 2 ^ 32))))"

definition sub_generator :: "nonnative_field \<Rightarrow> gf list \<Rightarrow> gf list \<Rightarrow> (gf list \<times> bool) res" where
  "sub_generator FF a b =
     bind_res (ff_read FF a) (\<lambda>va. bind_res (ff_read FF b) (\<lambda>vb.
       let (diff_biguint, overflow) = (if va \<ge> vb then (va - vb, False) else (ff_order FF + va - vb, True))
       in bind_res (set_biguint_target (num_nonnative_limbs FF) diff_biguint) (\<lambda>diff. Inr (diff, overflow))))"

definition mul_generator :: "nonnative_field \<Rightarrow> gf list \<Rightarrow> gf list \<Rightarrow> (gf list \<times> gf list) res" where
  "mul_generator FF a b =
     bind_res (ff_read FF a) (\<lambda>va. bind_res (ff_read FF b) (\<lambda>vb.
       let prod_biguint = va * vb;
           overflow_biguint = prod_biguint div ff_order FF; prod_reduced = prod_biguint mod ff_order FF
       in bind_res (set_biguint_target (num_nonnative_limbs FF) prod_reduced) (\<lambda>prod.
          bind_res (set_biguint_target (length a + length b - length (modulus_limbs FF)) overflow_biguint) (\<lambda>overflow.
            Inr (prod, overflow)))))"

text \<open>\<open>Field::exp_u64\<close>, \<open>exp_biguint\<close> and \<open>inverse\<close> (\<open>plonky2/field/src/types.rs\<close>, \<open>p256_base.rs\<close>)
  on canonical representatives.\<close>

fun ff_exp_loop :: "nat \<Rightarrow> nat \<Rightarrow> nat \<Rightarrow> nat \<Rightarrow> nat" where
  "ff_exp_loop m current acc expo =
     (if expo = 0 then acc
      else ff_exp_loop m (current * current mod m) (if odd expo then acc * current mod m else acc) (expo div 2))"

declare ff_exp_loop.simps [simp del]

definition ff_exp_u64 :: "nat \<Rightarrow> nat \<Rightarrow> nat \<Rightarrow> nat" where
  "ff_exp_u64 m x expo = ff_exp_loop m x 1 expo"

definition ff_exp_power_of_2 :: "nat \<Rightarrow> nat \<Rightarrow> nat \<Rightarrow> nat" where
  "ff_exp_power_of_2 m x power_log = ((\<lambda>res. res * res mod m) ^^ power_log) x"

fun to_u64_digits :: "nat \<Rightarrow> nat list" where
  "to_u64_digits n = (if n = 0 then [] else n mod 2 ^ 64 # to_u64_digits (n div 2 ^ 64))"

declare to_u64_digits.simps [simp del]

definition ff_exp_biguint :: "nat \<Rightarrow> nat \<Rightarrow> nat \<Rightarrow> nat" where
  "ff_exp_biguint m x expo =
     foldl (\<lambda>res digit. ff_exp_power_of_2 m res 64 * ff_exp_u64 m x digit mod m) 1 (rev (to_u64_digits expo))"

definition ff_inverse :: "nonnative_field \<Rightarrow> nat \<Rightarrow> nat res" where
  "ff_inverse FF x =
     ensure (x \<noteq> 0) (Panic ''Tried to invert zero'') (Inr (ff_exp_biguint (ff_order FF) x (ff_order FF - 2)))"

definition inv_generator :: "nonnative_field \<Rightarrow> gf list \<Rightarrow> (gf list \<times> gf list) res" where
  "inv_generator FF x =
     bind_res (ff_read FF x) (\<lambda>vx. bind_res (ff_inverse FF vx) (\<lambda>inv_biguint.
       let quot = vx * inv_biguint div ff_order FF
       in bind_res (set_biguint_target (length x) quot) (\<lambda>quot_limbs.
          bind_res (set_biguint_target (length x) inv_biguint) (\<lambda>inv_limbs.
            Inr (inv_limbs, quot_limbs)))))"

lemma ff_exp_loop_value: "1 < m \<Longrightarrow> acc < m \<Longrightarrow> ff_exp_loop m c acc p = acc * c ^ p mod m"
proof (induction m c acc p rule: ff_exp_loop.induct)
  case (1 m c acc p)
  show ?case
  proof (cases "p = 0")
    case False
    let ?acc = "if odd p then acc * c mod m else acc"
    have "ff_exp_loop m c acc p = ?acc * (c * c mod m) ^ (p div 2) mod m"
      using 1 False by (subst ff_exp_loop.simps) auto
    also have "\<dots> = ?acc * (c * c) ^ (p div 2) mod m" by (metis mod_mult_right_eq power_mod)
    also have "\<dots> = acc * c ^ p mod m"
    proof (cases "odd p")
      case True
      then have "c ^ p = c * (c * c) ^ (p div 2)" by (metis odd_two_times_div_two_succ plus_1_eq_Suc power_Suc power_mult power2_eq_square Suc_eq_plus1)
      then show ?thesis using True by (simp add: mod_mult_left_eq mult.assoc)
    next
      case False
      then have "c ^ p = (c * c) ^ (p div 2)" by (metis dvd_mult_div_cancel power_mult power2_eq_square)
      then show ?thesis using False by simp
    qed
    finally show ?thesis .
  qed (use 1 in \<open>subst ff_exp_loop.simps, simp\<close>)
qed

lemma ff_exp_power_of_2_value: "ff_exp_power_of_2 m x k mod m = x ^ (2 ^ k) mod m"
proof (induction k)
  case (Suc k)
  have "ff_exp_power_of_2 m x (Suc k) mod m = (ff_exp_power_of_2 m x k mod m) * (ff_exp_power_of_2 m x k mod m) mod m"
    by (simp add: ff_exp_power_of_2_def mod_mult_eq)
  also have "\<dots> = x ^ (2 ^ k) * x ^ (2 ^ k) mod m" unfolding Suc by (rule mod_mult_eq)
  also have "x ^ (2 ^ k) * x ^ (2 ^ k) = x ^ (2 ^ Suc k)" by (simp only: power_add [symmetric]) (simp add: mult_2)
  finally show ?case .
qed (simp add: ff_exp_power_of_2_def)

lemma ff_exp_biguint_value:
  assumes "1 < m"
  shows "ff_exp_biguint m x p = x ^ p mod m"
proof -
  have "foldr (\<lambda>digit res. ff_exp_power_of_2 m res 64 * ff_exp_u64 m x digit mod m) (to_u64_digits p) 1 = x ^ p mod m"
  proof (induction p rule: to_u64_digits.induct)
    case (1 n)
    show ?case
    proof (cases "n = 0")
      case False
      let ?r = "x ^ (n div 2 ^ 64) mod m"
      have "foldr (\<lambda>digit res. ff_exp_power_of_2 m res 64 * ff_exp_u64 m x digit mod m) (to_u64_digits n) 1
          = ff_exp_power_of_2 m ?r 64 * ff_exp_u64 m x (n mod 2 ^ 64) mod m"
        using 1 [OF False] False by (subst to_u64_digits.simps) (simp only: if_False foldr.simps comp_apply)
      also have "\<dots> = (ff_exp_power_of_2 m ?r 64 mod m) * (x ^ (n mod 2 ^ 64) mod m) mod m"
        using assms ff_exp_loop_value [of m 1 x "n mod 2 ^ 64"] by (simp only: ff_exp_u64_def mod_mult_left_eq mult_1)
      also have "ff_exp_power_of_2 m ?r 64 mod m = (x ^ (n div 2 ^ 64)) ^ (2 ^ 64) mod m"
        unfolding ff_exp_power_of_2_value by (rule power_mod)
      also have "\<dots> * (x ^ (n mod 2 ^ 64) mod m) mod m = x ^ (n div 2 ^ 64 * 2 ^ 64 + n mod 2 ^ 64) mod m"
        by (simp only: mod_mult_eq power_add power_mult)
      finally show ?thesis by (simp only: div_mult_mod_eq)
    qed (use assms in \<open>simp add: to_u64_digits.simps\<close>)
  qed
  then show ?thesis by (simp add: ff_exp_biguint_def foldl_conv_foldr)
qed

subsection \<open>Fields the gadget is used with\<close>

definition nonnative_fits :: "nonnative_field \<Rightarrow> bool" where
  "nonnative_fits FF \<longleftrightarrow> 1 < ff_order FF \<and> ff_order FF < 2 ^ (32 * num_nonnative_limbs FF) \<and> num_nonnative_limbs FF \<le> 8"

lemma P256_fits: "nonnative_fits P256Base" "nonnative_fits P256Scalar"
  by (simp_all add: nonnative_fits_def P256Base_def P256Scalar_def num_nonnative_limbs_def div_ceil_def
      P256_BASE_ORDER_def P256_SCALAR_ORDER_def)

lemma modulus_facts:
  assumes "nonnative_fits FF"
  shows "u32s (modulus_limbs FF)" "bigval (modulus_limbs FF) = ff_order FF"
    "length (modulus_limbs FF) \<le> num_nonnative_limbs FF" "length (modulus_limbs FF) \<le> 8"
proof -
  show "u32s (modulus_limbs FF)" "bigval (modulus_limbs FF) = ff_order FF" by (simp_all add: modulus_limbs_def)
  show "length (modulus_limbs FF) \<le> num_nonnative_limbs FF"
    using assms length_to_u32_digits [of "ff_order FF" "num_nonnative_limbs FF"]
    by (simp add: modulus_limbs_def constant_biguint_def nonnative_fits_def)
  then show "length (modulus_limbs FF) \<le> 8" using assms by (simp add: nonnative_fits_def)
qed

lemma bigval_biglimbs_less: "v < 2 ^ (32 * k) \<Longrightarrow> bigval (biglimbs k v) = v"
  by (simp only: bigval_biglimbs mod_less)

lemma sum_fits:
  assumes "u32s a" "u32s b"
  shows "bigval a + bigval b < 2 ^ (32 * (max (length a) (length b) + 1))"
proof -
  let ?n = "max (length a) (length b)"
  have le: "bigval xs < 2 ^ (32 * ?n)" if "u32s xs" "length xs \<le> ?n" for xs
    by (rule less_le_trans [OF bigval_less [OF that(1)]]) (use that(2) in \<open>simp add: power_increasing\<close>)
  have "(2 :: nat) ^ (32 * ?n) + 2 ^ (32 * ?n) \<le> 2 ^ (32 * (?n + 1))" by (simp add: power_add)
  then show ?thesis using le [OF assms(1)] le [OF assms(2)] by simp
qed

subsection \<open>What the constraints admit\<close>

text \<open>Multiplication: the product up to a multiple of the order, not necessarily reduced.\<close>

definition mul_ok :: "nonnative_field \<Rightarrow> gf list \<Rightarrow> gf list \<Rightarrow> gf list \<Rightarrow> bool" where
  "mul_ok FF a b pr \<longleftrightarrow>
     length (modulus_limbs FF) \<le> length a + length b
   \<and> length pr = num_nonnative_limbs FF \<and> u32s pr
   \<and> (\<exists>k < 2 ^ (32 * (length a + length b - length (modulus_limbs FF))).
        bigval a * bigval b = bigval pr + ff_order FF * k)"

lemma mul_nonnative_outputs:
  assumes "nonnative_fits FF" "u32s a" "u32s b" "length a \<le> 8"
  shows "outputs (mul_nonnative FF a b) (mul_ok FF a b)"
proof (rule outputsI)
  note m = modulus_facts [OF assms(1)]
  let ?l = "length a + length b - length (modulus_limbs FF)"
  let ?e = "biglimbs (length a + length b + 1) (bigval a * bigval b)"
  let ?o = "\<lambda>ov. biglimbs (length (modulus_limbs FF) + length ov + 1) (ff_order FF * bigval ov)"
  let ?s = "\<lambda>pr ov. biglimbs (max (length pr) (length (modulus_limbs FF) + length ov + 1) + 1) (bigval pr + ff_order FF * bigval ov)"
  have mul: "exactly (mul_biguint a b) ?e" "bigval ?e = bigval a * bigval b"
    using mul_biguint_u32 [OF assms(2-4) refl refl] bigval_biglimbs_less [OF product_fits [OF assms(2,3) refl]] .
  have ov: "exactly (mul_biguint (modulus_limbs FF) ov) (?o ov)" "bigval (?o ov) = ff_order FF * bigval ov" if "u32s ov" for ov
    using mul_biguint_u32 [OF m(1) that m(4) refl refl] bigval_biglimbs_less [OF product_fits [OF m(1) that refl]] by (simp_all only: m(2))
  have add: "exactly (add_biguint pr (?o ov)) (?s pr ov)" "bigval (?s pr ov) = bigval pr + ff_order FF * bigval ov" if "u32s pr" "u32s ov" for pr ov
  proof -
    show "exactly (add_biguint pr (?o ov)) (?s pr ov)"
      by (rule add_biguint_exactly) (simp_all only: that u32s_biglimbs length_biglimbs ov(2))
    show "bigval (?s pr ov) = bigval pr + ff_order FF * bigval ov"
      using sum_fits [OF that(1) u32s_biglimbs, of "length (modulus_limbs FF) + length ov + 1" "ff_order FF * bigval ov"]
      by (intro bigval_biglimbs_less) (simp only: ov(2) [OF that(2)] length_biglimbs)
  qed
  have conn: "connect_biguint ?e (?s pr ov) \<longleftrightarrow> bigval a * bigval b = bigval pr + ff_order FF * bigval ov" if "u32s pr" "u32s ov" for pr ov
    by (simp only: connect_biguint_iff u32s_biglimbs mul(2) add(2) [OF that])
  show "yields (mul_nonnative FF a b) (mul_ok FF a b)"
    unfolding yields_def
  proof (intro allI impI)
    fix ws pr rest assume "mul_nonnative FF a b ws = Some (pr, rest)"
    then obtain ov e o' t where run: "length pr = num_nonnative_limbs FF" "length (modulus_limbs FF) \<le> length a + length b" "length ov = ?l"
        "\<exists>ws rest. range_check_u32_circuit pr ws = Some ((), rest)" "\<exists>ws rest. range_check_u32_circuit ov ws = Some ((), rest)"
        "\<exists>ws rest. mul_biguint a b ws = Some (e, rest)" "\<exists>ws rest. mul_biguint (modulus_limbs FF) ov ws = Some (o', rest)"
        "\<exists>ws rest. add_biguint pr o' ws = Some (t, rest)" "connect_biguint e t"
      unfolding mul_nonnative_def bindc_Some Let_def by auto blast
    have u: "u32s pr" "u32s ov"
      using run(4,5) yieldsD [OF range_check_u32_yields] unfolding u32s_def by blast+
    have "e = ?e" using exactlyD [OF mul(1)] run(6) by blast
    moreover have "o' = ?o ov" using exactlyD [OF ov(1) [OF u(2)]] run(7) by blast
    ultimately have "connect_biguint ?e (?s pr ov)" using exactlyD [OF add(1) [OF u]] run(8,9) by blast
    then have "bigval a * bigval b = bigval pr + ff_order FF * bigval ov" using conn [OF u] by simp
    moreover have "bigval ov < 2 ^ (32 * ?l)" using bigval_less [OF u(2)] run(3) by simp
    ultimately show "mul_ok FF a b pr" using run(1,2) u by (auto simp: mul_ok_def)
  qed
  fix pr assume ok: "mul_ok FF a b pr"
  then obtain k where k: "k < 2 ^ (32 * ?l)" "bigval a * bigval b = bigval pr + ff_order FF * k"
    and pr: "length pr = num_nonnative_limbs FF" "u32s pr" "length (modulus_limbs FF) \<le> length a + length b"
    by (auto simp: mul_ok_def)
  let ?ov = "biglimbs ?l k"
  have "connect_biguint ?e (?s pr ?ov)" using conn [OF pr(2), of ?ov] k(2) by (simp only: bigval_biglimbs_less [OF k(1)] u32s_biglimbs)
  then show "reaches (mul_nonnative FF a b) pr"
    unfolding mul_nonnative_def Let_def
    by (intro reaches_bindc [OF reaches_wires [OF pr(1)]] reaches_bindc [OF reaches_check [OF pr(3)]] reaches_bindc [OF reaches_wires [of ?ov]]
        reaches_bindc [OF exactly_reaches [OF range_check_u32_exactly]] reaches_bindc [OF exactly_reaches [OF mul(1)]]
        reaches_bindc [OF exactly_reaches [OF ov(1)]] reaches_bindc [OF exactly_reaches [OF add(1)]]
        reaches_bindc [OF reaches_check] reaches_ret)
      (use pr(2) u32s_biglimbs [of ?l k] in \<open>simp_all only: u32s_def length_biglimbs\<close>)
qed

text \<open>
  Subtraction: the borrow out of \<open>sub_biguint\<close> is not checked, but a borrow would leave a top limb
  that the first operand does not have.
\<close>

definition sub_ok :: "nonnative_field \<Rightarrow> gf list \<Rightarrow> gf list \<Rightarrow> gf list \<Rightarrow> bool" where
  "sub_ok FF a b diff \<longleftrightarrow>
     length diff = num_nonnative_limbs FF \<and> u32s diff
   \<and> (bigval diff + bigval b = bigval a \<or> bigval diff + bigval b = bigval a + ff_order FF)"

lemma sub_nonnative_outputs:
  assumes "nonnative_fits FF" "u32s a" "u32s b" "length a \<le> max (num_nonnative_limbs FF) (length b)"
  shows "outputs (sub_nonnative FF a b) (sub_ok FF a b)"
proof (rule outputsI)
  note m = modulus_facts [OF assms(1)]
  let ?n = "max (num_nonnative_limbs FF) (length b)"
  let ?p = "\<lambda>diff. biglimbs (?n + 1) (bigval diff + bigval b)"
  let ?m = "\<lambda>t. mul_biguint_by_bool (modulus_limbs FF) (of_bool t)"
  let ?d = "\<lambda>diff t. biglimbs (?n + 1) (borrowed (?n + 1) (bigval diff + bigval b) (of_bool t * ff_order FF))"
  have mt: "u32s (?m t)" "bigval (?m t) = of_bool t * ff_order FF" for t
    using mul_by_bool_val [of "modulus_limbs FF"] m by simp_all
  have add: "exactly (add_biguint diff b) (?p diff)" "bigval (?p diff) = bigval diff + bigval b"
    if "u32s diff" "length diff = num_nonnative_limbs FF" for diff
    using add_biguint_exactly [OF that(1) assms(3) refl refl] bigval_biglimbs_less [OF sum_fits [OF that(1) assms(3)]] by (simp_all only: that(2))
  have sub: "exactly (sub_biguint (?p diff) (?m t)) (?d diff t)" if "u32s diff" "length diff = num_nonnative_limbs FF" for diff t
  proof (rule sub_biguint_exactly)
    show "?n + 1 = max (length (?p diff)) (length (?m t))" using m(3) by simp
  qed (simp_all only: mt add(2) [OF that] u32s_biglimbs)
  have le: "x < 2 ^ (32 * ?n)" if "x < 2 ^ (32 * k)" "k \<le> ?n" for x k :: nat
    by (rule less_le_trans [OF that(1)]) (use that(2) in \<open>simp add: power_increasing\<close>)
  have conn: "connect_biguint a (?d diff t) \<longleftrightarrow> bigval diff + bigval b = bigval a + of_bool t * ff_order FF"
    if u: "u32s diff" "length diff = num_nonnative_limbs FF" for diff t
  proof -
    let ?v = "bigval diff + bigval b" and ?w = "of_bool t * ff_order FF"
    have w: "?w < 2 ^ (32 * ?n)" using assms(1) le [of "ff_order FF" "num_nonnative_limbs FF"] by (simp add: nonnative_fits_def)
    have a: "bigval a < 2 ^ (32 * ?n)" using le [OF bigval_less [OF assms(2)] assms(4)] .
    have v: "?v < 2 ^ (32 * (?n + 1))" using sum_fits [OF u(1) assms(3)] by (simp only: u(2))
    have two: "(2 :: nat) ^ (32 * (?n + 1)) = 2 ^ (32 * ?n) * 2 ^ 32" by (simp add: power_add)
    have "borrowed (?n + 1) ?v ?w < 2 ^ (32 * (?n + 1))" using v w unfolding borrowed_def two by auto
    then have "bigval (?d diff t) = borrowed (?n + 1) ?v ?w" by (rule bigval_biglimbs_less)
    moreover have "bigval a = borrowed (?n + 1) ?v ?w \<longleftrightarrow> ?v = bigval a + ?w"
      using a v w unfolding borrowed_def two by auto
    ultimately show ?thesis by (simp only: connect_biguint_iff [OF assms(2) u32s_biglimbs])
  qed
  show "yields (sub_nonnative FF a b) (sub_ok FF a b)"
    unfolding yields_def
  proof (intro allI impI)
    fix ws diff rest assume "sub_nonnative FF a b ws = Some (diff, rest)"
    then obtain overflow pl d where run: "length diff = num_nonnative_limbs FF" "\<exists>ws rest. range_check_u32_circuit diff ws = Some ((), rest)"
        "overflow = 0 \<or> overflow = 1" "\<exists>ws rest. add_biguint diff b ws = Some (pl, rest)"
        "\<exists>ws rest. sub_biguint pl (mul_biguint_by_bool (modulus_limbs FF) overflow) ws = Some (d, rest)" "connect_biguint a d"
      unfolding sub_nonnative_def bindc_Some Let_def by auto blast+
    have u: "u32s diff" using run(2) yieldsD [OF range_check_u32_yields] unfolding u32s_def by blast
    obtain t where t: "overflow = of_bool t" using run(3) that [of True] that [of False] by auto
    have "pl = ?p diff" using exactlyD [OF add(1) [OF u run(1)]] run(4) by blast
    then have "connect_biguint a (?d diff t)" using exactlyD [OF sub [OF u run(1)]] run(5,6) unfolding t by blast
    then have "bigval diff + bigval b = bigval a + of_bool t * ff_order FF" by (simp only: conn [OF u run(1)])
    then show "sub_ok FF a b diff" using run(1) u by (cases t) (simp_all add: sub_ok_def)
  qed
  fix diff assume ok: "sub_ok FF a b diff"
  have diff: "length diff = num_nonnative_limbs FF" "u32s diff" using ok by (simp_all add: sub_ok_def)
  obtain t where eq: "bigval diff + bigval b = bigval a + of_bool t * ff_order FF"
    using that [of True] that [of False] ok unfolding sub_ok_def by auto
  have "(of_bool t * of_bool t - of_bool t :: gf) = 0" by (cases t) simp_all
  then show "reaches (sub_nonnative FF a b) diff"
    unfolding sub_nonnative_def Let_def
    by (intro reaches_bindc [OF reaches_wires [OF diff(1)]] reaches_bindc [OF reaches_wire [of "of_bool t"]]
        reaches_bindc [OF exactly_reaches [OF range_check_u32_exactly]] reaches_bindc [OF reaches_check]
        reaches_bindc [OF exactly_reaches [OF add(1) [OF diff(2,1)]]] reaches_bindc [OF exactly_reaches [OF sub [OF diff(2,1)]]] reaches_ret)
      (use diff(2) conn [OF diff(2,1), of t] eq in \<open>simp_all only: u32s_def\<close>)
qed

text \<open>Addition accepts every sum that an honest flag explains.\<close>

lemma add_nonnative_reaches:
  assumes "nonnative_fits FF" "u32s a" "u32s b" "u32s tot" "length tot = num_nonnative_limbs FF"
    "bigval a + bigval b = bigval tot + of_bool t * ff_order FF" "bigval tot \<le> ff_order FF"
  shows "reaches (add_nonnative FF a b) tot"
proof -
  note m = modulus_facts [OF assms(1)]
  let ?m = "mul_biguint_by_bool (modulus_limbs FF) (of_bool t)"
  have mt: "u32s ?m" "bigval ?m = of_bool t * ff_order FF" using mul_by_bool_val [of "modulus_limbs FF"] m by simp_all
  note e = add_biguint_exactly [OF assms(2,3) refl refl] bigval_biglimbs_less [OF sum_fits [OF assms(2,3)]]
  note s = add_biguint_exactly [OF assms(4) mt(1) refl refl] bigval_biglimbs_less [OF sum_fits [OF assms(4) mt(1)]]
  note cmp = cmp_biguint_exactly [OF assms(4) m(1) refl]
  show ?thesis
    unfolding add_nonnative_def Let_def
    by (intro reaches_bindc [OF reaches_wires [OF assms(5)]] reaches_bindc [OF reaches_wire [of "of_bool t"]]
        reaches_bindc [OF exactly_reaches [OF e(1)]] reaches_bindc [OF exactly_reaches [OF s(1)]] reaches_bindc [OF reaches_check]
        reaches_bindc [OF exactly_reaches [OF cmp]] reaches_ret)
      (simp_all only: connect_biguint_iff u32s_biglimbs e(2) [unfolded assms(6)] s(2) [unfolded mt(2)] mt(2) assms(6,7) m(2) of_bool_eq_1_iff)
qed

text \<open>
  But the flag is not constrained to be a bit, and the modulus is multiplied by it limb by limb in
  the native field.  With the flag $2^{32}$ the limbs $2^{32} - 1$ of the P-256 modulus become
  $-1$ and the limb 1 becomes a carry into the limb above, so that the multiple of the modulus
  stands for $-(1 + 2^{32} + 2^{64})$.
\<close>

definition wrong_by :: nat where
  "wrong_by = 1 + 2 ^ 32 + 2 ^ 64"

lemma P256_modulus_limbs:
  "modulus_limbs P256Base = [4294967295, 4294967295, 4294967295, 0, 0, 0, 1, 4294967295]"
  by (simp add: modulus_limbs_def constant_biguint_def P256Base_def P256_BASE_ORDER_def to_u32_digits.simps)

lemma forged_multiple:
  "mul_biguint_by_bool (modulus_limbs P256Base) (of_nat (2 ^ 32)) = [-1, -1, -1, 0, 0, 0, of_nat (2 ^ 32), -1]"
proof -
  have "(4294967295 :: gf) * of_nat (2 ^ 32) = of_nat (4294967295 * 2 ^ 32)" by simp
  also have "\<dots> = of_nat (18446744069414584320)" by simp
  also have "\<dots> + 1 = (of_nat (18446744069414584321) :: gf)" by simp
  finally have "(4294967295 :: gf) * of_nat (2 ^ 32) + 1 = 0" using of_nat_gf_eq_iff [of 18446744069414584321 0] by simp
  then have "(4294967295 :: gf) * of_nat (2 ^ 32) = -1" by (simp add: add_eq_0_iff2)
  then show ?thesis by (simp add: P256_modulus_limbs mul_biguint_by_bool_def)
qed

lemma add_three_exactly:
  assumes "c + x + y = of_nat v" "v < 2 ^ 36" "v mod 2 ^ 32 = l" "v div 2 ^ 32 = h"
  shows "exactly (add_many_u32 [c, x, y]) (of_nat l, of_nat h)"
proof -
  have s: "sum_list [c, x, y] + 0 = of_nat v" using assms(1) by (simp add: add.assoc)
  have "v < goldilocks_order" using assms(2) by simp
  then have "halves (sum_list [c, x, y] + 0) = (of_nat l, of_nat h)" "canon (sum_list [c, x, y] + 0) < 2 ^ 36"
    unfolding s halves_of_nat [OF \<open>v < goldilocks_order\<close>] using assms(2-4) by simp_all
  then show ?thesis unfolding add_many_u32_def by (simp only: list.case add_many_gate_exactly)
qed

lemma forged_sum:
  assumes "u32s tot" "length tot = 8" "\<forall>i < 3. 0 < canon (tot ! i)"
  shows "exactly (add_biguint tot [-1, -1, -1, 0, 0, 0, of_nat (2 ^ 32), -1])
    (map (\<lambda>i. if i < 3 then tot ! i - 1 else tot ! i) [0..<8] @ [0])"
proof -
  let ?m = "[-1, -1, -1, 0, 0, 0, of_nat (2 ^ 32), -1] :: gf list"
  let ?w = "\<lambda>i. if i < 3 then canon (tot ! i) - 1 else canon (tot ! i)"
  let ?c = "\<lambda>i. of_bool (i = 7) :: nat"
  let ?S = "\<lambda>i. (map (\<lambda>i. of_nat (?w i)) [0..<i], of_nat (?c i)) :: gf list \<times> gf"
  let ?f = "\<lambda>(combined_limbs, carry) i. let a_limb = (if i < length tot then tot ! i else 0); b_limb = (if i < length ?m then ?m ! i else 0)
      in bindc (add_many_u32 [carry, a_limb, b_limb]) (\<lambda>(new_limb, new_carry). ret (combined_limbs @ [new_limb], new_carry))"
  have "exactly (foldc ?f (?S 0) [0..<8]) (?S 8)"
  proof (rule exactly_foldc_upt)
    fix i :: nat assume i: "i < 8"
    let ?v = "if i < 3 then canon (tot ! i) - 1 else canon (tot ! i) + (if i = 6 then 2 ^ 32 else 0)"
    have n: "canon (tot ! i) < 2 ^ 32" using u32s_nth [OF assms(1)] i assms(2) by simp
    have minus: "of_nat (canon (tot ! i) - 1) = tot ! i - 1" if "i < 3" using assms(3) that by (simp add: of_nat_diff Suc_leI)
    have cases: "i = 0 \<or> i = 1 \<or> i = 2 \<or> i = 3 \<or> i = 4 \<or> i = 5 \<or> i = 6 \<or> i = 7" using i by linarith
    have "exactly (add_many_u32 [of_nat (?c i), tot ! i, ?m ! i]) (of_nat (?w i), of_nat (?c (Suc i)))"
    proof (rule add_three_exactly [where v = ?v])
      show "of_nat (?c i) + tot ! i + ?m ! i = of_nat ?v" using cases minus by (elim disjE) simp_all
      show "?v < 2 ^ 36" "?v mod 2 ^ 32 = ?w i" "?v div 2 ^ 32 = ?c (Suc i)" using cases n by auto
    qed
    moreover have "(if i < length tot then tot ! i else 0) = tot ! i" "(if i < length ?m then ?m ! i else 0) = ?m ! i"
      using i assms(2) by simp_all
    moreover have "?S (Suc i) = (fst (?S i) @ [of_nat (?w i)], of_nat (?c (Suc i)))" by simp
    ultimately show "exactly (?f (?S i) i) (?S (Suc i))"
      by (simp only: prod.case Let_def fst_conv) (erule exactly_bindc, simp only: prod.case exactly_ret)
  qed simp
  moreover have "of_nat (?w i) = (if i < 3 then tot ! i - 1 else tot ! i)" for i
    using assms(3) by (auto simp: of_nat_diff Suc_leI)
  ultimately have fold: "exactly (foldc ?f ([], 0) [0..<8]) (map (\<lambda>i. if i < 3 then tot ! i - 1 else tot ! i) [0..<8], 0)" by simp
  have len: "max (length tot) (length ?m) = 8" using assms(2) by simp
  show ?thesis
    unfolding add_biguint_def len Let_def by (rule exactly_bindc [OF fold [unfolded Let_def]]) (simp only: prod.case exactly_ret)
qed

lemma canon_minus_1: "0 < canon t \<Longrightarrow> canon (t - 1) = canon t - 1"
proof -
  assume t: "0 < canon t"
  then have "t - 1 = of_nat (canon t - 1)" by (simp add: of_nat_diff Suc_leI)
  moreover have "canon t - 1 < goldilocks_order" using canon_less [of t] by linarith
  ultimately show ?thesis by (simp only: canon_of_nat mod_less)
qed

lemma forged_value:
  assumes "u32s tot" "length tot = 8" "\<forall>i < 3. 0 < canon (tot ! i)"
  defines "forged \<equiv> map (\<lambda>i. if i < 3 then tot ! i - 1 else tot ! i) [0..<8] @ [0]"
  shows "u32s forged" "bigval forged + wrong_by = bigval tot"
proof -
  obtain t0 t1 t2 t3 t4 t5 t6 t7 where tot: "tot = [t0, t1, t2, t3, t4, t5, t6, t7]"
    using assms(2) by (auto simp: length_Suc_conv numeral_eq_Suc)
  have f: "forged = [t0 - 1, t1 - 1, t2 - 1, t3, t4, t5, t6, t7, 0]" by (simp add: forged_def tot upt_rec)
  have pos: "0 < canon t0" "0 < canon t1" "0 < canon t2"
    using assms(3) by (auto simp: tot dest: spec [of _ 0] spec [of _ 1] spec [of _ 2])
  note c = canon_minus_1 [OF pos(1)] canon_minus_1 [OF pos(2)] canon_minus_1 [OF pos(3)]
  show "u32s forged" using assms(1) by (simp add: f tot c less_imp_diff_less)
  obtain k0 k1 k2 where "canon t0 = Suc k0" "canon t1 = Suc k1" "canon t2 = Suc k2" using pos by (metis not0_implies_Suc less_numeral_extra(3))
  then show "bigval forged + wrong_by = bigval tot" by (simp add: f tot c wrong_by_def algebra_simps)
qed

lemma add_nonnative_forged:
  assumes "u32s a" "u32s b" "u32s tot" "length tot = 8" "\<forall>i < 3. 0 < canon (tot ! i)"
    "bigval tot \<le> ff_order P256Base" "bigval a + bigval b + wrong_by = bigval tot"
  shows "reaches (add_nonnative P256Base a b) tot"
proof -
  let ?forged = "map (\<lambda>i. if i < 3 then tot ! i - 1 else tot ! i) [0..<8] @ [0]"
  note m = modulus_facts [OF P256_fits(1)]
  note e = add_biguint_exactly [OF assms(1,2) refl refl] bigval_biglimbs_less [OF sum_fits [OF assms(1,2)]]
  note f = forged_value [OF assms(3-5)]
  have n: "length tot = num_nonnative_limbs P256Base" using assms(4) by (simp add: num_nonnative_limbs_def P256Base_def div_ceil_def)
  have s: "exactly (add_biguint tot (mul_biguint_by_bool (modulus_limbs P256Base) (of_nat (2 ^ 32)))) ?forged"
    unfolding forged_multiple by (rule forged_sum [OF assms(3-5)])
  have "bigval ?forged = bigval a + bigval b" using f(2) assms(7) by linarith
  then have conn: "connect_biguint (biglimbs (max (length a) (length b) + 1) (bigval a + bigval b)) ?forged"
    using connect_biguint_iff [OF u32s_biglimbs f(1)] e(2) by metis
  note cmp = cmp_biguint_exactly [OF assms(3) m(1) refl]
  show ?thesis
    unfolding add_nonnative_def Let_def
    by (intro reaches_bindc [OF reaches_wires [OF n]] reaches_bindc [OF reaches_wire [of "of_nat (2 ^ 32)"]]
        reaches_bindc [OF exactly_reaches [OF e(1)]] reaches_bindc [OF exactly_reaches [OF s]] reaches_bindc [OF reaches_check [OF conn]]
        reaches_bindc [OF exactly_reaches [OF cmp]] reaches_bindc [OF reaches_check] reaches_ret)
      (simp only: m(2) assms(6) of_bool_eq(2))
qed

text \<open>Inversion: neither the inverse nor the quotient is bounded, only their products with the operand and the modulus.\<close>

definition inv_ok :: "nonnative_field \<Rightarrow> gf list \<Rightarrow> gf list \<Rightarrow> bool" where
  "inv_ok FF x inv_limbs \<longleftrightarrow>
     length inv_limbs = length x
   \<and> (\<exists>quot. length quot = length x \<and> limb_products x inv_limbs = limb_products (modulus_limbs FF) quot + 1)"

lemma inv_nonnative_outputs:
  assumes "nonnative_fits FF" "length x \<le> 8"
  shows "outputs (inv_nonnative FF x) (inv_ok FF x)"
proof (rule outputsI)
  note m = modulus_facts [OF assms(1)]
  let ?p = "\<lambda>v. biglimbs (length x + length v + 1) (limb_products x v)"
  let ?q = "\<lambda>q. biglimbs (length (modulus_limbs FF) + length q + 1) (limb_products (modulus_limbs FF) q)"
  let ?k = "\<lambda>q. max (length (modulus_limbs FF) + length q + 1) (length (constant_biguint 1)) + 1"
  let ?e = "\<lambda>q. biglimbs (?k q) (limb_products (modulus_limbs FF) q + 1)"
  have p: "exactly (mul_biguint x v) (?p v)" "bigval (?p v) = limb_products x v" for v
    using mul_biguint_exactly [OF assms(2) refl refl] by (simp_all only: bigval_biglimbs_less)
  have q: "exactly (mul_biguint (modulus_limbs FF) q) (?q q)" "bigval (?q q) = limb_products (modulus_limbs FF) q" for q
    using mul_biguint_exactly [OF m(4) refl refl] by (simp_all only: bigval_biglimbs_less)
  have e: "exactly (add_biguint (?q q) (constant_biguint 1)) (?e q)" "bigval (?e q) = limb_products (modulus_limbs FF) q + 1" for q
  proof -
    show "exactly (add_biguint (?q q) (constant_biguint 1)) (?e q)"
      by (rule add_biguint_exactly) (simp_all only: u32s_biglimbs u32s_constant q(2) bigval_constant length_biglimbs)
    show "bigval (?e q) = limb_products (modulus_limbs FF) q + 1"
      using sum_fits [OF u32s_biglimbs u32s_constant, of "length (modulus_limbs FF) + length q + 1" "limb_products (modulus_limbs FF) q" 1]
      by (intro bigval_biglimbs_less) (simp only: q(2) bigval_constant length_biglimbs)
  qed
  have conn: "connect_biguint (?p v) (?e q) \<longleftrightarrow> limb_products x v = limb_products (modulus_limbs FF) q + 1" for v q
    by (simp only: connect_biguint_iff u32s_biglimbs p(2) e(2))
  show "yields (inv_nonnative FF x) (inv_ok FF x)"
    unfolding yields_def
  proof (intro allI impI)
    fix ws v rest assume "inv_nonnative FF x ws = Some (v, rest)"
    then obtain quot a b c where run: "length v = length x" "length quot = length x" "\<exists>ws rest. mul_biguint x v ws = Some (a, rest)"
        "\<exists>ws rest. mul_biguint (modulus_limbs FF) quot ws = Some (b, rest)" "\<exists>ws rest. add_biguint b (constant_biguint 1) ws = Some (c, rest)"
        "connect_biguint a c"
      unfolding inv_nonnative_def bindc_Some Let_def by auto blast
    have "a = ?p v" "b = ?q quot" using exactlyD [OF p(1)] exactlyD [OF q(1)] run(3,4) by blast+
    then have "connect_biguint (?p v) (?e quot)" using exactlyD [OF e(1)] run(5,6) by blast
    then have "limb_products x v = limb_products (modulus_limbs FF) quot + 1" by (simp only: conn)
    then show "inv_ok FF x v" using run(1,2) unfolding inv_ok_def by blast
  qed
  fix v assume "inv_ok FF x v"
  then obtain quot where v: "length v = length x" "length quot = length x" "limb_products x v = limb_products (modulus_limbs FF) quot + 1"
    by (auto simp: inv_ok_def)
  show "reaches (inv_nonnative FF x) v"
    unfolding inv_nonnative_def Let_def
    by (rule reaches_bindc [OF reaches_wires [OF v(1)]], rule reaches_bindc [OF reaches_wires [OF v(2)]],
        intro reaches_bindc [OF exactly_reaches [OF p(1)]] reaches_bindc [OF exactly_reaches [OF q(1)]]
        reaches_bindc [OF exactly_reaches [OF e(1)]] reaches_bindc [OF reaches_check] reaches_ret)
      (rule iffD2 [OF conn v(3)])
qed

lemma inv_of_u32:
  assumes "nonnative_fits FF" "u32s x" "u32s v" "u32s q" "limb_products x v = limb_products (modulus_limbs FF) q + 1"
  shows "bigval x * bigval v mod ff_order FF = 1"
proof -
  have "bigval x * bigval v = ff_order FF * bigval q + 1"
    using assms(5) modulus_facts(1,2) [OF assms(1)] by (simp add: limb_products_val assms(2-4))
  then have "bigval x * bigval v mod ff_order FF = 1 mod ff_order FF" by (simp only: mod_mult_self4)
  then show ?thesis using assms(1) by (simp add: nonnative_fits_def)
qed

text \<open>Over a field of one limb every value that does not annihilate the operand is an inverse.\<close>

lemma limb_products_single: "limb_products [x] [y] = canon (x * y)"
  by (simp add: limb_products_def)

lemma one_limb_modulus: "0 < m \<Longrightarrow> m < 2 ^ 32 \<Longrightarrow> constant_biguint m = [of_nat m]"
  by (simp add: constant_biguint_def to_u32_digits.simps)

lemma field_quotient:
  assumes "0 < m" "m < 2 ^ 32" "v < goldilocks_order"
  shows "canon (of_nat m * (of_nat v / of_nat m)) = v"
proof -
  have "(of_nat m :: gf) \<noteq> 0" using assms(1,2) of_nat_gf_inject [of m 0] by simp
  then have "of_nat m * (of_nat v / of_nat m) = (of_nat v :: gf)" by simp
  then show ?thesis using assms(3) by simp
qed

lemma inv_nonnative_forged:
  assumes "ff_order FF < 2 ^ 32" "1 < ff_order FF" "nonnative_fits FF" "x * y \<noteq> 0"
  shows "reaches (inv_nonnative FF [x]) [y]"
proof -
  have m: "modulus_limbs FF = [of_nat (ff_order FF)]" using assms(1,2) by (simp add: modulus_limbs_def one_limb_modulus)
  have "canon (x * y) \<noteq> 0"
  proof
    assume "canon (x * y) = 0"
    then have "of_nat (canon (x * y)) = (0 :: gf)" by simp
    then show False using assms(4) by (simp only: of_nat_canon)
  qed
  moreover have "canon (x * y) - 1 < goldilocks_order" using canon_less [of "x * y"] by linarith
  ultimately have "limb_products [x] [y] = limb_products (modulus_limbs FF) [of_nat (canon (x * y) - 1) / of_nat (ff_order FF)] + 1"
    using field_quotient [of "ff_order FF" "canon (x * y) - 1"] assms(1,2) by (simp add: limb_products_single m)
  then have "inv_ok FF [x] [y]" unfolding inv_ok_def by (intro conjI exI) simp_all
  then show ?thesis by (intro outputs_reaches [OF inv_nonnative_outputs [OF assms(3)]]) simp_all
qed

lemma rem_biguint_forged:
  assumes "0 < m" "m < 2 ^ 32" "a < 2 ^ 32" "r \<le> a" "r \<le> m"
  shows "reaches (rem_biguint [of_nat a] [of_nat m]) [of_nat r]"
proof -
  let ?q = "of_nat (a - r) / of_nat m :: gf"
  have n: "div_num_limbs 1 1 = 1" by (simp add: div_num_limbs_def)
  have "limb_products [?q] [of_nat m] = a - r"
    using field_quotient [OF assms(1,2), of "a - r"] assms(3) by (simp add: limb_products_single mult.commute)
  then have "div_rem_ok [of_nat a] [of_nat m] ([?q], [of_nat r])"
    using assms n by (simp add: div_rem_ok_def)
  then have "reaches (div_rem_biguint [of_nat a] [of_nat m]) ([?q], [of_nat r])"
    using n by (intro outputs_reaches [OF div_rem_biguint_outputs]) simp_all
  then show ?thesis unfolding rem_biguint_def by (rule reaches_bindc) (simp add: reaches_ret)
qed

subsection \<open>The honest prover\<close>

text \<open>The fields whose elements the generators read: one subtraction of the order canonicalises.\<close>

definition native_256 :: "nonnative_field \<Rightarrow> bool" where
  "native_256 FF \<longleftrightarrow> nonnative_fits FF \<and> num_nonnative_limbs FF = 8 \<and> 2 ^ 256 < 2 * ff_order FF"

lemma P256_native: "native_256 P256Base" "native_256 P256Scalar"
  using P256_fits P256_orders(2,4) by (simp_all add: native_256_def P256Base_def P256Scalar_def num_nonnative_limbs_def div_ceil_def)

lemma ff_read_iff:
  assumes "native_256 FF"
  shows "ff_read FF a = Inr v \<longleftrightarrow> bigval a < 2 ^ 256 \<and> v = bigval a mod ff_order FF"
  using assms from_noncanonical_mod [of "ff_order FF" "bigval a" v] by (simp only: ff_read_def native_256_def)

lemma native_order:
  assumes "native_256 FF"
  shows "nonnative_fits FF" "1 < ff_order FF" "ff_order FF < 2 ^ (32 * 8)" "num_nonnative_limbs FF = 8" "length (modulus_limbs FF) = 8"
proof -
  show f: "nonnative_fits FF" "1 < ff_order FF" "ff_order FF < 2 ^ (32 * 8)" "num_nonnative_limbs FF = 8"
    using assms by (auto simp: native_256_def nonnative_fits_def)
  have "\<not> ff_order FF < 2 ^ (32 * 7)" using assms by (simp add: native_256_def)
  then have "\<not> length (modulus_limbs FF) \<le> 7" using length_to_u32_digits [of "ff_order FF" 7] by (simp add: modulus_limbs_def constant_biguint_def)
  then show "length (modulus_limbs FF) = 8" using modulus_facts(3) [OF f(1)] f(4) by simp
qed

lemma read_canonical:
  assumes "native_256 FF" "bigval a < ff_order FF"
  shows "ff_read FF a = Inr (bigval a)"
  using assms native_order(3) [OF assms(1)] by (simp add: ff_read_iff del: power_numeral)

lemma mul_generator_ok:
  assumes "native_256 FF" "bigval a < ff_order FF" "bigval b < ff_order FF" "u32s a" "u32s b" "length a = 8 \<or> length b = 8"
  shows "\<exists>pr ov. mul_generator FF a b = Inr (pr, ov) \<and> mul_ok FF a b pr \<and> bigval pr = bigval a * bigval b mod ff_order FF"
proof -
  note n = native_order [OF assms(1)]
  let ?p = "bigval a * bigval b" and ?l = "length a + length b - 8"
  have "?p mod ff_order FF < 2 ^ (32 * 8)" using n(2,3) by (meson less_trans mod_less_divisor zero_less_one)
  note pr = this bigval_biglimbs_less [OF this]
  have ov: "?p div ff_order FF < 2 ^ (32 * ?l)"
    using assms(6)
  proof
    assume "length a = 8"
    moreover have "?p div ff_order FF \<le> bigval b" using assms(2) by (intro div_le_mono [of ?p "ff_order FF * bigval b" "ff_order FF", THEN order_trans]) simp_all
    ultimately show ?thesis using bigval_less [OF assms(5)] by simp
  next
    assume "length b = 8"
    moreover have "?p div ff_order FF \<le> bigval a" using assms(3) by (intro div_le_mono [of ?p "bigval a * ff_order FF" "ff_order FF", THEN order_trans]) simp_all
    ultimately show ?thesis using bigval_less [OF assms(4)] by simp
  qed
  have gen: "mul_generator FF a b = Inr (biglimbs 8 (?p mod ff_order FF), biglimbs ?l (?p div ff_order FF))"
    using pr(1) ov
    by (simp only: mul_generator_def read_canonical [OF assms(1,2)] read_canonical [OF assms(1,3)] Let_def n(4,5) bind_res_simps
        iffD2 [OF set_biguint_biglimbs [of 8], OF conjI [OF pr(1) refl]] iffD2 [OF set_biguint_biglimbs [of ?l], OF conjI [OF ov refl]])
  have "mul_ok FF a b (biglimbs 8 (?p mod ff_order FF))"
    unfolding mul_ok_def n(4,5) pr(2)
    by (intro conjI exI [of _ "?p div ff_order FF"]) (use assms(6) ov in \<open>auto simp only: u32s_biglimbs length_biglimbs mod_mult_div_eq\<close>)
  then show ?thesis using gen pr(2) by blast
qed

lemma sub_generator_ok:
  assumes "native_256 FF" "bigval a < ff_order FF" "bigval b < ff_order FF"
  shows "\<exists>diff t. sub_generator FF a b = Inr (diff, t) \<and> sub_ok FF a b diff \<and> bigval diff < ff_order FF"
proof -
  note n = native_order [OF assms(1)]
  define d t where "d = (if bigval a \<ge> bigval b then bigval a - bigval b else ff_order FF + bigval a - bigval b)"
    and "t \<longleftrightarrow> \<not> bigval a \<ge> bigval b"
  then have d: "d < ff_order FF" "d + bigval b = bigval a \<or> d + bigval b = bigval a + ff_order FF"
    and gen: "sub_generator FF a b = bind_res (set_biguint_target 8 d) (\<lambda>diff. Inr (diff, t))"
    using assms(2,3) by (auto simp: sub_generator_def read_canonical [OF assms(1,2)] read_canonical [OF assms(1,3)] n(4))
  have d': "d < 2 ^ (32 * 8)" using d(1) n(3) by (rule less_trans)
  note v = bigval_biglimbs_less [OF d']
  have "set_biguint_target 8 d = Inr (biglimbs 8 d)" using d' by (simp only: set_biguint_biglimbs simp_thms)
  then have "sub_generator FF a b = Inr (biglimbs 8 d, t)" by (simp only: gen bind_res_simps)
  moreover have "sub_ok FF a b (biglimbs 8 d)" unfolding sub_ok_def v n(4) by (intro conjI length_biglimbs u32s_biglimbs d(2))
  moreover have "bigval (biglimbs 8 d) < ff_order FF" unfolding v by (rule d(1))
  ultimately show ?thesis by blast
qed

lemma add_generator_ok:
  assumes "native_256 FF" "bigval a < ff_order FF" "bigval b < ff_order FF" "u32s a" "u32s b"
  shows "\<exists>tot t. add_generator FF a b = Inr (tot, t) \<and> reaches (add_nonnative FF a b) tot \<and> u32s tot \<and> length tot = 8
    \<and> bigval tot = (if bigval a + bigval b = ff_order FF then ff_order FF else (bigval a + bigval b) mod ff_order FF)"
proof -
  note n = native_order [OF assms(1)]
  define d t where "d = (if bigval a + bigval b > ff_order FF then bigval a + bigval b - ff_order FF else bigval a + bigval b)"
    and "t \<longleftrightarrow> bigval a + bigval b > ff_order FF"
  then have d: "d \<le> ff_order FF" "bigval a + bigval b = d + of_bool t * ff_order FF"
    and gen: "add_generator FF a b = bind_res (set_biguint_target 8 d) (\<lambda>tot. Inr (tot, t))"
    using assms(2,3) by (auto simp: add_generator_def read_canonical [OF assms(1,2)] read_canonical [OF assms(1,3)] n(4) Let_def)
  have val: "d = (if bigval a + bigval b = ff_order FF then ff_order FF else (bigval a + bigval b) mod ff_order FF)"
    using assms(2,3) by (auto simp: d_def le_mod_geq)
  have d': "d < 2 ^ (32 * 8)" using d(1) n(3) by (rule le_less_trans)
  note v = bigval_biglimbs_less [OF d']
  have "set_biguint_target 8 d = Inr (biglimbs 8 d)" using d' by (simp only: set_biguint_biglimbs simp_thms)
  then have "add_generator FF a b = Inr (biglimbs 8 d, t)" by (simp only: gen bind_res_simps)
  moreover have "reaches (add_nonnative FF a b) (biglimbs 8 d)"
    by (rule add_nonnative_reaches [OF n(1) assms(4,5)]) (simp_all only: u32s_biglimbs length_biglimbs n(4) v d)
  ultimately show ?thesis using v val by (intro exI [of _ "biglimbs 8 d"] exI [of _ t]) (simp only: u32s_biglimbs length_biglimbs simp_thms)
qed

text \<open>
  A sum that equals the order is left unreduced (the generator compares with \<open>>\<close>).  The next
  multiplication then reads it as zero and its constraints reject the generator's own values.
\<close>

lemma unreduced_sum_breaks_mul:
  assumes "native_256 FF" "bigval a = ff_order FF" "0 < bigval b" "bigval b < ff_order FF" "length a = 8" "u32s b"
  shows "\<exists>pr ov. mul_generator FF a b = Inr (pr, ov) \<and> bigval pr + ff_order FF * bigval ov \<noteq> bigval a * bigval b"
proof -
  note n = native_order [OF assms(1)]
  have a: "ff_read FF a = Inr 0"
  proof -
    have "bigval a < 2 ^ 256" using n(3) by (simp only: assms(2)) simp
    then show ?thesis by (simp only: ff_read_iff [OF assms(1)] assms(2) mod_self simp_thms)
  qed
  have z: "set_biguint_target k 0 = Inr (biglimbs k 0)" for k by (simp add: set_biguint_biglimbs)
  have "mul_generator FF a b = Inr (biglimbs 8 0, biglimbs (length a + length b - 8) 0)"
    by (simp only: mul_generator_def a read_canonical [OF assms(1,4)] bind_res_simps Let_def n(4,5) mult_0 div_0 mod_0 z)
  moreover have "bigval (biglimbs k 0) = 0" for k by (simp add: bigval_biglimbs)
  ultimately show ?thesis using assms(2,3) n(2) by (intro exI conjI) auto
qed

lemma inv_generator_ok:
  assumes "native_256 FF" "0 < bigval x" "bigval x < ff_order FF" "u32s x" "length x = 8"
    and fermat: "bigval x ^ (ff_order FF - 1) mod ff_order FF = 1"
  shows "\<exists>v q. inv_generator FF x = Inr (v, q) \<and> inv_ok FF x v \<and> u32s v \<and> bigval v < ff_order FF \<and> bigval x * bigval v mod ff_order FF = 1"
proof -
  note n = native_order [OF assms(1)] and m = modulus_facts [OF native_order(1) [OF assms(1)]]
  define v where "v = bigval x ^ (ff_order FF - 2) mod ff_order FF"
  define q where "q = bigval x * v div ff_order FF"
  have v: "v < ff_order FF" using n(2) by (simp add: v_def)
  then have v': "v < 2 ^ (32 * 8)" using n(3) by (rule less_trans)
  have "bigval x * bigval x ^ (ff_order FF - 2) = bigval x ^ (ff_order FF - 1)"
    using n(2) by (metis One_nat_def Suc_diff_Suc numeral_2_eq_2 power_Suc)
  then have one: "bigval x * v mod ff_order FF = 1" using fermat by (simp add: v_def mod_mult_right_eq)
  have "q \<le> v" using assms(3) unfolding q_def by (intro div_le_mono [of "bigval x * v" "ff_order FF * v" "ff_order FF", THEN order_trans]) simp_all
  then have q': "q < 2 ^ (32 * 8)" using v' by (rule le_less_trans)
  have set: "set_biguint_target 8 v = Inr (biglimbs 8 v)" "set_biguint_target 8 q = Inr (biglimbs 8 q)"
    using v' q' by (simp_all only: set_biguint_biglimbs simp_thms)
  have "inv_generator FF x = Inr (biglimbs 8 v, biglimbs 8 q)"
    using assms(2) set by (simp add: inv_generator_def read_canonical [OF assms(1,3)] ff_inverse_def ff_exp_biguint_value [OF n(2)]
        assms(5) Let_def v_def [symmetric] q_def [symmetric])
  moreover have bv: "bigval (biglimbs 8 v) = v" "bigval (biglimbs 8 q) = q" by (rule bigval_biglimbs_less, rule v' q')+
  moreover have "limb_products x (biglimbs 8 v) = limb_products (modulus_limbs FF) (biglimbs 8 q) + 1"
  proof -
    have "bigval x * v = ff_order FF * q + 1" using one by (metis q_def mult_div_mod_eq)
    then show ?thesis by (simp only: limb_products_val assms(4) m(1,2) u32s_biglimbs bv)
  qed
  then have "inv_ok FF x (biglimbs 8 v)" unfolding inv_ok_def assms(5) by (intro conjI exI [of _ "biglimbs 8 q"]) (simp_all only: length_biglimbs)
  ultimately show ?thesis using v one by (intro exI [of _ "biglimbs 8 v"] exI [of _ "biglimbs 8 q"]) (simp only: u32s_biglimbs simp_thms)
qed

text \<open>Sums of several values: the quotient by the order must fit one limb.\<close>

definition add_many_ok :: "nonnative_field \<Rightarrow> gf list list \<Rightarrow> gf list \<Rightarrow> bool" where
  "add_many_ok FF to_add tot \<longleftrightarrow>
     length tot = num_nonnative_limbs FF \<and> u32s tot \<and> bigval tot \<le> ff_order FF
   \<and> (\<exists>k < 2 ^ 32. sum_list (map bigval to_add) = bigval tot + ff_order FF * k)"

lemma fold_add_exactly:
  "\<forall>x \<in> set xs. u32s x \<Longrightarrow> u32s acc \<Longrightarrow>
     \<exists>s. exactly (foldc add_biguint acc xs) s \<and> u32s s \<and> bigval s = bigval acc + sum_list (map bigval xs)"
proof (induction xs arbitrary: acc)
  case (Cons x xs)
  let ?s = "biglimbs (max (length acc) (length x) + 1) (bigval acc + bigval x)"
  have x: "u32s x" using Cons.prems(1) by simp
  have "exactly (add_biguint acc x) ?s" by (rule add_biguint_exactly [OF Cons.prems(2) x refl refl])
  moreover have "bigval ?s = bigval acc + bigval x" by (rule bigval_biglimbs_less [OF sum_fits [OF Cons.prems(2) x]])
  ultimately show ?case using Cons.IH [of ?s] Cons.prems(1) by (auto intro: exactly_bindc simp: add.assoc)
qed (auto intro: exactly_ret)

lemma add_many_nonnative_outputs:
  assumes "nonnative_fits FF" "\<forall>x \<in> set to_add. u32s x" "length to_add \<noteq> 1"
  shows "outputs (add_many_nonnative FF to_add) (add_many_ok FF to_add)"
proof (rule outputsI)
  note m = modulus_facts [OF assms(1)]
  let ?M = "modulus_limbs FF"
  let ?o = "\<lambda>ov. biglimbs (length ?M + 1 + 1) (ff_order FF * canon ov)"
  let ?s = "\<lambda>tot ov. biglimbs (max (length tot) (length ?M + 1 + 1) + 1) (bigval tot + ff_order FF * canon ov)"
  obtain e where e: "exactly (foldc add_biguint zero_biguint to_add) e" "u32s e" "bigval e = sum_list (map bigval to_add)"
    using fold_add_exactly [OF assms(2), of zero_biguint] by auto
  have ov: "exactly (mul_biguint ?M [ov]) (?o ov)" "bigval (?o ov) = ff_order FF * canon ov" if "u32s [ov]" for ov
    using mul_biguint_u32 [OF m(1) that m(4) refl refl] bigval_biglimbs_less [OF product_fits [OF m(1) that refl]] by (simp_all add: m(2))
  have add: "exactly (add_biguint tot (?o ov)) (?s tot ov)" "bigval (?s tot ov) = bigval tot + ff_order FF * canon ov" if "u32s tot" "u32s [ov]" for tot ov
  proof -
    show "exactly (add_biguint tot (?o ov)) (?s tot ov)"
      by (rule add_biguint_exactly) (simp_all only: that u32s_biglimbs length_biglimbs ov(2))
    show "bigval (?s tot ov) = bigval tot + ff_order FF * canon ov"
      using sum_fits [OF that(1) u32s_biglimbs, of "length ?M + 1 + 1" "ff_order FF * canon ov"]
      by (intro bigval_biglimbs_less) (simp only: ov(2) [OF that(2)] length_biglimbs)
  qed
  have conn: "connect_biguint e (?s tot ov) \<longleftrightarrow> sum_list (map bigval to_add) = bigval tot + ff_order FF * canon ov"
    if "u32s tot" "u32s [ov]" for tot ov
    by (simp only: connect_biguint_iff e(2,3) u32s_biglimbs add(2) [OF that])
  have unfold: "add_many_nonnative FF to_add = bindc (wires (num_nonnative_limbs FF)) (\<lambda>total. bindc wire (\<lambda>overflow.
        bindc (range_check_u32_circuit total) (\<lambda>_. bindc (range_check_u32_circuit [overflow]) (\<lambda>_.
        bindc (foldc add_biguint zero_biguint to_add) (\<lambda>sum_expected. bindc (mul_biguint ?M [overflow]) (\<lambda>mod_times_overflow.
        bindc (add_biguint total mod_times_overflow) (\<lambda>sum_actual. bindc (check (connect_biguint sum_expected sum_actual)) (\<lambda>_.
        bindc (cmp_biguint total ?M) (\<lambda>cmp. bindc (check (cmp = 1)) (\<lambda>_. ret total))))))))))"
    using assms(3) by (auto simp: add_many_nonnative_def Let_def split: list.splits)
  show "yields (add_many_nonnative FF to_add) (add_many_ok FF to_add)"
    unfolding yields_def
  proof (intro allI impI)
    fix ws tot rest assume "add_many_nonnative FF to_add ws = Some (tot, rest)"
    then obtain overflow e' o' t c where run: "length tot = num_nonnative_limbs FF" "\<exists>ws rest. range_check_u32_circuit [overflow] ws = Some ((), rest)"
        "\<exists>ws rest. foldc add_biguint zero_biguint to_add ws = Some (e', rest)" "\<exists>ws rest. mul_biguint ?M [overflow] ws = Some (o', rest)"
        "\<exists>ws rest. add_biguint tot o' ws = Some (t, rest)" "connect_biguint e' t" "\<exists>ws rest. cmp_biguint tot ?M ws = Some (c, rest)" "c = 1"
      unfolding unfold bindc_Some by auto blast
    have ou: "u32s [overflow]" using run(2) yieldsD [OF range_check_u32_yields] unfolding u32s_def by blast
    have "u32s tot \<and> u32s ?M \<and> c = of_bool (bigval tot \<le> bigval ?M)" using run(7) yieldsD [OF cmp_biguint_yields] by blast
    then have t: "u32s tot" "bigval tot \<le> ff_order FF" using run(8) m(2) by (simp_all add: of_bool_def split: if_splits)
    have "e' = e" "o' = ?o overflow" using exactlyD [OF e(1)] exactlyD [OF ov(1) [OF ou]] run(3,4) by blast+
    then have "connect_biguint e (?s tot overflow)" using exactlyD [OF add(1) [OF t(1) ou]] run(5,6) by blast
    then have "sum_list (map bigval to_add) = bigval tot + ff_order FF * canon overflow" by (simp only: conn [OF t(1) ou])
    moreover have "canon overflow < 2 ^ 32" using ou by simp
    ultimately show "add_many_ok FF to_add tot" unfolding add_many_ok_def using run(1) t by blast
  qed
  fix tot assume "add_many_ok FF to_add tot"
  then obtain k where tot: "length tot = num_nonnative_limbs FF" "u32s tot" "bigval tot \<le> ff_order FF"
    and k: "k < 2 ^ 32" "sum_list (map bigval to_add) = bigval tot + ff_order FF * k"
    by (auto simp: add_many_ok_def)
  have ck: "canon (of_nat k) = k" "u32s [of_nat k]" using k(1) by simp_all
  have conn': "connect_biguint e (?s tot (of_nat k))" using conn [OF tot(2) ck(2)] k(2) by (simp only: ck(1))
  show "reaches (add_many_nonnative FF to_add) tot"
    unfolding unfold
    by (intro reaches_bindc [OF reaches_wires [OF tot(1)]] reaches_bindc [OF reaches_wire [of "of_nat k"]]
        reaches_bindc [OF exactly_reaches [OF range_check_u32_exactly]] reaches_bindc [OF exactly_reaches [OF e(1)]]
        reaches_bindc [OF exactly_reaches [OF ov(1) [OF ck(2)]]] reaches_bindc [OF exactly_reaches [OF add(1) [OF tot(2) ck(2)]]]
        reaches_bindc [OF reaches_check [OF conn']] reaches_bindc [OF exactly_reaches [OF cmp_biguint_exactly [OF tot(2) m(1) refl]]]
        reaches_bindc [OF reaches_check] reaches_ret)
      (use tot(2,3) ck(2) m(2) in \<open>simp_all add: u32s_def\<close>)
qed

text \<open>The generator of a long sum panics when the sum is below the order.\<close>

lemma add_many_generator_panics:
  assumes "native_256 FF" "\<forall>x \<in> set to_add. bigval x < ff_order FF" "sum_list (map bigval to_add) < ff_order FF"
  shows "add_many_generator FF to_add = Inl (Panic ''index out of bounds: the len is 0 but the index is 0'')"
proof -
  have "map_res (ff_read FF) to_add = Inr (map bigval to_add)"
    using assms(2) by (simp add: map_res_Inr_iff read_canonical [OF assms(1)])
  moreover have "foldl (+) 0 (map bigval to_add) = sum_list (map bigval to_add)" by (simp only: foldl_add_sum_list add_0)
  ultimately show ?thesis using assms(3) by (simp add: add_many_generator_def Let_def)
qed

end
