(* ===== verification/Curve.thy ===== *)
theory Curve
  imports Prelude
begin

text \<open>
  Short Weierstrass curves natively: \<open>curve_types.rs\<close>, \<open>curve_adds.rs\<close> and \<open>curve_summation.rs\<close> of
  \<open>plonky2_ecdsa/src/curve/\<close>.  As in the code, points are generic in the base field; the trait
  \<open>PrimeField\<close> is the class of fields.  The projective formulas are shown to compute the
  chord-and-tangent law on affine points and to stay on the curve.
\<close>

subsection \<open>Points\<close>

record 'f affine =
  aff_x :: 'f
  aff_y :: 'f
  aff_zero :: bool

record 'f projective =
  proj_x :: 'f
  proj_y :: 'f
  proj_z :: 'f

record 'f curve =
  curve_A :: 'f
  curve_B :: 'f
  generator_affine :: "'f affine"

definition affine_ZERO :: "'f::field affine" where
  "affine_ZERO = \<lparr>aff_x = 0, aff_y = 0, aff_zero = True\<rparr>"

definition affine_nonzero :: "'f \<Rightarrow> 'f \<Rightarrow> 'f affine" where
  "affine_nonzero x y = \<lparr>aff_x = x, aff_y = y, aff_zero = False\<rparr>"

definition proj_ZERO :: "'f::field projective" where
  "proj_ZERO = \<lparr>proj_x = 0, proj_y = 1, proj_z = 0\<rparr>"

definition affine_is_valid :: "'f::field curve \<Rightarrow> 'f affine \<Rightarrow> bool" where
  "affine_is_valid C p \<longleftrightarrow>
     aff_zero p \<or> aff_y p * aff_y p = aff_x p * aff_x p * aff_x p + curve_A C * aff_x p + curve_B C"

definition proj_is_valid :: "'f::field curve \<Rightarrow> 'f projective \<Rightarrow> bool" where
  "proj_is_valid C p \<longleftrightarrow>
     (let x = proj_x p; y = proj_y p; z = proj_z p
      in z = 0 \<or> y * y * z = x * x * x + curve_A C * x * (z * z) + curve_B C * (z * z * z))"

definition is_safe_curve :: "'f::field curve \<Rightarrow> bool" where
  "is_safe_curve C \<longleftrightarrow> 4 * (curve_A C * curve_A C * curve_A C) + 27 * (curve_B C * curve_B C) \<noteq> 0"

definition to_projective :: "'f::field affine \<Rightarrow> 'f projective" where
  "to_projective p = \<lparr>proj_x = aff_x p, proj_y = aff_y p, proj_z = (if aff_zero p then 0 else 1)\<rparr>"

definition to_affine :: "'f::field projective \<Rightarrow> 'f affine" where
  "to_affine p =
     (if proj_z p = 0 then affine_ZERO
      else let z_inv = inverse (proj_z p) in affine_nonzero (proj_x p * z_inv) (proj_y p * z_inv))"

definition affine_eq :: "'f::field affine \<Rightarrow> 'f affine \<Rightarrow> bool" where
  "affine_eq p q \<longleftrightarrow>
     (if aff_zero p \<or> aff_zero q then aff_zero p = aff_zero q else aff_x p = aff_x q \<and> aff_y p = aff_y q)"

definition proj_eq :: "'f::field projective \<Rightarrow> 'f projective \<Rightarrow> bool" where
  "proj_eq p q \<longleftrightarrow>
     (if proj_z p = 0 \<or> proj_z q = 0 then proj_z p = proj_z q
      else proj_x p * proj_z q = proj_x q * proj_z p \<and> proj_y p * proj_z q = proj_y q * proj_z p)"

definition affine_neg :: "'f::field affine \<Rightarrow> 'f affine" where
  "affine_neg p = p\<lparr>aff_y := - aff_y p\<rparr>"

definition proj_neg :: "'f::field projective \<Rightarrow> 'f projective" where
  "proj_neg p = p\<lparr>proj_y := - proj_y p\<rparr>"

text \<open>Doubling an affine point inverts \<open>2y\<close>, which panics on a point of order two.\<close>

definition affine_double :: "'f::field curve \<Rightarrow> 'f affine \<Rightarrow> 'f affine res" where
  "affine_double C p =
     (if aff_zero p then Inr affine_ZERO
      else let x1 = aff_x p; y1 = aff_y p; double_y = 2 * y1 in
        ensure (double_y \<noteq> 0) (Panic ''Tried to invert zero'')
          (let inv_double_y = inverse double_y;
               triple_xx = 3 * (x1 * x1);
               lambda = (triple_xx + curve_A C) * inv_double_y;
               x3 = lambda * lambda - 2 * aff_x p;
               y3 = lambda * (x1 - x3) - y1
           in Inr \<lparr>aff_x = x3, aff_y = y3, aff_zero = False\<rparr>))"

definition proj_double :: "'f::field curve \<Rightarrow> 'f projective \<Rightarrow> 'f projective" where
  "proj_double C p =
     (let x = proj_x p; y = proj_y p; z = proj_z p in
      if z = 0 then proj_ZERO
      else let xx = x * x; zz = z * z;
               w = 3 * xx; w = (if curve_A C \<noteq> 0 then w + curve_A C * zz else w);
               s = 2 * y * z; r = y * s; rr = r * r;
               b = (x + r) * (x + r) - (xx + rr);
               h = w * w - 2 * b;
               x3 = h * s;
               y3 = w * (b - h) - 2 * rr;
               z3 = s * s * s
           in \<lparr>proj_x = x3, proj_y = y3, proj_z = z3\<rparr>)"

definition add_proj_proj :: "'f::field curve \<Rightarrow> 'f projective \<Rightarrow> 'f projective \<Rightarrow> 'f projective" where
  "add_proj_proj C p q =
     (let x1 = proj_x p; y1 = proj_y p; z1 = proj_z p; x2 = proj_x q; y2 = proj_y q; z2 = proj_z q in
      if z1 = 0 then q
      else if z2 = 0 then p
      else let x1z2 = x1 * z2; y1z2 = y1 * z2; x2z1 = x2 * z1; y2z1 = y2 * z1 in
        if x1z2 = x2z1 \<and> y1z2 = y2z1 then proj_double C p
        else if x1z2 = x2z1 \<and> y1z2 = - y2z1 then proj_ZERO
        else let z1z2 = z1 * z2;
                 u = y2z1 - y1z2; uu = u * u;
                 v = x2z1 - x1z2; vv = v * v; vvv = v * vv;
                 r = vv * x1z2;
                 a = uu * z1z2 - vvv - 2 * r;
                 x3 = v * a;
                 y3 = u * (r - a) - vvv * y1z2;
                 z3 = vvv * z1z2
             in \<lparr>proj_x = x3, proj_y = y3, proj_z = z3\<rparr>)"

definition add_proj_affine :: "'f::field curve \<Rightarrow> 'f projective \<Rightarrow> 'f affine \<Rightarrow> 'f projective" where
  "add_proj_affine C p q =
     (let x1 = proj_x p; y1 = proj_y p; z1 = proj_z p; x2 = aff_x q; y2 = aff_y q in
      if z1 = 0 then to_projective q
      else if aff_zero q then p
      else let x2z1 = x2 * z1; y2z1 = y2 * z1 in
        if x1 = x2z1 \<and> y1 = y2z1 then proj_double C p
        else if x1 = x2z1 \<and> y1 = - y2z1 then proj_ZERO
        else let u = y2z1 - y1; uu = u * u;
                 v = x2z1 - x1; vv = v * v; vvv = v * vv;
                 r = vv * x1;
                 a = uu * z1 - vvv - 2 * r;
                 x3 = v * a;
                 y3 = u * (r - a) - vvv * y1;
                 z3 = vvv * z1
             in \<lparr>proj_x = x3, proj_y = y3, proj_z = z3\<rparr>)"

definition add_affine_affine :: "'f::field curve \<Rightarrow> 'f affine \<Rightarrow> 'f affine \<Rightarrow> 'f projective" where
  "add_affine_affine C p q =
     (let x1 = aff_x p; y1 = aff_y p; x2 = aff_x q; y2 = aff_y q in
      if aff_zero p then to_projective q
      else if aff_zero q then to_projective p
      else if x1 = x2 \<and> y1 = y2 then proj_double C (to_projective p)
      else if x1 = x2 \<and> y1 = - y2 then proj_ZERO
      else let u = y2 - y1; uu = u * u;
               v = x2 - x1; vv = v * v; vvv = v * vv;
               r = vv * x1;
               a = uu - vvv - 2 * r;
               x3 = v * a;
               y3 = u * (r - a) - vvv * y1;
               z3 = vvv
           in \<lparr>proj_x = x3, proj_y = y3, proj_z = z3\<rparr>)"

text \<open>Sums of points by pairs (\<open>affine_summation_pairwise\<close>).\<close>

fun reduce_pairs :: "'f::field curve \<Rightarrow> 'f affine list \<Rightarrow> 'f projective list" where
  "reduce_pairs C (p # q # rest) = add_affine_affine C p q # reduce_pairs C rest"
| "reduce_pairs C [p] = [to_projective p]"
| "reduce_pairs C [] = []"

definition affine_summation_pairwise :: "'f::field curve \<Rightarrow> 'f affine list \<Rightarrow> 'f projective" where
  "affine_summation_pairwise C points = foldl (add_proj_proj C) proj_ZERO (reduce_pairs C points)"

definition add_slices :: "'f::field curve \<Rightarrow> 'f projective list \<Rightarrow> 'f projective list \<Rightarrow> 'f projective list res" where
  "add_slices C a b =
     ensure (length a = length b) (Panic ''assertion failed: a.len() == b.len()'')
       (Inr (map (\<lambda>(p, q). add_proj_proj C p q) (zip a b)))"

subsection \<open>The chord-and-tangent law\<close>

text \<open>The group operation on affine points in its textbook form.\<close>

definition curve_sum :: "'f::field curve \<Rightarrow> 'f affine \<Rightarrow> 'f affine \<Rightarrow> 'f affine" where
  "curve_sum C p q =
     (let x1 = aff_x p; y1 = aff_y p; x2 = aff_x q; y2 = aff_y q in
      if aff_zero p then (if aff_zero q then affine_ZERO else q)
      else if aff_zero q then p
      else if x1 = x2 \<and> y1 + y2 = 0 then affine_ZERO
      else let slope = (if x1 = x2 then (3 * x1\<^sup>2 + curve_A C) / (2 * y1) else (y2 - y1) / (x2 - x1));
               x3 = slope\<^sup>2 - x1 - x2
           in affine_nonzero x3 (slope * (x1 - x3) - y1))"

lemma affine_ZERO_simps [simp]: "aff_zero affine_ZERO" "affine_is_valid C affine_ZERO"
  by (simp_all add: affine_ZERO_def affine_is_valid_def)

lemma affine_nonzero_simps [simp]:
  "aff_x (affine_nonzero x y) = x" "aff_y (affine_nonzero x y) = y" "\<not> aff_zero (affine_nonzero x y)"
  by (simp_all add: affine_nonzero_def)

lemma affine_nonzero_eq: "affine_nonzero x y = affine_nonzero x' y' \<longleftrightarrow> x = x' \<and> y = y'"
  by (simp add: affine_nonzero_def)

text \<open>A projective point with a nonzero last coordinate, by its affine coordinates.\<close>

lemma proj_coordinates:
  obtains (at_infinity) "proj_z p = 0" "to_affine p = affine_ZERO"
  | (finite) x y where "proj_z p \<noteq> 0" "proj_x p = x * proj_z p" "proj_y p = y * proj_z p" "to_affine p = affine_nonzero x y"
proof (cases "proj_z p = 0")
  case False
  then show ?thesis using finite [of "proj_x p / proj_z p" "proj_y p / proj_z p"] by (simp add: to_affine_def divide_inverse Let_def)
qed (use at_infinity in \<open>simp add: to_affine_def\<close>)

lemma proj_valid_affine: "proj_is_valid C p \<longleftrightarrow> affine_is_valid C (to_affine p)"
proof (cases p rule: proj_coordinates)
  case (finite x y)
  let ?z = "proj_z p"
  have e: "(x * ?z) * (x * ?z) * (x * ?z) + curve_A C * (x * ?z) * (?z * ?z) + curve_B C * (?z * ?z * ?z) = (x * x * x + curve_A C * x + curve_B C) * (?z * ?z * ?z)"
      "(y * ?z) * (y * ?z) * ?z = (y * y) * (?z * ?z * ?z)" by (simp_all add: algebra_simps)
  have "(y * y) * (?z * ?z * ?z) = (x * x * x + curve_A C * x + curve_B C) * (?z * ?z * ?z) \<longleftrightarrow> y * y = x * x * x + curve_A C * x + curve_B C"
    using finite(1) by (subst mult_right_cancel) simp_all
  then show ?thesis using finite(1) by (simp only: proj_is_valid_def affine_is_valid_def Let_def finite(2-4) e affine_nonzero_simps simp_thms)
qed (simp add: proj_is_valid_def)

lemma to_affine_to_projective [simp]: "to_affine (to_projective p) = (if aff_zero p then affine_ZERO else p)"
  by (cases p) (simp add: to_affine_def to_projective_def affine_nonzero_def)

lemma proj_eq_affine: "proj_eq p q \<longleftrightarrow> affine_eq (to_affine p) (to_affine q)"
proof (cases p rule: proj_coordinates)
  case p: (finite x y)
  show ?thesis
  proof (cases q rule: proj_coordinates)
    case q: (finite u v)
    have "x * proj_z p * proj_z q = u * proj_z q * proj_z p \<longleftrightarrow> x = u" for x u using p(1) q(1) by (simp add: mult.assoc mult.commute)
    then show ?thesis using p(1) q(1) by (simp only: proj_eq_def affine_eq_def p(2-4) q(2-4) affine_nonzero_simps simp_thms if_False)
  next
    case at_infinity
    then show ?thesis using p(1) by (simp add: proj_eq_def affine_eq_def p(4))
  qed
next
  case at_infinity
  then show ?thesis by (cases q rule: proj_coordinates) (auto simp: proj_eq_def affine_eq_def)
qed

lemma to_affine_coords: "z \<noteq> 0 \<Longrightarrow> to_affine \<lparr>proj_x = x * z, proj_y = y * z, proj_z = z\<rparr> = affine_nonzero x y"
  by (simp add: to_affine_def Let_def)

lemma to_affine_fraction:
  "z \<noteq> 0 \<Longrightarrow> X = x * z \<Longrightarrow> Y = y * z \<Longrightarrow> to_affine \<lparr>proj_x = X, proj_y = Y, proj_z = z\<rparr> = affine_nonzero x y"
  by (simp add: to_affine_coords)

lemma to_affine_zero: "to_affine \<lparr>proj_x = X, proj_y = Y, proj_z = 0\<rparr> = affine_ZERO"
  by (simp add: to_affine_def)

text \<open>The doubling formula.\<close>

lemma proj_double_affine:
  assumes "z \<noteq> 0" "(2 :: 'f::field) \<noteq> 0" and p: "proj_x p = x * z" "proj_y p = y * z" "proj_z p = z"
  shows "to_affine (proj_double C p) = curve_sum C (affine_nonzero x y) (affine_nonzero x (y :: 'f))"
proof (cases "y = 0")
  case True
  then show ?thesis using assms(1) by (simp add: p proj_double_def Let_def curve_sum_def to_affine_zero)
next
  case False
  let ?A = "curve_A C" and ?s = "(3 * x\<^sup>2 + curve_A C) / (2 * y)"
  let ?w = "3 * (x * z * (x * z)) + ?A * (z * z)" and ?S = "2 * (y * z) * z"
  let ?r = "y * z * ?S"
  let ?b = "(x * z + ?r) * (x * z + ?r) - (x * z * (x * z) + ?r * ?r)"
  let ?h = "?w * ?w - 2 * ?b" and ?x3 = "?s\<^sup>2 - x - x"
  have y2: "2 * y \<noteq> 0" "y + y \<noteq> 0" using False assms(2) by (simp_all add: mult_2 [symmetric])
  have w: "?w = ?s * ?S" using y2 by (simp add: field_simps power2_eq_square)
  have S: "?S \<noteq> 0" using y2(1) assms(1) by simp
  have b: "?b = x * (?S * ?S)" by (simp add: algebra_simps)
  have h: "?h = ?x3 * (?S * ?S)" unfolding b w by (simp add: algebra_simps power2_eq_square)
  have x3: "?h * ?S = ?x3 * (?S * ?S * ?S)" unfolding h by (simp only: mult.assoc)
  have y3: "?w * (?b - ?h) - 2 * (?r * ?r) = (?s * (x - ?x3) - y) * (?S * ?S * ?S)"
  proof -
    have "?b - ?h = (x - ?x3) * (?S * ?S)" unfolding h unfolding b by (rule left_diff_distrib [symmetric])
    then have "?w * (?b - ?h) = (?s * ?S) * ((x - ?x3) * (?S * ?S))" using w by (rule_tac arg_cong2 [where f = "(*)"])
    also have "\<dots> = ?s * (x - ?x3) * (?S * ?S * ?S)" by (simp only: mult_ac)
    finally have "?w * (?b - ?h) = ?s * (x - ?x3) * (?S * ?S * ?S)" .
    moreover have "2 * (?r * ?r) = y * (?S * ?S * ?S)" by (simp add: algebra_simps)
    ultimately show ?thesis by (simp only: left_diff_distrib)
  qed
  have double: "proj_double C p
      = \<lparr>proj_x = ?h * ?S, proj_y = ?w * (?b - ?h) - 2 * (?r * ?r), proj_z = ?S * ?S * ?S\<rparr>"
    using assms(1) by (simp add: p proj_double_def Let_def)
  have "curve_sum C (affine_nonzero x y) (affine_nonzero x y) = affine_nonzero ?x3 (?s * (x - ?x3) - y)"
    using y2 by (simp add: curve_sum_def Let_def)
  then show ?thesis
    unfolding double by (simp only:) (rule to_affine_fraction [OF _ x3 y3], intro no_zero_divisors S)
qed

lemma two_zero_sum: "(y :: 'f::field) + y = 0 \<longleftrightarrow> 2 * y = 0"
  by (simp only: mult_2)

text \<open>The three additions: coordinates with common denominators.\<close>

lemma add_formula_affine:
  fixes C :: "'f::field curve" and d x1 x2 y1 y2 :: 'f
  assumes "d \<noteq> 0" "x1 \<noteq> x2"
  defines "u \<equiv> d * y2 - d * y1" and "v \<equiv> d * x2 - d * x1"
  defines "r \<equiv> v * v * (d * x1)" and "vvv \<equiv> v * (v * v)"
  defines "a \<equiv> u * u * d - vvv - 2 * r"
  shows "to_affine \<lparr>proj_x = v * a, proj_y = u * (r - a) - vvv * (d * y1), proj_z = vvv * d\<rparr>
    = curve_sum C (affine_nonzero x1 y1) (affine_nonzero x2 y2)"
proof -
  let ?s = "(y2 - y1) / (x2 - x1)" and ?x3 = "((y2 - y1) / (x2 - x1))\<^sup>2 - x1 - x2"
  have x: "x2 - x1 \<noteq> 0" using assms(2) by simp
  have v: "v = d * (x2 - x1)" "v \<noteq> 0" and u: "u = ?s * v" using assms(1) x by (simp_all add: u_def v_def right_diff_distrib [symmetric])
  have r: "r = x1 * (v * v * d)" by (simp add: r_def mult_ac)
  have vvv: "vvv = (x2 - x1) * (v * v * d)" by (simp add: vvv_def v(1) mult_ac)
  have a: "a = ?x3 * (v * v * d)"
    unfolding a_def unfolding u r vvv by (simp add: algebra_simps power2_eq_square)
  have x3: "v * a = ?x3 * (vvv * d)" unfolding a vvv_def by (simp only: mult_ac)
  have "u * (r - a) = ?s * (x1 - ?x3) * (vvv * d)"
  proof -
    have "r - a = (x1 - ?x3) * (v * v * d)" unfolding a unfolding r by (rule left_diff_distrib [symmetric])
    then show ?thesis unfolding u vvv_def by (simp only: mult_ac)
  qed
  moreover have "vvv * (d * y1) = y1 * (vvv * d)" by (simp only: mult_ac)
  ultimately have y3: "u * (r - a) - vvv * (d * y1) = (?s * (x1 - ?x3) - y1) * (vvv * d)"
    by (rule trans [OF arg_cong2 [where f = "(-)"] left_diff_distrib [symmetric]])
  have "to_affine \<lparr>proj_x = v * a, proj_y = u * (r - a) - vvv * (d * y1), proj_z = vvv * d\<rparr> = affine_nonzero ?x3 (?s * (x1 - ?x3) - y1)"
    by (rule to_affine_fraction [OF _ x3 y3]) (unfold vvv_def, intro no_zero_divisors v assms(1))
  also have "\<dots> = curve_sum C (affine_nonzero x1 y1) (affine_nonzero x2 y2)" using assms(2) by (simp add: curve_sum_def Let_def)
  finally show ?thesis .
qed

lemma equal_x_on_curve:
  assumes "affine_is_valid C (affine_nonzero x y1)" "affine_is_valid C (affine_nonzero x (y2 :: 'f::field))"
  shows "y1 = y2 \<or> y1 = - y2"
proof -
  have "y1 * y1 = y2 * y2" using assms by (simp add: affine_is_valid_def)
  then have "(y1 - y2) * (y1 + y2) = 0" by (simp add: algebra_simps)
  then show ?thesis by (auto simp: add_eq_0_iff2)
qed

lemma add_proj_proj_affine:
  fixes C :: "'f::field curve"
  assumes "(2 :: 'f) \<noteq> 0" "proj_is_valid C p" "proj_is_valid C q"
  shows "to_affine (add_proj_proj C p q) = curve_sum C (to_affine p) (to_affine q)"
proof (cases p rule: proj_coordinates)
  case at_infinity
  then show ?thesis by (cases q rule: proj_coordinates) (simp_all add: add_proj_proj_def curve_sum_def Let_def)
next
  case p: (finite x1 y1)
  show ?thesis
  proof (cases q rule: proj_coordinates)
    case at_infinity
    then show ?thesis using p(1) by (simp add: p(4) add_proj_proj_def curve_sum_def Let_def)
  next
    case q: (finite x2 y2)
    let ?z1 = "proj_z p" and ?z2 = "proj_z q"
    let ?d = "?z1 * ?z2"
    have valid: "affine_is_valid C (affine_nonzero x1 y1)" "affine_is_valid C (affine_nonzero x2 y2)"
      using assms(2,3) p(4) q(4) by (simp_all add: proj_valid_affine)
    have c: "x1 * ?z1 * ?z2 = ?d * x1" "y1 * ?z1 * ?z2 = ?d * y1" "x2 * ?z2 * ?z1 = ?d * x2" "y2 * ?z2 * ?z1 = ?d * y2" by (simp_all add: mult_ac)
    have neg: "- (?d * y2) = ?d * (- y2)" by (simp only: mult_minus_right)
    have d: "?d \<noteq> 0" using p(1) q(1) by simp
    have cancel: "?d * s = ?d * t \<longleftrightarrow> s = t" for s t using d by simp
    have unfold: "add_proj_proj C p q = (if x1 = x2 \<and> y1 = y2 then proj_double C p else if x1 = x2 \<and> y1 = - y2 then proj_ZERO
        else let u = ?d * y2 - ?d * y1; v = ?d * x2 - ?d * x1; r = v * v * (?d * x1); vvv = v * (v * v); a = u * u * ?d - vvv - 2 * r
          in \<lparr>proj_x = v * a, proj_y = u * (r - a) - vvv * (?d * y1), proj_z = vvv * ?d\<rparr>)"
      using p(1) q(1) d by (simp only: add_proj_proj_def Let_def p(2,3) q(2,3) c neg if_False cancel)
    consider "x1 = x2" "y1 = y2" | "x1 = x2" "y1 = - y2" "y1 \<noteq> y2" | "x1 \<noteq> x2" using equal_x_on_curve valid by blast
    then show ?thesis
    proof cases
      case 1
      then have "to_affine (add_proj_proj C p q) = to_affine (proj_double C p)" by (simp only: unfold simp_thms if_True)
      then show ?thesis using proj_double_affine [OF p(1) assms(1) p(2,3) refl] by (simp only: p(4) q(4) 1)
    next
      case 2
      then have "add_proj_proj C p q = proj_ZERO" by (simp only: unfold simp_thms if_True if_False)
      then show ?thesis using 2(1) by (simp add: p(4) q(4) 2(2) curve_sum_def proj_ZERO_def to_affine_zero)
    next
      case 3
      then show ?thesis using add_formula_affine [OF d 3, of y2 y1 C] by (simp only: unfold p(4) q(4) Let_def if_False simp_thms)
    qed
  qed
qed

text \<open>The mixed and the affine addition are the projective one on the embedded points.\<close>

lemma add_proj_affine_eq: "add_proj_affine C p q = add_proj_proj C p (to_projective q)"
  by (simp add: add_proj_affine_def add_proj_proj_def to_projective_def Let_def)

lemma add_affine_affine_eq: "add_affine_affine C p q = add_proj_proj C (to_projective p) (to_projective q)"
  by (simp add: add_affine_affine_def add_proj_proj_def to_projective_def Let_def)

lemma affine_double_sum:
  assumes "affine_double C p = Inr q"
  shows "q = curve_sum C p (p :: 'f::field affine)"
proof (cases "aff_zero p")
  case False
  let ?s = "(3 * (aff_x p * aff_x p) + curve_A C) * inverse (2 * aff_y p)"
  have q: "2 * aff_y p \<noteq> 0" "q = affine_nonzero (?s * ?s - 2 * aff_x p) (?s * (aff_x p - (?s * ?s - 2 * aff_x p)) - aff_y p)"
    using assms False by (simp_all add: affine_double_def affine_nonzero_def Let_def)
  have "aff_y p + aff_y p \<noteq> 0" using q(1) unfolding mult_2 .
  moreover have "(3 * (aff_x p)\<^sup>2 + curve_A C) / (2 * aff_y p) = ?s" by (simp only: power2_eq_square divide_inverse)
  moreover have "?s\<^sup>2 - aff_x p - aff_x p = ?s * ?s - 2 * aff_x p" by (simp only: power2_eq_square mult_2 diff_diff_add)
  ultimately show ?thesis using False by (simp only: q(2) curve_sum_def Let_def simp_thms if_False if_True)
qed (use assms in \<open>simp add: affine_double_def curve_sum_def\<close>)

subsection \<open>Staying on the curve\<close>

lemma chord_on_curve:
  fixes x1 y1 :: "'f::field"
  assumes "y1 * y1 = x1 * x1 * x1 + a * x1 + b" "y2 * y2 = x2 * x2 * x2 + a * x2 + b"
    "s * (x2 - x1) = y2 - y1" "x2 - x1 \<noteq> 0" "x3 = s * s - x1 - x2" "y3 = s * (x1 - x3) - y1"
  shows "y3 * y3 = x3 * x3 * x3 + a * x3 + b"
proof -
  have h: "x2 * x2 + x2 * x1 + x1 * x1 + a - s * (2 * y1 + s * (x2 - x1)) = 0"
  proof -
    have "(x2 - x1) * (x2 * x2 + x2 * x1 + x1 * x1 + a) = (y2 - y1) * (y2 + y1)"
    proof -
      have "(y2 - y1) * (y2 + y1) = y2 * y2 - y1 * y1" by (simp add: algebra_simps)
      then show ?thesis unfolding assms(1,2) by (simp add: algebra_simps)
    qed
    also have "y2 + y1 = 2 * y1 + s * (x2 - x1)" unfolding assms(3) by simp
    also have "y2 - y1 = (x2 - x1) * s" using assms(3) by (simp only: mult.commute)
    finally have "(x2 - x1) * (x2 * x2 + x2 * x1 + x1 * x1 + a) = (x2 - x1) * (s * (2 * y1 + s * (x2 - x1)))" by (simp only: mult.assoc)
    then show ?thesis using assms(4) by simp
  qed
  have "y3 * y3 - (x3 * x3 * x3 + a * x3 + b) = (x1 - x3) * (x3 * x3 + x3 * x1 + x1 * x1 + a - s * (2 * y1 + s * (x3 - x1)))"
  proof -
    have b: "b = y1 * y1 - (x1 * x1 * x1 + a * x1)" using assms(1) by simp
    show ?thesis unfolding assms(6) b by (simp add: algebra_simps)
  qed
  also have "x3 * x3 + x3 * x1 + x1 * x1 + a - s * (2 * y1 + s * (x3 - x1))
      = (x3 - x2) * (x3 + x2 + x1 - s * s) + (x2 * x2 + x2 * x1 + x1 * x1 + a - s * (2 * y1 + s * (x2 - x1)))"
    by (simp add: algebra_simps)
  also have "x3 + x2 + x1 - s * s = 0" unfolding assms(5) by simp
  finally show ?thesis unfolding h by simp
qed

lemma tangent_on_curve:
  fixes x1 y1 :: "'f::field"
  assumes "y1 * y1 = x1 * x1 * x1 + a * x1 + b" "s * (2 * y1) = 3 * (x1 * x1) + a" "2 * y1 \<noteq> 0"
    "x3 = s * s - x1 - x1" "y3 = s * (x1 - x3) - y1"
  shows "y3 * y3 = x3 * x3 * x3 + a * x3 + b"
  using assms(1,2,4,5) by algebra

lemma curve_sum_valid:
  fixes C :: "'f::field curve"
  assumes "(2 :: 'f) \<noteq> 0" "affine_is_valid C p" "affine_is_valid C q"
  shows "affine_is_valid C (curve_sum C p q)"
proof (cases "aff_zero p \<or> aff_zero q \<or> (aff_x p = aff_x q \<and> aff_y p + aff_y q = 0)")
  case True
  then show ?thesis using assms(2,3) by (auto simp: curve_sum_def Let_def)
next
  case False
  let ?x1 = "aff_x p" and ?y1 = "aff_y p" and ?x2 = "aff_x q" and ?y2 = "aff_y q"
  have on: "?y1 * ?y1 = ?x1 * ?x1 * ?x1 + curve_A C * ?x1 + curve_B C" "?y2 * ?y2 = ?x2 * ?x2 * ?x2 + curve_A C * ?x2 + curve_B C"
    using assms(2,3) False by (simp_all add: affine_is_valid_def)
  show ?thesis
  proof (cases "?x1 = ?x2")
    case True
    have "affine_is_valid C (affine_nonzero ?x2 ?y1)" "affine_is_valid C (affine_nonzero ?x2 ?y2)"
      using on unfolding True by (simp_all only: affine_is_valid_def affine_nonzero_simps simp_thms)
    moreover have "?y1 \<noteq> - ?y2" using False True by force
    ultimately have y2: "?y1 = ?y2" using equal_x_on_curve by blast
    have "?y1 + ?y2 \<noteq> 0" using False True by blast
    then have y: "2 * ?y1 \<noteq> 0" unfolding y2 mult_2 .
    let ?s = "(3 * ?x1\<^sup>2 + curve_A C) / (2 * ?y1)"
    have "?s * (2 * ?y1) = 3 * (?x1 * ?x1) + curve_A C" using y by (simp add: power2_eq_square)
    note valid = tangent_on_curve [OF on(1) this y refl refl]
    have "curve_sum C p q = affine_nonzero (?s * ?s - ?x1 - ?x1) (?s * (?x1 - (?s * ?s - ?x1 - ?x1)) - ?y1)"
      using False True by (simp add: curve_sum_def Let_def power2_eq_square)
    then show ?thesis using valid by (simp only: affine_is_valid_def affine_nonzero_simps simp_thms)
  next
    case xne: False
    let ?s = "(?y2 - ?y1) / (?x2 - ?x1)"
    have "?x2 - ?x1 \<noteq> 0" "?s * (?x2 - ?x1) = ?y2 - ?y1" using xne by simp_all
    note valid = chord_on_curve [OF on this(2,1) refl refl]
    have "curve_sum C p q = affine_nonzero (?s * ?s - ?x1 - ?x2) (?s * (?x1 - (?s * ?s - ?x1 - ?x2)) - ?y1)"
      using False xne by (simp add: curve_sum_def Let_def power2_eq_square)
    then show ?thesis using valid by (simp only: affine_is_valid_def affine_nonzero_simps simp_thms)
  qed
qed

lemma add_proj_proj_valid:
  fixes C :: "'f::field curve"
  assumes "(2 :: 'f) \<noteq> 0" "proj_is_valid C p" "proj_is_valid C q"
  shows "proj_is_valid C (add_proj_proj C p q)"
  using curve_sum_valid [OF assms(1), of C "to_affine p" "to_affine q"] add_proj_proj_affine [OF assms] assms(2,3)
  by (simp add: proj_valid_affine)

end
