(* ===== verification/Curve_Gadgets.thy ===== *)
theory Curve_Gadgets
  imports Nonnative Curve
begin

text \<open>
  Curve arithmetic in the circuit (\<open>gadgets/curve.rs\<close>, \<open>split_nonnative.rs\<close>,
  \<open>curve_windowed_mul.rs\<close>, \<open>curve_fixed_base.rs\<close> of \<open>plonky2_ecdsa\<close>) and the P-256 signature check
  built from it (\<open>gadgets/ecdsa.rs\<close>).  A point target is a pair of non-native targets.  Constant
  points come from the native curve; the points the code derives from a hash or draws at random
  while it builds the circuit are arguments.
\<close>

type_synonym point_target = "gf list \<times> gf list"

text \<open>A curve of the trait \<open>Curve\<close>: its constants, its fields and \<open>to_canonical_biguint\<close> of its base field.\<close>

record 'f circuit_curve =
  cc_curve :: "'f curve"
  cc_base :: nonnative_field
  cc_scalar :: nonnative_field
  cc_canonical :: "'f \<Rightarrow> nat"

definition constant_field :: "'f circuit_curve \<Rightarrow> 'f \<Rightarrow> gf list" where
  "constant_field K x = constant_nonnative (cc_canonical K x)"

definition constant_affine_point :: "'f circuit_curve \<Rightarrow> 'f affine \<Rightarrow> point_target" where
  "constant_affine_point K p = (constant_field K (aff_x p), constant_field K (aff_y p))"

definition connect_affine_point :: "point_target \<Rightarrow> point_target \<Rightarrow> bool" where
  "connect_affine_point lhs rhs \<longleftrightarrow>
     connect_nonnative (fst lhs) (fst rhs) \<and> connect_nonnative (snd lhs) (snd rhs)"

definition add_virtual_nonnative_target :: "nonnative_field \<Rightarrow> gf list circuit" where
  "add_virtual_nonnative_target FF = wires (num_nonnative_limbs FF)"

definition add_virtual_affine_point_target :: "nonnative_field \<Rightarrow> point_target circuit" where
  "add_virtual_affine_point_target FF =
     bindc (add_virtual_nonnative_target FF) (\<lambda>x. bindc (add_virtual_nonnative_target FF) (\<lambda>y. ret (x, y)))"

subsection \<open>Point operations\<close>

definition curve_assert_valid :: "nonnative_field \<Rightarrow> gf list \<Rightarrow> gf list \<Rightarrow> point_target \<Rightarrow> unit circuit" where
  "curve_assert_valid FF a b = (\<lambda>(x, y).
     bindc (mul_nonnative FF y y) (\<lambda>y_squared.
     bindc (mul_nonnative FF x x) (\<lambda>x_squared.
     bindc (mul_nonnative FF x_squared x) (\<lambda>x_cubed.
     bindc (mul_nonnative FF a x) (\<lambda>a_x.
     bindc (add_nonnative FF a_x b) (\<lambda>a_x_plus_b.
     bindc (add_nonnative FF x_cubed a_x_plus_b) (\<lambda>rhs.
       check (connect_nonnative y_squared rhs))))))))"

definition curve_neg :: "nonnative_field \<Rightarrow> point_target \<Rightarrow> point_target circuit" where
  "curve_neg FF = (\<lambda>(x, y). bindc (neg_nonnative FF y) (\<lambda>neg_y. ret (x, neg_y)))"

definition curve_conditional_neg :: "nonnative_field \<Rightarrow> point_target \<Rightarrow> gf \<Rightarrow> point_target circuit" where
  "curve_conditional_neg FF = (\<lambda>(x, y) b. bindc (nonnative_conditional_neg FF y b) (\<lambda>y'. ret (x, y')))"

definition curve_double :: "nonnative_field \<Rightarrow> gf list \<Rightarrow> point_target \<Rightarrow> point_target circuit" where
  "curve_double FF a = (\<lambda>(x, y).
     bindc (add_nonnative FF y y) (\<lambda>double_y.
     bindc (inv_nonnative FF double_y) (\<lambda>inv_double_y.
     bindc (mul_nonnative FF x x) (\<lambda>x_squared.
     bindc (add_nonnative FF x_squared x_squared) (\<lambda>double_x_squared.
     bindc (add_nonnative FF double_x_squared x_squared) (\<lambda>triple_x_squared.
     bindc (add_nonnative FF triple_x_squared a) (\<lambda>triple_xx_a.
     bindc (mul_nonnative FF triple_xx_a inv_double_y) (\<lambda>lambda.
     bindc (mul_nonnative FF lambda lambda) (\<lambda>lambda_squared.
     bindc (add_nonnative FF x x) (\<lambda>x_double.
     bindc (sub_nonnative FF lambda_squared x_double) (\<lambda>x3.
     bindc (sub_nonnative FF x x3) (\<lambda>x_diff.
     bindc (mul_nonnative FF lambda x_diff) (\<lambda>lambda_x_diff.
     bindc (sub_nonnative FF lambda_x_diff y) (\<lambda>y3.
       ret (x3, y3)))))))))))))))"

fun curve_repeated_double :: "nonnative_field \<Rightarrow> gf list \<Rightarrow> point_target \<Rightarrow> nat \<Rightarrow> point_target circuit" where
  "curve_repeated_double FF a p 0 = ret p"
| "curve_repeated_double FF a p (Suc n) = bindc (curve_double FF a p) (\<lambda>res. curve_repeated_double FF a res n)"

definition curve_add :: "nonnative_field \<Rightarrow> point_target \<Rightarrow> point_target \<Rightarrow> point_target circuit" where
  "curve_add FF = (\<lambda>(x1, y1) (x2, y2).
     bindc (sub_nonnative FF y2 y1) (\<lambda>u.
     bindc (sub_nonnative FF x2 x1) (\<lambda>v.
     bindc (inv_nonnative FF v) (\<lambda>v_inv.
     bindc (mul_nonnative FF u v_inv) (\<lambda>s.
     bindc (mul_nonnative FF s s) (\<lambda>s_squared.
     bindc (add_nonnative FF x2 x1) (\<lambda>x_sum.
     bindc (sub_nonnative FF s_squared x_sum) (\<lambda>x3.
     bindc (sub_nonnative FF x1 x3) (\<lambda>x_diff.
     bindc (mul_nonnative FF s x_diff) (\<lambda>pr.
     bindc (sub_nonnative FF pr y1) (\<lambda>y3.
       ret (x3, y3))))))))))))"

definition curve_conditional_add :: "nonnative_field \<Rightarrow> point_target \<Rightarrow> point_target \<Rightarrow> gf \<Rightarrow> point_target circuit" where
  "curve_conditional_add FF p1 p2 b =
     (let not_b = 1 - b in
      bindc (curve_add FF p1 p2) (\<lambda>sm.
      let x_if_true = mul_nonnative_by_bool (fst sm) b; y_if_true = mul_nonnative_by_bool (snd sm) b;
          x_if_false = mul_nonnative_by_bool (fst p1) not_b; y_if_false = mul_nonnative_by_bool (snd p1) not_b
      in bindc (add_nonnative FF x_if_true x_if_false) (\<lambda>x.
         bindc (add_nonnative FF y_if_true y_if_false) (\<lambda>y. ret (x, y)))))"

definition if_affine_point :: "nonnative_field \<Rightarrow> gf \<Rightarrow> point_target \<Rightarrow> point_target \<Rightarrow> point_target circuit" where
  "if_affine_point FF b p1 p2 =
     bindc (if_nonnative FF b (fst p1) (fst p2)) (\<lambda>new_x.
     bindc (if_nonnative FF b (snd p1) (snd p2)) (\<lambda>new_y. ret (new_x, new_y)))"

subsection \<open>Splitting scalars\<close>

definition split_nonnative_to_bits :: "gf list \<Rightarrow> gf list circuit" where
  "split_nonnative_to_bits x = bindc (mapc (\<lambda>limb. split_le_base 2 limb 32) x) (\<lambda>bits. ret (concat bits))"

fun combine_pairs :: "gf list \<Rightarrow> gf list" where
  "combine_pairs (a # b # rest) = (b * 4 + a) # combine_pairs rest"
| "combine_pairs _ = []"

definition split_u32_to_4_bit_limbs :: "gf \<Rightarrow> gf list circuit" where
  "split_u32_to_4_bit_limbs val = bindc (split_le_base 4 val 16) (\<lambda>two_bit_limbs. ret (combine_pairs two_bit_limbs))"

definition split_nonnative_to_4_bit_limbs :: "gf list \<Rightarrow> gf list circuit" where
  "split_nonnative_to_4_bit_limbs val = bindc (mapc split_u32_to_4_bit_limbs val) (\<lambda>limbs. ret (concat limbs))"

definition split_nonnative_to_2_bit_limbs :: "gf list \<Rightarrow> gf list circuit" where
  "split_nonnative_to_2_bit_limbs val = bindc (mapc (\<lambda>l. split_le_base 4 l 16) val) (\<lambda>limbs. ret (concat limbs))"

definition recombine_chunk :: "gf list \<Rightarrow> gf circuit" where
  "recombine_chunk chunk =
     foldc (\<lambda>combined_chunk i. bindc (mul_add_u32 combined_chunk (of_nat (2 ^ 4)) (chunk ! i)) (\<lambda>(low, high). ret low)) 0 (rev [0..<8])"

definition recombine_nonnative_4_bit_limbs :: "gf list \<Rightarrow> gf list circuit" where
  "recombine_nonnative_4_bit_limbs limbs =
     mapc recombine_chunk (map (\<lambda>i. take 8 (drop (8 * i) limbs)) [0..<div_ceil (length limbs) 8])"

subsection \<open>Scalar multiplication\<close>

definition curve_scalar_mul :: "'f::field circuit_curve \<Rightarrow> 'f affine \<Rightarrow> point_target \<Rightarrow> gf list \<Rightarrow> point_target circuit" where
  "curve_scalar_mul K rando p n =
     (let FF = cc_base K; a = constant_field K (curve_A (cc_curve K)); randot = constant_affine_point K rando in
      bindc (split_nonnative_to_bits n) (\<lambda>bits.
      bindc (add_virtual_affine_point_target FF) (\<lambda>res.
      bindc (check (connect_affine_point randot res)) (\<lambda>_.
      bindc (add_virtual_affine_point_target FF) (\<lambda>two_i_times_p.
      bindc (check (connect_affine_point p two_i_times_p)) (\<lambda>_.
      bindc (foldc (\<lambda>(res, two_i_times_p) b.
          let not_bit = 1 - b in
          bindc (curve_add FF res two_i_times_p) (\<lambda>plus.
          bindc (add_nonnative FF (mul_nonnative_by_bool (fst plus) b) (mul_nonnative_by_bool (fst res) not_bit)) (\<lambda>new_x.
          bindc (add_nonnative FF (mul_nonnative_by_bool (snd plus) b) (mul_nonnative_by_bool (snd res) not_bit)) (\<lambda>new_y.
          bindc (curve_double FF a two_i_times_p) (\<lambda>doubled.
            ret ((new_x, new_y), doubled))))))
        (res, two_i_times_p) bits) (\<lambda>(res, two_i_times_p).
      bindc (curve_neg FF randot) (\<lambda>neg_r.
        curve_add FF res neg_r))))))))"

text \<open>\<open>random_access\<close> of a builder as a circuit with the claimed element as its wire.\<close>

definition random_access_circuit :: "gf \<Rightarrow> gf list \<Rightarrow> gf circuit" where
  "random_access_circuit access_index v =
     bindc wire (\<lambda>claimed_element. bindc (check (random_access access_index v claimed_element)) (\<lambda>_. ret claimed_element))"

definition limb_or_zero :: "gf list \<Rightarrow> nat \<Rightarrow> gf" where
  "limb_or_zero limbs i = (if i < length limbs then limbs ! i else 0)"

definition random_access_curve_points :: "nonnative_field \<Rightarrow> gf \<Rightarrow> point_target list \<Rightarrow> point_target circuit" where
  "random_access_curve_points FF access_index v =
     (let num_limbs = ff_bits FF div 32 in
      bindc (mapc (\<lambda>i. random_access_circuit access_index (map (\<lambda>p. limb_or_zero (fst p) i) v)) [0..<num_limbs]) (\<lambda>x.
      bindc (mapc (\<lambda>i. random_access_circuit access_index (map (\<lambda>p. limb_or_zero (snd p) i) v)) [0..<num_limbs]) (\<lambda>y.
        ret (x, y))))"

definition WINDOW_SIZE :: nat where
  "WINDOW_SIZE = 4"

definition precompute_window :: "'f::field circuit_curve \<Rightarrow> 'f affine \<Rightarrow> point_target \<Rightarrow> point_target list circuit" where
  "precompute_window K g p =
     (let FF = cc_base K; neg = constant_affine_point K (affine_neg g) in
      bindc (foldc (\<lambda>multiples i. bindc (curve_add FF p (multiples ! (i - 1))) (\<lambda>m. ret (multiples @ [m])))
          [constant_affine_point K g] [1..<2 ^ WINDOW_SIZE]) (\<lambda>multiples.
        foldc (\<lambda>multiples i. bindc (curve_add FF neg (multiples ! i)) (\<lambda>m. ret (multiples[i := m])))
          multiples [1..<2 ^ WINDOW_SIZE]))"

text \<open>\<open>starting_point\<close> is the multiple of the generator by the hashed scalar.\<close>

definition curve_scalar_mul_windowed ::
    "'f::field circuit_curve \<Rightarrow> 'f affine \<Rightarrow> 'f projective \<Rightarrow> point_target \<Rightarrow> gf list \<Rightarrow> point_target circuit" where
  "curve_scalar_mul_windowed K rando starting_point p n =
     (let FF = cc_base K; a = constant_field K (curve_A (cc_curve K));
          starting_point_multiplied = (proj_double (cc_curve K) ^^ ff_bits (cc_scalar K)) starting_point;
          res = constant_affine_point K (to_affine starting_point) in
      bindc (precompute_window K rando p) (\<lambda>precomputation.
      bindc (split_nonnative_to_4_bit_limbs n) (\<lambda>windows.
      bindc (foldc (\<lambda>res i.
          bindc (curve_repeated_double FF a res WINDOW_SIZE) (\<lambda>res.
          let window = windows ! i in
          bindc (random_access_curve_points FF window precomputation) (\<lambda>to_add.
          let is_zero = is_equal window 0; should_add = 1 - is_zero in
            curve_conditional_add FF res to_add should_add)))
        res (rev [0..<length windows])) (\<lambda>res.
      let to_subtract = constant_affine_point K (to_affine starting_point_multiplied) in
      bindc (curve_neg FF to_subtract) (\<lambda>to_add.
        curve_add FF res to_add)))))"

text \<open>The multiples \<open>(16^i) * base\<close> and their first fifteen multiples.\<close>

fun scaled_base :: "'f::field curve \<Rightarrow> 'f affine \<Rightarrow> nat \<Rightarrow> 'f affine list res" where
  "scaled_base C acc 0 = Inr []"
| "scaled_base C acc (Suc n) =
     bind_res (affine_double C acc) (\<lambda>d1. bind_res (affine_double C d1) (\<lambda>d2.
     bind_res (affine_double C d2) (\<lambda>d3. bind_res (affine_double C d3) (\<lambda>d4.
       bind_res (scaled_base C d4 n) (\<lambda>rest. Inr (acc # rest))))))"

fun muls_point :: "'f::field curve \<Rightarrow> 'f affine \<Rightarrow> 'f affine \<Rightarrow> nat \<Rightarrow> 'f affine list" where
  "muls_point C point acc 0 = []"
| "muls_point C point acc (Suc n) = acc # muls_point C point (to_affine (add_affine_affine C point acc)) n"

definition fixed_base_curve_mul_circuit ::
    "'f::field circuit_curve \<Rightarrow> 'f affine \<Rightarrow> 'f affine \<Rightarrow> gf list \<Rightarrow> point_target circuit" where
  "fixed_base_curve_mul_circuit K rando base scalar =
     (let FF = cc_base K in
      case scaled_base (cc_curve K) base (length scalar * 8) of
        Inl e \<Rightarrow> (\<lambda>_. None)
      | Inr points \<Rightarrow>
      bindc (split_nonnative_to_4_bit_limbs scalar) (\<lambda>limbs.
      bindc (foldc (\<lambda>res (limb, point).
          let muls = map (constant_affine_point K) (tl (muls_point (cc_curve K) point affine_ZERO 16));
              muls = hd muls # muls;
              is_zero = is_equal limb 0; should_add = 1 - is_zero in
          bindc (random_access_curve_points FF limb muls) (\<lambda>r.
            curve_conditional_add FF res r should_add))
        (constant_affine_point K rando) (zip limbs points)) (\<lambda>res.
      let to_add = constant_affine_point K (affine_neg rando) in
        curve_add FF res to_add)))"

subsection \<open>The signature check\<close>

text \<open>
  \<open>rando\<close> is drawn while the window table is built, \<open>fixed\<close> and \<open>start\<close> come from a hash.  The last
  line compares \<open>r\<close> with the x-coordinate, which is not reduced modulo the group order.
\<close>

definition verify_p256_message_circuit ::
    "'f::field circuit_curve \<Rightarrow> 'f affine \<Rightarrow> 'f affine \<Rightarrow> 'f projective \<Rightarrow> gf list \<Rightarrow> gf list \<times> gf list \<Rightarrow> point_target \<Rightarrow> unit circuit" where
  "verify_p256_message_circuit K rando fixed start msg = (\<lambda>(r, s) pk.
     (let C = cc_curve K; FF = cc_base K; SF = cc_scalar K in
      bindc (curve_assert_valid FF (constant_field K (curve_A C)) (constant_field K (curve_B C)) pk) (\<lambda>_.
      bindc (inv_nonnative SF s) (\<lambda>c.
      bindc (mul_nonnative SF msg c) (\<lambda>u1.
      bindc (mul_nonnative SF r c) (\<lambda>u2.
      bindc (fixed_base_curve_mul_circuit K fixed (generator_affine C) u1) (\<lambda>point1.
      bindc (curve_scalar_mul_windowed K rando start pk u2) (\<lambda>point2.
      bindc (curve_add FF point1 point2) (\<lambda>point.
        check (connect_nonnative r (fst point)))))))))))"

end
