(* ===== verification/Curve_Windows.thy ===== *)
theory Curve_Windows
  imports Curve_Gadgets
begin

text \<open>
  The windows of the scalar multiplications: splitting non-native values into digits
  (\<open>split_nonnative.rs\<close>) and selecting a point of a table by a digit
  (\<open>random_access_curve_points\<close> of \<open>curve_windowed_mul.rs\<close>).  These circuits admit one output.
\<close>

subsection \<open>Digits\<close>

lemma scan_concat:
  assumes "b ^ k = 2 ^ 32" "0 < b"
  shows "u32s xs \<Longrightarrow> concat (map (\<lambda>x. limbs_scan b k (canon x)) xs) = limbs_scan b (k * length xs) (bigval xs)"
proof (induction xs)
  case (Cons x xs)
  then have x: "canon x < b ^ k" using assms(1) by simp
  have v: "bigval (x # xs) = canon x + b ^ k * bigval xs" by (simp only: bigval_simps assms(1))
  have "limbs_scan b k (canon x + b ^ k * bigval xs) = limbs_scan b k (canon x)"
    using limbs_scan_mod [OF assms(2), of k "canon x + b ^ k * bigval xs"] x by simp
  moreover have "(canon x + b ^ k * bigval xs) div b ^ k = bigval xs" using x assms(2) by (simp only: div_mult_self2) simp
  ultimately have "limbs_scan b (k + k * length xs) (canon x + b ^ k * bigval xs) = limbs_scan b k (canon x) @ limbs_scan b (k * length xs) (bigval xs)"
    by (simp only: limbs_scan_append)
  then show ?case using Cons by (simp only: v) simp
qed simp

lemma combine_pairs_scan: "combine_pairs (limbs_scan 4 (2 * n) v) = limbs_scan 16 n v"
proof (induction n arbitrary: v)
  case (Suc n)
  have "(of_nat (v div 4 mod 4) * 4 + of_nat (v mod 4) :: gf) = of_nat (v div 4 mod 4 * 4 + v mod 4)" by simp
  also have "v div 4 mod 4 * 4 + v mod 4 = v mod 16" using mod_mult2_eq [of v 4 4] by simp
  finally show ?case using Suc [of "v div 16"] by (simp add: div_mult2_eq [symmetric])
qed simp

lemma split_digits_exactly:
  assumes "u32s xs" "\<And>x. x \<in> set xs \<Longrightarrow> exactly (f x) (limbs_scan b k (canon x))" "b ^ k = 2 ^ 32" "0 < b"
  shows "exactly (bindc (mapc f xs) (\<lambda>ls. ret (concat ls))) (limbs_scan b (k * length xs) (bigval xs))"
  by (rule exactly_bindc [OF exactly_mapc exactly_ret], rule assms(2), assumption, rule scan_concat [OF assms(3,4,1)])

lemma u32s_member: "u32s xs \<Longrightarrow> x \<in> set xs \<Longrightarrow> canon x < 2 ^ 32"
  by (simp add: u32s_def)

lemma split_nonnative_to_bits_exactly:
  assumes "u32s xs"
  shows "exactly (split_nonnative_to_bits xs) (limbs_scan 2 (32 * length xs) (bigval xs))"
  unfolding split_nonnative_to_bits_def
  by (rule split_digits_exactly [OF assms split_le_base_exactly]) (use u32s_member [OF assms] in simp_all)

lemma split_u32_to_4_bit_limbs_exactly:
  assumes "canon x < 2 ^ 32"
  shows "exactly (split_u32_to_4_bit_limbs x) (limbs_scan 16 8 (canon x))"
proof -
  have "exactly (split_le_base 4 x 16) (limbs_scan 4 16 (canon x))" using assms by (intro split_le_base_exactly) simp_all
  then show ?thesis
    unfolding split_u32_to_4_bit_limbs_def
    by (rule exactly_bindc [OF _ exactly_ret]) (use combine_pairs_scan [of 8 "canon x"] in simp)
qed

lemma split_nonnative_to_4_bit_limbs_exactly:
  assumes "u32s xs"
  shows "exactly (split_nonnative_to_4_bit_limbs xs) (limbs_scan 16 (8 * length xs) (bigval xs))"
  unfolding split_nonnative_to_4_bit_limbs_def
  by (rule split_digits_exactly [OF assms split_u32_to_4_bit_limbs_exactly]) (use u32s_member [OF assms] in simp_all)

lemma split_nonnative_to_2_bit_limbs_exactly:
  assumes "u32s xs"
  shows "exactly (split_nonnative_to_2_bit_limbs xs) (limbs_scan 4 (16 * length xs) (bigval xs))"
  unfolding split_nonnative_to_2_bit_limbs_def
  by (rule split_digits_exactly [OF assms split_le_base_exactly]) (use u32s_member [OF assms] in simp_all)

text \<open>Recombination: Horner's rule in the low words.\<close>

lemma recombine_chunk_exactly:
  assumes "v < 2 ^ 32"
  shows "exactly (recombine_chunk (limbs_scan 16 8 v)) (of_nat v)"
proof -
  let ?f = "\<lambda>combined_chunk i. bindc (mul_add_u32 combined_chunk (of_nat (2 ^ 4)) (limbs_scan 16 8 v ! i)) (\<lambda>(low, high). ret low)"
  have nth: "limbs_scan 16 n v ! i = of_nat (v div 16 ^ i mod 16)" if "i < n" for n i and v :: nat
    using that by (induction n arbitrary: i v) (auto simp: nth_Cons div_mult2_eq split: nat.splits)
  have step: "exactly (?f (of_nat (v div 16 ^ Suc i)) i) (of_nat (v div 16 ^ i))" if i: "i < 8" for i
  proof -
    have less: "v div 16 ^ i < 2 ^ 32" using div_le_dividend [of v "16 ^ i"] assms by (rule le_less_trans)
    have "of_nat (v div 16 ^ Suc i) * of_nat (2 ^ 4) + limbs_scan 16 8 v ! i = (of_nat (v div 16 ^ i div 16 * 16 + v div 16 ^ i mod 16) :: gf)"
      by (simp only: nth [OF i] power_Suc2 div_mult2_eq of_nat_add of_nat_mult) simp
    also have "v div 16 ^ i div 16 * 16 + v div 16 ^ i mod 16 = v div 16 ^ i" by (rule div_mult_mod_eq)
    finally have "halves (of_nat (v div 16 ^ Suc i) * of_nat (2 ^ 4) + limbs_scan 16 8 v ! i) = (of_nat (v div 16 ^ i), of_nat 0)"
      using less halves_of_nat [of "v div 16 ^ i"] by simp
    then show ?thesis by (rule exactly_bindc [OF mul_add_u32_exactly]) (simp only: prod.case exactly_ret)
  qed
  have "exactly (foldc ?f (of_nat (v div 16 ^ n)) (rev [0..<n])) (of_nat v)" if "n \<le> 8" for n
    using that
  proof (induction n)
    case (Suc n)
    then show ?case using step [of n] by (auto intro: exactly_bindc)
  qed (simp add: exactly_ret)
  then show ?thesis unfolding recombine_chunk_def using assms by (force dest: meta_spec [of _ 8])
qed

lemma take_drop_scan:
  "8 * Suc i \<le> 8 * k \<Longrightarrow> take 8 (drop (8 * i) (limbs_scan 16 (8 * k) v)) = limbs_scan 16 8 (v div 2 ^ (32 * i) mod 2 ^ 32)"
proof -
  assume "8 * Suc i \<le> 8 * k"
  then obtain r where k: "8 * k = 8 * i + (8 + r)" by (metis add.assoc le_Suc_ex mult_Suc_right add.commute)
  have "(16 :: nat) ^ (8 * i) = 2 ^ (32 * i)" by (simp add: power_mult)
  then show ?thesis
    using limbs_scan_mod [of 16 8 "v div 2 ^ (32 * i)"] by (simp add: k limbs_scan_append)
qed

lemma recombine_nonnative_4_bit_limbs_exactly:
  "exactly (recombine_nonnative_4_bit_limbs (limbs_scan 16 (8 * k) v)) (biglimbs k v)"
proof -
  let ?c = "\<lambda>i. limbs_scan 16 8 (v div 2 ^ (32 * i) mod 2 ^ 32)"
  have "div_ceil (8 * k) 8 = k" by (simp add: div_ceil_def)
  moreover have "map (\<lambda>i. take 8 (drop (8 * i) (limbs_scan 16 (8 * k) v))) [0..<k] = map ?c [0..<k]"
    by (rule map_cong [OF refl], rule take_drop_scan) simp
  ultimately have "recombine_nonnative_4_bit_limbs (limbs_scan 16 (8 * k) v) = mapc recombine_chunk (map ?c [0..<k])"
    by (simp only: recombine_nonnative_4_bit_limbs_def length_limbs_scan)
  moreover have "exactly (mapc recombine_chunk (map ?c is)) (map (\<lambda>i. of_nat (v div 2 ^ (32 * i) mod 2 ^ 32)) is)" for "is"
  proof (induction "is")
    case (Cons i "is")
    have "exactly (recombine_chunk (?c i)) (of_nat (v div 2 ^ (32 * i) mod 2 ^ 32))" by (rule recombine_chunk_exactly) simp
    then show ?case using Cons unfolding list.map mapc.simps by (blast intro: exactly_bindc exactly_ret)
  qed (simp add: exactly_ret)
  ultimately show ?thesis by (simp only: biglimbs_def limbs_of_def map_map comp_def)
qed

subsection \<open>Selecting a point\<close>

lemma random_access_circuit_exactly:
  assumes "canon w < length v" "next_power_of_two (length v) = length v" "1 < length v"
  shows "exactly (random_access_circuit w v) (v ! canon w)"
  unfolding exactly_def random_access_circuit_def
proof
  show "yields (bindc wire (\<lambda>claimed_element. bindc (check (random_access w v claimed_element)) (\<lambda>_. ret claimed_element))) (\<lambda>out. out = v ! canon w)"
    using random_access_power_of_two [OF _ assms(2,3)] by (auto simp: yields_def bindc_Some)
  show "reaches (bindc wire (\<lambda>claimed_element. bindc (check (random_access w v claimed_element)) (\<lambda>_. ret claimed_element))) (v ! canon w)"
    by (rule reaches_bindc [OF reaches_wire], rule reaches_bindc [OF reaches_check [OF random_access_fills [OF assms(1)]]], rule reaches_ret)
qed

definition padded_point :: "nat \<Rightarrow> point_target \<Rightarrow> point_target" where
  "padded_point k p = (map (limb_or_zero (fst p)) [0..<k], map (limb_or_zero (snd p)) [0..<k])"

lemma random_access_curve_points_exactly:
  assumes "canon w < 16" "length table = 16"
  shows "exactly (random_access_curve_points FF w table) (padded_point (ff_bits FF div 32) (table ! canon w))"
proof -
  have p: "next_power_of_two 16 = 16" by (simp add: next_power_of_two.simps)
  have col: "exactly (random_access_circuit w (map (\<lambda>p. limb_or_zero (f p) i) table)) (limb_or_zero (f (table ! canon w)) i)" for f :: "point_target \<Rightarrow> gf list" and i
    using random_access_circuit_exactly [of w "map (\<lambda>p. limb_or_zero (f p) i) table"] assms p by simp
  show ?thesis
    unfolding random_access_curve_points_def Let_def padded_point_def
    by (rule exactly_bindc [OF exactly_mapc], rule col, rule exactly_bindc [OF exactly_mapc], rule col, simp add: exactly_ret)
qed

end
