(* ===== verification/Nonnative_Field.thy ===== *)
theory Nonnative_Field
  imports Curve_Gadgets
begin

text \<open>
  The non-native operations against the residues they stand for.  The locale states what the
  gadgets use of the trait \<open>PrimeField\<close> (\<open>plonky2/field/src/types.rs\<close>): every element has a
  canonical representative below the order, and these representatives add and multiply modulo the
  order.  Nothing needs the order to be prime; where the code inverts, the lemma names an inverse.
  Within the locale each operation, and each operation on curve points, reaches the limbs of the
  expected result: the constraints can be met on honest values.  It is interpreted by the integers
  modulo the base field order and modulo the group order of P-256, the two fields \<open>src/\<close> builds
  these gadgets for.
\<close>

locale canonical_residues =
  fixes FF :: nonnative_field and canonical :: "'f::comm_ring_1 \<Rightarrow> nat"
  assumes fits: "nonnative_fits FF"
    and canonical_less: "canonical x < ff_order FF"
    and canonical_add: "canonical (x + y) = (canonical x + canonical y) mod ff_order FF"
    and canonical_mult: "canonical (x * y) = canonical x * canonical y mod ff_order FF"
    and canonical_one: "canonical 1 = 1"
begin

abbreviation limbs :: nat where
  "limbs \<equiv> num_nonnative_limbs FF"

definition repr :: "'f \<Rightarrow> gf list" where
  "repr x = biglimbs limbs (canonical x)"

definition reads :: "gf list \<Rightarrow> 'f \<Rightarrow> bool" where
  "reads a x \<longleftrightarrow> u32s a \<and> length a \<le> limbs \<and> bigval a = canonical x"

lemma order: "1 < ff_order FF" "ff_order FF < 2 ^ (32 * limbs)" "limbs \<le> 8"
  using fits by (simp_all add: nonnative_fits_def)

lemma canonical_fits: "canonical x < 2 ^ (32 * limbs)"
  using canonical_less order(2) by (rule less_trans)

lemma canonical_zero [simp]: "canonical 0 = 0"
proof -
  have "canonical 0 = (canonical 0 + canonical 0) mod ff_order FF" using canonical_add [of 0 0] by simp
  then show ?thesis using canonical_less [of 0] by (auto simp: mod_if split: if_splits)
qed

lemma canonical_diff: "canonical (x - y) + canonical y = canonical x \<or> canonical (x - y) + canonical y = canonical x + ff_order FF"
proof -
  have "canonical x = (canonical (x - y) + canonical y) mod ff_order FF" using canonical_add [of "x - y" y] by simp
  then show ?thesis using canonical_less [of "x - y"] canonical_less [of y] by (auto simp: mod_if split: if_splits)
qed

lemma reads_repr [simp]: "reads (repr x) x"
  using canonical_fits by (simp add: reads_def repr_def bigval_biglimbs_less)

lemma length_repr [simp]: "length (repr x) = limbs"
  by (simp add: repr_def)

lemma reads_constant: "reads (constant_nonnative (canonical x)) x"
  using length_to_u32_digits [of "canonical x" limbs] canonical_fits
  by (simp add: reads_def constant_nonnative_def) (simp add: constant_biguint_def)

lemma repr_facts: "u32s (repr x)" "bigval (repr x) = canonical x"
  using reads_repr [of x] by (simp_all only: reads_def)

text \<open>A masked operand reads as the field element or as zero.\<close>

lemma reads_by_bool:
  assumes "reads a x"
  shows "reads (mul_nonnative_by_bool a (of_bool t)) (if t then x else 0)"
    "reads (mul_nonnative_by_bool a (1 - of_bool t)) (if t then 0 else x)"
proof -
  show *: "reads (mul_nonnative_by_bool a (of_bool t)) (if t then x else 0)" for t
    using assms mul_by_bool_val [of a t] by (simp add: reads_def mul_nonnative_by_bool_def mul_biguint_by_bool_def)
  have "(1 - of_bool t :: gf) = of_bool (\<not> t)" by simp
  then show "reads (mul_nonnative_by_bool a (1 - of_bool t)) (if t then 0 else x)" using * [of "\<not> t"] by (cases t) simp_all
qed

subsection \<open>Field operations\<close>

lemma add_reaches:
  assumes "reads a x" "reads b y"
  shows "reaches (add_nonnative FF a b) (repr (x + y))"
proof -
  define t where "t \<longleftrightarrow> ff_order FF \<le> canonical x + canonical y"
  have "canonical x + canonical y = canonical (x + y) + of_bool t * ff_order FF"
    unfolding canonical_add using canonical_less [of x] canonical_less [of y] by (auto simp: t_def mod_if)
  moreover have "canonical (x + y) \<le> ff_order FF" using canonical_less by (rule less_imp_le)
  ultimately show ?thesis
    using assms by (intro add_nonnative_reaches [OF fits, where t = t]) (simp_all only: reads_def repr_facts length_repr)
qed

lemma sub_reaches:
  assumes "reads a x" "reads b y"
  shows "reaches (sub_nonnative FF a b) (repr (x - y))"
  using assms canonical_diff [of x y]
  by (intro outputs_reaches [OF sub_nonnative_outputs [OF fits]]) (auto simp: reads_def sub_ok_def repr_facts)

lemma neg_reaches: "reads a x \<Longrightarrow> reaches (neg_nonnative FF a) (repr (- x))"
  using sub_reaches [of "constant_biguint 0" 0 a x] reads_constant [of 0]
  by (simp add: neg_nonnative_def constant_nonnative_def)

lemma mul_reaches:
  assumes "reads a x" "reads b y" "length a = limbs \<or> length b = limbs"
  shows "reaches (mul_nonnative FF a b) (repr (x * y))"
proof -
  note m = modulus_facts [OF fits]
  let ?l = "length a + length b - length (modulus_limbs FF)"
  define k where "k = canonical x * canonical y div ff_order FF"
  have le: "k \<le> canonical x" "k \<le> canonical y"
    using canonical_less [of x] canonical_less [of y] order(1) unfolding k_def
    by (auto intro: div_le_mono [of _ "canonical x * ff_order FF" "ff_order FF", THEN order_trans]
        div_le_mono [of _ "ff_order FF * canonical y" "ff_order FF", THEN order_trans])
  have "k < 2 ^ (32 * length a) \<and> k < 2 ^ (32 * length b)"
    using assms(1,2) le bigval_less [of a] bigval_less [of b] by (auto simp: reads_def intro: le_less_trans)
  then have "k < 2 ^ (32 * ?l)"
  proof -
    assume "k < 2 ^ (32 * length a) \<and> k < 2 ^ (32 * length b)"
    moreover have "length a \<le> ?l \<or> length b \<le> ?l" using assms(3) m(3) by auto
    ultimately show ?thesis by (meson less_le_trans mult_le_mono2 one_le_numeral power_increasing)
  qed
  moreover have "canonical x * canonical y = canonical (x * y) + ff_order FF * k" by (simp only: canonical_mult k_def mod_mult_div_eq)
  moreover have "length (modulus_limbs FF) \<le> length a + length b" using assms(3) m(3) by auto
  ultimately have "mul_ok FF a b (repr (x * y))"
    using assms(1,2) unfolding mul_ok_def reads_def by (auto simp only: repr_facts length_repr)
  then show ?thesis
    using assms(1,2) order(3) by (intro outputs_reaches [OF mul_nonnative_outputs [OF fits]]) (auto simp: reads_def)
qed

lemma inv_reaches:
  assumes "reads a x" "length a = limbs" "canonical (x * y) = 1"
  shows "reaches (inv_nonnative FF a) (repr y)"
proof -
  note m = modulus_facts [OF fits]
  define k where "k = canonical x * canonical y div ff_order FF"
  have "canonical x * canonical y mod ff_order FF = 1" using canonical_mult [of x y] assms(3) by simp
  then have one: "canonical x * canonical y = ff_order FF * k + 1" by (metis k_def mult_div_mod_eq)
  have "k \<le> canonical x"
    using canonical_less [of y] order(1) unfolding k_def
    by (auto intro: div_le_mono [of _ "canonical x * ff_order FF" "ff_order FF", THEN order_trans])
  then have k: "k < 2 ^ (32 * limbs)" using canonical_fits by (rule le_less_trans)
  have "limb_products a (repr y) = limb_products (modulus_limbs FF) (biglimbs limbs k) + 1"
    using assms(1) one by (simp only: reads_def limb_products_val repr_facts m(1,2) u32s_biglimbs bigval_biglimbs_less [OF k])
  then have "inv_ok FF a (repr y)"
    unfolding inv_ok_def assms(2) by (intro conjI exI [of _ "biglimbs limbs k"]) (simp_all only: length_repr length_biglimbs)
  then show ?thesis using assms(2) order(3) by (intro outputs_reaches [OF inv_nonnative_outputs [OF fits]]) simp_all
qed

lemma if_reaches:
  assumes "reads a x" "reads b y"
  shows "reaches (if_nonnative FF (of_bool t) a b) (repr (if t then x else y))"
proof -
  have "reaches (if_nonnative FF (of_bool t) a b) (repr ((if t then x else 0) + (if t then 0 else y)))"
    unfolding if_nonnative_def Let_def by (rule add_reaches [OF reads_by_bool(1) [OF assms(1)] reads_by_bool(2) [OF assms(2)]])
  then show ?thesis by (cases t) simp_all
qed

lemma conditional_neg_reaches:
  assumes "reads a x"
  shows "reaches (nonnative_conditional_neg FF a (of_bool t)) (repr (if t then - x else x))"
proof -
  have "reaches (nonnative_conditional_neg FF a (of_bool t)) (repr ((if t then - x else 0) + (if t then 0 else x)))"
    unfolding nonnative_conditional_neg_def Let_def
    by (rule reaches_bindc [OF neg_reaches [OF assms]], rule add_reaches [OF reads_by_bool(1) [OF reads_repr] reads_by_bool(2) [OF assms]])
  then show ?thesis by (cases t) simp_all
qed

subsection \<open>Point operations\<close>

lemma connect_repr: "canonical x = canonical y \<Longrightarrow> connect_nonnative (repr x) (repr y)"
  by (simp add: connect_nonnative_def connect_biguint_iff repr_facts)

text \<open>A pair of targets reads as a point.\<close>

definition reads_point :: "point_target \<Rightarrow> 'f \<times> 'f \<Rightarrow> bool" where
  "reads_point t p \<longleftrightarrow> reads (fst t) (fst p) \<and> reads (snd t) (snd p)"

definition repr_point :: "'f \<times> 'f \<Rightarrow> point_target" where
  "repr_point p = (repr (fst p), repr (snd p))"

lemma reads_repr_point [simp]: "reads_point (repr_point p) p"
  by (simp add: reads_point_def repr_point_def)

lemma reads_pointE:
  assumes "reads_point t (x, y)"
  obtains tx ty where "t = (tx, ty)" "reads tx x" "reads ty y"
  using assms by (cases t) (auto simp: reads_point_def)

text \<open>The chord through two points, given an inverse \<open>i\<close>, and the tangent, given an inverse \<open>j\<close>.\<close>

definition chord :: "'f \<Rightarrow> 'f \<times> 'f \<Rightarrow> 'f \<times> 'f \<Rightarrow> 'f \<times> 'f" where
  "chord i p q =
     (let s = (snd q - snd p) * i; x3 = s * s - (fst q + fst p) in (x3, s * (fst p - x3) - snd p))"

definition tangent :: "'f \<Rightarrow> 'f \<Rightarrow> 'f \<times> 'f \<Rightarrow> 'f \<times> 'f" where
  "tangent a j p =
     (let s = (fst p * fst p + fst p * fst p + fst p * fst p + a) * j; x3 = s * s - (fst p + fst p)
      in (x3, s * (fst p - x3) - snd p))"

lemma curve_neg_reaches:
  assumes "reads_point t (x, y)"
  shows "reaches (curve_neg FF t) (fst t, repr (- y))"
  using assms unfolding curve_neg_def
  by (elim reads_pointE) (simp, rule reaches_bindc [OF neg_reaches], assumption, rule reaches_ret)

lemma curve_conditional_neg_reaches:
  assumes "reads_point t (x, y)"
  shows "reaches (curve_conditional_neg FF t (of_bool b)) (fst t, repr (if b then - y else y))"
  using assms unfolding curve_conditional_neg_def
  by (elim reads_pointE) (simp only: prod.case fst_conv, rule reaches_bindc [OF conditional_neg_reaches], assumption, rule reaches_ret)

lemma curve_assert_valid_reaches:
  assumes "canonical (y * y) = canonical (x * x * x + (a * x + b))"
  shows "reaches (curve_assert_valid FF (constant_nonnative (canonical a)) (constant_nonnative (canonical b)) (repr_point (x, y))) ()"
  unfolding curve_assert_valid_def repr_point_def prod.case fst_conv snd_conv
  by (intro reaches_bindc [OF mul_reaches [of _ y _ y]] reaches_bindc [OF mul_reaches [of _ x _ x]] reaches_bindc [OF mul_reaches [of _ "x * x" _ x]]
      reaches_bindc [OF mul_reaches [of _ a _ x]] reaches_bindc [OF add_reaches [of _ "a * x" _ b]]
      reaches_bindc [OF add_reaches [of _ "x * x * x" _ "a * x + b"]] reaches_check connect_repr [OF assms])
    (simp_all add: reads_constant)

lemma curve_add_reaches:
  assumes "reads_point s (x1, y1)" "reads_point t (x2, y2)" "canonical ((x2 - x1) * i) = 1"
  shows "reaches (curve_add FF s t) (repr_point (chord i (x1, y1) (x2, y2)))"
proof -
  obtain sx sy where s: "s = (sx, sy)" "reads sx x1" "reads sy y1" using assms(1) by (rule reads_pointE)
  obtain tx ty where t: "t = (tx, ty)" "reads tx x2" "reads ty y2" using assms(2) by (rule reads_pointE)
  show ?thesis
    unfolding curve_add_def repr_point_def s(1) t(1) prod.case chord_def Let_def fst_conv snd_conv
    by (rule reaches_bindc [OF sub_reaches [OF t(3) s(3)]], rule reaches_bindc [OF sub_reaches [OF t(2) s(2)]],
        rule reaches_bindc [OF inv_reaches [OF reads_repr length_repr assms(3)]], rule reaches_bindc [OF mul_reaches [OF reads_repr reads_repr]], simp,
        rule reaches_bindc [OF mul_reaches [OF reads_repr reads_repr]], simp, rule reaches_bindc [OF add_reaches [OF t(2) s(2)]],
        rule reaches_bindc [OF sub_reaches [OF reads_repr reads_repr]], rule reaches_bindc [OF sub_reaches [OF s(2) reads_repr]],
        rule reaches_bindc [OF mul_reaches [OF reads_repr reads_repr]], simp, rule reaches_bindc [OF sub_reaches [OF reads_repr s(3)]],
        rule reaches_ret)
qed

lemma curve_double_reaches:
  assumes "reads a A" "reads_point t (x, y)" "length (fst t) = limbs" "canonical ((y + y) * j) = 1"
  shows "reaches (curve_double FF a t) (repr_point (tangent A j (x, y)))"
proof -
  obtain tx ty where t: "t = (tx, ty)" "reads tx x" "reads ty y" "length tx = limbs"
    using assms(2,3) by (auto elim: reads_pointE)
  show ?thesis
    unfolding curve_double_def repr_point_def t(1) prod.case tangent_def Let_def fst_conv snd_conv
    by (rule reaches_bindc [OF add_reaches [OF t(3) t(3)]], rule reaches_bindc [OF inv_reaches [OF reads_repr length_repr assms(4)]],
        rule reaches_bindc [OF mul_reaches [OF t(2) t(2)]], use t(4) in simp, rule reaches_bindc [OF add_reaches [OF reads_repr reads_repr]],
        rule reaches_bindc [OF add_reaches [OF reads_repr reads_repr]], rule reaches_bindc [OF add_reaches [OF reads_repr assms(1)]],
        rule reaches_bindc [OF mul_reaches [OF reads_repr reads_repr]], simp, rule reaches_bindc [OF mul_reaches [OF reads_repr reads_repr]], simp,
        rule reaches_bindc [OF add_reaches [OF t(2) t(2)]], rule reaches_bindc [OF sub_reaches [OF reads_repr reads_repr]],
        rule reaches_bindc [OF sub_reaches [OF t(2) reads_repr]], rule reaches_bindc [OF mul_reaches [OF reads_repr reads_repr]], simp,
        rule reaches_bindc [OF sub_reaches [OF reads_repr t(3)]], rule reaches_ret)
qed

lemma curve_conditional_add_reaches:
  assumes "reads_point s (x1, y1)" "reads_point t (x2, y2)" "canonical ((x2 - x1) * i) = 1"
  shows "reaches (curve_conditional_add FF s t (of_bool b)) (repr_point (if b then chord i (x1, y1) (x2, y2) else (x1, y1)))"
proof -
  have sel: "reaches (add_nonnative FF (mul_nonnative_by_bool u (of_bool b)) (mul_nonnative_by_bool v (1 - of_bool b))) (repr (if b then x else y))"
    if "reads u x" "reads v y" for u v x y
    using if_reaches [OF that, of b] by (simp add: if_nonnative_def Let_def)
  obtain sx sy where s: "s = (sx, sy)" "reads sx x1" "reads sy y1" using assms(1) by (rule reads_pointE)
  have r: "repr_point (if b then chord i (x1, y1) (x2, y2) else (x1, y1))
      = (repr (if b then fst (chord i (x1, y1) (x2, y2)) else x1), repr (if b then snd (chord i (x1, y1) (x2, y2)) else y1))"
    by (simp add: repr_point_def)
  show ?thesis
    unfolding curve_conditional_add_def Let_def r
    by (rule reaches_bindc [OF curve_add_reaches [OF assms]], unfold repr_point_def s(1) fst_conv snd_conv,
        rule reaches_bindc [OF sel [OF reads_repr s(2)]], rule reaches_bindc [OF sel [OF reads_repr s(3)]], rule reaches_ret)
qed

lemma if_affine_point_reaches:
  assumes "reads_point s (x1, y1)" "reads_point t (x2, y2)"
  shows "reaches (if_affine_point FF (of_bool b) s t) (repr_point (if b then (x1, y1) else (x2, y2)))"
proof -
  obtain sx sy where s: "s = (sx, sy)" "reads sx x1" "reads sy y1" using assms(1) by (rule reads_pointE)
  obtain tx ty where t: "t = (tx, ty)" "reads tx x2" "reads ty y2" using assms(2) by (rule reads_pointE)
  have r: "repr_point (if b then (x1, y1) else (x2, y2)) = (repr (if b then x1 else x2), repr (if b then y1 else y2))"
    by (simp add: repr_point_def)
  show ?thesis
    unfolding if_affine_point_def s(1) t(1) fst_conv snd_conv r
    by (rule reaches_bindc [OF if_reaches [OF s(2) t(2)]], rule reaches_bindc [OF if_reaches [OF s(3) t(3)]], rule reaches_ret)
qed

end

subsection \<open>The fields of P-256\<close>

text \<open>The residues of the integers modulo an order.\<close>

definition residue :: "nat \<Rightarrow> int \<Rightarrow> nat" where
  "residue n x = nat (x mod int n)"

lemma residue_laws:
  assumes "1 < n"
  shows "residue n x < n" "residue n (x + y) = (residue n x + residue n y) mod n"
    "residue n (x * y) = residue n x * residue n y mod n" "residue n 1 = 1"
proof -
  have r: "int (residue n z) = z mod int n" for z using assms by (simp add: residue_def)
  have "int (residue n x) < int n" using assms by (simp add: r)
  then show "residue n x < n" by simp
  have "int (residue n (x + y)) = int ((residue n x + residue n y) mod n)" by (simp add: r zmod_int mod_simps)
  then show "residue n (x + y) = (residue n x + residue n y) mod n" by (simp only: of_nat_eq_iff)
  have "int (residue n (x * y)) = int (residue n x * residue n y mod n)" by (simp add: r zmod_int mod_simps)
  then show "residue n (x * y) = residue n x * residue n y mod n" by (simp only: of_nat_eq_iff)
  show "residue n 1 = 1" using assms by (simp add: residue_def)
qed

lemma P256_orders_large: "1 < P256_BASE_ORDER" "1 < P256_SCALAR_ORDER"
  by (simp_all add: P256_BASE_ORDER_def P256_SCALAR_ORDER_def)

interpretation p256_base: canonical_residues P256Base "residue P256_BASE_ORDER"
proof -
  have o: "ff_order P256Base = P256_BASE_ORDER" by (simp add: P256Base_def)
  show "canonical_residues P256Base (residue P256_BASE_ORDER)"
    by (unfold_locales, unfold o) (rule P256_fits residue_laws [OF P256_orders_large(1)])+
qed

interpretation p256_scalar: canonical_residues P256Scalar "residue P256_SCALAR_ORDER"
proof -
  have o: "ff_order P256Scalar = P256_SCALAR_ORDER" by (simp add: P256Scalar_def)
  show "canonical_residues P256Scalar (residue P256_SCALAR_ORDER)"
    by (unfold_locales, unfold o) (rule P256_fits residue_laws [OF P256_orders_large(2)])+
qed

end
