(* ===== verification/P256_Curve.thy ===== *)
theory P256_Curve
  imports Curve_Gadgets
begin

text \<open>
  The constants of P-256 (\<open>plonky2_ecdsa/src/curve/p256.rs\<close>) and what \<open>curve_assert_valid\<close> does on
  that curve with the unconstrained overflow flag of \<open>add_nonnative\<close>.
\<close>

subsection \<open>The curve\<close>

definition P256_A :: nat where
  "P256_A = 0xFFFFFFFF00000001000000000000000000000000FFFFFFFFFFFFFFFFFFFFFFFC"

definition P256_B :: nat where
  "P256_B = 0x5AC635D8AA3A93E7B3EBBD55769886BC651D06B0CC53B0F63BCE3C3E27D2604B"

lemma P256_A_is_minus_3: "(P256_A + 3) mod P256_BASE_ORDER = 0"
  by (simp add: P256_A_def P256_BASE_ORDER_def)

subsection \<open>Operations on given values\<close>

lemma P256_Base_shape:
  "ff_order P256Base = P256_BASE_ORDER" "num_nonnative_limbs P256Base = 8" "length (modulus_limbs P256Base) = 8"
  by (simp_all add: P256_modulus_limbs) (simp_all add: num_nonnative_limbs_def P256Base_def div_ceil_def)

lemma mul_nonnative_value:
  assumes "a < 2 ^ (32 * 8)" "b < 2 ^ (32 * 8)" "v < 2 ^ (32 * 8)" "a * b = v + P256_BASE_ORDER * k" "k < 2 ^ (32 * 8)"
  shows "reaches (mul_nonnative P256Base (biglimbs 8 a) (biglimbs 8 b)) (biglimbs 8 v)"
proof -
  have "mul_ok P256Base (biglimbs 8 a) (biglimbs 8 b) (biglimbs 8 v)"
    unfolding mul_ok_def P256_Base_shape bigval_biglimbs_less [OF assms(1)] bigval_biglimbs_less [OF assms(2)] bigval_biglimbs_less [OF assms(3)]
    by (intro conjI exI [of _ k] length_biglimbs u32s_biglimbs assms(4)) (use assms(5) in \<open>simp_all only: length_biglimbs\<close>, simp_all)
  then show ?thesis by (intro outputs_reaches [OF mul_nonnative_outputs [OF P256_fits(1)]]) simp_all
qed

lemma constant_8: "2 ^ (32 * 7) \<le> v \<Longrightarrow> v < 2 ^ (32 * 8) \<Longrightarrow> constant_nonnative v = biglimbs 8 v"
proof -
  assume v: "2 ^ (32 * 7) \<le> v" "v < 2 ^ (32 * 8)"
  have "length (constant_biguint v) \<le> 8" "\<not> length (constant_biguint v) \<le> 7"
    using v length_to_u32_digits [of v 8] length_to_u32_digits [of v 7] by (simp_all add: constant_biguint_def del: power_numeral)
  then have "length (constant_biguint v) = 8" by simp
  then show ?thesis using biglimbs_bigval [OF u32s_constant, of v] by (simp add: constant_nonnative_def)
qed

subsection \<open>A point outside the curve\<close>

text \<open>
  The sum $x^3 + (ax + b)$ of the validity test is an \<open>add_nonnative\<close>, which also accepts a sum that
  is too large by \<open>wrong_by\<close>.  For \<open>x = 2\<close> the forged right-hand side is a square.
\<close>

definition off_curve_y :: nat where
  "off_curve_y = 0xE7C09CBB12A7E1D8582F768018EA0D48F526BA041AEBBA590530C2803E08B45B"

lemma off_curve_square:
  "off_curve_y * off_curve_y = P256_B + 2 + wrong_by + P256_BASE_ORDER * 0xD1CD2BC5E608A89D25C51349B68327AACA213EFDE2D5D51EC297BD974F1247F5"
  unfolding off_curve_y_def P256_B_def wrong_by_def P256_BASE_ORDER_def by simp

lemma off_curve_point_accepted:
  "reaches (curve_assert_valid P256Base (constant_nonnative P256_A) (constant_nonnative P256_B)
     (biglimbs 8 2, biglimbs 8 off_curve_y)) ()"
proof -
  let ?t = "P256_B + 2 + wrong_by"
  note d = P256_A_def P256_B_def off_curve_y_def wrong_by_def P256_BASE_ORDER_def
  have c: "constant_nonnative P256_A = biglimbs 8 P256_A" "constant_nonnative P256_B = biglimbs 8 P256_B"
    by (rule constant_8, simp add: d, simp add: d)+
  have yy: "reaches (mul_nonnative P256Base (biglimbs 8 off_curve_y) (biglimbs 8 off_curve_y)) (biglimbs 8 ?t)"
    by (rule mul_nonnative_value [OF _ _ _ off_curve_square]) (simp_all add: d)
  have xx: "reaches (mul_nonnative P256Base (biglimbs 8 2) (biglimbs 8 2)) (biglimbs 8 4)"
    by (rule mul_nonnative_value [where k = 0]) simp_all
  have xxx: "reaches (mul_nonnative P256Base (biglimbs 8 4) (biglimbs 8 2)) (biglimbs 8 8)"
    by (rule mul_nonnative_value [where k = 0]) simp_all
  have ax: "reaches (mul_nonnative P256Base (biglimbs 8 P256_A) (biglimbs 8 2)) (biglimbs 8 (P256_BASE_ORDER - 6))"
    by (rule mul_nonnative_value [where k = 1]) (simp_all add: d)
  have v: "bigval (biglimbs 8 v) = v" if "v < 2 ^ (32 * 8)" for v by (rule bigval_biglimbs_less [OF that])
  have axb: "reaches (add_nonnative P256Base (biglimbs 8 (P256_BASE_ORDER - 6)) (biglimbs 8 P256_B)) (biglimbs 8 (P256_B - 6))"
    by (rule add_nonnative_reaches [OF P256_fits(1), where t = True])
       (simp only: P256_Base_shape u32s_biglimbs length_biglimbs, simp_all add: P256_Base_shape v d)
  have rhs: "reaches (add_nonnative P256Base (biglimbs 8 8) (biglimbs 8 (P256_B - 6))) (biglimbs 8 ?t)"
  proof (rule add_nonnative_forged)
    have "canon (biglimbs 8 ?t ! i) \<noteq> 0" if "i = 0 \<or> i = 1 \<or> i = 2" for i
      using that by (auto simp: biglimbs_def limbs_of_def d)
    then show "\<forall>i < 3. 0 < canon (biglimbs 8 ?t ! i)" by (metis One_nat_def less_2_cases_iff less_antisym not_gr_zero numeral_2_eq_2 numeral_3_eq_3)
  qed (simp_all add: P256_Base_shape v d)
  have eq: "connect_nonnative (biglimbs 8 ?t) (biglimbs 8 ?t)" by (simp add: connect_nonnative_def connect_biguint_iff)
  show ?thesis
    unfolding curve_assert_valid_def prod.case c
    by (rule reaches_bindc [OF yy], rule reaches_bindc [OF xx], rule reaches_bindc [OF xxx], rule reaches_bindc [OF ax],
        rule reaches_bindc [OF axb], rule reaches_bindc [OF rhs], rule reaches_check [OF eq])
qed
lemma off_curve_point_off_curve:
  "off_curve_y < P256_BASE_ORDER" "off_curve_y * off_curve_y mod P256_BASE_ORDER \<noteq> (2 ^ 3 + P256_A * 2 + P256_B) mod P256_BASE_ORDER"
  unfolding off_curve_square mod_mult_self2
  by (simp_all add: P256_A_def P256_B_def wrong_by_def off_curve_y_def P256_BASE_ORDER_def)

end
