(* ===== verification/Ecdsa_Properties.thy ===== *)
theory Ecdsa_Properties
  imports Curve_Windows Nonnative_Field P256_Curve
begin

text \<open>
  The properties of the arithmetic below the in-circuit signature check: big integers, the
  non-native fields, curve points.  The check itself is not sound: the last subsection gives a
  point outside the curve that its validity test accepts.
\<close>

subsection \<open>Non-native arithmetic\<close>

text \<open>C17: multiplication and subtraction admit exactly the results that are right modulo the order,
  as lists of 32-bit limbs: products up to any multiple of the order that fits, differences up to
  one borrowed order.\<close>

theorem nonnative_mul_sub_exact:
  assumes "nonnative_fits FF" "u32s a" "u32s b" "length a = num_nonnative_limbs FF" "length b = num_nonnative_limbs FF"
  shows "outputs (mul_nonnative FF a b) (\<lambda>r. length r = num_nonnative_limbs FF \<and> u32s r
      \<and> (\<exists>k < 2 ^ (32 * (2 * num_nonnative_limbs FF - length (modulus_limbs FF))). bigval a * bigval b = bigval r + ff_order FF * k))
    \<and> outputs (sub_nonnative FF a b) (\<lambda>r. length r = num_nonnative_limbs FF \<and> u32s r
      \<and> (bigval r + bigval b = bigval a \<or> bigval r + bigval b = bigval a + ff_order FF))"
proof
  have l: "length (modulus_limbs FF) \<le> 2 * num_nonnative_limbs FF" using modulus_facts(3) [OF assms(1)] by linarith
  have "length a \<le> 8" using assms(1,4) by (simp add: nonnative_fits_def)
  from mul_nonnative_outputs [OF assms(1-3) this] l
  show "outputs (mul_nonnative FF a b) (\<lambda>r. length r = num_nonnative_limbs FF \<and> u32s r
      \<and> (\<exists>k < 2 ^ (32 * (2 * num_nonnative_limbs FF - length (modulus_limbs FF))). bigval a * bigval b = bigval r + ff_order FF * k))"
    by (simp add: mul_ok_def [abs_def] assms(4,5) mult_2)
  from sub_nonnative_outputs [OF assms(1-3)] assms(4)
  show "outputs (sub_nonnative FF a b) (\<lambda>r. length r = num_nonnative_limbs FF \<and> u32s r
      \<and> (bigval r + bigval b = bigval a \<or> bigval r + bigval b = bigval a + ff_order FF))"
    by (simp add: sub_ok_def [abs_def])
qed

theorem nonnative_mul_sub_exact_witness:
  "outputs (sub_nonnative P256Base (biglimbs 8 3) (biglimbs 8 5))
     (\<lambda>r. length r = 8 \<and> u32s r \<and> (bigval r + 5 = 3 \<or> bigval r + 5 = 3 + ff_order P256Base))"
proof -
  have n: "num_nonnative_limbs P256Base = 8" by (simp add: num_nonnative_limbs_def P256Base_def div_ceil_def)
  have v: "bigval (biglimbs 8 3) = 3" "bigval (biglimbs 8 5) = 5" by (simp_all add: bigval_biglimbs)
  show ?thesis
    using nonnative_mul_sub_exact [OF P256_fits(1) u32s_biglimbs u32s_biglimbs, of 8 3 8 5] by (simp only: n v length_biglimbs simp_thms)
qed

text \<open>C33: whatever the operand wires hold, the results are lists of 32-bit limbs of the field's
  length, and a sum is at most the order.\<close>

theorem nonnative_results_typed:
  "yields (add_nonnative FF a b) (\<lambda>r. u32s r \<and> length r = num_nonnative_limbs FF \<and> bigval r \<le> ff_order FF)
   \<and> yields (sub_nonnative FF a b) (\<lambda>r. u32s r \<and> length r = num_nonnative_limbs FF)
   \<and> yields (mul_nonnative FF a b) (\<lambda>r. u32s r \<and> length r = num_nonnative_limbs FF)
   \<and> yields (add_many_nonnative FF (a # b # xs)) (\<lambda>r. u32s r \<and> length r = num_nonnative_limbs FF \<and> bigval r \<le> ff_order FF)"
proof (intro conjI)
  have range: "range_check_u32_circuit r ws = Some (x, rest) \<Longrightarrow> u32s r" for r ws x rest
    using range_check_u32_yields by (auto simp: yields_def u32s_def)
  have le: "cmp_biguint r (modulus_limbs FF) ws = Some (1, rest) \<Longrightarrow> u32s r \<and> bigval r \<le> ff_order FF" for r ws rest
    using yieldsD [OF cmp_biguint_yields] by (fastforce simp: modulus_limbs_def of_bool_def split: if_splits)
  show "yields (add_nonnative FF a b) (\<lambda>r. u32s r \<and> length r = num_nonnative_limbs FF \<and> bigval r \<le> ff_order FF)"
    using le by (auto simp: yields_def add_nonnative_def bindc_Some Let_def)
  show "yields (sub_nonnative FF a b) (\<lambda>r. u32s r \<and> length r = num_nonnative_limbs FF)"
    using range by (auto simp: yields_def sub_nonnative_def bindc_Some Let_def)
  show "yields (mul_nonnative FF a b) (\<lambda>r. u32s r \<and> length r = num_nonnative_limbs FF)"
    using range by (auto simp: yields_def mul_nonnative_def bindc_Some Let_def)
  show "yields (add_many_nonnative FF (a # b # xs)) (\<lambda>r. u32s r \<and> length r = num_nonnative_limbs FF \<and> bigval r \<le> ff_order FF)"
    using le by (auto simp: yields_def add_many_nonnative_def bindc_Some Let_def)
qed

text \<open>C34: the generator behind a sum of several field elements panics exactly when the sum is below
  the order, in particular on small summands.\<close>

theorem sum_generator_panics_iff:
  assumes "native_256 FF" "\<forall>x \<in> set to_add. bigval x < ff_order FF"
  shows "(\<exists>e. add_many_generator FF to_add = Inl e) \<longleftrightarrow> sum_list (map bigval to_add) < ff_order FF"
proof
  assume "sum_list (map bigval to_add) < ff_order FF"
  then show "\<exists>e. add_many_generator FF to_add = Inl e" using add_many_generator_panics [OF assms] by blast
next
  let ?s = "sum_list (map bigval to_add)"
  note n = native_order [OF assms(1)]
  have m: "map_res (ff_read FF) to_add = Inr (map bigval to_add)"
    using assms(2) by (simp add: map_res_Inr_iff read_canonical [OF assms(1)])
  have s: "foldl (+) 0 (map bigval to_add) = ?s" by (simp only: foldl_add_sum_list add_0)
  have fits: "?s mod ff_order FF < 2 ^ (32 * 8)" using n(2,3) by (meson less_trans mod_less_divisor zero_less_one)
  have set: "set_biguint_target 8 (?s mod ff_order FF) = Inr (biglimbs 8 (?s mod ff_order FF))"
    using fits by (simp only: set_biguint_biglimbs simp_thms)
  assume "\<exists>e. add_many_generator FF to_add = Inl e"
  then have "?s div ff_order FF = 0"
    unfolding add_many_generator_def m bind_res_simps s Let_def n(4) set by (auto simp: ensure_def split: if_splits)
  then show "?s < ff_order FF" using n(2) by (simp add: div_eq_0_iff)
qed

theorem sum_generator_panics_iff_witness: "\<exists>e. add_many_generator P256Base [biglimbs 8 3, biglimbs 8 5] = Inl e"
proof -
  have "bigval (biglimbs 8 3) = 3" "bigval (biglimbs 8 5) = 5" by (simp_all add: bigval_biglimbs)
  then show ?thesis
    using sum_generator_panics_iff [OF P256_native(1), of "[biglimbs 8 3, biglimbs 8 5]"] by (simp add: P256Base_def P256_BASE_ORDER_def)
qed

text \<open>C35: splitting a non-native value into windows of four bits and recombining it gives the value
  back, and neither circuit admits another output.\<close>

theorem windows_roundtrip:
  assumes "u32s n"
  shows "exactly (bindc (split_nonnative_to_4_bit_limbs n) recombine_nonnative_4_bit_limbs) n"
proof (rule exactly_bindc [OF split_nonnative_to_4_bit_limbs_exactly [OF assms]])
  show "exactly (recombine_nonnative_4_bit_limbs (limbs_scan 16 (8 * length n) (bigval n))) n"
    using recombine_nonnative_4_bit_limbs_exactly [of "length n" "bigval n"] by (simp only: biglimbs_bigval [OF assms])
qed

theorem windows_roundtrip_witness:
  "exactly (bindc (split_nonnative_to_4_bit_limbs [0x1234, 7]) recombine_nonnative_4_bit_limbs) [0x1234, 7]"
  using windows_roundtrip [of "[0x1234, 7]"] by simp

subsection \<open>Points\<close>

text \<open>C19: the projective addition computes the chord-and-tangent law on the affine points and stays
  on the curve, and the mixed and the affine additions are the same function.\<close>

theorem projective_addition_law:
  fixes C :: "'f::field curve"
  assumes "(2 :: 'f) \<noteq> 0" "proj_is_valid C p" "proj_is_valid C q"
  shows "to_affine (add_proj_proj C p q) = curve_sum C (to_affine p) (to_affine q)
    \<and> proj_is_valid C (add_proj_proj C p q)
    \<and> add_proj_affine C p a = add_proj_proj C p (to_projective a)
    \<and> add_affine_affine C a b = add_proj_proj C (to_projective a) (to_projective b)"
  using add_proj_proj_affine [OF assms] add_proj_proj_valid [OF assms] by (simp add: add_proj_affine_eq add_affine_affine_eq)

theorem projective_addition_law_witness:
  "to_affine (add_proj_proj \<lparr>curve_A = 0, curve_B = 1, generator_affine = affine_nonzero 2 3\<rparr>
     \<lparr>proj_x = 2, proj_y = 3, proj_z = 1\<rparr> \<lparr>proj_x = 0, proj_y = 1, proj_z = (1 :: gf)\<rparr>) = affine_nonzero (- 1) 0"
  using projective_addition_law [of "\<lparr>curve_A = 0, curve_B = 1, generator_affine = affine_nonzero 2 3\<rparr>"
      "\<lparr>proj_x = 2, proj_y = 3, proj_z = 1\<rparr>" "\<lparr>proj_x = 0, proj_y = 1, proj_z = (1 :: gf)\<rparr>"]
  by (simp add: proj_is_valid_def to_affine_def curve_sum_def Let_def)

text \<open>C18: the gadgets of the signature check can be met on honest values of P-256.  Modulo the base
  field order, where \<open>i\<close> inverts \<open>x2 - x1\<close> and \<open>j\<close> inverts \<open>2 y2\<close>, addition reaches the third
  point of the chord, doubling the third point of the tangent, and the validity test passes on a
  point of the curve; modulo the group order, the inverse of a scalar and its products are
  reached.\<close>

theorem curve_gadgets_complete:
  fixes x1 y1 x2 y2 i j s t x3 x4 z c m :: int
  defines "limbs \<equiv> \<lambda>v. biglimbs 8 (nat (v mod int P256_BASE_ORDER))"
    and "scalar \<equiv> \<lambda>v. biglimbs 8 (nat (v mod int P256_SCALAR_ORDER))"
  assumes "(x2 - x1) * i mod int P256_BASE_ORDER = 1" "2 * y2 * j mod int P256_BASE_ORDER = 1"
    and "y2 * y2 mod int P256_BASE_ORDER = (x2 ^ 3 + int P256_A * x2 + int P256_B) mod int P256_BASE_ORDER"
    and "s = (y2 - y1) * i" "x3 = s\<^sup>2 - x1 - x2" "t = (3 * x2\<^sup>2 + int P256_A) * j" "x4 = t\<^sup>2 - 2 * x2"
    and "z * c mod int P256_SCALAR_ORDER = 1"
  shows "reaches (curve_add P256Base (limbs x1, limbs y1) (limbs x2, limbs y2)) (limbs x3, limbs (s * (x1 - x3) - y1))
    \<and> reaches (curve_double P256Base (constant_nonnative P256_A) (limbs x2, limbs y2)) (limbs x4, limbs (t * (x2 - x4) - y2))
    \<and> reaches (curve_assert_valid P256Base (constant_nonnative P256_A) (constant_nonnative P256_B) (limbs x2, limbs y2)) ()
    \<and> reaches (inv_nonnative P256Scalar (scalar z)) (scalar c)
    \<and> reaches (mul_nonnative P256Scalar (scalar m) (scalar c)) (scalar (m * c))"
proof -
  have n: "p256_base.limbs = 8" "p256_scalar.limbs = 8"
    by (simp_all add: num_nonnative_limbs_def P256Base_def P256Scalar_def div_ceil_def)
  have r: "p256_base.repr v = limbs v" "p256_scalar.repr v = scalar v" for v
    by (simp_all only: p256_base.repr_def p256_scalar.repr_def n residue_def limbs_def scalar_def)
  have pt: "p256_base.repr_point (x, y) = (limbs x, limbs y)" for x y by (simp only: p256_base.repr_point_def r fst_conv snd_conv)
  have reads: "p256_base.reads_point (limbs x, limbs y) (x, y)" for x y
    using p256_base.reads_repr_point [of "(x, y)"] by (simp only: pt)
  have ab: "residue P256_BASE_ORDER (int P256_A) = P256_A" "residue P256_BASE_ORDER (int P256_B) = P256_B"
    by (simp_all add: residue_def P256_A_def P256_B_def P256_BASE_ORDER_def)
  have i: "residue P256_BASE_ORDER ((x2 - x1) * i) = 1" "residue P256_BASE_ORDER ((y2 + y2) * j) = 1"
      "residue P256_SCALAR_ORDER (z * c) = 1"
    using assms(3,4,10) by (simp_all only: residue_def mult_2 nat_1)
  have "x2 * x2 * x2 + (int P256_A * x2 + int P256_B) = x2 ^ 3 + int P256_A * x2 + int P256_B" by (simp add: power3_eq_cube)
  then have v: "residue P256_BASE_ORDER (y2 * y2) = residue P256_BASE_ORDER (x2 * x2 * x2 + (int P256_A * x2 + int P256_B))"
    using assms(5) by (simp only: residue_def)
  have "s * s - (x2 + x1) = x3" by (simp add: assms(7) power2_eq_square)
  then have chord: "p256_base.chord i (x1, y1) (x2, y2) = (x3, s * (x1 - x3) - y1)"
    by (simp only: p256_base.chord_def Let_def fst_conv snd_conv assms(6) [symmetric])
  have "(x2 * x2 + x2 * x2 + x2 * x2 + int P256_A) * j = t" "t * t - (x2 + x2) = x4"
    by (simp_all add: assms(8,9) power2_eq_square)
  then have tangent: "p256_base.tangent (int P256_A) j (x2, y2) = (x4, t * (x2 - x4) - y2)"
    by (simp only: p256_base.tangent_def Let_def fst_conv snd_conv)
  have len: "length (fst (limbs x2, limbs y2)) = p256_base.limbs" by (simp only: n limbs_def length_biglimbs fst_conv)
  note add = p256_base.curve_add_reaches [OF reads [of x1 y1] reads [of x2 y2] i(1), unfolded chord pt]
  note double = p256_base.curve_double_reaches [OF p256_base.reads_constant [of "int P256_A"] reads [of x2 y2] len i(2), unfolded tangent pt ab]
  note valid = p256_base.curve_assert_valid_reaches [OF v, unfolded pt ab]
  note inv = p256_scalar.inv_reaches [OF p256_scalar.reads_repr p256_scalar.length_repr i(3), unfolded r]
  note mul = p256_scalar.mul_reaches [OF p256_scalar.reads_repr p256_scalar.reads_repr disjI1 [OF p256_scalar.length_repr], of m c, unfolded r]
  show ?thesis by (intro conjI add double valid inv mul)
qed

text \<open>The witness adds the points of P-256 with \<open>x = 5\<close> and \<open>x = 6\<close>.\<close>

definition sample_y5 :: int where
  "sample_y5 = 0x459243B9AA581806FE913BCE99817ADE11CA503C64D9A3C533415C083248FBCC"

definition sample_y6 :: int where
  "sample_y6 = 0x36B24C2C54250AC2466985E533720047DCD102B80FE7C0E9220D5128828223CB"

lemma sample_points:
  "2 * sample_y6 * 0xA46D8E61095AE9353CA6C5DA1EDCF309AFC257DB7B17199CE066B2E1D01C7781 = 1 + int P256_BASE_ORDER * 0x464342453370A8E9D85315336DF9B4F4216EF9328DBDBE258FE34E5FC729336B"
  "sample_y6 * sample_y6 = 6 ^ 3 + int P256_A * 6 + int P256_B + int P256_BASE_ORDER * (0xBAFB450C37EB200AA74CDED41FD3736D3C0D42988E18DB74756284B9CA53E12)"
  "(sample_y6 - sample_y5)\<^sup>2 - 5 - 6 = 0x849AE75C32F85FDF7B0026B7FCAF7334591C733CB503A4F2C862AEF7C519E99D + int P256_BASE_ORDER * (0xDD4304ADE90FC7E3C689FF9C39DBD5B12648E1074E9093A7FCD3758F4C39A7)"
  by (simp_all add: sample_y5_def sample_y6_def P256_BASE_ORDER_def P256_A_def P256_B_def power2_eq_square)

theorem curve_gadgets_complete_witness:
  "reaches (curve_assert_valid P256Base (constant_nonnative P256_A) (constant_nonnative P256_B)
     (biglimbs 8 6, biglimbs 8 (nat (sample_y6 mod int P256_BASE_ORDER)))) ()
   \<and> (\<exists>y. reaches (curve_add P256Base (biglimbs 8 5, biglimbs 8 (nat (sample_y5 mod int P256_BASE_ORDER)))
        (biglimbs 8 6, biglimbs 8 (nat (sample_y6 mod int P256_BASE_ORDER)))) (biglimbs 8 0x849AE75C32F85FDF7B0026B7FCAF7334591C733CB503A4F2C862AEF7C519E99D, y))"
proof -
  have small: "v mod int P256_BASE_ORDER = v" if "0 \<le> v" "v \<le> 0x849AE75C32F85FDF7B0026B7FCAF7334591C733CB503A4F2C862AEF7C519E99D" for v
    using that by (intro mod_pos_pos_trivial) (simp_all add: P256_BASE_ORDER_def)
  have prems: "(6 - 5) * 1 mod int P256_BASE_ORDER = 1" "2 * sample_y6 * 0xA46D8E61095AE9353CA6C5DA1EDCF309AFC257DB7B17199CE066B2E1D01C7781 mod int P256_BASE_ORDER = 1"
      "sample_y6 * sample_y6 mod int P256_BASE_ORDER = (6 ^ 3 + int P256_A * 6 + int P256_B) mod int P256_BASE_ORDER"
      "1 * 1 mod int P256_SCALAR_ORDER = 1"
    unfolding sample_points(1,2) mod_mult_self2 using small [of 1] by (simp_all add: P256_SCALAR_ORDER_def)
  note ok = curve_gadgets_complete [where ?y1.0 = sample_y5, OF prems(1-3) refl refl refl refl prems(4)]
  have "((sample_y6 - sample_y5) * 1)\<^sup>2 - 5 - 6 = 0x849AE75C32F85FDF7B0026B7FCAF7334591C733CB503A4F2C862AEF7C519E99D + int P256_BASE_ORDER * (0xDD4304ADE90FC7E3C689FF9C39DBD5B12648E1074E9093A7FCD3758F4C39A7)" using sample_points(3) by simp
  note ok = ok [unfolded this mod_mult_self2]
  have "nat (6 mod int P256_BASE_ORDER) = 6" "nat (5 mod int P256_BASE_ORDER) = 5" "nat (0x849AE75C32F85FDF7B0026B7FCAF7334591C733CB503A4F2C862AEF7C519E99D mod int P256_BASE_ORDER) = 0x849AE75C32F85FDF7B0026B7FCAF7334591C733CB503A4F2C862AEF7C519E99D"
    using small [of 6] small [of 5] small [of "0x849AE75C32F85FDF7B0026B7FCAF7334591C733CB503A4F2C862AEF7C519E99D"] by simp_all
  then show ?thesis using ok by (simp only:) blast
qed

subsection \<open>What the signature check accepts\<close>

text \<open>C16: \<open>curve_assert_valid\<close> accepts, for P-256, the coordinates of a point that is not on the
  curve: the right-hand side may be too large by $1 + 2^{32} + 2^{64}$, because the overflow flag
  of an addition is not constrained to be a bit.\<close>

theorem off_curve_key_accepted:
  "\<exists>x y. x < P256_BASE_ORDER \<and> y < P256_BASE_ORDER
     \<and> reaches (curve_assert_valid P256Base (constant_nonnative P256_A) (constant_nonnative P256_B) (biglimbs 8 x, biglimbs 8 y)) ()
     \<and> y * y mod P256_BASE_ORDER \<noteq> (x ^ 3 + P256_A * x + P256_B) mod P256_BASE_ORDER"
proof (intro exI conjI)
  show "2 < P256_BASE_ORDER" by (simp add: P256_BASE_ORDER_def)
qed (rule off_curve_point_off_curve off_curve_point_accepted)+

end
