(* ===== verification/Spec2Isabelle.thy ===== *)
theory Spec2Isabelle
  imports Gadget_Properties Credential_Properties Hash_Properties Word_Properties Sha_Properties Pipeline_Properties Jwt_Properties
    Ecdsa_Properties
begin

text \<open>
  A verification development for delegatable anonymous credentials built from legacy (JWT)
  credentials.

  \<^bold>\<open>The program.\<close>  An issuer signs a JWT.  The base circuit \<open>R_Base\<close> (\<open>src/src/circuits/jwt_base.rs\<close>)
  proves knowledge of a signed JWT and publishes the issuer key, a Merkle commitment to the
  attributes, a level and a depth cap.  The wrapper \<open>R_Wrap\<close> (\<open>jwt_wrapper.rs\<close>) verifies a base proof
  under a hard-coded key and forwards its public inputs in the shape of the delegation circuit
  \<open>R_Del\<close> (\<open>delegate.rs\<close>), which verifies either a wrapper proof (level 1) or a proof of itself
  (deeper levels), raises the level, tightens the cap and replaces dropped attributes by the zero
  leaf.  The presentation circuit \<open>R_Pres\<close> (\<open>present.rs\<close>) verifies a delegation proof and publishes
  the revealed leaf digests.  The circuits are built with the vendored \<open>plonky2\<close>.

  \<^bold>\<open>How circuits are modelled.\<close>  A circuit is a predicate on a record of its wire values that
  holds exactly when every constraint the builder adds is satisfied; witness generation is a
  function into such records.  Field elements are the prime field of order $2^{64} - 2^{32} + 1$
  (type \<open>gf\<close>); a builder method that only computes is a function on field elements, one that adds
  gates is a predicate.  Errors (\<open>bail!\<close>, \<open>ensure!\<close>, \<open>panic!\<close>, \<open>assert!\<close>, indexing) are values of
  \<open>error + 'a\<close>.  Proof verification (\<open>verify_proof\<close>) is a parameter \<open>verify\<close>: what the circuits rely on,
  knowledge soundness, is a named hypothesis of the theorems that use it, and \<open>Ideal_Proofs\<close>
  gives a concrete system in which it holds.

  \<^bold>\<open>Theories.\<close>
  \<^item> \<open>Prelude\<close>, \<open>Order_Prime\<close>, \<open>Goldilocks\<close>: results and error values, bytes; the field
    (\<open>field/src/goldilocks_field.rs\<close>), the primality of its order, canonical representatives.
  \<^item> \<open>Builder\<close>: the arithmetic methods of \<open>CircuitBuilder\<close> with their special cases
    (\<open>gadgets/arithmetic.rs\<close>, \<open>gadgets/select.rs\<close>) and why the simplified targets have the
    intended values.
  \<^item> \<open>Goldilocks_Impl\<close>: the field operations on 64-bit words of \<open>goldilocks_field.rs\<close>, with the
    debug checks and compiler assumptions of the code as error branches, and that each computes in
    the field; \<open>Poseidon_Impl\<close>: the permutation on words (\<open>poseidon.rs\<close>, \<open>poseidon_goldilocks.rs\<close>:
    the MDS products by convolution in the frequency domain, 160-bit sums);
    \<open>Poseidon_Fast_Tables\<close>, \<open>Poseidon_Fast\<close>, \<open>Poseidon_Equivalence\<close>: the precomputed tables of the
    fast partial rounds are those the naive rounds give.
  \<^item> \<open>Circuit\<close>: gadgets with private wires, as functions that take the prover's wire values from a
    list and fail when a constraint is violated; \<open>exactly c v\<close> (no other output, and some wires
    reach it), \<open>outputs c P\<close> (the possible outputs are those with \<open>P\<close>).  \<open>U32_Gates\<close>,
    \<open>U32_Gadgets\<close>, \<open>Comparison\<close>: the gates and gadgets of \<open>plonky2_u32/src/\<close> with their generators.
  \<^item> \<open>Sha256_Spec\<close>: SHA-256 on words; \<open>Sha256_Circuit\<close>, \<open>Sha256_Varlen\<close>: the circuits of
    \<open>plonky2_sha256/src/circuit.rs\<close> and \<open>src/circuits/gadgets/sha256_variable.rs\<close>.
  \<^item> \<open>Gates\<close>: the base-sum and random-access gates, \<open>split_le\<close>, \<open>range_check\<close>, \<open>le_sum\<close>,
    \<open>random_access\<close>.
  \<^item> \<open>Gadgets\<close>, \<open>Array_Slice\<close>, \<open>Base64\<close>, \<open>Json_Parse\<close>, \<open>Cnf\<close>: \<open>src/circuits/gadgets/\<close>, with the
    off-circuit helpers of \<open>src/credential/cnf.rs\<close>; \<open>Utf8\<close> is the validity check of the standard
    library.
  \<^item> \<open>Attribute\<close>, \<open>Crypto_Utils\<close>: \<open>src/credential/attribute.rs\<close>, \<open>src/utils/crypto.rs\<close>.
  \<^item> \<open>Jwt\<close>, \<open>Jwt_Issue\<close>, \<open>Jwt_Compact\<close>: \<open>src/credential/jwt.rs\<close>: layouts, payload text, issuing, padding,
    the compact form; what issuing returns and that reading back undoes writing.
  \<^item> \<open>Biguint\<close>, \<open>Scalar_Conversion\<close>: limbs of big integers; the digest as a scalar
    (\<open>gadgets/scalar_conversion.rs\<close>, \<open>gadgets/ecdsa.rs\<close>).
  \<^item> \<open>Jwt_Base\<close>: the base circuit and its prover (\<open>src/circuits/jwt_base.rs\<close>), with the signature check as the
    argument \<open>verify_p256\<close>; \<open>Jwt_Base_Sound\<close>, \<open>Jwt_Base_Complete\<close>: the relation over byte strings it proves, and
    the issued credentials it accepts; \<open>Credential_Origin\<close>: the chain down to the JWT.
  \<^item> \<open>Biguint_Gadgets\<close>, \<open>Nonnative\<close>: the integers and the foreign fields of \<open>plonky2_ecdsa/src/gadgets/\<close>
    (\<open>biguint.rs\<close>, \<open>nonnative.rs\<close>), each operation with the outputs its constraints admit and its generator.
    \<open>Curve\<close>: points natively (\<open>plonky2_ecdsa/src/curve/\<close>); \<open>Curve_Gadgets\<close>: points in the circuit up to
    \<open>verify_p256_message_circuit\<close>; \<open>Nonnative_Field\<close>: that honest operands meet the constraints of the
    field and point operations; \<open>Curve_Windows\<close>: digit windows and table lookups; \<open>P256_Curve\<close>: the constants and a point outside the curve.
  \<^item> \<open>Hashing\<close>, \<open>Poseidon_Constants\<close>, \<open>Poseidon\<close>, \<open>Merkle\<close>: \<open>plonky2/src/hash/\<close>: the sponge, the
    permutation with its tables, Merkle trees, proofs and the in-circuit verifier.
  \<^item> \<open>Commitment\<close>: \<open>src/utils/merkle.rs\<close>.
  \<^item> \<open>Recursion\<close>: \<open>plonky2/src/recursion/\<close>: verifier keys as public inputs, conditional and cyclic
    verification, the cyclic base proof; \<open>src/circuits/layout.rs\<close>.
  \<^item> \<open>Wrapper\<close>, \<open>Delegate\<close>, \<open>Present\<close>: the three application circuits over a base proof.
  \<^item> \<open>Delegation_Chain\<close>, \<open>Ideal_Proofs\<close>: runs of the delegation circuit, what they keep, which
    lengths the prover reaches and that descending ends; the abstract credential and its delegations
    as a step relation, which a run refines; accepted proofs end runs.
  \<^item> \<open>Gadget_Properties\<close>, \<open>Credential_Properties\<close>, \<open>Hash_Properties\<close>, \<open>Word_Properties\<close>, \<open>Sha_Properties\<close>,
    \<open>Jwt_Properties\<close>, \<open>Ecdsa_Properties\<close>, \<open>Pipeline_Properties\<close>: the properties, each with a witness at a concrete input.

  \<^bold>\<open>Interfaces.\<close>  \<open>sponge_permutation\<close> (a permutation keeps the state's width) is interpreted by
  Poseidon; \<open>tree_hasher\<close> (digests have four elements, the circuit's pair hash is the compression)
  by every such sponge; \<open>base64_codec\<close> and \<open>hex_codec\<close> state what the code relies on of the
  \<open>base64\<close> and \<open>hex\<close> crates and are interpreted by RFC 4648 codings; \<open>delegation_system\<close>
  (knowledge soundness of delegation proofs) by the transparent proof system; \<open>canonical_residues\<close>
  (the trait \<open>PrimeField\<close>: canonical representatives add and multiply modulo the order) by the
  integers modulo the base field order and modulo the group order of P-256.

  \<^bold>\<open>What is shown.\<close>  The gadget circuits have exactly the intended solutions, and the provers'
  witness functions reach them; hashing and trees agree in and off the circuit.  Two openings of
  one commitment are equal or hand over a collision: where a statement allows for one, it is among
  the finitely many pairs that the trees it speaks of compress (\<open>collides\<close> over \<open>compress_inputs\<close> and
  \<open>run_inputs\<close>), not merely somewhere in the domain.  One delegation step is accepted exactly when
  the level and cap rules hold.  A run, a list of satisfied delegation circuits each over the
  public inputs of the one below, keeps issuer and wrapper digest, counts its steps in the level,
  has one of the lengths up to the cap, and, unless its own trees collide, only zeroes leaves of
  its base step.  Accepted proofs end runs if the proof system is knowledge sound; then a
  presentation discloses, slot by slot, a leaf the base step hashed or the zero leaf.  The base
  circuit proves the relation between a JWT and the published values, its prover's witness is
  accepted exactly when the digest is below the group order, and a run whose base step carries the
  genuine wrapper key starts from such a JWT.  Non-native multiplication and subtraction are exact
  modulo the order, and the point operations can be met on honest operands of P-256.  Gaps: \<open>wrapper_key_not_pinned\<close> (the
  delegation circuit binds only the digest of the wrapper's key), \<open>off_curve_key_accepted\<close> (non-native
  addition leaves its overflow flag free, so the validity test of a public key accepts points
  outside the curve), \<open>inv_nonnative_forged\<close> and \<open>rem_biguint_forged\<close> (limbs without range checks).

  \<^bold>\<open>Bounds.\<close>  Circuit sizes are parameters; array lengths are below the field order, as they are
  for any circuit that fits in memory (the base circuit's completeness takes array lengths below
  $2^{24}$).  The left factor of a limb product has at most eight limbs, as every operand of a 256-bit
  field has, so that its column sums stay below $2^{36}$.  No definition uses fuel; loops are structural recursion,
  folds, or functions with a termination proof.

  \<^bold>\<open>Not modelled.\<close>  The FRI and PLONK prover and verifier, circuit compilation (copy
  constraints, gate selection, generators' scheduling), serialization, the SIMD and packed-field
  variants, lookup tables, file and JSON input and output, benchmarks and tests.  Of the elliptic
  curves: the group law's associativity, multi-scalar multiplication and the secp256k1
  endomorphism.  The base circuit keeps its signature check as a parameter with soundness as a named
  hypothesis, because the modelled gadgets do not enforce it.  Zero knowledge is a property of the
  proof system and not of the modelled code.
\<close>

end
